(* ===== verification/Prelude.thy ===== *)
theory Prelude
  imports Complex_Main "HOL-Library.AList" "HOL-Library.List_Lexorder" "HOL-Library.Char_ord"
begin

text \<open>
  Shared vocabulary of the development: the Python exceptions the modelled code raises, insertion
  ordered dictionaries (Python's \<open>dict\<close> and \<open>OrderedDict\<close>) as association lists with distinct keys,
  the idiom \<open>sorted({int(e) for e in experts})\<close>, Python list indexing and slicing, the result type
  of fallible code, and the lemmas on them that the component theories share.
\<close>

section \<open>Errors\<close>

datatype py_error =
    ValueError
  | TypeError
  | KeyError
  | IndexError
  | AttributeError
  | RuntimeError
  | FileNotFoundError
  | StopIteration
  | AssertionError
  | StructError
  | JSONDecodeError
  | ZeroDivisionError
  | SystemExit

type_synonym 'a res = "py_error + 'a"

definition res_bind :: "'a res \<Rightarrow> ('a \<Rightarrow> 'b res) \<Rightarrow> 'b res" where
  "res_bind r f = (case r of Inl e \<Rightarrow> Inl e | Inr x \<Rightarrow> f x)"

lemma res_bind_simps [simp]:
  "res_bind (Inl e) f = Inl e"
  "res_bind (Inr x) f = f x"
  by (simp_all add: res_bind_def)

lemma res_bind_Inr_iff: "res_bind r f = Inr y \<longleftrightarrow> (\<exists>x. r = Inr x \<and> f x = Inr y)"
  by (cases r) auto

text \<open>A list comprehension whose body may raise stops at the first exception.\<close>

fun res_map :: "('a \<Rightarrow> 'b res) \<Rightarrow> 'a list \<Rightarrow> 'b list res" where
  "res_map f [] = Inr []"
| "res_map f (x # xs) =
     (case f x of Inl e \<Rightarrow> Inl e
      | Inr y \<Rightarrow> (case res_map f xs of Inl e \<Rightarrow> Inl e | Inr ys \<Rightarrow> Inr (y # ys)))"

lemma res_map_Inr_length: "res_map f xs = Inr ys \<Longrightarrow> length ys = length xs"
  by (induction xs arbitrary: ys) (auto split: sum.splits)

lemma res_map_all_Inr: "(\<And>x. x \<in> set xs \<Longrightarrow> f x = Inr (g x)) \<Longrightarrow> res_map f xs = Inr (map g xs)"
  by (induction xs) auto

section \<open>Sorted unique lists: sorted({...})\<close>

definition uniq :: "'a::linorder list \<Rightarrow> 'a list" where
  "uniq xs = sort (remdups xs)"

lemma set_uniq [simp]: "set (uniq xs) = set xs"
  by (simp add: uniq_def)

lemma sorted_uniq [simp]: "sorted (uniq xs)"
  by (simp add: uniq_def)

lemma distinct_uniq [simp]: "distinct (uniq xs)"
  by (simp add: uniq_def)

lemma uniq_Nil_iff [simp]: "uniq xs = [] \<longleftrightarrow> xs = []"
  by (metis set_empty set_uniq)

lemma uniq_Nil [simp]: "uniq [] = []"
  by (simp add: uniq_def)

lemma uniq_cong_set: "set xs = set ys \<Longrightarrow> uniq xs = uniq ys"
  by (simp add: sorted_distinct_set_unique)

lemma uniq_id: "sorted xs \<Longrightarrow> distinct xs \<Longrightarrow> uniq xs = xs"
  by (simp add: sorted_distinct_set_unique)

lemma uniq_uniq [simp]: "uniq (uniq xs) = uniq xs"
  by (simp add: uniq_id)

lemma length_uniq: "length (uniq xs) = card (set xs)"
  using distinct_card [OF distinct_uniq, of xs] by simp

lemma length_uniq_le: "length (uniq xs) \<le> length xs"
  by (simp add: length_uniq card_length)

section \<open>Ordered dictionaries\<close>

text \<open>
  \<open>AList.update\<close> is Python's \<open>d[k] = v\<close> (an existing key keeps its position, a new key goes to the
  end) and \<open>AList.delete\<close> is \<open>del d[k]\<close>; \<open>map_of d k\<close> is \<open>d.get(k)\<close>.
\<close>

definition keys_of :: "('k \<times> 'v) list \<Rightarrow> 'k list" where
  "keys_of d = map fst d"

definition dict_ok :: "('k \<times> 'v) list \<Rightarrow> bool" where
  "dict_ok d \<longleftrightarrow> distinct (keys_of d)"

lemma dict_ok_Nil [simp]: "dict_ok []"
  by (simp add: dict_ok_def keys_of_def)

lemma dict_ok_update [simp]: "dict_ok d \<Longrightarrow> dict_ok (AList.update k v d)"
  by (simp add: dict_ok_def keys_of_def distinct_update)

lemma dict_ok_delete [simp]: "dict_ok d \<Longrightarrow> dict_ok (AList.delete k d)"
  by (simp add: dict_ok_def keys_of_def distinct_delete)

lemma dict_ok_tl [simp]: "dict_ok d \<Longrightarrow> dict_ok (tl d)"
  by (cases d) (simp_all add: dict_ok_def keys_of_def)

lemma map_of_update [simp]: "map_of (AList.update k v d) = (map_of d)(k \<mapsto> v)"
  by (simp add: update_conv')

lemma map_of_delete [simp]: "map_of (AList.delete k d) = (map_of d)(k := None)"
  by (simp add: delete_conv')

lemma keys_of_update:
  "keys_of (AList.update k v d) = (if k \<in> set (keys_of d) then keys_of d else keys_of d @ [k])"
  by (induction d) (auto simp: keys_of_def)

lemma length_keys_of [simp]: "length (keys_of d) = length d"
  by (simp add: keys_of_def)

lemma length_update: "length (AList.update k v d) = (if k \<in> set (keys_of d) then length d else Suc (length d))"
  using arg_cong [OF keys_of_update [of k v d], of length] by (simp split: if_splits)

lemma map_of_None_keys: "map_of d k = None \<longleftrightarrow> k \<notin> set (keys_of d)"
  by (simp add: keys_of_def map_of_eq_None_iff)

lemma map_of_Some_keys: "map_of d k = Some v \<Longrightarrow> k \<in> set (keys_of d)"
  by (metis map_of_None_keys option.distinct(1))

lemma keys_of_delete: "keys_of (AList.delete k d) = filter (\<lambda>x. x \<noteq> k) (keys_of d)"
  by (induction d) (auto simp: keys_of_def)

lemma length_delete: "dict_ok d \<Longrightarrow> k \<in> set (keys_of d) \<Longrightarrow> Suc (length (AList.delete k d)) = length d"
proof (induction d)
  case Nil
  then show ?case by (simp add: keys_of_def)
next
  case (Cons p d)
  show ?case
  proof (cases "fst p = k")
    case True
    with Cons.prems have "k \<notin> fst ` set d" by (auto simp: dict_ok_def keys_of_def)
    with True show ?thesis by (simp add: delete_simps)
  next
    case False
    with Cons show ?thesis by (auto simp: dict_ok_def keys_of_def)
  qed
qed

text \<open>\<open>OrderedDict.move_to_end(k)\<close> for a present key.\<close>

definition move_to_end :: "'k \<Rightarrow> ('k \<times> 'v) list \<Rightarrow> ('k \<times> 'v) list" where
  "move_to_end k d = (case map_of d k of None \<Rightarrow> d | Some v \<Rightarrow> AList.delete k d @ [(k, v)])"

lemma map_of_move_to_end [simp]: "map_of (move_to_end k d) = map_of d"
  by (auto simp: move_to_end_def map_add_def fun_eq_iff split: option.splits)

lemma keys_of_append [simp]: "keys_of (d @ d') = keys_of d @ keys_of d'"
  by (simp add: keys_of_def)

lemma dict_ok_move_to_end [simp]: "dict_ok d \<Longrightarrow> dict_ok (move_to_end k d)"
  by (auto simp: move_to_end_def dict_ok_def keys_of_delete keys_of_def [of "[_]"] split: option.splits)

lemma keys_of_move_to_end:
  "k \<in> set (keys_of d) \<Longrightarrow> keys_of (move_to_end k d) = filter (\<lambda>x. x \<noteq> k) (keys_of d) @ [k]"
  using map_of_None_keys [of d k]
  by (auto simp: move_to_end_def keys_of_delete keys_of_def [of "[_]"] split: option.splits)

lemma set_keys_of_move_to_end [simp]: "set (keys_of (move_to_end k d)) = set (keys_of d)"
  by (metis dom_map_of_conv_image_fst keys_of_def list.set_map map_of_move_to_end)

lemma length_move_to_end [simp]: "dict_ok d \<Longrightarrow> length (move_to_end k d) = length d"
  using length_delete [of d k] map_of_Some_keys [of d k]
  by (auto simp: move_to_end_def split: option.splits)

lemma map_of_tl:
  assumes "dict_ok d" and "d \<noteq> []"
  shows "map_of (tl d) = (map_of d)(fst (hd d) := None)"
  using assms by (cases d) (auto simp: dict_ok_def keys_of_def fun_eq_iff map_of_eq_None_iff)

section \<open>Python sequences\<close>

text \<open>\<open>xs[a:b]\<close> with \<open>0 \<le> a\<close> and \<open>0 \<le> b\<close>: Python clips both ends.\<close>

definition py_slice :: "nat \<Rightarrow> nat \<Rightarrow> 'a list \<Rightarrow> 'a list" where
  "py_slice a b xs = take (b - a) (drop a xs)"

lemma length_py_slice: "b \<le> length xs \<Longrightarrow> length (py_slice a b xs) = b - a"
  by (simp add: py_slice_def)

text \<open>\<open>xs[-k:]\<close>: the last \<open>k\<close> elements; for \<open>k = 0\<close> Python's \<open>xs[-0:]\<close> is the whole list.\<close>

definition py_last :: "nat \<Rightarrow> 'a list \<Rightarrow> 'a list" where
  "py_last k xs = (if k = 0 then xs else drop (length xs - k) xs)"

definition enumerate_from0 :: "'a list \<Rightarrow> (nat \<times> 'a) list" where
  "enumerate_from0 xs = zip [0..<length xs] xs"

text \<open>Position of the first occurrence, as \<open>tuple.index\<close>; raises \<open>ValueError\<close> when absent.\<close>

fun py_index :: "'a list \<Rightarrow> 'a \<Rightarrow> nat option" where
  "py_index [] x = None"
| "py_index (y # ys) x = (if x = y then Some 0 else map_option Suc (py_index ys x))"

lemma py_index_Some: "py_index xs x = Some i \<Longrightarrow> i < length xs \<and> xs ! i = x"
  by (induction xs arbitrary: i) (auto split: if_splits)

lemma py_index_None: "py_index xs x = None \<longleftrightarrow> x \<notin> set xs"
  by (induction xs) auto

lemma py_index_nth: "distinct xs \<Longrightarrow> i < length xs \<Longrightarrow> py_index xs (xs ! i) = Some i"
proof (induction xs arbitrary: i)
  case Nil
  then show ?case by simp
next
  case (Cons y ys)
  show ?case
  proof (cases i)
    case 0
    then show ?thesis by simp
  next
    case (Suc j)
    with Cons.prems have "ys ! j \<noteq> y" and "j < length ys" by (auto dest: nth_mem)
    with Cons Suc show ?thesis by simp
  qed
qed

text \<open>Contiguous runs of equal length in a concatenation.\<close>

lemma py_slice_concat:
  assumes "\<And>x. x \<in> set xss \<Longrightarrow> length x = n" and "i < length xss"
  shows "py_slice (i * n) (Suc i * n) (concat xss) = xss ! i"
  using assms
proof (induction xss arbitrary: i)
  case Nil
  then show ?case by simp
next
  case (Cons x xss)
  then have len: "length x = n" by simp
  show ?case
  proof (cases i)
    case 0
    with len show ?thesis by (simp add: py_slice_def)
  next
    case (Suc j)
    have "py_slice (j * n) (Suc j * n) (concat xss) = xss ! j"
      by (rule Cons.IH) (use Cons.prems Suc in auto)
    with len Suc show ?thesis by (simp add: py_slice_def)
  qed
qed

lemma concat_uniform_nth:
  "(\<And>ys. ys \<in> set yss \<Longrightarrow> length ys = m) \<Longrightarrow> i < length yss * m \<Longrightarrow>
     concat yss ! i = yss ! (i div m) ! (i mod m)"
proof (induction yss arbitrary: i)
  case (Cons ys yss)
  then have m: "0 < m" and ys: "length ys = m" by (auto intro: gr0I)
  show ?case
  proof (cases "i < m")
    case True
    then show ?thesis using ys by (simp add: nth_append)
  next
    case False
    then have "i div m = Suc ((i - m) div m)" "i mod m = (i - m) mod m" using m by (simp_all add: le_div_geq le_mod_geq)
    moreover have "concat yss ! (i - m) = yss ! ((i - m) div m) ! ((i - m) mod m)"
      using Cons.prems False by (intro Cons.IH) auto
    ultimately show ?thesis using False ys by (simp add: nth_append)
  qed
qed simp

lemma length_concat_uniform:
  "(\<And>ys. ys \<in> set yss \<Longrightarrow> length ys = m) \<Longrightarrow> length (concat yss) = length yss * m"
  by (induction yss) auto

end
