(* ===== verification/Routing.thy ===== *)
theory Routing
  imports Prelude "HOL-Library.Multiset"
begin

text \<open>
  The routing laws shared by the routers and the prerouters: \<open>select_from_logits\<close> (softmax, top-k,
  renormalise) and \<open>group_select_from_logits\<close> (sigmoid, group-limited top-k) of \<open>moe/routing.py\<close>, with
  the model's own copies of the second law (\<open>BailingGate.__call__\<close> and
  \<open>BailingSparseMoE._select_from_logits\<close>). All of them act on the last axis, so a definition is about
  one row: the logits of one token. Scores are elements of an ordered field, extended by the two
  infinities where the code masks with \<open>-inf\<close> and negates.

  \<open>core.softmax\<close>, \<open>core.sigmoid\<close>, \<open>core.argpartition\<close> and \<open>core.topk\<close> are MLX's: the record
  \<open>rkernels\<close>, with their documented behaviour in \<open>rkernels_ok\<close>.
\<close>

section \<open>Scores with infinities\<close>

datatype 'a ext = NegInf | Fin 'a | PosInf

fun ext_neg :: "'a::uminus ext \<Rightarrow> 'a ext" where
  "ext_neg NegInf = PosInf"
| "ext_neg (Fin x) = Fin (- x)"
| "ext_neg PosInf = NegInf"

instantiation ext :: (linorder) linorder
begin

fun less_eq_ext :: "'a ext \<Rightarrow> 'a ext \<Rightarrow> bool" where
  "less_eq_ext NegInf _ = True"
| "less_eq_ext (Fin x) (Fin y) = (x \<le> y)"
| "less_eq_ext (Fin _) PosInf = True"
| "less_eq_ext PosInf PosInf = True"
| "less_eq_ext _ _ = False"

definition less_ext :: "'a ext \<Rightarrow> 'a ext \<Rightarrow> bool" where
  "less_ext x y \<longleftrightarrow> x \<le> y \<and> \<not> y \<le> (x :: 'a ext)"

instance
proof
  fix x y z :: "'a ext"
  show "x < y \<longleftrightarrow> x \<le> y \<and> \<not> y \<le> x" by (simp add: less_ext_def)
  show "x \<le> x" by (cases x) auto
  show "x \<le> y \<or> y \<le> x" by (cases x; cases y) auto
  show "x \<le> y \<Longrightarrow> y \<le> x \<Longrightarrow> x = y" by (cases x; cases y) auto
  show "x \<le> y \<Longrightarrow> y \<le> z \<Longrightarrow> x \<le> z" by (cases x; cases y; cases z) auto
qed

end

lemma ext_neg_le [simp]: "ext_neg x \<le> ext_neg y \<longleftrightarrow> y \<le> (x :: 'a::linordered_ab_group_add ext)"
  by (cases x; cases y) auto

section \<open>The selections\<close>

record 'a rkernels =
  r_softmax :: "'a list \<Rightarrow> 'a list"
  r_sigmoid :: "'a \<Rightarrow> 'a"
  r_argpart :: "'a ext list \<Rightarrow> nat \<Rightarrow> nat list"
  r_topk :: "'a list \<Rightarrow> nat \<Rightarrow> 'a list"

text \<open>
  \<open>argpartition(gates, kth=-top_k)[..., -top_k:]\<close>: a negative \<open>kth\<close> counts from the end, and
  \<open>-0\<close> is \<open>0\<close>, so that \<open>top_k = 0\<close> keeps the whole row. An axis index out of range raises.
\<close>

definition top_part :: "'a rkernels \<Rightarrow> 'a list \<Rightarrow> nat \<Rightarrow> nat list res" where
  "top_part R gates k =
     (let n = length gates in
      if k > n \<or> n = 0 then Inl ValueError
      else Inr (if k = 0 then r_argpart R (map Fin gates) 0
                else drop (n - k) (r_argpart R (map Fin gates) (n - k))))"

definition select_from_logits :: "'a::linordered_field rkernels \<Rightarrow> 'a list \<Rightarrow> nat \<Rightarrow> bool \<Rightarrow> (nat list \<times> 'a list) res" where
  "select_from_logits R logits k renorm =
     (let gates = r_softmax R logits in
      res_bind (top_part R gates k) (\<lambda>inds.
        let scores = map (\<lambda>i. gates ! i) inds
        in Inr (inds, if renorm then map (\<lambda>s. s / sum_list scores) scores else scores)))"

text \<open>\<open>reshape\<close> of a row into \<open>n_group\<close> groups of \<open>gsize\<close>; another product of sizes raises.\<close>

definition groups_of :: "nat \<Rightarrow> nat \<Rightarrow> 'a list \<Rightarrow> 'a list list res" where
  "groups_of n_group gsize xs =
     (if n_group * gsize = length xs
      then Inr (map (\<lambda>g. take gsize (drop (g * gsize) xs)) [0..<n_group]) else Inl ValueError)"

text \<open>
  The group limit: the \<open>k_drop\<close> groups with the smallest sum of their two best scores are masked with
  \<open>-inf\<close> as a whole (\<open>put_along_axis\<close> broadcasts over the group).
\<close>

definition group_scores :: "'a::linordered_field rkernels \<Rightarrow> 'a list list \<Rightarrow> 'a list" where
  "group_scores R gs = map (\<lambda>g. sum_list (r_topk R g 2)) gs"

definition dropped_groups :: "'a::linordered_field rkernels \<Rightarrow> 'a list list \<Rightarrow> nat \<Rightarrow> nat list" where
  "dropped_groups R gs k_drop = take k_drop (r_argpart R (map Fin (group_scores R gs)) (k_drop - 1))"

definition mask_groups :: "nat list \<Rightarrow> 'a list list \<Rightarrow> 'a ext list" where
  "mask_groups drops gs =
     concat (map (\<lambda>(g, xs). if g \<in> set drops then map (\<lambda>_. NegInf) xs else map Fin xs) (enumerate_from0 gs))"

definition group_limit ::
  "'a::linordered_field rkernels \<Rightarrow> nat \<Rightarrow> nat \<Rightarrow> nat \<Rightarrow> 'a list \<Rightarrow> 'a ext list res" where
  "group_limit R n_group topk_group gsize select =
     (if n_group - topk_group > 0
      then res_bind (groups_of n_group gsize select) (\<lambda>gs.
             if gsize < 2 then Inl ValueError
             else Inr (mask_groups (dropped_groups R gs (n_group - topk_group)) gs))
      else Inr (map Fin select))"

text \<open>\<open>argpartition(-select, kth=top_k - 1)[..., :top_k]\<close>; with \<open>top_k = 0\<close> the \<open>kth\<close> is \<open>-1\<close>.\<close>

definition best_part :: "'a::linordered_field rkernels \<Rightarrow> 'a ext list \<Rightarrow> nat \<Rightarrow> nat list res" where
  "best_part R select k =
     (let n = length select in
      if k > n \<or> n = 0 then Inl ValueError
      else Inr (take k (r_argpart R (map ext_neg select) (if k = 0 then n - 1 else k - 1))))"

definition chosen_weights :: "bool \<Rightarrow> 'a::linordered_field \<Rightarrow> 'a list \<Rightarrow> nat list \<Rightarrow> 'a list" where
  "chosen_weights renorm scaling scores idx =
     (let w = map (\<lambda>i. scores ! i) idx;
          w = (if renorm then map (\<lambda>x. x / (sum_list w + 1 / 10 ^ 20)) w else w)
      in map (\<lambda>x. x * scaling) w)"

definition add_bias :: "'a::linordered_field list option \<Rightarrow> 'a list \<Rightarrow> 'a list res" where
  "add_bias bias scores =
     (case bias of
        None \<Rightarrow> Inr scores
      | Some b \<Rightarrow> if length b = length scores then Inr (map2 (+) scores b) else Inl ValueError)"

definition group_select_from_logits ::
  "'a::linordered_field rkernels \<Rightarrow> 'a list \<Rightarrow> nat \<Rightarrow> nat \<Rightarrow> nat \<Rightarrow> 'a \<Rightarrow> bool \<Rightarrow> 'a list option
     \<Rightarrow> (nat list \<times> 'a list) res" where
  "group_select_from_logits R logits k n_group topk_group scaling renorm bias =
     (let scores = map (r_sigmoid R) logits in
      res_bind (add_bias bias scores) (\<lambda>select.
      res_bind (group_limit R n_group topk_group (length select div n_group) select) (\<lambda>masked.
      res_bind (best_part R masked k) (\<lambda>idx.
        Inr (idx, chosen_weights renorm scaling scores idx)))))"

section \<open>The model's copies of the group law\<close>

record 'a gate_args =
  ga_num_experts :: nat
  ga_n_group :: nat
  ga_topk_group :: nat
  ga_top_k :: nat
  ga_norm :: bool
  ga_scaling :: 'a
  ga_bias_enabled :: bool

text \<open>\<open>BailingGate.__call__\<close> on the logits \<open>x @ weight.T\<close> of one token.\<close>

definition bailing_gate ::
  "'a::linordered_field rkernels \<Rightarrow> 'a gate_args \<Rightarrow> 'a list \<Rightarrow> 'a list \<Rightarrow> (nat list \<times> 'a list) res" where
  "bailing_gate R a expert_bias logits =
     (let scores = map (r_sigmoid R) logits in
      res_bind (add_bias (if ga_bias_enabled a then Some expert_bias else None) scores) (\<lambda>select.
      res_bind (group_limit R (ga_n_group a) (ga_topk_group a) (ga_num_experts a div ga_n_group a) select) (\<lambda>masked.
      res_bind (best_part R masked (ga_top_k a)) (\<lambda>idx.
        Inr (idx, chosen_weights (ga_norm a) (ga_scaling a) scores idx)))))"

text \<open>\<open>BailingSparseMoE._select_from_logits\<close>: the same law on prerouter logits, without the bias.\<close>

definition bailing_select ::
  "'a::linordered_field rkernels \<Rightarrow> 'a gate_args \<Rightarrow> 'a list \<Rightarrow> (nat list \<times> 'a list) res" where
  "bailing_select R a logits =
     (let scores = map (r_sigmoid R) logits in
      res_bind (group_limit R (ga_n_group a) (ga_topk_group a) (ga_num_experts a div ga_n_group a) scores) (\<lambda>masked.
      res_bind (best_part R masked (ga_top_k a)) (\<lambda>idx.
        Inr (idx, chosen_weights (ga_norm a) (ga_scaling a) scores idx))))"

section \<open>What the kernels promise\<close>

definition argpart_ok :: "('a::linorder ext list \<Rightarrow> nat \<Rightarrow> nat list) \<Rightarrow> bool" where
  "argpart_ok ap \<longleftrightarrow>
     (\<forall>xs k. k < length xs \<longrightarrow>
        distinct (ap xs k) \<and> set (ap xs k) = {..<length xs} \<and>
        (\<forall>i<k. xs ! (ap xs k ! i) \<le> xs ! (ap xs k ! k)) \<and>
        (\<forall>i<length xs. k < i \<longrightarrow> xs ! (ap xs k ! k) \<le> xs ! (ap xs k ! i)))"

definition topk_ok :: "('a::linorder list \<Rightarrow> nat \<Rightarrow> 'a list) \<Rightarrow> bool" where
  "topk_ok tk \<longleftrightarrow>
     (\<forall>xs k. k \<le> length xs \<longrightarrow> mset (tk xs k) = mset (take k (rev (sort xs))))"

definition softmax_ok :: "('a::linordered_field list \<Rightarrow> 'a list) \<Rightarrow> bool" where
  "softmax_ok sm \<longleftrightarrow>
     (\<forall>xs. length (sm xs) = length xs \<and> (\<forall>g \<in> set (sm xs). 0 < g) \<and>
        (\<forall>i<length xs. \<forall>j<length xs. sm xs ! i \<le> sm xs ! j \<longleftrightarrow> xs ! i \<le> xs ! j))"

definition sigmoid_ok :: "('a::linordered_field \<Rightarrow> 'a) \<Rightarrow> bool" where
  "sigmoid_ok sg \<longleftrightarrow> (\<forall>x. 0 < sg x \<and> sg x < 1) \<and> (\<forall>x y. sg x \<le> sg y \<longleftrightarrow> x \<le> y)"

definition rkernels_ok :: "'a::linordered_field rkernels \<Rightarrow> bool" where
  "rkernels_ok R \<longleftrightarrow>
     argpart_ok (r_argpart R) \<and> topk_ok (r_topk R) \<and> softmax_ok (r_softmax R) \<and> sigmoid_ok (r_sigmoid R)"

section \<open>The partition chooses the best\<close>

lemma argpart_length:
  assumes "argpart_ok ap" and "k < length xs"
  shows "distinct (ap xs k)" and "set (ap xs k) = {..<length xs}" and "length (ap xs k) = length xs"
proof -
  show d: "distinct (ap xs k)" and s: "set (ap xs k) = {..<length xs}"
    using assms unfolding argpart_ok_def by blast+
  show "length (ap xs k) = length xs" using distinct_card[OF d] s by simp
qed

lemma argpart_around:
  assumes ap: "argpart_ok ap" and k: "k < length xs" and ab: "a \<le> k" "k \<le> b" "b < length xs"
  shows "xs ! (ap xs k ! a) \<le> xs ! (ap xs k ! b)"
proof -
  have "xs ! (ap xs k ! a) \<le> xs ! (ap xs k ! k)"
    using ap k ab(1) unfolding argpart_ok_def by (cases "a = k") auto
  also have "\<dots> \<le> xs ! (ap xs k ! b)"
    using ap k ab unfolding argpart_ok_def by (cases "b = k") auto
  finally show ?thesis .
qed

lemma argpart_take:
  assumes ap: "argpart_ok ap" and m: "0 < m" "m \<le> length xs"
  defines "idx \<equiv> take m (ap xs (m - 1))"
  shows "distinct idx" and "length idx = m" and "set idx \<subseteq> {..<length xs}"
    and "\<And>i j. i \<in> set idx \<Longrightarrow> j < length xs \<Longrightarrow> j \<notin> set idx \<Longrightarrow> xs ! i \<le> xs ! j"
proof -
  have k: "m - 1 < length xs" using m by simp
  note p = argpart_length[OF ap k]
  show "distinct idx" "length idx = m" "set idx \<subseteq> {..<length xs}"
    using p m set_take_subset[of m "ap xs (m - 1)"] by (auto simp: idx_def)
  fix i j assume i: "i \<in> set idx" and j: "j < length xs" "j \<notin> set idx"
  obtain a where a: "a < m" "i = ap xs (m - 1) ! a" using i p(3) m by (auto simp: idx_def in_set_conv_nth)
  obtain b where b: "b < length xs" "j = ap xs (m - 1) ! b"
    using j(1) p(2,3) by (metis in_set_conv_nth lessThan_iff)
  have "m \<le> b"
  proof (rule ccontr)
    assume "\<not> m \<le> b"
    then have "j = idx ! b" "b < length idx" using b p(3) m by (auto simp: idx_def)
    then show False using j(2) by simp
  qed
  then show "xs ! i \<le> xs ! j" using argpart_around[OF ap k, of a b] a b by simp
qed

lemma argpart_drop:
  assumes ap: "argpart_ok ap" and k: "0 < k" "k \<le> length xs"
  defines "idx \<equiv> drop (length xs - k) (ap xs (length xs - k))"
  shows "distinct idx" and "length idx = k" and "set idx \<subseteq> {..<length xs}"
    and "\<And>i j. i \<in> set idx \<Longrightarrow> j < length xs \<Longrightarrow> j \<notin> set idx \<Longrightarrow> xs ! j \<le> xs ! i"
proof -
  let ?m = "length xs - k"
  have m: "?m < length xs" using k by simp
  note p = argpart_length[OF ap m]
  show "distinct idx" "length idx = k" "set idx \<subseteq> {..<length xs}"
    using p k set_drop_subset[of ?m "ap xs ?m"] by (auto simp: idx_def)
  fix i j assume i: "i \<in> set idx" and j: "j < length xs" "j \<notin> set idx"
  obtain a where a: "a < k" "i = ap xs ?m ! (?m + a)" using i p(3) k by (auto simp: idx_def in_set_conv_nth)
  obtain b where b: "b < length xs" "j = ap xs ?m ! b"
    using j(1) p(2,3) by (metis in_set_conv_nth lessThan_iff)
  have "b < ?m"
  proof (rule ccontr)
    assume "\<not> b < ?m"
    then have "ap xs ?m ! b = idx ! (b - ?m)" "b - ?m < length idx" using b p(3) k by (auto simp: idx_def)
    then show False using j(2) b by (metis nth_mem)
  qed
  then show "xs ! j \<le> xs ! i" using argpart_around[OF ap m, of b "?m + a"] a b k by simp
qed

lemma top_part_best:
  assumes "argpart_ok (r_argpart R)" and "0 < k" "k \<le> length gates"
  obtains inds where "top_part R gates k = Inr inds" "distinct inds" "length inds = k" "set inds \<subseteq> {..<length gates}"
    "\<And>i j. i \<in> set inds \<Longrightarrow> j < length gates \<Longrightarrow> j \<notin> set inds \<Longrightarrow> gates ! j \<le> gates ! i"
proof
  let ?inds = "drop (length gates - k) (r_argpart R (map Fin gates) (length gates - k))"
  note best = argpart_drop[OF assms(1), of k "map Fin gates", unfolded length_map, OF assms(2,3)]
  show "top_part R gates k = Inr ?inds" using assms by (auto simp: top_part_def Let_def)
  show "distinct ?inds" "length ?inds = k" "set ?inds \<subseteq> {..<length gates}" using best(1-3) by simp_all
  fix i j assume ij: "i \<in> set ?inds" "j < length gates" "j \<notin> set ?inds"
  then have "i < length gates" using best(3) by auto
  then show "gates ! j \<le> gates ! i" using best(4)[OF ij] ij(2) by simp
qed

lemma best_part_best:
  assumes "argpart_ok (r_argpart R)" and "0 < k" "k \<le> length sel"
  obtains idx where "best_part R sel k = Inr idx" "distinct idx" "length idx = k" "set idx \<subseteq> {..<length sel}"
    "\<And>i j. i \<in> set idx \<Longrightarrow> j < length sel \<Longrightarrow> j \<notin> set idx \<Longrightarrow> sel ! j \<le> sel ! i"
proof
  let ?idx = "take k (r_argpart R (map ext_neg sel) (k - 1))"
  note best = argpart_take[OF assms(1), of k "map ext_neg sel", unfolded length_map, OF assms(2,3)]
  show "best_part R sel k = Inr ?idx" using assms by (auto simp: best_part_def Let_def)
  show "distinct ?idx" "length ?idx = k" "set ?idx \<subseteq> {..<length sel}" using best(1-3) by simp_all
  fix i j assume ij: "i \<in> set ?idx" "j < length sel" "j \<notin> set ?idx"
  then have "i < length sel" using best(3) by auto
  then show "sel ! j \<le> sel ! i" using best(4)[OF ij] ij(2) by simp
qed

section \<open>Softmax routing\<close>

lemma sum_list_pos:
  "(\<And>x. x \<in> set xs \<Longrightarrow> 0 < x) \<Longrightarrow> xs \<noteq> [] \<Longrightarrow> 0 < sum_list (xs :: 'a::linordered_field list)"
proof (induction xs)
  case (Cons x xs)
  then show ?case by (cases "xs = []") (auto intro: add_pos_pos)
qed simp

lemma sum_list_divide: "sum_list (map (\<lambda>x. x / c) xs) = sum_list xs / (c :: 'a::linordered_field)"
  by (induction xs) (simp_all add: add_divide_distrib)

lemma sum_list_times: "sum_list (map (\<lambda>x. x * c) xs) = sum_list xs * (c :: 'a::linordered_field)"
  by (induction xs) (simp_all add: distrib_right)

text \<open>
  The softmax router. With kernels as documented and \<open>1 \<le> top_k \<le> num_experts\<close>, the call
  returns \<open>top_k\<close> distinct experts, none left out has a higher logit than one chosen, and the weights
  are positive, sum to one and are in the proportion of the gates of the chosen experts.
\<close>
theorem select_from_logits_best:
  fixes R :: "'a::linordered_field rkernels"
  assumes R: "rkernels_ok R" and k: "0 < k" "k \<le> length logits"
  shows "\<exists>inds ws. select_from_logits R logits k True = Inr (inds, ws) \<and>
    distinct inds \<and> length inds = k \<and> length ws = k \<and> set inds \<subseteq> {..<length logits} \<and>
    (\<forall>i \<in> set inds. \<forall>j \<in> {..<length logits} - set inds. logits ! j \<le> logits ! i) \<and>
    (\<forall>w \<in> set ws. 0 < w) \<and> sum_list ws = 1 \<and>
    (\<forall>a<k. \<forall>b<k. ws ! a * r_softmax R logits ! (inds ! b) = ws ! b * r_softmax R logits ! (inds ! a))"
proof -
  let ?g = "r_softmax R logits"
  have sm: "length ?g = length logits" "\<And>x. x \<in> set ?g \<Longrightarrow> 0 < x"
    "\<And>i j. i < length logits \<Longrightarrow> j < length logits \<Longrightarrow> ?g ! i \<le> ?g ! j \<longleftrightarrow> logits ! i \<le> logits ! j"
    and ap: "argpart_ok (r_argpart R)"
    using R by (auto simp: rkernels_ok_def softmax_ok_def)
  obtain inds where inds: "top_part R ?g k = Inr inds" "distinct inds" "length inds = k"
      "set inds \<subseteq> {..<length logits}"
      "\<And>i j. i \<in> set inds \<Longrightarrow> j < length logits \<Longrightarrow> j \<notin> set inds \<Longrightarrow> ?g ! j \<le> ?g ! i"
    using top_part_best[OF ap k(1), of ?g] k(2) sm(1) by metis
  define sc where "sc = map (\<lambda>i. ?g ! i) inds"
  have pos: "\<And>x. x \<in> set sc \<Longrightarrow> 0 < x" using inds(4) sm(1,2) by (auto simp: sc_def subset_iff)
  have tot: "0 < sum_list sc" by (rule sum_list_pos[OF pos]) (use inds(3) k(1) in \<open>auto simp: sc_def\<close>)
  let ?ws = "map (\<lambda>x. x / sum_list sc) sc"
  have "select_from_logits R logits k True = Inr (inds, ?ws)"
    by (simp add: select_from_logits_def Let_def inds(1) sc_def)
  moreover have "sum_list ?ws = 1" using tot by (simp add: sum_list_divide)
  moreover have "\<forall>w \<in> set ?ws. 0 < w" using pos tot by auto
  moreover have "\<forall>i \<in> set inds. \<forall>j \<in> {..<length logits} - set inds. logits ! j \<le> logits ! i"
    using inds(4,5) sm(3) by (auto simp: subset_iff)
  moreover have "\<forall>a<k. \<forall>b<k. ?ws ! a * ?g ! (inds ! b) = ?ws ! b * ?g ! (inds ! a)"
    using inds(3) by (simp add: sc_def)
  ultimately show ?thesis using inds(2-4) by (intro exI[of _ inds] exI[of _ ?ws]) (simp add: sc_def)
qed

section \<open>The group limit\<close>

lemma groups_of_ok:
  assumes "groups_of n gsize xs = Inr gs"
  shows "length gs = n" "\<And>g. g < n \<Longrightarrow> length (gs ! g) = gsize"
    "\<And>g e. g < n \<Longrightarrow> e < gsize \<Longrightarrow> gs ! g ! e = xs ! (g * gsize + e)" "n * gsize = length xs"
proof -
  have eq: "n * gsize = length xs" "gs = map (\<lambda>g. take gsize (drop (g * gsize) xs)) [0..<n]"
    using assms by (auto simp: groups_of_def split: if_splits)
  have le: "g * gsize + gsize \<le> length xs" if "g < n" for g
    using that eq(1) mult_le_mono1[of "Suc g" n gsize] by simp
  show "length gs = n" "n * gsize = length xs" using eq by simp_all
  fix g assume g: "g < n"
  show "length (gs ! g) = gsize" using eq le[OF g] g by simp
  fix e assume e: "e < gsize"
  show "gs ! g ! e = xs ! (g * gsize + e)" using eq le[OF g] g e by simp
qed

text \<open>Group by group: what the mask leaves of expert \<open>e\<close>.\<close>

lemma mask_groups_rows:
  assumes gs: "groups_of n gsize xs = Inr gs"
  obtains rows where "mask_groups drops gs = concat rows" "length rows = n" "\<forall>ys \<in> set rows. length ys = gsize"
    "\<forall>g<n. rows ! g = (if g \<in> set drops then map (\<lambda>_. NegInf) (gs ! g) else map Fin (gs ! g))"
proof (rule that[OF mask_groups_def])
qed (use groups_of_ok(1,2)[OF gs] in \<open>auto simp: enumerate_from0_def in_set_zip in_set_conv_nth split: if_splits\<close>)

lemma length_mask_groups:
  assumes gs: "groups_of n gsize xs = Inr gs"
  shows "length (mask_groups drops gs) = length xs"
proof -
  obtain rows where r: "mask_groups drops gs = concat rows" "length rows = n" "\<forall>ys \<in> set rows. length ys = gsize"
    using mask_groups_rows[OF gs, of drops] by metis
  show ?thesis using length_concat_uniform[of rows gsize] r groups_of_ok(4)[OF gs] by simp
qed

lemma mask_groups_nth:
  assumes gs: "groups_of n gsize xs = Inr gs" and e: "e < length xs"
  shows "mask_groups drops gs ! e = (if e div gsize \<in> set drops then NegInf else Fin (xs ! e))"
proof -
  obtain rows where r: "mask_groups drops gs = concat rows" "length rows = n" "\<forall>ys \<in> set rows. length ys = gsize"
    "\<forall>g<n. rows ! g = (if g \<in> set drops then map (\<lambda>_. NegInf) (gs ! g) else map Fin (gs ! g))"
    using mask_groups_rows[OF gs, of drops] by metis
  note g = groups_of_ok[OF gs]
  have pos: "0 < gsize" using e g(4) by (cases gsize) auto
  have dm: "e div gsize < n" "e mod gsize < gsize" using e g(4) pos by (simp_all add: less_mult_imp_div_less)
  have "concat rows ! e = rows ! (e div gsize) ! (e mod gsize)"
    using e g(4) r(2) by (intro concat_uniform_nth) (use r(3) in auto)
  then show ?thesis using r(1) r(4)[rule_format, OF dm(1)] g(2)[OF dm(1)] g(3)[OF dm] dm by simp
qed

text \<open>The score of a group, stated without the kernel: its two best selection scores, added.\<close>

definition top2_sum :: "'a::{linorder, comm_monoid_add} list \<Rightarrow> 'a" where
  "top2_sum xs = sum_list (take 2 (rev (sort xs)))"

lemma group_scores_top2:
  fixes R :: "'a::linordered_field rkernels"
  assumes "topk_ok (r_topk R)" and "\<And>g. g \<in> set gs \<Longrightarrow> 2 \<le> length g"
  shows "group_scores R gs = map top2_sum gs"
proof -
  have "sum_list (r_topk R g 2) = top2_sum g" if "g \<in> set gs" for g
  proof -
    have "mset (r_topk R g 2) = mset (take 2 (rev (sort g)))"
      using assms that unfolding topk_ok_def by blast
    then show ?thesis unfolding top2_sum_def by (metis sum_mset_sum_list)
  qed
  then show ?thesis by (simp add: group_scores_def)
qed

lemma card_in_groups:
  assumes "K \<subseteq> {..<G}"
  shows "card {e. e < G * s \<and> e div s \<in> K} = card K * (s :: nat)"
proof (cases "s = 0")
  case False
  have "{e. e < G * s \<and> e div s \<in> K} = (\<lambda>(g, r). g * s + r) ` (K \<times> {..<s})" (is "?L = ?h ` _")
  proof (intro equalityI subsetI)
    fix e assume "e \<in> ?L"
    then have "(e div s, e mod s) \<in> K \<times> {..<s}" "e = ?h (e div s, e mod s)" using False by auto
    then show "e \<in> ?h ` (K \<times> {..<s})" by (rule rev_image_eqI)
  next
    fix e assume "e \<in> ?h ` (K \<times> {..<s})"
    then obtain g r where gr: "g \<in> K" "r < s" "e = g * s + r" by auto
    then have "g * s + s \<le> G * s" using assms mult_le_mono1[of "Suc g" G s] by auto
    then show "e \<in> ?L" using gr by simp
  qed
  moreover have "inj_on ?h (K \<times> {..<s})"
  proof (rule inj_onI)
    fix x y assume "x \<in> K \<times> {..<s}" "y \<in> K \<times> {..<s}" "?h x = ?h y"
    then obtain g r g' r' where eq: "x = (g, r)" "y = (g', r')" "r < s" "r' < s" "g * s + r = g' * s + r'" by auto
    then have "g = g'" by (metis False div_mult_self3 div_less add_0_right mult.commute)
    then show "x = y" using eq by simp
  qed
  ultimately show ?thesis by (simp add: card_image card_cartesian_product)
qed simp

text \<open>The mask keeps exactly \<open>topk_group\<close> groups, and they are the best.\<close>

lemma group_limit_best:
  fixes R :: "'a::linordered_field rkernels"
  assumes R: "rkernels_ok R" and T: "T \<le> G" and sel: "length sel = G * s" and s: "2 \<le> s \<or> T = G"
  obtains masked kept where "group_limit R G T s sel = Inr masked" "length masked = length sel"
    "kept \<subseteq> {..<G}" "card kept = T"
    "\<And>e. e < length sel \<Longrightarrow> masked ! e = (if e div s \<in> kept then Fin (sel ! e) else NegInf)"
    "\<And>g h. g \<in> kept \<Longrightarrow> h < G \<Longrightarrow> h \<notin> kept \<Longrightarrow>
       top2_sum (take s (drop (h * s) sel)) \<le> top2_sum (take s (drop (g * s) sel))"
proof (cases "G - T > 0")
  case False
  then have TG: "T = G" using T by simp
  show ?thesis
  proof (rule that[of "map Fin sel" "{..<G}"])
    show "map Fin sel ! e = (if e div s \<in> {..<G} then Fin (sel ! e) else NegInf)" if "e < length sel" for e
      using that sel by (simp add: less_mult_imp_div_less)
  qed (use TG in \<open>auto simp: group_limit_def\<close>)
next
  case True
  then have s2: "2 \<le> s" using s by auto
  obtain gs where gs: "groups_of G s sel = Inr gs" "gs = map (\<lambda>g. take s (drop (g * s) sel)) [0..<G]"
    using sel by (simp add: groups_of_def)
  note g = groups_of_ok[OF gs(1)]
  have sc: "group_scores R gs = map top2_sum gs"
    using R s2 g(1,2) by (intro group_scores_top2) (auto simp: rkernels_ok_def in_set_conv_nth)
  let ?d = "dropped_groups R gs (G - T)"
  have ap: "argpart_ok (r_argpart R)" using R by (simp add: rkernels_ok_def)
  note d = argpart_take[OF ap, of "G - T" "map Fin (group_scores R gs)", folded dropped_groups_def]
  have len: "length (map Fin (group_scores R gs)) = G" using sc g(1) by simp
  have dd: "distinct ?d" "length ?d = G - T" "set ?d \<subseteq> {..<G}"
    using d(1-3) len True by simp_all
  show ?thesis
  proof (rule that[of "mask_groups ?d gs" "{..<G} - set ?d"])
    show "group_limit R G T s sel = Inr (mask_groups ?d gs)"
      using True s2 gs(1) by (simp add: group_limit_def)
    show "length (mask_groups ?d gs) = length sel"
      by (rule length_mask_groups[OF gs(1)])
    show "card ({..<G} - set ?d) = T"
      using dd T by (simp add: card_Diff_subset distinct_card)
    show "mask_groups ?d gs ! e = (if e div s \<in> {..<G} - set ?d then Fin (sel ! e) else NegInf)"
      if "e < length sel" for e
      using mask_groups_nth[OF gs(1) that] that sel by (simp add: less_mult_imp_div_less)
    fix g h assume gh: "g \<in> {..<G} - set ?d" "h < G" "h \<notin> {..<G} - set ?d"
    then have "map Fin (group_scores R gs) ! h \<le> map Fin (group_scores R gs) ! g"
      using d(4)[of h g] True len by auto
    then show "top2_sum (take s (drop (h * s) sel)) \<le> top2_sum (take s (drop (g * s) sel))"
      using gh sc g(1) by (simp add: gs(2))
  qed auto
qed

text \<open>If there is room in the kept groups, the chosen experts all lie in kept groups.\<close>

lemma chosen_in_kept:
  fixes sel :: "'a::linorder list"
  assumes len: "length masked = n" "n = G * s" and kept: "kept \<subseteq> {..<G}" "k \<le> card kept * s"
    and m: "\<And>e. e < n \<Longrightarrow> masked ! e = (if e div s \<in> kept then Fin (sel ! e) else NegInf)"
    and idx: "distinct idx" "length idx = k" "set idx \<subseteq> {..<n}"
    and best: "\<And>i j. i \<in> set idx \<Longrightarrow> j < n \<Longrightarrow> j \<notin> set idx \<Longrightarrow> masked ! j \<le> masked ! i"
    and e: "e \<in> set idx"
  shows "e div s \<in> kept"
proof (rule ccontr)
  assume not: "e div s \<notin> kept"
  let ?K = "{e. e < n \<and> e div s \<in> kept}"
  have eN: "masked ! e = NegInf" using m[of e] not idx(3) e by auto
  have "?K \<subseteq> set idx - {e}"
  proof
    fix j assume j: "j \<in> ?K"
    then have "masked ! j = Fin (sel ! j)" using m by simp
    then have "\<not> masked ! j \<le> masked ! e" using eN by simp
    then show "j \<in> set idx - {e}" using best[OF e, of j] j not by auto
  qed
  then have "card ?K \<le> card (set idx - {e})" by (intro card_mono) simp_all
  then have "k \<le> k - 1" using card_in_groups[OF kept(1), of s] len(2) kept(2) idx(1,2) e
    by (simp add: distinct_card)
  then show False using e idx(2) by (cases k) auto
qed

definition selection_score :: "'a::linordered_field rkernels \<Rightarrow> 'a list option \<Rightarrow> 'a list \<Rightarrow> nat \<Rightarrow> 'a" where
  "selection_score R bias logits e =
     r_sigmoid R (logits ! e) + (case bias of None \<Rightarrow> 0 | Some b \<Rightarrow> b ! e)"

lemma add_bias_scores:
  assumes "bias = None \<or> (\<exists>b. bias = Some b \<and> length b = length logits)"
  shows "add_bias bias (map (r_sigmoid R) logits) = Inr (map (selection_score R bias logits) [0..<length logits])"
  using assms by (auto simp: add_bias_def selection_score_def intro!: nth_equalityI)

lemma group_select_run:
  fixes R :: "'a::linordered_field rkernels"
  assumes R: "rkernels_ok R" and shape: "length logits = G * s" and T: "T \<le> G" and s: "2 \<le> s \<or> T = G"
    and bias: "bias = None \<or> (\<exists>b. bias = Some b \<and> length b = length logits)"
    and k: "0 < k" "k \<le> T * s"
  shows "\<exists>idx kept. group_select_from_logits R logits k G T scaling renorm bias
           = Inr (idx, chosen_weights renorm scaling (map (r_sigmoid R) logits) idx) \<and>
    kept \<subseteq> {..<G} \<and> card kept = T \<and>
    (\<forall>g \<in> kept. \<forall>h \<in> {..<G} - kept.
       top2_sum (map (selection_score R bias logits) [h * s..<h * s + s])
       \<le> top2_sum (map (selection_score R bias logits) [g * s..<g * s + s])) \<and>
    distinct idx \<and> length idx = k \<and> (\<forall>e \<in> set idx. e < length logits \<and> e div s \<in> kept) \<and>
    (\<forall>e \<in> set idx. \<forall>e'<length logits. e' div s \<in> kept \<longrightarrow> e' \<notin> set idx \<longrightarrow>
       selection_score R bias logits e' \<le> selection_score R bias logits e)"
proof -
  let ?f = "selection_score R bias logits"
  define sel where "sel = map ?f [0..<length logits]"
  have sel: "length sel = G * s" "\<And>e. e < length logits \<Longrightarrow> sel ! e = ?f e" using shape by (simp_all add: sel_def)
  have G: "0 < G" "k \<le> length sel" using k T sel(1) mult_le_mono1[OF T, of s] by (auto intro: gr0I order_trans)
  have sdiv: "length sel div G = s" using sel(1) G(1) by simp
  have slice: "take s (drop (g * s) sel) = map ?f [g * s..<g * s + s]" if "g < G" for g
    using that shape mult_le_mono1[of "Suc g" G s] by (intro nth_equalityI) (auto simp: sel_def)
  obtain masked kept where m: "group_limit R G T s sel = Inr masked" "length masked = length sel"
    "kept \<subseteq> {..<G}" "card kept = T"
    "\<And>e. e < length sel \<Longrightarrow> masked ! e = (if e div s \<in> kept then Fin (sel ! e) else NegInf)"
    "\<And>g h. g \<in> kept \<Longrightarrow> h < G \<Longrightarrow> h \<notin> kept \<Longrightarrow>
       top2_sum (take s (drop (h * s) sel)) \<le> top2_sum (take s (drop (g * s) sel))"
    using group_limit_best[OF R T sel(1) s] by blast
  have ap: "argpart_ok (r_argpart R)" using R by (simp add: rkernels_ok_def)
  obtain idx where i: "best_part R masked k = Inr idx" "distinct idx" "length idx = k" "set idx \<subseteq> {..<length masked}"
    "\<And>i j. i \<in> set idx \<Longrightarrow> j < length masked \<Longrightarrow> j \<notin> set idx \<Longrightarrow> masked ! j \<le> masked ! i"
    using best_part_best[OF ap k(1), of masked] G(2) m(2) by metis
  have run: "group_select_from_logits R logits k G T scaling renorm bias
       = Inr (idx, chosen_weights renorm scaling (map (r_sigmoid R) logits) idx)"
    by (simp add: group_select_from_logits_def Let_def add_bias_scores[OF bias] sel_def[symmetric] sdiv m(1) i(1))
  have inside: "e div s \<in> kept" if "e \<in> set idx" for e
    by (rule chosen_in_kept[OF m(2) sel(1) m(3) _ m(5) i(2,3) _ _ that]) (use k m(2,4) i(4,5) in auto)
  have chosen: "?f e' \<le> ?f e" if "e \<in> set idx" "e' < length logits" "e' div s \<in> kept" "e' \<notin> set idx" for e e'
    using i(5)[OF that(1), of e'] that inside[OF that(1)] m(2,5) sel shape i(4) by (auto simp: subset_iff)
  show ?thesis
    using run m(3,4,6) slice i(2,3) inside chosen i(4) m(2) sel(1) shape
    by (intro exI[of _ idx] exI[of _ kept]) (auto simp: subset_iff)
qed

text \<open>
  C19: the group-limited router. With documented kernels and room for \<open>top_k\<close> experts in
  \<open>topk_group\<close> groups, the call keeps \<open>topk_group\<close> groups, none of the others with a larger sum of its
  two best selection scores; it returns \<open>top_k\<close> distinct experts, all of them in kept groups, none left
  out of those groups with a larger selection score; and the weights are the plain sigmoid scores (the
  bias only selects), renormalised and scaled.
\<close>
theorem group_select_best:
  fixes R :: "'a::linordered_field rkernels"
  assumes R: "rkernels_ok R" and shape: "length logits = G * s" and T: "T \<le> G" and s: "2 \<le> s \<or> T = G"
    and bias: "bias = None \<or> (\<exists>b. bias = Some b \<and> length b = length logits)"
    and k: "0 < k" "k \<le> T * s"
  shows "\<exists>idx kept. group_select_from_logits R logits k G T scaling renorm bias
           = Inr (idx, chosen_weights renorm scaling (map (r_sigmoid R) logits) idx) \<and>
    kept \<subseteq> {..<G} \<and> card kept = T \<and>
    (\<forall>g \<in> kept. \<forall>h \<in> {..<G} - kept.
       top2_sum (map (selection_score R bias logits) [h * s..<h * s + s])
       \<le> top2_sum (map (selection_score R bias logits) [g * s..<g * s + s])) \<and>
    distinct idx \<and> length idx = k \<and> (\<forall>e \<in> set idx. e < length logits \<and> e div s \<in> kept) \<and>
    (\<forall>e \<in> set idx. \<forall>e'<length logits. e' div s \<in> kept \<longrightarrow> e' \<notin> set idx \<longrightarrow>
       selection_score R bias logits e' \<le> selection_score R bias logits e)"
  using assms by (rule group_select_run)

lemma bailing_gate_is_group_select:
  assumes "length logits = ga_num_experts a" and "ga_bias_enabled a \<Longrightarrow> length b = ga_num_experts a"
  shows "bailing_gate R a b logits =
     group_select_from_logits R logits (ga_top_k a) (ga_n_group a) (ga_topk_group a) (ga_scaling a) (ga_norm a)
       (if ga_bias_enabled a then Some b else None)"
  using assms by (simp add: bailing_gate_def group_select_from_logits_def add_bias_def Let_def)

lemma bailing_select_is_group_select:
  assumes "length logits = ga_num_experts a"
  shows "bailing_select R a logits =
     group_select_from_logits R logits (ga_top_k a) (ga_n_group a) (ga_topk_group a) (ga_scaling a) (ga_norm a) None"
  using assms by (simp add: bailing_select_def group_select_from_logits_def add_bias_def Let_def)

section \<open>An instance of the kernels, and the laws evaluated on it\<close>

definition demo_gate :: "'a::linordered_field \<Rightarrow> 'a" where
  "demo_gate x = (if x \<le> 0 then 1 / (1 - x) else 1 + x)"

definition demo_rk :: "'a::linordered_field rkernels" where
  "demo_rk =
     \<lparr>r_softmax = (\<lambda>xs. map (\<lambda>x. demo_gate x / (1 + sum_list (map demo_gate xs))) xs),
      r_sigmoid = (\<lambda>x. demo_gate x / (1 + demo_gate x)),
      r_argpart = (\<lambda>xs k. sort_key (\<lambda>i. xs ! i) [0..<length xs]),
      r_topk = (\<lambda>xs k. take k (rev (sort xs)))\<rparr>"

lemma demo_gate_pos [simp]: "0 < demo_gate x"
  by (simp add: demo_gate_def)

lemma demo_gate_less: "x < y \<Longrightarrow> demo_gate x < demo_gate (y :: 'a::linordered_field)"
proof -
  assume xy: "x < y"
  consider "y \<le> 0" | "x \<le> 0" "0 < y" | "0 < x" by linarith
  then show ?thesis
  proof cases
    case 1 then show ?thesis using xy by (simp add: demo_gate_def frac_less2)
  next
    case 2
    then have "1 / (1 - x) \<le> 1" by simp
    then have "1 / (1 - x) < 1 + y" using 2 by linarith
    then show ?thesis using 2 by (simp add: demo_gate_def)
  next
    case 3 then show ?thesis using xy by (simp add: demo_gate_def)
  qed
qed

lemma demo_gate_le [simp]: "demo_gate x \<le> demo_gate y \<longleftrightarrow> x \<le> y"
  using demo_gate_less[of x y] demo_gate_less[of y x] by (cases x y rule: linorder_cases) auto

lemma sort_key_argpart: "argpart_ok (\<lambda>xs k. sort_key (\<lambda>i. xs ! i) [0..<length xs])"
proof -
  have "xs ! (sort_key (\<lambda>i. xs ! i) [0..<length xs] ! i) \<le> xs ! (sort_key (\<lambda>i. xs ! i) [0..<length xs] ! j)"
    if "i \<le> j" "j < length xs" for xs :: "'a ext list" and i j
    using sorted_nth_mono[OF sorted_sort_key[of "\<lambda>i. xs ! i" "[0..<length xs]"] that(1)] that by simp
  then show ?thesis by (simp add: argpart_ok_def atLeast0LessThan)
qed

lemma demo_rk_ok: "rkernels_ok (demo_rk :: 'a::linordered_field rkernels)"
proof -
  have "0 < 1 + sum_list (map demo_gate xs)" for xs :: "'a list"
    by (rule add_pos_nonneg) (auto intro!: sum_list_nonneg simp: less_imp_le)
  then have "softmax_ok (r_softmax (demo_rk :: 'a rkernels))"
    by (auto simp: softmax_ok_def demo_rk_def divide_le_cancel not_less less_imp_le dest: less_le_not_le[THEN iffD1])
  moreover have "sigmoid_ok (r_sigmoid (demo_rk :: 'a rkernels))"
  proof -
    have "demo_gate x / (1 + demo_gate x) \<le> demo_gate y / (1 + demo_gate y) \<longleftrightarrow> x \<le> y" for x y :: 'a
    proof -
      have "0 < 1 + demo_gate x" "0 < 1 + demo_gate y" by (simp_all add: add_pos_pos)
      then show ?thesis by (simp add: field_simps)
    qed
    moreover have "0 < demo_gate x / (1 + demo_gate x) \<and> demo_gate x / (1 + demo_gate x) < 1" for x :: 'a
      using demo_gate_pos[of x] by (simp add: field_simps add_pos_pos)
    ultimately show ?thesis by (simp add: sigmoid_ok_def demo_rk_def)
  qed
  ultimately show ?thesis using sort_key_argpart by (simp add: rkernels_ok_def demo_rk_def topk_ok_def)
qed

lemma select_from_logits_best_witness:
  "(\<exists>inds ws. select_from_logits demo_rk [1, 3, 2::rat] 2 True = Inr (inds, ws) \<and>
    distinct inds \<and> length inds = 2 \<and> length ws = 2 \<and> set inds \<subseteq> {..<length [1, 3, 2::rat]} \<and>
    (\<forall>i \<in> set inds. \<forall>j \<in> {..<length [1, 3, 2::rat]} - set inds. [1, 3, 2::rat] ! j \<le> [1, 3, 2] ! i) \<and>
    (\<forall>w \<in> set ws. 0 < w) \<and> sum_list ws = 1 \<and>
    (\<forall>a<2. \<forall>b<2. ws ! a * r_softmax demo_rk [1, 3, 2::rat] ! (inds ! b) = ws ! b * r_softmax demo_rk [1, 3, 2::rat] ! (inds ! a)))
   \<and> map_sum id fst (select_from_logits demo_rk [1, 3, 2::rat] 2 True) = Inr [2, 1]"
  by (rule conjI, rule select_from_logits_best[OF demo_rk_ok], simp, simp, code_simp)

lemma group_select_best_witness:
  "(\<exists>idx kept. group_select_from_logits demo_rk [0::rat, 5, 1, 2, 4, 1] 2 3 2 (5 / 2) True (Some [0::rat, 0, 0, 1, 0, 0])
           = Inr (idx, chosen_weights True (5 / 2) (map (r_sigmoid demo_rk) [0::rat, 5, 1, 2, 4, 1]) idx) \<and>
    kept \<subseteq> {..<3} \<and> card kept = 2 \<and>
    (\<forall>g \<in> kept. \<forall>h \<in> {..<3} - kept.
       top2_sum (map (selection_score demo_rk (Some [0::rat, 0, 0, 1, 0, 0]) [0, 5, 1, 2, 4, 1]) [h * 2..<h * 2 + 2])
       \<le> top2_sum (map (selection_score demo_rk (Some [0::rat, 0, 0, 1, 0, 0]) [0, 5, 1, 2, 4, 1]) [g * 2..<g * 2 + 2])) \<and>
    distinct idx \<and> length idx = 2 \<and> (\<forall>e \<in> set idx. e < length [0, 5, 1, 2, 4, 1::rat] \<and> e div 2 \<in> kept) \<and>
    (\<forall>e \<in> set idx. \<forall>e'<length [0, 5, 1, 2, 4, 1::rat]. e' div 2 \<in> kept \<longrightarrow> e' \<notin> set idx \<longrightarrow>
       selection_score demo_rk (Some [0::rat, 0, 0, 1, 0, 0]) [0, 5, 1, 2, 4, 1] e'
       \<le> selection_score demo_rk (Some [0::rat, 0, 0, 1, 0, 0]) [0, 5, 1, 2, 4, 1] e))
   \<and> map_sum id fst (group_select_from_logits demo_rk [0::rat, 5, 1, 2, 4, 1] 2 3 2 (5 / 2) True (Some [0::rat, 0, 0, 1, 0, 0]))
     = Inr [3, 4]"
  by (rule conjI, rule group_select_best[OF demo_rk_ok], simp_all, code_simp)

end
