(* ===== verification/Sampling.thy ===== *)
theory Sampling
  imports Routing
begin

text \<open>
  Token sampling: \<open>edge0/sampling.py\<close> (repetition penalty, temperature, top-k and nucleus truncation,
  the draw) and the generation settings of \<open>edge0/config.py\<close>. Logits are a row of field elements,
  extended with \<open>-inf\<close> once something is masked; floating-point rounding is not modelled.
  \<open>core.topk\<close>, \<open>core.softmax\<close> and \<open>core.random\<close> are MLX's: the record \<open>skernels\<close>, with what the code
  relies on in \<open>skernels_ok\<close>.
\<close>

section \<open>Settings\<close>

record 'a gen_config =
  g_temperature :: 'a
  g_top_p :: "'a option"
  g_top_k :: "int option"
  g_penalty :: 'a
  g_max_new :: int
  g_eos :: "nat list"
  g_seed :: "int option"
  g_first_greedy :: bool

definition default_gen :: "'a::field_char_0 gen_config" where
  "default_gen = \<lparr>g_temperature = 7 / 10, g_top_p = Some (95 / 100), g_top_k = Some 64, g_penalty = 1, g_max_new = 512,
     g_eos = [], g_seed = None, g_first_greedy = True\<rparr>"

definition is_eos :: "'a gen_config \<Rightarrow> nat \<Rightarrow> bool" where
  "is_eos g t \<longleftrightarrow> t \<in> set (g_eos g)"

section \<open>Truncation\<close>

record ('a, 'r) skernels =
  z_topk :: "'a ext list \<Rightarrow> nat \<Rightarrow> 'a ext list"
  z_softmax :: "'a ext list \<Rightarrow> 'a list"
  z_seed :: "int \<Rightarrow> 'r"
  z_draw :: "'r \<Rightarrow> 'a ext list \<Rightarrow> nat \<times> 'r"

text \<open>\<open>core.where(logits < threshold, -inf, logits)\<close>.\<close>

definition keep_from :: "'a::linorder ext \<Rightarrow> 'a ext list \<Rightarrow> 'a ext list" where
  "keep_from thr ls = map (\<lambda>x. if x < thr then NegInf else x) ls"

fun ext_div :: "'a::field ext \<Rightarrow> 'a \<Rightarrow> 'a ext" where
  "ext_div (Fin x) t = Fin (x / t)"
| "ext_div NegInf t = NegInf"
| "ext_div PosInf t = PosInf"

fun cumsum :: "'a::plus \<Rightarrow> 'a list \<Rightarrow> 'a list" where
  "cumsum a [] = []"
| "cumsum a (x # xs) = (a + x) # cumsum (a + x) xs"

definition truncate_k :: "('a::linorder, 'r) skernels \<Rightarrow> nat \<Rightarrow> 'a ext list \<Rightarrow> 'a ext list" where
  "truncate_k K k ls =
     (case z_topk K ls (min k (length ls)) of [] \<Rightarrow> ls | threshold # _ \<Rightarrow> keep_from threshold ls)"

definition truncate_p :: "('a::linordered_field, 'r) skernels \<Rightarrow> 'a \<Rightarrow> 'a ext list \<Rightarrow> 'a ext list" where
  "truncate_p K p ls =
     (let sorted_vals = rev (sort ls);
          cum = cumsum 0 (z_softmax K sorted_vals);
          k = max (length (filter (\<lambda>c. c \<le> p) cum)) 1
      in keep_from (sorted_vals ! (k - 1)) ls)"

text \<open>The three optional passes of \<open>_mask_logits\<close>, then the greedy one.\<close>

definition scale_logits :: "'a::linordered_field \<Rightarrow> 'a ext list \<Rightarrow> 'a ext list" where
  "scale_logits temperature ls = (if temperature > 0 then map (\<lambda>x. ext_div x temperature) ls else ls)"

definition apply_top_k :: "('a::linorder, 'r) skernels \<Rightarrow> int option \<Rightarrow> 'a ext list \<Rightarrow> 'a ext list" where
  "apply_top_k K top_k ls = (case top_k of None \<Rightarrow> ls | Some k \<Rightarrow> if k > 0 then truncate_k K (nat k) ls else ls)"

definition apply_top_p :: "('a::linordered_field, 'r) skernels \<Rightarrow> 'a option \<Rightarrow> 'a ext list \<Rightarrow> 'a ext list" where
  "apply_top_p K top_p ls = (case top_p of None \<Rightarrow> ls | Some p \<Rightarrow> if p < 1 then truncate_p K p ls else ls)"

definition mask_logits ::
  "('a::linordered_field, 'r) skernels \<Rightarrow> 'a \<Rightarrow> int option \<Rightarrow> 'a option \<Rightarrow> 'a ext list \<Rightarrow> 'a ext list" where
  "mask_logits K temperature top_k top_p ls =
     (let ls = apply_top_p K top_p (apply_top_k K top_k (scale_logits temperature ls))
      in if temperature \<le> 0 then keep_from (Max (set ls)) ls else ls)"

section \<open>The draw\<close>

definition penalize :: "'a::linordered_field \<Rightarrow> nat list \<Rightarrow> 'a list \<Rightarrow> 'a list" where
  "penalize rep history ls =
     (if rep \<noteq> 1 \<and> history \<noteq> []
      then map (\<lambda>(i, v). if i \<in> set history then (if v > 0 then v / rep else v * rep) else v) (enumerate_from0 ls)
      else ls)"

definition sample ::
  "('a::linordered_field, 'r) skernels \<Rightarrow> 'a gen_config \<Rightarrow> nat list \<Rightarrow> 'r \<Rightarrow> 'a list \<Rightarrow> nat \<times> 'r" where
  "sample K g history rng ls =
     (let masked = mask_logits K (g_temperature g) (g_top_k g) (g_top_p g) (map Fin (penalize (g_penalty g) history ls));
          rng = (case g_seed g of None \<Rightarrow> rng | Some s \<Rightarrow> z_seed K s)
      in z_draw K rng masked)"

text \<open>\<open>core.argmax\<close>: the first index of the maximum.\<close>

definition argmax :: "'a::linorder list \<Rightarrow> nat" where
  "argmax ls = (case py_index ls (Max (set ls)) of None \<Rightarrow> 0 | Some i \<Rightarrow> i)"

section \<open>What the kernels promise\<close>

text \<open>
  \<open>topk\<close> (\<open>mlx/ops.cpp\<close>) returns its input as it stands when the whole input is asked for; otherwise it
  partitions at the k-th largest value and returns the tail, so the result holds the k largest values,
  the k-th largest first and the rest in no particular order. \<open>softmax\<close> gives non-negative weights, and
  the categorical draw an index that is not masked.
\<close>

definition skernels_ok :: "('a::linordered_field, 'r) skernels \<Rightarrow> bool" where
  "skernels_ok K \<longleftrightarrow>
     (\<forall>ls. z_topk K ls (length ls) = ls) \<and>
     (\<forall>ls k. k < length ls \<longrightarrow> mset (z_topk K ls k) = mset (take k (rev (sort ls))) \<and>
        (\<forall>y \<in> set (z_topk K ls k). hd (z_topk K ls k) \<le> y)) \<and>
     (\<forall>ls. length (z_softmax K ls) = length ls \<and> (\<forall>x \<in> set (z_softmax K ls). 0 \<le> x)) \<and>
     (\<forall>r ls. (\<exists>i<length ls. ls ! i \<noteq> NegInf) \<longrightarrow> fst (z_draw K r ls) < length ls \<and> ls ! fst (z_draw K r ls) \<noteq> NegInf)"

section \<open>Ranks\<close>

definition rank_of :: "'a::linorder list \<Rightarrow> 'a \<Rightarrow> nat" where
  "rank_of ls x = length (filter (\<lambda>y. x < y) ls)"

lemma rank_of_mset: "mset ls = mset ls' \<Longrightarrow> rank_of ls x = rank_of ls' x"
  unfolding rank_of_def by (metis mset_filter size_mset)

lemma rank_of_desc: "rank_of ls x = length (takeWhile (\<lambda>y. x < y) (rev (sort ls)))"
proof -
  have "takeWhile (\<lambda>y. x < y) zs = filter (\<lambda>y. x < y) zs" if "sorted (rev zs)" for zs :: "'a list"
    using that by (induction zs) (auto simp: sorted_append filter_empty_conv not_less eq_commute [of "[]"] intro: order.trans)
  then show ?thesis using rank_of_mset [of ls "rev (sort ls)" x] by (simp add: rank_of_def)
qed

lemma desc_rank:
  assumes "x \<in> set ls"
  shows "rank_of ls x < length ls" and "rev (sort ls) ! rank_of ls x = x" and "i < rank_of ls x \<Longrightarrow> x < rev (sort ls) ! i"
proof -
  let ?d = "rev (sort ls)" and ?P = "\<lambda>y. x < y"
  obtain m where m: "m < length ?d" "?d ! m = x" using assms by (metis in_set_conv_nth set_rev set_sort)
  have le: "rank_of ls x \<le> m"
    using m nth_mem takeWhile_nth [of m ?P ?d] set_takeWhileD [of _ ?P ?d]
    by (metis rank_of_desc less_irrefl not_le_imp_less)
  then show lt: "rank_of ls x < length ls" using m(1) by simp
  have "?d ! m \<le> ?d ! rank_of ls x" using sorted_rev_nth_mono [of ?d "rank_of ls x" m] le m(1) by simp
  moreover have "\<not> x < ?d ! rank_of ls x" using nth_length_takeWhile [of ?P ?d] lt by (simp add: rank_of_desc)
  ultimately show "?d ! rank_of ls x = x" using m(2) by simp
  show "i < rank_of ls x \<Longrightarrow> x < ?d ! i"
    by (metis rank_of_desc nth_mem set_takeWhileD takeWhile_nth)
qed

lemma rank_of_keep: "thr \<le> x \<Longrightarrow> rank_of (keep_from thr ls) x = rank_of ls x"
proof -
  assume "thr \<le> x"
  then have "x < (if y < thr then NegInf else y) \<longleftrightarrow> x < y" for y by (auto simp: less_ext_def)
  then show ?thesis by (simp add: rank_of_def keep_from_def filter_map comp_def)
qed

text \<open>
  A step of the truncation: some entries are masked, none that is at least the threshold, and the
  threshold does not exceed the maximum.
\<close>

definition truncates :: "'a::linorder ext \<Rightarrow> 'a ext list \<Rightarrow> 'a ext list \<Rightarrow> bool" where
  "truncates thr ls ls' \<longleftrightarrow> ls' = keep_from thr ls \<and> thr \<le> Max (set ls)"

lemma truncates_refl: "ls \<noteq> [] \<Longrightarrow> truncates NegInf ls ls"
  by (auto simp: truncates_def keep_from_def less_ext_def map_idI)

lemma truncates_props:
  assumes "truncates thr ls ls'" and "ls \<noteq> []"
  shows "length ls' = length ls" and "Max (set ls') = Max (set ls)"
    and "i < length ls \<Longrightarrow> ls' ! i \<noteq> NegInf \<Longrightarrow> ls' ! i = ls ! i \<and> thr \<le> ls ! i"
    and "x \<in> set ls \<Longrightarrow> thr \<le> x \<Longrightarrow> rank_of ls' x = rank_of ls x"
proof -
  show "length ls' = length ls" using assms(1) by (simp add: truncates_def keep_from_def)
  show "i < length ls \<Longrightarrow> ls' ! i \<noteq> NegInf \<Longrightarrow> ls' ! i = ls ! i \<and> thr \<le> ls ! i"
    using assms(1) by (auto simp: truncates_def keep_from_def not_less split: if_splits)
  show "x \<in> set ls \<Longrightarrow> thr \<le> x \<Longrightarrow> rank_of ls' x = rank_of ls x"
    using assms(1) rank_of_keep by (auto simp: truncates_def)
  let ?m = "Max (set ls)"
  have m: "?m \<in> set ls" "thr \<le> ?m" using assms by (simp_all add: truncates_def)
  have "?m \<in> set ls'" using m assms(1) by (force simp: truncates_def keep_from_def image_iff not_less)
  moreover have "y \<le> ?m" if "y \<in> set ls'" for y
    using that assms(1) by (auto simp: truncates_def keep_from_def split: if_splits)
  ultimately show "Max (set ls') = ?m" by (intro Max_eqI) auto
qed

section \<open>What each pass keeps\<close>

lemma desc_le_Max: "i < length ls \<Longrightarrow> rev (sort ls) ! i \<le> Max (set (ls :: 'a::linorder list))"
proof -
  assume "i < length ls"
  then have "rev (sort ls) ! i \<in> set ls" by (metis length_rev length_sort nth_mem set_rev set_sort)
  then show ?thesis by simp
qed

lemma rank_of_zero: "x \<in> set ls \<Longrightarrow> rank_of ls x = 0 \<longleftrightarrow> x = Max (set ls)"
  by (auto simp: rank_of_def filter_empty_conv not_less intro!: Max_eqI [symmetric])

lemma desc_take_hd:
  assumes "mset ys = mset (take k (rev (sort ls)))" and "\<forall>y \<in> set ys. hd ys \<le> y" and "0 < k" "k \<le> length ls"
  shows "ys \<noteq> [] \<and> hd ys = rev (sort ls) ! (k - 1)"
proof -
  let ?d = "rev (sort ls)"
  have tk: "take k ?d = take (k - 1) ?d @ [?d ! (k - 1)]"
    using take_Suc_conv_app_nth [of "k - 1" ?d] assms(3,4) by simp
  have st: "set ys = set (take k ?d)" by (rule mset_eq_setD [OF assms(1)])
  have ne: "ys \<noteq> []" using assms(1) tk by (metis append_is_Nil_conv list.distinct(1) mset_zero_iff)
  have "?d ! (k - 1) \<le> y" if mem: "y \<in> set (take k ?d)" for y
  proof -
    obtain i where m: "i < length (take k ?d)" "take k ?d ! i = y" using mem unfolding in_set_conv_nth by blast
    have "i < k" using m(1) unfolding length_take by linarith
    then have i: "i < k" "?d ! i = y" using m(2) nth_take [of i k ?d] by simp_all
    then show ?thesis using sorted_rev_nth_mono [of ?d i "k - 1"] assms(3,4) by simp
  qed
  moreover have "hd ys \<in> set (take k ?d)" using ne st hd_in_set by blast
  moreover have "hd ys \<le> ?d ! (k - 1)" using assms(2) st tk by simp
  ultimately show ?thesis using ne by (simp add: antisym)
qed

lemma rank_of_less_iff:
  assumes "x \<in> set ls" and "0 < k" "k \<le> length ls"
  shows "rank_of ls x < k \<longleftrightarrow> rev (sort ls) ! (k - 1) \<le> x"
proof
  assume "rank_of ls x < k"
  then show "rev (sort ls) ! (k - 1) \<le> x"
    using sorted_rev_nth_mono [of "rev (sort ls)" "rank_of ls x" "k - 1"] desc_rank(2) [OF assms(1)] assms(2,3) by simp
next
  assume le: "rev (sort ls) ! (k - 1) \<le> x"
  show "rank_of ls x < k"
  proof (rule ccontr)
    assume "\<not> rank_of ls x < k"
    then show False using desc_rank(3) [OF assms(1), of "k - 1"] le assms(2) by fastforce
  qed
qed

lemma truncate_k_threshold:
  assumes K: "skernels_ok K" and k: "0 < k" and ne: "ls \<noteq> []"
  shows "truncate_k K k ls = keep_from (if k < length ls then rev (sort ls) ! (k - 1) else hd ls) ls"
proof (cases "k < length ls")
  case True
  then have "mset (z_topk K ls k) = mset (take k (rev (sort ls))) \<and> (\<forall>y \<in> set (z_topk K ls k). hd (z_topk K ls k) \<le> y)"
    using K by (simp add: skernels_ok_def)
  then have "z_topk K ls k \<noteq> []" "hd (z_topk K ls k) = rev (sort ls) ! (k - 1)"
    using desc_take_hd [of "z_topk K ls k" k ls] True k by simp_all
  then show ?thesis using True by (cases "z_topk K ls k") (simp_all add: truncate_k_def min_def)
next
  case False
  then have "z_topk K ls (min k (length ls)) = ls" using K by (simp add: skernels_ok_def min_def)
  then show ?thesis using False ne by (cases ls) (simp_all add: truncate_k_def)
qed

lemma truncate_k_keeps:
  assumes K: "skernels_ok K" and k: "0 < k" and ne: "ls \<noteq> []"
  shows "\<exists>thr. truncates thr ls (truncate_k K k ls) \<and> (\<forall>x \<in> set ls. thr \<le> x \<longrightarrow> rank_of ls x < k)"
proof (cases "k < length ls")
  case True
  then have "rev (sort ls) ! (k - 1) \<le> Max (set ls)" by (intro desc_le_Max) simp
  then show ?thesis
    using truncate_k_threshold [OF K k ne] rank_of_less_iff [of _ ls k] True k by (auto simp: truncates_def)
next
  case False
  have "rank_of ls x < k" if "x \<in> set ls" for x using desc_rank(1) [OF that] False by linarith
  moreover have "hd ls \<le> Max (set ls)" using ne by simp
  ultimately show ?thesis using truncate_k_threshold [OF K k ne] False by (auto simp: truncates_def)
qed

text \<open>
  What the top-k pass does. With fewer candidates asked for than the vocabulary holds, it keeps
  exactly the tokens that fewer than \<open>k\<close> others beat (ties with the last one included) and masks the
  rest. With \<open>top_k\<close> at or above the vocabulary it does not keep everything: the kernel then returns the
  logits in their own order, its first entry is token 0's logit, and every token below that is masked.
\<close>

theorem top_k_exact:
  assumes "skernels_ok K" and "0 < k" and "ls \<noteq> []"
  shows "truncate_k K k ls =
    (if k < length ls then map (\<lambda>x. if rank_of ls x < k then x else NegInf) ls
     else map (\<lambda>x. if x < ls ! 0 then NegInf else x) ls)"
proof (cases "k < length ls")
  case True
  then show ?thesis
    using truncate_k_threshold [OF assms] rank_of_less_iff [of _ ls k] assms(2)
    by (auto simp: keep_from_def not_less)
next
  case False
  then show ?thesis using truncate_k_threshold [OF assms] assms(3) by (simp add: keep_from_def hd_conv_nth)
qed

lemma cumsum_nth: "i < length xs \<Longrightarrow> cumsum a xs ! i = a + sum_list (take (Suc i) (xs :: 'a::comm_monoid_add list))"
  by (induction a xs arbitrary: i rule: cumsum.induct) (auto simp: nth_Cons add.assoc split: nat.splits)

lemma cumsum_sorted: "\<forall>x \<in> set xs. 0 \<le> x \<Longrightarrow> sorted (cumsum a xs) \<and> (\<forall>c \<in> set (cumsum a xs). a \<le> (c :: 'a::linordered_field))"
proof (induction a xs rule: cumsum.induct)
  case (2 a x xs)
  then have "sorted (cumsum (a + x) xs) \<and> (\<forall>c \<in> set (cumsum (a + x) xs). a + x \<le> c)" by simp
  moreover have "a \<le> a + x" using 2 by simp
  ultimately show ?case by (auto intro: order.trans)
qed simp

lemma length_cumsum [simp]: "length (cumsum a xs) = length xs"
  by (induction a xs rule: cumsum.induct) simp_all

lemma sorted_filter_prefix: "sorted zs \<Longrightarrow> i < length (filter (\<lambda>c. c \<le> p) zs) \<Longrightarrow> zs ! i \<le> (p :: 'a::linorder)"
proof (induction zs arbitrary: i)
  case (Cons z zs)
  show ?case
  proof (cases "z \<le> p")
    case True
    then show ?thesis using Cons by (cases i) auto
  next
    case False
    then have "filter (\<lambda>c. c \<le> p) (z # zs) = []" using Cons.prems(1) by (auto simp: filter_empty_conv)
    then show ?thesis using Cons.prems(2) by simp
  qed
qed simp

lemma truncate_p_keeps:
  assumes K: "skernels_ok K" and ne: "ls \<noteq> []"
  shows "\<exists>thr. truncates thr ls (truncate_p K p ls) \<and>
    (\<forall>x \<in> set ls. thr \<le> x \<longrightarrow> x = Max (set ls) \<or> sum_list (take (Suc (rank_of ls x)) (z_softmax K (rev (sort ls)))) \<le> p)"
proof -
  let ?d = "rev (sort ls)"
  let ?c = "cumsum 0 (z_softmax K ?d)"
  let ?n = "length (filter (\<lambda>c. c \<le> p) ?c)"
  let ?k = "max ?n 1"
  have sm: "length (z_softmax K ?d) = length ls" "\<forall>x \<in> set (z_softmax K ?d). 0 \<le> x"
    using K by (simp_all add: skernels_ok_def)
  have "?n \<le> length ls" using length_filter_le [of "\<lambda>c. c \<le> p" ?c] sm(1) by simp
  then have k: "?k - 1 < length ls" using ne by (cases ls) (auto simp: max_def)
  have "x = Max (set ls) \<or> sum_list (take (Suc (rank_of ls x)) (z_softmax K ?d)) \<le> p"
    if x: "x \<in> set ls" "?d ! (?k - 1) \<le> x" for x
  proof (cases "rank_of ls x")
    case 0
    then show ?thesis using rank_of_zero [OF x(1)] by simp
  next
    case (Suc m)
    have "\<not> ?k - 1 < rank_of ls x" using desc_rank(3) [OF x(1), of "?k - 1"] x(2) by fastforce
    then have "rank_of ls x < ?n" using Suc by (auto simp: max_def split: if_splits)
    then have "?c ! rank_of ls x \<le> p" using sorted_filter_prefix cumsum_sorted [OF sm(2)] by blast
    then show ?thesis using cumsum_nth [of "rank_of ls x" "z_softmax K ?d" 0] desc_rank(1) [OF x(1)] sm(1) by simp
  qed
  moreover have "truncate_p K p ls = keep_from (?d ! (?k - 1)) ls" by (simp add: truncate_p_def Let_def)
  ultimately show ?thesis using desc_le_Max [OF k] by (auto simp: truncates_def)
qed

lemma apply_top_k_keeps:
  assumes "skernels_ok K" and "ls \<noteq> []"
  shows "\<exists>thr. truncates thr ls (apply_top_k K top_k ls) \<and>
    (\<forall>k. top_k = Some k \<and> 0 < k \<longrightarrow> (\<forall>x \<in> set ls. thr \<le> x \<longrightarrow> rank_of ls x < nat k))"
proof (cases "\<exists>k. top_k = Some k \<and> 0 < k")
  case True
  then obtain k where k: "top_k = Some k" "0 < k" by blast
  then show ?thesis using truncate_k_keeps [OF assms(1) _ assms(2), of "nat k"] by (auto simp: apply_top_k_def)
next
  case False
  then have "apply_top_k K top_k ls = ls" by (auto simp: apply_top_k_def split: option.splits)
  then show ?thesis using truncates_refl [OF assms(2)] False by auto
qed

lemma apply_top_p_keeps:
  assumes "skernels_ok K" and "ls \<noteq> []"
  shows "\<exists>thr. truncates thr ls (apply_top_p K top_p ls) \<and>
    (\<forall>p. top_p = Some p \<and> p < 1 \<longrightarrow> (\<forall>x \<in> set ls. thr \<le> x \<longrightarrow>
       x = Max (set ls) \<or> sum_list (take (Suc (rank_of ls x)) (z_softmax K (rev (sort ls)))) \<le> p))"
proof (cases "\<exists>p. top_p = Some p \<and> p < 1")
  case True
  then obtain p where p: "top_p = Some p" "p < 1" by blast
  then show ?thesis using truncate_p_keeps [OF assms, of p] by (auto simp: apply_top_p_def)
next
  case False
  then have "apply_top_p K top_p ls = ls" by (auto simp: apply_top_p_def split: option.splits)
  then show ?thesis using truncates_refl [OF assms(2)] False by auto
qed

lemma scale_props:
  fixes pen :: "'a::linordered_field list"
  shows "length (scale_logits t (map Fin pen)) = length pen"
    and "i < length pen \<Longrightarrow> scale_logits t (map Fin pen) ! i \<noteq> NegInf"
    and "i < length pen \<Longrightarrow> rank_of (scale_logits t (map Fin pen)) (scale_logits t (map Fin pen) ! i) = rank_of pen (pen ! i)"
    and "i < length pen \<Longrightarrow> scale_logits t (map Fin pen) ! i = Max (set (scale_logits t (map Fin pen))) \<Longrightarrow> pen ! i = Max (set pen)"
proof -
  define u where "u = (if t > 0 then t else 1)"
  have u: "0 < u" "scale_logits t (map Fin pen) = map (\<lambda>x. Fin (x / u)) pen"
    by (auto simp: u_def scale_logits_def)
  show "length (scale_logits t (map Fin pen)) = length pen" "i < length pen \<Longrightarrow> scale_logits t (map Fin pen) ! i \<noteq> NegInf"
    by (simp_all add: u(2))
  have "Fin (x / u) < Fin (y / u) \<longleftrightarrow> x < y" for x y using u(1) by (simp add: less_ext_def divide_le_cancel not_le) (auto simp: less_le_not_le)
  then have ab: "rank_of (scale_logits t (map Fin pen)) (Fin (x / u)) = rank_of pen x" for x
    by (simp add: rank_of_def u(2) filter_map comp_def)
  then show "i < length pen \<Longrightarrow> rank_of (scale_logits t (map Fin pen)) (scale_logits t (map Fin pen) ! i) = rank_of pen (pen ! i)"
    by (simp add: u(2))
  show "pen ! i = Max (set pen)" if "i < length pen" "scale_logits t (map Fin pen) ! i = Max (set (scale_logits t (map Fin pen)))"
  proof -
    have "scale_logits t (map Fin pen) ! i \<in> set (scale_logits t (map Fin pen))" using that(1) by (intro nth_mem) (simp add: u(2))
    then have "rank_of (scale_logits t (map Fin pen)) (scale_logits t (map Fin pen) ! i) = 0" using rank_of_zero that(2) by metis
    then have "rank_of pen (pen ! i) = 0" using ab that(1) by (simp add: u(2))
    then show ?thesis using rank_of_zero that(1) by (metis nth_mem)
  qed
qed

lemma length_penalize [simp]: "length (penalize rep history ls) = length ls"
  by (simp add: penalize_def enumerate_from0_def)

text \<open>
  C17: what can be sampled. For logits of a non-empty vocabulary, the sampled id is in the vocabulary;
  after the repetition penalty fewer than \<open>top_k\<close> tokens are strictly better than it; at a temperature of
  zero or less none is (greedy decoding); and under nucleus truncation either it is a best token, or the
  softmax mass of all strictly better tokens together with its own is at most \<open>top_p\<close>.
\<close>

theorem sample_sound:
  assumes K: "skernels_ok K" and ne: "ls \<noteq> []"
    and run: "sample K g history rng ls = (t, rng')"
    and pen: "pen = penalize (g_penalty g) history ls"
    and kept: "kept = apply_top_k K (g_top_k g) (scale_logits (g_temperature g) (map Fin pen))"
  shows "t < length ls \<and>
    (\<forall>k. g_top_k g = Some k \<and> 0 < k \<longrightarrow> rank_of pen (pen ! t) < nat k) \<and>
    (g_temperature g \<le> 0 \<longrightarrow> pen ! t = Max (set pen)) \<and>
    (\<forall>p. g_top_p g = Some p \<and> p < 1 \<longrightarrow>
       pen ! t = Max (set pen) \<or> sum_list (take (Suc (rank_of pen (pen ! t))) (z_softmax K (rev (sort kept)))) \<le> p)"
proof -
  define S where "S = scale_logits (g_temperature g) (map Fin pen)"
  have S: "length S = length ls" "S \<noteq> []" "\<And>i. i < length ls \<Longrightarrow> S ! i \<noteq> NegInf"
  proof -
    show len: "length S = length ls" by (simp add: S_def scale_props(1) pen)
    show "S \<noteq> []" using len ne by (cases S) auto
    show "\<And>i. i < length ls \<Longrightarrow> S ! i \<noteq> NegInf" using scale_props(2) [of _ pen] by (simp add: S_def pen)
  qed
  obtain a where a: "truncates a S kept" "\<forall>k. g_top_k g = Some k \<and> 0 < k \<longrightarrow> (\<forall>x \<in> set S. a \<le> x \<longrightarrow> rank_of S x < nat k)"
    using apply_top_k_keeps [OF K S(2)] kept S_def by blast
  note A = truncates_props [OF a(1) S(2)]
  have kne: "kept \<noteq> []" using A(1) S(2) by auto
  define P where "P = apply_top_p K (g_top_p g) kept"
  obtain b where b: "truncates b kept P" "\<forall>p. g_top_p g = Some p \<and> p < 1 \<longrightarrow> (\<forall>x \<in> set kept. b \<le> x \<longrightarrow>
       x = Max (set kept) \<or> sum_list (take (Suc (rank_of kept x)) (z_softmax K (rev (sort kept)))) \<le> p)"
    using apply_top_p_keeps [OF K kne] P_def by blast
  note B = truncates_props [OF b(1) kne]
  have pne: "P \<noteq> []" using B(1) kne by auto
  define M where "M = mask_logits K (g_temperature g) (g_top_k g) (g_top_p g) (map Fin pen)"
  have Mdef: "M = (if g_temperature g \<le> 0 then keep_from (Max (set P)) P else P)"
    by (simp add: M_def mask_logits_def P_def kept S_def Let_def)
  obtain c where c: "truncates c P M" "g_temperature g \<le> 0 \<longrightarrow> c = Max (set P)"
  proof (cases "g_temperature g \<le> 0")
    case True
    then show ?thesis using Mdef by (intro that [of "Max (set P)"]) (simp_all add: truncates_def)
  next
    case False
    then show ?thesis using Mdef truncates_refl [OF pne] by (intro that [of NegInf]) simp_all
  qed
  note C = truncates_props [OF c(1) pne]
  have len: "length M = length ls" "length P = length ls" "length kept = length ls" using A(1) B(1) C(1) S(1) by simp_all
  have t: "t = fst (z_draw K (case g_seed g of None \<Rightarrow> rng | Some s \<Rightarrow> z_seed K s) M)"
    using run by (simp add: sample_def M_def pen Let_def)
  have max: "Max (set M) = Max (set S)" using A(2) B(2) C(2) by simp
  have "Max (set S) \<noteq> NegInf" using S Max_in [of "set S"] by (metis List.finite_set in_set_conv_nth set_empty)
  moreover have "Max (set M) \<in> set M" using pne C(1) by (intro Max_in) auto
  ultimately have live: "\<exists>i<length M. M ! i \<noteq> NegInf" using max by (metis in_set_conv_nth)
  have "\<forall>r ls. (\<exists>i<length ls. ls ! i \<noteq> NegInf) \<longrightarrow> fst (z_draw K r ls) < length ls \<and> ls ! fst (z_draw K r ls) \<noteq> NegInf"
    using K unfolding skernels_ok_def by blast
  then have "t < length M \<and> M ! t \<noteq> NegInf" unfolding t using live by blast
  then have draw: "t < length ls" "M ! t \<noteq> NegInf" using len by simp_all
  have Ct: "M ! t = P ! t" "c \<le> P ! t" using C(3) [of t] draw len by simp_all
  have Bt: "P ! t = kept ! t" "b \<le> kept ! t" using B(3) [of t] draw len Ct by simp_all
  have At: "kept ! t = S ! t" "a \<le> S ! t" using A(3) [of t] draw len S(1) Ct Bt by simp_all
  have mem: "S ! t \<in> set S" "kept ! t \<in> set kept" "P ! t \<in> set P" using draw len S(1) by simp_all
  have tp: "t < length pen" using draw(1) by (simp add: pen)
  have ab: "rank_of S (S ! t) = rank_of pen (pen ! t)" "rank_of kept (kept ! t) = rank_of pen (pen ! t)"
    using scale_props(3) [where t = "g_temperature g", OF tp] A(4) [OF mem(1) At(2)] At(1) by (simp_all add: S_def)
  have best: "pen ! t = Max (set pen)" if "S ! t = Max (set S)"
    using scale_props(4) [where t = "g_temperature g", OF tp] that by (simp add: S_def)
  have "rank_of pen (pen ! t) < nat k" if "g_top_k g = Some k" "0 < k" for k
    using a(2) that mem(1) At(2) by (simp flip: ab(1))
  moreover have "pen ! t = Max (set pen)" if "g_temperature g \<le> 0"
  proof -
    have "P ! t = Max (set P)" using c(2) that Ct(2) mem(3) by (intro antisym) simp_all
    then show ?thesis using best A(2) B(2) Bt(1) At(1) by simp
  qed
  moreover have "pen ! t = Max (set pen) \<or> sum_list (take (Suc (rank_of pen (pen ! t))) (z_softmax K (rev (sort kept)))) \<le> p"
    if "g_top_p g = Some p" "p < 1" for p
    using b(2) that mem(2) Bt(2) ab(2) best A(2) At(1) by metis
  ultimately show ?thesis using draw(1) by blast
qed

section \<open>An instance\<close>

definition demo_sk :: "(rat, nat) skernels" where
  "demo_sk = \<lparr>z_topk = (\<lambda>ls k. if k = length ls then ls else rev (take k (rev (sort ls)))),
     z_softmax = (\<lambda>ls. map (\<lambda>x. case x of Fin v \<Rightarrow> demo_gate v / sum_list (map (\<lambda>y. case y of Fin w \<Rightarrow> demo_gate w | _ \<Rightarrow> 0) ls) | _ \<Rightarrow> 0) ls),
     z_seed = nat,
     z_draw = (\<lambda>r ls. let live = filter (\<lambda>i. ls ! i \<noteq> NegInf) [0..<length ls] in (live ! (r mod length live), Suc r))\<rparr>"

lemma demo_sk_ok: "skernels_ok demo_sk"
proof -
  have "fst (z_draw demo_sk r ls) < length ls \<and> ls ! fst (z_draw demo_sk r ls) \<noteq> NegInf"
    if "\<exists>i<length ls. ls ! i \<noteq> NegInf" for r ls
  proof -
    let ?live = "filter (\<lambda>i. ls ! i \<noteq> NegInf) [0..<length ls]"
    have "?live \<noteq> []" using that by (auto simp: filter_empty_conv)
    then have "?live ! (r mod length ?live) \<in> set ?live" by (intro nth_mem) simp
    then show ?thesis by (simp add: demo_sk_def Let_def del: nth_mem)
  qed
  moreover have "hd (rev (take k (rev (sort ls)))) \<le> y" if "y \<in> set (take k (rev (sort ls)))" for ls :: "rat ext list" and k y
  proof -
    have "sorted (rev (take k (rev (sort ls))))" by (simp add: rev_take)
    then show ?thesis using that by (cases "rev (take k (rev (sort ls)))") (auto simp flip: set_rev [of "take k (rev (sort ls))"])
  qed
  moreover have "0 \<le> sum_list (map (\<lambda>y. case y of Fin w \<Rightarrow> demo_gate w | _ \<Rightarrow> 0) ls)" for ls :: "rat ext list"
    by (rule sum_list_nonneg) (auto simp: less_imp_le [OF demo_gate_pos] split: ext.splits)
  ultimately show ?thesis
    by (auto simp: skernels_ok_def demo_sk_def Let_def less_imp_le [OF demo_gate_pos] split: ext.splits)
qed

definition demo_gen :: "rat gen_config" where
  "demo_gen = default_gen\<lparr>g_temperature := 1 / 2, g_top_k := Some 3, g_top_p := Some (3 / 4), g_penalty := 2, g_eos := [0]\<rparr>"

lemma demo_sample: "sample demo_sk demo_gen [1] 1 [2, 3, 1, 5 / 2] = (3, 2)"
  by code_simp

theorem sample_sound_witness:
  "(3::nat) < length [2, 3, 1, 5 / 2 :: rat] \<and>
    rank_of (penalize 2 [1] [2, 3, 1, 5 / 2 :: rat]) (penalize 2 [1] [2, 3, 1, 5 / 2] ! 3) < nat 3"
proof -
  have "g_penalty demo_gen = 2" "g_top_k demo_gen = Some 3" by (simp_all add: demo_gen_def)
  then show ?thesis using sample_sound [OF demo_sk_ok _ demo_sample refl refl] by simp
qed

theorem top_k_exact_witness:
  "truncate_k demo_sk 2 [Fin 2, Fin 3, Fin 1, Fin (5 / 2)] = [NegInf, Fin 3, NegInf, Fin (5 / 2)] \<and>
   truncate_k demo_sk 4 [Fin 2, Fin 3, Fin 1, Fin (5 / 2)] = [Fin 2, Fin 3, NegInf, Fin (5 / 2 :: rat)]"
  using top_k_exact [OF demo_sk_ok, of 2 "[Fin 2, Fin 3, Fin 1, Fin (5 / 2)]"]
    top_k_exact [OF demo_sk_ok, of 4 "[Fin 2, Fin 3, Fin 1, Fin (5 / 2)]"]
  by (simp add: rank_of_def less_ext_def)

end
