(* ===== verification/Engine.thy ===== *)
theory Engine
  imports Sampling
begin

text \<open>
  The engine base class: \<open>edge0/engine/base.py\<close>. A family (ling, qwen) is the record of its hooks over
  the family's own state; the engine adds the position, the prefill flag, the last logits and the state
  of MLX's random generator. A hook blocks with \<open>None\<close> when a layer waits for a fill that never runs,
  and raises with \<open>Inl\<close>. The lemmas relate the chunked prefill and the sampling loop, with its early
  exit, to the plain autoregressive sequence.
\<close>

section \<open>State and hooks\<close>

record ('s, 'a) family =
  fa_forward :: "bool \<Rightarrow> nat list \<Rightarrow> 's \<Rightarrow> ('a list res \<times> 's) option"
  fa_step_pre :: "nat \<Rightarrow> 's \<Rightarrow> (unit res \<times> 's) option"
  fa_step_post :: "nat \<Rightarrow> 's \<Rightarrow> (unit res \<times> 's) option"
  fa_prefill_end :: "'s \<Rightarrow> (unit res \<times> 's) option"
  fa_reset :: "'s \<Rightarrow> 's"
  fa_close :: "'s \<Rightarrow> 's"
  fa_chunk :: int

record ('s, 'a, 'r) engine =
  e_state :: 's
  e_pos :: nat
  e_active :: bool
  e_last :: "'a list option"
  e_rng :: 'r

definition engine_new :: "'s \<Rightarrow> 'r \<Rightarrow> ('s, 'a, 'r) engine" where
  "engine_new s r = \<lparr>e_state = s, e_pos = 0, e_active = False, e_last = None, e_rng = r\<rparr>"

text \<open>A call of a hook that returns nothing, and of the forward with the engine's prefill flag.\<close>

definition run_hook :: "('s \<Rightarrow> (unit res \<times> 's) option) \<Rightarrow> ('s, 'a, 'r) engine \<Rightarrow> (unit res \<times> ('s, 'a, 'r) engine) option" where
  "run_hook h E = map_option (\<lambda>(r, s). (r, E\<lparr>e_state := s\<rparr>)) (h (e_state E))"

definition run_forward :: "('s, 'a) family \<Rightarrow> nat list \<Rightarrow> ('s, 'a, 'r) engine \<Rightarrow> ('a list res \<times> ('s, 'a, 'r) engine) option" where
  "run_forward F ids E = map_option (\<lambda>(r, s). (r, E\<lparr>e_state := s\<rparr>)) (fa_forward F (e_active E) ids (e_state E))"

section \<open>Prefill\<close>

text \<open>\<open>token_ids[start:start + chunk_size]\<close> for \<open>start in range(0, total, chunk_size)\<close>, positive sizes.\<close>

function chunks :: "nat \<Rightarrow> 'x list \<Rightarrow> 'x list list" where
  "chunks n xs = (if n = 0 \<or> xs = [] then [] else take n xs # chunks n (drop n xs))"
  by pat_completeness auto
termination by (relation "measure (\<lambda>(n, xs). length xs)") auto

declare chunks.simps [simp del]

fun prefill_chunks :: "('s, 'a) family \<Rightarrow> nat list list \<Rightarrow> ('s, 'a, 'r) engine \<Rightarrow> (unit res \<times> ('s, 'a, 'r) engine) option" where
  "prefill_chunks F [] E = Some (Inr (), E)"
| "prefill_chunks F (chunk # rest) E =
     (case run_forward F chunk E of
        None \<Rightarrow> None
      | Some (Inl e, E) \<Rightarrow> Some (Inl e, E)
      | Some (Inr lg, E) \<Rightarrow> prefill_chunks F rest (E\<lparr>e_last := Some lg, e_pos := e_pos E + length chunk\<rparr>))"

text \<open>
  \<open>range\<close> with step \<open>0\<close> raises, and is empty for a negative step. The flag is cleared on every exit of
  the loop, and the family's end hook runs only when no chunk raised.
\<close>

definition prefill :: "('s, 'a) family \<Rightarrow> nat list \<Rightarrow> ('s, 'a, 'r) engine \<Rightarrow> (nat res \<times> ('s, 'a, 'r) engine) option" where
  "prefill F ids E =
     (case (if fa_chunk F = 0 then Some (Inl ValueError, E\<lparr>e_active := True\<rparr>)
            else prefill_chunks F (if fa_chunk F < 0 then [] else chunks (nat (fa_chunk F)) ids) (E\<lparr>e_active := True\<rparr>)) of
        None \<Rightarrow> None
      | Some (Inl e, E) \<Rightarrow> Some (Inl e, E\<lparr>e_active := False\<rparr>)
      | Some (Inr _, E) \<Rightarrow>
          (case run_hook (fa_prefill_end F) (E\<lparr>e_active := False\<rparr>) of
             None \<Rightarrow> None
           | Some (Inl e, E) \<Rightarrow> Some (Inl e, E)
           | Some (Inr _, E) \<Rightarrow> Some (Inr (length ids), E)))"

section \<open>Decoding\<close>

definition step :: "('s, 'a) family \<Rightarrow> nat \<Rightarrow> ('s, 'a, 'r) engine \<Rightarrow> ('a list res \<times> ('s, 'a, 'r) engine) option" where
  "step F t E =
     (case run_hook (fa_step_pre F t) E of
        None \<Rightarrow> None
      | Some (Inl e, E) \<Rightarrow> Some (Inl e, E)
      | Some (Inr _, E) \<Rightarrow>
          (case run_forward F [t] E of
             None \<Rightarrow> None
           | Some (Inl e, E) \<Rightarrow> Some (Inl e, E)
           | Some (Inr lg, E) \<Rightarrow>
               (case run_hook (fa_step_post F t) (E\<lparr>e_pos := Suc (e_pos E)\<rparr>) of
                  None \<Rightarrow> None
                | Some (Inl e, E) \<Rightarrow> Some (Inl e, E)
                | Some (Inr _, E) \<Rightarrow> Some (Inr lg, E))))"

text \<open>The prompt: prefill, one forward for a single token, nothing for an empty prompt.\<close>

definition run_prompt :: "('s, 'a) family \<Rightarrow> nat list \<Rightarrow> ('s, 'a, 'r) engine \<Rightarrow> (unit res \<times> ('s, 'a, 'r) engine) option" where
  "run_prompt F ids E =
     (if length ids > 1 then map_option (\<lambda>(r, E). (res_bind r (\<lambda>_. Inr ()), E)) (prefill F ids E)
      else if length ids = 1 then
        (case run_forward F ids E of
           None \<Rightarrow> None
         | Some (Inl e, E) \<Rightarrow> Some (Inl e, E)
         | Some (Inr lg, E) \<Rightarrow> Some (Inr (), E\<lparr>e_last := Some lg, e_pos := Suc (e_pos E)\<rparr>))
      else Some (Inr (), E))"

definition pick ::
  "('a::linordered_field, 'r) skernels \<Rightarrow> 'a gen_config \<Rightarrow> bool \<Rightarrow> nat list \<Rightarrow> 'a list \<Rightarrow> 'r \<Rightarrow> nat \<times> 'r" where
  "pick K g first history lg rng =
     (if first \<and> g_first_greedy g then (argmax lg, rng) else sample K g history rng lg)"

text \<open>
  The loop of \<open>generate\<close>: the logits come from the prompt and then from each step, and \<open>on_token\<close> is
  called with the tokens appended, in order; its calls are the output list.
\<close>

fun gen_loop ::
  "('s, 'a::linordered_field) family \<Rightarrow> ('a, 'r) skernels \<Rightarrow> 'a gen_config \<Rightarrow> nat \<Rightarrow> bool \<Rightarrow> 'a list option \<Rightarrow> nat list \<Rightarrow>
     ('s, 'a, 'r) engine \<Rightarrow> (nat list res \<times> ('s, 'a, 'r) engine) option" where
  "gen_loop F K g 0 first logits history E = Some (Inr [], E)"
| "gen_loop F K g (Suc n) first logits history E =
     (case logits of
        None \<Rightarrow> Some (Inl RuntimeError, E)
      | Some lg \<Rightarrow>
          (case pick K g first history lg (e_rng E) of
             (tid, rng) \<Rightarrow>
               if is_eos g tid then Some (Inr [], E\<lparr>e_rng := rng\<rparr>)
               else
                 (case step F tid (E\<lparr>e_rng := rng\<rparr>) of
                    None \<Rightarrow> None
                  | Some (Inl e, E) \<Rightarrow> Some (Inl e, E)
                  | Some (Inr lg, E) \<Rightarrow>
                      map_option (\<lambda>(r, E). (res_bind r (\<lambda>out. Inr (tid # out)), E))
                        (gen_loop F K g n False (Some lg) (history @ [tid]) E))))"

definition generate ::
  "('s, 'a::linordered_field) family \<Rightarrow> ('a, 'r) skernels \<Rightarrow> 'a gen_config \<Rightarrow> int option \<Rightarrow> nat list \<Rightarrow>
     ('s, 'a, 'r) engine \<Rightarrow> (nat list res \<times> ('s, 'a, 'r) engine) option" where
  "generate F K g max_new ids E =
     (case run_prompt F ids E of
        None \<Rightarrow> None
      | Some (Inl e, E) \<Rightarrow> Some (Inl e, E)
      | Some (Inr _, E) \<Rightarrow>
          gen_loop F K g (nat (case max_new of None \<Rightarrow> g_max_new g | Some m \<Rightarrow> m)) True (e_last E) ids E)"

definition reset :: "('s, 'a) family \<Rightarrow> ('s, 'a, 'r) engine \<Rightarrow> ('s, 'a, 'r) engine" where
  "reset F E = E\<lparr>e_state := fa_reset F (e_state E), e_pos := 0, e_last := None\<rparr>"

definition close :: "('s, 'a) family \<Rightarrow> ('s, 'a, 'r) engine \<Rightarrow> ('s, 'a, 'r) engine" where
  "close F E = E\<lparr>e_state := fa_close F (e_state E)\<rparr>"

section \<open>The prefill is one pass over the prompt\<close>

lemma chunks_concat: "0 < n \<Longrightarrow> concat (chunks n xs) = xs"
  by (induction n xs rule: chunks.induct) (subst chunks.simps, auto)

lemma chunks_sizes: "c \<in> set (chunks n xs) \<Longrightarrow> c \<noteq> [] \<and> length c \<le> n"
proof (induction n xs rule: chunks.induct)
  case (1 n xs)
  then show ?case by (subst (asm) (2) chunks.simps) (auto split: if_splits)
qed

lemma run_forward_fields:
  "run_forward F ids E = Some (r, E') \<Longrightarrow> e_pos E' = e_pos E \<and> e_active E' = e_active E \<and> e_rng E' = e_rng E \<and> e_last E' = e_last E"
  by (auto simp: run_forward_def)

lemma run_hook_fields:
  "run_hook h E = Some (r, E') \<Longrightarrow> e_pos E' = e_pos E \<and> e_active E' = e_active E \<and> e_rng E' = e_rng E \<and> e_last E' = e_last E"
  by (auto simp: run_hook_def)

lemma prefill_chunks_pos:
  "prefill_chunks F cs E = Some (Inr u, E') \<Longrightarrow> e_pos E' = e_pos E + length (concat cs) \<and> e_rng E' = e_rng E"
  by (induction F cs E rule: prefill_chunks.induct) (auto split: option.splits prod.splits sum.splits dest!: run_forward_fields)

lemma step_fields: "step F t E = Some (Inr lg, E') \<Longrightarrow> e_pos E' = Suc (e_pos E) \<and> e_active E' = e_active E \<and> e_last E' = e_last E \<and> e_rng E' = e_rng E"
  by (auto simp: step_def split: option.splits prod.splits sum.splits dest!: run_forward_fields run_hook_fields)

text \<open>
  The prefill reads the prompt once and always leaves the prefill mode. Whatever the chunk size and
  whatever a chunk or the end hook raises, the flag that selects the prefill paths is cleared when the
  call returns; when it returns a count, that is the prompt's length, and with a positive chunk size the
  position has advanced by exactly that many tokens, fed in order in chunks of at most that size.
\<close>

theorem prefill_reads_prompt_once:
  assumes "prefill F ids E = Some (r, E')"
  shows "\<not> e_active E' \<and> (\<forall>n. r = Inr n \<longrightarrow> n = length ids \<and> fa_chunk F \<noteq> 0) \<and>
    (0 < fa_chunk F \<and> r = Inr (length ids) \<longrightarrow> e_pos E' = e_pos E + length ids \<and>
       concat (chunks (nat (fa_chunk F)) ids) = ids \<and> (\<forall>c \<in> set (chunks (nat (fa_chunk F)) ids). length c \<le> nat (fa_chunk F)))"
proof (cases "fa_chunk F = 0")
  case True
  then show ?thesis using assms by (auto simp: prefill_def)
next
  case False
  let ?cs = "if fa_chunk F < 0 then [] else chunks (nat (fa_chunk F)) ids"
  obtain q E1 where q: "prefill_chunks F ?cs (E\<lparr>e_active := True\<rparr>) = Some (q, E1)"
    using assms False unfolding prefill_def by (cases "prefill_chunks F ?cs (E\<lparr>e_active := True\<rparr>)") auto
  have run: "case q of Inl e \<Rightarrow> r = Inl e \<and> E' = E1\<lparr>e_active := False\<rparr>
    | Inr _ \<Rightarrow> \<exists>h. run_hook (fa_prefill_end F) (E1\<lparr>e_active := False\<rparr>) = Some (h, E') \<and>
        (r = Inr (length ids) \<or> (\<exists>e. r = Inl e))"
    using assms False q unfolding prefill_def by (auto split: sum.splits option.splits prod.splits)
  have flag: "\<not> e_active E'" using run by (auto split: sum.splits dest!: run_hook_fields)
  have pos: "e_pos E' = e_pos E + length (concat ?cs)" if ok: "r = Inr (length ids)"
  proof -
    obtain u where "q = Inr u" using run ok by (cases q) auto
    then show ?thesis using run prefill_chunks_pos [of F ?cs "E\<lparr>e_active := True\<rparr>" u E1] q
      by (auto dest!: run_hook_fields)
  qed
  have len: "n = length ids" if "r = Inr n" for n using run that by (cases q) auto
  have cs: "concat (chunks (nat (fa_chunk F)) ids) = ids" if "0 < fa_chunk F" using that by (intro chunks_concat) simp
  have sz: "\<forall>c \<in> set (chunks (nat (fa_chunk F)) ids). length c \<le> nat (fa_chunk F)" using chunks_sizes by blast
  have "e_pos E' = e_pos E + length ids" if "0 < fa_chunk F" "r = Inr (length ids)"
    using pos [OF that(2)] cs [OF that(1)] that(1) by simp
  then show ?thesis using flag len False cs sz by blast
qed

section \<open>Generation is the autoregressive sequence\<close>

text \<open>
  The reference: the logits, the history and the engine after \<open>i\<close> tokens when every token picked is fed
  back, without a stop; and the \<open>i\<close>-th token picked.
\<close>

primrec autoregress ::
  "('s, 'a::linordered_field) family \<Rightarrow> ('a, 'r) skernels \<Rightarrow> 'a gen_config \<Rightarrow> 'a list \<times> nat list \<times> ('s, 'a, 'r) engine \<Rightarrow> nat \<Rightarrow>
     'a list \<times> nat list \<times> ('s, 'a, 'r) engine" where
  "autoregress F K g S 0 = S"
| "autoregress F K g S (Suc i) =
     (case autoregress F K g S i of
        (lg, h, E) \<Rightarrow>
          (case pick K g (i = 0) h lg (e_rng E) of
             (t, r) \<Rightarrow> (case step F t (E\<lparr>e_rng := r\<rparr>) of Some (Inr lg', E') \<Rightarrow> (lg', h @ [t], E') | _ \<Rightarrow> (lg, h, E))))"

definition token_at ::
  "('s, 'a::linordered_field) family \<Rightarrow> ('a, 'r) skernels \<Rightarrow> 'a gen_config \<Rightarrow> 'a list \<times> nat list \<times> ('s, 'a, 'r) engine \<Rightarrow> nat \<Rightarrow> nat" where
  "token_at F K g S i = (case autoregress F K g S i of (lg, h, E) \<Rightarrow> fst (pick K g (i = 0) h lg (e_rng E)))"

definition step_total :: "('s \<Rightarrow> bool) \<Rightarrow> ('s, 'a) family \<Rightarrow> 'r itself \<Rightarrow> bool" where
  "step_total I F R \<longleftrightarrow> (\<forall>t (E :: ('s, 'a, 'r) engine). I (e_state E) \<longrightarrow>
     (\<exists>lg E'. step F t E = Some (Inr lg, E') \<and> I (e_state E')))"

lemma gen_loop_autoregress:
  fixes E :: "('s, 'a::linordered_field, 'r) engine"
  assumes tot: "step_total I F TYPE('r)" and "autoregress F K g S i = (lg, h, E)" and "I (e_state E)"
  shows "\<exists>E'. gen_loop F K g n (i = 0) (Some lg) h E =
      Some (Inr (takeWhile (\<lambda>t. \<not> is_eos g t) (map (token_at F K g S) [i..<i + n])), E') \<and>
    e_pos E' = e_pos E + length (takeWhile (\<lambda>t. \<not> is_eos g t) (map (token_at F K g S) [i..<i + n])) \<and> I (e_state E')"
  using assms(2,3)
proof (induction n arbitrary: i lg h E)
  case (Suc n)
  obtain t r where t: "pick K g (i = 0) h lg (e_rng E) = (t, r)" by fastforce
  have tok: "token_at F K g S i = t" using Suc.prems(1) t by (simp add: token_at_def)
  have upt: "[i..<i + Suc n] = i # [Suc i..<Suc i + n]" by (simp add: upt_conv_Cons)
  show ?case
  proof (cases "is_eos g t")
    case True
    then show ?thesis using t tok Suc.prems(2) unfolding upt by simp
  next
    case False
    obtain lg' E1 where s: "step F t (E\<lparr>e_rng := r\<rparr>) = Some (Inr lg', E1)" "I (e_state E1)"
      using tot Suc.prems(2) unfolding step_total_def by (metis engine.select_convs(1) engine.surjective engine.update_convs(5))
    have "autoregress F K g S (Suc i) = (lg', h @ [t], E1)" using Suc.prems(1) t s(1) by simp
    then obtain E' where E': "gen_loop F K g n (Suc i = 0) (Some lg') (h @ [t]) E1 =
        Some (Inr (takeWhile (\<lambda>t. \<not> is_eos g t) (map (token_at F K g S) [Suc i..<Suc i + n])), E')"
      "e_pos E' = e_pos E1 + length (takeWhile (\<lambda>t. \<not> is_eos g t) (map (token_at F K g S) [Suc i..<Suc i + n]))" "I (e_state E')"
      using Suc.IH s(2) by blast
    then show ?thesis using t tok False s(1) step_fields [OF s(1)] unfolding upt by simp
  qed
qed simp

text \<open>
  C5: \<open>generate\<close> is greedy or sampled autoregression cut at the first end-of-sequence token. When the
  prompt gave logits and no step raises or blocks from the states reached, the call returns, for every
  token budget, the longest prefix without an end token of the first \<open>max_new_tokens\<close> tokens of the
  sequence in which every token picked (the first by argmax, when so configured) is fed back; and the
  position has advanced by one for each token returned.
\<close>

theorem generate_is_autoregression:
  fixes E0 :: "('s, 'a::linordered_field, 'r) engine"
  assumes "run_prompt F ids E = Some (Inr (), E0)" and "e_last E0 = Some lg"
    and "I (e_state E0)" and "step_total I F TYPE('r)"
    and "out = takeWhile (\<lambda>t. \<not> is_eos g t) (map (token_at F K g (lg, ids, E0))
      [0..<nat (case max_new of None \<Rightarrow> g_max_new g | Some m \<Rightarrow> m)])"
  shows "\<exists>E'. generate F K g max_new ids E = Some (Inr out, E') \<and> e_pos E' = e_pos E0 + length out"
proof -
  let ?n = "nat (case max_new of None \<Rightarrow> g_max_new g | Some m \<Rightarrow> m)"
  have "autoregress F K g (lg, ids, E0) 0 = (lg, ids, E0)" by simp
  from gen_loop_autoregress [OF assms(4) this assms(3), of ?n] obtain E' where
    "gen_loop F K g ?n True (Some lg) ids E0 = Some (Inr out, E')" "e_pos E' = e_pos E0 + length out"
    using assms(5) by auto
  then show ?thesis using assms(1,2) by (simp add: generate_def)
qed

section \<open>An instance\<close>

text \<open>A family that counts the tokens it was fed and prefers the id that follows the last one.\<close>

definition demo_family :: "(nat, rat) family" where
  "demo_family = \<lparr>fa_forward = (\<lambda>active ids s. Some (Inr (map (\<lambda>i. if i = (s + length ids) mod 4 then 1 else 0) [0..<4]), s + length ids)),
     fa_step_pre = (\<lambda>t s. Some (Inr (), s)), fa_step_post = (\<lambda>t s. Some (Inr (), s)), fa_prefill_end = (\<lambda>s. Some (Inr (), s)),
     fa_reset = (\<lambda>s. 0), fa_close = id, fa_chunk = 2\<rparr>"

definition greedy_gen :: "rat gen_config" where
  "greedy_gen = demo_gen\<lparr>g_temperature := 0, g_top_k := None, g_top_p := None, g_penalty := 1, g_eos := [2]\<rparr>"

definition demo_engine :: "(nat, rat, nat) engine" where
  "demo_engine = engine_new 0 0"

lemma demo_family_total: "step_total (\<lambda>s. True) demo_family TYPE('r)"
  by (simp add: step_total_def step_def run_hook_def run_forward_def demo_family_def)

lemma demo_chunks: "chunks 2 [7, 8, 9 :: nat] = [[7, 8], [9]]"
  by (simp add: chunks.simps)

lemma demo_prefill: "prefill demo_family [7, 8, 9] demo_engine =
    Some (Inr 3, demo_engine\<lparr>e_state := 3, e_pos := 3, e_last := Some [0, 0, 0, 1]\<rparr>)"
  by (simp add: prefill_def demo_family_def run_forward_def run_hook_def demo_chunks demo_engine_def engine_new_def upt_rec)

theorem prefill_reads_prompt_once_witness:
  "\<exists>E'. prefill demo_family [7, 8, 9] demo_engine = Some (Inr 3, E') \<and> \<not> e_active E' \<and> e_pos E' = 3"
proof -
  have "0 < fa_chunk demo_family" by (simp add: demo_family_def)
  then show ?thesis using prefill_reads_prompt_once [OF demo_prefill] demo_prefill
    by (simp add: demo_engine_def engine_new_def)
qed

theorem generate_is_autoregression_witness:
  "\<exists>E'. generate demo_family demo_sk greedy_gen (Some 5) [7, 8, 9] demo_engine = Some (Inr [3, 0, 1], E') \<and> e_pos E' = 6"
proof -
  let ?E0 = "demo_engine\<lparr>e_state := 3, e_pos := 3, e_last := Some [0, 0, 0, 1]\<rparr>"
  have prompt: "run_prompt demo_family [7, 8, 9] demo_engine = Some (Inr (), ?E0)"
    by (simp add: run_prompt_def demo_prefill)
  have out: "[3, 0, 1] = takeWhile (\<lambda>t. \<not> is_eos greedy_gen t)
      (map (token_at demo_family demo_sk greedy_gen ([0, 0, 0, 1], [7, 8, 9], ?E0))
        [0..<nat (case Some 5 of None \<Rightarrow> g_max_new greedy_gen | Some m \<Rightarrow> m)])"
    by code_simp
  show ?thesis
    using generate_is_autoregression [OF prompt _ _ demo_family_total out] by (simp add: demo_engine_def engine_new_def)
qed

end
