(* ===== verification/Safetensors.thy ===== *)
theory Safetensors
  imports Prelude "HOL-Library.Word"
begin

text \<open>
  \<open>edge0/streaming/mmap.py\<close> (\<open>SafetensorsMmap\<close>, the byte-range reader of the checkpoint shards) and
  the safetensors store of \<open>edge0/backends/mlx/io.py\<close> (\<open>SafeTensorsStore\<close>, \<open>load_safetensors\<close>,
  \<open>open_shards\<close>), which both parse the same header. A file is its list of bytes. The JSON decoder is
  an argument (\<open>loads\<close>): it maps the header bytes to the decoded object, an ordered dictionary.
\<close>

type_synonym u8 = "8 word"

record tmeta =
  mdtype :: string
  mshape :: "nat list"
  mbegin :: int
  mend :: int

record tentry =
  eoffset :: int
  esize :: int
  edtype :: string
  eshape :: "nat list"

text \<open>A header value is a tensor's description or the free-form \<open>__metadata__\<close> object.\<close>

datatype hvalue = HTensor tmeta | HMeta "(string \<times> string) list"

type_synonym header = "(string \<times> hvalue) list"

record shard =
  smm :: "u8 list"
  payload_base :: int
  sentries :: "(string \<times> tentry) list"

text \<open>\<open>struct.unpack("<Q", b)\<close>: eight bytes, little endian.\<close>

fun le_nat :: "u8 list \<Rightarrow> nat" where
  "le_nat [] = 0"
| "le_nat (b # bs) = unat b + 256 * le_nat bs"

definition unpack_Q :: "u8 list \<Rightarrow> nat res" where
  "unpack_Q bs = (if length bs = 8 then Inr (le_nat bs) else Inl StructError)"

section \<open>SafetensorsMmap\<close>

text \<open>
  The constructor's loop over the header: the metadata entry is skipped; a tensor description
  without \<open>data_offsets\<close> (here: any other metadata object) is a \<open>KeyError\<close>.
\<close>

fun mmap_entries :: "int \<Rightarrow> header \<Rightarrow> (string \<times> tentry) list \<Rightarrow> (string \<times> tentry) list res" where
  "mmap_entries base [] acc = Inr acc"
| "mmap_entries base ((name, v) # h) acc =
     (if name = ''__metadata__'' then mmap_entries base h acc
      else (case v of
              HMeta m \<Rightarrow> Inl KeyError
            | HTensor t \<Rightarrow>
                mmap_entries base h
                  (AList.update name
                     \<lparr>eoffset = base + mbegin t, esize = mend t - mbegin t,
                      edtype = mdtype t, eshape = mshape t\<rparr> acc)))"

definition mmap_open :: "(u8 list \<Rightarrow> header res) \<Rightarrow> u8 list \<Rightarrow> shard res" where
  "mmap_open loads file =
     (if file = [] then Inl ValueError
      else res_bind (unpack_Q (take 8 file)) (\<lambda>header_len.
           res_bind (loads (py_slice 8 (8 + header_len) file)) (\<lambda>header.
             let base = 8 + int header_len
             in res_bind (mmap_entries base header [])
                  (\<lambda>es. Inr \<lparr>smm = file, payload_base = base, sentries = es\<rparr>))))"

text \<open>
  \<open>np.frombuffer(mm, uint8, count, offset)\<close>: the offset must lie in the buffer, a negative count
  means "to the end", and a count past the end is a \<open>ValueError\<close>.
\<close>

definition frombuffer :: "u8 list \<Rightarrow> int \<Rightarrow> int \<Rightarrow> u8 list res" where
  "frombuffer buf count offset =
     (if offset < 0 \<or> int (length buf) < offset then Inl ValueError
      else if count < 0 then Inr (drop (nat offset) buf)
      else if int (length buf) < offset + count then Inl ValueError
      else Inr (take (nat count) (drop (nat offset) buf)))"

definition mmap_raw :: "shard \<Rightarrow> string \<Rightarrow> u8 list res" where
  "mmap_raw s name =
     (case map_of (sentries s) name of
        None \<Rightarrow> Inl KeyError
      | Some e \<Rightarrow> frombuffer (smm s) (esize e) (eoffset e))"

text \<open>
  \<open>advise_willneed_range\<close>: the byte range handed to \<open>madvise\<close>, page aligned outward and clipped to the
  file; \<open>None\<close> when no call is made. \<open>has_madv\<close> is whether the platform defines the constant.
\<close>

definition willneed_range :: "bool \<Rightarrow> int \<Rightarrow> int \<Rightarrow> int \<Rightarrow> int \<Rightarrow> (int \<times> int) option" where
  "willneed_range has_madv page flen offset len =
     (if len \<le> 0 then None
      else if \<not> has_madv then None
      else let start = (offset div page) * page;
               e = (offset + len + page - 1) div page * page;
               e' = min e flen
           in if e' > start then Some (start, e' - start) else None)"

text \<open>\<open>seq_read\<close>: the chunks read by the sequential warm-up pass.\<close>

fun seq_chunks :: "nat \<Rightarrow> nat \<Rightarrow> nat \<Rightarrow> u8 list \<Rightarrow> u8 list list" where
  "seq_chunks 0 off chunk mm = []"
| "seq_chunks (Suc k) off chunk mm =
     py_slice off (off + chunk) mm # seq_chunks k (off + chunk) chunk mm"

definition seq_read :: "shard \<Rightarrow> int \<Rightarrow> u8 list list res" where
  "seq_read s chunk =
     (if chunk = 0 then Inl ValueError
      else if chunk < 0 then Inr []
      else let c = nat chunk; flen = length (smm s)
           in Inr (seq_chunks ((flen + c - 1) div c) 0 c (smm s)))"

section \<open>Reinterpreting bytes\<close>

text \<open>\<open>data.view("<u2")\<close> and \<open>data.view("<u4")\<close>: the byte count must be a multiple of the item size.\<close>

fun u16_items :: "u8 list \<Rightarrow> 16 word list" where
  "u16_items (a # b # bs) = (ucast a + push_bit 8 (ucast b)) # u16_items bs"
| "u16_items _ = []"

fun u32_items :: "u8 list \<Rightarrow> 32 word list" where
  "u32_items (a # b # c # d # bs) =
     (ucast a + push_bit 8 (ucast b) + push_bit 16 (ucast c) + push_bit 24 (ucast d)) # u32_items bs"
| "u32_items _ = []"

definition view_u2 :: "u8 list \<Rightarrow> 16 word list res" where
  "view_u2 bs = (if length bs mod 2 = 0 then Inr (u16_items bs) else Inl ValueError)"

definition view_u4 :: "u8 list \<Rightarrow> 32 word list res" where
  "view_u4 bs = (if length bs mod 4 = 0 then Inr (u32_items bs) else Inl ValueError)"

text \<open>\<open>bf16_bits_to_f32\<close>: the 16-bit pattern becomes the top half of a 32-bit float's pattern.\<close>

definition bf16_bits_to_f32 :: "u8 list \<Rightarrow> 32 word list res" where
  "bf16_bits_to_f32 data = res_bind (view_u2 data) (\<lambda>ws. Inr (map (\<lambda>w. push_bit 16 (ucast w)) ws))"

text \<open>\<open>u32_view(data, shape)\<close>: the flat items with the shape they are reshaped to.\<close>

definition u32_view :: "u8 list \<Rightarrow> nat list \<Rightarrow> (nat list \<times> 32 word list) res" where
  "u32_view data shape =
     res_bind (view_u4 data) (\<lambda>ws. if length ws = prod_list shape then Inr (shape, ws) else Inl ValueError)"

section \<open>SafeTensorsStore\<close>

record tstore =
  tpath :: string
  tbytes :: "u8 list"
  tmetadata :: "(string \<times> string) list"
  tentries :: "(string \<times> tentry) list"

definition header_meta :: "header \<Rightarrow> (string \<times> string) list res" where
  "header_meta h =
     (case map_of h ''__metadata__'' of
        None \<Rightarrow> Inr []
      | Some (HMeta m) \<Rightarrow> Inr m
      | Some (HTensor t) \<Rightarrow> Inr [])"

fun store_entries :: "nat \<Rightarrow> header \<Rightarrow> (string \<times> tentry) list \<Rightarrow> (string \<times> tentry) list res" where
  "store_entries header_len [] acc = Inr acc"
| "store_entries header_len ((name, v) # h) acc =
     (case v of
        HMeta m \<Rightarrow> Inl KeyError
      | HTensor t \<Rightarrow>
          store_entries header_len h
            (AList.update name
               \<lparr>eoffset = mbegin t + 8 + int header_len, esize = mend t - mbegin t,
                edtype = mdtype t, eshape = mshape t\<rparr> acc))"

definition store_open :: "(u8 list \<Rightarrow> header res) \<Rightarrow> string \<Rightarrow> u8 list \<Rightarrow> tstore res" where
  "store_open loads path file =
     res_bind (unpack_Q (take 8 file)) (\<lambda>header_len.
     res_bind (loads (py_slice 8 (8 + header_len) file)) (\<lambda>header.
     res_bind (header_meta header) (\<lambda>m.
     res_bind (store_entries header_len (AList.delete ''__metadata__'' header) []) (\<lambda>es.
       if file = [] then Inl ValueError
       else Inr \<lparr>tpath = path, tbytes = file, tmetadata = m, tentries = es\<rparr>))))"

definition store_keys :: "tstore \<Rightarrow> string list" where
  "store_keys st = sort (keys_of (tentries st))"

text \<open>The item sizes of the dtypes the store's table \<open>_DTYPES\<close> knows.\<close>

definition dtype_size :: "string \<Rightarrow> nat option" where
  "dtype_size d = map_of
     [(''F64'', 8), (''F32'', 4), (''F16'', 2), (''BF16'', 2), (''I64'', 8), (''I32'', 4),
      (''I16'', 2), (''I8'', 1), (''U8'', 1), (''BOOL'', 1)] d"

text \<open>\<open>get\<close>: the tensor's dtype, shape and the bytes of its \<open>prod(shape)\<close> items.\<close>

definition store_get :: "tstore \<Rightarrow> string \<Rightarrow> (string \<times> nat list \<times> u8 list) res" where
  "store_get st name =
     (case map_of (tentries st) name of
        None \<Rightarrow> Inl KeyError
      | Some e \<Rightarrow>
          res_bind (frombuffer (tbytes st) (esize e) (eoffset e)) (\<lambda>buf.
            case dtype_size (edtype e) of
              None \<Rightarrow> Inl KeyError
            | Some n \<Rightarrow>
                if length buf < prod_list (eshape e) * n then Inl ValueError
                else Inr (edtype e, eshape e, take (prod_list (eshape e) * n) buf)))"

definition load_safetensors ::
  "(u8 list \<Rightarrow> header res) \<Rightarrow> string \<Rightarrow> u8 list \<Rightarrow>
   (string \<times> string \<times> nat list \<times> u8 list) list res" where
  "load_safetensors loads path file =
     res_bind (store_open loads path file)
       (\<lambda>st. res_map (\<lambda>name. res_bind (store_get st name) (\<lambda>a. Inr (name, a))) (store_keys st))"

text \<open>\<open>open_shards\<close>: the files are those the glob matched, opened in sorted path order.\<close>

definition open_shards :: "(u8 list \<Rightarrow> header res) \<Rightarrow> (string \<times> u8 list) list \<Rightarrow> shard list res" where
  "open_shards loads matched =
     res_bind (res_map (\<lambda>(path, bytes). mmap_open loads bytes) (sort_key fst matched))
       (\<lambda>shards. if shards = [] then Inl FileNotFoundError else Inr shards)"

section \<open>Properties\<close>

text \<open>Both readers build the same entry table.\<close>

lemma store_entries_eq:
  "store_entries n (AList.delete ''__metadata__'' h) acc = mmap_entries (8 + int n) h acc"
proof (induction h arbitrary: acc)
  case Nil
  then show ?case by simp
next
  case (Cons x h)
  obtain name v where x: "x = (name, v)" by (cases x)
  show ?case using Cons.IH
    by (cases v) (auto simp: x delete_simps algebra_simps)
qed

lemma header_meta_ok: "\<exists>m. header_meta h = Inr m"
  by (auto simp: header_meta_def split: option.splits hvalue.splits)

text \<open>
  The two safetensors readers agree. On every file, the adapter store opens exactly when the
  shard mmap opens, with the same error otherwise, and then both hold the same entry table, so a
  tensor's bytes are the same through either.
\<close>

theorem readers_agree:
  assumes "file \<noteq> []"
  shows "case mmap_open loads file of
      Inl e \<Rightarrow> store_open loads path file = Inl e
    | Inr s \<Rightarrow> (\<exists>m. store_open loads path file =
        Inr \<lparr>tpath = path, tbytes = smm s, tmetadata = m, tentries = sentries s\<rparr>)"
proof (cases "unpack_Q (take 8 file)")
  case (Inl e)
  then show ?thesis using assms by (simp add: mmap_open_def store_open_def)
next
  case (Inr n)
  show ?thesis
  proof (cases "loads (py_slice 8 (8 + n) file)")
    case (Inl e)
    then show ?thesis using assms Inr by (simp add: mmap_open_def store_open_def)
  next
    case header: (Inr h)
    obtain m where m: "header_meta h = Inr m" using header_meta_ok by blast
    show ?thesis
      using assms Inr header m
      by (cases "mmap_entries (8 + int n) h []") (simp_all add: mmap_open_def store_open_def store_entries_eq)
  qed
qed

definition demo_header :: header where
  "demo_header = [(''__metadata__'', HMeta [(''v'', ''1'')]),
     (''w'', HTensor \<lparr>mdtype = ''U8'', mshape = [2], mbegin = 0, mend = 2\<rparr>)]"

definition demo_file :: "u8 list" where
  "demo_file = [1, 0, 0, 0, 0, 0, 0, 0, 123, 7, 9]"

theorem readers_agree_witness:
  "\<exists>m. store_open (\<lambda>_. Inr demo_header) ''f'' demo_file =
     Inr \<lparr>tpath = ''f'', tbytes = demo_file, tmetadata = m,
       tentries = [(''w'', \<lparr>eoffset = 9, esize = 2, edtype = ''U8'', eshape = [2]\<rparr>)]\<rparr>"
  using readers_agree [of demo_file "\<lambda>_. Inr demo_header" "''f''"]
  by (simp add: demo_file_def demo_header_def mmap_open_def unpack_Q_def)

lemma seq_chunks_concat:
  "0 < c \<Longrightarrow> concat (seq_chunks k off c mm) = take (k * c) (drop off mm)"
proof (induction k arbitrary: off)
  case 0
  then show ?case by simp
next
  case (Suc k)
  have "take c (drop off mm) @ take (k * c) (drop (off + c) mm) = take (c + k * c) (drop off mm)"
    by (simp add: take_add add.commute)
  then show ?case using Suc by (simp add: py_slice_def)
qed

text \<open>
  The warm-up pass touches every page. For every positive chunk size, the slices read by
  \<open>seq_read\<close> concatenate to the whole shard, the last partial chunk included.
\<close>

theorem seq_read_covers:
  assumes "0 < chunk"
  shows "\<exists>cs. seq_read s chunk = Inr cs \<and> concat cs = smm s"
proof -
  define c where "c = nat chunk"
  define n where "n = length (smm s)"
  have c: "0 < c" using assms by (simp add: c_def)
  have "n + c - 1 = (n + c - 1) div c * c + (n + c - 1) mod c" by simp
  moreover have "(n + c - 1) mod c < c" using c by simp
  ultimately have "n \<le> (n + c - 1) div c * c" using c by linarith
  then have "concat (seq_chunks ((n + c - 1) div c) 0 c (smm s)) = smm s"
    using c by (simp add: seq_chunks_concat n_def)
  then show ?thesis using assms by (simp add: seq_read_def c_def n_def Let_def)
qed

theorem seq_read_covers_witness:
  "\<exists>cs. seq_read \<lparr>smm = [1, 2, 3], payload_base = 8, sentries = []\<rparr> 2 = Inr cs \<and> concat cs = [1, 2, 3]"
  using seq_read_covers [of 2 "\<lparr>smm = [1, 2, 3], payload_base = 8, sentries = []\<rparr>"] by simp

lemma div_mult_le_int: "0 < p \<Longrightarrow> (x :: int) div p * p \<le> x"
  by (simp add: minus_mod_eq_div_mult [symmetric])

lemma round_up_ge_int:
  assumes "0 < p"
  shows "(x :: int) \<le> (x + p - 1) div p * p"
proof -
  have "(x + p - 1) mod p < p" using assms by simp
  then show ?thesis by (simp add: minus_mod_eq_div_mult [symmetric])
qed

text \<open>
  The readahead hint is legal and sufficient. For a byte range that starts inside the file, the
  range given to \<open>madvise\<close> starts on a page boundary, stays inside the file, and covers every
  requested byte that the file has.
\<close>

theorem willneed_range_covers:
  assumes "0 < page" and "0 \<le> offset" and "offset < flen" and "0 < len"
  shows "\<exists>start n. willneed_range True page flen offset len = Some (start, n) \<and>
    start mod page = 0 \<and> 0 \<le> start \<and> 0 < n \<and> start + n \<le> flen \<and>
    start \<le> offset \<and> min (offset + len) flen \<le> start + n"
proof -
  have a: "offset div page * page \<le> offset" by (rule div_mult_le_int [OF assms(1)])
  have b: "offset + len \<le> (offset + len + page - 1) div page * page"
    by (rule round_up_ge_int [OF assms(1)])
  have c: "0 \<le> offset div page * page" using assms by (simp add: pos_imp_zdiv_nonneg_iff)
  define st where "st = offset div page * page"
  define en where "en = (offset + len + page - 1) div page * page"
  have "willneed_range True page flen offset len =
      (if st < min en flen then Some (st, min en flen - st) else None)"
    using assms by (simp add: willneed_range_def Let_def st_def en_def)
  moreover have "st mod page = 0" by (simp add: st_def)
  ultimately show ?thesis using assms a b c by (auto simp flip: st_def en_def)
qed

theorem willneed_range_covers_witness:
  "\<exists>start n. willneed_range True 4096 10000 5000 3000 = Some (start, n) \<and> start \<le> 5000 \<and> 8000 \<le> start + n"
  using willneed_range_covers [of 4096 5000 10000 3000] by auto

lemma length_u16_items: "length (u16_items bs) = length bs div 2"
  by (induction bs rule: u16_items.induct) auto

lemma length_u32_items: "length (u32_items bs) = length bs div 4"
  by (induction bs rule: u32_items.induct) auto

text \<open>
  The BF16 widening is exact. Shifting the pattern into the top half loses nothing: dropping the
  low sixteen bits of the result gives back every stored BF16 word, and those low bits are zero.
\<close>

theorem bf16_bits_roundtrip:
  assumes "bf16_bits_to_f32 data = Inr fs"
  shows "map (\<lambda>f. ucast (drop_bit 16 f) :: 16 word) fs = u16_items data \<and>
    (\<forall>f \<in> set fs. take_bit 16 f = 0) \<and> 2 * length fs = length data"
proof -
  have fs: "fs = map (\<lambda>w. push_bit 16 (ucast w)) (u16_items data)" and even: "length data mod 2 = 0"
    using assms by (auto simp: bf16_bits_to_f32_def view_u2_def res_bind_Inr_iff split: if_splits)
  have up: "ucast (drop_bit 16 (push_bit 16 (ucast w :: 32 word))) = w" for w :: "16 word"
    by (rule bit_word_eqI) (simp add: bit_simps)
  have low: "take_bit 16 (push_bit 16 (ucast w :: 32 word)) = 0" for w :: "16 word"
    by (rule bit_word_eqI) (simp add: bit_simps)
  have "2 * (length data div 2) = length data" using even by presburger
  then show ?thesis by (simp add: fs up low length_u16_items comp_def)
qed

theorem bf16_bits_roundtrip_witness:
  "\<exists>fs. bf16_bits_to_f32 [128, 63] = Inr fs \<and> map (\<lambda>f. ucast (drop_bit 16 f) :: 16 word) fs = [16256]"
proof -
  have h: "bf16_bits_to_f32 [128, 63] = Inr [1065353216]"
    by (simp add: bf16_bits_to_f32_def view_u2_def push_bit_eq_mult unsigned_of_nat)
  show ?thesis using h bf16_bits_roundtrip [OF h] by (simp add: push_bit_eq_mult)
qed

end
