(* ===== verification/Moe_Spec.thy ===== *)
theory Moe_Spec
  imports Prelude
begin

text \<open>
  \<open>edge0/moe/spec.py\<close>: router kinds, weight layouts, the quantisation record and \<open>MoESpec\<close> with its
  path templates. A loaded model is a tree of attribute objects and lists over opaque leaves; \<open>block_of\<close>, \<open>layer_of\<close>
  and \<open>layer_exists\<close> walk dotted paths through it. The layer-count discovery loop of
  \<open>install_streaming_experts\<close> is here too, because it only uses \<open>layer_exists\<close>.
\<close>

section \<open>Text helpers: decimal numbers, splitting, templates\<close>

definition digit_char :: "nat \<Rightarrow> char" where
  "digit_char d = char_of (48 + d)"

definition is_digit :: "char \<Rightarrow> bool" where
  "is_digit c \<longleftrightarrow> 48 \<le> (of_char c :: nat) \<and> (of_char c :: nat) \<le> 57"

fun show_nat :: "nat \<Rightarrow> string" where
  "show_nat n = (if n < 10 then [digit_char n] else show_nat (n div 10) @ [digit_char (n mod 10)])"

declare show_nat.simps [simp del]

definition parse_nat :: "string \<Rightarrow> nat" where
  "parse_nat s = foldl (\<lambda>a c. 10 * a + (of_char c - 48)) 0 s"

definition isdigit :: "string \<Rightarrow> bool" where
  "isdigit s \<longleftrightarrow> s \<noteq> [] \<and> list_all is_digit s"

fun split_on :: "'a \<Rightarrow> 'a list \<Rightarrow> 'a list list" where
  "split_on c [] = [[]]"
| "split_on c (x # xs) =
     (if x = c then [] # split_on c xs
      else (case split_on c xs of [] \<Rightarrow> [[x]] | y # ys \<Rightarrow> (x # y) # ys))"

fun join_with :: "'a \<Rightarrow> 'a list list \<Rightarrow> 'a list" where
  "join_with c [] = []"
| "join_with c [x] = x"
| "join_with c (x # y # xs) = x @ c # join_with c (y # xs)"

text \<open>
  \<open>template.format(layer=n)\<close>: the field \<open>{layer}\<close> is replaced, doubled braces are literal braces,
  any other field name is a \<open>KeyError\<close> and a lone closing brace a \<open>ValueError\<close>.
\<close>

fun fmt_layer :: "string \<Rightarrow> string \<Rightarrow> string res" where
  "fmt_layer r [] = Inr []"
| "fmt_layer r (c # s) =
     (if c = CHR ''{'' then
        (if take 1 s = ''{'' then res_bind (fmt_layer r (drop 1 s)) (\<lambda>t. Inr (c # t))
         else if take 6 s = ''layer}'' then res_bind (fmt_layer r (drop 6 s)) (\<lambda>t. Inr (r @ t))
         else Inl KeyError)
      else if c = CHR ''}'' then
        (if take 1 s = ''}'' then res_bind (fmt_layer r (drop 1 s)) (\<lambda>t. Inr (c # t))
         else Inl ValueError)
      else res_bind (fmt_layer r s) (\<lambda>t. Inr (c # t)))"

fun has_layer_field :: "string \<Rightarrow> bool" where
  "has_layer_field [] = False"
| "has_layer_field (c # s) = (take 7 (c # s) = ''{layer}'' \<or> has_layer_field s)"

lemma of_digit_char [simp]: "d < 10 \<Longrightarrow> (of_char (digit_char d) :: nat) = 48 + d"
  by (simp add: digit_char_def)

lemma isdigit_show_nat: "isdigit (show_nat n)"
proof (induction n rule: show_nat.induct)
  case (1 n)
  then show ?case
    by (subst show_nat.simps) (auto simp: isdigit_def is_digit_def)
qed

lemma parse_show_nat [simp]: "parse_nat (show_nat n) = n"
proof (induction n rule: show_nat.induct)
  case (1 n)
  show ?case
  proof (cases "n < 10")
    case True
    then show ?thesis by (subst show_nat.simps) (simp add: parse_nat_def)
  next
    case False
    with "1.IH" have "parse_nat (show_nat (n div 10)) = n div 10" by simp
    with False show ?thesis by (subst show_nat.simps) (simp add: parse_nat_def)
  qed
qed

section \<open>Model description\<close>

datatype router_kind = SOFTMAX_TOPK | SIGMOID_GROUP

datatype weight_layout = SEPARATE | FUSED_GATE_UP

record quant_spec =
  qbits :: nat
  group_size :: nat
  qmode :: string

definition default_quant :: quant_spec where
  "default_quant = \<lparr>qbits = 4, group_size = 64, qmode = ''affine''\<rparr>"

record moe_spec =
  num_experts :: nat
  top_k :: nat
  intermediate_size :: nat
  router :: router_kind
  norm_topk_prob :: bool
  routed_scaling :: "real option"
  n_group :: "nat option"
  topk_group :: "nat option"
  shared_experts :: nat
  quant :: quant_spec
  layout :: weight_layout
  key_template :: string
  block_path :: string
  layer_path :: string
  expert_row_axis :: nat

datatype proj = GateProj | UpProj | DownProj | GateUpProj

datatype part = Weight | Scales | Biases

fun proj_name :: "proj \<Rightarrow> string" where
  "proj_name GateProj = ''gate_proj''"
| "proj_name UpProj = ''up_proj''"
| "proj_name DownProj = ''down_proj''"
| "proj_name GateUpProj = ''gate_up_proj''"

fun part_name :: "part \<Rightarrow> string" where
  "part_name Weight = ''weight''"
| "part_name Scales = ''scales''"
| "part_name Biases = ''biases''"

definition spec_keys :: "moe_spec \<Rightarrow> nat \<Rightarrow> proj \<Rightarrow> part \<Rightarrow> string res" where
  "spec_keys sp layer pj pt =
     res_bind (fmt_layer (show_nat layer) (key_template sp))
       (\<lambda>prefix. Inr (prefix @ ''.'' @ proj_name pj @ ''.'' @ part_name pt))"

definition fuse_gu :: "moe_spec \<Rightarrow> bool" where
  "fuse_gu sp \<longleftrightarrow> layout sp = FUSED_GATE_UP"

definition bundle_projs :: "moe_spec \<Rightarrow> proj list" where
  "bundle_projs sp =
     (if layout sp = FUSED_GATE_UP then [GateUpProj, DownProj] else [UpProj, GateProj, DownProj])"

section \<open>Walking a loaded model\<close>

datatype 'x pyobj = PyObj "(string \<times> 'x pyobj) list" | PyList "'x pyobj list" | PyLeaf 'x

fun py_getattr :: "'x pyobj \<Rightarrow> string \<Rightarrow> 'x pyobj res" where
  "py_getattr (PyObj fs) a = (case map_of fs a of None \<Rightarrow> Inl AttributeError | Some x \<Rightarrow> Inr x)"
| "py_getattr (PyList xs) a = Inl AttributeError"
| "py_getattr (PyLeaf x) a = Inl AttributeError"

fun py_getitem :: "'x pyobj \<Rightarrow> nat \<Rightarrow> 'x pyobj res" where
  "py_getitem (PyList xs) i = (if i < length xs then Inr (xs ! i) else Inl IndexError)"
| "py_getitem (PyObj fs) i = Inl TypeError"
| "py_getitem (PyLeaf x) i = Inl TypeError"

definition path_step :: "'x pyobj \<Rightarrow> string \<Rightarrow> 'x pyobj res" where
  "path_step obj p = (if isdigit p then py_getitem obj (parse_nat p) else py_getattr obj p)"

fun walk_path :: "'x pyobj \<Rightarrow> string list \<Rightarrow> 'x pyobj res" where
  "walk_path obj [] = Inr obj"
| "walk_path obj (p # ps) = res_bind (path_step obj p) (\<lambda>x. walk_path x ps)"

definition block_of :: "moe_spec \<Rightarrow> 'x pyobj \<Rightarrow> nat \<Rightarrow> 'x pyobj res" where
  "block_of sp model layer =
     res_bind (fmt_layer (show_nat layer) (block_path sp))
       (\<lambda>path. walk_path model (split_on CHR ''.'' path))"

definition layer_of :: "moe_spec \<Rightarrow> 'x pyobj \<Rightarrow> nat \<Rightarrow> 'x pyobj res" where
  "layer_of sp model layer =
     (if layer_path sp \<noteq> [] then
        res_bind (fmt_layer (show_nat layer) (layer_path sp))
          (\<lambda>path. walk_path model (split_on CHR ''.'' path))
      else
        res_bind (fmt_layer (show_nat layer) (block_path sp))
          (\<lambda>path. let ps = split_on CHR ''.'' path
                  in walk_path model (split_on CHR ''.'' (join_with CHR ''.'' (take (length ps - 2) ps)))))"

text \<open>
  \<open>layer_exists\<close>: the walk is over the template's segments, each formatted on its own; only a
  missing attribute or index at the templated segment means "past the end".
\<close>

fun find_layer_pos :: "string list \<Rightarrow> nat res" where
  "find_layer_pos [] = Inl StopIteration"
| "find_layer_pos (p # ps) =
     (if has_layer_field p then Inr 0 else res_bind (find_layer_pos ps) (\<lambda>i. Inr (Suc i)))"

fun exists_walk :: "nat \<Rightarrow> nat \<Rightarrow> nat \<Rightarrow> 'x pyobj \<Rightarrow> string list \<Rightarrow> bool res" where
  "exists_walk layer pos i obj [] = Inr True"
| "exists_walk layer pos i obj (raw # raws) =
     (case fmt_layer (show_nat layer) raw of
        Inl e \<Rightarrow> Inl e
      | Inr p \<Rightarrow>
          (case path_step obj p of
             Inr x \<Rightarrow> exists_walk layer pos (Suc i) x raws
           | Inl e \<Rightarrow> (if e \<in> {AttributeError, IndexError} \<and> i = pos then Inr False else Inl e)))"

definition layer_exists :: "moe_spec \<Rightarrow> 'x pyobj \<Rightarrow> nat \<Rightarrow> bool res" where
  "layer_exists sp model layer =
     (let raws = split_on CHR ''.'' (block_path sp)
      in res_bind (find_layer_pos raws) (\<lambda>pos. exists_walk layer pos 0 model raws))"

text \<open>
  The discovery loop \<open>while spec.layer_exists(model, n): n += 1\<close> of \<open>install_streaming_experts\<close>;
  \<open>None\<close> is "does not return".
\<close>

partial_function (option) discover_from :: "moe_spec \<Rightarrow> 'x pyobj \<Rightarrow> nat \<Rightarrow> nat res option" where
  "discover_from sp model n =
     (case layer_exists sp model n of
        Inl e \<Rightarrow> Some (Inl e)
      | Inr b \<Rightarrow> (if b then discover_from sp model (Suc n) else Some (Inr n)))"

definition discover_layers :: "moe_spec \<Rightarrow> 'x pyobj \<Rightarrow> nat res option" where
  "discover_layers sp model =
     (case discover_from sp model 0 of
        Some (Inr 0) \<Rightarrow> Some (Inl ValueError)
      | r \<Rightarrow> r)"

section \<open>Properties\<close>

text \<open>A segment without template syntax is its own formatting.\<close>

definition plain :: "string \<Rightarrow> bool" where
  "plain s \<longleftrightarrow> CHR ''{'' \<notin> set s \<and> CHR ''}'' \<notin> set s"

lemma fmt_layer_plain: "plain s \<Longrightarrow> fmt_layer r s = Inr s"
  by (induction r s rule: fmt_layer.induct) (auto simp: plain_def)

lemma has_layer_field_plain: "plain s \<Longrightarrow> \<not> has_layer_field s"
  by (induction s) (auto simp: plain_def)

lemma fmt_layer_field: "fmt_layer r ''{layer}'' = Inr r"
  by simp

lemma find_layer_pos_at:
  "list_all plain pre \<Longrightarrow> find_layer_pos (pre @ ''{layer}'' # post) = Inr (length pre)"
  by (induction pre) (simp_all add: has_layer_field_plain)

lemma exists_walk_plain_before:
  "list_all plain pre \<Longrightarrow> walk_path obj pre = Inr x \<Longrightarrow>
     exists_walk layer pos i obj (pre @ rest) = exists_walk layer pos (i + length pre) x rest"
  by (induction pre arbitrary: obj i) (auto simp: fmt_layer_plain res_bind_Inr_iff)

lemma exists_walk_plain_after:
  "list_all plain post \<Longrightarrow> pos < i \<Longrightarrow>
     exists_walk layer pos i obj post = res_bind (walk_path obj post) (\<lambda>_. Inr True)"
  by (induction post arbitrary: obj i) (auto simp: fmt_layer_plain split: sum.splits)

lemma layer_exists_list:
  assumes path: "split_on CHR ''.'' (block_path sp) = pre @ ''{layer}'' # post"
    and "list_all plain pre" and "list_all plain post"
    and pre: "walk_path model pre = Inr (PyList ls)"
  shows "layer_exists sp model n =
    (if n < length ls then res_bind (walk_path (ls ! n) post) (\<lambda>_. Inr True) else Inr False)"
  using assms isdigit_show_nat [of n]
  by (simp add: layer_exists_def find_layer_pos_at exists_walk_plain_before [where rest = "''{layer}'' # post"]
      exists_walk_plain_after path_step_def)

lemma discover_from_list:
  assumes "\<And>n. layer_exists sp model n =
      (if n < length ls then res_bind (walk_path (ls ! n) post) (\<lambda>_. Inr True) else Inr False)"
    and "\<And>x. x \<in> set ls \<Longrightarrow> \<exists>b. walk_path x post = Inr b" and "n \<le> length ls"
  shows "discover_from sp model n = Some (Inr (length ls))"
  using assms(3)
proof (induction "length ls - n" arbitrary: n)
  case 0
  then show ?case using assms(1) [of n] by (simp add: discover_from.simps)
next
  case (Suc m)
  then have n: "n < length ls" by simp
  then obtain b where "walk_path (ls ! n) post = Inr b" using assms(2) nth_mem by blast
  then have "layer_exists sp model n = Inr True" using n by (subst assms(1)) simp
  moreover have "discover_from sp model (Suc n) = Some (Inr (length ls))"
    using Suc.hyps(2) n by (intro Suc.hyps(1)) auto
  ultimately show ?case by (subst discover_from.simps) simp
qed

text \<open>
  C39: layer discovery terminates and counts the layers. For a template that indexes a list of
  decoder layers (\<open>prefix.{layer}.suffix\<close>) in a model where the prefix reaches a non-empty list whose
  elements all carry the suffix, the probing loop returns exactly the number of layers.
\<close>

theorem discover_layers_counts:
  assumes "split_on CHR ''.'' (block_path sp) = pre @ ''{layer}'' # post"
    and "list_all plain pre" and "list_all plain post"
    and "walk_path model pre = Inr (PyList ls)" and "ls \<noteq> []"
    and "\<forall>x \<in> set ls. \<exists>b. walk_path x post = Inr b"
  shows "discover_layers sp model = Some (Inr (length ls))"
proof -
  have "discover_from sp model 0 = Some (Inr (length ls))"
    by (rule discover_from_list [OF layer_exists_list [OF assms(1-4)]]) (use assms(6) in auto)
  with assms(5) show ?thesis by (cases "length ls") (auto simp: discover_layers_def)
qed

definition demo_spec :: moe_spec where
  "demo_spec = \<lparr>num_experts = 4, top_k = 2, intermediate_size = 8, router = SOFTMAX_TOPK,
     norm_topk_prob = True, routed_scaling = None, n_group = None, topk_group = None,
     shared_experts = 0, quant = default_quant, layout = SEPARATE,
     key_template = ''m.{layer}.x'', block_path = ''m.{layer}.mlp'', layer_path = '''',
     expert_row_axis = 0\<rparr>"

definition demo_model :: "unit pyobj" where
  "demo_model = PyObj [(''m'', PyList [PyObj [(''mlp'', PyList [])], PyObj [(''mlp'', PyObj [])]])]"

theorem discover_layers_counts_witness: "discover_layers demo_spec demo_model = Some (Inr 2)"
proof -
  have "discover_layers demo_spec demo_model =
    Some (Inr (length [PyObj [(''mlp'', PyList [])], PyObj [(''mlp'', PyObj []) :: string \<times> unit pyobj]]))"
    by (rule discover_layers_counts [where pre = "[''m'']" and post = "[''mlp'']"])
      (simp_all add: demo_spec_def demo_model_def plain_def path_step_def isdigit_def is_digit_def)
  then show ?thesis by simp
qed

text \<open>
  A broken spec is not read as the end of the layer list. If the segment after the layer index
  fails on an existing layer, \<open>layer_exists\<close> re-raises that very error instead of answering False,
  so discovery does not silently stop early.
\<close>

theorem layer_exists_reraises:
  assumes "split_on CHR ''.'' (block_path sp) = pre @ ''{layer}'' # post"
    and "list_all plain pre" and "list_all plain post"
    and "walk_path model pre = Inr (PyList ls)" and "n < length ls"
    and "walk_path (ls ! n) post = Inl e"
  shows "layer_exists sp model n = Inl e"
  using layer_exists_list [OF assms(1-4)] assms(5,6) by simp

theorem layer_exists_reraises_witness:
  "layer_exists demo_spec (PyObj [(''m'', PyList [PyObj []])]) 0 = Inl AttributeError"
  by (rule layer_exists_reraises [where pre = "[''m'']" and post = "[''mlp'']" and ls = "[PyObj []]"])
    (simp_all add: demo_spec_def plain_def path_step_def isdigit_def is_digit_def)

end
