(* ===== verification/Expert_Bundles.thy ===== *)
theory Expert_Bundles
  imports Safetensors Moe_Spec
begin

text \<open>
  The byte-level part of \<open>edge0/streaming/layer.py\<close>: the static configuration a
  \<open>StreamingSwitchGLU\<close> computes in its constructor, the per-expert build \<open>_build\<close> with its hot-stack
  fast path, the whole-layer load, the hot-expert backing and its materialisation, and the byte
  ranges of the two warm-up helpers. A tensor is its dtype, its shape and its raw bytes: the
  \<open>view\<close> and \<open>core.array\<close> calls of the code reinterpret those bytes and never change them.
\<close>

datatype dtype = DT_U32 | DT_BF16

record tensor =
  tdtype :: dtype
  tshape :: "nat list"
  tdata :: "u8 list"

type_synonym ebundle = "((proj \<times> part) \<times> tensor) list"

fun part_dtype :: "part \<Rightarrow> dtype" where
  "part_dtype Weight = DT_U32"
| "part_dtype _ = DT_BF16"

fun item_size :: "dtype \<Rightarrow> nat" where
  "item_size DT_U32 = 4"
| "item_size DT_BF16 = 2"

definition all_parts :: "part list" where
  "all_parts = [Weight, Scales, Biases]"

section \<open>The layer's static configuration\<close>

record layer_cfg =
  lc_idx :: nat
  lc_experts :: nat
  lc_fused :: bool
  lc_projs :: "proj list"
  lc_prefix :: string
  lc_shards :: "shard list"
  lc_shape :: "((proj \<times> part) \<times> nat list) list"
  lc_bundle_shape :: "((proj \<times> part) \<times> nat list) list"

text \<open>\<open>{name: i for i, s in enumerate(shards) for name in s.entries}\<close>: a later shard wins.\<close>

definition shard_index :: "shard list \<Rightarrow> (string \<times> nat) list" where
  "shard_index shards =
     fold (\<lambda>(i, s) acc. fold (\<lambda>name. AList.update name i) (keys_of (sentries s)) acc)
       (enumerate_from0 shards) []"

definition shard_for :: "shard list \<Rightarrow> string \<Rightarrow> shard res" where
  "shard_for shards name =
     (case map_of (shard_index shards) name of None \<Rightarrow> Inl KeyError | Some i \<Rightarrow> Inr (shards ! i))"

definition tensor_key :: "string \<Rightarrow> proj \<Rightarrow> part \<Rightarrow> string" where
  "tensor_key prefix pj pt = prefix @ ''.'' @ proj_name pj @ ''.'' @ part_name pt"

definition raw_bytes :: "layer_cfg \<Rightarrow> proj \<Rightarrow> part \<Rightarrow> u8 list res" where
  "raw_bytes cfg pj pt =
     (let name = tensor_key (lc_prefix cfg) pj pt
      in res_bind (shard_for (lc_shards cfg) name) (\<lambda>s. mmap_raw s name))"

text \<open>The constructor's \<open>_shape\<close> loop: projections in source order, then parts.\<close>

definition source_keys :: "(proj \<times> part) list" where
  "source_keys = List.product [GateProj, UpProj, DownProj] all_parts"

definition layer_shapes :: "shard list \<Rightarrow> string \<Rightarrow> ((proj \<times> part) \<times> nat list) list res" where
  "layer_shapes shards prefix =
     res_map (\<lambda>(pj, pt). let name = tensor_key prefix pj pt
        in res_bind (shard_for shards name) (\<lambda>s.
             case map_of (sentries s) name of
               None \<Rightarrow> Inl KeyError
             | Some e \<Rightarrow> Inr ((pj, pt), eshape e)))
       source_keys"

definition fused_shapes :: "((proj \<times> part) \<times> nat list) list \<Rightarrow> ((proj \<times> part) \<times> nat list) list res" where
  "fused_shapes shape =
     res_bind (res_map (\<lambda>pt.
        case map_of shape (GateProj, pt) of
          Some (g0 # g1 # gs) \<Rightarrow>
            (case map_of shape (DownProj, pt) of
               None \<Rightarrow> Inl KeyError
             | Some ds \<Rightarrow> Inr [((GateUpProj, pt), g0 # 2 * g1 # gs), ((DownProj, pt), ds)])
        | Some _ \<Rightarrow> Inl IndexError
        | None \<Rightarrow> Inl KeyError)
       all_parts) (\<lambda>xs. Inr (concat xs))"

definition make_cfg :: "shard list \<Rightarrow> nat \<Rightarrow> moe_spec \<Rightarrow> layer_cfg res" where
  "make_cfg shards li sp =
     res_bind (fmt_layer (show_nat li) (key_template sp)) (\<lambda>prefix.
     res_bind (layer_shapes shards prefix) (\<lambda>shape.
     res_bind (if fuse_gu sp then fused_shapes shape else Inr shape) (\<lambda>bshape.
       Inr \<lparr>lc_idx = li, lc_experts = num_experts sp, lc_fused = fuse_gu sp,
            lc_projs = bundle_projs sp, lc_prefix = prefix, lc_shards = shards,
            lc_shape = shape, lc_bundle_shape = bshape\<rparr>)))"

section \<open>Building one expert\<close>

text \<open>\<open>raw[e * per:(e + 1) * per]\<close> with \<open>per = raw.size // num_experts\<close>.\<close>

definition expert_slice :: "nat \<Rightarrow> nat \<Rightarrow> u8 list \<Rightarrow> u8 list" where
  "expert_slice n e raw = (let per = length raw div n in py_slice (e * per) (Suc e * per) raw)"

definition read_rows :: "layer_cfg \<Rightarrow> proj \<Rightarrow> part \<Rightarrow> nat \<Rightarrow> u8 list res" where
  "read_rows cfg pj pt e =
     res_bind (raw_bytes cfg pj pt) (\<lambda>raw.
       if lc_experts cfg = 0 then Inl ZeroDivisionError
       else Inr (expert_slice (lc_experts cfg) e raw))"

text \<open>View, reshape and wrap a byte slice: the element count must fit the shape.\<close>

definition mk_tensor :: "part \<Rightarrow> nat list \<Rightarrow> u8 list \<Rightarrow> tensor res" where
  "mk_tensor pt shape bs =
     (if length bs mod item_size (part_dtype pt) = 0 \<and>
         length bs div item_size (part_dtype pt) = prod_list shape
      then Inr \<lparr>tdtype = part_dtype pt, tshape = shape, tdata = bs\<rparr>
      else Inl ValueError)"

definition to_mx :: "layer_cfg \<Rightarrow> u8 list \<Rightarrow> proj \<times> part \<Rightarrow> tensor res" where
  "to_mx cfg sl key =
     (case map_of (lc_bundle_shape cfg) key of
        None \<Rightarrow> Inl KeyError
      | Some shape \<Rightarrow> mk_tensor (snd key) (tl shape) sl)"

text \<open>The rows of expert \<open>e\<close> in bundle format: the fused projection is gate rows on top of up rows.\<close>

definition bundle_rows :: "layer_cfg \<Rightarrow> nat \<Rightarrow> proj \<times> part \<Rightarrow> u8 list res" where
  "bundle_rows cfg e key =
     (case key of (pj, pt) \<Rightarrow>
       if lc_fused cfg \<and> pj = GateUpProj then
         res_bind (read_rows cfg GateProj pt e) (\<lambda>g.
         res_bind (read_rows cfg UpProj pt e) (\<lambda>u. Inr (g @ u)))
       else read_rows cfg pj pt e)"

definition build_keys :: "layer_cfg \<Rightarrow> (proj \<times> part) list" where
  "build_keys cfg =
     (if lc_fused cfg then List.product [GateUpProj, DownProj] all_parts else source_keys)"

definition build_cold :: "layer_cfg \<Rightarrow> nat \<Rightarrow> ebundle res" where
  "build_cold cfg e =
     res_map (\<lambda>key. res_bind (bundle_rows cfg e key)
                 (\<lambda>sl. res_bind (to_mx cfg sl key) (\<lambda>t. Inr (key, t))))
       (build_keys cfg)"

text \<open>The resident hot stack: backing bytes per key, the ordered member list.\<close>

record hot_stack =
  hk_backing :: "((proj \<times> part) \<times> u8 list) list"
  hk_key :: "nat list"

definition build_hot :: "layer_cfg \<Rightarrow> hot_stack \<Rightarrow> nat \<Rightarrow> nat \<Rightarrow> ebundle res" where
  "build_hot cfg h idx e =
     res_map (\<lambda>(key, buf).
        case map_of (lc_bundle_shape cfg) key of
          None \<Rightarrow> Inl KeyError
        | Some sh \<Rightarrow>
            let per = length buf div (length (hk_key h) + 1)
            in res_bind (mk_tensor (snd key) (tl sh) (py_slice (idx * per) (Suc idx * per) buf))
                 (\<lambda>t. Inr (key, t)))
       (hk_backing h)"

text \<open>\<open>_build\<close>: a member of the hot stack is sliced from it, anything else is read from the shards.\<close>

definition build_bundle :: "layer_cfg \<Rightarrow> hot_stack option \<Rightarrow> nat \<Rightarrow> ebundle res" where
  "build_bundle cfg hot e =
     (case hot of
        None \<Rightarrow> build_cold cfg e
      | Some h \<Rightarrow>
          (case py_index (hk_key h) e of
             Some idx \<Rightarrow> build_hot cfg h idx e
           | None \<Rightarrow> build_cold cfg e))"

section \<open>Warm-up helpers\<close>

text \<open>\<open>warm_pages\<close>: the slices it faults in, in order.\<close>

definition warm_pages :: "layer_cfg \<Rightarrow> nat list \<Rightarrow> u8 list list res" where
  "warm_pages cfg experts =
     res_map (\<lambda>(e, (pj, pt)). read_rows cfg pj pt e) (List.product experts source_keys)"

text \<open>
  \<open>warm_experts_willneed\<close>: the (offset, length) hints it issues; a tensor whose shard cannot be
  resolved is skipped (the advice is best effort).
\<close>

definition willneed_hints :: "layer_cfg \<Rightarrow> nat list \<Rightarrow> (string \<times> int \<times> int) list res" where
  "willneed_hints cfg experts =
     res_bind (res_map (\<lambda>(e, (pj, pt)).
        let name = tensor_key (lc_prefix cfg) pj pt
        in case shard_for (lc_shards cfg) name of
             Inl _ \<Rightarrow> Inr []
           | Inr s \<Rightarrow>
               (case map_of (sentries s) name of
                  None \<Rightarrow> Inr []
                | Some ent \<Rightarrow>
                    if lc_experts cfg = 0 then Inl ZeroDivisionError
                    else let per = esize ent div int (lc_experts cfg)
                         in Inr [(name, eoffset ent + int e * per, per)]))
       (List.product experts source_keys)) (\<lambda>xs. Inr (concat xs))"

section \<open>Whole-layer load\<close>

definition full_rows :: "layer_cfg \<Rightarrow> proj \<times> part \<Rightarrow> u8 list res" where
  "full_rows cfg key =
     (case key of (pj, pt) \<Rightarrow>
       if lc_fused cfg \<and> pj = GateUpProj then
         res_bind (raw_bytes cfg GateProj pt) (\<lambda>raw_g.
         res_bind (raw_bytes cfg UpProj pt) (\<lambda>raw_u.
           if lc_experts cfg = 0 then Inl ZeroDivisionError
           else let per = length raw_g div lc_experts cfg
                in Inr (concat (map (\<lambda>e. py_slice (e * per) (Suc e * per) raw_g @
                                          py_slice (e * per) (Suc e * per) raw_u)
                              [0..<lc_experts cfg]))))
       else raw_bytes cfg pj pt)"

definition bundle_keys :: "layer_cfg \<Rightarrow> (proj \<times> part) list" where
  "bundle_keys cfg = List.product (lc_projs cfg) all_parts"

definition load_full :: "layer_cfg \<Rightarrow> ebundle res" where
  "load_full cfg =
     res_map (\<lambda>key. res_bind (full_rows cfg key) (\<lambda>rows.
        case map_of (lc_bundle_shape cfg) key of
          None \<Rightarrow> Inl KeyError
        | Some shape \<Rightarrow> res_bind (mk_tensor (snd key) shape rows) (\<lambda>t. Inr (key, t))))
       (bundle_keys cfg)"

section \<open>The hot-expert stack\<close>

text \<open>Selection: the \<open>n_hot\<close> highest usage counts, ties in insertion order; before any use, the first experts.\<close>

definition hot_selection :: "(nat \<times> real) list \<Rightarrow> nat \<Rightarrow> nat list" where
  "hot_selection counts n_hot =
     (if counts \<noteq> [] then take n_hot (map fst (sort_key (\<lambda>kv. - snd kv) counts))
      else [0..<n_hot])"

text \<open>Keep the old backing when the membership is the same or changed by at most an eighth.\<close>

definition hot_keep :: "hot_stack option \<Rightarrow> nat list \<Rightarrow> nat \<Rightarrow> bool" where
  "hot_keep old key n_hot =
     (case old of
        None \<Rightarrow> False
      | Some h \<Rightarrow> hk_key h = key \<or>
          length (filter (\<lambda>e. e \<notin> set (hk_key h)) key) \<le> max 1 (n_hot div 8))"

definition hot_backing_rows :: "layer_cfg \<Rightarrow> nat list \<Rightarrow> proj \<times> part \<Rightarrow> u8 list res" where
  "hot_backing_rows cfg hot key =
     (case key of (pj, pt) \<Rightarrow>
       res_bind
         (if lc_fused cfg \<and> pj = GateUpProj then
            res_bind (raw_bytes cfg GateProj pt) (\<lambda>raw_g.
            res_bind (raw_bytes cfg UpProj pt) (\<lambda>raw_u.
              if lc_experts cfg = 0 then Inl ZeroDivisionError
              else let per = length raw_g div lc_experts cfg
                   in Inr (map (\<lambda>e. py_slice (e * per) (Suc e * per) raw_g @
                                     py_slice (e * per) (Suc e * per) raw_u) hot)))
          else
            res_bind (raw_bytes cfg pj pt) (\<lambda>raw.
              if lc_experts cfg = 0 then Inl ZeroDivisionError
              else Inr (map (\<lambda>e. expert_slice (lc_experts cfg) e raw) hot)))
         (\<lambda>rows. case rows of
            [] \<Rightarrow> Inl IndexError
          | r # _ \<Rightarrow> Inr (concat (rows @ [replicate (length r) 0]))))"

definition load_hot :: "layer_cfg \<Rightarrow> (nat \<times> real) list \<Rightarrow> hot_stack option \<Rightarrow> nat \<Rightarrow> hot_stack option res" where
  "load_hot cfg counts old n_hot =
     (let hot = hot_selection counts n_hot
      in if hot_keep old hot n_hot then Inr old
         else res_bind (res_map (\<lambda>key. res_bind (hot_backing_rows cfg hot key) (\<lambda>b. Inr (key, b)))
                  (bundle_keys cfg))
                (\<lambda>backing. Inr (Some \<lparr>hk_backing = backing, hk_key = hot\<rparr>)))"

definition materialize :: "layer_cfg \<Rightarrow> hot_stack \<Rightarrow> ebundle res" where
  "materialize cfg h =
     (let n_e = length (hk_key h) + 1
      in res_map (\<lambda>(key, buf).
           case map_of (lc_bundle_shape cfg) key of
             None \<Rightarrow> Inl KeyError
           | Some shape \<Rightarrow> res_bind (mk_tensor (snd key) (n_e # tl shape) buf) (\<lambda>t. Inr (key, t)))
         (hk_backing h))"

text \<open>The all-zero overflow row of the constructor, one per bundle key.\<close>

definition zero_bundle :: "layer_cfg \<Rightarrow> ebundle res" where
  "zero_bundle cfg =
     res_map (\<lambda>key.
        case map_of (lc_bundle_shape cfg) key of
          None \<Rightarrow> Inl KeyError
        | Some shape \<Rightarrow>
            Inr (key, \<lparr>tdtype = part_dtype (snd key), tshape = tl shape,
                       tdata = replicate (prod_list (tl shape) * item_size (part_dtype (snd key))) 0\<rparr>))
       (bundle_keys cfg)"

section \<open>Well-formed checkpoints\<close>

text \<open>
  What the shipped checkpoints satisfy: each of the nine tensors of the layer is present, stacked
  over the experts, and its byte length is what its shape and item size say; the bundle shapes are
  the ones the constructor derives.
\<close>

definition source_projs :: "proj set" where
  "source_projs = {GateProj, UpProj, DownProj}"

definition cfg_ok :: "layer_cfg \<Rightarrow> bool" where
  "cfg_ok cfg \<longleftrightarrow> 0 < lc_experts cfg \<and>
     (\<forall>pj \<in> source_projs. \<forall>pt. \<exists>raw sh. raw_bytes cfg pj pt = Inr raw \<and>
        map_of (lc_shape cfg) (pj, pt) = Some (lc_experts cfg # sh) \<and>
        length raw = lc_experts cfg * (prod_list sh * item_size (part_dtype pt))) \<and>
     (if lc_fused cfg then
        lc_projs cfg = [GateUpProj, DownProj] \<and>
        (\<forall>pt. \<exists>w rest. map_of (lc_shape cfg) (GateProj, pt) = Some (lc_experts cfg # w # rest) \<and>
           map_of (lc_shape cfg) (UpProj, pt) = Some (lc_experts cfg # w # rest) \<and>
           map_of (lc_bundle_shape cfg) (GateUpProj, pt) = Some (lc_experts cfg # 2 * w # rest) \<and>
           map_of (lc_bundle_shape cfg) (DownProj, pt) = map_of (lc_shape cfg) (DownProj, pt))
      else lc_projs cfg = [UpProj, GateProj, DownProj] \<and> lc_bundle_shape cfg = lc_shape cfg)"

definition row_of :: "layer_cfg \<Rightarrow> proj \<times> part \<Rightarrow> nat \<Rightarrow> u8 list" where
  "row_of cfg key e = (case bundle_rows cfg e key of Inl _ \<Rightarrow> [] | Inr r \<Rightarrow> r)"

definition row_shape :: "layer_cfg \<Rightarrow> proj \<times> part \<Rightarrow> nat list" where
  "row_shape cfg key = (case map_of (lc_bundle_shape cfg) key of None \<Rightarrow> [] | Some sh \<Rightarrow> tl sh)"

definition row_bytes :: "layer_cfg \<Rightarrow> proj \<times> part \<Rightarrow> nat" where
  "row_bytes cfg key = prod_list (row_shape cfg key) * item_size (part_dtype (snd key))"

definition expert_tensor :: "layer_cfg \<Rightarrow> nat \<Rightarrow> proj \<times> part \<Rightarrow> tensor" where
  "expert_tensor cfg e key =
     \<lparr>tdtype = part_dtype (snd key), tshape = row_shape cfg key, tdata = row_of cfg key e\<rparr>"

lemma item_size_pos [simp]: "0 < item_size d"
  by (cases d) simp_all

lemma part_in_all [simp]: "pt \<in> set all_parts"
  by (cases pt) (simp_all add: all_parts_def)

lemma set_build_keys: "cfg_ok cfg \<Longrightarrow> set (build_keys cfg) = set (bundle_keys cfg)"
  by (auto simp: cfg_ok_def build_keys_def bundle_keys_def source_keys_def split: if_splits)

lemma distinct_all_parts [simp]: "distinct all_parts"
  by (simp add: all_parts_def)

lemma distinct_build_keys: "distinct (build_keys cfg)"
  by (simp add: build_keys_def source_keys_def all_parts_def)

lemma distinct_bundle_keys: "cfg_ok cfg \<Longrightarrow> distinct (bundle_keys cfg)"
  by (auto simp: cfg_ok_def bundle_keys_def all_parts_def split: if_splits)

lemma slice_len: "e < n \<Longrightarrow> length raw = n * m \<Longrightarrow> length (py_slice (e * m) (Suc e * m) raw) = m"
proof -
  assume e: "e < n" and l: "length raw = n * m"
  have "Suc e * m \<le> n * m" using e by (intro mult_le_mono1) simp
  then show ?thesis using l by (simp add: py_slice_def)
qed

lemma concat_slices: "concat (map (\<lambda>e. py_slice (e * m) (Suc e * m) raw) [0..<k]) = take (k * m) raw"
proof (induction k)
  case 0
  then show ?case by simp
next
  case (Suc k)
  have "take (k * m) raw @ take m (drop (k * m) raw) = take (k * m + m) raw"
    by (simp add: take_add)
  then show ?case using Suc by (simp add: py_slice_def add.commute)
qed

lemma raw_bytes_ok:
  assumes "cfg_ok cfg" and "pj \<in> source_projs"
  obtains raw sh where "raw_bytes cfg pj pt = Inr raw"
    and "map_of (lc_shape cfg) (pj, pt) = Some (lc_experts cfg # sh)"
    and "length raw = lc_experts cfg * (prod_list sh * item_size (part_dtype pt))"
  using assms unfolding cfg_ok_def by blast

lemma read_rows_ok:
  assumes ok: "cfg_ok cfg" and pj: "pj \<in> source_projs" and e: "e < lc_experts cfg"
  obtains r sh where "read_rows cfg pj pt e = Inr r"
    and "map_of (lc_shape cfg) (pj, pt) = Some (lc_experts cfg # sh)"
    and "length r = prod_list sh * item_size (part_dtype pt)"
proof -
  obtain raw sh where r: "raw_bytes cfg pj pt = Inr raw"
    and s: "map_of (lc_shape cfg) (pj, pt) = Some (lc_experts cfg # sh)"
    and l: "length raw = lc_experts cfg * (prod_list sh * item_size (part_dtype pt))"
    by (rule raw_bytes_ok [OF ok pj])
  have "length (expert_slice (lc_experts cfg) e raw) = prod_list sh * item_size (part_dtype pt)"
    using slice_len [OF e l] e l by (simp add: expert_slice_def Let_def)
  then show thesis using that r s e by (simp add: read_rows_def)
qed

text \<open>One key of one expert: the rows exist, have the bundle's row shape and the right byte count.\<close>

lemma bundle_rows_ok:
  assumes ok: "cfg_ok cfg" and key: "key \<in> set (bundle_keys cfg)" and e: "e < lc_experts cfg"
  shows "bundle_rows cfg e key = Inr (row_of cfg key e)"
    and "length (row_of cfg key e) = row_bytes cfg key"
    and "map_of (lc_bundle_shape cfg) key = Some (lc_experts cfg # row_shape cfg key)"
proof -
  obtain pj pt where k: "key = (pj, pt)" by (cases key)
  have "bundle_rows cfg e key = Inr (row_of cfg key e) \<and> length (row_of cfg key e) = row_bytes cfg key \<and>
    map_of (lc_bundle_shape cfg) key = Some (lc_experts cfg # row_shape cfg key)"
  proof (cases "lc_fused cfg \<and> pj = GateUpProj")
    case True
    then obtain w rest where sh: "map_of (lc_shape cfg) (GateProj, pt) = Some (lc_experts cfg # w # rest)"
      "map_of (lc_shape cfg) (UpProj, pt) = Some (lc_experts cfg # w # rest)"
      "map_of (lc_bundle_shape cfg) (GateUpProj, pt) = Some (lc_experts cfg # 2 * w # rest)"
      using ok unfolding cfg_ok_def by metis
    obtain g gs where g: "read_rows cfg GateProj pt e = Inr g" "length g = w * prod_list rest * item_size (part_dtype pt)"
      by (rule read_rows_ok [OF ok, of GateProj e pt]) (use e sh in \<open>auto simp: source_projs_def\<close>)
    obtain u us where u: "read_rows cfg UpProj pt e = Inr u" "length u = w * prod_list rest * item_size (part_dtype pt)"
      by (rule read_rows_ok [OF ok, of UpProj e pt]) (use e sh in \<open>auto simp: source_projs_def\<close>)
    have b: "bundle_rows cfg e key = Inr (g @ u)" using True g u by (simp add: bundle_rows_def k)
    show ?thesis using b sh g u True
      by (simp add: k row_of_def row_bytes_def row_shape_def algebra_simps)
  next
    case False
    have src: "pj \<in> source_projs" and eq: "map_of (lc_bundle_shape cfg) key = map_of (lc_shape cfg) key"
      using ok key False unfolding cfg_ok_def k bundle_keys_def source_projs_def
      by (auto split: if_splits)
    obtain r sh where r: "read_rows cfg pj pt e = Inr r"
      "map_of (lc_shape cfg) (pj, pt) = Some (lc_experts cfg # sh)"
      "length r = prod_list sh * item_size (part_dtype pt)"
      by (rule read_rows_ok [OF ok src e])
    have b: "bundle_rows cfg e key = Inr r" using False r by (auto simp: bundle_rows_def k)
    show ?thesis using b r eq by (simp add: k row_of_def row_bytes_def row_shape_def)
  qed
  then show "bundle_rows cfg e key = Inr (row_of cfg key e)"
    and "length (row_of cfg key e) = row_bytes cfg key"
    and "map_of (lc_bundle_shape cfg) key = Some (lc_experts cfg # row_shape cfg key)" by auto
qed

lemma mk_tensor_ok:
  "length bs = prod_list sh * item_size (part_dtype pt) \<Longrightarrow>
     mk_tensor pt sh bs = Inr \<lparr>tdtype = part_dtype pt, tshape = sh, tdata = bs\<rparr>"
  by (simp add: mk_tensor_def)

lemma build_cold_ok:
  assumes "cfg_ok cfg" and "e < lc_experts cfg"
  shows "build_cold cfg e = Inr (map (\<lambda>key. (key, expert_tensor cfg e key)) (build_keys cfg))"
  unfolding build_cold_def
proof (rule res_map_all_Inr)
  fix key
  assume "key \<in> set (build_keys cfg)"
  then have key: "key \<in> set (bundle_keys cfg)" using set_build_keys [OF assms(1)] by simp
  show "res_bind (bundle_rows cfg e key) (\<lambda>sl. res_bind (to_mx cfg sl key) (\<lambda>t. Inr (key, t))) =
      Inr (key, expert_tensor cfg e key)"
    using bundle_rows_ok [OF assms(1) key assms(2)]
    by (simp add: to_mx_def mk_tensor_ok row_bytes_def expert_tensor_def)
qed

section \<open>Stacked tensors and their rows\<close>

text \<open>Row \<open>i\<close> of a stacked tensor: what gathering index \<open>i\<close> along the leading axis reads.\<close>

definition stack_row :: "tensor \<Rightarrow> nat \<Rightarrow> tensor" where
  "stack_row t i =
     (let per = length (tdata t) div hd (tshape t)
      in \<lparr>tdtype = tdtype t, tshape = tl (tshape t), tdata = py_slice (i * per) (Suc i * per) (tdata t)\<rparr>)"

lemma stack_row_concat:
  assumes "\<And>r. r \<in> set rows \<Longrightarrow> length r = m" and "i < length rows"
  shows "stack_row \<lparr>tdtype = d, tshape = length rows # sh, tdata = concat rows\<rparr> i =
    \<lparr>tdtype = d, tshape = sh, tdata = rows ! i\<rparr>"
proof -
  have "length (concat rows) = length rows * m"
    using assms(1) by (induction rows) simp_all
  moreover have "length rows \<noteq> 0" using assms(2) by auto
  ultimately have "length (concat rows) div length rows = m" by simp
  then show ?thesis using py_slice_concat [OF assms(1) assms(2)]
    by (simp add: stack_row_def Let_def)
qed

lemma full_rows_ok:
  assumes ok: "cfg_ok cfg" and key: "key \<in> set (bundle_keys cfg)"
  shows "full_rows cfg key = Inr (concat (map (row_of cfg key) [0..<lc_experts cfg]))"
proof -
  obtain pj pt where k: "key = (pj, pt)" by (cases key)
  let ?n = "lc_experts cfg"
  have n: "0 < ?n" using ok by (simp add: cfg_ok_def)
  show ?thesis
  proof (cases "lc_fused cfg \<and> pj = GateUpProj")
    case True
    obtain w rest where sh: "map_of (lc_shape cfg) (GateProj, pt) = Some (?n # w # rest)"
      "map_of (lc_shape cfg) (UpProj, pt) = Some (?n # w # rest)"
      using ok True unfolding cfg_ok_def by metis
    obtain g where g: "raw_bytes cfg GateProj pt = Inr g" "length g = ?n * (w * prod_list rest * item_size (part_dtype pt))"
      by (rule raw_bytes_ok [OF ok, of GateProj pt]) (use sh in \<open>auto simp: source_projs_def\<close>)
    obtain u where u: "raw_bytes cfg UpProj pt = Inr u" "length u = ?n * (w * prod_list rest * item_size (part_dtype pt))"
      by (rule raw_bytes_ok [OF ok, of UpProj pt]) (use sh in \<open>auto simp: source_projs_def\<close>)
    have per: "length u div ?n = length g div ?n" using g u by simp
    have "row_of cfg key e = py_slice (e * (length g div ?n)) (Suc e * (length g div ?n)) g @
        py_slice (e * (length g div ?n)) (Suc e * (length g div ?n)) u" for e
      using True g u n per
      by (simp add: row_of_def bundle_rows_def k read_rows_def expert_slice_def Let_def)
    then show ?thesis using True g u n by (simp add: full_rows_def k Let_def cong: map_cong)
  next
    case False
    have src: "pj \<in> source_projs"
      using ok key False unfolding cfg_ok_def k bundle_keys_def source_projs_def
      by (auto split: if_splits)
    obtain raw sh where r: "raw_bytes cfg pj pt = Inr raw"
      and l: "length raw = ?n * (prod_list sh * item_size (part_dtype pt))"
      by (rule raw_bytes_ok [OF ok src])
    define m where "m = prod_list sh * item_size (part_dtype pt)"
    have "row_of cfg key e = py_slice (e * m) (Suc e * m) raw" for e
      using False r n l
      by (auto simp: row_of_def bundle_rows_def k read_rows_def expert_slice_def Let_def m_def)
    then have "concat (map (row_of cfg key) [0..<?n]) = raw"
      using concat_slices [of m raw ?n] l by (simp add: m_def cong: map_cong)
    then show ?thesis using False r by (auto simp: full_rows_def k)
  qed
qed

lemma length_concat_rows:
  assumes "\<And>r. r \<in> set rows \<Longrightarrow> length r = m"
  shows "length (concat rows) = length rows * m"
  using assms by (induction rows) simp_all

lemma load_full_ok:
  assumes ok: "cfg_ok cfg"
  shows "load_full cfg = Inr (map (\<lambda>key. (key, \<lparr>tdtype = part_dtype (snd key),
    tshape = lc_experts cfg # row_shape cfg key,
    tdata = concat (map (row_of cfg key) [0..<lc_experts cfg])\<rparr>)) (bundle_keys cfg))"
  unfolding load_full_def
proof (rule res_map_all_Inr)
  fix key
  assume key: "key \<in> set (bundle_keys cfg)"
  let ?rows = "map (row_of cfg key) [0..<lc_experts cfg]"
  have n: "0 < lc_experts cfg" using ok by (simp add: cfg_ok_def)
  have len: "length (concat ?rows) = lc_experts cfg * row_bytes cfg key"
    by (subst length_concat_rows [where m = "row_bytes cfg key"])
      (use bundle_rows_ok(2) [OF ok key] in auto)
  show "res_bind (full_rows cfg key) (\<lambda>rows.
        case map_of (lc_bundle_shape cfg) key of
          None \<Rightarrow> Inl KeyError
        | Some shape \<Rightarrow> res_bind (mk_tensor (snd key) shape rows) (\<lambda>t. Inr (key, t))) =
      Inr (key, \<lparr>tdtype = part_dtype (snd key), tshape = lc_experts cfg # row_shape cfg key,
        tdata = concat ?rows\<rparr>)"
    using full_rows_ok [OF ok key] bundle_rows_ok(3) [OF ok key n] len
    by (simp add: mk_tensor_ok row_bytes_def)
qed

lemma map_of_map_keys: "k \<in> set ks \<Longrightarrow> map_of (map (\<lambda>k. (k, f k)) ks) k = Some (f k)"
  by (induction ks) auto

lemma build_cold_lookup:
  assumes "cfg_ok cfg" and "e < lc_experts cfg"
  shows "\<exists>b. build_cold cfg e = Inr b \<and>
    map_of b = (\<lambda>key. if key \<in> set (bundle_keys cfg) then Some (expert_tensor cfg e key) else None)"
proof -
  have "map_of (map (\<lambda>key. (key, expert_tensor cfg e key)) (build_keys cfg)) key =
      (if key \<in> set (bundle_keys cfg) then Some (expert_tensor cfg e key) else None)" for key
    using set_build_keys [OF assms(1)] by (auto simp: map_of_map_keys map_of_eq_None_iff)
  then show ?thesis using build_cold_ok [OF assms] by auto
qed

text \<open>
  The whole-layer load is bit-identical to the per-expert builds. On a well-formed checkpoint,
  for every bundle tensor and every expert, gathering the expert's row from the whole-layer stack
  gives exactly the tensor (dtype, shape and bytes) that building that expert alone gives, in both
  the separate and the fused gate+up layouts.
\<close>

theorem full_layer_rows_are_builds:
  assumes "cfg_ok cfg" and "e < lc_experts cfg" and "key \<in> set (bundle_keys cfg)"
  shows "\<exists>full b t s. load_full cfg = Inr full \<and> build_cold cfg e = Inr b \<and>
    map_of full key = Some s \<and> map_of b key = Some t \<and> stack_row s e = t"
proof -
  let ?rows = "map (row_of cfg key) [0..<lc_experts cfg]"
  have "stack_row \<lparr>tdtype = part_dtype (snd key), tshape = length ?rows # row_shape cfg key,
      tdata = concat ?rows\<rparr> e =
    \<lparr>tdtype = part_dtype (snd key), tshape = row_shape cfg key, tdata = ?rows ! e\<rparr>"
    by (rule stack_row_concat [where m = "row_bytes cfg key"])
      (use bundle_rows_ok(2) [OF assms(1,3)] assms(2) in auto)
  then have "stack_row \<lparr>tdtype = part_dtype (snd key), tshape = lc_experts cfg # row_shape cfg key,
      tdata = concat ?rows\<rparr> e = expert_tensor cfg e key"
    using assms(2) by (simp add: expert_tensor_def)
  then show ?thesis
    using load_full_ok [OF assms(1)] build_cold_lookup [OF assms(1,2)] assms(3)
    by (auto simp: map_of_map_keys)
qed

definition demo_shard :: shard where
  "demo_shard = \<lparr>smm = map word_of_nat [0..<72], payload_base = 0,
     sentries = map (\<lambda>(i, (pj, pt)). (tensor_key ''m'' pj pt,
        \<lparr>eoffset = 8 * int i, esize = 2 * int (item_size (part_dtype pt)),
         edtype = ''U8'', eshape = [2, 1, 1]\<rparr>)) (enumerate_from0 source_keys)\<rparr>"

definition demo_moe :: moe_spec where
  "demo_moe = demo_spec\<lparr>num_experts := 2, layout := FUSED_GATE_UP, key_template := ''m''\<rparr>"

definition demo_cfg :: layer_cfg where
  "demo_cfg = \<lparr>lc_idx = 0, lc_experts = 2, lc_fused = True, lc_projs = [GateUpProj, DownProj],
     lc_prefix = ''m'', lc_shards = [demo_shard],
     lc_shape = map (\<lambda>k. (k, [2, 1, 1])) source_keys,
     lc_bundle_shape = concat (map (\<lambda>pt. [((GateUpProj, pt), [2, 2, 1]), ((DownProj, pt), [2, 1, 1])]) all_parts)\<rparr>"

lemma source_keys_eval:
  "source_keys = [(GateProj, Weight), (GateProj, Scales), (GateProj, Biases),
     (UpProj, Weight), (UpProj, Scales), (UpProj, Biases),
     (DownProj, Weight), (DownProj, Scales), (DownProj, Biases)]"
  by (simp add: source_keys_def all_parts_def)

lemma demo_make_cfg: "make_cfg [demo_shard] 0 demo_moe = Inr demo_cfg"
  by (simp add: make_cfg_def demo_moe_def demo_spec_def layer_shapes_def source_keys_eval Let_def
      shard_for_def shard_index_def demo_shard_def enumerate_from0_def keys_of_def tensor_key_def
      fuse_gu_def bundle_projs_def fused_shapes_def all_parts_def demo_cfg_def upt_rec)

lemma demo_raw:
  "raw_bytes demo_cfg pj pt =
     (case map_of (map (\<lambda>(i, k). (k, i)) (enumerate_from0 source_keys)) (pj, pt) of
        None \<Rightarrow> Inl KeyError
      | Some i \<Rightarrow> Inr (take (2 * item_size (part_dtype pt)) (drop (8 * i) (smm demo_shard))))"
  by (cases pj; cases pt)
    (simp_all add: raw_bytes_def shard_for_def shard_index_def demo_cfg_def demo_shard_def
      source_keys_eval enumerate_from0_def keys_of_def tensor_key_def mmap_raw_def frombuffer_def upt_rec)

lemma demo_fields:
  "lc_experts demo_cfg = 2" "lc_fused demo_cfg" "lc_projs demo_cfg = [GateUpProj, DownProj]"
  "lc_shape demo_cfg = map (\<lambda>k. (k, [2, 1, 1])) source_keys"
  "lc_bundle_shape demo_cfg =
     concat (map (\<lambda>pt. [((GateUpProj, pt), [2, 2, 1]), ((DownProj, pt), [2, 1, 1])]) all_parts)"
  by (simp_all add: demo_cfg_def)

lemma demo_shard_length: "length (smm demo_shard) = 72"
  by (simp add: demo_shard_def)

lemma demo_raw_length:
  "pj \<in> source_projs \<Longrightarrow> \<exists>raw. raw_bytes demo_cfg pj pt = Inr raw \<and>
     length raw = 2 * item_size (part_dtype pt)"
  unfolding demo_raw source_projs_def
  by (cases pt) (auto simp: source_keys_eval enumerate_from0_def upt_rec demo_shard_length)

lemma demo_cfg_ok: "cfg_ok demo_cfg"
proof -
  have a: "\<exists>raw sh. raw_bytes demo_cfg pj pt = Inr raw \<and>
      map_of (lc_shape demo_cfg) (pj, pt) = Some (lc_experts demo_cfg # sh) \<and>
      length raw = lc_experts demo_cfg * (prod_list sh * item_size (part_dtype pt))"
    if "pj \<in> source_projs" for pj pt
  proof -
    have "map_of (lc_shape demo_cfg) (pj, pt) = Some [2, 1, 1]"
      using that by (cases pt) (auto simp: demo_fields source_keys_eval source_projs_def)
    then show ?thesis using demo_raw_length [OF that, of pt] by (auto simp: demo_fields(1))
  qed
  have b: "\<exists>w rest. map_of (lc_shape demo_cfg) (GateProj, pt) = Some (lc_experts demo_cfg # w # rest) \<and>
      map_of (lc_shape demo_cfg) (UpProj, pt) = Some (lc_experts demo_cfg # w # rest) \<and>
      map_of (lc_bundle_shape demo_cfg) (GateUpProj, pt) = Some (lc_experts demo_cfg # 2 * w # rest) \<and>
      map_of (lc_bundle_shape demo_cfg) (DownProj, pt) = map_of (lc_shape demo_cfg) (DownProj, pt)" for pt
    by (cases pt) (simp_all add: demo_fields source_keys_eval all_parts_def)
  show ?thesis using a b unfolding cfg_ok_def by (simp add: demo_fields(1-3))
qed

theorem full_layer_rows_are_builds_witness:
  "\<exists>full b t s. load_full demo_cfg = Inr full \<and> build_cold demo_cfg 1 = Inr b \<and>
    map_of full (GateUpProj, Scales) = Some s \<and> map_of b (GateUpProj, Scales) = Some t \<and> stack_row s 1 = t"
  by (rule full_layer_rows_are_builds [OF demo_cfg_ok])
    (simp_all add: demo_fields bundle_keys_def all_parts_def)

end
