(* ===== verification/Hot_Stack.thy ===== *)
theory Hot_Stack
  imports Expert_Bundles
begin

text \<open>
  What the hot stack (\<open>load_hot_layer\<close>, the zero-IO path of \<open>_build\<close>, \<open>materialize_hot\<close>) holds:
  its rows are the rows a cold read of the shards gives, and its overflow row is zero. The operations
  themselves are in \<open>Expert_Bundles\<close>.
\<close>

section \<open>The hot stack agrees with the shards\<close>

lemma row_pieces:
  assumes "cfg_ok cfg" and "key \<in> set (bundle_keys cfg)"
  obtains raw_g raw_u where "lc_fused cfg \<and> fst key = GateUpProj"
      "raw_bytes cfg GateProj (snd key) = Inr raw_g" "raw_bytes cfg UpProj (snd key) = Inr raw_u"
      "length raw_u = length raw_g"
    | raw where "\<not> (lc_fused cfg \<and> fst key = GateUpProj)" "raw_bytes cfg (fst key) (snd key) = Inr raw"
proof (cases "lc_fused cfg \<and> fst key = GateUpProj")
  case True
  then obtain w rest where sh: "map_of (lc_shape cfg) (GateProj, snd key) = Some (lc_experts cfg # w # rest)"
    "map_of (lc_shape cfg) (UpProj, snd key) = Some (lc_experts cfg # w # rest)"
    using assms unfolding cfg_ok_def by metis
  obtain g where g: "raw_bytes cfg GateProj (snd key) = Inr g"
    "length g = lc_experts cfg * (w * prod_list rest * item_size (part_dtype (snd key)))"
    by (rule raw_bytes_ok [OF assms(1), of GateProj "snd key"]) (use sh in \<open>auto simp: source_projs_def\<close>)
  obtain u where u: "raw_bytes cfg UpProj (snd key) = Inr u"
    "length u = lc_experts cfg * (w * prod_list rest * item_size (part_dtype (snd key)))"
    by (rule raw_bytes_ok [OF assms(1), of UpProj "snd key"]) (use sh in \<open>auto simp: source_projs_def\<close>)
  show thesis by (rule that(1) [OF True g(1) u(1)]) (simp add: g u)
next
  case False
  have src: "fst key \<in> source_projs"
    using assms False unfolding cfg_ok_def bundle_keys_def source_projs_def
    by (cases key) (auto split: if_splits)
  obtain raw where "raw_bytes cfg (fst key) (snd key) = Inr raw"
    by (rule raw_bytes_ok [OF assms(1) src])
  then show thesis using that(2) False by blast
qed

lemma hot_backing_rows_ok:
  assumes ok: "cfg_ok cfg" and key: "key \<in> set (bundle_keys cfg)"
    and hot: "hot \<noteq> []" "\<And>e. e \<in> set hot \<Longrightarrow> e < lc_experts cfg"
  shows "hot_backing_rows cfg hot key =
    Inr (concat (map (row_of cfg key) hot @ [replicate (row_bytes cfg key) 0]))"
proof -
  obtain pj pt where k: "key = (pj, pt)" by (cases key)
  have n: "0 < lc_experts cfg" using ok by (simp add: cfg_ok_def)
  have "hot_backing_rows cfg hot key =
      (case map (row_of cfg key) hot of [] \<Rightarrow> Inl IndexError
       | r # _ \<Rightarrow> Inr (concat (map (row_of cfg key) hot @ [replicate (length r) 0])))"
  proof (rule row_pieces [OF ok key])
    fix raw_g raw_u
    assume f: "lc_fused cfg \<and> fst key = GateUpProj" and g: "raw_bytes cfg GateProj (snd key) = Inr raw_g"
      and u: "raw_bytes cfg UpProj (snd key) = Inr raw_u" and l: "length raw_u = length raw_g"
    let ?per = "length raw_g div lc_experts cfg"
    have "row_of cfg key e = py_slice (e * ?per) (Suc e * ?per) raw_g @ py_slice (e * ?per) (Suc e * ?per) raw_u" for e
      using f g u n l by (simp add: row_of_def bundle_rows_def k read_rows_def expert_slice_def Let_def)
    then have "map (\<lambda>e. py_slice (e * ?per) (Suc e * ?per) raw_g @
        py_slice (e * ?per) (Suc e * ?per) raw_u) hot = map (row_of cfg (pj, pt)) hot" by (simp add: k)
    then show ?thesis using f g u n unfolding k by (auto simp: hot_backing_rows_def Let_def simp del: map_eq_conv)
  next
    fix raw
    assume f: "\<not> (lc_fused cfg \<and> fst key = GateUpProj)" and r: "raw_bytes cfg (fst key) (snd key) = Inr raw"
    have "map (\<lambda>e. expert_slice (lc_experts cfg) e raw) hot = map (row_of cfg (pj, pt)) hot"
      using f r n by (auto simp: row_of_def bundle_rows_def k read_rows_def)
    then show ?thesis using f r n unfolding k by (auto simp: hot_backing_rows_def simp del: map_eq_conv)
  qed
  moreover obtain e es where "hot = e # es" using hot(1) by (cases hot) auto
  moreover have "length (row_of cfg key e) = row_bytes cfg key"
    using bundle_rows_ok(2) [OF ok key] hot(2) \<open>hot = e # es\<close> by simp
  ultimately show ?thesis by simp
qed

text \<open>The stack a fresh load builds for a given member list.\<close>

definition hot_stack_of :: "layer_cfg \<Rightarrow> nat list \<Rightarrow> hot_stack" where
  "hot_stack_of cfg hot =
     \<lparr>hk_backing = map (\<lambda>key. (key, concat (map (row_of cfg key) hot @ [replicate (row_bytes cfg key) 0])))
        (bundle_keys cfg), hk_key = hot\<rparr>"

lemma load_hot_ok:
  assumes "cfg_ok cfg" and "hot_selection counts n_hot = hot" and "\<not> hot_keep old hot n_hot"
    and "hot \<noteq> []" and "\<And>e. e \<in> set hot \<Longrightarrow> e < lc_experts cfg"
  shows "load_hot cfg counts old n_hot = Inr (Some (hot_stack_of cfg hot))"
proof -
  have "res_map (\<lambda>key. res_bind (hot_backing_rows cfg hot key) (\<lambda>b. Inr (key, b))) (bundle_keys cfg) =
      Inr (map (\<lambda>key. (key, concat (map (row_of cfg key) hot @ [replicate (row_bytes cfg key) 0]))) (bundle_keys cfg))"
    by (rule res_map_all_Inr) (simp add: hot_backing_rows_ok [OF assms(1) _ assms(4,5)])
  then show ?thesis using assms(2,3) by (simp add: load_hot_def hot_stack_of_def)
qed

lemma hot_rows_uniform:
  assumes "cfg_ok cfg" and "key \<in> set (bundle_keys cfg)" and "\<And>e. e \<in> set hot \<Longrightarrow> e < lc_experts cfg"
  shows "\<And>r. r \<in> set (map (row_of cfg key) hot @ [replicate (row_bytes cfg key) 0]) \<Longrightarrow> length r = row_bytes cfg key"
  using bundle_rows_ok(2) [OF assms(1,2)] assms(3) by auto

lemma build_hot_ok:
  assumes ok: "cfg_ok cfg" and hot: "\<And>e. e \<in> set hot \<Longrightarrow> e < lc_experts cfg" and i: "i < length hot"
  shows "build_hot cfg (hot_stack_of cfg hot) i e =
    Inr (map (\<lambda>key. (key, expert_tensor cfg (hot ! i) key)) (bundle_keys cfg))"
proof -
  have one: "(case (key, concat (map (row_of cfg key) hot @ [replicate (row_bytes cfg key) 0])) of (key, buf) \<Rightarrow>
        case map_of (lc_bundle_shape cfg) key of
          None \<Rightarrow> Inl KeyError
        | Some sh \<Rightarrow>
            let per = length buf div (length hot + 1)
            in res_bind (mk_tensor (snd key) (tl sh) (py_slice (i * per) (Suc i * per) buf))
                 (\<lambda>t. Inr (key, t))) = Inr (key, expert_tensor cfg (hot ! i) key)"
    if key: "key \<in> set (bundle_keys cfg)" for key
  proof -
    let ?rows = "map (row_of cfg key) hot @ [replicate (row_bytes cfg key) 0]"
    have uni: "\<And>r. r \<in> set ?rows \<Longrightarrow> length r = row_bytes cfg key"
      using hot_rows_uniform [OF ok key, of hot] hot by blast
    have "length (concat ?rows) = length ?rows * row_bytes cfg key"
      by (rule length_concat_rows) (rule uni)
    then have "length (concat ?rows) = (length hot + 1) * row_bytes cfg key" by (simp del: concat_append)
    then have per: "length (concat ?rows) div (length hot + 1) = row_bytes cfg key"
      by (metis nonzero_mult_div_cancel_left add_is_0 one_neq_zero)
    have sl: "py_slice (i * row_bytes cfg key) (Suc i * row_bytes cfg key) (concat ?rows) = row_of cfg key (hot ! i)"
      using py_slice_concat [of ?rows "row_bytes cfg key" i, OF uni] i by (simp add: nth_append)
    have e: "hot ! i < lc_experts cfg" using hot i by simp
    show ?thesis using bundle_rows_ok [OF ok key e] per sl
      by (simp add: Let_def mk_tensor_ok row_bytes_def expert_tensor_def del: concat_append)
  qed
  have "build_hot cfg (hot_stack_of cfg hot) i e =
      res_map (\<lambda>(key, buf).
        case map_of (lc_bundle_shape cfg) key of
          None \<Rightarrow> Inl KeyError
        | Some sh \<Rightarrow>
            let per = length buf div (length hot + 1)
            in res_bind (mk_tensor (snd key) (tl sh) (py_slice (i * per) (Suc i * per) buf)) (\<lambda>t. Inr (key, t)))
      (map (\<lambda>key. (key, concat (map (row_of cfg key) hot @ [replicate (row_bytes cfg key) 0]))) (bundle_keys cfg))"
    unfolding build_hot_def hot_stack_of_def hot_stack.simps Let_def ..
  also have "\<dots> = Inr (map (\<lambda>kb. (fst kb, expert_tensor cfg (hot ! i) (fst kb)))
      (map (\<lambda>key. (key, concat (map (row_of cfg key) hot @ [replicate (row_bytes cfg key) 0]))) (bundle_keys cfg)))"
    by (rule res_map_all_Inr) (use one in \<open>auto simp del: concat_append\<close>)
  finally show ?thesis by (simp add: comp_def)
qed

text \<open>
  The zero-IO fast path of \<open>_build\<close> is exact. After a hot stack is loaded for any selection of
  valid experts, building any expert (resident or not) gives the same nine tensors as reading the
  shards.
\<close>

theorem build_hot_path_exact:
  assumes "cfg_ok cfg" and "hot_selection counts n_hot \<noteq> []"
    and "\<forall>e \<in> set (hot_selection counts n_hot). e < lc_experts cfg"
    and "load_hot cfg counts None n_hot = Inr (Some h)" and "e < lc_experts cfg"
  shows "\<exists>b c. build_bundle cfg (Some h) e = Inr b \<and> build_bundle cfg None e = Inr c \<and> map_of b = map_of c"
proof -
  let ?hot = "hot_selection counts n_hot"
  have h: "h = hot_stack_of cfg ?hot"
    using load_hot_ok [OF assms(1) refl, of None counts n_hot] assms(2-4) by (simp add: hot_keep_def)
  obtain c where c: "build_cold cfg e = Inr c" and mc: "map_of c =
      (\<lambda>key. if key \<in> set (bundle_keys cfg) then Some (expert_tensor cfg e key) else None)"
    using build_cold_lookup [OF assms(1,5)] by blast
  show ?thesis
  proof (cases "py_index ?hot e")
    case None
    then show ?thesis using c by (simp add: build_bundle_def h hot_stack_of_def)
  next
    case (Some i)
    then have i: "i < length ?hot" "?hot ! i = e" by (auto dest: py_index_Some)
    have "map_of (map (\<lambda>key. (key, expert_tensor cfg e key)) (bundle_keys cfg)) = map_of c"
      by (auto simp: mc fun_eq_iff map_of_map_keys map_of_eq_None_iff)
    then show ?thesis using c build_hot_ok [OF assms(1) _ i(1)] assms(3) i(2) Some
      by (simp add: build_bundle_def h) (simp add: hot_stack_of_def)
  qed
qed

theorem build_hot_path_exact_witness:
  "\<exists>h b c. load_hot demo_cfg [(1, 2)] None 4 = Inr (Some h) \<and> build_bundle demo_cfg (Some h) 1 = Inr b \<and>
     build_bundle demo_cfg None 1 = Inr c \<and> map_of b = map_of c"
proof -
  have sel: "hot_selection [(1, 2)] 4 = [1]" by (simp add: hot_selection_def)
  have l: "load_hot demo_cfg [(1, 2)] None 4 = Inr (Some (hot_stack_of demo_cfg [1]))"
    by (rule load_hot_ok [OF demo_cfg_ok sel]) (simp_all add: hot_keep_def demo_fields(1))
  show ?thesis
    using build_hot_path_exact [OF demo_cfg_ok _ _ l, of 1] l sel by (simp add: demo_fields(1))
qed

definition hot_tensor :: "layer_cfg \<Rightarrow> nat list \<Rightarrow> proj \<times> part \<Rightarrow> tensor" where
  "hot_tensor cfg hot key =
     \<lparr>tdtype = part_dtype (snd key), tshape = (length hot + 1) # row_shape cfg key,
      tdata = concat (map (row_of cfg key) hot @ [replicate (row_bytes cfg key) 0])\<rparr>"

lemma materialize_ok:
  assumes ok: "cfg_ok cfg" and hot: "\<And>e. e \<in> set hot \<Longrightarrow> e < lc_experts cfg"
  shows "materialize cfg (hot_stack_of cfg hot) = Inr (map (\<lambda>key. (key, hot_tensor cfg hot key)) (bundle_keys cfg))"
proof -
  have n: "0 < lc_experts cfg" using ok by (simp add: cfg_ok_def)
  have one: "(case map_of (lc_bundle_shape cfg) k of None \<Rightarrow> Inl KeyError
      | Some shape \<Rightarrow> res_bind (mk_tensor (snd k) ((length hot + 1) # tl shape) (tdata (hot_tensor cfg hot k)))
          (\<lambda>t. Inr (k, t))) = Inr (k, hot_tensor cfg hot k)"
    if k: "k \<in> set (bundle_keys cfg)" for k
  proof -
    have "length (tdata (hot_tensor cfg hot k)) = (length hot + 1) * row_bytes cfg k"
      unfolding hot_tensor_def
      by (subst tensor.simps, subst length_concat_rows [OF hot_rows_uniform [OF ok k, of hot]])
        (use hot in \<open>simp_all del: concat_append\<close>)
    then have "mk_tensor (snd k) ((length hot + 1) # row_shape cfg k) (tdata (hot_tensor cfg hot k)) = Inr (hot_tensor cfg hot k)"
      by (subst mk_tensor_ok) (simp_all add: row_bytes_def algebra_simps hot_tensor_def)
    then show ?thesis using bundle_rows_ok(3) [OF ok k n] by simp
  qed
  have "hk_backing (hot_stack_of cfg hot) = map (\<lambda>k. (k, tdata (hot_tensor cfg hot k))) (bundle_keys cfg)"
    "hk_key (hot_stack_of cfg hot) = hot" by (simp_all add: hot_stack_of_def hot_tensor_def)
  then have "materialize cfg (hot_stack_of cfg hot) =
      res_map (\<lambda>(k, buf). case map_of (lc_bundle_shape cfg) k of None \<Rightarrow> Inl KeyError
        | Some shape \<Rightarrow> res_bind (mk_tensor (snd k) ((length hot + 1) # tl shape) buf) (\<lambda>t. Inr (k, t)))
       (map (\<lambda>k. (k, tdata (hot_tensor cfg hot k))) (bundle_keys cfg))"
    by (simp only: materialize_def Let_def)
  also have "\<dots> = Inr (map (\<lambda>kb. (fst kb, hot_tensor cfg hot (fst kb)))
      (map (\<lambda>k. (k, tdata (hot_tensor cfg hot k))) (bundle_keys cfg)))"
    by (rule res_map_all_Inr) (use one in auto)
  finally show ?thesis by (simp add: comp_def)
qed

lemma zero_bundle_ok:
  assumes "cfg_ok cfg"
  shows "zero_bundle cfg = Inr (map (\<lambda>k. (k, \<lparr>tdtype = part_dtype (snd k), tshape = row_shape cfg k,
      tdata = replicate (row_bytes cfg k) 0\<rparr>)) (bundle_keys cfg))"
proof -
  have "0 < lc_experts cfg" using assms by (simp add: cfg_ok_def)
  then show ?thesis unfolding zero_bundle_def
    by (intro res_map_all_Inr) (use bundle_rows_ok(3) [OF assms] in \<open>simp add: row_bytes_def\<close>)
qed

lemma hot_tensor_row:
  assumes "cfg_ok cfg" and "\<And>e. e \<in> set hot \<Longrightarrow> e < lc_experts cfg" and "key \<in> set (bundle_keys cfg)" and "i \<le> length hot"
  shows "stack_row (hot_tensor cfg hot key) i =
    (if i < length hot then expert_tensor cfg (hot ! i) key
     else \<lparr>tdtype = part_dtype (snd key), tshape = row_shape cfg key, tdata = replicate (row_bytes cfg key) 0\<rparr>)"
proof -
  have "stack_row \<lparr>tdtype = part_dtype (snd key),
      tshape = length (map (row_of cfg key) hot @ [replicate (row_bytes cfg key) 0]) # row_shape cfg key,
      tdata = concat (map (row_of cfg key) hot @ [replicate (row_bytes cfg key) 0])\<rparr> i =
    \<lparr>tdtype = part_dtype (snd key), tshape = row_shape cfg key,
      tdata = (map (row_of cfg key) hot @ [replicate (row_bytes cfg key) 0]) ! i\<rparr>"
    by (rule stack_row_concat [OF hot_rows_uniform [OF assms(1,3), of hot]]) (use assms(2,4) in auto)
  then show ?thesis using assms(4) by (simp add: hot_tensor_def expert_tensor_def nth_append del: concat_append)
qed

text \<open>
  The materialised hot window. Row \<open>i\<close> of every materialised tensor is the tensor of the
  \<open>i\<close>-th resident expert, and the extra last row (the overflow row that misses are sent to) is all
  zero, so it contributes nothing.
\<close>

theorem materialized_rows:
  assumes ok: "cfg_ok cfg" and hot: "\<forall>e \<in> set hot. e < lc_experts cfg" and key: "key \<in> set (bundle_keys cfg)"
  shows "\<exists>w s z. materialize cfg (hot_stack_of cfg hot) = Inr w \<and> map_of w key = Some s \<and>
    zero_bundle cfg = Inr z \<and>
    (\<forall>i < length hot. stack_row s i = expert_tensor cfg (hot ! i) key) \<and>
    Some (stack_row s (length hot)) = map_of z key"
proof -
  have lt: "\<And>e. e \<in> set hot \<Longrightarrow> e < lc_experts cfg" using hot by blast
  let ?z = "\<lambda>k. \<lparr>tdtype = part_dtype (snd k), tshape = row_shape cfg k, tdata = replicate (row_bytes cfg k) 0\<rparr>"
  have "map_of (map (\<lambda>key. (key, hot_tensor cfg hot key)) (bundle_keys cfg)) key = Some (hot_tensor cfg hot key)"
    by (rule map_of_map_keys [OF key])
  then show ?thesis
    using materialize_ok [OF ok lt] zero_bundle_ok [OF ok] hot_tensor_row [where hot = hot, OF ok lt key]
      map_of_map_keys [OF key, of ?z] by simp
qed

theorem materialized_rows_witness:
  "\<exists>w s z. materialize demo_cfg (hot_stack_of demo_cfg [1, 0]) = Inr w \<and>
    map_of w (DownProj, Weight) = Some s \<and> zero_bundle demo_cfg = Inr z \<and>
    Some (stack_row s 2) = map_of z (DownProj, Weight)"
  using materialized_rows [OF demo_cfg_ok, of "[1, 0]" "(DownProj, Weight)"]
  by (auto simp: demo_fields bundle_keys_def all_parts_def numeral_2_eq_2)

end
