(* ===== verification/Expert_Cache.thy ===== *)
theory Expert_Cache
  imports Prelude
begin

text \<open>
  \<open>edge0/streaming/cache.py\<close>: the global LRU of expert bundles (\<open>SharedExpertCache\<close>) and the staging
  area of prefetched bundles (\<open>PrefetchBuffer\<close>). Both hold an \<open>OrderedDict\<close> behind a lock; every
  method is one critical section, so a method is one function on the state. The locale
  \<open>bundle_store\<close> is the contract the streaming layer relies on; both classes interpret it.
\<close>

section \<open>The shared LRU\<close>

record ('k, 'b) cache =
  slots :: nat
  cdict :: "('k \<times> 'b) list"

definition cache_new :: "int \<Rightarrow> ('k, 'b) cache" where
  "cache_new n = \<lparr>slots = nat (max 0 n), cdict = []\<rparr>"

definition cache_get :: "('k, 'b) cache \<Rightarrow> 'k \<Rightarrow> 'b option \<times> ('k, 'b) cache" where
  "cache_get c k =
     (case map_of (cdict c) k of
        None \<Rightarrow> (None, c)
      | Some v \<Rightarrow> (Some v, c\<lparr>cdict := move_to_end k (cdict c)\<rparr>))"

definition cache_peek :: "('k, 'b) cache \<Rightarrow> 'k \<Rightarrow> 'b option" where
  "cache_peek c k = map_of (cdict c) k"

definition cache_put :: "'k \<Rightarrow> 'b \<Rightarrow> ('k, 'b) cache \<Rightarrow> ('k, 'b) cache" where
  "cache_put k b c =
     (let d = AList.update k b (cdict c)
      in c\<lparr>cdict := (if slots c > 0 \<and> length d > slots c then tl d else d)\<rparr>)"

definition cache_pop :: "'k \<Rightarrow> ('k, 'b) cache \<Rightarrow> 'b option \<times> ('k, 'b) cache" where
  "cache_pop k c = (map_of (cdict c) k, c\<lparr>cdict := AList.delete k (cdict c)\<rparr>)"

definition cache_size :: "('k, 'b) cache \<Rightarrow> nat" where
  "cache_size c = length (cdict c)"

definition cache_ok :: "('k, 'b) cache \<Rightarrow> bool" where
  "cache_ok c \<longleftrightarrow> dict_ok (cdict c) \<and> (slots c > 0 \<longrightarrow> length (cdict c) \<le> slots c)"

section \<open>The prefetch buffer\<close>

record ('k, 'b) pbuf =
  cap :: nat
  pdict :: "('k \<times> 'b) list"

definition pbuf_new :: "int \<Rightarrow> ('k, 'b) pbuf" where
  "pbuf_new n = \<lparr>cap = nat (max 0 n), pdict = []\<rparr>"

text \<open>\<open>put\<close> returns the evicted key, if any.\<close>

definition pbuf_put :: "'k \<Rightarrow> 'b \<Rightarrow> ('k, 'b) pbuf \<Rightarrow> 'k option \<times> ('k, 'b) pbuf" where
  "pbuf_put k b p =
     (let d = AList.update k b (pdict p)
      in if cap p > 0 \<and> length d > cap p
         then (Some (fst (hd d)), p\<lparr>pdict := tl d\<rparr>)
         else (None, p\<lparr>pdict := d\<rparr>))"

definition pbuf_pop :: "'k \<Rightarrow> ('k, 'b) pbuf \<Rightarrow> 'b option \<times> ('k, 'b) pbuf" where
  "pbuf_pop k p = (map_of (pdict p) k, p\<lparr>pdict := AList.delete k (pdict p)\<rparr>)"

definition pbuf_contains :: "('k, 'b) pbuf \<Rightarrow> 'k \<Rightarrow> bool" where
  "pbuf_contains p k \<longleftrightarrow> map_of (pdict p) k \<noteq> None"

definition pbuf_set_cap :: "int \<Rightarrow> ('k, 'b) pbuf \<Rightarrow> ('k, 'b) pbuf" where
  "pbuf_set_cap n p = p\<lparr>cap := nat (max 0 n)\<rparr>"

definition pbuf_ok :: "('k, 'b) pbuf \<Rightarrow> bool" where
  "pbuf_ok p \<longleftrightarrow> dict_ok (pdict p) \<and> (cap p > 0 \<longrightarrow> length (pdict p) \<le> cap p)"

section \<open>The contract of a bundle store\<close>

text \<open>
  What the layer relies on: a bundle just stored is found (with its value) unless it is removed;
  storing one key never changes the value another key is found with (it may only drop that key);
  and each operation keeps the store's own invariant.
\<close>

locale bundle_store =
  fixes lookup :: "'s \<Rightarrow> 'k \<Rightarrow> 'b option"
    and put :: "'k \<Rightarrow> 'b \<Rightarrow> 's \<Rightarrow> 's"
    and pop :: "'k \<Rightarrow> 's \<Rightarrow> 's"
    and ok :: "'s \<Rightarrow> bool"
  assumes lookup_put_same: "ok s \<Longrightarrow> lookup (put k b s) k = Some b"
    and lookup_put_other: "ok s \<Longrightarrow> k' \<noteq> k \<Longrightarrow>
      lookup (put k b s) k' = lookup s k' \<or> lookup (put k b s) k' = None"
    and lookup_pop: "ok s \<Longrightarrow> lookup (pop k s) k' = (if k' = k then None else lookup s k')"
    and ok_put: "ok s \<Longrightarrow> ok (put k b s)"
    and ok_pop: "ok s \<Longrightarrow> ok (pop k s)"
begin

text \<open>A store is coherent with a builder when every bundle it returns is the one a build gives.\<close>

definition coherent :: "('k \<Rightarrow> 'b) \<Rightarrow> 's \<Rightarrow> bool" where
  "coherent f s \<longleftrightarrow> (\<forall>k b. lookup s k = Some b \<longrightarrow> b = f k)"

lemma coherentD: "coherent f s \<Longrightarrow> lookup s k = Some b \<Longrightarrow> b = f k"
  by (simp add: coherent_def)

lemma coherent_put: "ok s \<Longrightarrow> coherent f s \<Longrightarrow> coherent f (put k (f k) s)"
  unfolding coherent_def
  by (metis lookup_put_other lookup_put_same option.distinct(1) option.inject)

lemma coherent_pop: "ok s \<Longrightarrow> coherent f s \<Longrightarrow> coherent f (pop k s)"
  by (simp add: coherent_def lookup_pop)

lemma coherent_puts:
  "ok s \<Longrightarrow> coherent f s \<Longrightarrow>
     ok (fold (\<lambda>k. put k (f k)) ks s) \<and> coherent f (fold (\<lambda>k. put k (f k)) ks s)"
  by (induction ks arbitrary: s) (simp_all add: ok_put coherent_put)

end

lemma update_longer:
  "length (AList.update k b d) > n \<Longrightarrow> length d \<le> n \<Longrightarrow>
     AList.update k b d = d @ [(k, b)] \<and> k \<notin> set (keys_of d) \<and> length d = n"
  by (induction d arbitrary: n) (auto simp: length_update keys_of_def split: if_splits)

lemma keys_of_update_new: "k \<notin> set (keys_of d) \<Longrightarrow> AList.update k b d = d @ [(k, b)]"
  by (induction d) (auto simp: keys_of_def)

lemma hd_update_new:
  "length (AList.update k b d) > n \<Longrightarrow> length d \<le> n \<Longrightarrow> 0 < n \<Longrightarrow> fst (hd (AList.update k b d)) \<noteq> k"
  by (drule (1) update_longer) (auto simp: keys_of_def hd_append)

lemma evict_lookup:
  assumes "dict_ok d" and "0 < n \<longrightarrow> length d \<le> n"
    and "d' = (if 0 < n \<and> length (AList.update k b d) > n
               then tl (AList.update k b d) else AList.update k b d)"
  shows "map_of d' k = Some b"
    and "k' \<noteq> k \<Longrightarrow> map_of d' k' = map_of d k' \<or> map_of d' k' = None"
    and "dict_ok d'" and "0 < n \<longrightarrow> length d' \<le> n"
proof -
  let ?u = "AList.update k b d"
  have u: "dict_ok ?u" using assms(1) by simp
  have tl: "0 < n \<and> length ?u > n \<Longrightarrow> map_of (tl ?u) = (map_of ?u)(fst (hd ?u) := None) \<and> fst (hd ?u) \<noteq> k"
    using assms(2) u by (auto simp: map_of_tl hd_update_new simp del: map_of_update)
  show "map_of d' k = Some b" using assms(3) tl by auto
  show "k' \<noteq> k \<Longrightarrow> map_of d' k' = map_of d k' \<or> map_of d' k' = None" using assms(3) tl by auto
  show "dict_ok d'" using assms(3) u by simp
  show "0 < n \<longrightarrow> length d' \<le> n"
    using assms(2,3) by (auto simp: length_update)
qed

section \<open>Both classes meet the contract\<close>

lemma cache_put_peek_same: "cache_ok c \<Longrightarrow> cache_peek (cache_put k b c) k = Some b"
  using evict_lookup(1) [of "cdict c" "slots c" _ k b, OF _ _ refl]
  by (simp add: cache_ok_def cache_peek_def cache_put_def Let_def)

lemma cache_put_peek_other:
  "cache_ok c \<Longrightarrow> k' \<noteq> k \<Longrightarrow>
     cache_peek (cache_put k b c) k' = cache_peek c k' \<or> cache_peek (cache_put k b c) k' = None"
  using evict_lookup(2) [of "cdict c" "slots c" _ k b k', OF _ _ refl]
  by (simp add: cache_ok_def cache_peek_def cache_put_def Let_def)

lemma cache_ok_put: "cache_ok c \<Longrightarrow> cache_ok (cache_put k b c)"
  using evict_lookup(3,4) [of "cdict c" "slots c" _ k b, OF _ _ refl]
  by (simp add: cache_ok_def cache_put_def Let_def)

lemma cache_pop_peek: "cache_peek (snd (cache_pop k c)) k' = (if k' = k then None else cache_peek c k')"
  by (simp add: cache_peek_def cache_pop_def)

lemma cache_ok_pop: "cache_ok c \<Longrightarrow> cache_ok (snd (cache_pop k c))"
  by (auto simp: cache_ok_def cache_pop_def intro: order_trans [OF length_delete_le])

interpretation shared: bundle_store cache_peek cache_put "\<lambda>k c. snd (cache_pop k c)" cache_ok
  by unfold_locales
    (simp_all add: cache_put_peek_same cache_put_peek_other cache_ok_put cache_pop_peek cache_ok_pop)

lemma pbuf_put_lookup_same: "pbuf_ok p \<Longrightarrow> map_of (pdict (snd (pbuf_put k b p))) k = Some b"
  using evict_lookup(1) [of "pdict p" "cap p" _ k b, OF _ _ refl]
  by (auto simp: pbuf_ok_def pbuf_put_def Let_def split: if_splits)

lemma pbuf_put_lookup_other:
  "pbuf_ok p \<Longrightarrow> k' \<noteq> k \<Longrightarrow> map_of (pdict (snd (pbuf_put k b p))) k' = map_of (pdict p) k' \<or>
     map_of (pdict (snd (pbuf_put k b p))) k' = None"
  using evict_lookup(2) [of "pdict p" "cap p" _ k b k', OF _ _ refl]
  by (auto simp: pbuf_ok_def pbuf_put_def Let_def split: if_splits)

lemma pbuf_ok_put: "pbuf_ok p \<Longrightarrow> pbuf_ok (snd (pbuf_put k b p))"
  using evict_lookup(3,4) [of "pdict p" "cap p" _ k b, OF _ _ refl]
  by (auto simp: pbuf_ok_def pbuf_put_def Let_def split: if_splits)

lemma pbuf_pop_lookup: "map_of (pdict (snd (pbuf_pop k p))) k' = (if k' = k then None else map_of (pdict p) k')"
  by (simp add: pbuf_pop_def)

lemma pbuf_ok_pop: "pbuf_ok p \<Longrightarrow> pbuf_ok (snd (pbuf_pop k p))"
  by (auto simp: pbuf_ok_def pbuf_pop_def intro: order_trans [OF length_delete_le])

interpretation prefetched: bundle_store
  "\<lambda>p k. map_of (pdict p) k" "\<lambda>k b p. snd (pbuf_put k b p)" "\<lambda>k p. snd (pbuf_pop k p)" pbuf_ok
  by unfold_locales
    (simp_all add: pbuf_put_lookup_same pbuf_put_lookup_other pbuf_ok_put pbuf_pop_lookup pbuf_ok_pop)

section \<open>Recency\<close>

text \<open>The operations the layers issue on the shared cache, as a trace.\<close>

datatype ('k, 'b) cache_op = CGet 'k | CPut 'k 'b | CPop 'k | CPeek 'k

fun cache_step :: "('k, 'b) cache_op \<Rightarrow> ('k, 'b) cache \<Rightarrow> ('k, 'b) cache" where
  "cache_step (CGet k) c = snd (cache_get c k)"
| "cache_step (CPut k b) c = cache_put k b c"
| "cache_step (CPop k) c = snd (cache_pop k c)"
| "cache_step (CPeek k) c = c"

fun op_key :: "('k, 'b) cache_op \<Rightarrow> 'k" where
  "op_key (CGet k) = k"
| "op_key (CPut k b) = k"
| "op_key (CPop k) = k"
| "op_key (CPeek k) = k"

lemma slots_cache_step [simp]: "slots (cache_step a c) = slots c"
  by (cases a) (auto simp: cache_get_def cache_put_def cache_pop_def Let_def split: option.splits)

lemma cache_ok_get: "cache_ok c \<Longrightarrow> cache_ok (snd (cache_get c k))"
  by (auto simp: cache_ok_def cache_get_def split: option.splits)

lemma cache_ok_step: "cache_ok c \<Longrightarrow> cache_ok (cache_step a c)"
  by (cases a) (simp_all add: cache_ok_get cache_ok_put cache_ok_pop)

lemma cache_peek_get [simp]: "cache_peek (snd (cache_get c k)) = cache_peek c"
  by (auto simp: cache_peek_def cache_get_def fun_eq_iff split: option.splits)

lemma fst_cache_get [simp]: "fst (cache_get c k) = cache_peek c k"
  by (auto simp: cache_peek_def cache_get_def split: option.splits)

lemma slots_cache_get [simp]: "slots (snd (cache_get c k)) = slots c"
  by (auto simp: cache_get_def split: option.splits)

text \<open>The keys that stand behind \<open>k\<close> in the eviction order.\<close>

fun behind :: "'k \<Rightarrow> 'k list \<Rightarrow> 'k list" where
  "behind k [] = []"
| "behind k (x # xs) = (if x = k then xs else behind k xs)"

lemma behind_append_new: "k \<in> set xs \<Longrightarrow> behind k (xs @ ys) = behind k xs @ ys"
  by (induction xs) auto

lemma behind_filter:
  "k' \<noteq> k \<Longrightarrow> behind k (filter (\<lambda>x. x \<noteq> k') xs) = filter (\<lambda>x. x \<noteq> k') (behind k xs)"
  by (induction xs) auto

lemma set_behind: "set (behind k xs) \<subseteq> set xs"
  by (induction xs) auto

lemma behind_notin: "k \<notin> set xs \<Longrightarrow> behind k xs = []"
  by (induction xs) auto

lemma behind_last: "k \<notin> set xs \<Longrightarrow> behind k (xs @ [k]) = []"
  by (induction xs) auto

lemma distinct_behind: "distinct xs \<Longrightarrow> distinct (behind k xs)"
  by (induction xs) auto

lemma keys_of_tl: "keys_of (tl d) = tl (keys_of d)"
  by (simp add: keys_of_def map_tl)

lemma keys_cache_put:
  "keys_of (cdict (cache_put k b c)) =
     (let ks = (if k \<in> set (keys_of (cdict c)) then keys_of (cdict c) else keys_of (cdict c) @ [k])
      in if slots c > 0 \<and> length ks > slots c then tl ks else ks)"
  by (simp add: cache_put_def Let_def keys_of_tl keys_of_update length_update)

text \<open>
  The invariant behind the recency guarantee: the key is present, and every key behind it in the
  eviction order has been touched since.
\<close>

definition fresh_for :: "'k \<Rightarrow> 'k set \<Rightarrow> ('k, 'b) cache \<Rightarrow> bool" where
  "fresh_for k T c \<longleftrightarrow> k \<in> set (keys_of (cdict c)) \<and> set (behind k (keys_of (cdict c))) \<subseteq> T"

lemma fresh_for_get:
  assumes "fresh_for k T c" and "dict_ok (cdict c)"
  shows "fresh_for k (insert k' T) (snd (cache_get c k'))"
proof (cases "k' \<in> set (keys_of (cdict c))")
  case False
  then show ?thesis using assms
    by (auto simp: cache_get_def fresh_for_def simp flip: map_of_None_keys)
next
  case True
  then obtain v where v: "map_of (cdict c) k' = Some v" using map_of_None_keys by fastforce
  have ks: "keys_of (cdict (snd (cache_get c k'))) = filter (\<lambda>x. x \<noteq> k') (keys_of (cdict c)) @ [k']"
    using v True by (simp add: cache_get_def keys_of_move_to_end)
  show ?thesis
  proof (cases "k' = k")
    case True
    have "set (behind k (filter (\<lambda>x. x \<noteq> k) (keys_of (cdict c)) @ [k])) = {}"
      by (subst behind_last) simp_all
    then show ?thesis using ks True by (simp add: fresh_for_def)
  next
    case False
    then show ?thesis using assms by (auto simp: fresh_for_def ks behind_append_new behind_filter)
  qed
qed

lemma behind_tl:
  "k \<in> set xs \<Longrightarrow> xs \<noteq> [] \<Longrightarrow> hd xs \<noteq> k \<Longrightarrow> behind k (tl xs) = behind k xs \<and> k \<in> set (tl xs)"
  by (cases xs) auto

lemma behind_hd: "xs \<noteq> [] \<Longrightarrow> hd xs = k \<Longrightarrow> behind k xs = tl xs"
  by (cases xs) auto

lemma fresh_for_put:
  assumes f: "fresh_for k T c" and ok: "cache_ok c" and fin: "finite T"
    and few: "slots c > 0 \<longrightarrow> card (insert k' T - {k}) < slots c"
  shows "fresh_for k (insert k' T) (cache_put k' b c)"
proof -
  define us where "us = (if k' \<in> set (keys_of (cdict c)) then keys_of (cdict c) else keys_of (cdict c) @ [k'])"
  have put: "keys_of (cdict (cache_put k' b c)) = (if slots c > 0 \<and> length us > slots c then tl us else us)"
    by (simp add: keys_cache_put us_def Let_def)
  have d: "distinct us" using ok by (simp add: cache_ok_def dict_ok_def us_def)
  have us: "k \<in> set us" "set (behind k us) \<subseteq> insert k' T"
    using f by (auto simp: fresh_for_def behind_append_new us_def)
  show ?thesis
  proof (cases "slots c > 0 \<and> length us > slots c")
    case False
    then have "keys_of (cdict (cache_put k' b c)) = us" using put by metis
    then show ?thesis using us by (simp add: fresh_for_def)
  next
    case True
    have ne: "us \<noteq> []" using us(1) by auto
    have "hd us \<noteq> k"
    proof
      assume h: "hd us = k"
      have t: "behind k us = tl us" by (rule behind_hd [OF ne h])
      have k: "k \<notin> set (tl us)" using d h ne by (cases us) auto
      have "set (tl us) \<subseteq> insert k' T - {k}" using us(2) t k by auto
      then have "card (set (tl us)) \<le> card (insert k' T - {k})"
        by (rule card_mono [rotated]) (use fin in simp)
      moreover have "card (set (tl us)) = length us - 1"
        using d by (simp add: distinct_card distinct_tl)
      ultimately show False using True few by auto
    qed
    then show ?thesis using us True put behind_tl [OF us(1) ne]
      by (simp add: fresh_for_def)
  qed
qed

lemma fresh_for_pop:
  "fresh_for k T c \<Longrightarrow> k' \<noteq> k \<Longrightarrow> fresh_for k (insert k' T) (snd (cache_pop k' c))"
  by (auto simp: fresh_for_def cache_pop_def keys_of_delete behind_filter)

lemma fresh_for_trace:
  assumes "fresh_for k T c" and "cache_ok c" and "finite T" and "CPop k \<notin> set ops"
    and "slots c > 0 \<longrightarrow> card (T \<union> op_key ` set ops - {k}) < slots c"
  shows "fresh_for k (T \<union> op_key ` set ops) (fold cache_step ops c)"
  using assms
proof (induction ops arbitrary: T c)
  case Nil
  then show ?case by simp
next
  case (Cons a ops)
  let ?T = "insert (op_key a) T"
  have eq: "T \<union> op_key ` set (a # ops) = ?T \<union> op_key ` set ops" by auto
  have le: "card (?T - {k}) \<le> card (?T \<union> op_key ` set ops - {k})"
    by (rule card_mono) (use Cons.prems(3) in auto)
  have few: "slots c > 0 \<longrightarrow> card (?T - {k}) < slots c"
    using Cons.prems(5) le unfolding eq by linarith
  have "fresh_for k ?T (cache_step a c)"
  proof (cases a)
    case (CGet k')
    then show ?thesis using fresh_for_get [OF Cons.prems(1), of k'] Cons.prems(2) by (simp add: cache_ok_def)
  next
    case (CPut k' b)
    then show ?thesis using fresh_for_put [OF Cons.prems(1-3)] few by simp
  next
    case (CPop k')
    then show ?thesis using fresh_for_pop [OF Cons.prems(1)] Cons.prems(4) by auto
  next
    case (CPeek k')
    then show ?thesis using Cons.prems(1) by (auto simp: fresh_for_def)
  qed
  then have "fresh_for k (?T \<union> op_key ` set ops) (fold cache_step ops (cache_step a c))"
    by (rule Cons.IH) (use Cons.prems eq in \<open>auto simp: cache_ok_step\<close>)
  then show ?case using eq by simp
qed

lemma fresh_for_hit:
  assumes "cache_peek c k = Some b"
  shows "fresh_for k {} (snd (cache_get c k))"
proof -
  have k: "k \<in> set (keys_of (cdict c))" using assms by (simp add: cache_peek_def map_of_Some_keys)
  have "keys_of (cdict (snd (cache_get c k))) = filter (\<lambda>x. x \<noteq> k) (keys_of (cdict c)) @ [k]"
    using assms k by (simp add: cache_get_def cache_peek_def keys_of_move_to_end)
  moreover have "behind k (filter (\<lambda>x. x \<noteq> k) (keys_of (cdict c)) @ [k]) = []"
    by (rule behind_last) simp
  ultimately show ?thesis by (simp add: fresh_for_def)
qed

text \<open>
  Least-recently-used retention. After a hit on a key, the shared cache still holds that key
  as long as fewer than \<open>slots\<close> other keys have been touched since (by any mix of gets, puts, peeks
  and pops of other keys): a layer cannot evict another layer's just-used expert until a whole
  budget of other experts has gone by.
\<close>

theorem lru_keeps_recent_hit:
  assumes "cache_ok c" and "cache_peek c k = Some b" and "CPop k \<notin> set ops"
    and "slots c > 0 \<longrightarrow> card (op_key ` set ops - {k}) < slots c"
  shows "cache_peek (fold cache_step ops (snd (cache_get c k))) k \<noteq> None"
proof -
  have "fresh_for k ({} \<union> op_key ` set ops) (fold cache_step ops (snd (cache_get c k)))"
    by (rule fresh_for_trace)
      (use assms in \<open>simp_all add: fresh_for_hit cache_ok_get\<close>)
  then show ?thesis by (simp add: fresh_for_def cache_peek_def map_of_None_keys)
qed

definition demo_cache :: "(nat, nat) cache" where
  "demo_cache = \<lparr>slots = 2, cdict = [(1, 10), (2, 20)]\<rparr>"

theorem lru_keeps_recent_hit_witness:
  "cache_peek (fold cache_step [CPut 3 30, CGet 3] (snd (cache_get demo_cache 1))) 1 \<noteq> None"
  by (rule lru_keeps_recent_hit [of _ _ 10])
    (simp_all add: demo_cache_def cache_ok_def dict_ok_def keys_of_def cache_peek_def)

lemma slots_fold [simp]: "slots (fold cache_step ops c) = slots c"
  by (induction ops arbitrary: c) simp_all

lemma cache_ok_fold: "cache_ok c \<Longrightarrow> cache_ok (fold cache_step ops c)"
  by (induction ops arbitrary: c) (simp_all add: cache_ok_step)

lemma cache_ok_new [simp]: "cache_ok (cache_new n)"
  by (simp add: cache_ok_def cache_new_def)

text \<open>
  The memory budget. Whatever trace of operations the layers issue against a cache created
  with \<open>slots = n > 0\<close>, it never holds more than \<open>n\<close> bundles, and its keys stay distinct.
\<close>

theorem cache_within_budget:
  assumes "0 < n"
  shows "cache_size (fold cache_step ops (cache_new n)) \<le> nat n \<and>
    dict_ok (cdict (fold cache_step ops (cache_new n)))"
proof -
  have "cache_ok (fold cache_step ops (cache_new n))" by (rule cache_ok_fold) simp
  then show ?thesis using assms by (simp add: cache_ok_def cache_size_def) (simp add: cache_new_def)
qed

theorem cache_within_budget_witness:
  "cache_size (fold cache_step [CPut 5 6, CPut 6 7, CPut (7 :: nat) (8 :: nat)] (cache_new 2)) \<le> nat 2"
  by (rule cache_within_budget [THEN conjunct1]) simp

text \<open>The staging area: \<open>put\<close> names exactly the key it drops, and keeps every other one.\<close>

lemma pbuf_put_evicted:
  assumes "pbuf_ok p"
  shows "set (keys_of (pdict (snd (pbuf_put k b p)))) =
    insert k (set (keys_of (pdict p))) - set_option (fst (pbuf_put k b p))"
proof -
  let ?d = "AList.update k b (pdict p)"
  have s: "set (keys_of ?d) = insert k (set (keys_of (pdict p)))" by (auto simp: keys_of_update)
  have d: "distinct (keys_of ?d)" using assms by (simp add: pbuf_ok_def flip: dict_ok_def)
  have ne: "keys_of ?d \<noteq> []" using s by auto
  have "set (tl (keys_of ?d)) = set (keys_of ?d) - {hd (keys_of ?d)}"
    using d ne by (cases "keys_of ?d") auto
  moreover have "hd (keys_of ?d) = fst (hd ?d)" using ne by (simp add: keys_of_def hd_map)
  ultimately show ?thesis using s by (simp add: pbuf_put_def Let_def keys_of_tl)
qed

text \<open>
  A capacity change of the prefetch buffer is not enforced on what it already holds:
  \<open>set_cap\<close> to a smaller positive capacity keeps every entry, and a following \<open>put\<close> of a new key
  drops one entry only, so the buffer stays above its capacity by as much as before.
\<close>

theorem pbuf_set_cap_does_not_shrink:
  assumes "0 < n" and "nat n < length (pdict p)" and "k \<notin> set (keys_of (pdict p))"
  shows "length (pdict (snd (pbuf_put k b (pbuf_set_cap n p)))) = length (pdict p) \<and>
    cap (snd (pbuf_put k b (pbuf_set_cap n p))) < length (pdict (snd (pbuf_put k b (pbuf_set_cap n p))))"
  using assms by (simp add: pbuf_put_def pbuf_set_cap_def Let_def length_update)

theorem pbuf_set_cap_does_not_shrink_witness:
  "length (pdict (snd (pbuf_put 4 40
     (pbuf_set_cap 1 \<lparr>cap = 3, pdict = [(1 :: nat, 10 :: nat), (2, 20), (3, 30)]\<rparr>)))) = 3"
  using pbuf_set_cap_does_not_shrink [of 1 "\<lparr>cap = 3, pdict = [(1 :: nat, 10 :: nat), (2, 20), (3, 30)]\<rparr>" 4 40]
  by (simp add: keys_of_def)

end
