(* ===== verification/Layer_Options.thy ===== *)
theory Layer_Options
  imports Prelude
begin

text \<open>
  \<open>edge0/streaming/options.py\<close>: the knobs of one streaming MoE layer and the tier presets. A preset
  is a keyword call \<open>cls(a=..., **overrides)\<close>: an override of a keyword the preset already passes is
  Python's \<open>TypeError\<close> (multiple values for an argument), and so is an unknown keyword.
\<close>

record layer_options =
  staged :: bool
  staged_replace :: bool
  staged_n :: int
  staged_trigger :: int
  staged_sync :: bool
  asm_cache :: bool
  incr_stack :: bool
  incr_writeback :: bool
  history_prefetch :: bool
  hot_per_layer :: int
  hot_update_interval :: int
  hot_decay :: real
  pin_bonus :: real
  cache_slots :: int
  prefetch_cap :: int
  load_threads :: int
  prefetch_threads :: int
  use_compile :: bool
  opt_top_k :: "int option"
  full_layer_prefill :: bool
  prefill_full_layers :: int
  prefill_hot :: int
  warm_willneed :: bool

definition default_options :: layer_options where
  "default_options = \<lparr>
     staged = False, staged_replace = False, staged_n = 8, staged_trigger = 8, staged_sync = True,
     asm_cache = True, incr_stack = False, incr_writeback = False, history_prefetch = True,
     hot_per_layer = 0, hot_update_interval = 4, hot_decay = 3/4, pin_bonus = 2,
     cache_slots = 64, prefetch_cap = 48, load_threads = 8, prefetch_threads = 4,
     use_compile = True, opt_top_k = None, full_layer_prefill = False, prefill_full_layers = 0,
     prefill_hot = 0, warm_willneed = False\<rparr>"

datatype option_name =
    NStaged | NStagedReplace | NStagedN | NStagedTrigger | NStagedSync | NAsmCache | NIncrStack
  | NIncrWriteback | NHistoryPrefetch | NHotPerLayer | NHotUpdateInterval | NHotDecay | NPinBonus
  | NCacheSlots | NPrefetchCap | NLoadThreads | NPrefetchThreads | NUseCompile | NTopK
  | NFullLayerPrefill | NPrefillFullLayers | NPrefillHot | NWarmWillneed | NUnknown string

text \<open>One entry of \<open>**overrides\<close>: the keyword and its value.\<close>

datatype opt_value = VBool bool | VInt int | VReal real | VOptInt "int option"

type_synonym override = "option_name \<times> opt_value"

text \<open>The field update a keyword argument makes (its value has the field's declared type).\<close>

fun set_option_field :: "override \<Rightarrow> layer_options \<Rightarrow> layer_options" where
  "set_option_field (NStaged, VBool b) o' = o'\<lparr>staged := b\<rparr>"
| "set_option_field (NStagedReplace, VBool b) o' = o'\<lparr>staged_replace := b\<rparr>"
| "set_option_field (NStagedN, VInt n) o' = o'\<lparr>staged_n := n\<rparr>"
| "set_option_field (NStagedTrigger, VInt n) o' = o'\<lparr>staged_trigger := n\<rparr>"
| "set_option_field (NStagedSync, VBool b) o' = o'\<lparr>staged_sync := b\<rparr>"
| "set_option_field (NAsmCache, VBool b) o' = o'\<lparr>asm_cache := b\<rparr>"
| "set_option_field (NIncrStack, VBool b) o' = o'\<lparr>incr_stack := b\<rparr>"
| "set_option_field (NIncrWriteback, VBool b) o' = o'\<lparr>incr_writeback := b\<rparr>"
| "set_option_field (NHistoryPrefetch, VBool b) o' = o'\<lparr>history_prefetch := b\<rparr>"
| "set_option_field (NHotPerLayer, VInt n) o' = o'\<lparr>hot_per_layer := n\<rparr>"
| "set_option_field (NHotUpdateInterval, VInt n) o' = o'\<lparr>hot_update_interval := n\<rparr>"
| "set_option_field (NHotDecay, VReal r) o' = o'\<lparr>hot_decay := r\<rparr>"
| "set_option_field (NPinBonus, VReal r) o' = o'\<lparr>pin_bonus := r\<rparr>"
| "set_option_field (NCacheSlots, VInt n) o' = o'\<lparr>cache_slots := n\<rparr>"
| "set_option_field (NPrefetchCap, VInt n) o' = o'\<lparr>prefetch_cap := n\<rparr>"
| "set_option_field (NLoadThreads, VInt n) o' = o'\<lparr>load_threads := n\<rparr>"
| "set_option_field (NPrefetchThreads, VInt n) o' = o'\<lparr>prefetch_threads := n\<rparr>"
| "set_option_field (NUseCompile, VBool b) o' = o'\<lparr>use_compile := b\<rparr>"
| "set_option_field (NTopK, VOptInt n) o' = o'\<lparr>opt_top_k := n\<rparr>"
| "set_option_field (NFullLayerPrefill, VBool b) o' = o'\<lparr>full_layer_prefill := b\<rparr>"
| "set_option_field (NPrefillFullLayers, VInt n) o' = o'\<lparr>prefill_full_layers := n\<rparr>"
| "set_option_field (NPrefillHot, VInt n) o' = o'\<lparr>prefill_hot := n\<rparr>"
| "set_option_field (NWarmWillneed, VBool b) o' = o'\<lparr>warm_willneed := b\<rparr>"
| "set_option_field (_, _) o' = o'"

fun known_option :: "option_name \<Rightarrow> bool" where
  "known_option (NUnknown s) = False"
| "known_option _ = True"

text \<open>The keyword call: the preset's own keywords, then the overrides.\<close>

definition options_call :: "override list \<Rightarrow> override list \<Rightarrow> layer_options res" where
  "options_call given overrides =
     (if \<exists>n \<in> set (map fst overrides). n \<in> set (map fst given) \<or> \<not> known_option n
      then Inl TypeError
      else Inr (fold set_option_field (given @ overrides) default_options))"

definition staged_k4_given :: "override list" where
  "staged_k4_given =
     [(NStaged, VBool True), (NStagedReplace, VBool False), (NStagedN, VInt 4),
      (NStagedTrigger, VInt 4), (NStagedSync, VBool True), (NHistoryPrefetch, VBool True),
      (NIncrStack, VBool True), (NIncrWriteback, VBool True), (NWarmWillneed, VBool True),
      (NHotPerLayer, VInt 0), (NHotUpdateInterval, VInt 4), (NHotDecay, VReal (3/4)),
      (NCacheSlots, VInt 64), (NPrefetchCap, VInt 48), (NLoadThreads, VInt 8),
      (NPrefetchThreads, VInt 4), (NUseCompile, VBool True), (NTopK, VOptInt (Some 4)),
      (NFullLayerPrefill, VBool False), (NPrefillFullLayers, VInt 0), (NPrefillHot, VInt 32)]"

definition staged_k4 :: "override list \<Rightarrow> layer_options res" where
  "staged_k4 overrides = options_call staged_k4_given overrides"

definition staged_k8_given :: "override list" where
  "staged_k8_given =
     [(NStaged, VBool True), (NStagedReplace, VBool False), (NStagedN, VInt 8),
      (NStagedTrigger, VInt 8), (NStagedSync, VBool True), (NHistoryPrefetch, VBool True),
      (NHotPerLayer, VInt 0), (NCacheSlots, VInt 64), (NPrefetchCap, VInt 48),
      (NLoadThreads, VInt 8), (NPrefetchThreads, VInt 4), (NUseCompile, VBool True),
      (NTopK, VOptInt (Some 8)), (NFullLayerPrefill, VBool True), (NPrefillHot, VInt 0)]"

definition staged_k8 :: "override list \<Rightarrow> layer_options res" where
  "staged_k8 overrides = options_call staged_k8_given overrides"

definition prod_k8_given :: "override list" where
  "prod_k8_given =
     [(NStaged, VBool True), (NStagedReplace, VBool False), (NStagedN, VInt 8),
      (NStagedTrigger, VInt 8), (NStagedSync, VBool True), (NHistoryPrefetch, VBool False),
      (NHotPerLayer, VInt 0), (NCacheSlots, VInt 64), (NPrefetchCap, VInt 48),
      (NLoadThreads, VInt 8), (NPrefetchThreads, VInt 4), (NUseCompile, VBool True),
      (NTopK, VOptInt (Some 8)), (NFullLayerPrefill, VBool True), (NPrefillHot, VInt 0)]"

definition prod_k8 :: "override list \<Rightarrow> layer_options res" where
  "prod_k8 overrides = options_call prod_k8_given overrides"

definition for_layer :: "layer_options \<Rightarrow> int \<Rightarrow> layer_options" where
  "for_layer o' layer_idx = o'"

section \<open>What the presets give\<close>

lemma options_call_error_iff:
  "options_call given ovs = Inl TypeError \<longleftrightarrow>
     (\<exists>n \<in> set (map fst ovs). n \<in> set (map fst given) \<or> \<not> known_option n)"
  by (simp add: options_call_def)

lemma staged_k4_value:
  "staged_k4 [] = Inr (default_options\<lparr>staged := True, staged_n := 4, staged_trigger := 4,
     incr_stack := True, incr_writeback := True, warm_willneed := True,
     opt_top_k := Some 4, prefill_hot := 32\<rparr>)"
  by (simp add: staged_k4_def options_call_def staged_k4_given_def default_options_def)

lemma prod_k8_value:
  "prod_k8 [] = Inr (default_options\<lparr>staged := True, history_prefetch := False,
     opt_top_k := Some 8, full_layer_prefill := True\<rparr>)"
  by (simp add: prod_k8_def options_call_def prod_k8_given_def default_options_def)

lemma staged_k8_value:
  "staged_k8 [] = Inr (default_options\<lparr>staged := True, opt_top_k := Some 8, full_layer_prefill := True\<rparr>)"
  by (simp add: staged_k8_def options_call_def staged_k8_given_def default_options_def)

lemma preset_override_other:
  assumes "n \<notin> set (map fst given)" and "known_option n"
  shows "options_call given [(n, v)] =
    Inr (set_option_field (n, v) (fold set_option_field given default_options))"
  using assms by (simp add: options_call_def)

end
