(* ===== verification/Layer_State.thy ===== *)
theory Layer_State
  imports Hot_Stack Expert_Cache Layer_Options
begin

text \<open>
  The residency state of one \<open>StreamingSwitchGLU\<close> (\<open>edge0/streaming/layer.py\<close>): the pinned bundles,
  the frequency counts, the in-flight prefetches and the statistics, together with the shared LRU and
  the prefetch buffer as the layer sees them. \<open>_get_bundles\<close>, \<open>prefetch\<close>, \<open>prefetch_all\<close>,
  \<open>_on_prefetch_done\<close>, \<open>_refresh_hot_pins\<close>, \<open>stats\<close> are functions on that state; each part that the
  code runs under \<open>_lock\<close> is one function. A bundle is an abstract value \<open>'b\<close> and \<open>bld\<close> is the layer's
  own \<open>_build\<close> (\<open>layer_build\<close> below instantiates it); a future of the prefetch pool is the result its
  build has. Wall-clock statistics are left out.
\<close>

record lstats =
  n_loads :: nat
  n_hits :: nat
  n_pf_submitted :: nat
  n_pf_hits :: nat
  n_pf_wasted :: nat

record 'b layer =
  l_idx :: nat
  l_num :: nat
  l_hot_per_layer :: int
  l_decay :: real
  l_bonus :: real
  l_pinned :: "(nat \<times> 'b) list"
  l_counts :: "(nat \<times> real) list"
  l_predicted :: "nat list"
  l_inflight :: "(nat \<times> 'b res) list"
  l_cache :: "(nat \<times> nat, 'b) cache"
  l_pbuf :: "(nat \<times> nat, 'b) pbuf"
  l_last_used :: "nat list"
  l_stats :: lstats

text \<open>\<open>__init__\<close> on a cache and a buffer shared with the other layers, or on private ones.\<close>

definition layer_new ::
  "nat \<Rightarrow> nat \<Rightarrow> layer_options \<Rightarrow> (nat \<times> nat, 'b) cache option \<Rightarrow> (nat \<times> nat, 'b) pbuf option \<Rightarrow> 'b layer" where
  "layer_new idx n opts sc pb =
     \<lparr>l_idx = idx, l_num = n, l_hot_per_layer = hot_per_layer opts, l_decay = hot_decay opts,
      l_bonus = pin_bonus opts, l_pinned = [], l_counts = [], l_predicted = [], l_inflight = [],
      l_cache = (case sc of Some c \<Rightarrow> c | None \<Rightarrow> cache_new (cache_slots opts)),
      l_pbuf = (case pb of Some p \<Rightarrow> p | None \<Rightarrow> pbuf_new (prefetch_cap opts)),
      l_last_used = [],
      l_stats = \<lparr>n_loads = 0, n_hits = 0, n_pf_submitted = 0, n_pf_hits = 0, n_pf_wasted = 0\<rparr>\<rparr>"

text \<open>\<open>_build\<close> as the residency state sees it: the bundle is the dict it returns.\<close>

definition layer_build :: "layer_cfg \<Rightarrow> hot_stack option \<Rightarrow> nat \<Rightarrow> (proj \<times> part \<Rightarrow> tensor option) res" where
  "layer_build cfg hot e = res_bind (build_bundle cfg hot e) (\<lambda>b. Inr (map_of b))"

section \<open>Resolving bundles\<close>

text \<open>The update of \<open>_hot_counts\<close> that every miss and every prefetch hit makes.\<close>

definition touched :: "real \<Rightarrow> nat \<Rightarrow> (nat \<times> real) list \<Rightarrow> (nat \<times> real) list" where
  "touched d e cs = AList.update e ((case map_of cs e of None \<Rightarrow> 0 | Some c \<Rightarrow> c) * d + 1) cs"

definition touch_hot :: "nat \<Rightarrow> ('b, 'z) layer_scheme \<Rightarrow> ('b, 'z) layer_scheme" where
  "touch_hot e L = L\<lparr>l_counts := touched (l_decay L) e (l_counts L)\<rparr>"

definition put_shared :: "nat \<Rightarrow> 'b \<Rightarrow> ('b, 'z) layer_scheme \<Rightarrow> ('b, 'z) layer_scheme" where
  "put_shared e b L = L\<lparr>l_cache := cache_put (l_idx L, e) b (l_cache L)\<rparr>"

definition count_hit :: "('b, 'z) layer_scheme \<Rightarrow> ('b, 'z) layer_scheme" where
  "count_hit L = L\<lparr>l_stats := (l_stats L)\<lparr>n_hits := Suc (n_hits (l_stats L))\<rparr>\<rparr>"

definition count_pf_hit :: "('b, 'z) layer_scheme \<Rightarrow> ('b, 'z) layer_scheme" where
  "count_pf_hit L = L\<lparr>l_stats := (l_stats L)\<lparr>n_pf_hits := Suc (n_pf_hits (l_stats L)), n_hits := Suc (n_hits (l_stats L))\<rparr>\<rparr>"

definition count_load :: "('b, 'z) layer_scheme \<Rightarrow> ('b, 'z) layer_scheme" where
  "count_load L = L\<lparr>l_stats := (l_stats L)\<lparr>n_loads := Suc (n_loads (l_stats L))\<rparr>\<rparr>"

type_synonym 'b bundles = "(nat \<times> 'b option) list"

text \<open>
  The phases of \<open>_get_bundles\<close>: each takes the experts still missing and returns the bundles found
  so far and the experts that remain (a repeated expert is looked up again, as in the code).
\<close>

fun take_pinned :: "('b, 'z) layer_scheme \<Rightarrow> nat list \<Rightarrow> 'b bundles \<Rightarrow> nat list \<Rightarrow> 'b bundles \<times> nat list" where
  "take_pinned L [] bs missing = (bs, missing)"
| "take_pinned L (e # es) bs missing =
     (case map_of (l_pinned L) e of
        Some p \<Rightarrow> take_pinned L es (AList.update e (Some p) bs) missing
      | None \<Rightarrow> take_pinned L es (AList.update e None bs) (missing @ [e]))"

fun take_cached ::
  "nat list \<Rightarrow> 'b bundles \<Rightarrow> nat list \<Rightarrow> ('b, 'z) layer_scheme \<Rightarrow> 'b bundles \<times> nat list \<times> ('b, 'z) layer_scheme" where
  "take_cached [] bs still L = (bs, still, L)"
| "take_cached (e # es) bs still L =
     (case cache_get (l_cache L) (l_idx L, e) of
        (Some b, c) \<Rightarrow> take_cached es (AList.update e (Some b) bs) still (count_hit (L\<lparr>l_cache := c\<rparr>))
      | (None, c) \<Rightarrow> take_cached es bs (still @ [e]) (L\<lparr>l_cache := c\<rparr>))"

fun take_prefetched ::
  "nat list \<Rightarrow> 'b bundles \<Rightarrow> nat list \<Rightarrow> ('b, 'z) layer_scheme \<Rightarrow> 'b bundles \<times> nat list \<times> ('b, 'z) layer_scheme" where
  "take_prefetched [] bs resolved L = (bs, resolved, L)"
| "take_prefetched (e # es) bs resolved L =
     (case pbuf_pop (l_idx L, e) (l_pbuf L) of
        (Some b, p) \<Rightarrow> take_prefetched es (AList.update e (Some b) bs) (e # resolved)
                         (put_shared e b (touch_hot e (count_pf_hit (L\<lparr>l_pbuf := p\<rparr>))))
      | (None, p) \<Rightarrow> take_prefetched es bs resolved (L\<lparr>l_pbuf := p\<rparr>))"

text \<open>\<open>fut.result()\<close> waits for the build and re-raises what it raised.\<close>

fun take_inflight ::
  "nat list \<Rightarrow> 'b bundles \<Rightarrow> nat list \<Rightarrow> ('b, 'z) layer_scheme \<Rightarrow> ('b bundles \<times> nat list) res \<times> ('b, 'z) layer_scheme" where
  "take_inflight [] bs resolved L = (Inr (bs, resolved), L)"
| "take_inflight (e # es) bs resolved L =
     (case map_of (l_inflight L) e of
        None \<Rightarrow> take_inflight es bs resolved L
      | Some (Inl err) \<Rightarrow> (Inl err, L)
      | Some (Inr b) \<Rightarrow>
          take_inflight es (AList.update e (Some b) bs) (e # resolved)
            (put_shared e b (count_pf_hit (touch_hot e (L\<lparr>l_inflight := AList.delete e (l_inflight L)\<rparr>)))))"

definition loaded :: "nat \<Rightarrow> ('b, 'z) layer_scheme \<Rightarrow> ('b, 'z) layer_scheme" where
  "loaded e L = touch_hot e (count_load L)"

definition load_missing ::
  "(nat \<Rightarrow> 'b res) \<Rightarrow> nat list \<Rightarrow> 'b bundles \<Rightarrow> ('b, 'z) layer_scheme \<Rightarrow> 'b bundles res \<times> ('b, 'z) layer_scheme" where
  "load_missing bld missing bs L =
     (if missing = [] then (Inr bs, L)
      else case res_map bld missing of
        Inl err \<Rightarrow> (Inl err, L)
      | Inr built \<Rightarrow>
          (Inr (fold (\<lambda>(e, b). AList.update e (Some b)) (zip missing built) bs),
           fold (\<lambda>(e, b). put_shared e b) (zip missing built) (fold loaded missing L)))"

definition get_bundles ::
  "(nat \<Rightarrow> 'b res) \<Rightarrow> ('b, 'z) layer_scheme \<Rightarrow> nat list \<Rightarrow> 'b bundles res \<times> ('b, 'z) layer_scheme" where
  "get_bundles bld L experts =
     (case take_pinned L experts [] [] of (bs, missing) \<Rightarrow>
      case take_cached missing bs [] L of (bs, missing, L) \<Rightarrow>
      case take_prefetched missing bs [] L of (bs, resolved, L) \<Rightarrow>
      let missing = filter (\<lambda>e. e \<notin> set resolved) missing in
      case take_inflight missing bs [] L of
        (Inl err, L) \<Rightarrow> (Inl err, L)
      | (Inr (bs, resolved), L) \<Rightarrow>
          load_missing bld (filter (\<lambda>e. e \<notin> set resolved) missing) bs L)"

section \<open>Prefetching\<close>

definition is_resident :: "('b, 'z) layer_scheme \<Rightarrow> nat \<Rightarrow> bool" where
  "is_resident L e \<longleftrightarrow>
     map_of (l_pinned L) e \<noteq> None \<or> map_of (l_inflight L) e \<noteq> None \<or>
     cache_peek (l_cache L) (l_idx L, e) \<noteq> None \<or> pbuf_contains (l_pbuf L) (l_idx L, e)"

text \<open>
  \<open>prefetch\<close> returns the futures it submitted (the done callbacks are registered after the lock is
  released); an empty request returns before anything is counted.
\<close>

definition prefetch ::
  "(nat \<Rightarrow> 'b res) \<Rightarrow> nat list \<Rightarrow> ('b, 'z) layer_scheme \<Rightarrow> (nat \<times> 'b res) list \<times> ('b, 'z) layer_scheme" where
  "prefetch bld experts L =
     (let unique = uniq experts in
      if unique = [] then ([], L)
      else let missing = filter (\<lambda>e. \<not> is_resident L e) unique in
        (map (\<lambda>e. (e, bld e)) missing,
         L\<lparr>l_inflight := fold (\<lambda>e. AList.update e (bld e)) missing (l_inflight L),
           l_stats := (l_stats L)\<lparr>n_pf_submitted := n_pf_submitted (l_stats L) + length missing\<rparr>\<rparr>))"

definition prefetch_all ::
  "(nat \<Rightarrow> 'b res) \<Rightarrow> ('b, 'z) layer_scheme \<Rightarrow> (nat \<times> 'b res) list \<times> ('b, 'z) layer_scheme" where
  "prefetch_all bld L =
     (let n = l_num L;
          L = (if cap (l_pbuf L) < n + 32 then L\<lparr>l_pbuf := pbuf_set_cap (int n + 32) (l_pbuf L)\<rparr> else L)
      in prefetch bld [0..<n] L)"

text \<open>The done callback of one submitted future.\<close>

definition on_prefetch_done :: "nat \<Rightarrow> 'b res \<Rightarrow> ('b, 'z) layer_scheme \<Rightarrow> ('b, 'z) layer_scheme" where
  "on_prefetch_done e fut L =
     (let L = L\<lparr>l_inflight := AList.delete e (l_inflight L)\<rparr> in
      case fut of
        Inl _ \<Rightarrow> L
      | Inr b \<Rightarrow>
          if cache_peek (l_cache L) (l_idx L, e) \<noteq> None then L
          else case pbuf_put (l_idx L, e) b (l_pbuf L) of (evicted, p) \<Rightarrow>
            L\<lparr>l_pbuf := p,
              l_stats := (if evicted = None then l_stats L
                          else (l_stats L)\<lparr>n_pf_wasted := Suc (n_pf_wasted (l_stats L))\<rparr>)\<rparr>)"

section \<open>Hot pins\<close>

text \<open>
  \<open>_refresh_hot_pins\<close> iterates over Python sets, whose order the language leaves open: the model takes
  the enumeration of the candidates (\<open>cands\<close>) and of the target (\<open>order\<close>) as arguments.
\<close>

definition pin_score :: "('b, 'z) layer_scheme \<Rightarrow> nat \<Rightarrow> real" where
  "pin_score L e = (case map_of (l_counts L) e of None \<Rightarrow> 0 | Some c \<Rightarrow> c) +
     (if e \<in> set (l_predicted L) then l_bonus L else 0)"

definition pin_top :: "('b, 'z) layer_scheme \<Rightarrow> nat list \<Rightarrow> nat list" where
  "pin_top L cands =
     map fst (take (nat (l_hot_per_layer L))
       (sort_key (\<lambda>es. - snd es) (map (\<lambda>e. (e, pin_score L e)) cands)))"

fun pin_all :: "(nat \<Rightarrow> 'b res) \<Rightarrow> nat list \<Rightarrow> ('b, 'z) layer_scheme \<Rightarrow> unit res \<times> ('b, 'z) layer_scheme" where
  "pin_all bld [] L = (Inr (), L)"
| "pin_all bld (e # es) L =
     (case cache_pop (l_idx L, e) (l_cache L) of
        (Some b, c) \<Rightarrow> pin_all bld es (L\<lparr>l_cache := c, l_pinned := AList.update e b (l_pinned L)\<rparr>)
      | (None, c) \<Rightarrow>
          if map_of (l_pinned L) e \<noteq> None then pin_all bld es (L\<lparr>l_cache := c\<rparr>)
          else case bld e of
            Inl err \<Rightarrow> (Inl err, L\<lparr>l_cache := c\<rparr>)
          | Inr b \<Rightarrow> pin_all bld es (L\<lparr>l_cache := c, l_pinned := AList.update e b (l_pinned L)\<rparr>))"

text \<open>
  \<open>_refresh_hot_pins\<close> raises what a failed build raised; \<open>refresh_hot_pins\<close> swallows it and keeps what was
  pinned so far.
\<close>

definition refresh_pins_now ::
  "(nat \<Rightarrow> 'b res) \<Rightarrow> nat list \<Rightarrow> (nat list \<Rightarrow> nat list) \<Rightarrow> ('b, 'z) layer_scheme \<Rightarrow> unit res \<times> ('b, 'z) layer_scheme" where
  "refresh_pins_now bld cands order L =
     (if l_hot_per_layer L \<le> 0 then (Inr (), L)
      else let target = pin_top L cands in
        pin_all bld (order target) (L\<lparr>l_pinned := filter (\<lambda>(e, b). e \<in> set target) (l_pinned L)\<rparr>))"

definition refresh_hot_pins ::
  "(nat \<Rightarrow> 'b res) \<Rightarrow> nat list \<Rightarrow> (nat list \<Rightarrow> nat list) \<Rightarrow> ('b, 'z) layer_scheme \<Rightarrow> ('b, 'z) layer_scheme" where
  "refresh_hot_pins bld cands order L = snd (refresh_pins_now bld cands order L)"

text \<open>\<open>stats()\<close> adds the number of pinned experts and the size of the shared cache.\<close>

definition layer_stats :: "('b, 'z) layer_scheme \<Rightarrow> lstats \<times> nat \<times> nat" where
  "layer_stats L = (l_stats L, length (l_pinned L), cache_size (l_cache L))"

section \<open>Coherence\<close>

text \<open>
  \<open>f (i, e)\<close> is the bundle of expert \<open>e\<close> of layer \<open>i\<close>. A layer is coherent when everything it could
  answer a request from (pins, shared cache, prefetch buffer, in-flight builds) is that bundle.
\<close>

definition builds :: "(nat \<times> nat \<Rightarrow> 'b) \<Rightarrow> nat \<Rightarrow> nat \<Rightarrow> (nat \<Rightarrow> 'b res) \<Rightarrow> bool" where
  "builds f i n bld \<longleftrightarrow> (\<forall>e < n. \<forall>b. bld e = Inr b \<longrightarrow> b = f (i, e))"

definition layer_ok :: "(nat \<times> nat \<Rightarrow> 'b) \<Rightarrow> ('b, 'z) layer_scheme \<Rightarrow> bool" where
  "layer_ok f L \<longleftrightarrow>
     cache_ok (l_cache L) \<and> pbuf_ok (l_pbuf L) \<and>
     (\<forall>k b. cache_peek (l_cache L) k = Some b \<longrightarrow> b = f k) \<and>
     (\<forall>k b. map_of (pdict (l_pbuf L)) k = Some b \<longrightarrow> b = f k) \<and>
     (\<forall>e b. map_of (l_pinned L) e = Some b \<longrightarrow> b = f (l_idx L, e)) \<and>
     (\<forall>e b. map_of (l_inflight L) e = Some (Inr b) \<longrightarrow> b = f (l_idx L, e))"

text \<open>The first four conjuncts in the vocabulary of the store contract.\<close>

lemma layer_ok_stores:
  "layer_ok f L \<longleftrightarrow>
     cache_ok (l_cache L) \<and> pbuf_ok (l_pbuf L) \<and>
     shared.coherent f (l_cache L) \<and> prefetched.coherent f (l_pbuf L) \<and>
     (\<forall>e b. map_of (l_pinned L) e = Some b \<longrightarrow> b = f (l_idx L, e)) \<and>
     (\<forall>e b. map_of (l_inflight L) e = Some (Inr b) \<longrightarrow> b = f (l_idx L, e))"
  by (auto simp: layer_ok_def shared.coherent_def prefetched.coherent_def)

definition found :: "(nat \<times> nat \<Rightarrow> 'b) \<Rightarrow> nat \<Rightarrow> 'b bundles \<Rightarrow> nat \<Rightarrow> bool" where
  "found f i bs e \<longleftrightarrow> map_of bs e = Some (Some (f (i, e)))"

lemma found_update [simp]: "found f i (AList.update e (Some (f (i, e))) bs) e'  \<longleftrightarrow> e' = e \<or> found f i bs e'"
  by (auto simp: found_def)

lemma l_idx_simps [simp]:
  "l_idx (touch_hot e L) = l_idx L" "l_idx (put_shared e b L) = l_idx L" "l_idx (count_hit L) = l_idx L"
  "l_idx (count_pf_hit L) = l_idx L" "l_idx (loaded e L) = l_idx L" "l_idx (count_load L) = l_idx L"
  by (simp_all add: touch_hot_def put_shared_def count_hit_def count_pf_hit_def loaded_def count_load_def)

lemma l_inflight_simps [simp]:
  "l_inflight (touch_hot e L) = l_inflight L" "l_inflight (put_shared e b L) = l_inflight L"
  "l_inflight (count_hit L) = l_inflight L" "l_inflight (count_pf_hit L) = l_inflight L"
  by (simp_all add: touch_hot_def put_shared_def count_hit_def count_pf_hit_def)

lemma layer_ok_counts [simp]:
  "layer_ok f (touch_hot e L) = layer_ok f L" "layer_ok f (count_hit L) = layer_ok f L"
  "layer_ok f (count_pf_hit L) = layer_ok f L" "layer_ok f (loaded e L) = layer_ok f L"
  by (simp_all add: layer_ok_def touch_hot_def count_hit_def count_pf_hit_def loaded_def count_load_def)

lemma layer_ok_put_shared: "layer_ok f L \<Longrightarrow> layer_ok f (put_shared e (f (l_idx L, e)) L)"
  by (simp add: layer_ok_stores put_shared_def cache_ok_put shared.coherent_put)

lemma layer_ok_cache_get: "layer_ok f L \<Longrightarrow> layer_ok f (L\<lparr>l_cache := snd (cache_get (l_cache L) k)\<rparr>)"
  by (simp add: layer_ok_def cache_ok_get)

lemma layer_ok_pbuf_pop: "layer_ok f L \<Longrightarrow> layer_ok f (L\<lparr>l_pbuf := snd (pbuf_pop k (l_pbuf L))\<rparr>)"
  by (simp add: layer_ok_stores pbuf_ok_pop prefetched.coherent_pop)

lemma layer_ok_inflight_delete: "layer_ok f L \<Longrightarrow> layer_ok f (L\<lparr>l_inflight := AList.delete e (l_inflight L)\<rparr>)"
  by (auto simp: layer_ok_def)

lemma take_pinned_result:
  "take_pinned L es bs ms =
     (fold (\<lambda>e. AList.update e (map_of (l_pinned L) e)) es bs, ms @ filter (\<lambda>e. map_of (l_pinned L) e = None) es)"
  by (induction es arbitrary: bs ms) (auto split: option.splits)

lemma map_of_fold_update:
  "map_of (fold (\<lambda>e. AList.update e (g e)) es bs) e = (if e \<in> set es then Some (g e) else map_of bs e)"
  by (induction es arbitrary: bs) auto

text \<open>What every phase guarantees about the experts it was asked for.\<close>

definition phase_ok ::
  "(nat \<times> nat \<Rightarrow> 'b) \<Rightarrow> nat \<Rightarrow> 'b bundles \<Rightarrow> 'b bundles \<Rightarrow> bool" where
  "phase_ok f i bs bs' \<longleftrightarrow> (\<forall>e. found f i bs e \<longrightarrow> found f i bs' e) \<and> dom (map_of bs) \<subseteq> dom (map_of bs')"

lemma phase_ok_refl [simp]: "phase_ok f i bs bs"
  by (simp add: phase_ok_def)

lemma phase_ok_trans: "phase_ok f i bs cs \<Longrightarrow> phase_ok f i cs ds \<Longrightarrow> phase_ok f i bs ds"
  unfolding phase_ok_def by (meson order_trans)

lemma phase_ok_update: "phase_ok f i bs (AList.update e (Some (f (i, e))) bs)"
  by (auto simp: phase_ok_def)

lemma phase_ok_found: "phase_ok f i bs bs' \<Longrightarrow> found f i bs e \<Longrightarrow> found f i bs' e"
  by (simp add: phase_ok_def)

lemma take_cached_ok:
  assumes "take_cached es bs still L = (bs', still', L')" and "layer_ok f L"
  shows "layer_ok f L' \<and> l_idx L' = l_idx L \<and> l_inflight L' = l_inflight L \<and> phase_ok f (l_idx L) bs bs' \<and>
    (\<forall>e \<in> set es. found f (l_idx L) bs' e \<or> e \<in> set still') \<and>
    set still \<subseteq> set still' \<and> set still' \<subseteq> set still \<union> set es"
  using assms
proof (induction es arbitrary: bs still L)
  case (Cons e es)
  define c where "c = snd (cache_get (l_cache L) (l_idx L, e))"
  have g: "cache_get (l_cache L) (l_idx L, e) = (cache_peek (l_cache L) (l_idx L, e), c)"
    by (simp add: c_def prod_eq_iff)
  have ok: "layer_ok f (L\<lparr>l_cache := c\<rparr>)" unfolding c_def by (rule layer_ok_cache_get [OF Cons.prems(2)])
  show ?case
  proof (cases "cache_peek (l_cache L) (l_idx L, e)")
    case None
    then have "take_cached es bs (still @ [e]) (L\<lparr>l_cache := c\<rparr>) = (bs', still', L')"
      using Cons.prems(1) g by simp
    from Cons.IH [OF this ok] show ?thesis by auto
  next
    case (Some b)
    then have b: "b = f (l_idx L, e)" using Cons.prems(2) by (simp add: layer_ok_def)
    have "take_cached es (AList.update e (Some b) bs) still (count_hit (L\<lparr>l_cache := c\<rparr>)) = (bs', still', L')"
      using Cons.prems(1) g Some by simp
    note IH = Cons.IH [OF this, unfolded layer_ok_counts, OF ok]
    have "found f (l_idx L) bs' e"
      using IH phase_ok_found [of f "l_idx L" "AList.update e (Some b) bs" bs' e] by (simp add: b)
    then show ?thesis using IH phase_ok_trans [OF phase_ok_update] by (auto simp: b)
  qed
qed simp

lemma take_prefetched_ok:
  assumes "take_prefetched es bs rs L = (bs', rs', L')" and "layer_ok f L" and "\<forall>e \<in> set rs. found f (l_idx L) bs e"
  shows "layer_ok f L' \<and> l_idx L' = l_idx L \<and> l_inflight L' = l_inflight L \<and> phase_ok f (l_idx L) bs bs' \<and>
    (\<forall>e \<in> set rs'. found f (l_idx L) bs' e)"
  using assms
proof (induction es arbitrary: bs rs L)
  case (Cons e es)
  define p where "p = snd (pbuf_pop (l_idx L, e) (l_pbuf L))"
  have g: "pbuf_pop (l_idx L, e) (l_pbuf L) = (map_of (pdict (l_pbuf L)) (l_idx L, e), p)"
    by (simp add: p_def pbuf_pop_def)
  have ok: "layer_ok f (L\<lparr>l_pbuf := p\<rparr>)" unfolding p_def by (rule layer_ok_pbuf_pop [OF Cons.prems(2)])
  show ?case
  proof (cases "map_of (pdict (l_pbuf L)) (l_idx L, e)")
    case None
    then have "take_prefetched es bs rs (L\<lparr>l_pbuf := p\<rparr>) = (bs', rs', L')" using Cons.prems(1) g by simp
    from Cons.IH [OF this ok] Cons.prems(3) show ?thesis by simp
  next
    case (Some b)
    then have b: "b = f (l_idx L, e)" using Cons.prems(2) by (simp add: layer_ok_def)
    let ?L = "put_shared e b (touch_hot e (count_pf_hit (L\<lparr>l_pbuf := p\<rparr>)))"
    have step: "take_prefetched es (AList.update e (Some b) bs) (e # rs) ?L = (bs', rs', L')"
      using Cons.prems(1) g Some by simp
    have "layer_ok f ?L"
      using layer_ok_put_shared [of f "touch_hot e (count_pf_hit (L\<lparr>l_pbuf := p\<rparr>))" e] ok by (simp add: b)
    from Cons.IH [OF step this] Cons.prems(3) show ?thesis
      using phase_ok_trans [OF phase_ok_update] by (simp add: b) blast
  qed
qed simp

text \<open>A failed future is the only way the third phase stops, and it leaves the layer coherent.\<close>

lemma take_inflight_ok:
  assumes "take_inflight es bs rs L = (r, L')" and "layer_ok f L" and "\<forall>e \<in> set rs. found f (l_idx L) bs e"
  shows "layer_ok f L' \<and> l_idx L' = l_idx L \<and>
    (case r of Inl err \<Rightarrow> \<exists>e \<in> set es. map_of (l_inflight L) e = Some (Inl err)
     | Inr (bs', rs') \<Rightarrow> phase_ok f (l_idx L) bs bs' \<and> (\<forall>e \<in> set rs'. found f (l_idx L) bs' e))"
  using assms
proof (induction es arbitrary: bs rs L)
  case (Cons e es)
  show ?case
  proof (cases "map_of (l_inflight L) e")
    case None
    then have "take_inflight es bs rs L = (r, L')" using Cons.prems(1) by simp
    from Cons.IH [OF this Cons.prems(2,3)] show ?thesis by (auto split: sum.splits)
  next
    case (Some r')
    show ?thesis
    proof (cases r')
      case (Inl err)
      then show ?thesis using Cons.prems Some by auto
    next
      case (Inr b)
      then have b: "b = f (l_idx L, e)" using Cons.prems(2) Some by (simp add: layer_ok_def)
      let ?M = "count_pf_hit (touch_hot e (L\<lparr>l_inflight := AList.delete e (l_inflight L)\<rparr>))"
      have step: "take_inflight es (AList.update e (Some b) bs) (e # rs) (put_shared e b ?M) = (r, L')"
        using Cons.prems(1) Some Inr by simp
      have "layer_ok f (put_shared e b ?M)"
        using layer_ok_put_shared [of f ?M e] layer_ok_inflight_delete [OF Cons.prems(2)] by (simp add: b)
      from Cons.IH [OF step this] Cons.prems(3) show ?thesis
        using phase_ok_trans [OF phase_ok_update]
        by (auto simp: b split: sum.splits if_splits) blast+
    qed
  qed
qed auto

lemma res_map_Inl: "res_map g xs = Inl err \<Longrightarrow> \<exists>x \<in> set xs. g x = Inl err"
  by (induction xs) (auto split: sum.splits)

lemma layer_ok_loads:
  "layer_ok f (fold loaded es M) = layer_ok f M \<and> l_idx (fold loaded es M) = l_idx M"
  by (induction es arbitrary: M) simp_all

lemma layer_ok_puts:
  assumes "layer_ok f M"
  shows "layer_ok f (fold (\<lambda>(e, b). put_shared e b) (map (\<lambda>e. (e, f (l_idx M, e))) es) M) \<and>
    l_idx (fold (\<lambda>(e, b). put_shared e b) (map (\<lambda>e. (e, f (l_idx M, e))) es) M) = l_idx M"
  using assms
proof (induction es arbitrary: M)
  case (Cons e es)
  then show ?case using Cons.IH [of "put_shared e (f (l_idx M, e)) M"] layer_ok_put_shared [of f M e] by simp
qed simp

lemma res_map_builds:
  "res_map bld es = Inr bs \<Longrightarrow> builds f i n bld \<Longrightarrow> \<forall>e \<in> set es. e < n \<Longrightarrow> bs = map (\<lambda>e. f (i, e)) es"
  by (induction es arbitrary: bs) (auto simp: builds_def split: sum.splits)

lemma load_missing_ok:
  assumes "load_missing bld ms bs L = (r, L')" and "layer_ok f L" and "builds f (l_idx L) n bld"
    and "\<forall>e \<in> set ms. e < n"
  shows "layer_ok f L' \<and>
    (case r of Inl err \<Rightarrow> \<exists>e \<in> set ms. bld e = Inl err
     | Inr bs' \<Rightarrow> phase_ok f (l_idx L) bs bs' \<and> (\<forall>e \<in> set ms. found f (l_idx L) bs' e))"
proof (cases "ms = [] \<or> (\<exists>err. res_map bld ms = Inl err)")
  case True
  then show ?thesis using assms(1,2) res_map_Inl [of bld ms] by (auto simp: load_missing_def split: if_splits) blast+
next
  case False
  then obtain built where b: "res_map bld ms = Inr built" by (metis sumE)
  have zip: "zip ms built = map (\<lambda>e. (e, f (l_idx L, e))) ms"
    by (simp add: res_map_builds [OF b assms(3,4)] zip_map2 zip_same_conv_map)
  have r: "r = Inr (fold (\<lambda>e. AList.update e (Some (f (l_idx L, e)))) ms bs)"
    and L': "L' = fold (\<lambda>(e, b). put_shared e b) (map (\<lambda>e. (e, f (l_idx L, e))) ms) (fold loaded ms L)"
    using assms(1) False b by (auto simp: load_missing_def zip fold_map comp_def)
  have "layer_ok f L'"
    using layer_ok_puts [of f "fold loaded ms L" ms] layer_ok_loads [of f ms L] assms(2) by (simp add: L')
  then show ?thesis by (auto simp: r phase_ok_def found_def map_of_fold_update dom_def)
qed

section \<open>Requests and coherence\<close>

text \<open>
  \<open>_get_bundles\<close>. From any coherent state, whatever mix of pins, LRU hits, prefetched bundles,
  in-flight builds and cold loads serves the request, every requested expert gets exactly its own
  bundle, the state stays coherent, and the only way to fail is the exception of a build that failed.
\<close>

theorem get_bundles_exact:
  assumes ok: "layer_ok f L" and bld: "builds f (l_idx L) n bld" and es: "\<forall>e \<in> set es. e < n"
  shows "layer_ok f (snd (get_bundles bld L es)) \<and>
    (case fst (get_bundles bld L es) of
       Inr bs \<Rightarrow> \<forall>e \<in> set es. map_of bs e = Some (Some (f (l_idx L, e)))
     | Inl err \<Rightarrow> \<exists>e \<in> set es. bld e = Inl err \<or> map_of (l_inflight L) e = Some (Inl err))"
proof -
  obtain bs1 ms1 where p1: "take_pinned L es [] [] = (bs1, ms1)" by fastforce
  obtain bs2 ms2 L2 where p2: "take_cached ms1 bs1 [] L = (bs2, ms2, L2)" by (metis prod_cases3)
  obtain bs3 rs3 L3 where p3: "take_prefetched ms2 bs2 [] L2 = (bs3, rs3, L3)" by (metis prod_cases3)
  let ?ms3 = "filter (\<lambda>e. e \<notin> set rs3) ms2"
  obtain r4 L4 where p4: "take_inflight ?ms3 bs3 [] L3 = (r4, L4)" by fastforce
  have ms1: "ms1 = filter (\<lambda>e. map_of (l_pinned L) e = None) es"
    and f1: "\<forall>e \<in> set es. found f (l_idx L) bs1 e \<or> e \<in> set ms1"
    using p1 ok by (auto simp: take_pinned_result found_def map_of_fold_update layer_ok_def)
  note c2 = take_cached_ok [OF p2 ok]
  then have c3: "layer_ok f L3 \<and> l_idx L3 = l_idx L \<and> l_inflight L3 = l_inflight L \<and>
      phase_ok f (l_idx L) bs2 bs3 \<and> (\<forall>e \<in> set rs3. found f (l_idx L) bs3 e)"
    using take_prefetched_ok [OF p3, of f] by auto
  then have c4: "layer_ok f L4 \<and> l_idx L4 = l_idx L \<and>
     (case r4 of Inl err \<Rightarrow> \<exists>e \<in> set ?ms3. map_of (l_inflight L) e = Some (Inl err)
      | Inr (bs4, rs4) \<Rightarrow> phase_ok f (l_idx L) bs3 bs4 \<and> (\<forall>e \<in> set rs4. found f (l_idx L) bs4 e))"
    using take_inflight_ok [OF p4, of f] by (cases r4) auto
  have sub: "set ?ms3 \<subseteq> set es" using c2 ms1 by auto
  show ?thesis
  proof (cases r4)
    case (Inl err)
    then have "get_bundles bld L es = (Inl err, L4)" by (simp add: get_bundles_def p1 p2 p3 p4 Let_def)
    then show ?thesis using c4 sub Inl by auto
  next
    case (Inr br)
    obtain bs4 rs4 where br: "br = (bs4, rs4)" by fastforce
    let ?ms4 = "filter (\<lambda>e. e \<notin> set rs4) ?ms3"
    obtain r5 L5 where p5: "load_missing bld ?ms4 bs4 L4 = (r5, L5)" by fastforce
    have g: "get_bundles bld L es = (r5, L5)" using Inr br p5 by (simp add: get_bundles_def p1 p2 p3 p4 Let_def)
    have c5: "layer_ok f L5 \<and>
      (case r5 of Inl err \<Rightarrow> \<exists>e \<in> set ?ms4. bld e = Inl err
       | Inr bs5 \<Rightarrow> phase_ok f (l_idx L) bs4 bs5 \<and> (\<forall>e \<in> set ?ms4. found f (l_idx L) bs5 e))"
      using load_missing_ok [OF p5, of f n] c4 bld sub es by (cases r5) auto
    have "found f (l_idx L) bs5 e" if r5: "r5 = Inr bs5" and e: "e \<in> set es" for bs5 e
    proof -
      have ph: "phase_ok f (l_idx L) bs4 bs5" "phase_ok f (l_idx L) bs3 bs4" "phase_ok f (l_idx L) bs2 bs3"
        "phase_ok f (l_idx L) bs1 bs2" using c5 c4 c3 c2 r5 Inr br by auto
      have "found f (l_idx L) bs1 e \<or> found f (l_idx L) bs2 e \<or> e \<in> set ms2" using f1 e c2 by auto
      moreover have "e \<in> set ms2 \<Longrightarrow> found f (l_idx L) bs3 e \<or> e \<in> set ?ms3" using c3 by auto
      moreover have "e \<in> set ?ms3 \<Longrightarrow> found f (l_idx L) bs4 e \<or> e \<in> set ?ms4" using c4 Inr br by auto
      moreover have "e \<in> set ?ms4 \<Longrightarrow> found f (l_idx L) bs5 e" using c5 r5 by auto
      ultimately show ?thesis using ph by (meson phase_ok_found)
    qed
    then show ?thesis using g c5 sub by (cases r5) (auto simp: found_def)
  qed
qed

section \<open>Every operation keeps the layer coherent\<close>

lemma layer_ok_new:
  assumes "case sc of None \<Rightarrow> True | Some c \<Rightarrow> cache_ok c \<and> shared.coherent f c"
    and "case pb of None \<Rightarrow> True | Some p \<Rightarrow> pbuf_ok p \<and> prefetched.coherent f p"
  shows "layer_ok f (layer_new i n opts sc pb)"
  using assms
  by (auto simp: layer_ok_stores layer_new_def cache_new_def pbuf_new_def cache_ok_def pbuf_ok_def
      shared.coherent_def prefetched.coherent_def cache_peek_def split: option.splits)

lemma layer_ok_prefetch:
  assumes "layer_ok f L" and "builds f (l_idx L) n bld" and "\<forall>e \<in> set es. e < n"
  shows "layer_ok f (snd (prefetch bld es L)) \<and> l_idx (snd (prefetch bld es L)) = l_idx L \<and>
    (\<forall>(e, r) \<in> set (fst (prefetch bld es L)). e < n \<and> r = bld e)"
proof -
  have "map_of (fold (\<lambda>e. AList.update e (bld e)) ms d) e = (if e \<in> set ms then Some (bld e) else map_of d e)"
    for ms d and e :: nat
    by (rule map_of_fold_update)
  then show ?thesis using assms by (auto simp: prefetch_def Let_def layer_ok_def builds_def)
qed

lemma layer_ok_set_cap:
  "layer_ok f L \<Longrightarrow> length (pdict (l_pbuf L)) \<le> nat c \<Longrightarrow> layer_ok f (L\<lparr>l_pbuf := pbuf_set_cap c (l_pbuf L)\<rparr>)"
  by (auto simp: layer_ok_def pbuf_ok_def pbuf_set_cap_def)

lemma layer_ok_prefetch_all:
  assumes "layer_ok f L" and "builds f (l_idx L) (l_num L) bld" and "cap (l_pbuf L) > 0"
  shows "layer_ok f (snd (prefetch_all bld L)) \<and> l_idx (snd (prefetch_all bld L)) = l_idx L \<and>
    (\<forall>(e, r) \<in> set (fst (prefetch_all bld L)). e < l_num L \<and> r = bld e)"
proof -
  let ?L = "if cap (l_pbuf L) < l_num L + 32
    then L\<lparr>l_pbuf := pbuf_set_cap (int (l_num L) + 32) (l_pbuf L)\<rparr> else L"
  have "layer_ok f ?L"
    using layer_ok_set_cap [OF assms(1), of "int (l_num L) + 32"] assms(1,3)
    by (auto simp: layer_ok_def pbuf_ok_def nat_add_distrib)
  then show ?thesis
    using layer_ok_prefetch [of f ?L "l_num L" bld "[0..<l_num L]"] assms(2) by (simp add: prefetch_all_def Let_def)
qed

lemma layer_ok_done:
  assumes "layer_ok f L" and "\<And>b. r = Inr b \<Longrightarrow> b = f (l_idx L, e)"
  shows "layer_ok f (on_prefetch_done e r L) \<and> l_idx (on_prefetch_done e r L) = l_idx L"
proof (cases "r = Inr (f (l_idx L, e)) \<and> cache_peek (l_cache L) (l_idx L, e) = None")
  case False
  then have "on_prefetch_done e r L = L\<lparr>l_inflight := AList.delete e (l_inflight L)\<rparr>"
    using assms(2) by (cases r) (auto simp: on_prefetch_done_def Let_def)
  then show ?thesis using layer_ok_inflight_delete [OF assms(1)] by simp
next
  case True
  have "pbuf_ok (snd (pbuf_put (l_idx L, e) (f (l_idx L, e)) (l_pbuf L)))"
    "prefetched.coherent f (snd (pbuf_put (l_idx L, e) (f (l_idx L, e)) (l_pbuf L)))"
    using assms(1) by (simp_all add: layer_ok_stores pbuf_ok_put prefetched.coherent_put)
  then show ?thesis using True layer_ok_inflight_delete [OF assms(1), of e]
    by (simp add: on_prefetch_done_def Let_def layer_ok_stores split: prod.split) auto
qed

lemma layer_ok_cache_pop: "layer_ok f L \<Longrightarrow> layer_ok f (L\<lparr>l_cache := snd (cache_pop k (l_cache L))\<rparr>)"
  by (simp add: layer_ok_stores cache_ok_pop shared.coherent_pop)

lemma layer_ok_pin: "layer_ok f L \<Longrightarrow> layer_ok f (L\<lparr>l_pinned := AList.update e (f (l_idx L, e)) (l_pinned L)\<rparr>)"
  by (auto simp: layer_ok_def)

text \<open>What pinning a list of experts does, when their builds succeed.\<close>

lemma pin_all_ok:
  assumes "layer_ok f L" and "builds f (l_idx L) n bld" and "\<forall>e \<in> set es. e < n"
  shows "layer_ok f (snd (pin_all bld es L)) \<and> l_idx (snd (pin_all bld es L)) = l_idx L \<and>
    ((\<forall>e \<in> set es. \<exists>b. bld e = Inr b) \<longrightarrow>
       dom (map_of (l_pinned (snd (pin_all bld es L)))) = dom (map_of (l_pinned L)) \<union> set es \<and>
       (\<forall>e. e \<in> set es \<or> cache_peek (l_cache L) (l_idx L, e) = None \<longrightarrow>
          cache_peek (l_cache (snd (pin_all bld es L))) (l_idx L, e) = None))"
  using assms
proof (induction es arbitrary: L)
  case (Cons e es)
  define c where "c = snd (cache_pop (l_idx L, e) (l_cache L))"
  have g: "cache_pop (l_idx L, e) (l_cache L) = (cache_peek (l_cache L) (l_idx L, e), c)"
    by (simp add: c_def cache_pop_def cache_peek_def)
  have pk: "cache_peek c k = (if k = (l_idx L, e) then None else cache_peek (l_cache L) k)" for k
    by (simp add: c_def cache_pop_peek)
  let ?L = "L\<lparr>l_cache := c\<rparr>"
  let ?P = "L\<lparr>l_cache := c, l_pinned := AList.update e (f (l_idx L, e)) (l_pinned L)\<rparr>"
  have ok: "layer_ok f ?L" unfolding c_def by (rule layer_ok_cache_pop [OF Cons.prems(1)])
  have okP: "layer_ok f ?P" using layer_ok_pin [OF ok, of e] by simp
  show ?case
  proof (cases "cache_peek (l_cache L) (l_idx L, e)")
    case (Some b)
    then have "b = f (l_idx L, e)" using Cons.prems(1) by (simp add: layer_ok_def)
    then show ?thesis using Cons.IH [OF okP] Cons.prems(2,3) g Some pk by auto
  next
    case None
    note n = None
    show ?thesis
    proof (cases "map_of (l_pinned L) e \<noteq> None")
      case True
      then show ?thesis using Cons.IH [OF ok] Cons.prems(2,3) g n pk by auto
    next
      case False
      show ?thesis
      proof (cases "bld e")
        case (Inl err)
        then show ?thesis using ok g n False by auto
      next
        case (Inr b)
        then have "b = f (l_idx L, e)" using Cons.prems(2,3) by (simp add: builds_def)
        then show ?thesis using Cons.IH [OF okP] Cons.prems(2,3) g n False Inr pk by auto
      qed
    qed
  qed
qed auto

lemma map_of_filter_keys: "map_of (filter (\<lambda>(e, b). P e) d) e = (if P e then map_of d e else None)"
  by (induction d) auto

lemma layer_ok_keep_pins: "layer_ok f L \<Longrightarrow> layer_ok f (L\<lparr>l_pinned := filter (\<lambda>(e, b). P e) (l_pinned L)\<rparr>)"
  by (auto simp: layer_ok_def map_of_filter_keys split: if_splits)

lemma refresh_pins_ok:
  assumes "layer_ok f L" and "builds f (l_idx L) n bld" and "\<forall>e \<in> set cands. e < n"
    and "\<And>es. set (order es) = set es"
  shows "layer_ok f (refresh_hot_pins bld cands order L) \<and> l_idx (refresh_hot_pins bld cands order L) = l_idx L"
proof -
  have "set (pin_top L cands) \<subseteq> set cands"
    by (auto simp: pin_top_def dest!: in_set_takeD)
  then show ?thesis
    using pin_all_ok [OF layer_ok_keep_pins [OF assms(1), of "\<lambda>e. e \<in> set (pin_top L cands)"], of n bld
        "order (pin_top L cands)"] assms
    by (auto simp: refresh_hot_pins_def refresh_pins_now_def Let_def)
qed

section \<open>The layer among threads and other layers\<close>

text \<open>
  The history of a layer: the decode thread requests bundles, prefetches and refreshes pins; the
  callback of a submitted future runs at any later time (a future of the pool stays pending until its
  callback ran); and between two of its operations the other layers change the shared cache and the
  shared prefetch buffer, keeping them coherent. A configuration is the layer and the pending futures.
\<close>

type_synonym 'b layer_config = "'b layer \<times> (nat \<times> 'b res) list"

inductive layer_step ::
  "(nat \<Rightarrow> 'b res) \<Rightarrow> (nat \<times> nat \<Rightarrow> 'b) \<Rightarrow> 'b layer_config \<Rightarrow> 'b layer_config \<Rightarrow> bool"
  for bld f where
  request: "\<forall>e \<in> set es. e < l_num L \<Longrightarrow> layer_step bld f (L, ps) (snd (get_bundles bld L es), ps)"
| submit: "\<forall>e \<in> set es. e < l_num L \<Longrightarrow>
    layer_step bld f (L, ps) (snd (prefetch bld es L), ps @ fst (prefetch bld es L))"
| submit_all: "cap (l_pbuf L) > 0 \<Longrightarrow>
    layer_step bld f (L, ps) (snd (prefetch_all bld L), ps @ fst (prefetch_all bld L))"
| callback: "(e, r) \<in> set ps \<Longrightarrow> layer_step bld f (L, ps) (on_prefetch_done e r L, remove1 (e, r) ps)"
| repin: "\<forall>e \<in> set cands. e < l_num L \<Longrightarrow> (\<forall>es. set (order es) = set es) \<Longrightarrow>
    layer_step bld f (L, ps) (refresh_hot_pins bld cands order L, ps)"
| others: "cache_ok c \<Longrightarrow> shared.coherent f c \<Longrightarrow> pbuf_ok p \<Longrightarrow> prefetched.coherent f p \<Longrightarrow>
    layer_step bld f (L, ps) (L\<lparr>l_cache := c, l_pbuf := p\<rparr>, ps)"

inductive_cases layer_step_elim: "layer_step bld f (L, ps) C"

inductive layer_run ::
  "(nat \<Rightarrow> 'b res) \<Rightarrow> (nat \<times> nat \<Rightarrow> 'b) \<Rightarrow> 'b layer_config \<Rightarrow> 'b layer_config \<Rightarrow> bool"
  for bld f C where
  start: "layer_run bld f C C"
| more: "layer_run bld f C D \<Longrightarrow> layer_step bld f D E \<Longrightarrow> layer_run bld f C E"

definition config_ok :: "(nat \<times> nat \<Rightarrow> 'b) \<Rightarrow> 'b layer_config \<Rightarrow> bool" where
  "config_ok f C \<longleftrightarrow> layer_ok f (fst C) \<and>
     (\<forall>e b. (e, Inr b) \<in> set (snd C) \<longrightarrow> b = f (l_idx (fst C), e))"

text \<open>No operation changes which layer it is or how many experts it has.\<close>

definition same_layer :: "'b layer \<Rightarrow> 'b layer \<Rightarrow> bool" where
  "same_layer L M \<longleftrightarrow> l_idx M = l_idx L \<and> l_num M = l_num L"

lemma l_num_simps [simp]:
  "l_num (touch_hot e L) = l_num L" "l_num (put_shared e b L) = l_num L" "l_num (count_hit L) = l_num L"
  "l_num (count_pf_hit L) = l_num L" "l_num (loaded e L) = l_num L"
  by (simp_all add: touch_hot_def put_shared_def count_hit_def count_pf_hit_def loaded_def count_load_def)

lemma take_cached_same: "take_cached es bs st L = (bs', st', L') \<Longrightarrow> l_idx L' = l_idx L \<and> l_num L' = l_num L"
  by (induction es bs st L rule: take_cached.induct) (auto split: prod.splits option.splits)

lemma take_prefetched_same: "take_prefetched es bs rs L = (bs', rs', L') \<Longrightarrow> l_idx L' = l_idx L \<and> l_num L' = l_num L"
  by (induction es bs rs L rule: take_prefetched.induct) (auto split: prod.splits option.splits)

lemma take_inflight_same: "take_inflight es bs rs L = (r, L') \<Longrightarrow> l_idx L' = l_idx L \<and> l_num L' = l_num L"
  by (induction es bs rs L rule: take_inflight.induct) (auto split: option.splits sum.splits)

lemma fold_same:
  "l_idx (fold loaded es L) = l_idx L" "l_num (fold loaded es L) = l_num L"
  "l_idx (fold (\<lambda>(e, b). put_shared e b) xs L) = l_idx L" "l_num (fold (\<lambda>(e, b). put_shared e b) xs L) = l_num L"
proof -
  show "l_idx (fold loaded es L) = l_idx L" "l_num (fold loaded es L) = l_num L"
    by (induction es arbitrary: L) simp_all
  show "l_idx (fold (\<lambda>(e, b). put_shared e b) xs L) = l_idx L" "l_num (fold (\<lambda>(e, b). put_shared e b) xs L) = l_num L"
    by (induction xs arbitrary: L) (auto split: prod.splits)
qed

lemma get_bundles_same:
  "l_idx (snd (get_bundles bld L es)) = l_idx L \<and> l_num (snd (get_bundles bld L es)) = l_num L"
  by (auto simp: get_bundles_def load_missing_def fold_same Let_def split: prod.splits sum.splits
      dest!: take_cached_same take_prefetched_same take_inflight_same)

lemma prefetch_same:
  "l_idx (snd (prefetch bld es L)) = l_idx L" "l_num (snd (prefetch bld es L)) = l_num L"
  by (simp_all add: prefetch_def Let_def)

lemma pin_all_same: "l_idx (snd (pin_all bld es L)) = l_idx L \<and> l_num (snd (pin_all bld es L)) = l_num L"
  by (induction bld es L rule: pin_all.induct) (auto split: prod.splits option.splits sum.splits)

lemma layer_step_same: "layer_step bld f C D \<Longrightarrow> same_layer (fst C) (fst D)"
  by (induction rule: layer_step.induct)
    (simp_all add: same_layer_def get_bundles_same prefetch_same prefetch_all_def on_prefetch_done_def
      refresh_hot_pins_def refresh_pins_now_def pin_all_same Let_def split: prod.splits option.splits sum.splits)

lemma layer_step_ok:
  assumes "layer_step bld f C D" and "config_ok f C" and "builds f (l_idx (fst C)) (l_num (fst C)) bld"
  shows "config_ok f D"
  using assms
proof (induction rule: layer_step.induct)
  case (request es L ps)
  then show ?case
    using get_bundles_exact [of f L "l_num L" bld es] get_bundles_same [of bld L es] by (simp add: config_ok_def)
next
  case (submit es L ps)
  then show ?case using layer_ok_prefetch [of f L "l_num L" bld es]
    by (fastforce simp: config_ok_def builds_def)
next
  case (submit_all L ps)
  then show ?case using layer_ok_prefetch_all [of f L bld] by (fastforce simp: config_ok_def builds_def)
next
  case (callback e r ps L)
  then show ?case proof -
    have "r = Inr b \<Longrightarrow> b = f (l_idx L, e)" for b using callback by (simp add: config_ok_def)
    then have "layer_ok f (on_prefetch_done e r L) \<and> l_idx (on_prefetch_done e r L) = l_idx L"
      using layer_ok_done [of f L r e] callback(2) by (simp add: config_ok_def)
    then show ?thesis using callback(2) set_remove1_subset [of "(e, r)" ps] by (auto simp: config_ok_def)
  qed
next
  case (repin cands L order ps)
  then show ?case using refresh_pins_ok [of f L "l_num L" bld cands order] by (simp add: config_ok_def)
next
  case (others c p L ps)
  then show ?case by (simp add: config_ok_def layer_ok_stores)
qed

lemma layer_run_ok:
  assumes "layer_run bld f C D" and "config_ok f C" and "builds f (l_idx (fst C)) (l_num (fst C)) bld"
  shows "config_ok f D \<and> same_layer (fst C) (fst D)"
  using assms
proof (induction rule: layer_run.induct)
  case (more D E)
  then show ?case
    using layer_step_ok [of bld f D E] layer_step_same [of bld f D E] by (simp add: same_layer_def)
qed (simp add: same_layer_def)

text \<open>The in-flight table only ever holds the futures of builds.\<close>

definition futures_ok :: "(nat \<Rightarrow> 'b res) \<Rightarrow> ('b, 'z) layer_scheme \<Rightarrow> bool" where
  "futures_ok bld L \<longleftrightarrow> (\<forall>e r. map_of (l_inflight L) e = Some r \<longrightarrow> r = bld e)"

lemma take_cached_inflight: "take_cached es bs st L = (bs', st', L') \<Longrightarrow> l_inflight L' = l_inflight L"
  by (induction es bs st L rule: take_cached.induct) (auto split: prod.splits option.splits)

lemma take_prefetched_inflight: "take_prefetched es bs rs L = (bs', rs', L') \<Longrightarrow> l_inflight L' = l_inflight L"
  by (induction es bs rs L rule: take_prefetched.induct) (auto split: prod.splits option.splits)

lemma take_inflight_shrinks:
  "take_inflight es bs rs L = (r, L') \<Longrightarrow> map_of (l_inflight L') e = Some fut \<Longrightarrow> map_of (l_inflight L) e = Some fut"
  by (induction es bs rs L rule: take_inflight.induct) (auto split: option.splits sum.splits if_splits)

lemma fold_inflight:
  "l_inflight (fold loaded es L) = l_inflight L"
  "l_inflight (fold (\<lambda>(e, b). put_shared e b) xs L) = l_inflight L"
proof -
  show "l_inflight (fold loaded es L) = l_inflight L"
    by (induction es arbitrary: L) (simp_all add: loaded_def count_load_def)
  show "l_inflight (fold (\<lambda>(e, b). put_shared e b) xs L) = l_inflight L"
    by (induction xs arbitrary: L) (auto split: prod.splits)
qed

lemma get_bundles_inflight:
  "map_of (l_inflight (snd (get_bundles bld L es))) e = Some fut \<Longrightarrow> map_of (l_inflight L) e = Some fut"
  by (auto simp: get_bundles_def load_missing_def fold_inflight Let_def split: prod.splits sum.splits if_splits
      dest!: take_cached_inflight take_prefetched_inflight dest: take_inflight_shrinks)

lemma pin_all_inflight: "l_inflight (snd (pin_all bld es L)) = l_inflight L"
  by (induction bld es L rule: pin_all.induct) (auto split: prod.splits option.splits sum.splits)

lemma futures_ok_prefetch: "futures_ok bld L \<Longrightarrow> futures_ok bld (snd (prefetch bld es L))"
  by (auto simp: futures_ok_def prefetch_def Let_def map_of_fold_update split: if_splits)

lemma layer_step_futures: "layer_step bld f C D \<Longrightarrow> futures_ok bld (fst C) \<Longrightarrow> futures_ok bld (fst D)"
proof (induction rule: layer_step.induct)
  case (request es L ps)
  then show ?case by (auto simp: futures_ok_def dest: get_bundles_inflight)
next
  case (submit es L ps)
  then show ?case by (simp add: futures_ok_prefetch)
next
  case (submit_all L ps)
  then have "futures_ok bld (L\<lparr>l_pbuf := p\<rparr>)" for p by (simp add: futures_ok_def)
  then show ?case using submit_all(2) by (simp add: prefetch_all_def Let_def futures_ok_prefetch)
next
  case (callback e r ps L)
  then show ?case
    by (auto simp: futures_ok_def on_prefetch_done_def Let_def split: sum.splits prod.splits if_splits)
next
  case (repin cands L order ps)
  then show ?case by (simp add: refresh_hot_pins_def refresh_pins_now_def Let_def futures_ok_def pin_all_inflight)
qed (simp add: futures_ok_def)

lemma layer_run_futures: "layer_run bld f C D \<Longrightarrow> futures_ok bld (fst C) \<Longrightarrow> futures_ok bld (fst D)"
  by (induction rule: layer_run.induct) (auto dest: layer_step_futures)

section \<open>Serving a checkpoint\<close>

definition checkpoint_bundle :: "layer_cfg \<Rightarrow> nat \<Rightarrow> proj \<times> part \<Rightarrow> tensor option" where
  "checkpoint_bundle cfg e key = (if key \<in> set (bundle_keys cfg) then Some (expert_tensor cfg e key) else None)"

text \<open>The hot stacks \<open>load_hot_layer\<close> can leave behind (\<open>load_hot_ok\<close>).\<close>

definition hot_of :: "layer_cfg \<Rightarrow> nat list option \<Rightarrow> hot_stack option" where
  "hot_of cfg hot = (case hot of None \<Rightarrow> None | Some hs \<Rightarrow> Some (hot_stack_of cfg hs))"

lemma layer_build_checkpoint:
  assumes ok: "cfg_ok cfg" and hot: "\<forall>hs. hot = Some hs \<longrightarrow> (\<forall>e \<in> set hs. e < lc_experts cfg)"
    and e: "e < lc_experts cfg"
  shows "layer_build cfg (hot_of cfg hot) e = Inr (checkpoint_bundle cfg e)"
proof -
  obtain c where c: "build_cold cfg e = Inr c" and mc: "map_of c = checkpoint_bundle cfg e"
    using build_cold_lookup [OF ok e] by (auto simp: checkpoint_bundle_def fun_eq_iff)
  show ?thesis
  proof (cases "\<exists>hs i. hot = Some hs \<and> py_index hs e = Some i")
    case False
    then have "build_bundle cfg (hot_of cfg hot) e = build_cold cfg e"
      by (auto simp: build_bundle_def hot_of_def hot_stack_of_def split: option.splits)
    then show ?thesis using c mc by (simp add: layer_build_def)
  next
    case True
    then obtain hs i where hs: "hot = Some hs" "py_index hs e = Some i" by blast
    then have i: "i < length hs" "hs ! i = e" by (auto dest: py_index_Some)
    have "build_bundle cfg (hot_of cfg hot) e = Inr (map (\<lambda>key. (key, expert_tensor cfg e key)) (bundle_keys cfg))"
      using build_hot_ok [OF ok _ i(1), of e] hot hs i(2)
      by (simp add: build_bundle_def hot_of_def) (simp add: hot_stack_of_def)
    then show ?thesis
      by (auto simp: layer_build_def checkpoint_bundle_def fun_eq_iff map_of_map_keys map_of_eq_None_iff)
  qed
qed

text \<open>
  C9: the residency machinery is transparent. After any history of requests, prefetches, callbacks,
  pin refreshes and interference from other layers, starting from a new layer over a well-formed
  checkpoint (with or without a hot stack), a request succeeds and gives every requested expert the
  tensors stored in the checkpoint.
\<close>

theorem layer_history_exact:
  assumes "cfg_ok cfg" and "\<forall>hs. hot = Some hs \<longrightarrow> (\<forall>e \<in> set hs. e < lc_experts cfg)"
    and "layer_run (layer_build cfg (hot_of cfg hot)) (\<lambda>(i, e). checkpoint_bundle cfg e)
      (layer_new i (lc_experts cfg) opts None None, []) (L, ps)"
    and "\<forall>e \<in> set es. e < lc_experts cfg"
  shows "\<exists>bs. fst (get_bundles (layer_build cfg (hot_of cfg hot)) L es) = Inr bs \<and>
    (\<forall>e \<in> set es. map_of bs e = Some (Some (checkpoint_bundle cfg e)))"
proof -
  let ?bld = "layer_build cfg (hot_of cfg hot)" and ?f = "\<lambda>(i :: nat, e). checkpoint_bundle cfg e"
  let ?new = "layer_new i (lc_experts cfg) opts None None :: (proj \<times> part \<Rightarrow> tensor option) layer"
  have b: "?bld e = Inr (checkpoint_bundle cfg e)" if "e < lc_experts cfg" for e
    by (rule layer_build_checkpoint [OF assms(1,2) that])
  have new: "config_ok ?f (?new, [])" using layer_ok_new [where sc = None and f = ?f and pb = None] by (simp add: config_ok_def)
  have bl: "builds ?f i' (lc_experts cfg) ?bld" for i' using b by (simp add: builds_def)
  have nn: "l_num ?new = lc_experts cfg" "l_idx ?new = i" "l_inflight ?new = []" by (simp_all add: layer_new_def)
  have "config_ok ?f (L, ps) \<and> same_layer ?new L"
    using layer_run_ok [OF assms(3) new] bl nn by simp
  then have ok: "layer_ok ?f L" by (simp add: config_ok_def)
  have fut: "futures_ok ?bld L"
    using layer_run_futures [OF assms(3)] nn by (simp add: futures_ok_def)
  show ?thesis
  proof (cases "fst (get_bundles ?bld L es)")
    case (Inl err)
    then obtain e where e: "e \<in> set es" "?bld e = Inl err \<or> map_of (l_inflight L) e = Some (Inl err)"
      using get_bundles_exact [OF ok bl assms(4)] by auto
    then have "?bld e = Inl err" using fut by (auto simp: futures_ok_def)
    then show ?thesis using b [of e] assms(4) e(1) by simp
  next
    case (Inr bs)
    then show ?thesis using get_bundles_exact [OF ok bl assms(4)] by auto
  qed
qed

text \<open>A short history of the example layer: a prefetch, its callback, and then a request.\<close>

lemma demo_new_run:
  "layer_run bld f (layer_new 3 2 default_options None None, [])
     (snd (prefetch bld [1] (layer_new 3 2 default_options None None)),
      fst (prefetch bld [1] (layer_new 3 2 default_options None None)))"
  using layer_run.more [OF layer_run.start layer_step.submit [of "[1]" "layer_new 3 2 default_options None None" bld f "[]"]]
  by (simp add: layer_new_def)

theorem get_bundles_exact_witness:
  "case fst (get_bundles (\<lambda>e. Inr (10 * e)) (layer_new 3 4 default_options None None) [2, 0, 2]) of
     Inr bs \<Rightarrow> map_of bs 2 = Some (Some (20 :: nat)) | Inl err \<Rightarrow> False"
proof -
  have "layer_ok (\<lambda>(i, e). 10 * e :: nat) (layer_new 3 4 default_options None None)"
    using layer_ok_new [where sc = None and pb = None] by simp
  then show ?thesis
    using get_bundles_exact [of "\<lambda>(i, e). 10 * e" "layer_new 3 4 default_options None None" 4
        "\<lambda>e. Inr (10 * e)" "[2, 0, 2]"]
    by (auto simp: builds_def layer_new_def split: sum.splits)
qed

theorem layer_history_exact_witness:
  "\<exists>L ps bs. layer_run (layer_build demo_cfg None) (\<lambda>(i, e). checkpoint_bundle demo_cfg e)
       (layer_new 3 2 default_options None None, []) (L, ps) \<and> ps \<noteq> [] \<and>
     fst (get_bundles (layer_build demo_cfg None) L [1, 0]) = Inr bs \<and>
     map_of bs 1 = Some (Some (checkpoint_bundle demo_cfg 1))"
proof -
  let ?b = "layer_build demo_cfg None" and ?f = "\<lambda>(i :: nat, e). checkpoint_bundle demo_cfg e"
  let ?L = "snd (prefetch ?b [1] (layer_new 3 2 default_options None None))"
  let ?ps = "fst (prefetch ?b [1] (layer_new 3 2 default_options None None))"
  have run: "layer_run (layer_build demo_cfg (hot_of demo_cfg None)) ?f
      (layer_new 3 (lc_experts demo_cfg) default_options None None, []) (?L, ?ps)"
    using demo_new_run [of ?b ?f] by (simp add: demo_fields(1) hot_of_def)
  have ps: "?ps \<noteq> []"
    by (simp add: prefetch_def Let_def is_resident_def layer_new_def cache_new_def pbuf_new_def cache_peek_def
        pbuf_contains_def)
  obtain bs where "fst (get_bundles ?b ?L [1, 0]) = Inr bs" "map_of bs 1 = Some (Some (checkpoint_bundle demo_cfg 1))"
    using layer_history_exact [OF demo_cfg_ok _ run, of "[1, 0]"] by (auto simp: demo_fields(1) hot_of_def)
  then show ?thesis using run ps by (auto simp: demo_fields(1) hot_of_def)
qed

section \<open>Hot counts and pins\<close>

lemma touched_count_list:
  "map_of (fold (touched d) ts cs) e =
     (if e \<in> set ts \<or> map_of cs e \<noteq> None then
        Some ((case map_of cs e of None \<Rightarrow> 0 | Some c \<Rightarrow> c) * d ^ count_list ts e + (\<Sum>k<count_list ts e. d ^ k))
      else None)"
proof (induction ts arbitrary: cs)
  case (Cons t ts)
  show ?case
  proof (cases "t = e")
    case False
    then show ?thesis using Cons by (simp add: touched_def)
  next
    case True
    have t: "map_of (touched d t cs) e = Some ((case map_of cs e of None \<Rightarrow> 0 | Some c \<Rightarrow> c) * d + 1)"
      using True by (simp add: touched_def)
    show ?thesis using True t [unfolded True] by (simp add: Cons algebra_simps)
  qed
qed (auto split: option.splits)

text \<open>
  What a hot count measures. After any sequence \<open>ts\<close> of touches, the count of an expert is the
  geometric sum of its own number of touches: it does not depend on when they happened or on what the
  other experts did meanwhile, and with a decay below one it never exceeds \<open>1 / (1 - d)\<close>.
\<close>

theorem hot_count_ignores_recency:
  "(map_of (fold (touched d) ts []) e =
     (if count_list ts e = 0 then None else Some (\<Sum>k<count_list ts e. d ^ k))) \<and>
   (\<forall>c. map_of (fold (touched d) ts []) e = Some c \<and> 0 \<le> d \<and> d < 1 \<longrightarrow> c \<le> 1 / (1 - d))"
proof -
  have m: "map_of (fold (touched d) ts []) e =
      (if count_list ts e = 0 then None else Some (\<Sum>k<count_list ts e. d ^ k))"
    by (simp add: touched_count_list count_list_0_iff)
  have "(\<Sum>k<n. d ^ k) \<le> 1 / (1 - d)" if "0 \<le> d" "d < 1" for n
  proof -
    have "(\<Sum>k<n. d ^ k) = (1 - d ^ n) / (1 - d)" using that by (simp add: sum_gp_strict)
    also have "\<dots> \<le> 1 / (1 - d)" using that by (intro divide_right_mono) auto
    finally show ?thesis .
  qed
  then show ?thesis using m by (auto split: if_splits)
qed

theorem hot_count_ignores_recency_witness:
  "map_of (fold (touched (3/4)) [7, 1, 2, 3, 4] []) (7 :: nat) = Some (1 :: real) \<and> (1 :: real) \<le> 1 / (1 - 3/4)"
  using hot_count_ignores_recency [of "3/4" "[7, 1, 2, 3, 4]" "7 :: nat"] by simp

lemma in_set_map_nth: "x \<in> set (map g xs) \<Longrightarrow> \<exists>j < length xs. g (xs ! j) = x"
  by (auto simp: in_set_conv_nth)

text \<open>The pinned set is a prefix of the candidates in order of score.\<close>

lemma pin_top_props:
  assumes "distinct cands"
  shows "set (pin_top L cands) \<subseteq> set cands"
    and "length (pin_top L cands) = min (nat (l_hot_per_layer L)) (length cands)"
    and "distinct (pin_top L cands)"
    and "e \<in> set (pin_top L cands) \<Longrightarrow> e' \<in> set cands - set (pin_top L cands) \<Longrightarrow> pin_score L e' \<le> pin_score L e"
proof -
  let ?s = "sort_key (\<lambda>es. - snd es) (map (\<lambda>e. (e, pin_score L e)) cands)" and ?n = "nat (l_hot_per_layer L)"
  have top: "pin_top L cands = map fst (take ?n ?s)" by (simp add: pin_top_def)
  have snd: "snd p = pin_score L (fst p)" if "p \<in> set ?s" for p using that by auto
  have st: "set (map fst ?s) = set cands" by (simp add: image_comp)
  have dist: "distinct (map fst ?s)"
    by (rule card_distinct) (simp only: st length_map length_sort distinct_card [OF assms])
  show "set (pin_top L cands) \<subseteq> set cands" using st by (auto simp: top dest: in_set_takeD)
  show "length (pin_top L cands) = min ?n (length cands)" by (simp add: top)
  show "distinct (pin_top L cands)" using dist by (simp add: top take_map [symmetric])
  assume e: "e \<in> set (pin_top L cands)" and e': "e' \<in> set cands - set (pin_top L cands)"
  obtain i where i: "i < length ?s" "i < ?n" "fst (?s ! i) = e" using e by (auto simp: top in_set_conv_nth)
  have "e' \<in> set (map fst ?s)" unfolding st using e' by simp
  from in_set_map_nth [OF this] obtain j where j: "j < length ?s" "fst (?s ! j) = e'" by blast
  have "\<not> j < ?n"
  proof
    assume "j < ?n"
    then have "?s ! j \<in> set (take ?n ?s)" using j(1) by (metis in_set_conv_nth length_take min_less_iff_conj nth_take)
    then show False using e' j(2) by (auto simp: top)
  qed
  then have "- snd (?s ! i) \<le> - snd (?s ! j)"
    using i(1,2) j(1) sorted_nth_mono [OF sorted_sort_key, of i j "\<lambda>es. - snd es" "map (\<lambda>e. (e, pin_score L e)) cands"]
    by simp
  moreover have "snd (?s ! i) = pin_score L e" "snd (?s ! j) = pin_score L e'"
    using snd [OF nth_mem [OF i(1)]] snd [OF nth_mem [OF j(1)]] unfolding i(3) j(2) by blast+
  ultimately show "pin_score L e' \<le> pin_score L e" by simp
qed

text \<open>
  Refreshing the pins. When the builds succeed, exactly the best \<open>hot_per_layer\<close> candidates (all of
  them if there are fewer) are pinned, no pinned expert scores below one left out, and no pinned
  expert keeps a second copy in the shared LRU.
\<close>

theorem refresh_pins_top:
  assumes "layer_ok f L" and "builds f (l_idx L) n bld" and "distinct cands" and "0 < l_hot_per_layer L"
    and "\<forall>e \<in> set cands. e < n \<and> (\<exists>b. bld e = Inr b)" and "\<forall>es. set (order es) = set es"
  shows "dom (map_of (l_pinned (refresh_hot_pins bld cands order L))) = set (pin_top L cands) \<and>
    card (set (pin_top L cands)) = min (nat (l_hot_per_layer L)) (length cands) \<and>
    (\<forall>e \<in> set (pin_top L cands). \<forall>e' \<in> set cands - set (pin_top L cands). pin_score L e' \<le> pin_score L e) \<and>
    (\<forall>e \<in> set (pin_top L cands). cache_peek (l_cache (refresh_hot_pins bld cands order L)) (l_idx L, e) = None)"
proof -
  note top = pin_top_props [OF assms(3), where L = L]
  let ?t = "pin_top L cands"
  let ?L = "L\<lparr>l_pinned := filter (\<lambda>(e, b). e \<in> set ?t) (l_pinned L)\<rparr>"
  have ref: "refresh_hot_pins bld cands order L = snd (pin_all bld (order ?t) ?L)"
    using assms(4) by (simp add: refresh_hot_pins_def refresh_pins_now_def Let_def)
  have "layer_ok f ?L" by (rule layer_ok_keep_pins [OF assms(1)])
  then have p: "(\<forall>e \<in> set (order ?t). \<exists>b. bld e = Inr b) \<longrightarrow>
      dom (map_of (l_pinned (snd (pin_all bld (order ?t) ?L)))) = dom (map_of (l_pinned ?L)) \<union> set (order ?t) \<and>
      (\<forall>e. e \<in> set (order ?t) \<or> cache_peek (l_cache ?L) (l_idx ?L, e) = None \<longrightarrow>
          cache_peek (l_cache (snd (pin_all bld (order ?t) ?L))) (l_idx ?L, e) = None)"
    using pin_all_ok [of f ?L n bld "order ?t"] assms(2,5,6) top(1) by (simp add: subset_iff)
  have "\<forall>e \<in> set (order ?t). \<exists>b. bld e = Inr b" using assms(5,6) top(1) by auto
  moreover have "dom (map_of (l_pinned ?L)) \<subseteq> set ?t" by (auto simp: map_of_filter_keys split: if_splits)
  ultimately show ?thesis
    using p assms(6) top(4) distinct_card [OF top(3)] top(2) by (auto simp: ref)
qed

theorem refresh_pins_top_witness:
  "\<exists>L :: nat layer. dom (map_of (l_pinned (refresh_hot_pins (\<lambda>e. Inr e) [4, 9, 2] id L))) = {9, 2} \<and>
     cache_peek (l_cache L) (3, 9) = Some 9 \<and>
     cache_peek (l_cache (refresh_hot_pins (\<lambda>e. Inr e) [4, 9, 2] id L)) (3, 9) = None"
proof -
  define L :: "nat layer" where "L = (layer_new 3 10 default_options None None)
    \<lparr>l_hot_per_layer := 2, l_counts := [(4, 1), (9, 2)], l_predicted := [2],
     l_cache := cache_put (3, 9) 9 (cache_new 4)\<rparr>"
  have t: "pin_top L [4, 9, 2] = [9, 2]"
    by (simp add: L_def pin_top_def pin_score_def layer_new_def default_options_def)
  have c: "cache_peek (l_cache L) (3, 9) = Some 9" by (simp add: L_def cache_new_def cache_put_def cache_peek_def)
  have i: "l_idx L = 3" "0 < l_hot_per_layer L" by (simp_all add: L_def layer_new_def)
  have ok: "layer_ok snd L"
    by (simp add: L_def layer_ok_stores layer_new_def cache_new_def cache_ok_def cache_put_def Let_def pbuf_new_def
        pbuf_ok_def shared.coherent_def prefetched.coherent_def cache_peek_def dict_ok_def keys_of_def)
  have b: "builds snd (l_idx L) 10 (\<lambda>e. Inr e)" by (simp add: builds_def)
  note r = refresh_pins_top [OF ok b _ i(2), of "[4, 9, 2]" id, unfolded t i(1)]
  have "dom (map_of (l_pinned (refresh_hot_pins (\<lambda>e. Inr e) [4, 9, 2] id L))) = set [9, 2] \<and>
      (\<forall>e \<in> set [9, 2]. cache_peek (l_cache (refresh_hot_pins (\<lambda>e. Inr e) [4, 9, 2] id L)) (3, e) = None)"
    using r by simp
  then show ?thesis using c by (intro exI [of _ L]) simp
qed

end
