(* ===== verification/Staging.thy ===== *)
theory Staging
  imports Layer_State
begin

text \<open>
  Fixed-slot staging of \<open>edge0/streaming/layer.py\<close>: \<open>_build_staged_bundles\<close>, the incremental stack
  \<open>_stage_incr\<close>, and the double-buffered slots with their asynchronous fill (\<open>stage_experts\<close>,
  \<open>wait_staged\<close>, \<open>swap_staged\<close>, \<open>_submit_stage_locked\<close>, \<open>_drain_rearm\<close>, \<open>_on_stage_done\<close>),
  \<open>sync_actuals\<close>, \<open>stage_from_prefill\<close>, \<open>prefetch_from_prefill\<close> and \<open>reset\<close>.

  The nine stacked tensors always change row by row together, so a stack is the list of its rows, a
  row being a bundle; \<open>s_zero\<close> is the all-zero row, \<open>s_full\<close> the rows of a whole-layer load and \<open>s_hot\<close>
  the member list and the rows of a materialised hot window. A submitted fill is a job of the pool, identified
  by a number; \<open>s_jobs\<close> holds its argument and, once it has run, its result. The moment at which the
  pool runs a just submitted job relative to the submitting thread is the argument \<open>timing\<close>.
\<close>

type_synonym 'b fill = "'b list \<times> nat list \<times> nat list"

record sstats =
  n_staged_used :: nat
  n_staged_dropped :: nat
  n_staged_fallback :: nat
  n_delta_hits :: nat
  n_cache_hits :: nat
  n_builds :: nat
  n_incr_writes :: nat

record 'b slayer = "'b layer" +
  s_n :: nat
  s_mode :: bool
  s_replace :: bool
  s_trigger :: int
  s_sync :: bool
  s_incr :: bool
  s_writeback :: bool
  s_zero :: 'b
  s_state :: "'b fill option"
  s_next :: "'b fill option"
  s_future :: "nat option"
  s_pending :: "nat list option"
  s_rearm :: "nat option"
  s_jobs :: "(nat \<times> nat list \<times> 'b fill res option) list"
  s_callbacks :: "nat list"
  s_stuck :: bool
  s_closed :: bool
  s_indices :: "nat list option"
  s_at_use :: "nat list option"
  s_topk :: "nat list option"
  s_rows :: "'b list option"
  s_table :: "nat list"
  s_occ :: "nat option list"
  s_held :: "(nat \<times> 'b) list"
  s_full :: "'b list option"
  s_hot :: "(nat list \<times> 'b list) option"
  s_calls :: nat
  s_interval :: int
  s_compile :: bool
  s_sstats :: sstats

text \<open>The staging part of \<open>__init__\<close>.\<close>

definition slayer_new :: "'b \<Rightarrow> layer_options \<Rightarrow> 'b layer \<Rightarrow> 'b slayer" where
  "slayer_new z o' L =
     (let incr = incr_stack o' \<and> staged o' \<and> staged_sync o' \<and> \<not> staged_replace o' in
      layer.extend L
       \<lparr>s_n = nat (max 1 (staged_n o')), s_mode = staged o', s_replace = staged_replace o',
        s_trigger = staged_trigger o', s_sync = staged_sync o', s_incr = incr,
        s_writeback = (incr \<and> incr_writeback o'), s_zero = z,
        s_state = None, s_next = None, s_future = None, s_pending = None, s_rearm = None,
        s_jobs = [], s_callbacks = [], s_stuck = False, s_closed = False,
        s_indices = None, s_at_use = None, s_topk = None,
        s_rows = None, s_table = [], s_occ = [], s_held = [], s_full = None, s_hot = None,
        s_calls = 0, s_interval = hot_update_interval o', s_compile = use_compile o',
        s_sstats = \<lparr>n_staged_used = 0, n_staged_dropped = 0, n_staged_fallback = 0, n_delta_hits = 0,
                    n_cache_hits = 0, n_builds = 0, n_incr_writes = 0\<rparr>\<rparr>)"

section \<open>Resolving the staged set\<close>

text \<open>Python's \<open>sorted({int(e) for e in experts})[:n]\<close>.\<close>

definition staged_set :: "nat \<Rightarrow> nat list \<Rightarrow> nat list" where
  "staged_set n experts = take n (uniq experts)"

definition stat_delta :: "'b slayer \<Rightarrow> 'b slayer" where
  "stat_delta L = L\<lparr>s_sstats := (s_sstats L)\<lparr>n_delta_hits := Suc (n_delta_hits (s_sstats L))\<rparr>\<rparr>"

definition stat_cache :: "'b slayer \<Rightarrow> 'b slayer" where
  "stat_cache L = L\<lparr>s_sstats := (s_sstats L)\<lparr>n_cache_hits := Suc (n_cache_hits (s_sstats L))\<rparr>\<rparr>"

definition stat_build :: "'b slayer \<Rightarrow> 'b slayer" where
  "stat_build L = L\<lparr>s_sstats := (s_sstats L)\<lparr>n_builds := Suc (n_builds (s_sstats L))\<rparr>\<rparr>"

text \<open>
  The cascade shared by both resolvers: pinned, then the shared LRU, then a build, which is shared
  through the LRU when \<open>share\<close> holds.
\<close>

definition resolve :: "(nat \<Rightarrow> 'b res) \<Rightarrow> bool \<Rightarrow> nat \<Rightarrow> 'b slayer \<Rightarrow> 'b res \<times> 'b slayer" where
  "resolve bld share e L =
     (case map_of (l_pinned L) e of
        Some b \<Rightarrow> (Inr b, L)
      | None \<Rightarrow>
          (case cache_get (l_cache L) (l_idx L, e) of
             (Some b, c) \<Rightarrow> (Inr b, stat_cache (L\<lparr>l_cache := c\<rparr>))
           | (None, c) \<Rightarrow>
               (case bld e of
                  Inl err \<Rightarrow> (Inl err, L\<lparr>l_cache := c\<rparr>)
                | Inr b \<Rightarrow>
                    (Inr b, stat_build (if share then put_shared e b (L\<lparr>l_cache := c\<rparr>) else L\<lparr>l_cache := c\<rparr>)))))"

fun resolve_staged ::
  "(nat \<Rightarrow> 'b res) \<Rightarrow> (nat \<times> 'b) list \<Rightarrow> nat list \<Rightarrow> 'b slayer \<Rightarrow> 'b list res \<times> 'b slayer" where
  "resolve_staged bld prev [] L = (Inr [], L)"
| "resolve_staged bld prev (e # es) L =
     (case (case map_of prev e of Some b \<Rightarrow> (Inr b, stat_delta L) | None \<Rightarrow> resolve bld True e L) of
        (Inl err, L) \<Rightarrow> (Inl err, L)
      | (Inr b, L) \<Rightarrow>
          (case resolve_staged bld prev es L of
             (Inl err, L) \<Rightarrow> (Inl err, L)
           | (Inr bs, L) \<Rightarrow> (Inr (b # bs), L)))"

text \<open>\<open>slot_of[e] = i\<close> for the \<open>i\<close>-th staged expert; an index past the table is an \<open>IndexError\<close>.\<close>

fun fill_slots :: "nat \<Rightarrow> nat list \<Rightarrow> nat list \<Rightarrow> nat list res" where
  "fill_slots i [] tbl = Inr tbl"
| "fill_slots i (e # es) tbl = (if e < length tbl then fill_slots (Suc i) es (tbl[e := i]) else Inl IndexError)"

definition build_staged :: "(nat \<Rightarrow> 'b res) \<Rightarrow> nat list \<Rightarrow> 'b slayer \<Rightarrow> 'b fill res \<times> 'b slayer" where
  "build_staged bld experts L =
     (let n = s_n L;
          sel = staged_set n experts;
          prev = (case s_state L of None \<Rightarrow> []
                  | Some (pb, _, pexp) \<Rightarrow> fold (\<lambda>(e, b). AList.update e b) (zip pexp pb) [])
      in case fill_slots 0 sel (replicate (l_num L) n) of
           Inl err \<Rightarrow> (Inl err, L)
         | Inr slot_of \<Rightarrow>
             (case resolve_staged bld prev sel L of
                (Inl err, L) \<Rightarrow> (Inl err, L)
              | (Inr bs, L) \<Rightarrow> (Inr (bs, slot_of, sel), L)))"

section \<open>The incremental stack\<close>

definition incr_alloc :: "'b slayer \<Rightarrow> 'b slayer" where
  "incr_alloc L =
     (case s_rows L of
        Some _ \<Rightarrow> L
      | None \<Rightarrow> L\<lparr>s_rows := Some (replicate (Suc (s_n L)) (s_zero L)),
                  s_table := replicate (l_num L) (s_n L), s_occ := replicate (s_n L) None\<rparr>)"

text \<open>Slots of evicted experts are freed first; the others keep theirs.\<close>

definition keep_occ :: "nat list \<Rightarrow> nat option list \<Rightarrow> nat option list" where
  "keep_occ sel occ = map (\<lambda>o'. case o' of None \<Rightarrow> None | Some e \<Rightarrow> if e \<in> set sel then Some e else None) occ"

definition free_slots :: "nat option list \<Rightarrow> nat list" where
  "free_slots occ = filter (\<lambda>i. occ ! i = None) [0..<length occ]"

fun occ_slots :: "nat \<Rightarrow> nat option list \<Rightarrow> nat list \<Rightarrow> nat list res" where
  "occ_slots i [] tbl = Inr tbl"
| "occ_slots i (None # os) tbl = occ_slots (Suc i) os tbl"
| "occ_slots i (Some e # os) tbl =
     (if e < length tbl then occ_slots (Suc i) os (tbl[e := i]) else Inl IndexError)"

text \<open>\<open>free[j] if j < len(free) else None\<close> for the \<open>j\<close>-th changed expert.\<close>

fun assign_slots :: "nat list \<Rightarrow> nat list \<Rightarrow> (nat \<times> nat option) list" where
  "assign_slots [] free = []"
| "assign_slots (e # es) [] = (e, None) # assign_slots es []"
| "assign_slots (e # es) (s # free) = (e, Some s) # assign_slots es free"

record 'b incr_acc =
  a_bundles :: "(nat \<times> 'b) list"
  a_slots :: "nat list"
  a_writes :: "(nat \<times> 'b) list"

text \<open>
  The loop over the newly assigned slots. \<open>_incr_occupancy\<close> is updated in place, so what was assigned
  before a build raises stays assigned.
\<close>

fun incr_assign ::
  "(nat \<Rightarrow> 'b res) \<Rightarrow> (nat \<times> nat option) list \<Rightarrow> 'b incr_acc \<Rightarrow> 'b slayer \<Rightarrow> 'b incr_acc res \<times> 'b slayer" where
  "incr_assign bld [] a L = (Inr a, L)"
| "incr_assign bld ((e, None) # rest) a L = incr_assign bld rest a L"
| "incr_assign bld ((e, Some slot) # rest) a L =
     (case resolve bld (\<not> s_writeback L) e L of
        (Inl err, L) \<Rightarrow> (Inl err, L)
      | (Inr b, L) \<Rightarrow>
          let L = L\<lparr>s_occ := (s_occ L)[slot := Some e]\<rparr> in
          if e < length (a_slots a)
          then incr_assign bld rest
                 \<lparr>a_bundles = AList.update e b (a_bundles a), a_slots = (a_slots a)[e := slot],
                  a_writes = a_writes a @ [(slot, b)]\<rparr> L
          else (Inl IndexError, L))"

definition write_rows :: "(nat \<times> 'b) list \<Rightarrow> 'b list \<Rightarrow> 'b list" where
  "write_rows ws rows = fold (\<lambda>(i, b) rs. rs[i := b]) ws rows"

definition incr_table :: "nat \<Rightarrow> nat list \<Rightarrow> (nat \<times> nat option) list \<Rightarrow> nat list \<Rightarrow> nat list" where
  "incr_table n evicted new tbl =
     fold (\<lambda>(e, s) t. case s of None \<Rightarrow> t | Some i \<Rightarrow> t[e := i]) new
       (fold (\<lambda>e t. t[e := n]) evicted tbl)"

definition held_bundle :: "(nat \<times> 'b) list \<Rightarrow> nat \<Rightarrow> 'b res" where
  "held_bundle d e = (case map_of d e of None \<Rightarrow> Inl KeyError | Some b \<Rightarrow> Inr b)"

definition stage_incr :: "(nat \<Rightarrow> 'b res) \<Rightarrow> nat list \<Rightarrow> 'b slayer \<Rightarrow> 'b fill res \<times> 'b slayer" where
  "stage_incr bld experts L0 =
     (let n = s_n L0;
          sel = staged_set n experts;
          L1 = incr_alloc L0;
          occ = keep_occ sel (s_occ L1);
          L2 = L1\<lparr>s_occ := occ\<rparr>
      in case occ_slots 0 occ (replicate (l_num L2) n) of
           Inl err \<Rightarrow> (Inl err, L2)
         | Inr slot_of \<Rightarrow>
             let changed = filter (\<lambda>e. map_of (s_held L2) e = None) sel;
                 new = assign_slots changed (free_slots occ);
                 kept = map (\<lambda>e. (e, the (map_of (s_held L2) e))) (filter (\<lambda>e. map_of (s_held L2) e \<noteq> None) sel)
             in (case incr_assign bld new \<lparr>a_bundles = kept, a_slots = slot_of, a_writes = []\<rparr> L2 of
                   (Inl err, L3) \<Rightarrow> (Inl err, L3)
                 | (Inr a, L3) \<Rightarrow>
                     let evicted = filter (\<lambda>(e, b). e \<notin> set sel) (s_held L3);
                         L4 = (if s_writeback L3 then fold (\<lambda>(e, b). put_shared e b) evicted L3 else L3);
                         L5 = L4\<lparr>s_held := a_bundles a,
                                 s_rows := map_option (write_rows (a_writes a)) (s_rows L4),
                                 s_table := incr_table n (map fst evicted) new (s_table L4),
                                 s_sstats := (s_sstats L4)
                                   \<lparr>n_incr_writes := n_incr_writes (s_sstats L4) + length (a_writes a),
                                    n_delta_hits := n_delta_hits (s_sstats L4) + (length sel - length (a_writes a))\<rparr>\<rparr>
                     in (res_bind (res_map (held_bundle (a_bundles a)) sel) (\<lambda>bs. Inr (bs, a_slots a, sel)), L5)))"

section \<open>The slot invariant\<close>

text \<open>
  What holds between two steps of an allocated incremental stack: an occupied slot holds the row of
  its expert and the table points at it, every other expert points at the zero row, and the held
  bundles are those of the occupants.
\<close>

definition slots_ok ::
  "nat \<Rightarrow> nat \<Rightarrow> 'b \<Rightarrow> (nat \<Rightarrow> 'b) \<Rightarrow> nat option list \<Rightarrow> (nat \<times> 'b) list \<Rightarrow> nat list \<Rightarrow> 'b list \<Rightarrow> bool" where
  "slots_ok n num z g occ held tbl rows \<longleftrightarrow>
     length occ = n \<and> length tbl = num \<and> length rows = Suc n \<and> rows ! n = z \<and>
     (\<forall>i < n. \<forall>e. occ ! i = Some e \<longrightarrow> e < num \<and> tbl ! e = i \<and> rows ! i = g e) \<and>
     (\<forall>e < num. (\<forall>i < n. occ ! i \<noteq> Some e) \<longrightarrow> tbl ! e = n) \<and>
     dom (map_of held) = {e. \<exists>i < n. occ ! i = Some e} \<and>
     (\<forall>e b. map_of held e = Some b \<longrightarrow> b = g e)"

lemma length_write_rows [simp]: "length (write_rows ws xs) = length xs"
  unfolding write_rows_def by (induction ws arbitrary: xs) (auto split: prod.splits)

lemma write_rows_nth:
  "distinct (map fst ws) \<Longrightarrow> i < length xs \<Longrightarrow>
     write_rows ws xs ! i = (case map_of ws i of None \<Rightarrow> xs ! i | Some v \<Rightarrow> v)"
proof (induction ws arbitrary: xs)
  case (Cons w ws)
  obtain j v where w: "w = (j, v)" by fastforce
  have "write_rows (w # ws) xs = write_rows ws (xs[j := v])" by (simp add: write_rows_def w)
  moreover have "map_of ws j = None" using Cons.prems(1) w by (simp add: map_of_eq_None_iff)
  moreover have "write_rows ws (xs[j := v]) ! i = (case map_of ws i of None \<Rightarrow> xs[j := v] ! i | Some v \<Rightarrow> v)"
    by (rule Cons.IH) (use Cons.prems in simp_all)
  ultimately show ?case using Cons.prems(2) by (simp add: w nth_list_update split: option.splits)
qed (simp add: write_rows_def)

lemma map_of_swap_zip:
  assumes "distinct (map snd ps)" and "(e, i) \<in> set ps"
  shows "map_of (map (\<lambda>(e, i). (i, h e)) ps) i = Some (h e)"
  using assms by (induction ps) (auto split: if_splits, force)

lemma map_of_swap_None:
  "map_of (map (\<lambda>(e, i). (i, h e)) ps) i = None \<longleftrightarrow> i \<notin> snd ` set ps"
  by (induction ps) auto

lemma assign_slots_zip:
  "length es \<le> length free \<Longrightarrow> assign_slots es free = map (\<lambda>(e, s). (e, Some s)) (zip es free)"
  by (induction es free rule: assign_slots.induct) auto

lemma free_slots_props:
  "distinct (free_slots occ)" "i \<in> set (free_slots occ) \<longleftrightarrow> i < length occ \<and> occ ! i = None"
  by (auto simp: free_slots_def)

lemma length_keep_occ [simp]: "length (keep_occ sel occ) = length occ"
  by (simp add: keep_occ_def)

lemma keep_occ_nth:
  "i < length occ \<Longrightarrow> keep_occ sel occ ! i = Some e \<longleftrightarrow> occ ! i = Some e \<and> e \<in> set sel"
  by (auto simp: keep_occ_def split: option.splits)

text \<open>There is a free slot for every changed expert.\<close>

lemma enough_slots:
  assumes ok: "slots_ok n num z g occ held tbl rows" and sel: "distinct sel" "length sel \<le> n"
  shows "length (filter (\<lambda>e. map_of held e = None) sel) \<le> length (free_slots (keep_occ sel occ))"
proof -
  let ?D = "dom (map_of held)" and ?o = "keep_occ sel occ"
  have lo: "length ?o = n" using ok by (simp add: slots_ok_def)
  let ?K = "{i. i < n \<and> ?o ! i \<noteq> None}"
  have inj: "inj_on (\<lambda>i. the (?o ! i)) ?K"
  proof (rule inj_onI)
    fix i j assume ij: "i \<in> ?K" "j \<in> ?K" "the (?o ! i) = the (?o ! j)"
    then obtain e where "?o ! i = Some e" "?o ! j = Some e" by force
    then have "occ ! i = Some e" "occ ! j = Some e"
      using ij keep_occ_nth [of i occ sel e] keep_occ_nth [of j occ sel e] ok by (simp_all add: slots_ok_def)
    then have "tbl ! e = i" "tbl ! e = j" using ok ij unfolding slots_ok_def by blast+
    then show "i = j" by simp
  qed
  have "(\<lambda>i. the (?o ! i)) ` ?K \<subseteq> set sel \<inter> ?D"
  proof
    fix e assume "e \<in> (\<lambda>i. the (?o ! i)) ` ?K"
    then obtain i where i: "i < n" "?o ! i = Some e" by auto
    then have "occ ! i = Some e \<and> e \<in> set sel"
      using keep_occ_nth [of i occ sel e] ok by (simp add: slots_ok_def)
    then show "e \<in> set sel \<inter> ?D" using i(1) ok unfolding slots_ok_def by blast
  qed
  then have K: "card ?K \<le> card (set sel \<inter> ?D)" by (rule card_inj_on_le [OF inj]) simp
  have "set (free_slots ?o) = {..<n} - ?K" unfolding free_slots_def lo by auto
  then have "length (free_slots ?o) = card ({..<n} - ?K)"
    using distinct_card [OF free_slots_props(1), of ?o] by simp
  also have "\<dots> = n - card ?K" by (subst card_Diff_subset) auto
  finally have "length (free_slots ?o) \<ge> length sel - card (set sel \<inter> ?D)" using K sel(2) by linarith
  moreover have "length (filter (\<lambda>e. map_of held e = None) sel) = card (set sel - ?D)"
    using distinct_card [of "filter (\<lambda>e. map_of held e = None) sel"] sel(1)
    by (simp add: set_diff_eq domIff)
  moreover have "card (set sel - ?D) = length sel - card (set sel \<inter> ?D)"
    using card_Diff_subset_Int [of "set sel" ?D] distinct_card [OF sel(1)] by simp
  ultimately show ?thesis by simp
qed

text \<open>The slot updates of one step keep the invariant.\<close>

lemma slots_step:
  assumes ok: "slots_ok n num z g occ held tbl rows" and sel: "distinct sel" "length sel \<le> n" "\<forall>e \<in> set sel. e < num"
    and changed: "changed = filter (\<lambda>e. map_of held e = None) sel"
    and ps: "ps = zip changed (free_slots (keep_occ sel occ))"
    and held': "\<And>e. map_of held' e = (if e \<in> set sel then Some (g e) else None)"
    and ev: "set evicted = dom (map_of held) - set sel" "distinct evicted"
  shows "slots_ok n num z g
     (write_rows (map (\<lambda>(e, s). (s, Some e)) ps) (keep_occ sel occ)) held'
     (write_rows ps (write_rows (map (\<lambda>e. (e, n)) evicted) tbl))
     (write_rows (map (\<lambda>(e, s). (s, g e)) ps) rows)"
proof -
  let ?o = "keep_occ sel occ" and ?D = "dom (map_of held)"
  let ?o' = "write_rows (map (\<lambda>(e, s). (s, Some e)) ps) ?o"
  let ?t' = "write_rows ps (write_rows (map (\<lambda>e. (e, n)) evicted) tbl)"
  let ?r' = "write_rows (map (\<lambda>(e, s). (s, g e)) ps) rows"
  have len: "length occ = n" "length tbl = num" "length rows = Suc n" "rows ! n = z"
    using ok by (simp_all add: slots_ok_def)
  have D: "e \<in> ?D \<longleftrightarrow> (\<exists>i < n. occ ! i = Some e)" for e using ok by (auto simp: slots_ok_def)
  have en: "length changed \<le> length (free_slots ?o)" unfolding changed by (rule enough_slots [OF ok sel(1,2)])
  have dp: "distinct (map fst ps)" "distinct (map snd ps)"
    using en sel(1) free_slots_props(1) [of ?o] by (simp_all add: ps changed map_fst_zip_take map_snd_zip_take)
  have dpm: "distinct (map fst (map (\<lambda>(e, s). (s, h e)) ps))" for h :: "nat \<Rightarrow> 'z"
    using dp(2) by (simp add: comp_def case_prod_beta)
  have fstps: "fst ` set ps = set changed" using en by (metis map_fst_zip_take min.absorb1 ps set_map take_all_iff order_refl)
  have sndps: "s < n \<and> ?o ! s = None" if "(e, s) \<in> set ps" for e s
    using set_zip_rightD [of e s changed "free_slots ?o"] that free_slots_props(2) [of s ?o] len by (simp add: ps)
  have o': "?o' ! i = (case map_of (map (\<lambda>(e, s). (s, Some e)) ps) i of None \<Rightarrow> ?o ! i | Some v \<Rightarrow> v)" if "i < n" for i
    by (rule write_rows_nth [OF dpm]) (use that len in simp)
  have r': "?r' ! i = (case map_of (map (\<lambda>(e, s). (s, g e)) ps) i of None \<Rightarrow> rows ! i | Some v \<Rightarrow> v)" if "i < Suc n" for i
    by (rule write_rows_nth [OF dpm]) (use that len in simp)
  have t': "?t' ! e = (case map_of ps e of None \<Rightarrow> (if e \<in> set evicted then n else tbl ! e) | Some s \<Rightarrow> s)" if "e < num" for e
    using that len ev(2) by (simp add: write_rows_nth dp comp_def map_of_map_keys split: option.splits)
      (auto simp: map_of_map_keys map_of_eq_None_iff dest: map_of_SomeD)
  have occupied: "e < num \<and> ?t' ! e = i \<and> ?r' ! i = g e \<and> e \<in> set sel" if i: "i < n" "?o' ! i = Some e" for i e
  proof (cases "i \<in> snd ` set ps")
    case True
    then obtain d where d: "(d, i) \<in> set ps" by auto
    have "d = e" using o' [OF i(1)] map_of_swap_zip [OF dp(2) d, of Some] i(2) by simp
    then have de: "(e, i) \<in> set ps" using d by simp
    then have "e \<in> fst ` set ps" by force
    then have es: "e \<in> set sel" unfolding fstps by (simp add: changed)
    have "map_of ps e = Some i" using de dp(1) by simp
    then show ?thesis using r' [of i] map_of_swap_zip [OF dp(2) de, of g] i(1) t' [of e] es sel(3) by simp
  next
    case False
    then have "?o ! i = Some e" using o' [OF i(1)] i(2) map_of_swap_None [of Some ps i] by simp
    then have oc: "occ ! i = Some e" "e \<in> set sel" using keep_occ_nth [of i occ sel e] i(1) len by simp_all
    then have e: "e < num" "tbl ! e = i" "rows ! i = g e" using ok i(1) by (simp_all add: slots_ok_def)
    have "e \<in> ?D" using D oc(1) i(1) by blast
    then have "e \<notin> set changed" by (auto simp: changed)
    then have "map_of ps e = None" using fstps by (simp add: map_of_eq_None_iff)
    then show ?thesis using e oc(2) ev(1) t' [OF e(1)] r' [of i] i(1) False map_of_swap_None [of g ps i] by simp
  qed
  have placed: "\<exists>i < n. ?o' ! i = Some e" if e: "e \<in> set sel" for e
  proof (cases "e \<in> ?D")
    case True
    then obtain i where i: "i < n" "occ ! i = Some e" using D by blast
    then have oi: "?o ! i = Some e" using keep_occ_nth [of i occ sel e] e len by simp
    have "i \<notin> snd ` set ps" using sndps oi by force
    then show ?thesis using o' [OF i(1)] oi i(1) map_of_swap_None [of Some ps i] by auto
  next
    case False
    then have "e \<in> fst ` set ps" using e fstps by (auto simp: changed)
    then obtain i where i: "(e, i) \<in> set ps" by auto
    then show ?thesis using sndps [OF i] o' map_of_swap_zip [OF dp(2) i, of Some] by (intro exI [of _ i]) simp
  qed
  have empty: "?t' ! e = n" if e: "e < num" and no: "\<forall>i < n. ?o' ! i \<noteq> Some e" for e
  proof -
    have ns: "e \<notin> set sel" using placed no by blast
    then have "map_of ps e = None" using fstps by (auto simp: map_of_eq_None_iff changed)
    moreover have "e \<notin> set evicted \<Longrightarrow> tbl ! e = n"
      using ok e ns ev(1) D by (auto simp: slots_ok_def)
    ultimately show ?thesis using t' [OF e] by simp
  qed
  have "n \<notin> snd ` set ps" using sndps by force
  then have zr: "?r' ! n = z" using r' [of n] map_of_swap_None [of g ps n] len by simp
  have dom: "dom (map_of held') = {e. \<exists>i < n. ?o' ! i = Some e}"
    using occupied placed by (auto simp: dom_def held' split: if_splits)
  show ?thesis
    unfolding slots_ok_def using occupied empty zr dom held' len by (auto split: if_splits)
qed

section \<open>The incremental step is correct\<close>

text \<open>A builder that gives every expert of the layer its bundle.\<close>

definition builds_all :: "(nat \<times> nat \<Rightarrow> 'b) \<Rightarrow> 'b slayer \<Rightarrow> (nat \<Rightarrow> 'b res) \<Rightarrow> bool" where
  "builds_all f L bld \<longleftrightarrow> (\<forall>e < l_num L. bld e = Inr (f (l_idx L, e)))"

lemma layer_ok_sstats [simp]: "layer_ok f (L\<lparr>s_sstats := st\<rparr>) = layer_ok f L"
  by (simp add: layer_ok_def)

lemma layer_ok_occ [simp]: "layer_ok f (L\<lparr>s_occ := oc\<rparr>) = layer_ok f L"
  by (simp add: layer_ok_def)

lemma resolve_ok:
  assumes ok: "layer_ok f L" and b: "bld e = Inr (f (l_idx L, e))"
  shows "\<exists>c st. resolve bld share e L = (Inr (f (l_idx L, e)), L\<lparr>l_cache := c, s_sstats := st\<rparr>) \<and>
    layer_ok f (L\<lparr>l_cache := c, s_sstats := st\<rparr>)"
proof (cases "map_of (l_pinned L) e")
  case (Some p)
  then have "p = f (l_idx L, e)" using ok by (simp add: layer_ok_def)
  then show ?thesis using Some ok
    by (intro exI [of _ "l_cache L"] exI [of _ "s_sstats L"]) (simp add: resolve_def)
next
  case None
  define c where "c = snd (cache_get (l_cache L) (l_idx L, e))"
  have g: "cache_get (l_cache L) (l_idx L, e) = (cache_peek (l_cache L) (l_idx L, e), c)"
    by (simp add: c_def prod_eq_iff)
  have okc: "layer_ok f (L\<lparr>l_cache := c\<rparr>)" unfolding c_def by (rule layer_ok_cache_get [OF ok])
  show ?thesis
  proof (cases "cache_peek (l_cache L) (l_idx L, e)")
    case (Some q)
    then have "q = f (l_idx L, e)" using ok by (simp add: layer_ok_def)
    then show ?thesis using Some None g okc
      by (intro exI [of _ c] exI [of _ "(s_sstats L)\<lparr>n_cache_hits := Suc (n_cache_hits (s_sstats L))\<rparr>"])
        (simp add: resolve_def stat_cache_def)
  next
    case n: None
    have okp: "layer_ok f (L\<lparr>l_cache := cache_put (l_idx L, e) (f (l_idx L, e)) c\<rparr>)"
      using layer_ok_put_shared [OF okc, of e] by (simp add: put_shared_def)
    show ?thesis using n None g okc okp b
      by (intro exI [of _ "if share then cache_put (l_idx L, e) (f (l_idx L, e)) c else c"]
          exI [of _ "(s_sstats L)\<lparr>n_builds := Suc (n_builds (s_sstats L))\<rparr>"])
        (cases share; simp add: resolve_def stat_build_def put_shared_def)
  qed
qed

lemma write_rows_Cons: "write_rows ((i, v) # ws) xs = write_rows ws (xs[i := v])"
  by (simp add: write_rows_def)

lemma incr_assign_ok:
  assumes "layer_ok f L" and "builds_all f L bld" and "\<forall>(e, s) \<in> set ps. e < l_num L"
    and "length (a_slots a) = l_num L"
  shows "\<exists>c st. incr_assign bld (map (\<lambda>(e, s). (e, Some s)) ps) a L =
      (Inr \<lparr>a_bundles = fold (\<lambda>(e, s). AList.update e (f (l_idx L, e))) ps (a_bundles a),
            a_slots = write_rows ps (a_slots a),
            a_writes = a_writes a @ map (\<lambda>(e, s). (s, f (l_idx L, e))) ps\<rparr>,
       L\<lparr>l_cache := c, s_sstats := st, s_occ := write_rows (map (\<lambda>(e, s). (s, Some e)) ps) (s_occ L)\<rparr>) \<and>
     layer_ok f (L\<lparr>l_cache := c\<rparr>)"
  using assms
proof (induction ps arbitrary: a L)
  case Nil
  show ?case by (rule exI [of _ "l_cache L"], rule exI [of _ "s_sstats L"]) (use Nil in \<open>simp add: write_rows_def\<close>)
next
  case (Cons p ps)
  obtain e s where p: "p = (e, s)" by fastforce
  have b: "bld e = Inr (f (l_idx L, e))" using Cons.prems(2,3) by (simp add: builds_all_def p)
  obtain c st where r: "resolve bld (\<not> s_writeback L) e L = (Inr (f (l_idx L, e)), L\<lparr>l_cache := c, s_sstats := st\<rparr>)"
    and ok: "layer_ok f (L\<lparr>l_cache := c, s_sstats := st\<rparr>)"
    using resolve_ok [of f L bld e, OF Cons.prems(1) b] by blast
  let ?L = "L\<lparr>l_cache := c, s_sstats := st, s_occ := (s_occ L)[s := Some e]\<rparr>"
  let ?a = "\<lparr>a_bundles = AList.update e (f (l_idx L, e)) (a_bundles a), a_slots = (a_slots a)[e := s],
    a_writes = a_writes a @ [(s, f (l_idx L, e))]\<rparr>"
  have step: "incr_assign bld (map (\<lambda>(e, s). (e, Some s)) (p # ps)) a L =
      incr_assign bld (map (\<lambda>(e, s). (e, Some s)) ps) ?a ?L"
    using r Cons.prems(3,4) by (simp add: p Let_def)
  have "layer_ok f ?L" using ok by (simp add: layer_ok_def)
  moreover have "builds_all f ?L bld" "\<forall>(e, s) \<in> set ps. e < l_num ?L" "length (a_slots ?a) = l_num ?L"
    using Cons.prems(2-4) by (simp_all add: builds_all_def)
  ultimately obtain c' st' where "incr_assign bld (map (\<lambda>(e, s). (e, Some s)) ps) ?a ?L =
      (Inr \<lparr>a_bundles = fold (\<lambda>(e, s). AList.update e (f (l_idx L, e))) ps (a_bundles ?a),
            a_slots = write_rows ps (a_slots ?a),
            a_writes = a_writes ?a @ map (\<lambda>(e, s). (s, f (l_idx L, e))) ps\<rparr>,
       ?L\<lparr>l_cache := c', s_sstats := st', s_occ := write_rows (map (\<lambda>(e, s). (s, Some e)) ps) (s_occ ?L)\<rparr>)"
      "layer_ok f (?L\<lparr>l_cache := c'\<rparr>)"
    using Cons.IH [of ?L ?a] by auto
  then show ?case
    unfolding step by (intro exI [of _ c'] exI [of _ st'] conjI) (simp_all add: p write_rows_Cons layer_ok_def)
qed

lemma occ_slots_ok:
  "\<forall>e. Some e \<in> set os \<longrightarrow> e < length tbl \<Longrightarrow>
     occ_slots i os tbl = Inr (write_rows (map (\<lambda>(j, o'). (the o', j)) (filter (\<lambda>(j, o'). o' \<noteq> None) (zip [i..<i + length os] os))) tbl)"
proof (induction i os tbl rule: occ_slots.induct)
  case (3 i e os tbl)
  then have "occ_slots i (Some e # os) tbl = occ_slots (Suc i) os (tbl[e := i])" by simp
  moreover have "[i..<i + length (Some e # os)] = i # [Suc i..<Suc i + length os]"
    using upt_conv_Cons [of i "i + Suc (length os)"] by simp
  ultimately show ?case using 3 by (simp add: write_rows_Cons)
next
  case (2 i os tbl)
  have "[i..<i + length (None # os)] = i # [Suc i..<Suc i + length os]"
    using upt_conv_Cons [of i "i + Suc (length os)"] by simp
  then show ?case using 2 by simp
qed (simp add: write_rows_def)

text \<open>The whole state between two steps, before and after the first allocation.\<close>

definition incr_ok :: "(nat \<times> nat \<Rightarrow> 'b) \<Rightarrow> 'b slayer \<Rightarrow> bool" where
  "incr_ok f L \<longleftrightarrow>
     (case s_rows L of
        None \<Rightarrow> s_held L = []
      | Some rows \<Rightarrow>
          dict_ok (s_held L) \<and> slots_ok (s_n L) (l_num L) (s_zero L) (\<lambda>e. f (l_idx L, e)) (s_occ L) (s_held L) (s_table L) rows)"

lemma incr_alloc_ok:
  assumes "incr_ok f L"
  shows "\<exists>rows. s_rows (incr_alloc L) = Some rows \<and> dict_ok (s_held L) \<and>
    slots_ok (s_n L) (l_num L) (s_zero L) (\<lambda>e. f (l_idx L, e)) (s_occ (incr_alloc L)) (s_held L)
      (s_table (incr_alloc L)) rows"
proof (cases "s_rows L")
  case None
  then show ?thesis using assms
    by (auto simp: incr_ok_def incr_alloc_def slots_ok_def nth_append simp del: replicate_Suc)
next
  case (Some rows)
  then show ?thesis using assms by (simp add: incr_ok_def incr_alloc_def)
qed

lemma occ_slots_nth:
  assumes "\<forall>e. Some e \<in> set os \<longrightarrow> e < length tbl" and "occ_slots i os tbl = Inr t"
    and "\<forall>a b e. a < length os \<and> b < length os \<and> os ! a = Some e \<and> os ! b = Some e \<longrightarrow> a = b"
  shows "length t = length tbl \<and> (\<forall>a < length os. \<forall>e. os ! a = Some e \<longrightarrow> t ! e = i + a) \<and>
    (\<forall>e < length tbl. Some e \<notin> set os \<longrightarrow> t ! e = tbl ! e)"
  using assms
proof (induction i os tbl rule: occ_slots.induct)
  case (2 i os tbl)
  have inj: "\<forall>a b e. a < length os \<and> b < length os \<and> os ! a = Some e \<and> os ! b = Some e \<longrightarrow> a = b"
    using 2(4) by (metis Suc_inject Suc_less_eq length_Cons nth_Cons_Suc)
  show ?case using 2(1) [OF _ _ inj] 2(2,3) by (auto simp: nth_Cons split: nat.splits)
next
  case (3 i d os tbl)
  have d: "d < length tbl" and t: "occ_slots (Suc i) os (tbl[d := i]) = Inr t" using 3(2,3) by auto
  have inj: "\<forall>a b e. a < length os \<and> b < length os \<and> os ! a = Some e \<and> os ! b = Some e \<longrightarrow> a = b"
    using 3(4) by (metis Suc_inject Suc_less_eq length_Cons nth_Cons_Suc)
  have nd: "Some d \<notin> set os"
  proof
    assume "Some d \<in> set os"
    then obtain a where "a < length os" "os ! a = Some d" by (auto simp: in_set_conv_nth)
    then have "Suc a < length (Some d # os) \<and> (0::nat) < length (Some d # os) \<and>
        (Some d # os) ! Suc a = Some d \<and> (Some d # os) ! 0 = Some d" by simp
    then have "Suc a = 0" using 3(4) by blast
    then show False by simp
  qed
  have IH: "length t = length (tbl[d := i]) \<and> (\<forall>a < length os. \<forall>e. os ! a = Some e \<longrightarrow> t ! e = Suc i + a) \<and>
      (\<forall>e < length (tbl[d := i]). Some e \<notin> set os \<longrightarrow> t ! e = tbl[d := i] ! e)"
    by (rule 3(1) [OF d _ t inj]) (use 3(2) in auto)
  then have "t ! d = i" using d nd by simp
  then show ?case using IH d by (auto simp: nth_Cons nth_list_update split: nat.splits)
qed simp

lemma slot_of_is_table:
  assumes ok: "slots_ok n num z g occ held tbl rows" and sel: "distinct sel"
    and ev: "set evicted = dom (map_of held) - set sel" "distinct evicted"
  shows "occ_slots 0 (keep_occ sel occ) (replicate num n) = Inr (write_rows (map (\<lambda>e. (e, n)) evicted) tbl)"
proof -
  let ?o = "keep_occ sel occ"
  have len: "length occ = n" "length tbl = num" using ok by (simp_all add: slots_ok_def)
  have keep: "?o ! i = Some e \<longleftrightarrow> occ ! i = Some e \<and> e \<in> set sel" if "i < n" for i e
    using keep_occ_nth [of i occ sel e] that len by simp
  have lt: "\<forall>e. Some e \<in> set ?o \<longrightarrow> e < length (replicate num n)"
    using ok keep len by (auto simp: in_set_conv_nth slots_ok_def)
  have inj: "\<forall>a b e. a < length ?o \<and> b < length ?o \<and> ?o ! a = Some e \<and> ?o ! b = Some e \<longrightarrow> a = b"
    using ok keep len unfolding slots_ok_def by (metis length_keep_occ)
  obtain t where t: "occ_slots 0 ?o (replicate num n) = Inr t" using occ_slots_ok [OF lt, of 0] by blast
  have c: "length t = num" "\<And>a e. a < n \<Longrightarrow> ?o ! a = Some e \<Longrightarrow> t ! e = a"
    "\<And>e. e < num \<Longrightarrow> Some e \<notin> set ?o \<Longrightarrow> t ! e = n"
    using occ_slots_nth [OF lt t inj] len by simp_all
  have d: "distinct (map fst (map (\<lambda>e. (e, n)) evicted))" using ev(2) by (simp add: comp_def)
  have "t = write_rows (map (\<lambda>e. (e, n)) evicted) tbl"
  proof (rule nth_equalityI)
    show "length t = length (write_rows (map (\<lambda>e. (e, n)) evicted) tbl)" using c(1) len by simp
    fix e assume "e < length t"
    then have e: "e < num" using c(1) by simp
    have w: "write_rows (map (\<lambda>e. (e, n)) evicted) tbl ! e = (if e \<in> set evicted then n else tbl ! e)"
      using write_rows_nth [OF d, of e tbl] e len
      by (auto simp: map_of_eq_None_iff map_of_map_keys split: option.splits dest: map_of_SomeD)
    show "t ! e = write_rows (map (\<lambda>e. (e, n)) evicted) tbl ! e"
    proof (cases "\<exists>i < n. occ ! i = Some e \<and> e \<in> set sel")
      case True
      then obtain i where i: "i < n" "occ ! i = Some e" "e \<in> set sel" by blast
      then have "t ! e = i" using c(2) keep by blast
      moreover have "tbl ! e = i" using ok i by (simp add: slots_ok_def)
      ultimately show ?thesis using w ev(1) i(3) by simp
    next
      case False
      then have "Some e \<notin> set ?o" using keep len by (auto simp: in_set_conv_nth)
      then have "t ! e = n" using c(3) e by blast
      moreover have "e \<notin> set evicted \<Longrightarrow> tbl ! e = n"
        using ok ev(1) False e unfolding slots_ok_def by blast
      ultimately show ?thesis using w by simp
    qed
  qed
  then show ?thesis using t by simp
qed

lemma incr_table_write_rows:
  "incr_table n evicted (map (\<lambda>(e, s). (e, Some s)) ps) tbl = write_rows ps (write_rows (map (\<lambda>e. (e, n)) evicted) tbl)"
  by (simp add: incr_table_def write_rows_def fold_map comp_def split_def)

lemma held_after:
  assumes "set (map fst ps) = {e \<in> set sel. map_of held e = None}" and "\<And>e b. map_of held e = Some b \<Longrightarrow> b = g e"
  shows "map_of (fold (\<lambda>(e, s). AList.update e (g e)) ps
      (map (\<lambda>e. (e, the (map_of held e))) (filter (\<lambda>e. map_of held e \<noteq> None) sel))) e =
    (if e \<in> set sel then Some (g e) else None)"
proof -
  have f: "map_of (fold (\<lambda>(e, s). AList.update e (g e)) ps d) e = (if e \<in> fst ` set ps then Some (g e) else map_of d e)"
    for d by (induction ps arbitrary: d) auto
  have k: "map_of (map (\<lambda>e. (e, the (map_of held e))) (filter (\<lambda>e. map_of held e \<noteq> None) sel)) e =
      (if e \<in> set sel \<and> map_of held e \<noteq> None then Some (the (map_of held e)) else None)"
    by (induction sel) auto
  show ?thesis unfolding f k using assms by auto
qed

lemma dict_ok_held_after:
  "distinct sel \<Longrightarrow> dict_ok (fold (\<lambda>(e, s). AList.update e (g e)) ps (map (\<lambda>e. (e, h e)) (filter P sel)))"
proof -
  assume "distinct sel"
  then have "dict_ok (map (\<lambda>e. (e, h e)) (filter P sel))" by (simp add: dict_ok_def keys_of_def comp_def)
  moreover have "dict_ok d \<Longrightarrow> dict_ok (fold (\<lambda>(e, s). AList.update e (g e)) ps d)" for d
    by (induction ps arbitrary: d) auto
  ultimately show ?thesis by blast
qed

lemma put_evicted_ok:
  assumes "layer_ok f L" and "\<forall>(e, b) \<in> set ev. b = f (l_idx L, e)"
  shows "\<exists>c. fold (\<lambda>(e, b). put_shared e b) ev L = L\<lparr>l_cache := c\<rparr> \<and> layer_ok f (L\<lparr>l_cache := c\<rparr>)"
  using assms
proof (induction ev arbitrary: L)
  case Nil
  then show ?case by (intro exI [of _ "l_cache L"]) simp
next
  case (Cons x ev)
  obtain e b where x: "x = (e, b)" by fastforce
  have "layer_ok f (put_shared e b L)" using layer_ok_put_shared [OF Cons.prems(1), of e] Cons.prems(2) by (simp add: x)
  then show ?case using Cons.IH [of "put_shared e b L"] Cons.prems(2) by (auto simp: x put_shared_def)
qed

lemma staged_set_props:
  "distinct (staged_set n es)" "length (staged_set n es) \<le> n" "set (staged_set n es) \<subseteq> set es"
proof -
  show "set (staged_set n es) \<subseteq> set es" using set_take_subset [of n "uniq es"] by (simp add: staged_set_def)
qed (simp_all add: staged_set_def)

text \<open>The fields a staging step never touches, and those only its last assignments touch.\<close>

definition same_slots :: "'b slayer \<Rightarrow> 'b slayer \<Rightarrow> bool" where
  "same_slots L M \<longleftrightarrow> l_idx M = l_idx L \<and> l_num M = l_num L \<and> s_n M = s_n L \<and> s_zero M = s_zero L \<and>
     s_writeback M = s_writeback L \<and> s_incr M = s_incr L \<and> s_sync M = s_sync L"

definition same_stack :: "'b slayer \<Rightarrow> 'b slayer \<Rightarrow> bool" where
  "same_stack L M \<longleftrightarrow> same_slots L M \<and> s_rows M = s_rows L \<and> s_held M = s_held L \<and> s_table M = s_table L"

lemmas same_defs = same_stack_def same_slots_def

lemma incr_assign_stack:
  assumes "layer_ok f L" and "builds_all f L bld" and "\<forall>(e, s) \<in> set ps. e < l_num L" and "length (a_slots a) = l_num L"
  obtains L' where "incr_assign bld (map (\<lambda>(e, s). (e, Some s)) ps) a L =
      (Inr \<lparr>a_bundles = fold (\<lambda>(e, s). AList.update e (f (l_idx L, e))) ps (a_bundles a),
            a_slots = write_rows ps (a_slots a),
            a_writes = a_writes a @ map (\<lambda>(e, s). (s, f (l_idx L, e))) ps\<rparr>, L')"
    and "layer_ok f L'" and "same_stack L L'" and "s_occ L' = write_rows (map (\<lambda>(e, s). (s, Some e)) ps) (s_occ L)"
proof -
  obtain c st where r: "incr_assign bld (map (\<lambda>(e, s). (e, Some s)) ps) a L =
      (Inr \<lparr>a_bundles = fold (\<lambda>(e, s). AList.update e (f (l_idx L, e))) ps (a_bundles a),
            a_slots = write_rows ps (a_slots a),
            a_writes = a_writes a @ map (\<lambda>(e, s). (s, f (l_idx L, e))) ps\<rparr>,
       L\<lparr>l_cache := c, s_sstats := st, s_occ := write_rows (map (\<lambda>(e, s). (s, Some e)) ps) (s_occ L)\<rparr>)"
    and ok: "layer_ok f (L\<lparr>l_cache := c\<rparr>)"
    using incr_assign_ok [OF assms] by blast
  show thesis by (rule that [OF r]) (use ok in \<open>simp_all add: same_defs layer_ok_def\<close>)
qed

lemma put_evicted_stack:
  assumes "layer_ok f L" and "\<forall>(e, b) \<in> set ev. b = f (l_idx L, e)"
  obtains L' where "(if w then fold (\<lambda>(e, b). put_shared e b) ev L else L) = L'"
    and "layer_ok f L'" and "same_stack L L'" and "s_occ L' = s_occ L"
proof (cases w)
  case True
  then show thesis using put_evicted_ok [OF assms] that by (auto simp: same_defs)
next
  case False
  then show thesis using assms(1) that by (auto simp: same_defs)
qed

text \<open>What is evicted: the held experts outside the new set, each with its own bundle.\<close>

lemma evicted_props:
  fixes sel :: "nat list"
  assumes "dict_ok held" and "\<And>e b. map_of held e = Some b \<Longrightarrow> b = g e"
  defines "ev \<equiv> filter (\<lambda>(e, b). e \<notin> set sel) held"
  shows "set (map fst ev) = dom (map_of held) - set sel" and "distinct (map fst ev)"
    and "\<forall>(e, b) \<in> set ev. b = g e"
proof -
  show "set (map fst ev) = dom (map_of held) - set sel"
    by (auto simp: ev_def dom_map_of_conv_image_fst image_iff)
  show "distinct (map fst ev)"
    unfolding ev_def using assms(1) by (simp add: dict_ok_def keys_of_def distinct_map_filter)
  show "\<forall>(e, b) \<in> set ev. b = g e"
    using assms(1) by (auto simp: ev_def dict_ok_def keys_of_def intro!: assms(2) map_of_is_SomeI)
qed

lemma incr_alloc_same: "same_slots L (incr_alloc L) \<and> s_held (incr_alloc L) = s_held L"
  by (simp add: same_slots_def incr_alloc_def split: option.splits)

lemma layer_ok_alloc: "layer_ok f L \<Longrightarrow> layer_ok f (incr_alloc L)"
  by (simp add: incr_alloc_def layer_ok_def split: option.splits)

text \<open>In a state that satisfies the invariant, the table sends a staged expert to its row and every other to zero.\<close>

lemma slots_ok_rows:
  assumes "slots_ok n num z g occ held tbl rows" and "e < num"
  shows "rows ! (tbl ! e) = (if e \<in> dom (map_of held) then g e else z)"
proof (cases "\<exists>i < n. occ ! i = Some e")
  case True
  then obtain i where i: "i < n" "occ ! i = Some e" by blast
  then have "e \<in> dom (map_of held)" using assms(1) unfolding slots_ok_def by blast
  then show ?thesis using assms(1) i by (simp add: slots_ok_def)
next
  case False
  then have "e \<notin> dom (map_of held)" "tbl ! e = n" using assms unfolding slots_ok_def by blast+
  moreover have "rows ! n = z" using assms(1) by (simp add: slots_ok_def)
  ultimately show ?thesis by simp
qed

text \<open>The run of one step, field by field.\<close>

lemma stage_incr_run:
  assumes "incr_ok f L" and "layer_ok f L" and "builds_all f L bld" and "\<forall>e \<in> set es. e < l_num L"
  defines "sel \<equiv> staged_set (s_n L) es" and "g \<equiv> \<lambda>e. f (l_idx L, e)"
  shows "\<exists>L' rows. stage_incr bld es L = (Inr (map g sel, s_table L', sel), L') \<and> same_slots L L' \<and> layer_ok f L' \<and>
    s_rows L' = Some rows \<and> dict_ok (s_held L') \<and> dom (map_of (s_held L')) = set sel \<and>
    slots_ok (s_n L) (l_num L) (s_zero L) g (s_occ L') (s_held L') (s_table L') rows"
proof -
  have sel: "distinct sel" "length sel \<le> s_n L" "\<forall>e \<in> set sel. e < l_num L"
    using staged_set_props [of "s_n L" es] assms(4) by (auto simp: sel_def)
  obtain rows where rows: "s_rows (incr_alloc L) = Some rows" and dict: "dict_ok (s_held L)"
    and ok: "slots_ok (s_n L) (l_num L) (s_zero L) g (s_occ (incr_alloc L)) (s_held L) (s_table (incr_alloc L)) rows"
    using incr_alloc_ok [OF assms(1)] by (auto simp: g_def)
  define occ where "occ = keep_occ sel (s_occ (incr_alloc L))"
  define L2 where "L2 = (incr_alloc L)\<lparr>s_occ := occ\<rparr>"
  define ps where "ps = zip (filter (\<lambda>e. map_of (s_held L) e = None) sel) (free_slots occ)"
  define ev where "ev = filter (\<lambda>(e, b). e \<notin> set sel) (s_held L)"
  define tbl where "tbl = write_rows (map (\<lambda>e. (e, s_n L)) (map fst ev)) (s_table (incr_alloc L))"
  let ?kept = "map (\<lambda>e. (e, the (map_of (s_held L) e))) (filter (\<lambda>e. map_of (s_held L) e \<noteq> None) sel)"
  have enough: "length (filter (\<lambda>e. map_of (s_held L) e = None) sel) \<le> length (free_slots occ)"
    unfolding occ_def by (rule enough_slots [OF ok sel(1,2)])
  have held_b: "b = g e" if "map_of (s_held L) e = Some b" for e b using ok that by (simp add: slots_ok_def)
  note ev = evicted_props [OF dict held_b, where sel = sel, folded ev_def]
  have L2: "same_slots L L2" "s_held L2 = s_held L" "s_rows L2 = Some rows" "s_table L2 = s_table (incr_alloc L)"
    "s_occ L2 = occ" "layer_ok f L2"
    using incr_alloc_same [of L] layer_ok_alloc [OF assms(2)] rows by (simp_all add: L2_def same_slots_def)
  have slot: "occ_slots 0 occ (replicate (l_num L) (s_n L)) = Inr tbl"
    unfolding occ_def tbl_def by (rule slot_of_is_table [OF ok sel(1)]) (use ev in auto)
  have pre: "builds_all f L2 bld" "\<forall>(e, s) \<in> set ps. e < l_num L2" "length tbl = l_num L2"
    using assms(3) L2(1) ok sel(3) by (auto simp: builds_all_def same_slots_def slots_ok_def ps_def tbl_def dest!: set_zip_leftD)
  obtain L3 where as: "incr_assign bld (map (\<lambda>(e, s). (e, Some s)) ps) \<lparr>a_bundles = ?kept, a_slots = tbl, a_writes = []\<rparr> L2 =
      (Inr \<lparr>a_bundles = fold (\<lambda>(e, s). AList.update e (g e)) ps ?kept, a_slots = write_rows ps tbl,
            a_writes = map (\<lambda>(e, s). (s, g e)) ps\<rparr>, L3)"
    and L3: "layer_ok f L3" "same_stack L2 L3" "s_occ L3 = write_rows (map (\<lambda>(e, s). (s, Some e)) ps) occ"
    using incr_assign_stack [OF L2(6) pre(1,2), of "\<lparr>a_bundles = ?kept, a_slots = tbl, a_writes = []\<rparr>"] pre(3) L2(1,5)
    by (auto simp: g_def same_slots_def)
  obtain L4 where put: "(if s_writeback L3 then fold (\<lambda>(e, b). put_shared e b) ev L3 else L3) = L4"
    and L4: "layer_ok f L4" "same_stack L3 L4" "s_occ L4 = s_occ L3"
    using put_evicted_stack [OF L3(1), of ev "s_writeback L3"] ev(3) L3(2) L2(1) by (auto simp: g_def same_defs)
  have fields: "l_num L2 = l_num L" "s_held L2 = s_held L" "s_held L3 = s_held L" "s_table L4 = s_table (incr_alloc L)"
    using L2 L3 L4 by (simp_all add: same_defs)
  have new: "assign_slots (filter (\<lambda>e. map_of (s_held L) e = None) sel) (free_slots occ) = map (\<lambda>(e, s). (e, Some s)) ps"
    unfolding ps_def by (rule assign_slots_zip [OF enough])
  define b where "b = fold (\<lambda>(e, s). AList.update e (g e)) ps ?kept"
  have hm: "map_of b e = (if e \<in> set sel then Some (g e) else None)" for e
    unfolding b_def using held_after [of ps sel "s_held L" g e] held_b enough by (auto simp: ps_def map_fst_zip_take)
  have bs: "res_map (held_bundle b) sel = Inr (map g sel)"
    by (rule res_map_all_Inr) (simp only: held_bundle_def hm if_True option.case)
  define L' where "L' = L4\<lparr>s_held := b, s_rows := map_option (write_rows (map (\<lambda>(e, s). (s, g e)) ps)) (s_rows L4),
    s_table := write_rows ps tbl, s_sstats := (s_sstats L4)\<lparr>n_incr_writes := n_incr_writes (s_sstats L4) + length ps,
      n_delta_hits := n_delta_hits (s_sstats L4) + (length sel - length ps)\<rparr>\<rparr>"
  have result: "stage_incr bld es L = (Inr (map g sel, s_table L', sel), L')"
    by (simp only: stage_incr_def Let_def sel_def [symmetric] occ_def [symmetric] L2_def [symmetric] fields slot
        new as put ev_def [symmetric] b_def [symmetric] sum.case prod.case incr_acc.simps incr_table_write_rows
        tbl_def [symmetric] bs res_bind_simps length_map L'_def) simp
  have "slots_ok (s_n L) (l_num L) (s_zero L) g (s_occ L') (s_held L') (s_table L') (the (s_rows L'))"
    using slots_step [OF ok sel refl ps_def [unfolded occ_def] hm, of "map fst ev"] ev L2 L3 L4
    by (simp add: L'_def tbl_def occ_def same_defs)
  moreover have "dict_ok (s_held L')" by (simp add: L'_def b_def dict_ok_held_after [OF sel(1)])
  moreover have "dom (map_of (s_held L')) = set sel" by (auto simp: L'_def hm split: if_splits)
  moreover have "s_rows L' = Some (the (s_rows L'))" "same_slots L L'" "layer_ok f L'"
    using L2 L3 L4 by (simp_all add: L'_def same_defs layer_ok_def)
  ultimately show ?thesis using result by blast
qed

text \<open>
  C13: the incremental stack. From any state that satisfies the slot invariant, staging a set of
  experts of the layer succeeds: the result is the staged set (the \<open>n\<close> smallest requested ids) with
  their bundles and the slot table, the table and the rows are exactly those a fresh assembly needs
  (staged experts at their own rows, every other expert at the zero row), and the invariant holds
  again, whatever was evicted, kept or newly loaded.
\<close>

theorem stage_incr_correct:
  assumes "incr_ok f L" and "layer_ok f L" and "builds_all f L bld" and "\<forall>e \<in> set es. e < l_num L"
  shows "\<exists>L' rows. stage_incr bld es L =
      (Inr (map (\<lambda>e. f (l_idx L, e)) (staged_set (s_n L) es), s_table L', staged_set (s_n L) es), L') \<and>
    s_rows L' = Some rows \<and> incr_ok f L' \<and> layer_ok f L' \<and> same_slots L L' \<and>
    (\<forall>e < l_num L. rows ! (s_table L' ! e) =
       (if e \<in> set (staged_set (s_n L) es) then f (l_idx L, e) else s_zero L))"
proof -
  obtain L' rows where r: "stage_incr bld es L =
      (Inr (map (\<lambda>e. f (l_idx L, e)) (staged_set (s_n L) es), s_table L', staged_set (s_n L) es), L')"
    and p: "same_slots L L'" "layer_ok f L'" "s_rows L' = Some rows" "dict_ok (s_held L')"
      "dom (map_of (s_held L')) = set (staged_set (s_n L) es)"
      "slots_ok (s_n L) (l_num L) (s_zero L) (\<lambda>e. f (l_idx L, e)) (s_occ L') (s_held L') (s_table L') rows"
    using stage_incr_run [OF assms] by blast
  have "incr_ok f L'" using p by (simp add: incr_ok_def same_slots_def)
  then show ?thesis using r p slots_ok_rows [OF p(6)] by (intro exI [of _ L'] exI [of _ rows]) simp
qed

definition demo_slayer :: "nat slayer" where
  "demo_slayer = slayer_new 0
     (default_options\<lparr>staged := True, staged_n := 3, incr_stack := True, incr_writeback := True\<rparr>)
     (layer_new 3 6 default_options None None)"

lemma demo_slayer_fields:
  "s_n demo_slayer = 3" "l_num demo_slayer = 6" "l_idx demo_slayer = 3" "s_zero demo_slayer = 0"
  "s_rows demo_slayer = None" "s_held demo_slayer = []" "s_mode demo_slayer" "s_sync demo_slayer"
  "s_incr demo_slayer" "s_writeback demo_slayer" "s_state demo_slayer = None" "s_next demo_slayer = None"
  "s_future demo_slayer = None" "s_rearm demo_slayer = None" "s_jobs demo_slayer = []"
  "s_callbacks demo_slayer = []" "\<not> s_stuck demo_slayer" "\<not> s_closed demo_slayer" "s_pending demo_slayer = None"
  by (simp_all add: demo_slayer_def slayer_new_def Let_def default_options_def layer.defs layer_new_def)

lemma demo_slayer_ok: "layer_ok (\<lambda>(i, e). 100 + e) demo_slayer" "incr_ok (\<lambda>(i, e). 100 + e) demo_slayer"
  by (simp_all add: layer_ok_def incr_ok_def demo_slayer_def slayer_new_def Let_def default_options_def layer.defs
      layer_new_def cache_new_def pbuf_new_def cache_ok_def pbuf_ok_def cache_peek_def)

lemma demo_staged_set: "staged_set 3 [4, 0, 2, 3] = [0, 2, 3]"
  by (simp add: staged_set_def uniq_def)

theorem stage_incr_correct_witness:
  "\<exists>L' rows. stage_incr (\<lambda>e. Inr (100 + e)) [4, 0, 2, 3] demo_slayer = (Inr ([100, 102, 103], s_table L', [0, 2, 3]), L') \<and>
     s_rows L' = Some rows \<and> rows ! (s_table L' ! 2) = 102 \<and> rows ! (s_table L' ! 4) = 0"
proof -
  have "builds_all (\<lambda>(i, e). 100 + e) demo_slayer (\<lambda>e. Inr (100 + e))" by (simp add: builds_all_def)
  from stage_incr_correct [OF demo_slayer_ok(2,1) this, of "[4, 0, 2, 3]", simplified demo_slayer_fields(1-4) demo_staged_set]
  show ?thesis by auto
qed

section \<open>A failed build corrupts the incremental stack\<close>

text \<open>
  \<open>_incr_occupancy\<close> is changed before the builds run and \<open>_incr_bundles\<close>, the rows and the table only
  after all of them succeeded, so an exception in the middle leaves them apart. In the example the
  layer has staged experts 0, 1 and 4, and the step that replaces 1 by 5 fails to build 5.
\<close>

definition flaky :: "nat \<Rightarrow> nat res" where
  "flaky e = (if e = 5 then Inl RuntimeError else Inr (100 + e))"

definition after_failure :: "nat slayer" where
  "after_failure = snd (stage_incr flaky [0, 4, 5] (snd (stage_incr flaky [0, 1, 4] demo_slayer)))"

text \<open>
  A failed build is not contained. Every build before and after the failing step succeeds, the
  step after it reports bundles 100, 101 and 103 for experts 0, 1 and 3, but expert 1 still counts as
  held, so it gets no slot, while its old slot is given to expert 3: the slot table sends expert 1 to
  the row of expert 3.
\<close>

theorem stage_incr_failure_corrupts:
  "case stage_incr flaky [0, 1, 3] after_failure of (r, L) \<Rightarrow>
     fst (stage_incr flaky [0, 4, 5] (snd (stage_incr flaky [0, 1, 4] demo_slayer))) = Inl RuntimeError \<and>
     map_option fst (case r of Inl _ \<Rightarrow> None | Inr x \<Rightarrow> Some x) = Some [100, 101, 103] \<and>
     map_option (\<lambda>rows. rows ! (s_table L ! 1)) (s_rows L) = Some 103"
  by code_simp

end
