(* ===== verification/Stage_Async.thy ===== *)
theory Stage_Async
  imports Staging
begin

text \<open>
  The double-buffered staged slots and their asynchronous fill (\<open>edge0/streaming/layer.py\<close>):
  \<open>stage_experts\<close>, \<open>wait_staged\<close>, \<open>swap_staged\<close>, \<open>_submit_stage_locked\<close>, \<open>_drain_rearm\<close>,
  \<open>_on_stage_done\<close>, \<open>sync_actuals\<close>, \<open>stage_from_prefill\<close>, \<open>prefetch_from_prefill\<close>, \<open>reset\<close>. The pool may
  run a submitted job at any moment; three of them matter to the submitting thread, which holds
  \<open>_staging_lock\<close>: after the submission has returned, before it looks at \<open>fut.done()\<close>, or between that
  look and \<open>add_done_callback\<close>.
\<close>

datatype timing = Late | Early | Between

definition job_of :: "'b slayer \<Rightarrow> nat \<Rightarrow> (nat list \<times> 'b fill res option) option" where
  "job_of L j = map_of (s_jobs L) j"

definition job_done :: "'b slayer \<Rightarrow> nat \<Rightarrow> bool" where
  "job_done L j \<longleftrightarrow> (case job_of L j of Some (_, Some _) \<Rightarrow> True | _ \<Rightarrow> False)"

text \<open>A pool thread runs a pending job.\<close>

definition run_job :: "(nat \<Rightarrow> 'b res) \<Rightarrow> nat \<Rightarrow> 'b slayer \<Rightarrow> 'b slayer" where
  "run_job bld j L =
     (case job_of L j of
        Some (args, None) \<Rightarrow>
          (case build_staged bld args L of
             (r, L') \<Rightarrow> L'\<lparr>s_jobs := AList.update j (args, Some r) (s_jobs L')\<rparr>)
      | _ \<Rightarrow> L)"

text \<open>
  \<open>_submit_stage_locked\<close>. In the \<open>Between\<close> timing the callback runs inside \<open>add_done_callback\<close>, on the
  thread that already holds the (non-reentrant) lock, and never returns.
\<close>

definition submit_stage :: "(nat \<Rightarrow> 'b res) \<Rightarrow> timing \<Rightarrow> nat list \<Rightarrow> 'b slayer \<Rightarrow> 'b slayer" where
  "submit_stage bld t unique L =
     (if s_closed L then L\<lparr>s_future := None\<rparr>
      else let j = length (s_jobs L);
               L = L\<lparr>s_jobs := s_jobs L @ [(j, unique, None)], s_future := Some j\<rparr>
           in case t of
                Late \<Rightarrow> L\<lparr>s_callbacks := s_callbacks L @ [j]\<rparr>
              | Early \<Rightarrow> (run_job bld j L)\<lparr>s_rearm := Some j\<rparr>
              | Between \<Rightarrow> (run_job bld j L)\<lparr>s_stuck := True\<rparr>)"

definition on_stage_done :: "(nat \<Rightarrow> 'b res) \<Rightarrow> timing \<Rightarrow> nat \<Rightarrow> 'b slayer \<Rightarrow> 'b slayer" where
  "on_stage_done bld t j L =
     (case job_of L j of
        Some (args, Some (Inr fill)) \<Rightarrow>
          let L = L\<lparr>s_next := Some fill, s_future := None\<rparr> in
          (case s_pending L of
             Some p \<Rightarrow> if p = [] then L else submit_stage bld t p (L\<lparr>s_pending := None\<rparr>)
           | None \<Rightarrow> L)
      | _ \<Rightarrow> L\<lparr>s_future := None\<rparr>)"

definition drain_rearm :: "(nat \<Rightarrow> 'b res) \<Rightarrow> timing \<Rightarrow> 'b slayer \<Rightarrow> 'b slayer" where
  "drain_rearm bld t L =
     (case s_rearm L of
        None \<Rightarrow> L
      | Some j \<Rightarrow> on_stage_done bld t j (L\<lparr>s_rearm := None\<rparr>))"

text \<open>
  \<open>stage_experts\<close>: two submissions can happen in one call (the drained one and its own), with one
  timing each. In the synchronous modes the exception of a failed build reaches the caller.
\<close>

definition stage_experts ::
  "(nat \<Rightarrow> 'b res) \<Rightarrow> timing \<times> timing \<Rightarrow> nat list \<Rightarrow> 'b slayer \<Rightarrow> unit res \<times> 'b slayer" where
  "stage_experts bld ts experts L =
     (if \<not> s_mode L then (Inr (), L)
      else let unique = uniq experts in
        if unique = [] then (Inr (), L)
        else let L = drain_rearm bld (fst ts) L in
          if s_future L \<noteq> None then (Inr (), L\<lparr>s_pending := Some unique\<rparr>)
          else if s_sync L then
            (case (if s_incr L then stage_incr bld unique L else build_staged bld unique L) of
               (Inl err, L) \<Rightarrow> (Inl err, L)
             | (Inr fill, L) \<Rightarrow> (Inr (), L\<lparr>s_next := Some fill\<rparr>))
          else (Inr (), submit_stage bld (snd ts) unique L))"

definition promote :: "'b slayer \<Rightarrow> 'b slayer" where
  "promote L = (case s_next L of None \<Rightarrow> L | Some fill \<Rightarrow> L\<lparr>s_state := Some fill, s_next := None\<rparr>)"

text \<open>\<open>wait_staged\<close> blocks (\<open>None\<close>) while the fill it waits for has not run.\<close>

definition wait_staged :: "(nat \<Rightarrow> 'b res) \<Rightarrow> timing \<Rightarrow> 'b slayer \<Rightarrow> 'b slayer option" where
  "wait_staged bld t L =
     (let L = drain_rearm bld t L in
      case s_future L of
        None \<Rightarrow> Some (promote L)
      | Some j \<Rightarrow> if job_done L j then Some (promote L) else None)"

definition swap_staged :: "(nat \<Rightarrow> 'b res) \<Rightarrow> timing \<Rightarrow> 'b slayer \<Rightarrow> 'b slayer option" where
  "swap_staged bld t L = map_option (\<lambda>L. (promote L)\<lparr>s_pending := None\<rparr>) (wait_staged bld t L)"

text \<open>\<open>sync_actuals\<close>: the routed experts of the step just decoded.\<close>

fun promote_used :: "nat list \<Rightarrow> (nat \<times> 'b) list \<Rightarrow> 'b slayer \<Rightarrow> 'b slayer" where
  "promote_used [] smap L = L"
| "promote_used (e # es) smap L =
     promote_used es smap
       (if map_of (l_pinned L) e \<noteq> None then L
        else case map_of smap e of None \<Rightarrow> L | Some b \<Rightarrow> put_shared e b L)"

definition count_dropped :: "nat list \<Rightarrow> 'b slayer \<Rightarrow> 'b slayer" where
  "count_dropped unique L =
     (case s_at_use L of
        None \<Rightarrow> L
      | Some used \<Rightarrow> L\<lparr>s_sstats := (s_sstats L)\<lparr>n_staged_dropped :=
          n_staged_dropped (s_sstats L) + length (filter (\<lambda>e. e \<notin> set used) unique)\<rparr>\<rparr>)"

definition sync_actuals :: "'b slayer \<Rightarrow> 'b slayer" where
  "sync_actuals L =
     (case s_indices L of
        None \<Rightarrow> L
      | Some flat \<Rightarrow>
          let L = L\<lparr>s_indices := None\<rparr>; unique = uniq flat in
          if unique = [] then L
          else let L = count_dropped unique (fold touch_hot unique (L\<lparr>l_last_used := unique\<rparr>))
               in if s_writeback L then L
                  else case s_state L of
                         None \<Rightarrow> L
                       | Some (bs, _, sel) \<Rightarrow> promote_used unique (fold (\<lambda>(e, b). AList.update e b) (zip sel bs) []) L)"

definition stage_from_prefill :: "(nat \<Rightarrow> 'b res) \<Rightarrow> timing \<times> timing \<Rightarrow> 'b slayer \<Rightarrow> unit res \<times> 'b slayer" where
  "stage_from_prefill bld ts L =
     (if \<not> s_mode L then (Inr (), L)
      else case s_topk L of
             None \<Rightarrow> (Inr (), L)
           | Some topk \<Rightarrow> if topk = [] then (Inr (), L)
                         else stage_experts bld ts (uniq topk) (L\<lparr>l_last_used := uniq topk\<rparr>))"

definition prefetch_from_prefill :: "(nat \<Rightarrow> 'b res) \<Rightarrow> 'b slayer \<Rightarrow> (nat \<times> 'b res) list \<times> 'b slayer" where
  "prefetch_from_prefill bld L =
     (case s_topk L of
        None \<Rightarrow> ([], L)
      | Some topk \<Rightarrow> if topk = [] then ([], L)
                    else prefetch bld (uniq topk) (L\<lparr>l_last_used := uniq topk\<rparr>))"

text \<open>The per-request reset; the fill in flight and the list of finished ones are not among its fields.\<close>

definition reset_layer :: "'b slayer \<Rightarrow> 'b slayer" where
  "reset_layer L =
     L\<lparr>s_indices := None, s_at_use := None, s_topk := None, s_state := None, s_next := None,
       s_pending := None, l_last_used := [], s_full := None\<rparr>"

definition close_layer :: "'b slayer \<Rightarrow> 'b slayer" where
  "close_layer L = L\<lparr>s_closed := True\<rparr>"

section \<open>Coherence of the staged slots\<close>

text \<open>The table \<open>_build_staged_bundles\<close> makes: slot \<open>a\<close> for the \<open>a\<close>-th staged expert, \<open>n\<close> for the others.\<close>

definition asm_table :: "nat \<Rightarrow> nat \<Rightarrow> nat list \<Rightarrow> nat list \<Rightarrow> bool" where
  "asm_table n num sel t \<longleftrightarrow> length t = num \<and> (\<forall>a < length sel. t ! (sel ! a) = a) \<and>
     (\<forall>e < num. e \<notin> set sel \<longrightarrow> t ! e = n)"

text \<open>A fill is right when it pairs each staged expert with its bundle (and its slot).\<close>

definition fill_ok :: "(nat \<times> nat \<Rightarrow> 'b) \<Rightarrow> 'b slayer \<Rightarrow> 'b fill \<Rightarrow> bool" where
  "fill_ok f L fill \<longleftrightarrow>
     (case fill of (bs, slot_of, sel) \<Rightarrow>
        distinct sel \<and> length sel \<le> s_n L \<and> (\<forall>e \<in> set sel. e < l_num L) \<and>
        bs = map (\<lambda>e. f (l_idx L, e)) sel \<and> (\<not> s_incr L \<longrightarrow> asm_table (s_n L) (l_num L) sel slot_of))"

definition job_ok :: "(nat \<times> nat \<Rightarrow> 'b) \<Rightarrow> 'b slayer \<Rightarrow> nat list \<times> 'b fill res option \<Rightarrow> bool" where
  "job_ok f L job \<longleftrightarrow> (\<forall>e \<in> set (fst job). e < l_num L) \<and> (\<forall>fill. snd job = Some (Inr fill) \<longrightarrow> fill_ok f L fill)"

text \<open>
  In the incremental mode nothing is filled in the background, and the set that the next step consumes
  (the filled one, or else the active one) is the set whose rows are in the stack.
\<close>

definition incr_active :: "'b slayer \<Rightarrow> bool" where
  "incr_active L \<longleftrightarrow> (s_incr L \<longrightarrow> s_sync L \<and> s_jobs L = [] \<and>
     (\<forall>fill. s_next L = Some fill \<longrightarrow> set (snd (snd fill)) = dom (map_of (s_held L)) \<and> s_rows L \<noteq> None) \<and>
     (\<forall>fill. s_next L = None \<and> s_state L = Some fill \<longrightarrow> set (snd (snd fill)) = dom (map_of (s_held L)) \<and> s_rows L \<noteq> None))"

definition stage_ok :: "(nat \<times> nat \<Rightarrow> 'b) \<Rightarrow> 'b slayer \<Rightarrow> bool" where
  "stage_ok f L \<longleftrightarrow> layer_ok f L \<and> incr_ok f L \<and> incr_active L \<and>
     (\<forall>fill. s_state L = Some fill \<longrightarrow> fill_ok f L fill) \<and> (\<forall>fill. s_next L = Some fill \<longrightarrow> fill_ok f L fill) \<and>
     (\<forall>job \<in> snd ` set (s_jobs L). job_ok f L job) \<and>
     (\<forall>p. s_pending L = Some p \<longrightarrow> (\<forall>e \<in> set p. e < l_num L))"

lemma fill_ok_same: "same_slots L M \<Longrightarrow> fill_ok f M fill = fill_ok f L fill"
  by (simp add: fill_ok_def same_slots_def)

lemma job_ok_same: "same_slots L M \<Longrightarrow> job_ok f M job = job_ok f L job"
proof -
  assume "same_slots L M"
  then have "l_num M = l_num L" "\<And>fill. fill_ok f M fill = fill_ok f L fill"
    by (simp add: same_slots_def) (rule fill_ok_same, fact)
  then show ?thesis by (simp add: job_ok_def)
qed

lemma same_slots_refl [simp]: "same_slots L L"
  by (simp add: same_slots_def)

lemma same_slots_trans: "same_slots L M \<Longrightarrow> same_slots M N \<Longrightarrow> same_slots L N"
  by (simp add: same_slots_def)

section \<open>The non-incremental resolver\<close>

lemma resolve_staged_ok:
  assumes "layer_ok f L" and "builds_all f L bld" and "\<forall>e \<in> set es. e < l_num L"
    and "\<And>e b. map_of prev e = Some b \<Longrightarrow> b = f (l_idx L, e)"
  shows "\<exists>c st. resolve_staged bld prev es L = (Inr (map (\<lambda>e. f (l_idx L, e)) es), L\<lparr>l_cache := c, s_sstats := st\<rparr>) \<and>
    layer_ok f (L\<lparr>l_cache := c, s_sstats := st\<rparr>)"
  using assms
proof (induction es arbitrary: L)
  case Nil
  then show ?case by (intro exI [of _ "l_cache L"] exI [of _ "s_sstats L"]) simp
next
  case (Cons e es)
  have "\<exists>c st. (case map_of prev e of Some b \<Rightarrow> (Inr b, stat_delta L) | None \<Rightarrow> resolve bld True e L) =
      (Inr (f (l_idx L, e)), L\<lparr>l_cache := c, s_sstats := st\<rparr>) \<and> layer_ok f (L\<lparr>l_cache := c, s_sstats := st\<rparr>)"
  proof (cases "map_of prev e")
    case None
    then show ?thesis using resolve_ok [of f L bld e True] Cons.prems(1-3) by (simp add: builds_all_def)
  next
    case (Some b)
    then show ?thesis using Cons.prems(1) Cons.prems(4) [OF Some]
      by (intro exI [of _ "l_cache L"] exI [of _ "(s_sstats L)\<lparr>n_delta_hits := Suc (n_delta_hits (s_sstats L))\<rparr>"])
        (simp add: stat_delta_def)
  qed
  then obtain c st where r: "(case map_of prev e of Some b \<Rightarrow> (Inr b, stat_delta L) | None \<Rightarrow> resolve bld True e L) =
      (Inr (f (l_idx L, e)), L\<lparr>l_cache := c, s_sstats := st\<rparr>)" and ok: "layer_ok f (L\<lparr>l_cache := c, s_sstats := st\<rparr>)"
    by blast
  have "builds_all f (L\<lparr>l_cache := c, s_sstats := st\<rparr>) bld" using Cons.prems(2) by (simp add: builds_all_def)
  then obtain c' st' where r': "resolve_staged bld prev es (L\<lparr>l_cache := c, s_sstats := st\<rparr>) =
      (Inr (map (\<lambda>e. f (l_idx L, e)) es), L\<lparr>l_cache := c', s_sstats := st'\<rparr>)"
    "layer_ok f (L\<lparr>l_cache := c', s_sstats := st'\<rparr>)"
    using Cons.IH [OF ok] Cons.prems(3,4) by auto
  show ?case by (intro exI [of _ c'] exI [of _ st']) (simp only: resolve_staged.simps r prod.case sum.case r', simp add: r'(2))
qed

lemma fill_slots_ok:
  "\<forall>e \<in> set es. e < length tbl \<Longrightarrow> distinct es \<Longrightarrow>
     \<exists>t. fill_slots i es tbl = Inr t \<and> length t = length tbl \<and>
       (\<forall>a < length es. t ! (es ! a) = i + a) \<and> (\<forall>e < length tbl. e \<notin> set es \<longrightarrow> t ! e = tbl ! e)"
proof (induction i es tbl rule: fill_slots.induct)
  case (2 i e es tbl)
  then obtain t where t: "fill_slots (Suc i) es (tbl[e := i]) = Inr t" "length t = length tbl"
    "\<forall>a < length es. t ! (es ! a) = Suc i + a" "\<forall>d < length tbl. d \<notin> set es \<longrightarrow> t ! d = tbl[e := i] ! d"
    by fastforce
  have "\<forall>a < length (e # es). t ! ((e # es) ! a) = i + a"
    using t 2(2,3) by (auto simp: nth_Cons split: nat.splits)
  then show ?case using t 2(2) by (intro exI [of _ t]) auto
qed auto

lemma map_of_zip_fold:
  "map_of (fold (\<lambda>(e, b). AList.update e b) (zip sel bs) d) e = Some b \<Longrightarrow> map_of d e = Some b \<or> (e, b) \<in> set (zip sel bs)"
proof (induction "zip sel bs" arbitrary: sel bs d)
  case (Cons x xs)
  then obtain s sel' c bs' where z: "sel = s # sel'" "bs = c # bs'" "x = (s, c)" "xs = zip sel' bs'"
    by (cases sel; cases bs) auto
  then show ?case using Cons(1) [of sel' bs' "AList.update s c d"] Cons(3) by (auto split: if_splits)
qed auto

lemma build_staged_ok:
  assumes "stage_ok f L" and "builds_all f L bld" and "\<forall>e \<in> set es. e < l_num L"
  shows "\<exists>c st t. build_staged bld es L =
      (Inr (map (\<lambda>e. f (l_idx L, e)) (staged_set (s_n L) es), t, staged_set (s_n L) es), L\<lparr>l_cache := c, s_sstats := st\<rparr>) \<and>
    layer_ok f (L\<lparr>l_cache := c, s_sstats := st\<rparr>) \<and> asm_table (s_n L) (l_num L) (staged_set (s_n L) es) t"
proof -
  let ?sel = "staged_set (s_n L) es"
  let ?prev = "case s_state L of None \<Rightarrow> [] | Some (pb, _, pexp) \<Rightarrow> fold (\<lambda>(e, b). AList.update e b) (zip pexp pb) []"
  have sel: "distinct ?sel" "\<forall>e \<in> set ?sel. e < l_num L" using staged_set_props [of "s_n L" es] assms(3) by auto
  obtain t where t: "fill_slots 0 ?sel (replicate (l_num L) (s_n L)) = Inr t" "length t = l_num L"
    "\<forall>a < length ?sel. t ! (?sel ! a) = a" "\<forall>e < l_num L. e \<notin> set ?sel \<longrightarrow> t ! e = s_n L"
    using fill_slots_ok [of ?sel "replicate (l_num L) (s_n L)" 0] sel by auto
  have prev: "b = f (l_idx L, e)" if p: "map_of ?prev e = Some b" for e b
  proof (cases "s_state L")
    case None
    then show ?thesis using p by simp
  next
    case (Some fill)
    obtain pb so ps where fill: "fill = (pb, so, ps)" by (cases fill) auto
    have "pb = map (\<lambda>e. f (l_idx L, e)) ps" using assms(1) Some by (simp add: stage_ok_def fill_ok_def fill)
    moreover have "(e, b) \<in> set (zip ps pb)" using map_of_zip_fold [of ps pb "[]" e b] p Some fill by simp
    ultimately show ?thesis by (auto simp: set_zip)
  qed
  have "layer_ok f L" using assms(1) by (simp add: stage_ok_def)
  from resolve_staged_ok [OF this assms(2) sel(2), of ?prev, OF prev] obtain c st where
    "resolve_staged bld ?prev ?sel L = (Inr (map (\<lambda>e. f (l_idx L, e)) ?sel), L\<lparr>l_cache := c, s_sstats := st\<rparr>)"
    "layer_ok f (L\<lparr>l_cache := c, s_sstats := st\<rparr>)" by blast
  then show ?thesis using t by (intro exI [of _ c] exI [of _ st] exI [of _ t]) (simp add: build_staged_def Let_def asm_table_def)
qed

text \<open>The stack \<open>_build_asm\<close> assembles from a fill: its bundles, padded with zero rows to \<open>n + 1\<close>.\<close>

definition asm_rows :: "'b slayer \<Rightarrow> 'b list \<Rightarrow> 'b list" where
  "asm_rows L bs = bs @ replicate (s_n L + 1 - length bs) (s_zero L)"

lemma asm_row:
  assumes "asm_table (s_n L) (l_num L) sel t" and "length sel \<le> s_n L" and "e < l_num L"
  shows "t ! e < length (asm_rows L (map g sel)) \<and>
    asm_rows L (map g sel) ! (t ! e) = (if e \<in> set sel then g e else s_zero L)"
proof (cases "e \<in> set sel")
  case True
  then obtain a where "a < length sel" "sel ! a = e" by (auto simp: in_set_conv_nth)
  then show ?thesis using assms(1,2) True by (auto simp: asm_table_def asm_rows_def nth_append)
next
  case False
  then show ?thesis using assms by (simp add: asm_table_def asm_rows_def nth_append)
qed

text \<open>
  The incremental stack is an optimisation of the per-step assembly. From any coherent state both
  resolvers stage the same experts with the same bundles, and looking an expert of the layer up through
  the incremental table and tensors gives the row that the freshly assembled stack gives.
\<close>

theorem staged_resolvers_agree:
  assumes "stage_ok f L" and "builds_all f L bld" and "\<forall>e \<in> set es. e < l_num L"
  shows "\<exists>bs t u sel L' rows. fst (build_staged bld es L) = Inr (bs, t, sel) \<and>
    stage_incr bld es L = (Inr (bs, u, sel), L') \<and> s_rows L' = Some rows \<and>
    (\<forall>e < l_num L. rows ! (s_table L' ! e) = asm_rows L bs ! (t ! e))"
proof -
  let ?sel = "staged_set (s_n L) es" and ?g = "\<lambda>e. f (l_idx L, e)"
  obtain c st t where b: "build_staged bld es L = (Inr (map ?g ?sel, t, ?sel), L\<lparr>l_cache := c, s_sstats := st\<rparr>)"
    and t: "asm_table (s_n L) (l_num L) ?sel t"
    using build_staged_ok [OF assms] by blast
  have "incr_ok f L" "layer_ok f L" using assms(1) by (simp_all add: stage_ok_def)
  from stage_incr_correct [OF this assms(2,3)] obtain L' rows where i: "stage_incr bld es L = (Inr (map ?g ?sel, s_table L', ?sel), L')"
    "s_rows L' = Some rows" "\<forall>e < l_num L. rows ! (s_table L' ! e) = (if e \<in> set ?sel then ?g e else s_zero L)"
    by blast
  show ?thesis
    using b i asm_row [OF t staged_set_props(2), of _ ?g]
    by (intro exI [of _ "map ?g ?sel"] exI [of _ t] exI [of _ "s_table L'"] exI [of _ ?sel] exI [of _ L'] exI [of _ rows]) simp
qed

section \<open>Histories of the staged slots\<close>

text \<open>
  The main thread runs one operation at a time and only while it is not stuck; the pool runs a pending
  job or the callback of a finished one at any moment.
\<close>

inductive stage_step :: "(nat \<Rightarrow> 'b res) \<Rightarrow> 'b slayer \<Rightarrow> 'b slayer \<Rightarrow> bool" for bld where
  stage: "\<not> s_stuck L \<Longrightarrow> \<forall>e \<in> set es. e < l_num L \<Longrightarrow> stage_step bld L (snd (stage_experts bld ts es L))"
| run: "stage_step bld L (run_job bld j L)"
| callback: "\<not> s_stuck L \<Longrightarrow> j \<in> set (s_callbacks L) \<Longrightarrow> job_done L j \<Longrightarrow>
    stage_step bld L ((on_stage_done bld t j L)\<lparr>s_callbacks := remove1 j (s_callbacks L)\<rparr>)"
| wait: "\<not> s_stuck L \<Longrightarrow> wait_staged bld t L = Some L' \<Longrightarrow> stage_step bld L L'"
| swap: "\<not> s_stuck L \<Longrightarrow> swap_staged bld t L = Some L' \<Longrightarrow> stage_step bld L L'"
| routed: "stage_step bld L (L\<lparr>s_indices := Some flat\<rparr>)"
| actuals: "stage_step bld L (sync_actuals L)"
| prefilled: "\<forall>e \<in> set topk. e < l_num L \<Longrightarrow> stage_step bld L (L\<lparr>s_topk := Some topk\<rparr>)"
| reset: "\<not> s_stuck L \<Longrightarrow> stage_step bld L (reset_layer L)"
| close: "stage_step bld L (close_layer L)"

inductive_cases stage_step_elim: "stage_step bld L M"

abbreviation stage_run :: "(nat \<Rightarrow> 'b res) \<Rightarrow> 'b slayer \<Rightarrow> 'b slayer \<Rightarrow> bool" where
  "stage_run bld \<equiv> (stage_step bld)\<^sup>*\<^sup>*"

text \<open>Updates of bookkeeping fields keep the invariant.\<close>

lemma stage_ok_frame:
  assumes "stage_ok f L" and "same_slots L M" and "layer_ok f M" and "incr_ok f M" and "incr_active M"
    and "\<forall>fill. s_state M = Some fill \<longrightarrow> fill_ok f L fill" and "\<forall>fill. s_next M = Some fill \<longrightarrow> fill_ok f L fill"
    and "\<forall>job \<in> snd ` set (s_jobs M). job_ok f L job" and "\<forall>p. s_pending M = Some p \<longrightarrow> (\<forall>e \<in> set p. e < l_num L)"
  shows "stage_ok f M"
proof -
  have "l_num M = l_num L" using assms(2) by (simp add: same_slots_def)
  then show ?thesis
    using assms fill_ok_same [OF assms(2)] job_ok_same [OF assms(2)] by (simp add: stage_ok_def)
qed

text \<open>Fields that neither the residency invariant nor the slot invariant reads.\<close>

lemma layer_ok_staging [simp]:
  "layer_ok f (L\<lparr>s_jobs := js\<rparr>) = layer_ok f L" "layer_ok f (L\<lparr>s_future := fu\<rparr>) = layer_ok f L"
  "layer_ok f (L\<lparr>s_callbacks := cs\<rparr>) = layer_ok f L" "layer_ok f (L\<lparr>s_rearm := ra\<rparr>) = layer_ok f L"
  "layer_ok f (L\<lparr>s_stuck := sk\<rparr>) = layer_ok f L" "layer_ok f (L\<lparr>s_next := nx\<rparr>) = layer_ok f L"
  "layer_ok f (L\<lparr>s_state := sx\<rparr>) = layer_ok f L" "layer_ok f (L\<lparr>s_pending := pe\<rparr>) = layer_ok f L"
  "layer_ok f (L\<lparr>s_indices := ix\<rparr>) = layer_ok f L" "layer_ok f (L\<lparr>s_topk := tk\<rparr>) = layer_ok f L"
  "layer_ok f (L\<lparr>s_at_use := au\<rparr>) = layer_ok f L" "layer_ok f (L\<lparr>s_full := fl\<rparr>) = layer_ok f L"
  "layer_ok f (L\<lparr>s_closed := cl\<rparr>) = layer_ok f L" "layer_ok f (L\<lparr>l_last_used := lu\<rparr>) = layer_ok f L"
  by (simp_all add: layer_ok_def)

lemma incr_ok_staging [simp]:
  "incr_ok f (L\<lparr>s_jobs := js\<rparr>) = incr_ok f L" "incr_ok f (L\<lparr>s_future := fu\<rparr>) = incr_ok f L"
  "incr_ok f (L\<lparr>s_callbacks := cs\<rparr>) = incr_ok f L" "incr_ok f (L\<lparr>s_rearm := ra\<rparr>) = incr_ok f L"
  "incr_ok f (L\<lparr>s_stuck := sk\<rparr>) = incr_ok f L" "incr_ok f (L\<lparr>s_next := nx\<rparr>) = incr_ok f L"
  "incr_ok f (L\<lparr>s_state := sx\<rparr>) = incr_ok f L" "incr_ok f (L\<lparr>s_pending := pe\<rparr>) = incr_ok f L"
  "incr_ok f (L\<lparr>s_indices := ix\<rparr>) = incr_ok f L" "incr_ok f (L\<lparr>s_topk := tk\<rparr>) = incr_ok f L"
  "incr_ok f (L\<lparr>s_at_use := au\<rparr>) = incr_ok f L" "incr_ok f (L\<lparr>s_full := fl\<rparr>) = incr_ok f L"
  "incr_ok f (L\<lparr>s_closed := cl\<rparr>) = incr_ok f L" "incr_ok f (L\<lparr>l_last_used := lu\<rparr>) = incr_ok f L"
  "incr_ok f (L\<lparr>l_cache := c\<rparr>) = incr_ok f L" "incr_ok f (L\<lparr>s_sstats := st\<rparr>) = incr_ok f L"
  by (simp_all add: incr_ok_def split: option.split)

lemma snd_set_update: "snd ` set (AList.update k v d) \<subseteq> insert v (snd ` set d)"
  by (induction d) (auto simp: image_iff)

lemma job_of_ok:
  assumes "stage_ok f L" and "job_of L j = Some job"
  shows "job_ok f L job"
proof -
  have "(j, job) \<in> set (s_jobs L)" using assms(2) by (simp add: job_of_def map_of_SomeD)
  then have "job \<in> snd ` set (s_jobs L)" by (rule image_eqI [rotated]) simp
  then show ?thesis using assms(1) unfolding stage_ok_def by blast
qed

lemma run_job_ok:
  assumes ok: "stage_ok f L" and b: "builds_all f L bld"
  shows "stage_ok f (run_job bld j L) \<and> same_slots L (run_job bld j L) \<and> s_pending (run_job bld j L) = s_pending L"
proof (cases "\<exists>args. job_of L j = Some (args, None)")
  case False
  then have "run_job bld j L = L" by (auto simp: run_job_def split: option.splits)
  then show ?thesis using ok by simp
next
  case True
  then obtain args where args: "job_of L j = Some (args, None)" by blast
  from job_of_ok [OF ok this] have lt: "\<forall>e \<in> set args. e < l_num L" by (simp add: job_ok_def)
  obtain c st t where r: "build_staged bld args L =
      (Inr (map (\<lambda>e. f (l_idx L, e)) (staged_set (s_n L) args), t, staged_set (s_n L) args), L\<lparr>l_cache := c, s_sstats := st\<rparr>)"
    and lok: "layer_ok f (L\<lparr>l_cache := c, s_sstats := st\<rparr>)" and t: "asm_table (s_n L) (l_num L) (staged_set (s_n L) args) t"
    using build_staged_ok [OF ok b lt] by blast
  let ?fill = "(map (\<lambda>e. f (l_idx L, e)) (staged_set (s_n L) args), t, staged_set (s_n L) args)"
  have fill: "fill_ok f L ?fill" using staged_set_props [of "s_n L" args] lt t by (auto simp: fill_ok_def)
  have rj: "run_job bld j L = L\<lparr>l_cache := c, s_sstats := st, s_jobs := AList.update j (args, Some (Inr ?fill)) (s_jobs L)\<rparr>"
    using args r by (simp add: run_job_def)
  have "\<forall>job \<in> snd ` set (AList.update j (args, Some (Inr ?fill)) (s_jobs L)). job_ok f L job"
    using snd_set_update [of j "(args, Some (Inr ?fill))" "s_jobs L"] ok fill lt by (auto simp: stage_ok_def job_ok_def)
  moreover have "s_jobs L \<noteq> []" using args by (auto simp: job_of_def)
  ultimately have "stage_ok f (run_job bld j L)"
    by (intro stage_ok_frame [OF ok]) (use ok lok in \<open>simp_all add: rj same_slots_def stage_ok_def incr_active_def\<close>)
  then show ?thesis by (simp add: rj same_slots_def)
qed

lemma submit_stage_ok:
  assumes ok: "stage_ok f L" and b: "builds_all f L bld" and u: "\<forall>e \<in> set unique. e < l_num L" and ni: "\<not> s_incr L"
  shows "stage_ok f (submit_stage bld t unique L) \<and> same_slots L (submit_stage bld t unique L)"
proof -
  have fr: "stage_ok f (M\<lparr>s_future := a\<rparr>) = stage_ok f M" "stage_ok f (M\<lparr>s_callbacks := cs\<rparr>) = stage_ok f M"
    "stage_ok f (M\<lparr>s_rearm := a\<rparr>) = stage_ok f M" "stage_ok f (M\<lparr>s_stuck := x\<rparr>) = stage_ok f M"
    for M :: "'a slayer" and a cs x
    by (simp_all add: stage_ok_def fill_ok_def job_ok_def incr_active_def)
  let ?j = "length (s_jobs L)"
  let ?L = "L\<lparr>s_jobs := s_jobs L @ [(?j, unique, None)], s_future := Some ?j\<rparr>"
  have okL: "stage_ok f ?L"
    by (rule stage_ok_frame [OF ok]) (use ok u ni in \<open>auto simp: same_slots_def stage_ok_def job_ok_def incr_active_def\<close>)
  have "builds_all f ?L bld" using b by (simp add: builds_all_def)
  note rj = run_job_ok [OF okL this, of ?j]
  show ?thesis using ok okL rj
    by (cases t) (simp_all add: submit_stage_def Let_def fr same_slots_def)
qed

lemma on_stage_done_ok:
  assumes ok: "stage_ok f L" and b: "builds_all f L bld"
  shows "stage_ok f (on_stage_done bld t j L) \<and> same_slots L (on_stage_done bld t j L)"
proof (cases "\<exists>args fill. job_of L j = Some (args, Some (Inr fill))")
  case False
  then have "on_stage_done bld t j L = L\<lparr>s_future := None\<rparr>"
    by (auto simp: on_stage_done_def split: option.splits sum.splits prod.splits)
  moreover have "stage_ok f (L\<lparr>s_future := None\<rparr>)" using ok by (simp add: stage_ok_def fill_ok_def job_ok_def incr_active_def)
  ultimately show ?thesis by (simp add: same_slots_def)
next
  case True
  then obtain args fill where j: "job_of L j = Some (args, Some (Inr fill))" by blast
  from job_of_ok [OF ok this] have "fill_ok f L fill" by (simp add: job_ok_def)
  moreover have ni: "\<not> s_incr L" using j ok by (auto simp: job_of_def stage_ok_def incr_active_def)
  ultimately have okL: "stage_ok f (L\<lparr>s_next := Some fill, s_future := None\<rparr>)"
    by (intro stage_ok_frame [OF ok]) (use ok in \<open>simp_all add: same_slots_def stage_ok_def incr_active_def\<close>)
  have okP: "stage_ok f (L\<lparr>s_next := Some fill, s_future := None, s_pending := None\<rparr>)"
    by (intro stage_ok_frame [OF okL]) (use okL ni in \<open>simp_all add: same_slots_def stage_ok_def incr_active_def\<close>)
  have bP: "builds_all f (L\<lparr>s_next := Some fill, s_future := None, s_pending := None\<rparr>) bld"
    using b by (simp add: builds_all_def)
  show ?thesis
  proof (cases "s_pending L")
    case None
    then show ?thesis using j okL by (simp add: on_stage_done_def same_slots_def)
  next
    case (Some p)
    have "\<forall>e \<in> set p. e < l_num L" using ok Some by (simp add: stage_ok_def)
    then show ?thesis using submit_stage_ok [OF okP bP, of p t] ni j Some okL
      by (simp add: on_stage_done_def same_slots_def Let_def)
  qed
qed

lemma builds_all_same: "same_slots L M \<Longrightarrow> builds_all f L bld \<Longrightarrow> builds_all f M bld"
  by (simp add: builds_all_def same_slots_def)

lemma drain_rearm_ok:
  assumes "stage_ok f L" and "builds_all f L bld"
  shows "stage_ok f (drain_rearm bld t L) \<and> same_slots L (drain_rearm bld t L)"
proof (cases "s_rearm L")
  case (Some j)
  have "stage_ok f (L\<lparr>s_rearm := None\<rparr>)" using assms(1) by (simp add: stage_ok_def fill_ok_def job_ok_def incr_active_def)
  moreover have "builds_all f (L\<lparr>s_rearm := None\<rparr>) bld" using assms(2) by (simp add: builds_all_def)
  ultimately show ?thesis using on_stage_done_ok [of f "L\<lparr>s_rearm := None\<rparr>" bld t j] Some
    by (simp add: drain_rearm_def same_slots_def)
qed (use assms in \<open>simp add: drain_rearm_def\<close>)

text \<open>What \<open>_stage_incr\<close> leaves alone.\<close>

definition same_async :: "'b slayer \<Rightarrow> 'b slayer \<Rightarrow> bool" where
  "same_async L M \<longleftrightarrow> s_state M = s_state L \<and> s_jobs M = s_jobs L \<and> s_pending M = s_pending L"

lemma resolve_frame: "same_async L (snd (resolve bld share e L))"
  by (auto simp: resolve_def same_async_def stat_cache_def stat_build_def put_shared_def
      split: option.splits prod.splits sum.splits)

lemma incr_assign_frame: "same_async L (snd (incr_assign bld new a L))"
proof (induction bld new a L rule: incr_assign.induct)
  case (3 bld e slot rest a L)
  obtain r M where r: "resolve bld (\<not> s_writeback L) e L = (r, M)" by fastforce
  have M: "same_async L M" using resolve_frame [of L bld "\<not> s_writeback L" e] r by simp
  show ?case using 3 M by (auto simp: r Let_def same_async_def split: sum.splits)
qed (simp_all add: same_async_def)

lemma put_fold_frame: "same_async L (fold (\<lambda>(e, b). put_shared e b) ev L)"
  by (induction ev arbitrary: L) (auto simp: same_async_def put_shared_def)

lemma incr_assign_frameD:
  "incr_assign bld new a L = (r, M) \<Longrightarrow> s_state M = s_state L \<and> s_jobs M = s_jobs L \<and> s_pending M = s_pending L"
  using incr_assign_frame [of L bld new a] by (simp add: same_async_def)

lemma put_fold_fields:
  fixes L :: "'b slayer"
  shows "s_state (fold (\<lambda>(e, b). put_shared e b) ev L) = s_state L"
  "s_jobs (fold (\<lambda>(e, b). put_shared e b) ev L) = s_jobs L"
  "s_pending (fold (\<lambda>(e, b). put_shared e b) ev L) = s_pending L"
  using put_fold_frame [of L ev] by (simp_all add: same_async_def)

lemma stage_incr_frame:
  "s_state (snd (stage_incr bld es L)) = s_state L \<and> s_jobs (snd (stage_incr bld es L)) = s_jobs L \<and>
   s_pending (snd (stage_incr bld es L)) = s_pending L"
proof -
  have a: "s_state (incr_alloc L) = s_state L" "s_jobs (incr_alloc L) = s_jobs L" "s_pending (incr_alloc L) = s_pending L"
    by (simp_all add: incr_alloc_def split: option.split)
  show ?thesis
    unfolding stage_incr_def Let_def
    by (auto simp: a put_fold_fields split: sum.splits prod.splits if_splits dest!: incr_assign_frameD)
qed

lemma stage_experts_ok:
  assumes ok: "stage_ok f L" and b: "builds_all f L bld" and es: "\<forall>e \<in> set es. e < l_num L"
  shows "stage_ok f (snd (stage_experts bld ts es L)) \<and> same_slots L (snd (stage_experts bld ts es L))"
proof -
  define M where "M = drain_rearm bld (fst ts) L"
  have M: "stage_ok f M" "same_slots L M" using drain_rearm_ok [OF ok b] by (simp_all add: M_def)
  have bM: "builds_all f M bld" by (rule builds_all_same [OF M(2) b])
  have esM: "\<forall>e \<in> set (uniq es). e < l_num M" using es M(2) by (simp add: same_slots_def)
  consider (off) "\<not> s_mode L \<or> es = []" | (busy) "s_mode L" "es \<noteq> []" "s_future M \<noteq> None"
    | (incr) "s_mode L" "es \<noteq> []" "s_future M = None" "s_sync M" "s_incr M"
    | (plain) "s_mode L" "es \<noteq> []" "s_future M = None" "s_sync M" "\<not> s_incr M"
    | (async) "s_mode L" "es \<noteq> []" "s_future M = None" "\<not> s_sync M" by blast
  then show ?thesis
  proof cases
    case off
    then show ?thesis using ok by (simp add: stage_experts_def Let_def)
  next
    case busy
    have "stage_ok f (M\<lparr>s_pending := Some (uniq es)\<rparr>)"
      by (rule stage_ok_frame [OF M(1)]) (use M(1) esM in \<open>simp_all add: same_slots_def stage_ok_def incr_active_def\<close>)
    then show ?thesis using busy M(2) by (auto simp: stage_experts_def Let_def M_def [symmetric] same_slots_def)
  next
    case incr
    have "incr_ok f M" "layer_ok f M" using M(1) by (simp_all add: stage_ok_def)
    from stage_incr_run [OF this bM esM] obtain N rows where
      N: "stage_incr bld (uniq es) M = (Inr (map (\<lambda>e. f (l_idx M, e)) (staged_set (s_n M) (uniq es)), s_table N,
        staged_set (s_n M) (uniq es)), N)" "same_slots M N" "layer_ok f N" "s_rows N = Some rows" "dict_ok (s_held N)"
        "dom (map_of (s_held N)) = set (staged_set (s_n M) (uniq es))"
        "slots_ok (s_n M) (l_num M) (s_zero M) (\<lambda>e. f (l_idx M, e)) (s_occ N) (s_held N) (s_table N) rows" by blast
    have iN: "incr_ok f N" using N by (simp add: incr_ok_def same_slots_def)
    have fr: "s_state N = s_state M \<and> s_jobs N = s_jobs M \<and> s_pending N = s_pending M"
      using stage_incr_frame [of bld "uniq es" M] N(1) by simp
    let ?fill = "(map (\<lambda>e. f (l_idx M, e)) (staged_set (s_n M) (uniq es)), s_table N, staged_set (s_n M) (uniq es))"
    have "fill_ok f M ?fill"
      using staged_set_props [of "s_n M" "uniq es"] esM incr N(2) M(2) by (auto simp: fill_ok_def same_slots_def)
    then have "stage_ok f (N\<lparr>s_next := Some ?fill\<rparr>)"
      by (intro stage_ok_frame [OF M(1)]) (use M(1) N(2-6) iN fr in \<open>simp_all add: same_slots_def stage_ok_def incr_active_def\<close>)
    then show ?thesis using incr N(1,2) M(2) by (simp add: stage_experts_def Let_def M_def [symmetric] same_slots_def)
  next
    case plain
    obtain c st t where B: "build_staged bld (uniq es) M =
        (Inr (map (\<lambda>e. f (l_idx M, e)) (staged_set (s_n M) (uniq es)), t, staged_set (s_n M) (uniq es)),
         M\<lparr>l_cache := c, s_sstats := st\<rparr>)" "layer_ok f (M\<lparr>l_cache := c, s_sstats := st\<rparr>)"
        "asm_table (s_n M) (l_num M) (staged_set (s_n M) (uniq es)) t"
      using build_staged_ok [OF M(1) bM esM] by blast
    let ?fill = "(map (\<lambda>e. f (l_idx M, e)) (staged_set (s_n M) (uniq es)), t, staged_set (s_n M) (uniq es))"
    have "fill_ok f M ?fill" using staged_set_props [of "s_n M" "uniq es"] esM B(3) by (auto simp: fill_ok_def)
    then have "stage_ok f (M\<lparr>l_cache := c, s_sstats := st, s_next := Some ?fill\<rparr>)"
      by (intro stage_ok_frame [OF M(1)]) (use M(1) B(2) plain in \<open>simp_all add: same_slots_def stage_ok_def incr_active_def\<close>)
    then show ?thesis using plain B(1) M(2) by (simp add: stage_experts_def Let_def M_def [symmetric] same_slots_def)
  next
    case async
    have "\<forall>e \<in> set (uniq es). e < l_num M" by (rule esM)
    moreover have "\<not> s_incr M" using M(1) async by (auto simp: stage_ok_def incr_active_def)
    ultimately have "stage_ok f (submit_stage bld (snd ts) (uniq es) M) \<and> same_slots M (submit_stage bld (snd ts) (uniq es) M)"
      by (rule submit_stage_ok [OF M(1) bM])
    then show ?thesis using async M(2)
      by (auto simp: stage_experts_def Let_def M_def [symmetric] intro: same_slots_trans)
  qed
qed

lemma promote_ok: "stage_ok f L \<Longrightarrow> stage_ok f (promote L) \<and> same_slots L (promote L)"
proof (cases "s_next L")
  case (Some fill)
  assume ok: "stage_ok f L"
  have "stage_ok f (L\<lparr>s_state := Some fill, s_next := None\<rparr>)"
    by (rule stage_ok_frame [OF ok]) (use ok Some in \<open>simp_all add: same_slots_def stage_ok_def incr_active_def\<close>)
  then show ?thesis using Some by (simp add: promote_def same_slots_def)
qed (simp add: promote_def)

lemma wait_staged_ok:
  assumes "stage_ok f L" and "builds_all f L bld" and "wait_staged bld t L = Some L'"
  shows "stage_ok f L' \<and> same_slots L L'"
proof -
  let ?M = "drain_rearm bld t L"
  have "L' = promote ?M" using assms(3) by (auto simp: wait_staged_def Let_def split: option.splits if_splits)
  then show ?thesis using drain_rearm_ok [OF assms(1,2), of t] promote_ok [of f ?M] by (auto intro: same_slots_trans)
qed

lemma stage_ok_pending_None: "stage_ok f L \<Longrightarrow> stage_ok f (L\<lparr>s_pending := None\<rparr>)"
  by (simp add: stage_ok_def fill_ok_def job_ok_def incr_active_def)

lemma swap_staged_ok:
  assumes "stage_ok f L" and "builds_all f L bld" and "swap_staged bld t L = Some L'"
  shows "stage_ok f L' \<and> same_slots L L'"
proof -
  obtain M where M: "wait_staged bld t L = Some M" "L' = (promote M)\<lparr>s_pending := None\<rparr>"
    using assms(3) by (auto simp: swap_staged_def)
  have w: "stage_ok f M \<and> same_slots L M" by (rule wait_staged_ok [OF assms(1,2) M(1)])
  then have "stage_ok f (promote M) \<and> same_slots M (promote M)" using promote_ok by blast
  then have "stage_ok f L'" using stage_ok_pending_None M(2) by blast
  moreover have "same_slots L L'" using w promote_ok [of f M] by (auto simp: M(2) same_slots_def)
  ultimately show ?thesis by blast
qed

lemma promote_used_ok:
  assumes "layer_ok f L" and "\<And>e b. map_of smap e = Some b \<Longrightarrow> b = f (l_idx L, e)"
  shows "\<exists>c. promote_used es smap L = L\<lparr>l_cache := c\<rparr> \<and> layer_ok f (L\<lparr>l_cache := c\<rparr>)"
  using assms
proof (induction es arbitrary: L)
  case Nil
  then show ?case by (intro exI [of _ "l_cache L"]) simp
next
  case (Cons e es)
  have put: "layer_ok f (put_shared e b L)" if "map_of smap e = Some b" for b
    using layer_ok_put_shared [OF Cons.prems(1), of e] Cons.prems(2) [OF that] by simp
  show ?case
  proof (cases "map_of (l_pinned L) e \<noteq> None \<or> map_of smap e = None")
    case True
    then have "promote_used (e # es) smap L = promote_used es smap L" by (auto split: option.splits)
    then show ?thesis using Cons.IH [OF Cons.prems] by simp
  next
    case False
    then obtain b where b: "map_of smap e = Some b" "map_of (l_pinned L) e = None" by auto
    have "\<exists>c. promote_used es smap (put_shared e b L) = (put_shared e b L)\<lparr>l_cache := c\<rparr> \<and>
        layer_ok f ((put_shared e b L)\<lparr>l_cache := c\<rparr>)"
      by (rule Cons.IH [OF put [OF b(1)]]) (use Cons.prems(2) in simp)
    then show ?thesis using b by (auto simp: put_shared_def)
  qed
qed

lemma touch_fold: "\<exists>cs. fold touch_hot es L = L\<lparr>l_counts := cs\<rparr>"
proof (induction es arbitrary: L)
  case Nil
  then show ?case by (intro exI [of _ "l_counts L"]) simp
next
  case (Cons e es)
  from Cons [of "touch_hot e L"] show ?case by (auto simp: touch_hot_def)
qed

lemma count_dropped_shape: "\<exists>st. count_dropped es L = L\<lparr>s_sstats := st\<rparr>"
proof (cases "s_at_use L")
  case None
  then show ?thesis by (intro exI [of _ "s_sstats L"]) (simp add: count_dropped_def)
qed (auto simp: count_dropped_def)

lemma sync_actuals_shape:
  assumes ok: "stage_ok f L"
  shows "\<exists>cs lu st c ix. sync_actuals L = L\<lparr>s_indices := ix, l_last_used := lu, l_counts := cs, s_sstats := st, l_cache := c\<rparr> \<and>
    layer_ok f (L\<lparr>l_cache := c\<rparr>)"
proof (cases "s_indices L = None \<or> s_indices L = Some []")
  case True
  then have "sync_actuals L = L\<lparr>s_indices := None\<rparr>" by (cases L) (auto simp: sync_actuals_def)
  then show ?thesis using ok
    by (intro exI [of _ "l_counts L"] exI [of _ "l_last_used L"] exI [of _ "s_sstats L"] exI [of _ "l_cache L"]
        exI [of _ None]) (simp add: stage_ok_def)
next
  case False
  then obtain flat where flat: "s_indices L = Some flat" "uniq flat \<noteq> []" by auto
  obtain cs where cs: "fold touch_hot (uniq flat) (L\<lparr>s_indices := None, l_last_used := uniq flat\<rparr>) =
      L\<lparr>s_indices := None, l_last_used := uniq flat, l_counts := cs\<rparr>"
    using touch_fold [of "uniq flat" "L\<lparr>s_indices := None, l_last_used := uniq flat\<rparr>"] by auto
  obtain st where st: "count_dropped (uniq flat) (L\<lparr>s_indices := None, l_last_used := uniq flat, l_counts := cs\<rparr>) =
      L\<lparr>s_indices := None, l_last_used := uniq flat, l_counts := cs, s_sstats := st\<rparr>"
    using count_dropped_shape [of "uniq flat"] by blast
  let ?M = "L\<lparr>s_indices := None, l_last_used := uniq flat, l_counts := cs, s_sstats := st\<rparr>"
  have M: "sync_actuals L = (if s_writeback ?M then ?M
      else case s_state ?M of None \<Rightarrow> ?M
        | Some (bs, _, sel) \<Rightarrow> promote_used (uniq flat) (fold (\<lambda>(e, b). AList.update e b) (zip sel bs) []) ?M)"
    using flat(2) unfolding sync_actuals_def Let_def flat(1) option.case cs st by simp
  have okM: "layer_ok f ?M" using ok by (simp add: stage_ok_def layer_ok_def)
  have base: ?thesis if "sync_actuals L = ?M"
    using that okM by (intro exI [of _ cs] exI [of _ "uniq flat"] exI [of _ st] exI [of _ "l_cache L"] exI [of _ None])
      (simp add: layer_ok_def)
  show ?thesis
  proof (cases "s_writeback L \<or> s_state L = None")
    case True
    then show ?thesis using base M by auto
  next
    case False
    then obtain bs so sel where st': "s_state L = Some (bs, so, sel)" by (metis option.exhaust prod_cases3)
    then have bs: "bs = map (\<lambda>e. f (l_idx L, e)) sel" using ok by (simp add: stage_ok_def fill_ok_def)
    have sm: "b = f (l_idx ?M, e)" if "map_of (fold (\<lambda>(e, b). AList.update e b) (zip sel bs) []) e = Some b" for e b
      using map_of_zip_fold [OF that] bs by (auto simp: set_zip)
    obtain c where "promote_used (uniq flat) (fold (\<lambda>(e, b). AList.update e b) (zip sel bs) []) ?M = ?M\<lparr>l_cache := c\<rparr>"
      "layer_ok f (?M\<lparr>l_cache := c\<rparr>)"
      using promote_used_ok [OF okM sm, where es = "uniq flat"] by blast
    then show ?thesis using M False st'
      by (intro exI [of _ cs] exI [of _ "uniq flat"] exI [of _ st] exI [of _ c] exI [of _ None]) (simp add: layer_ok_def)
  qed
qed

lemma sync_actuals_ok: "stage_ok f L \<Longrightarrow> stage_ok f (sync_actuals L) \<and> same_slots L (sync_actuals L)"
proof -
  assume ok: "stage_ok f L"
  obtain cs lu st c ix where s: "sync_actuals L = L\<lparr>s_indices := ix, l_last_used := lu, l_counts := cs, s_sstats := st, l_cache := c\<rparr>"
    and lok: "layer_ok f (L\<lparr>l_cache := c\<rparr>)" using sync_actuals_shape [OF ok] by blast
  have "stage_ok f (sync_actuals L)" unfolding s
    by (rule stage_ok_frame [OF ok])
      (use ok lok in \<open>simp_all add: same_slots_def stage_ok_def incr_active_def layer_ok_def incr_ok_def split: option.splits\<close>)
  then show ?thesis by (simp add: s same_slots_def)
qed

lemma stage_step_ok:
  assumes "stage_step bld L M" and "stage_ok f L" and "builds_all f L bld"
  shows "stage_ok f M \<and> same_slots L M"
  using assms
proof (induction rule: stage_step.induct)
  case (callback L j t)
  have "stage_ok f (N\<lparr>s_callbacks := cs\<rparr>) = stage_ok f N" for N :: "'a slayer" and cs
    by (simp add: stage_ok_def fill_ok_def job_ok_def incr_active_def)
  then show ?case using on_stage_done_ok [OF callback(4,5), of t j] by (simp add: same_slots_def)
next
  case (reset L)
  have "stage_ok f (reset_layer L)"
    by (rule stage_ok_frame [OF reset(2)])
      (use reset(2) in \<open>simp_all add: reset_layer_def same_slots_def stage_ok_def incr_active_def\<close>)
  then show ?case by (simp add: reset_layer_def same_slots_def)
next
  case (routed L flat)
  then show ?case by (simp add: same_slots_def stage_ok_def fill_ok_def job_ok_def incr_active_def)
next
  case (prefilled topk L)
  then show ?case by (simp add: same_slots_def stage_ok_def fill_ok_def job_ok_def incr_active_def)
next
  case (close L)
  then show ?case by (simp add: close_layer_def same_slots_def stage_ok_def fill_ok_def job_ok_def incr_active_def)
next
  case (stage L es ts)
  then show ?case using stage_experts_ok by blast
next
  case (run L j)
  then show ?case using run_job_ok by blast
next
  case (wait L t L')
  then show ?case using wait_staged_ok by blast
next
  case (swap L t L')
  then show ?case using swap_staged_ok by blast
next
  case (actuals L)
  then show ?case using sync_actuals_ok by blast
qed

lemma stage_run_ok:
  assumes "stage_run bld L M" and "stage_ok f L" and "builds_all f L bld"
  shows "stage_ok f M \<and> same_slots L M"
  using assms
proof (induction rule: rtranclp_induct)
  case (step M N)
  then show ?case using stage_step_ok [OF step(2), of f] builds_all_same [of L M] by (blast intro: same_slots_trans)
qed simp

section \<open>What a decode step reads\<close>

text \<open>
  The stack, the expert-to-row table and the staged set that \<open>__call__\<close> uses: the persistent stack in the
  incremental mode once it is allocated, otherwise the one assembled from the active fill.
\<close>

definition staged_stack :: "'b slayer \<Rightarrow> ('b list \<times> nat list \<times> nat list) option" where
  "staged_stack L =
     (case s_state L of
        None \<Rightarrow> None
      | Some (bs, slot_of, sel) \<Rightarrow>
          (case (s_incr L, s_rows L) of
             (True, Some rows) \<Rightarrow> Some (rows, s_table L, sel)
           | _ \<Rightarrow> Some (asm_rows L bs, slot_of, sel)))"

lemma stage_ok_new:
  assumes "layer_ok f L"
  shows "stage_ok f (slayer_new z o' L)"
proof -
  have "layer_ok f (slayer_new z o' L)" using assms by (simp add: layer_ok_def slayer_new_def Let_def layer.defs)
  then show ?thesis by (simp add: stage_ok_def incr_ok_def incr_active_def slayer_new_def Let_def layer.defs)
qed

lemma staged_stack_rows:
  assumes ok: "stage_ok f M" and nx: "s_next M = None" and st: "staged_stack M = Some (rows, tbl, sel)" and e: "e < l_num M"
  shows "tbl ! e < length rows \<and> rows ! (tbl ! e) = (if e \<in> set sel then f (l_idx M, e) else s_zero M)"
proof -
  obtain bs slot_of sel' where s: "s_state M = Some (bs, slot_of, sel')"
    using st by (auto simp: staged_stack_def split: option.splits)
  have sel': "sel' = sel" using st s by (auto simp: staged_stack_def split: option.splits bool.splits)
  have fill: "fill_ok f M (bs, slot_of, sel)" using ok s sel' by (simp add: stage_ok_def)
  show ?thesis
  proof (cases "s_incr M")
    case False
    then have "rows = asm_rows M bs" "tbl = slot_of" using st s by (auto simp: staged_stack_def)
    moreover have "asm_table (s_n M) (l_num M) sel slot_of" "length sel \<le> s_n M" "bs = map (\<lambda>e. f (l_idx M, e)) sel"
      using fill False by (simp_all add: fill_ok_def)
    ultimately show ?thesis using asm_row [of M sel slot_of e "\<lambda>e. f (l_idx M, e)"] e by simp
  next
    case True
    then have "incr_active M" "incr_ok f M" using ok by (simp_all add: stage_ok_def)
    then have r: "s_rows M \<noteq> None" and d: "set sel = dom (map_of (s_held M))"
      using True nx s sel' by (auto simp: incr_active_def)
    then have rt: "s_rows M = Some rows" "tbl = s_table M" using st s True by (auto simp: staged_stack_def split: option.splits)
    then have so: "slots_ok (s_n M) (l_num M) (s_zero M) (\<lambda>e. f (l_idx M, e)) (s_occ M) (s_held M) tbl rows"
      using \<open>incr_ok f M\<close> by (simp add: incr_ok_def)
    have "tbl ! e < length rows"
    proof (cases "\<exists>i < s_n M. s_occ M ! i = Some e")
      case True
      then obtain i where "i < s_n M" "s_occ M ! i = Some e" by blast
      then show ?thesis using so by (simp add: slots_ok_def)
    next
      case False
      then show ?thesis using so e by (simp add: slots_ok_def)
    qed
    then show ?thesis using slots_ok_rows [OF so e] d by simp
  qed
qed

lemma wait_staged_next: "wait_staged bld t L = Some M \<Longrightarrow> s_next M = None"
  by (auto simp: wait_staged_def promote_def Let_def split: option.splits if_splits)

text \<open>
  C8: staged decode never computes with the wrong expert. After any history of stagings, background
  fills and callbacks in any order and timing, promotions, resets and recorded routings, the stack that
  the next decode step reads sends every staged expert to its own row and every other expert of the
  layer to the zero row.
\<close>

theorem staged_rows_exact:
  assumes "stage_ok f L0" and "builds_all f L0 bld" and "stage_run bld L0 L" and "wait_staged bld t L = Some M"
    and "staged_stack M = Some (rows, tbl, sel)" and "e < l_num L0"
  shows "tbl ! e < length rows \<and> rows ! (tbl ! e) = (if e \<in> set sel then f (l_idx L0, e) else s_zero L0)"
proof -
  have L: "stage_ok f L" "same_slots L0 L" using stage_run_ok [OF assms(3,1,2)] by simp_all
  have M: "stage_ok f M" "same_slots L M"
    using wait_staged_ok [OF L(1) builds_all_same [OF L(2) assms(2)] assms(4)] by simp_all
  have same: "l_num M = l_num L0" "l_idx M = l_idx L0" "s_zero M = s_zero L0"
    using L(2) M(2) by (simp_all add: same_slots_def)
  show ?thesis
    using staged_stack_rows [OF M(1) wait_staged_next [OF assms(4)] assms(5)] assms(6) same by simp
qed

definition demo_async :: "nat slayer" where
  "demo_async = slayer_new 0 (default_options\<lparr>staged := True, staged_n := 3, staged_sync := False\<rparr>)
     (layer_new 3 6 default_options None None)"

definition demo_bld :: "nat \<Rightarrow> nat res" where
  "demo_bld e = Inr (100 + e)"

lemma demo_async_ok: "stage_ok (\<lambda>(i, e). 100 + e) demo_async" "builds_all (\<lambda>(i, e). 100 + e) demo_async demo_bld"
proof -
  have "layer_ok (\<lambda>(i, e). 100 + e) (layer_new 3 6 default_options None None :: nat layer)"
    using layer_ok_new [where sc = None and pb = None] by simp
  then show "stage_ok (\<lambda>(i, e). 100 + e) demo_async" unfolding demo_async_def by (rule stage_ok_new)
  show "builds_all (\<lambda>(i, e). 100 + e) demo_async demo_bld" by (simp add: builds_all_def demo_bld_def)
qed

text \<open>A fill submitted by the decode thread and run by the pool before its callback.\<close>

definition demo_filled :: "nat slayer" where
  "demo_filled = run_job demo_bld 0 (snd (stage_experts demo_bld (Late, Late) [5, 1] demo_async))"

definition demo_ready :: "nat slayer" where
  "demo_ready = (on_stage_done demo_bld Late 0 demo_filled)\<lparr>s_callbacks := remove1 0 (s_callbacks demo_filled)\<rparr>"

lemma demo_ready_run: "stage_run demo_bld demo_async demo_ready"
proof -
  have 1: "stage_step demo_bld demo_async (snd (stage_experts demo_bld (Late, Late) [5, 1] demo_async))"
    by (rule stage_step.stage) (simp_all add: demo_async_def slayer_new_def Let_def layer.defs layer_new_def)
  have 2: "stage_step demo_bld (snd (stage_experts demo_bld (Late, Late) [5, 1] demo_async)) demo_filled"
    unfolding demo_filled_def by (rule stage_step.run)
  have "\<not> s_stuck demo_filled \<and> s_callbacks demo_filled = [0] \<and> (case job_of demo_filled 0 of Some (_, Some _) \<Rightarrow> True | _ \<Rightarrow> False)"
    by code_simp
  then have 3: "stage_step demo_bld demo_filled demo_ready"
    unfolding demo_ready_def
    by (intro stage_step.callback) (auto simp: job_done_def split: option.splits)
  show ?thesis using 1 2 3 by (meson converse_rtranclp_into_rtranclp rtranclp.rtrancl_refl)
qed

lemma demo_ready_stack:
  "map_option staged_stack (wait_staged demo_bld Late demo_ready) =
     Some (Some ([101, 105, 0, 0], [3, 0, 3, 3, 3, 1], [1, 5]))"
  by code_simp

theorem staged_rows_exact_witness:
  "\<exists>M rows tbl sel. stage_run demo_bld demo_async demo_ready \<and> wait_staged demo_bld Late demo_ready = Some M \<and>
     staged_stack M = Some (rows, tbl, sel) \<and> sel = [1, 5] \<and> rows ! (tbl ! 5) = 105 \<and> rows ! (tbl ! 2) = 0"
proof -
  obtain M where M: "wait_staged demo_bld Late demo_ready = Some M"
    "staged_stack M = Some ([101, 105, 0, 0], [3, 0, 3, 3, 3, 1], [1, 5])"
    using demo_ready_stack by (auto simp: map_option_case split: option.splits)
  have f: "l_num demo_async = 6" "s_zero demo_async = 0"
    by (simp_all add: demo_async_def slayer_new_def Let_def layer.defs layer_new_def)
  note r = staged_rows_exact [OF demo_async_ok demo_ready_run M]
  show ?thesis using r [of 5] r [of 2] f demo_ready_run M by auto
qed

theorem staged_resolvers_agree_witness:
  "\<exists>bs t u sel L'. fst (build_staged (\<lambda>e. Inr (100 + e)) [4, 0, 2, 3] demo_slayer) = Inr (bs, t, sel) \<and>
     stage_incr (\<lambda>e. Inr (100 + e)) [4, 0, 2, 3] demo_slayer = (Inr (bs, u, sel), L')"
proof -
  have "stage_ok (\<lambda>(i, e). 100 + e) demo_slayer"
    unfolding demo_slayer_def
    by (rule stage_ok_new) (use layer_ok_new [where sc = None and pb = None] in simp)
  moreover have "builds_all (\<lambda>(i, e). 100 + e) demo_slayer (\<lambda>e. Inr (100 + e))" by (simp add: builds_all_def)
  ultimately show ?thesis
    using staged_resolvers_agree [of "\<lambda>(i, e). 100 + e" demo_slayer "\<lambda>e. Inr (100 + e)" "[4, 0, 2, 3]"]
    by (auto simp: demo_slayer_fields)
qed

text \<open>
  \<open>reset\<close> does not cancel a fill. If a background fill is pending when a request is reset, then once
  the pool has run it and its callback has fired, the slots hold the set staged for the previous
  request, and the next promotion makes it active.
\<close>

theorem reset_keeps_fill:
  assumes "stage_ok f L" and "builds_all f L bld" and "job_of L j = Some (args, None)"
  shows "s_state (reset_layer L) = None \<and> s_next (reset_layer L) = None \<and> s_pending (reset_layer L) = None \<and>
    (\<exists>tbl. s_state (promote (on_stage_done bld t j (run_job bld j (reset_layer L)))) =
       Some (map (\<lambda>e. f (l_idx L, e)) (staged_set (s_n L) args), tbl, staged_set (s_n L) args))"
proof -
  let ?R = "reset_layer L"
  have R: "s_n ?R = s_n L" "l_idx ?R = l_idx L" "l_num ?R = l_num L" "s_jobs ?R = s_jobs L" "s_pending ?R = None"
    by (simp_all add: reset_layer_def)
  have ok: "stage_ok f ?R"
    by (rule stage_ok_frame [OF assms(1)])
      (use assms(1) in \<open>simp_all add: reset_layer_def same_slots_def stage_ok_def incr_active_def\<close>)
  have bR: "builds_all f ?R bld" using assms(2) R by (simp add: builds_all_def)
  have j: "job_of ?R j = Some (args, None)" using assms(3) R by (simp add: job_of_def)
  have "\<forall>e \<in> set args. e < l_num ?R" using job_of_ok [OF ok j] by (simp add: job_ok_def)
  from build_staged_ok [OF ok bR this] obtain c st tbl where b: "build_staged bld args ?R =
      (Inr (map (\<lambda>e. f (l_idx L, e)) (staged_set (s_n L) args), tbl, staged_set (s_n L) args),
       ?R\<lparr>l_cache := c, s_sstats := st\<rparr>)" using R by auto
  let ?fill = "(map (\<lambda>e. f (l_idx L, e)) (staged_set (s_n L) args), tbl, staged_set (s_n L) args)"
  let ?M = "?R\<lparr>l_cache := c, s_sstats := st, s_jobs := AList.update j (args, Some (Inr ?fill)) (s_jobs L)\<rparr>"
  have rj: "run_job bld j ?R = ?M" using j b R by (simp add: run_job_def)
  have "on_stage_done bld t j ?M = ?M\<lparr>s_next := Some ?fill, s_future := None\<rparr>"
    using R by (simp add: on_stage_done_def job_of_def)
  then show ?thesis by (simp add: rj promote_def) (simp add: reset_layer_def)
qed

theorem reset_keeps_fill_witness:
  "\<exists>L tbl. s_state (reset_layer L) = None \<and> s_next (reset_layer L) = None \<and>
     s_state (promote (on_stage_done demo_bld Late 0 (run_job demo_bld 0 (reset_layer L)))) =
       Some ([101, 105 :: nat], tbl, [1, 5])"
proof -
  let ?L = "snd (stage_experts demo_bld (Late, Late) [5, 1] demo_async)"
  have j: "job_of ?L 0 = Some ([1, 5], None)" by code_simp
  have ok: "stage_ok (\<lambda>(i, e). 100 + e) ?L" "same_slots demo_async ?L"
    using stage_experts_ok [OF demo_async_ok, of "[5, 1]"]
    by (simp_all add: demo_async_def slayer_new_def Let_def layer.defs layer_new_def)
  have s: "staged_set (s_n ?L) [1, 5] = [1, 5]"
    using ok(2) by (simp add: same_slots_def demo_async_def slayer_new_def Let_def layer.defs staged_set_def uniq_def)
  show ?thesis
    using reset_keeps_fill [OF ok(1) builds_all_same [OF ok(2) demo_async_ok(2)] j, of Late] s
    by (intro exI [of _ ?L]) auto
qed

end
