(* ===== verification/Forward.thy ===== *)
theory Forward
  imports Stage_Async "HOL-Library.Multiset"
begin

text \<open>
  The forward of the streamed expert block (\<open>StreamingSwitchGLU.__call__\<close> with \<open>_make_moe_math*\<close>,
  \<open>_gather_gate_up\<close>, \<open>_swiglu\<close>, \<open>_build_asm\<close>): the hot-window and whole-layer prefill paths, the
  prerouter path without router indices, the staged decode path and the exact path. A batch is the list
  of its tokens' activations with the routed experts of each token; the result is the flat list of the
  per-(token, expert) outputs in row-major order, which the code reshapes to \<open>[T, k, H]\<close>.

  The array kernels are MLX's and \<open>mlx_lm\<close>'s: \<open>quant.gather_qmm\<close>, \<open>_gather_sort\<close>, \<open>_scatter_unsort\<close>,
  \<open>silu\<close>, the product, \<open>split\<close>, the addition and zeros are the fields of \<open>kernels\<close>; \<open>kernels_ok\<close> states
  what their documentation promises, with \<open>k_qmm\<close> the product with one quantised matrix.
\<close>

type_synonym bmap = "proj \<times> part \<Rightarrow> tensor option"
type_synonym wtriple = "tensor option \<times> tensor option \<times> tensor option"

record 'v kernels =
  k_qmm :: "'v \<Rightarrow> wtriple \<Rightarrow> 'v"
  k_gather :: "bool \<Rightarrow> 'v list \<Rightarrow> wtriple list \<Rightarrow> nat list \<Rightarrow> 'v list"
  k_gsort :: "'v list \<Rightarrow> nat list \<Rightarrow> 'v list \<times> nat list \<times> nat list"
  k_unsort :: "'v list \<Rightarrow> nat list \<Rightarrow> 'v list"
  k_silu :: "'v \<Rightarrow> 'v"
  k_mul :: "'v \<Rightarrow> 'v \<Rightarrow> 'v"
  k_split :: "'v \<Rightarrow> 'v \<times> 'v"
  k_add :: "'v \<Rightarrow> 'v \<Rightarrow> 'v"
  k_zeros :: 'v

text \<open>The three tensors of one projection of a bundle, in the order the kernel takes them.\<close>

definition wtri :: "proj \<Rightarrow> bmap \<Rightarrow> wtriple" where
  "wtri pj b = (b (pj, Weight), b (pj, Scales), b (pj, Biases))"

definition swiglu :: "'v kernels \<Rightarrow> 'v \<Rightarrow> 'v \<Rightarrow> 'v" where
  "swiglu K up gate = k_mul K (k_silu K gate) up"

text \<open>\<open>_gather_gate_up\<close>: the up and gate projections, fused (gate rows first) or not.\<close>

definition gather_gate_up ::
  "'v kernels \<Rightarrow> bool \<Rightarrow> bool \<Rightarrow> 'v list \<Rightarrow> bmap list \<Rightarrow> nat list \<Rightarrow> 'v list \<times> 'v list" where
  "gather_gate_up K fused srt xs rows local =
     (if fused
      then let gu = map (k_split K) (k_gather K srt xs (map (wtri GateUpProj) rows) local)
           in (map snd gu, map fst gu)
      else (k_gather K srt xs (map (wtri UpProj) rows) local,
            k_gather K srt xs (map (wtri GateProj) rows) local))"

definition moe_math :: "'v kernels \<Rightarrow> bool \<Rightarrow> bool \<Rightarrow> 'v list \<Rightarrow> bmap list \<Rightarrow> nat list \<Rightarrow> 'v list" where
  "moe_math K fused srt xs rows local =
     (case gather_gate_up K fused srt xs rows local of (up, gate) \<Rightarrow>
        k_gather K srt (map2 (swiglu K) up gate) (map (wtri DownProj) rows) local)"

text \<open>The sorted variant: \<open>_gather_sort\<close> first, \<open>_scatter_unsort\<close> last.\<close>

definition moe_math_sorted :: "'v kernels \<Rightarrow> bool \<Rightarrow> 'v list \<Rightarrow> bmap list \<Rightarrow> nat list \<Rightarrow> 'v list" where
  "moe_math_sorted K fused xs rows local =
     (case k_gsort K xs local of (xs', local', perm) \<Rightarrow>
        k_unsort K (moe_math K fused True xs' rows local') perm)"

text \<open>Every token's activation, once per expert it is routed to.\<close>

definition spread :: "'v list \<Rightarrow> nat list list \<Rightarrow> 'v list" where
  "spread xs inds = concat (map2 (\<lambda>x es. replicate (length es) x) xs inds)"

section \<open>The paths\<close>

type_synonym 'v fwd = "'v list res \<times> bmap slayer"

text \<open>Both prefill paths record the usage and the last token's routing.\<close>

definition record_usage :: "nat list list \<Rightarrow> bmap slayer \<Rightarrow> bmap slayer" where
  "record_usage inds L =
     (let flat = concat inds;
          L = fold touch_hot (uniq flat) L
      in if s_mode L then L\<lparr>s_topk := Some (py_last (length (hd inds)) flat)\<rparr> else L)"

text \<open>The positions that miss the hot window, grouped by expert in order of appearance.\<close>

definition add_group :: "(nat \<times> nat) \<Rightarrow> (nat \<times> nat list) list \<Rightarrow> (nat \<times> nat list) list" where
  "add_group ie d = AList.update (snd ie) ((case map_of d (snd ie) of None \<Rightarrow> [] | Some ps \<Rightarrow> ps) @ [fst ie]) d"

definition by_expert :: "(nat \<times> nat) list \<Rightarrow> (nat \<times> nat list) list" where
  "by_expert misses = fold add_group misses []"

text \<open>\<open>out.at[pos].add(z)\<close>\<close>

definition scatter_add :: "'v kernels \<Rightarrow> nat list \<Rightarrow> 'v list \<Rightarrow> 'v list \<Rightarrow> 'v list" where
  "scatter_add K ps zs out = fold (\<lambda>(p, z) o'. o'[p := k_add K (o' ! p) z]) (zip ps zs) out"

fun add_misses ::
  "'v kernels \<Rightarrow> bool \<Rightarrow> (nat \<Rightarrow> bmap res) \<Rightarrow> 'v list \<Rightarrow> (nat \<times> nat list) list \<Rightarrow> 'v list \<Rightarrow> 'v list res" where
  "add_misses K fused bld xs [] out = Inr out"
| "add_misses K fused bld xs ((e, ps) # groups) out =
     (case bld e of
        Inl err \<Rightarrow> Inl err
      | Inr b \<Rightarrow>
          let z = moe_math K fused True (map (\<lambda>p. xs ! p) ps) [b] (replicate (length ps) 0)
          in add_misses K fused bld xs groups (scatter_add K ps z out))"

definition fwd_hot ::
  "'v kernels \<Rightarrow> bool \<Rightarrow> (nat \<Rightarrow> bmap res) \<Rightarrow> nat list \<Rightarrow> bmap list \<Rightarrow> 'v list \<Rightarrow> nat list list \<Rightarrow> bmap slayer \<Rightarrow> 'v fwd" where
  "fwd_hot K fused bld members rows xs inds L =
     (let flat = concat inds;
          L = record_usage inds L;
          n_rows = length members;
          remapped = map (\<lambda>e. case py_index members e of None \<Rightarrow> n_rows | Some p \<Rightarrow> p) flat;
          misses = filter (\<lambda>(i, e). py_index members e = None) (enumerate_from0 flat);
          xf = spread xs inds;
          out = moe_math_sorted K fused xf rows remapped
      in (add_misses K fused bld xf (by_expert misses) out, L))"

definition fwd_full :: "'v kernels \<Rightarrow> bool \<Rightarrow> bmap list \<Rightarrow> 'v list \<Rightarrow> nat list list \<Rightarrow> bmap slayer \<Rightarrow> 'v fwd" where
  "fwd_full K fused rows xs inds L =
     (Inr (moe_math_sorted K fused (spread xs inds) rows (concat inds)), record_usage inds L)"

definition stat_used :: "nat \<Rightarrow> bmap slayer \<Rightarrow> bmap slayer" where
  "stat_used k L = L\<lparr>s_sstats := (s_sstats L)\<lparr>n_staged_used := n_staged_used (s_sstats L) + k\<rparr>\<rparr>"

definition stat_fallback :: "bmap slayer \<Rightarrow> bmap slayer" where
  "stat_fallback L = L\<lparr>s_sstats := (s_sstats L)\<lparr>n_staged_fallback := Suc (n_staged_fallback (s_sstats L))\<rparr>, s_at_use := None\<rparr>"

text \<open>Prerouter routing: every token goes through the whole staged set.\<close>

definition fwd_replace ::
  "'v kernels \<Rightarrow> bool \<Rightarrow> (nat \<Rightarrow> bmap res) \<Rightarrow> timing \<Rightarrow> 'v list \<Rightarrow> bmap slayer \<Rightarrow> 'v fwd option" where
  "fwd_replace K fused bld t xs L =
     (case wait_staged bld t L of
        None \<Rightarrow> None
      | Some L \<Rightarrow>
          Some (case s_state L of
                  None \<Rightarrow> (Inr (map (\<lambda>x. k_zeros K) xs), stat_fallback L)
                | Some (bs, slot_of, sel) \<Rightarrow>
                    let local = [0..<length sel] in
                    (Inr (moe_math K fused False (spread xs (map (\<lambda>x. local) xs)) (asm_rows L bs)
                            (concat (map (\<lambda>x. local) xs))),
                     stat_used (length sel) (L\<lparr>s_at_use := Some sel, l_last_used := sel\<rparr>))))"

definition fwd_staged ::
  "'v kernels \<Rightarrow> bool \<Rightarrow> bmap list \<times> nat list \<times> nat list \<Rightarrow> 'v list \<Rightarrow> nat list list \<Rightarrow> bmap slayer \<Rightarrow> 'v fwd" where
  "fwd_staged K fused stack xs inds L =
     (case stack of (rows, tbl, sel) \<Rightarrow>
        (Inr (moe_math K fused False (spread xs inds) rows (map (\<lambda>e. tbl ! e) (concat inds))),
         stat_used (length (concat inds)) (L\<lparr>s_at_use := Some sel\<rparr>)))"

definition the_bundles :: "bmap bundles \<Rightarrow> bmap list res" where
  "the_bundles bs = res_map (\<lambda>(e, b). case b of None \<Rightarrow> Inl TypeError | Some b \<Rightarrow> Inr b) bs"

definition fwd_exact ::
  "'v kernels \<Rightarrow> bool \<Rightarrow> (nat \<Rightarrow> bmap res) \<Rightarrow> 'v list \<Rightarrow> nat list list \<Rightarrow> bmap slayer \<Rightarrow> 'v fwd" where
  "fwd_exact K fused bld xs inds L =
     (let flat = concat inds; unique = uniq flat in
      case get_bundles bld (L\<lparr>l_last_used := unique\<rparr>) unique of
        (Inl err, L) \<Rightarrow> (Inl err, L)
      | (Inr bs, L) \<Rightarrow>
          (res_bind (res_map (\<lambda>e. case py_index unique e of None \<Rightarrow> Inl KeyError | Some i \<Rightarrow> Inr i) flat) (\<lambda>local.
           res_bind (the_bundles bs) (\<lambda>rows.
             Inr (if length local \<ge> 64 then moe_math_sorted K fused (spread xs inds) rows local
                  else moe_math K fused False (spread xs inds) rows local))), L))"

section \<open>The call\<close>

text \<open>
  The paths in the order \<open>__call__\<close> tries them. Every test that reads \<open>indices.size\<close> without looking at
  \<open>indices is None\<close> first raises \<open>AttributeError\<close> on \<open>None\<close>. The result is \<open>None\<close> when the call blocks on a
  fill that has not run.
\<close>

definition fwd_tail ::
  "'v kernels \<Rightarrow> bool \<Rightarrow> (nat \<Rightarrow> bmap res) \<Rightarrow> timing \<Rightarrow> 'v list \<Rightarrow> nat list list option \<Rightarrow> bmap slayer \<Rightarrow> 'v fwd option" where
  "fwd_tail K fused bld t xs indices L =
     (case indices of
        None \<Rightarrow> if s_replace L then fwd_replace K fused bld t xs L else Some (Inl AttributeError, L)
      | Some inds \<Rightarrow>
          if s_mode L \<and> int (length (concat inds)) = s_trigger L then
            (case wait_staged bld t L of
               None \<Rightarrow> None
             | Some L \<Rightarrow>
                 Some (case staged_stack L of
                         None \<Rightarrow> fwd_exact K fused bld xs inds (stat_fallback L)
                       | Some stack \<Rightarrow> fwd_staged K fused stack xs inds L))
          else Some (fwd_exact K fused bld xs inds L))"

definition fwd_paths ::
  "'v kernels \<Rightarrow> bool \<Rightarrow> (nat \<Rightarrow> bmap res) \<Rightarrow> timing \<Rightarrow> 'v list \<Rightarrow> nat list list option \<Rightarrow> bmap slayer \<Rightarrow> 'v fwd option" where
  "fwd_paths K fused bld t xs indices L =
     (case (s_hot L, s_full L, indices) of
        (None, None, _) \<Rightarrow> fwd_tail K fused bld t xs indices L
      | (_, _, None) \<Rightarrow> Some (Inl AttributeError, L)
      | (Some (members, rows), None, Some inds) \<Rightarrow>
          if length (concat inds) > 8 then Some (fwd_hot K fused bld members rows xs inds L)
          else fwd_tail K fused bld t xs indices L
      | (_, Some rows, Some inds) \<Rightarrow>
          if length (concat inds) > 8 then Some (fwd_full K fused rows xs inds L)
          else fwd_tail K fused bld t xs indices L)"

definition forward ::
  "'v kernels \<Rightarrow> bool \<Rightarrow> (nat \<Rightarrow> bmap res) \<Rightarrow> nat list \<times> (nat list \<Rightarrow> nat list) \<Rightarrow> timing \<Rightarrow> 'v list \<Rightarrow>
     nat list list option \<Rightarrow> bmap slayer \<Rightarrow> 'v fwd option" where
  "forward K fused bld pins t xs indices L =
     (let L = L\<lparr>s_calls := Suc (s_calls L), s_indices := map_option concat indices\<rparr> in
      if s_interval L = 0 then Some (Inl ZeroDivisionError, L)
      else case (if int (s_calls L) mod s_interval L = 0 then refresh_pins_now bld (fst pins) (snd pins) L else (Inr (), L)) of
        (Inl err, L) \<Rightarrow> Some (Inl err, L)
      | (Inr _, L) \<Rightarrow>
          fwd_paths K fused bld t xs indices L)"

section \<open>The reference\<close>

text \<open>
  What the documentation of the kernels promises: \<open>gather_qmm\<close> multiplies every row with the matrix its
  index selects (sorted indices when told they are), and \<open>_gather_sort\<close> / \<open>_scatter_unsort\<close> reorder the
  rows by index and put row-wise results back in place.
\<close>

definition gather_spec :: "'v kernels \<Rightarrow> bool" where
  "gather_spec K \<longleftrightarrow> (\<forall>srt xs ws idx. length xs = length idx \<and> (\<forall>i \<in> set idx. i < length ws) \<and> (srt \<longrightarrow> sorted idx) \<longrightarrow>
     k_gather K srt xs ws idx = map2 (\<lambda>x i. k_qmm K x (ws ! i)) xs idx)"

definition sort_spec :: "'v kernels \<Rightarrow> bool" where
  "sort_spec K \<longleftrightarrow> (\<forall>xs idx. length xs = length idx \<longrightarrow>
     (case k_gsort K xs idx of (xs', idx', perm) \<Rightarrow>
        sorted idx' \<and> set idx' = set idx \<and> length xs' = length idx' \<and>
        (\<forall>h. k_unsort K (map2 h xs' idx') perm = map2 h xs idx)))"

definition kernels_ok :: "'v kernels \<Rightarrow> bool" where
  "kernels_ok K \<longleftrightarrow> gather_spec K \<and> sort_spec K"

text \<open>One token through one expert.\<close>

definition expert_out :: "'v kernels \<Rightarrow> bool \<Rightarrow> bmap \<Rightarrow> 'v \<Rightarrow> 'v" where
  "expert_out K fused b x =
     (if fused
      then (case k_split K (k_qmm K x (wtri GateUpProj b)) of (gate, up) \<Rightarrow>
              k_qmm K (swiglu K up gate) (wtri DownProj b))
      else k_qmm K (swiglu K (k_qmm K x (wtri UpProj b)) (k_qmm K x (wtri GateProj b))) (wtri DownProj b))"

definition moe_reference :: "'v kernels \<Rightarrow> bool \<Rightarrow> (nat \<Rightarrow> bmap) \<Rightarrow> 'v list \<Rightarrow> nat list list \<Rightarrow> 'v list" where
  "moe_reference K fused g xs inds = map2 (\<lambda>x e. expert_out K fused (g e) x) (spread xs inds) (concat inds)"

lemma gather_rows:
  assumes "gather_spec K" and "length xs = length idx" and "\<forall>i \<in> set idx. i < length rows" and "srt \<longrightarrow> sorted idx"
  shows "k_gather K srt xs (map g rows) idx = map2 (\<lambda>x i. k_qmm K x (g (rows ! i))) xs idx"
proof -
  have "k_gather K srt xs (map g rows) idx = map2 (\<lambda>x i. k_qmm K x (map g rows ! i)) xs idx"
    using assms by (simp add: gather_spec_def)
  also have "\<dots> = map2 (\<lambda>x i. k_qmm K x (g (rows ! i))) xs idx"
    using assms(3) by (auto dest: set_zip_rightD)
  finally show ?thesis .
qed

lemma map2_map2_same: "map2 h (map2 u xs ys) ys = map2 (\<lambda>x y. h (u x y) y) xs ys"
  by (induction xs ys rule: list_induct2') auto

lemma map2_both: "map2 h (map2 u xs ys) (map2 v xs ys) = map2 (\<lambda>x y. h (u x y) (v x y)) xs ys"
  by (induction xs ys rule: list_induct2') auto

text \<open>The batched computation is row-wise the reference computation.\<close>

lemma moe_math_rows:
  assumes K: "gather_spec K" and len: "length xs = length idx" and idx: "\<forall>i \<in> set idx. i < length rows"
    and srt: "srt \<longrightarrow> sorted idx"
  shows "moe_math K fused srt xs rows idx = map2 (\<lambda>x i. expert_out K fused (rows ! i) x) xs idx"
proof -
  note g = gather_rows [OF K _ idx srt]
  show ?thesis
  proof (cases fused)
    case True
    let ?u = "\<lambda>x i. case k_split K (k_qmm K x (wtri GateUpProj (rows ! i))) of (gate, up) \<Rightarrow> swiglu K up gate"
    let ?gu = "map2 (\<lambda>x i. k_split K (k_qmm K x (wtri GateUpProj (rows ! i)))) xs idx"
    have "gather_gate_up K fused srt xs rows idx = (map snd ?gu, map fst ?gu)"
      using g [OF len, of "wtri GateUpProj"] True by (simp add: gather_gate_up_def Let_def comp_def case_prod_beta)
    moreover have "map2 (swiglu K) (map snd ?gu) (map fst ?gu) =
        map2 (\<lambda>x i. case k_split K (k_qmm K x (wtri GateUpProj (rows ! i))) of (gate, up) \<Rightarrow> swiglu K up gate) xs idx"
      using len by (induction xs idx rule: list_induct2) (auto split: prod.splits)
    ultimately have "moe_math K fused srt xs rows idx = k_gather K srt (map2 ?u xs idx) (map (wtri DownProj) rows) idx"
      by (simp add: moe_math_def)
    also have "\<dots> = map2 (\<lambda>y i. k_qmm K y (wtri DownProj (rows ! i))) (map2 ?u xs idx) idx"
      by (rule g) (use len in simp)
    also have "\<dots> = map2 (\<lambda>x i. k_qmm K (?u x i) (wtri DownProj (rows ! i))) xs idx" by (rule map2_map2_same)
    also have "\<dots> = map2 (\<lambda>x i. expert_out K fused (rows ! i) x) xs idx"
      using True by (auto simp: expert_out_def split: prod.splits)
    finally show ?thesis .
  next
    case False
    have "moe_math K fused srt xs rows idx =
        k_gather K srt (map2 (\<lambda>x i. swiglu K (k_qmm K x (wtri UpProj (rows ! i))) (k_qmm K x (wtri GateProj (rows ! i)))) xs idx)
          (map (wtri DownProj) rows) idx"
      using False by (simp add: moe_math_def gather_gate_up_def g [OF len] map2_both)
    also have "\<dots> = map2 (\<lambda>y i. k_qmm K y (wtri DownProj (rows ! i)))
        (map2 (\<lambda>x i. swiglu K (k_qmm K x (wtri UpProj (rows ! i))) (k_qmm K x (wtri GateProj (rows ! i)))) xs idx) idx"
      by (rule g) (use len in simp)
    also have "\<dots> = map2 (\<lambda>x i. expert_out K fused (rows ! i) x) xs idx"
      unfolding map2_map2_same using False by (simp add: expert_out_def)
    finally show ?thesis .
  qed
qed

lemma moe_math_sorted_rows:
  assumes K: "kernels_ok K" and len: "length xs = length idx" and idx: "\<forall>i \<in> set idx. i < length rows"
  shows "moe_math_sorted K fused xs rows idx = map2 (\<lambda>x i. expert_out K fused (rows ! i) x) xs idx"
proof -
  obtain xs' idx' perm where s: "k_gsort K xs idx = (xs', idx', perm)" by (metis prod_cases3)
  have p: "sorted idx'" "set idx' = set idx" "length xs' = length idx'"
    "\<And>h. k_unsort K (map2 h xs' idx') perm = map2 h xs idx"
    using K len s unfolding kernels_ok_def sort_spec_def by fastforce+
  have "moe_math K fused True xs' rows idx' = map2 (\<lambda>x i. expert_out K fused (rows ! i) x) xs' idx'"
    by (rule moe_math_rows) (use K p idx in \<open>simp_all add: kernels_ok_def\<close>)
  then show ?thesis by (simp add: moe_math_sorted_def s p(4))
qed

lemma length_spread: "length xs = length inds \<Longrightarrow> length (spread xs inds) = length (concat inds)"
  by (induction xs inds rule: list_induct2) (simp_all add: spread_def)

lemma map2_cong_right: "(\<And>x y. y \<in> set ys \<Longrightarrow> h x y = h' x y) \<Longrightarrow> map2 h xs ys = map2 h' xs ys"
  by (auto dest: set_zip_rightD)

lemma map2_map_right: "map2 h xs (map g ys) = map2 (\<lambda>x y. h x (g y)) xs ys"
  by (induction xs ys rule: list_induct2') auto

section \<open>Before the paths\<close>

text \<open>The enumerations of the pin refresh: candidates of the layer, and a permutation of the target.\<close>

definition pins_ok :: "nat \<Rightarrow> nat list \<times> (nat list \<Rightarrow> nat list) \<Rightarrow> bool" where
  "pins_ok num pins \<longleftrightarrow> (\<forall>e \<in> set (fst pins). e < num) \<and> (\<forall>es. set (snd pins es) = set es)"

lemma pin_all_shape:
  assumes "layer_ok f L" and "builds_all f L bld" and "\<forall>e \<in> set es. e < l_num L"
  shows "\<exists>c p. pin_all bld es L = (Inr (), L\<lparr>l_cache := c, l_pinned := p\<rparr>)"
  using assms
proof (induction es arbitrary: L)
  case Nil
  then show ?case by (intro exI [of _ "l_cache L"] exI [of _ "l_pinned L"]) simp
next
  case (Cons e es)
  define c where "c = snd (cache_pop (l_idx L, e) (l_cache L))"
  have g: "cache_pop (l_idx L, e) (l_cache L) = (cache_peek (l_cache L) (l_idx L, e), c)"
    by (simp add: c_def cache_pop_def cache_peek_def)
  have ok: "layer_ok f (L\<lparr>l_cache := c\<rparr>)" unfolding c_def by (rule layer_ok_cache_pop [OF Cons.prems(1)])
  have b: "bld e = Inr (f (l_idx L, e))" using Cons.prems(2,3) by (simp add: builds_all_def)
  have pin: "layer_ok f (L\<lparr>l_cache := c, l_pinned := AList.update e (f (l_idx L, e)) (l_pinned L)\<rparr>)"
    using layer_ok_pin [OF ok, of e] by simp
  have IH1: "\<exists>c' p. pin_all bld es (L\<lparr>l_cache := c\<rparr>) = (Inr (), L\<lparr>l_cache := c', l_pinned := p\<rparr>)"
    using Cons.IH [OF ok] Cons.prems(2,3) by (simp add: builds_all_def)
  have IH2: "\<exists>c' p. pin_all bld es (L\<lparr>l_cache := c, l_pinned := AList.update e (f (l_idx L, e)) (l_pinned L)\<rparr>) =
      (Inr (), L\<lparr>l_cache := c', l_pinned := p\<rparr>)"
    using Cons.IH [OF pin] Cons.prems(2,3) by (simp add: builds_all_def)
  have peek: "cache_peek (l_cache L) (l_idx L, e) = Some b' \<Longrightarrow> b' = f (l_idx L, e)" for b'
    using Cons.prems(1) by (simp add: layer_ok_def)
  show ?case
    using IH1 IH2 peek b g by (cases "cache_peek (l_cache L) (l_idx L, e)"; cases "map_of (l_pinned L) e") auto
qed

lemma refresh_now_ok:
  assumes ok: "stage_ok f L" and b: "builds_all f L bld" and pins: "pins_ok (l_num L) pins"
  shows "\<exists>c p. refresh_pins_now bld (fst pins) (snd pins) L = (Inr (), L\<lparr>l_cache := c, l_pinned := p\<rparr>) \<and>
    stage_ok f (L\<lparr>l_cache := c, l_pinned := p\<rparr>)"
proof (cases "l_hot_per_layer L \<le> 0")
  case True
  then show ?thesis using ok
    by (intro exI [of _ "l_cache L"] exI [of _ "l_pinned L"]) (simp add: refresh_pins_now_def)
next
  case False
  have lok: "layer_ok f L" using ok by (simp add: stage_ok_def)
  let ?t = "pin_top L (fst pins)"
  let ?L = "L\<lparr>l_pinned := filter (\<lambda>(e, b). e \<in> set ?t) (l_pinned L)\<rparr>"
  have t: "\<forall>e \<in> set (snd pins ?t). e < l_num ?L"
    using pins by (auto simp: pins_ok_def pin_top_def dest!: in_set_takeD)
  have k: "layer_ok f ?L" by (rule layer_ok_keep_pins [OF lok])
  have bk: "builds_all f ?L bld" using b by (simp add: builds_all_def)
  obtain c p where cp: "pin_all bld (snd pins ?t) ?L = (Inr (), ?L\<lparr>l_cache := c, l_pinned := p\<rparr>)"
    using pin_all_shape [OF k bk t] by blast
  have r: "refresh_pins_now bld (fst pins) (snd pins) L = (Inr (), L\<lparr>l_cache := c, l_pinned := p\<rparr>)"
    using cp False by (simp add: refresh_pins_now_def Let_def)
  have "builds f (l_idx ?L) (l_num ?L) bld" using b by (simp add: builds_def builds_all_def)
  from conjunct1 [OF pin_all_ok [OF k this t]] have "layer_ok f (L\<lparr>l_cache := c, l_pinned := p\<rparr>)"
    unfolding cp by simp
  then have "stage_ok f (L\<lparr>l_cache := c, l_pinned := p\<rparr>)"
    by (intro stage_ok_frame [OF ok])
      (use ok in \<open>simp_all add: same_slots_def stage_ok_def incr_active_def incr_ok_def split: option.splits\<close>)
  then show ?thesis using r by blast
qed

text \<open>The state in which a path starts.\<close>

definition started :: "nat list list option \<Rightarrow> bmap slayer \<Rightarrow> bmap slayer \<Rightarrow> bool" where
  "started indices L M \<longleftrightarrow> (\<exists>c p. M = L\<lparr>s_calls := Suc (s_calls L), s_indices := map_option concat indices,
     l_cache := c, l_pinned := p\<rparr>)"

lemma forward_start:
  assumes ok: "stage_ok f L" and b: "builds_all f L bld" and pins: "pins_ok (l_num L) pins" and iv: "s_interval L \<noteq> 0"
  shows "\<exists>M. started indices L M \<and> stage_ok f M \<and> builds_all f M bld \<and>
    forward K fused bld pins t xs indices L = fwd_paths K fused bld t xs indices M"
proof -
  let ?S = "L\<lparr>s_calls := Suc (s_calls L), s_indices := map_option concat indices\<rparr>"
  have okS: "stage_ok f ?S"
    using ok by (simp add: stage_ok_def layer_ok_def incr_ok_def incr_active_def fill_ok_def job_ok_def split: option.splits)
  have bS: "builds_all f ?S bld" using b by (simp add: builds_all_def)
  have pS: "pins_ok (l_num ?S) pins" using pins by simp
  obtain M where M: "(if int (s_calls ?S) mod s_interval ?S = 0 then refresh_pins_now bld (fst pins) (snd pins) ?S
      else (Inr (), ?S)) = (Inr (), M)" "started indices L M" "stage_ok f M"
  proof (cases "int (s_calls ?S) mod s_interval ?S = 0")
    case True
    obtain c p where cp: "refresh_pins_now bld (fst pins) (snd pins) ?S = (Inr (), ?S\<lparr>l_cache := c, l_pinned := p\<rparr>)"
      "stage_ok f (?S\<lparr>l_cache := c, l_pinned := p\<rparr>)"
      using refresh_now_ok [OF okS bS pS] by blast
    show thesis by (rule that [of "?S\<lparr>l_cache := c, l_pinned := p\<rparr>"]) (use True cp in \<open>auto simp: started_def\<close>)
  next
    case False
    have "started indices L ?S" unfolding started_def by (rule exI [of _ "l_cache L"], rule exI [of _ "l_pinned L"]) simp
    then show thesis using that [of ?S] False okS by simp
  qed
  have "builds_all f M bld" using M(2) b by (auto simp: started_def builds_all_def)
  moreover have "forward K fused bld pins t xs indices L = fwd_paths K fused bld t xs indices M"
    unfolding forward_def Let_def M(1) using iv by simp
  ultimately show ?thesis using M(2,3) by blast
qed

lemma record_usage_ok:
  assumes ok: "stage_ok f M"
  shows "stage_ok f (record_usage inds M) \<and> same_slots M (record_usage inds M)"
proof -
  obtain cs where cs: "fold touch_hot (uniq (concat inds)) M = M\<lparr>l_counts := cs\<rparr>" using touch_fold by blast
  have "\<exists>tk. record_usage inds M = M\<lparr>l_counts := cs, s_topk := tk\<rparr>"
  proof (cases "s_mode M")
    case True
    then show ?thesis by (intro exI) (simp add: record_usage_def Let_def cs)
  next
    case False
    then show ?thesis by (intro exI [of _ "s_topk M"]) (simp add: record_usage_def Let_def cs)
  qed
  then obtain tk where r: "record_usage inds M = M\<lparr>l_counts := cs, s_topk := tk\<rparr>" by blast
  have "stage_ok f (M\<lparr>l_counts := cs, s_topk := tk\<rparr>)"
    by (rule stage_ok_frame [OF ok])
      (use ok in \<open>simp_all add: same_slots_def stage_ok_def incr_active_def incr_ok_def layer_ok_def split: option.splits\<close>)
  then show ?thesis by (simp add: r same_slots_def)
qed

section \<open>The hot window's misses\<close>

lemma set_update_subset: "set (AList.update k v d) \<subseteq> insert (k, v) (set d)"
  by (induction d) auto

lemma mset_add_group:
  "mset (concat (map snd (add_group (i, e) d))) = add_mset i (mset (concat (map snd d)))"
  if "dict_ok d"
  using that
proof (induction d)
  case (Cons x d)
  obtain e' ps where x: "x = (e', ps)" by fastforce
  have d: "dict_ok d" and n: "e' \<notin> set (keys_of d)" using Cons.prems by (simp_all add: x dict_ok_def keys_of_def)
  show ?case
  proof (cases "e' = e")
    case True
    then show ?thesis by (simp add: add_group_def x)
  next
    case False
    then show ?thesis using Cons.IH [OF d] by (simp add: add_group_def x)
  qed
qed (simp add: add_group_def)

lemma dict_ok_add_group: "dict_ok d \<Longrightarrow> dict_ok (add_group ie d)"
  by (simp add: add_group_def)

lemma add_group_pairs:
  "dict_ok d \<Longrightarrow> (e', ps) \<in> set (add_group (i, e) d) \<Longrightarrow> p \<in> set ps \<Longrightarrow>
     (p = i \<and> e' = e) \<or> (\<exists>qs. (e', qs) \<in> set d \<and> p \<in> set qs)"
proof -
  assume d: "dict_ok d" and e: "(e', ps) \<in> set (add_group (i, e) d)" and p: "p \<in> set ps"
  have "map_of (add_group (i, e) d) e' = Some ps"
    using e dict_ok_add_group [OF d, of "(i, e)"] by (simp add: dict_ok_def keys_of_def)
  then show ?thesis using p by (auto simp: add_group_def split: if_splits option.splits dest: map_of_SomeD)
qed

lemma by_expert_props:
  "mset (concat (map snd (by_expert ms))) = mset (map fst ms)"
  "(e, ps) \<in> set (by_expert ms) \<Longrightarrow> p \<in> set ps \<Longrightarrow> (p, e) \<in> set ms"
proof -
  have m: "dict_ok (fold add_group ms d) \<and>
      mset (concat (map snd (fold add_group ms d))) = mset (concat (map snd d)) + mset (map fst ms)"
    if "dict_ok d" for d
    using that
  proof (induction ms arbitrary: d)
    case (Cons m ms)
    then show ?case using mset_add_group [OF Cons.prems, of "fst m" "snd m"] dict_ok_add_group [OF Cons.prems, of m] by simp
  qed simp
  show "mset (concat (map snd (by_expert ms))) = mset (map fst ms)" using m [of "[]"] by (simp add: by_expert_def)
  have g: "(p, e) \<in> set ms \<or> (\<exists>qs. (e, qs) \<in> set d \<and> p \<in> set qs)"
    if "dict_ok d" "(e, ps) \<in> set (fold add_group ms d)" "p \<in> set ps" for d e ps p
    using that
  proof (induction ms arbitrary: d)
    case (Cons m ms)
    have "(p, e) \<in> set ms \<or> (\<exists>qs. (e, qs) \<in> set (add_group m d) \<and> p \<in> set qs)"
      by (rule Cons.IH) (use Cons.prems dict_ok_add_group in auto)
    moreover have "(e, qs) \<in> set (add_group m d) \<Longrightarrow> p \<in> set qs \<Longrightarrow>
        p = fst m \<and> e = snd m \<or> (\<exists>qs. (e, qs) \<in> set d \<and> p \<in> set qs)" for qs
      using add_group_pairs [OF Cons.prems(1), of e qs "fst m" "snd m" p] by simp
    ultimately show ?case by (cases m) auto
  qed auto
  show "(e, ps) \<in> set (by_expert ms) \<Longrightarrow> p \<in> set ps \<Longrightarrow> (p, e) \<in> set ms"
    using g [of "[]"] by (auto simp: by_expert_def)
qed

lemma by_expert_nonempty: "(e, ps) \<in> set (by_expert ms) \<Longrightarrow> ps \<noteq> []"
proof -
  have "\<forall>(e, ps) \<in> set (fold add_group ms d). ps \<noteq> []" if "\<forall>(e, ps) \<in> set d. ps \<noteq> []" for d
    using that
  proof (induction ms arbitrary: d)
    case (Cons m ms)
    have "set (add_group m d) \<subseteq> insert (snd m, (case map_of d (snd m) of None \<Rightarrow> [] | Some ps \<Rightarrow> ps) @ [fst m]) (set d)"
      unfolding add_group_def by (rule set_update_subset)
    then have "\<forall>(e, ps) \<in> set (add_group m d). ps \<noteq> []" using Cons.prems by auto
    then show ?case using Cons.IH by simp
  qed simp
  from this [of "[]"] show "(e, ps) \<in> set (by_expert ms) \<Longrightarrow> ps \<noteq> []" by (auto simp: by_expert_def)
qed

lemma length_scatter_add [simp]: "length (scatter_add K ps zs out) = length out"
proof -
  have "length (fold (\<lambda>(p, z) o'. o'[p := k_add K (o' ! p) z]) ws out) = length out" for ws
    by (induction ws arbitrary: out) (auto split: prod.splits)
  then show ?thesis by (simp add: scatter_add_def)
qed

lemma scatter_add_nth:
  "distinct ps \<Longrightarrow> p < length out \<Longrightarrow>
     scatter_add K ps (map z ps) out ! p = (if p \<in> set ps then k_add K (out ! p) (z p) else out ! p)"
proof (induction ps arbitrary: out)
  case (Cons q ps)
  have "scatter_add K (q # ps) (map z (q # ps)) out = scatter_add K ps (map z ps) (out[q := k_add K (out ! q) (z q)])"
    by (simp add: scatter_add_def)
  moreover have "p = q \<Longrightarrow> p \<notin> set ps" using Cons.prems(1) by auto
  ultimately show ?case using Cons.IH [of "out[q := k_add K (out ! q) (z q)]"] Cons.prems by (cases "p = q") simp_all
qed (simp add: scatter_add_def)

lemma add_misses_ok:
  assumes K: "kernels_ok K"
    and "distinct (concat (map snd groups))"
    and "\<forall>(e, ps) \<in> set groups. bld e = Inr (g e) \<and> (\<forall>p \<in> set ps. p < length xs \<and> E p = e)"
    and "length out = length xs"
  shows "\<exists>out'. add_misses K fused bld xs groups out = Inr out' \<and> length out' = length xs \<and>
    (\<forall>p < length xs. out' ! p = (if p \<in> set (concat (map snd groups))
       then k_add K (out ! p) (expert_out K fused (g (E p)) (xs ! p)) else out ! p))"
  using assms(2-4)
proof (induction groups arbitrary: out)
  case (Cons grp groups)
  obtain e ps where grp: "grp = (e, ps)" by fastforce
  have b: "bld e = Inr (g e)" and E: "\<And>p. p \<in> set ps \<Longrightarrow> p < length xs \<and> E p = e" using Cons.prems(2) by (auto simp: grp)
  have d: "distinct ps" "distinct (concat (map snd groups))" "set ps \<inter> set (concat (map snd groups)) = {}"
    using Cons.prems(1) by (auto simp: grp)
  have "moe_math K fused True (map (\<lambda>p. xs ! p) ps) [g e] (replicate (length ps) 0) =
      map2 (\<lambda>x i. expert_out K fused ([g e] ! i) x) (map (\<lambda>p. xs ! p) ps) (replicate (length ps) 0)"
    by (rule moe_math_rows) (use K in \<open>auto simp: kernels_ok_def sorted_replicate\<close>)
  also have "\<dots> = map (\<lambda>p. expert_out K fused (g e) (xs ! p)) ps"
    by (induction ps) simp_all
  finally have z: "moe_math K fused True (map (\<lambda>p. xs ! p) ps) [g e] (replicate (length ps) 0) =
      map (\<lambda>p. expert_out K fused (g e) (xs ! p)) ps" .
  let ?out = "scatter_add K ps (map (\<lambda>p. expert_out K fused (g e) (xs ! p)) ps) out"
  obtain out' where o': "add_misses K fused bld xs groups ?out = Inr out'" "length out' = length xs"
    "\<forall>p < length xs. out' ! p = (if p \<in> set (concat (map snd groups))
       then k_add K (?out ! p) (expert_out K fused (g (E p)) (xs ! p)) else ?out ! p)"
    using Cons.IH [OF d(2), of ?out] Cons.prems(2,3) by (auto simp: grp)
  have row: "?out ! p = (if p \<in> set ps then k_add K (out ! p) (expert_out K fused (g e) (xs ! p)) else out ! p)"
    if "p < length xs" for p
    by (rule scatter_add_nth [OF d(1)]) (use that Cons.prems(3) in simp)
  have "out' ! p = (if p \<in> set (concat (map snd (grp # groups)))
       then k_add K (out ! p) (expert_out K fused (g (E p)) (xs ! p)) else out ! p)" if p: "p < length xs" for p
    using o'(3) row [OF p] p d(3) E [of p] by (auto simp: grp)
  moreover have "add_misses K fused bld xs (grp # groups) out = Inr out'" using o'(1) b z by (simp add: grp Let_def)
  ultimately show ?case using o'(2) by blast
qed simp

text \<open>
  What the kernels do with an all-zero bundle: a product with a zero matrix is zero, and adding to zero
  is the identity.
\<close>

definition zero_spec :: "'v kernels \<Rightarrow> bmap \<Rightarrow> bool" where
  "zero_spec K z \<longleftrightarrow> (\<forall>x pj. k_qmm K x (wtri pj z) = k_zeros K) \<and> (\<forall>y. k_add K (k_zeros K) y = y)"

lemma expert_out_zero: "zero_spec K z \<Longrightarrow> expert_out K fused z x = k_zeros K"
  by (simp add: zero_spec_def expert_out_def split: prod.splits)

lemma mem_enumerate: "(i, x) \<in> set (enumerate_from0 xs) \<longleftrightarrow> i < length xs \<and> xs ! i = x"
  by (force simp: enumerate_from0_def in_set_zip)

lemma fwd_hot_ok:
  assumes K: "kernels_ok K" and z: "zero_spec K z" and len: "length xs = length inds"
    and rows: "rows = map g members @ [z]" and b: "\<forall>e \<in> set (concat inds). bld e = Inr (g e)"
  shows "fst (fwd_hot K fused bld members rows xs inds M) = Inr (moe_reference K fused g xs inds)"
proof -
  let ?flat = "concat inds" and ?xf = "spread xs inds"
  let ?re = "map (\<lambda>e. case py_index members e of None \<Rightarrow> length members | Some p \<Rightarrow> p) ?flat"
  let ?ms = "filter (\<lambda>(i, e). py_index members e = None) (enumerate_from0 ?flat)"
  have lx: "length ?xf = length ?flat" by (rule length_spread [OF len])
  have "\<forall>i \<in> set ?re. i < length rows" by (auto simp: rows split: option.splits dest: py_index_Some)
  then have fast: "moe_math_sorted K fused ?xf rows ?re = map2 (\<lambda>x i. expert_out K fused (rows ! i) x) ?xf ?re"
    by (intro moe_math_sorted_rows [OF K]) (simp_all add: lx)
  let ?out = "map2 (\<lambda>x i. expert_out K fused (rows ! i) x) ?xf ?re"
  have en: "enumerate_from0 ?flat = zip [0..<length ?flat] ?flat" by (simp add: enumerate_from0_def)
  have mem: "(p, e) \<in> set ?ms \<longleftrightarrow> p < length ?flat \<and> ?flat ! p = e \<and> py_index members e = None" for p e
    using mem_enumerate [of p e ?flat] by auto
  have "distinct (map fst ?ms)"
    using distinct_filter [of "[0..<length ?flat]"] by (simp add: en distinct_map_filter)
  then have dist: "distinct (concat (map snd (by_expert ?ms)))"
    using by_expert_props(1) [of ?ms] by (metis mset_eq_imp_distinct_iff)
  have pos: "set (concat (map snd (by_expert ?ms))) = fst ` set ?ms"
    using arg_cong [OF by_expert_props(1) [of ?ms], of set_mset] by simp
  have grp: "bld e = Inr (g e) \<and> (\<forall>p \<in> set ps. p < length ?xf \<and> ?flat ! p = e)" if e: "(e, ps) \<in> set (by_expert ?ms)" for e ps
  proof -
    have at: "p < length ?flat \<and> ?flat ! p = e" if "p \<in> set ps" for p
      using by_expert_props(2) [OF e that] mem by blast
    obtain p where "p \<in> set ps" using by_expert_nonempty [OF e] by (cases ps) auto
    then have "e \<in> set ?flat" using at nth_mem by metis
    then show ?thesis using b at lx by auto
  qed
  have "\<forall>(e, ps) \<in> set (by_expert ?ms). bld e = Inr (g e) \<and> (\<forall>p \<in> set ps. p < length ?xf \<and> ?flat ! p = e)"
    using grp by blast
  from add_misses_ok [OF K dist this, of ?out] obtain out' where o': "add_misses K fused bld ?xf (by_expert ?ms) ?out = Inr out'"
    "length out' = length ?xf" "\<forall>p < length ?xf. out' ! p = (if p \<in> set (concat (map snd (by_expert ?ms)))
       then k_add K (?out ! p) (expert_out K fused (g (?flat ! p)) (?xf ! p)) else ?out ! p)"
    using lx by auto
  have val: "out' ! p = (if p \<in> fst ` set ?ms then k_add K (?out ! p) (expert_out K fused (g (?flat ! p)) (?xf ! p)) else ?out ! p)"
    if "p < length ?flat" for p
    using o'(3) that lx unfolding pos by simp
  have "out' = moe_reference K fused g xs inds"
  proof (rule nth_equalityI)
    show "length out' = length (moe_reference K fused g xs inds)" using o'(2) lx by (simp add: moe_reference_def)
    fix p assume "p < length out'"
    then have p: "p < length ?flat" using o'(2) lx by simp
    have ref: "moe_reference K fused g xs inds ! p = expert_out K fused (g (?flat ! p)) (?xf ! p)"
      using p lx by (simp add: moe_reference_def)
    have out: "?out ! p = expert_out K fused (rows ! (?re ! p)) (?xf ! p)" using p lx by simp
    show "out' ! p = moe_reference K fused g xs inds ! p"
    proof (cases "py_index members (?flat ! p)")
      case None
      then have h: "p \<in> fst ` set ?ms" using mem [of p "?flat ! p"] p by force
      have "rows ! (?re ! p) = z" using None p by (simp add: rows nth_append)
      then have "?out ! p = k_zeros K" using out expert_out_zero [OF z] by metis
      then show ?thesis using val [OF p] h ref z unfolding zero_spec_def by metis
    next
      case (Some q)
      have h: "p \<notin> fst ` set ?ms"
      proof
        assume "p \<in> fst ` set ?ms"
        then obtain x where x: "x \<in> set ?ms" "p = fst x" by (rule imageE)
        obtain e where "x = (p, e)" using x(2) by (cases x) simp
        with x(1) have "(p, e) \<in> set ?ms" by simp
        then have "?flat ! p = e \<and> py_index members e = None" using mem by blast
        then show False using Some by simp
      qed
      have "rows ! (?re ! p) = g (?flat ! p)"
        using py_index_Some [OF Some] Some p by (simp add: rows nth_append)
      then show ?thesis using val [OF p] h ref out by metis
    qed
  qed
  then show ?thesis using o'(1) fast by (simp add: fwd_hot_def Let_def)
qed

lemma fwd_full_ok:
  assumes K: "kernels_ok K" and len: "length xs = length inds" and rows: "rows = map g [0..<num]"
    and lt: "\<forall>e \<in> set (concat inds). e < num"
  shows "fst (fwd_full K fused rows xs inds M) = Inr (moe_reference K fused g xs inds)"
proof -
  have "moe_math_sorted K fused (spread xs inds) rows (concat inds) =
      map2 (\<lambda>x i. expert_out K fused (rows ! i) x) (spread xs inds) (concat inds)"
    by (rule moe_math_sorted_rows [OF K length_spread [OF len]]) (use lt in \<open>simp add: rows\<close>)
  also have "\<dots> = moe_reference K fused g xs inds"
    unfolding moe_reference_def by (rule map2_cong_right) (use lt in \<open>auto simp: rows\<close>)
  finally show ?thesis by (simp add: fwd_full_def)
qed

lemma forward_prefill:
  assumes "kernels_ok K" and "stage_ok f L" and "builds_all f L bld" and "pins_ok (l_num L) pins" and "s_interval L \<noteq> 0"
    and "length xs = length inds" and "length (concat inds) > 8" and "\<forall>e \<in> set (concat inds). e < l_num L"
    and "s_full L = Some (map (\<lambda>e. f (l_idx L, e)) [0..<l_num L]) \<or>
      (s_full L = None \<and> s_hot L = Some (members, map (\<lambda>e. f (l_idx L, e)) members @ [s_zero L]) \<and> zero_spec K (s_zero L))"
  shows "\<exists>L'. forward K fused bld pins t xs (Some inds) L =
      Some (Inr (moe_reference K fused (\<lambda>e. f (l_idx L, e)) xs inds), L') \<and> stage_ok f L'"
proof -
  let ?g = "\<lambda>e. f (l_idx L, e)"
  obtain M where M: "started (Some inds) L M" "stage_ok f M"
    "forward K fused bld pins t xs (Some inds) L = fwd_paths K fused bld t xs (Some inds) M"
    using forward_start [OF assms(2-5)] by blast
  have f: "s_hot M = s_hot L" "s_full M = s_full L" using M(1) by (auto simp: started_def)
  have ok: "stage_ok f (snd (fwd_full K fused rows xs inds M))"
    "stage_ok f (snd (fwd_hot K fused bld members rows xs inds M))" for rows
    using record_usage_ok [OF M(2)] by (simp_all add: fwd_full_def fwd_hot_def Let_def)
  show ?thesis
  proof (cases "s_full L")
    case None
    then have h: "s_hot L = Some (members, map ?g members @ [s_zero L])" "zero_spec K (s_zero L)" using assms(9) by simp_all
    have b: "\<forall>e \<in> set (concat inds). bld e = Inr (?g e)" using assms(3,8) by (simp add: builds_all_def)
    have "fst (fwd_hot K fused bld members (map ?g members @ [s_zero L]) xs inds M) = Inr (moe_reference K fused ?g xs inds)"
      by (rule fwd_hot_ok [OF assms(1) h(2) assms(6) refl b])
    then show ?thesis using M(3) f h(1) None assms(7) ok(2)
      by (intro exI [of _ "snd (fwd_hot K fused bld members (map ?g members @ [s_zero L]) xs inds M)"])
        (simp add: prod_eq_iff fwd_paths_def)
  next
    case (Some rows)
    then have r: "rows = map ?g [0..<l_num L]" using assms(9) by simp
    have "fst (fwd_full K fused rows xs inds M) = Inr (moe_reference K fused ?g xs inds)"
      by (rule fwd_full_ok [OF assms(1,6) r assms(8)])
    then show ?thesis using M(3) f Some assms(7) ok(1) [of rows]
      by (intro exI [of _ "snd (fwd_full K fused rows xs inds M)"]) (cases "s_hot L"; simp add: prod_eq_iff fwd_paths_def)
  qed
qed

text \<open>
  C12: prefill is exact. On every chunk of more than eight routed slots, the whole-layer path and the
  hot-window path (hits through the resident stack, misses through per-expert builds added to the zero
  rows) return for every token exactly what its routed experts compute, and keep the layer coherent.
\<close>

theorem prefill_paths_exact:
  assumes "kernels_ok K" and "stage_ok f L" and "builds_all f L bld" and "pins_ok (l_num L) pins" and "s_interval L \<noteq> 0"
    and "length xs = length inds" and "length (concat inds) > 8" and "\<forall>e \<in> set (concat inds). e < l_num L"
    and "s_full L = Some (map (\<lambda>e. f (l_idx L, e)) [0..<l_num L]) \<or>
      (s_full L = None \<and> s_hot L = Some (members, map (\<lambda>e. f (l_idx L, e)) members @ [s_zero L]) \<and> zero_spec K (s_zero L))"
  shows "\<exists>L'. forward K fused bld pins t xs (Some inds) L =
      Some (Inr (moe_reference K fused (\<lambda>e. f (l_idx L, e)) xs inds), L') \<and> stage_ok f L'"
  using assms by (rule forward_prefill)


section \<open>Decode\<close>

text \<open>The staged path, and the exact path it falls back to.\<close>

lemma fwd_staged_ok:
  assumes K: "kernels_ok K" and len: "length xs = length inds" and lt: "\<forall>e \<in> set (concat inds). e < num"
    and rows: "\<And>e. e < num \<Longrightarrow> tbl ! e < length rows \<and> rows ! (tbl ! e) = (if e \<in> set sel then g e else z)"
  shows "fst (fwd_staged K fused (rows, tbl, sel) xs inds M) =
    Inr (map2 (\<lambda>x e. expert_out K fused (if e \<in> set sel then g e else z) x) (spread xs inds) (concat inds))"
proof -
  let ?loc = "map (\<lambda>e. tbl ! e) (concat inds)"
  have "moe_math K fused False (spread xs inds) rows ?loc = map2 (\<lambda>x i. expert_out K fused (rows ! i) x) (spread xs inds) ?loc"
    by (rule moe_math_rows) (use K length_spread [OF len] lt rows in \<open>auto simp: kernels_ok_def\<close>)
  also have "\<dots> = map2 (\<lambda>x e. expert_out K fused (rows ! (tbl ! e)) x) (spread xs inds) (concat inds)"
    by (rule map2_map_right)
  also have "\<dots> = map2 (\<lambda>x e. expert_out K fused (if e \<in> set sel then g e else z) x) (spread xs inds) (concat inds)"
    by (rule map2_cong_right) (use lt rows in auto)
  finally show ?thesis by (simp add: fwd_staged_def)
qed

text \<open>The bundles of a request come back in the order of the request.\<close>

lemma keys_update_present: "e \<in> set (keys_of d) \<Longrightarrow> keys_of (AList.update e b d) = keys_of d"
  by (simp add: keys_of_update)

lemma take_cached_keys:
  "take_cached es bs st L = (bs', st', L') \<Longrightarrow> set es \<subseteq> set (keys_of bs) \<Longrightarrow>
     keys_of bs' = keys_of bs \<and> set st' \<subseteq> set st \<union> set es"
proof (induction es arbitrary: bs st L)
  case (Cons e es)
  obtain r c where g: "cache_get (l_cache L) (l_idx L, e) = (r, c)" by fastforce
  show ?case
  proof (cases r)
    case None
    then have "take_cached es bs (st @ [e]) (L\<lparr>l_cache := c\<rparr>) = (bs', st', L')" using Cons.prems(1) g by simp
    from Cons.IH [OF this] Cons.prems(2) show ?thesis by auto
  next
    case (Some b)
    then have "take_cached es (AList.update e (Some b) bs) st (count_hit (L\<lparr>l_cache := c\<rparr>)) = (bs', st', L')"
      using Cons.prems(1) g by simp
    from Cons.IH [OF this] Cons.prems(2) show ?thesis by (auto simp: keys_update_present)
  qed
qed simp

lemma take_prefetched_keys:
  "take_prefetched es bs rs L = (bs', rs', L') \<Longrightarrow> set es \<subseteq> set (keys_of bs) \<Longrightarrow> keys_of bs' = keys_of bs"
proof (induction es arbitrary: bs rs L)
  case (Cons e es)
  obtain r p where g: "pbuf_pop (l_idx L, e) (l_pbuf L) = (r, p)" by fastforce
  show ?case
  proof (cases r)
    case None
    then have "take_prefetched es bs rs (L\<lparr>l_pbuf := p\<rparr>) = (bs', rs', L')" using Cons.prems(1) g by simp
    from Cons.IH [OF this] Cons.prems(2) show ?thesis by auto
  next
    case (Some b)
    then have "take_prefetched es (AList.update e (Some b) bs) (e # rs)
        (put_shared e b (touch_hot e (count_pf_hit (L\<lparr>l_pbuf := p\<rparr>)))) = (bs', rs', L')"
      using Cons.prems(1) g by simp
    from Cons.IH [OF this] Cons.prems(2) show ?thesis by (auto simp: keys_update_present)
  qed
qed simp

lemma take_inflight_keys:
  "take_inflight es bs rs L = (Inr (bs', rs'), L') \<Longrightarrow> set es \<subseteq> set (keys_of bs) \<Longrightarrow> keys_of bs' = keys_of bs"
proof (induction es bs rs L rule: take_inflight.induct)
  case (2 e es bs rs L)
  then show ?case by (auto simp: keys_update_present split: option.splits sum.splits)
qed simp

lemma load_missing_keys:
  assumes "load_missing bld ms bs L = (Inr bs', L')" and "set ms \<subseteq> set (keys_of bs)"
  shows "keys_of bs' = keys_of bs"
proof -
  have f: "keys_of (fold (\<lambda>(e, b). AList.update e (Some b)) ws d) = keys_of d" if "fst ` set ws \<subseteq> set (keys_of d)"
    for ws and d :: "'a bundles"
    using that
  proof (induction ws arbitrary: d)
    case (Cons w ws)
    then show ?case by (auto simp: keys_update_present split: prod.splits)
  qed simp
  have "fst ` set (zip ms built) \<subseteq> set ms" for built :: "'a list" by (auto dest: set_zip_leftD)
  then show ?thesis using assms f
    by (auto simp: load_missing_def split: if_splits sum.splits) (metis f subset_trans)
qed

lemma get_bundles_keys:
  assumes "get_bundles bld L es = (Inr bs, L')" and "distinct es"
  shows "keys_of bs = es"
proof -
  obtain bs1 ms1 where p1: "take_pinned L es [] [] = (bs1, ms1)" by fastforce
  obtain bs2 ms2 L2 where p2: "take_cached ms1 bs1 [] L = (bs2, ms2, L2)" by (metis prod_cases3)
  obtain bs3 rs3 L3 where p3: "take_prefetched ms2 bs2 [] L2 = (bs3, rs3, L3)" by (metis prod_cases3)
  let ?ms3 = "filter (\<lambda>e. e \<notin> set rs3) ms2"
  obtain r4 L4 where p4: "take_inflight ?ms3 bs3 [] L3 = (r4, L4)" by fastforce
  have "keys_of (fold (\<lambda>e. AList.update e (g e)) es' d) = keys_of d @ es'"
    if "distinct (keys_of d @ es')" for es' :: "nat list" and g and d :: "'a bundles"
    using that
  proof (induction es' arbitrary: d)
    case (Cons e es')
    have k: "keys_of (AList.update e (g e) d) = keys_of d @ [e]" using Cons.prems by (auto simp: keys_of_update)
    show ?case using Cons.IH [of "AList.update e (g e) d"] Cons.prems by (simp add: k)
  qed simp
  from this [of "[]" es] have k1: "keys_of bs1 = es" and m1: "set ms1 \<subseteq> set es"
    using p1 assms(2) by (auto simp: take_pinned_result keys_of_def)
  have k2: "keys_of bs2 = es" "set ms2 \<subseteq> set es" using take_cached_keys [OF p2] k1 m1 by auto
  have k3: "keys_of bs3 = es" using take_prefetched_keys [OF p3] k2 by simp
  obtain bs4 rs4 where r4: "r4 = Inr (bs4, rs4)" using assms(1)
    by (cases r4) (auto simp: get_bundles_def p1 p2 p3 p4 Let_def)
  have k4: "keys_of bs4 = es" using take_inflight_keys [of ?ms3 bs3 "[]" L3 bs4 rs4 L4] p4 r4 k3 k2 by auto
  show ?thesis
    using assms(1) r4 load_missing_keys [of bld "filter (\<lambda>e. e \<notin> set rs4) ?ms3" bs4 L4 bs L'] k4 k2
    by (auto simp: get_bundles_def p1 p2 p3 p4 Let_def)
qed

lemma dict_from_keys:
  "keys_of d = ks \<Longrightarrow> distinct ks \<Longrightarrow> \<forall>k \<in> set ks. map_of d k = Some (v k) \<Longrightarrow> d = map (\<lambda>k. (k, v k)) ks"
proof (induction d arbitrary: ks)
  case (Cons x d)
  obtain k w where x: "x = (k, w)" by fastforce
  then have ks: "ks = k # keys_of d" using Cons.prems(1) by (simp add: keys_of_def)
  have "map_of d j = Some (v j)" if j: "j \<in> set (keys_of d)" for j
  proof -
    have "j \<noteq> k" using j Cons.prems(2) by (auto simp: ks)
    then show ?thesis using Cons.prems(3) [rule_format, of j] j by (simp add: ks x)
  qed
  then have "d = map (\<lambda>k. (k, v k)) (keys_of d)" using Cons.IH [OF refl] Cons.prems(2) by (simp add: ks)
  moreover have "w = v k" using Cons.prems(3) by (simp add: ks x)
  ultimately show ?case by (simp add: ks x)
qed (simp add: keys_of_def)

lemma the_bundles_map: "the_bundles (map (\<lambda>e. (e, Some (g e))) es) = Inr (map g es)"
  unfolding the_bundles_def by (induction es) simp_all

lemma fwd_exact_ok:
  assumes K: "kernels_ok K" and ok: "stage_ok f M" and b: "builds_all f M bld" and fut: "futures_ok bld M"
    and len: "length xs = length inds" and lt: "\<forall>e \<in> set (concat inds). e < l_num M"
  shows "fst (fwd_exact K fused bld xs inds M) = Inr (moe_reference K fused (\<lambda>e. f (l_idx M, e)) xs inds)"
proof -
  let ?g = "\<lambda>e. f (l_idx M, e)" and ?u = "uniq (concat inds)"
  let ?M = "M\<lparr>l_last_used := ?u\<rparr>"
  have lok: "layer_ok f ?M" using ok by (simp add: stage_ok_def)
  have bl: "builds f (l_idx ?M) (l_num M) bld" using b by (simp add: builds_def builds_all_def)
  have ult: "\<forall>e \<in> set ?u. e < l_num M" using lt by simp
  note gb = get_bundles_exact [OF lok bl ult]
  obtain bs L' where r: "get_bundles bld ?M ?u = (Inr bs, L')"
  proof (cases "get_bundles bld ?M ?u")
    case (Pair r L')
    show thesis
    proof (cases r)
      case (Inl err)
      then obtain e where e: "e \<in> set ?u" "bld e = Inl err \<or> map_of (l_inflight M) e = Some (Inl err)"
        using gb Pair by auto
      then have "bld e = Inl err" using fut by (auto simp: futures_ok_def)
      then show thesis using b ult e(1) by (auto simp: builds_all_def)
    next
      case (Inr bs)
      then show thesis using that Pair by simp
    qed
  qed
  have "\<forall>e \<in> set ?u. map_of bs e = Some (Some (?g e))" using gb r by simp
  then have bs: "bs = map (\<lambda>e. (e, Some (?g e))) ?u"
    by (intro dict_from_keys [OF get_bundles_keys [OF r]]) simp_all
  have tb: "the_bundles bs = Inr (map ?g ?u)"
    unfolding bs by (rule the_bundles_map)
  let ?loc = "map (\<lambda>e. the (py_index ?u e)) (concat inds)"
  have pi: "\<exists>i. py_index ?u e = Some i \<and> i < length ?u \<and> ?u ! i = e" if "e \<in> set (concat inds)" for e
    using that py_index_None [of ?u e] py_index_Some [of ?u e] by (cases "py_index ?u e") auto
  have loc: "res_map (\<lambda>e. case py_index ?u e of None \<Rightarrow> Inl KeyError | Some i \<Rightarrow> Inr i) (concat inds) = Inr ?loc"
    by (rule res_map_all_Inr) (use pi in fastforce)
  have idx: "\<forall>i \<in> set ?loc. i < length (map ?g ?u)" using pi by fastforce
  have lx: "length (spread xs inds) = length ?loc" using length_spread [OF len] by simp
  have rows: "map2 (\<lambda>x i. expert_out K fused (map ?g ?u ! i) x) (spread xs inds) ?loc = moe_reference K fused ?g xs inds"
    unfolding moe_reference_def map2_map_right by (rule map2_cong_right) (use pi in fastforce)
  have "moe_math_sorted K fused (spread xs inds) (map ?g ?u) ?loc = moe_reference K fused ?g xs inds"
    using moe_math_sorted_rows [OF K lx idx] rows by simp
  moreover have "moe_math K fused False (spread xs inds) (map ?g ?u) ?loc = moe_reference K fused ?g xs inds"
    using moe_math_rows [OF _ lx idx, of K False fused] K rows by (simp add: kernels_ok_def)
  ultimately show ?thesis by (simp add: fwd_exact_def Let_def r loc tb)
qed

lemma take_phases_at_use:
  "take_cached es bs st L = (bs', st', L') \<Longrightarrow> s_at_use L' = s_at_use L"
  "take_prefetched es bs rs L = (bs', rs', L') \<Longrightarrow> s_at_use L' = s_at_use L"
  "take_inflight es bs rs L = (r, L') \<Longrightarrow> s_at_use L' = s_at_use L"
proof -
  show "take_cached es bs st L = (bs', st', L') \<Longrightarrow> s_at_use L' = s_at_use L"
    by (induction es bs st L rule: take_cached.induct) (auto simp: count_hit_def split: prod.splits option.splits)
  show "take_prefetched es bs rs L = (bs', rs', L') \<Longrightarrow> s_at_use L' = s_at_use L"
    by (induction es bs rs L rule: take_prefetched.induct)
      (auto simp: put_shared_def touch_hot_def count_pf_hit_def split: prod.splits option.splits)
  show "take_inflight es bs rs L = (r, L') \<Longrightarrow> s_at_use L' = s_at_use L"
    by (induction es bs rs L rule: take_inflight.induct)
      (auto simp: put_shared_def touch_hot_def count_pf_hit_def split: option.splits sum.splits)
qed

lemma fold_at_use:
  "s_at_use (fold loaded es L) = s_at_use L" "s_at_use (fold (\<lambda>(e, b). put_shared e b) ws L) = s_at_use L"
proof -
  show "s_at_use (fold loaded es L) = s_at_use L"
    by (induction es arbitrary: L) (simp_all add: loaded_def touch_hot_def count_load_def)
  show "s_at_use (fold (\<lambda>(e, b). put_shared e b) ws L) = s_at_use L"
    by (induction ws arbitrary: L) (auto simp: put_shared_def split: prod.splits)
qed

lemma get_bundles_at_use: "s_at_use (snd (get_bundles bld L es)) = s_at_use L"
  by (auto simp: get_bundles_def load_missing_def fold_at_use Let_def split: prod.splits sum.splits
      dest!: take_phases_at_use)

lemma exact_state_ok:
  assumes ok: "stage_ok f M" and b: "builds_all f M bld" and lt: "\<forall>e \<in> set (concat inds). e < l_num M"
  shows "layer_ok f (snd (fwd_exact K fused bld xs inds M))"
proof -
  let ?M = "M\<lparr>l_last_used := uniq (concat inds)\<rparr>"
  have "layer_ok f ?M" using ok by (simp add: stage_ok_def)
  moreover have "builds f (l_idx ?M) (l_num M) bld" using b by (simp add: builds_def builds_all_def)
  ultimately have "layer_ok f (snd (get_bundles bld ?M (uniq (concat inds))))"
    using get_bundles_exact [of f ?M "l_num M" bld] lt by simp
  then show ?thesis by (auto simp: fwd_exact_def Let_def split: prod.splits sum.splits)
qed

text \<open>
  C3: the exact path is exact. When no stacked weights are resident (or the batch is small) and the
  call is not a staged decode step, the call returns for every token exactly what its routed experts
  compute, whatever the caches, the prefetch buffer and the futures in flight hold.
\<close>

theorem decode_exact:
  assumes "kernels_ok K" and "stage_ok f L" and "builds_all f L bld" and "futures_ok bld L"
    and "pins_ok (l_num L) pins" and "s_interval L \<noteq> 0"
    and "length xs = length inds" and "\<forall>e \<in> set (concat inds). e < l_num L"
    and "length (concat inds) \<le> 8 \<or> (s_full L = None \<and> s_hot L = None)"
    and "\<not> (s_mode L \<and> int (length (concat inds)) = s_trigger L)"
  shows "\<exists>L'. forward K fused bld pins t xs (Some inds) L =
      Some (Inr (moe_reference K fused (\<lambda>e. f (l_idx L, e)) xs inds), L') \<and> layer_ok f L'"
proof -
  obtain M where M: "started (Some inds) L M" "stage_ok f M" "builds_all f M bld"
    "forward K fused bld pins t xs (Some inds) L = fwd_paths K fused bld t xs (Some inds) M"
    using forward_start [OF assms(2,3,5,6)] by blast
  have f: "s_hot M = s_hot L" "s_full M = s_full L" "s_mode M = s_mode L" "s_trigger M = s_trigger L"
    "l_num M = l_num L" "l_idx M = l_idx L" "l_inflight M = l_inflight L"
    using M(1) by (auto simp: started_def)
  have fut: "futures_ok bld M" using assms(4) f by (simp add: futures_ok_def)
  have "fwd_paths K fused bld t xs (Some inds) M = Some (fwd_exact K fused bld xs inds M)"
    using assms(9,10) by (auto simp: fwd_paths_def fwd_tail_def f split: option.splits)
  moreover have "fst (fwd_exact K fused bld xs inds M) = Inr (moe_reference K fused (\<lambda>e. f (l_idx L, e)) xs inds)"
    using fwd_exact_ok [OF assms(1) M(2,3) fut assms(7)] assms(8) f by simp
  moreover have "layer_ok f (snd (fwd_exact K fused bld xs inds M))"
    by (rule exact_state_ok [OF M(2,3)]) (use assms(8) f in simp)
  ultimately show ?thesis using M(4) by (intro exI [of _ "snd (fwd_exact K fused bld xs inds M)"]) (simp add: prod_eq_iff)
qed

lemma forward_staged:
  assumes "kernels_ok K" and "zero_spec K (s_zero L)" and "stage_ok f L" and "builds_all f L bld" and "futures_ok bld L"
    and "pins_ok (l_num L) pins" and "s_interval L \<noteq> 0"
    and "length xs = length inds" and "\<forall>e \<in> set (concat inds). e < l_num L"
    and "length (concat inds) \<le> 8 \<or> (s_full L = None \<and> s_hot L = None)"
    and "s_mode L" and "int (length (concat inds)) = s_trigger L" and "s_future L = None" and "s_rearm L = None"
  shows "\<exists>r L'. forward K fused bld pins t xs (Some inds) L = Some (Inr r, L') \<and>
    (case s_at_use L' of
       None \<Rightarrow> r = moe_reference K fused (\<lambda>e. f (l_idx L, e)) xs inds
     | Some sel \<Rightarrow>
         r = map2 (\<lambda>x e. if e \<in> set sel then expert_out K fused (f (l_idx L, e)) x else k_zeros K) (spread xs inds) (concat inds) \<and>
         (set (concat inds) \<subseteq> set sel \<longrightarrow> r = moe_reference K fused (\<lambda>e. f (l_idx L, e)) xs inds))"
proof -
  let ?g = "\<lambda>e. f (l_idx L, e)"
  obtain M where M: "started (Some inds) L M" "stage_ok f M" "builds_all f M bld"
    "forward K fused bld pins t xs (Some inds) L = fwd_paths K fused bld t xs (Some inds) M"
    using forward_start [OF assms(3,4,6,7)] by blast
  have fM: "s_hot M = s_hot L" "s_full M = s_full L" "s_mode M = s_mode L" "s_trigger M = s_trigger L"
    "l_num M = l_num L" "l_idx M = l_idx L" "l_inflight M = l_inflight L" "s_future M = None" "s_rearm M = None" "s_zero M = s_zero L"
    using M(1) assms(13,14) by (auto simp: started_def)
  define N where "N = promote M"
  have w: "wait_staged bld t M = Some N" by (simp add: wait_staged_def drain_rearm_def fM N_def Let_def)
  have N: "stage_ok f N" "same_slots M N" using wait_staged_ok [OF M(2,3) w] by simp_all
  have fN: "l_num N = l_num L" "l_idx N = l_idx L" "s_zero N = s_zero L" using N(2) fM by (simp_all add: same_slots_def)
  have paths: "fwd_paths K fused bld t xs (Some inds) M = Some (case staged_stack N of
      None \<Rightarrow> fwd_exact K fused bld xs inds (stat_fallback N) | Some stack \<Rightarrow> fwd_staged K fused stack xs inds N)"
    using assms(10-12) w by (auto simp: fwd_paths_def fwd_tail_def fM split: option.splits)
  show ?thesis
  proof (cases "staged_stack N")
    case None
    let ?F = "stat_fallback N"
    have "stage_ok f ?F" "builds_all f ?F bld" "futures_ok bld ?F"
      using N(1) builds_all_same [OF N(2) M(3)] assms(5) fM(7)
      by (simp_all add: stat_fallback_def stage_ok_def incr_active_def fill_ok_def job_ok_def builds_all_def futures_ok_def
          N_def promote_def split: option.splits)
    then have "fst (fwd_exact K fused bld xs inds ?F) = Inr (moe_reference K fused ?g xs inds)"
      using fwd_exact_ok [OF assms(1) _ _ _ assms(8), of f ?F bld fused] assms(9) fN by (simp add: stat_fallback_def)
    moreover have "s_at_use (snd (fwd_exact K fused bld xs inds ?F)) = None"
      using get_bundles_at_use [of bld "?F\<lparr>l_last_used := uniq (concat inds)\<rparr>" "uniq (concat inds)"]
      by (auto simp: fwd_exact_def Let_def stat_fallback_def split: prod.splits sum.splits)
    ultimately show ?thesis using M(4) paths None
      by (intro exI [of _ "moe_reference K fused ?g xs inds"] exI [of _ "snd (fwd_exact K fused bld xs inds ?F)"])
        (simp add: prod_eq_iff)
  next
    case (Some stack)
    obtain rows tbl sel where st: "stack = (rows, tbl, sel)" by (metis prod_cases3)
    let ?r = "map2 (\<lambda>x e. if e \<in> set sel then expert_out K fused (?g e) x else k_zeros K) (spread xs inds) (concat inds)"
    have rows: "tbl ! e < length rows \<and> rows ! (tbl ! e) = (if e \<in> set sel then ?g e else s_zero L)" if "e < l_num L" for e
      using staged_stack_rows [OF N(1) wait_staged_next [OF w], of rows tbl sel e] Some st that fN by simp
    have "fst (fwd_staged K fused stack xs inds N) =
        Inr (map2 (\<lambda>x e. expert_out K fused (if e \<in> set sel then ?g e else s_zero L) x) (spread xs inds) (concat inds))"
      unfolding st by (rule fwd_staged_ok [OF assms(1,8,9) rows])
    also have "map2 (\<lambda>x e. expert_out K fused (if e \<in> set sel then ?g e else s_zero L) x) (spread xs inds) (concat inds) = ?r"
      by (rule map2_cong_right) (simp add: expert_out_zero [OF assms(2)])
    finally have r: "fst (fwd_staged K fused stack xs inds N) = Inr ?r" .
    have "?r = moe_reference K fused ?g xs inds" if "set (concat inds) \<subseteq> set sel"
      unfolding moe_reference_def by (rule map2_cong_right) (use that in auto)
    moreover have "s_at_use (snd (fwd_staged K fused stack xs inds N)) = Some sel" by (simp add: fwd_staged_def st stat_used_def)
    ultimately show ?thesis using M(4) paths Some r
      by (intro exI [of _ ?r] exI [of _ "snd (fwd_staged K fused stack xs inds N)"]) (simp add: prod_eq_iff)
  qed
qed


section \<open>An instance of the kernels\<close>

text \<open>Kernels over any product \<open>q\<close>, addition and zero: \<open>_gather_sort\<close> is a stable sort by index.\<close>

definition sorting_kernels ::
  "('v \<Rightarrow> wtriple \<Rightarrow> 'v) \<Rightarrow> ('v \<Rightarrow> 'v \<Rightarrow> 'v) \<Rightarrow> ('v \<Rightarrow> 'v \<times> 'v) \<Rightarrow> ('v \<Rightarrow> 'v \<Rightarrow> 'v) \<Rightarrow> 'v \<Rightarrow> 'v kernels" where
  "sorting_kernels q mul split add z = \<lparr>
     k_qmm = q, k_gather = (\<lambda>srt xs ws idx. map2 (\<lambda>x i. q x (ws ! i)) xs idx),
     k_gsort = (\<lambda>xs idx. let p = sort_key (\<lambda>i. idx ! i) [0..<length idx]
                         in (map (\<lambda>i. xs ! i) p, map (\<lambda>i. idx ! i) p, p)),
     k_unsort = (\<lambda>ys p. map (\<lambda>i. the (map_of (zip p ys) i)) [0..<length p]),
     k_silu = id, k_mul = mul, k_split = split, k_add = add, k_zeros = z\<rparr>"

lemma map_of_zip_map_same: "i \<in> set p \<Longrightarrow> map_of (zip p (map F p)) i = Some (F i)"
  by (induction p) auto

lemma sorting_kernels_ok: "kernels_ok (sorting_kernels q mul split add z)"
proof -
  let ?K = "sorting_kernels q mul split add z"
  have "case k_gsort ?K xs idx of (xs', idx', perm) \<Rightarrow>
      sorted idx' \<and> set idx' = set idx \<and> length xs' = length idx' \<and>
      (\<forall>h. k_unsort ?K (map2 h xs' idx') perm = map2 h xs idx)"
    if len: "length xs = length idx" for xs and idx
  proof -
    let ?p = "sort_key (\<lambda>i. idx ! i) [0..<length idx]"
    have srt: "sorted (map (\<lambda>i. idx ! i) ?p)" by (rule sorted_sort_key)
    have set: "set (map (\<lambda>i. idx ! i) ?p) = set idx" by (auto simp: in_set_conv_nth)
    have un: "k_unsort ?K (map2 h (map (\<lambda>i. xs ! i) ?p) (map (\<lambda>i. idx ! i) ?p)) ?p = map2 h xs idx" for h
    proof -
      have m: "map2 h (map (\<lambda>i. xs ! i) ?p) (map (\<lambda>i. idx ! i) ?p) = map (\<lambda>i. h (xs ! i) (idx ! i)) ?p"
        by (simp add: zip_map1 zip_map2 zip_same_conv_map)
      show ?thesis unfolding m
        by (rule nth_equalityI) (simp_all add: sorting_kernels_def len map_of_zip_map_same)
    qed
    show ?thesis using srt set un by (simp add: sorting_kernels_def Let_def)
  qed
  then have "sort_spec ?K" by (simp add: sort_spec_def)
  moreover have "gather_spec ?K" by (simp add: gather_spec_def sorting_kernels_def)
  ultimately show ?thesis by (simp add: kernels_ok_def)
qed

definition demo_kernels :: "int kernels" where
  "demo_kernels = sorting_kernels (\<lambda>x w. case fst w of None \<Rightarrow> 0 | Some t \<Rightarrow> x * int (length (tdata t)))
     (*) (\<lambda>x. (x, x)) (+) 0"

lemma demo_kernels_ok: "kernels_ok demo_kernels" "zero_spec demo_kernels (\<lambda>key. None)"
proof -
  show "kernels_ok demo_kernels" unfolding demo_kernels_def by (rule sorting_kernels_ok)
qed (simp add: demo_kernels_def zero_spec_def sorting_kernels_def wtri_def)

definition demo_f :: "nat \<times> nat \<Rightarrow> bmap" where
  "demo_f ie = (\<lambda>key. Some \<lparr>tdtype = DT_U32, tshape = [snd ie], tdata = replicate (snd ie) 1\<rparr>)"

definition demo_block :: "bmap slayer" where
  "demo_block = slayer_new (\<lambda>key. None) (default_options\<lparr>staged := True, staged_n := 3, staged_trigger := 2\<rparr>)
     (layer_new 3 6 default_options None None)"

lemma demo_block_fields:
  "l_num demo_block = 6" "l_idx demo_block = 3" "s_zero demo_block = (\<lambda>key. None)" "s_interval demo_block = 4"
  "s_mode demo_block" "s_trigger demo_block = 2" "s_full demo_block = None" "s_hot demo_block = None"
  "s_future demo_block = None" "s_rearm demo_block = None" "l_inflight demo_block = []"
  by (simp_all add: demo_block_def slayer_new_def Let_def layer.defs layer_new_def default_options_def)

lemma demo_block_ok:
  "stage_ok demo_f demo_block" "builds_all demo_f demo_block (\<lambda>e. Inr (demo_f (3, e)))"
  "futures_ok (\<lambda>e. Inr (demo_f (3, e))) demo_block" "pins_ok 6 ([], id)"
proof -
  show "stage_ok demo_f demo_block" unfolding demo_block_def
    by (rule stage_ok_new, rule layer_ok_new) simp_all
qed (simp_all add: builds_all_def demo_block_fields futures_ok_def pins_ok_def)

lemma stage_ok_full: "stage_ok f (L\<lparr>s_full := r\<rparr>) = stage_ok f L"
  by (simp add: stage_ok_def fill_ok_def job_ok_def incr_active_def)

theorem prefill_paths_exact_witness:
  "\<exists>L'. forward demo_kernels True (\<lambda>e. Inr (demo_f (3, e))) ([], id) Late [1, 2, 3] (Some [[0, 1, 2], [3, 4, 5], [5, 1, 2]])
      (demo_block\<lparr>s_full := Some (map (\<lambda>e. demo_f (3, e)) [0..<6])\<rparr>) =
    Some (Inr (moe_reference demo_kernels True (\<lambda>e. demo_f (3, e)) [1, 2, 3] [[0, 1, 2], [3, 4, 5], [5, 1, 2]]), L') \<and>
    stage_ok demo_f L'"
proof -
  let ?L = "demo_block\<lparr>s_full := Some (map (\<lambda>e. demo_f (3, e)) [0..<6])\<rparr>"
  have "stage_ok demo_f ?L" using demo_block_ok(1) by (simp add: stage_ok_full)
  moreover have "builds_all demo_f ?L (\<lambda>e. Inr (demo_f (3, e)))" by (simp add: builds_all_def demo_block_fields)
  ultimately show ?thesis
    using prefill_paths_exact [OF demo_kernels_ok(1), of demo_f ?L "\<lambda>e. Inr (demo_f (3, e))" "([], id)" "[1, 2, 3]"
        "[[0, 1, 2], [3, 4, 5], [5, 1, 2]]" "[]" True Late] demo_block_ok(4)
    by (simp add: demo_block_fields)
qed

theorem decode_exact_witness:
  "\<exists>L'. forward demo_kernels False (\<lambda>e. Inr (demo_f (3, e))) ([], id) Late [5] (Some [[4, 1, 2]]) demo_block =
    Some (Inr (moe_reference demo_kernels False (\<lambda>e. demo_f (3, e)) [5] [[4, 1, 2]]), L')"
  using decode_exact [OF demo_kernels_ok(1) demo_block_ok(1-3), of "([], id)" "[5]" "[[4, 1, 2]]" False Late] demo_block_ok(4)
  by (auto simp: demo_block_fields)


end
