(* ===== verification/Prefill.thy ===== *)
theory Prefill
  imports Forward Hot_Stack
begin

text \<open>
  The prefill residency of the streaming layers: \<open>load_full_layer\<close>, \<open>clear_full_layer\<close>,
  \<open>load_hot_layer\<close>, \<open>materialize_hot\<close>, \<open>dematerialize_hot\<close> and \<open>clear_hot_layer\<close> of
  \<open>edge0/streaming/layer.py\<close>, and the callbacks of \<open>edge0/engine/hooks.py\<close> that drive them:
  the before-layer hook with its sliding window, the after-layer hook and the history prefetch.
  The lemmas bound what is resident at every point of every prefill and show that a layer the hook
  has loaded computes what its checkpoint says.
\<close>

section \<open>One layer's residency\<close>

text \<open>
  A streaming layer with the part of its state the prefill paths own: the checkpoint view it reads
  from and the numpy backing of the hot stack (\<open>_hot_backing\<close> and \<open>_hot_key\<close>). The materialized
  weights are \<open>s_full\<close> and \<open>s_hot\<close> of the layer, as the rows the forward gathers from.
\<close>

record player =
  p_cfg :: layer_cfg
  p_layer :: "bmap slayer"
  p_backing :: "hot_stack option"

definition unstack :: "nat \<Rightarrow> ebundle \<Rightarrow> bmap list" where
  "unstack n w = map (\<lambda>i key. map_option (\<lambda>t. stack_row t i) (map_of w key)) [0..<n]"

definition load_full_layer :: "player \<Rightarrow> unit res \<times> player" where
  "load_full_layer p =
     (if s_full (p_layer p) \<noteq> None then (Inr (), p)
      else case load_full (p_cfg p) of
             Inl e \<Rightarrow> (Inl e, p)
           | Inr w \<Rightarrow> (Inr (), p\<lparr>p_layer := (p_layer p)\<lparr>s_full := Some (unstack (lc_experts (p_cfg p)) w)\<rparr>\<rparr>))"

definition clear_full_layer :: "player \<Rightarrow> player" where
  "clear_full_layer p = p\<lparr>p_layer := (p_layer p)\<lparr>s_full := None\<rparr>\<rparr>"

definition load_hot_layer :: "nat \<Rightarrow> player \<Rightarrow> unit res \<times> player" where
  "load_hot_layer n_hot p =
     (let counts = l_counts (p_layer p) in
      if hot_keep (p_backing p) (hot_selection counts n_hot) n_hot then (Inr (), p)
      else case load_hot (p_cfg p) counts (p_backing p) n_hot of
             Inl e \<Rightarrow> (Inl e, p)
           | Inr b \<Rightarrow> (Inr (), p\<lparr>p_backing := b, p_layer := (p_layer p)\<lparr>s_hot := None\<rparr>\<rparr>))"

definition materialize_hot :: "player \<Rightarrow> unit res \<times> player" where
  "materialize_hot p =
     (case (s_hot (p_layer p), p_backing p) of
        (None, Some h) \<Rightarrow>
          (case materialize (p_cfg p) h of
             Inl e \<Rightarrow> (Inl e, p)
           | Inr w \<Rightarrow> (Inr (), p\<lparr>p_layer := (p_layer p)\<lparr>s_hot := Some (hk_key h, unstack (length (hk_key h) + 1) w)\<rparr>\<rparr>))
      | _ \<Rightarrow> (Inr (), p))"

definition dematerialize_hot :: "player \<Rightarrow> player" where
  "dematerialize_hot p = p\<lparr>p_layer := (p_layer p)\<lparr>s_hot := None\<rparr>\<rparr>"

definition clear_hot_layer :: "player \<Rightarrow> player" where
  "clear_hot_layer p = p\<lparr>p_layer := (p_layer p)\<lparr>s_hot := None\<rparr>, p_backing := None\<rparr>"

section \<open>The callbacks\<close>

text \<open>The dict of the streaming layers by index; \<open>on_layer\<close> is \<open>exp = d.get(li)\<close> with its \<open>None\<close> test.\<close>

type_synonym 'l layer_dict = "(nat \<times> 'l) list"

definition on_layer :: "('l \<Rightarrow> unit res \<times> 'l) \<Rightarrow> nat \<Rightarrow> 'l layer_dict \<Rightarrow> unit res \<times> 'l layer_dict" where
  "on_layer f li d =
     (case map_of d li of
        None \<Rightarrow> (Inr (), d)
      | Some p \<Rightarrow> (case f p of (r, p') \<Rightarrow> (r, AList.update li p' d)))"

fun on_layers :: "('l \<Rightarrow> unit res \<times> 'l) \<Rightarrow> nat list \<Rightarrow> 'l layer_dict \<Rightarrow> unit res \<times> 'l layer_dict" where
  "on_layers f [] d = (Inr (), d)"
| "on_layers f (li # lis) d =
     (case on_layer f li d of (Inl e, d) \<Rightarrow> (Inl e, d) | (Inr _, d) \<Rightarrow> on_layers f lis d)"

definition hot_window_layer :: "nat \<Rightarrow> player \<Rightarrow> unit res \<times> player" where
  "hot_window_layer hot_n p = (case load_hot_layer hot_n p of (Inl e, p) \<Rightarrow> (Inl e, p) | (Inr _, p) \<Rightarrow> materialize_hot p)"

definition ahead_of :: "nat \<Rightarrow> nat" where
  "ahead_of hot_window = max 1 (max 1 hot_window div 2)"

definition behind_of :: "nat \<Rightarrow> nat" where
  "behind_of hot_window = max 1 hot_window - ahead_of hot_window"

record hook_cfg =
  ho_full_layer :: bool
  ho_full_n :: nat
  ho_hot_n :: nat
  ho_window :: nat

definition hot_pass :: "hook_cfg \<Rightarrow> nat \<Rightarrow> player layer_dict \<Rightarrow> unit res \<times> player layer_dict" where
  "hot_pass c li d =
     (if ho_hot_n c = 0 then (Inr (), d)
      else case on_layers (hot_window_layer (ho_hot_n c)) [li..<min (li + ahead_of (ho_window c) + 1) (length d)] d of
             (Inl e, d) \<Rightarrow> (Inl e, d)
           | (Inr _, d) \<Rightarrow> on_layers (\<lambda>p. (Inr (), dematerialize_hot p)) [0..<li - behind_of (ho_window c)] d)"

definition before_layer :: "hook_cfg \<Rightarrow> nat \<Rightarrow> player layer_dict \<Rightarrow> unit res \<times> player layer_dict" where
  "before_layer c li d =
     (let d = (if li = 0 then d else snd (on_layer (\<lambda>p. (Inr (), clear_full_layer p)) (li - 1) d)) in
      if ho_full_n c \<noteq> 0 \<and> ho_full_n c \<le> li then (Inr (), d)
      else
        case hot_pass c li d of
          (Inl e, d) \<Rightarrow> (Inl e, d)
        | (Inr _, d) \<Rightarrow>
            if ho_hot_n c \<noteq> 0 \<and> ho_full_n c = 0 then (Inr (), d)
            else if \<not> ho_full_layer c then (Inr (), d)
            else on_layer load_full_layer li d)"

text \<open>\<open>make_intra_after_layer\<close> and \<open>make_history_prefetch\<close>: what they return when they are enabled.\<close>

definition after_layer ::
  "(nat \<Rightarrow> nat \<Rightarrow> 'b res) \<Rightarrow> (nat \<Rightarrow> timing \<times> timing) \<Rightarrow> nat \<Rightarrow> 'b slayer layer_dict \<Rightarrow> unit res \<times> 'b slayer layer_dict" where
  "after_layer bld tm li =
     on_layer (\<lambda>L. if l_last_used L = [] then (Inr (), L) else stage_experts (bld li) (tm li) (l_last_used L) L) li"

text \<open>
  Every prefetch is submitted to the pool; \<open>fst\<close> of \<open>prefetch\<close> is what the pool will later report. The
  range runs to the number of streaming layers, whatever their indices are.
\<close>

fun history_from ::
  "(nat \<Rightarrow> nat \<Rightarrow> 'b res) \<Rightarrow> nat list \<Rightarrow> 'b slayer layer_dict \<Rightarrow> (nat \<times> nat \<times> 'b res) list \<times> 'b slayer layer_dict" where
  "history_from bld [] d = ([], d)"
| "history_from bld (li # lis) d =
     (case map_of d li of
        None \<Rightarrow> history_from bld lis d
      | Some L \<Rightarrow>
          if l_last_used L = [] then history_from bld lis d
          else case prefetch (bld li) (l_last_used L) L of
                 (jobs, L) \<Rightarrow>
                   (case history_from bld lis (AList.update li L d) of
                      (rest, d) \<Rightarrow> (map (\<lambda>j. (li, j)) jobs @ rest, d)))"

definition history_prefetch ::
  "(nat \<Rightarrow> nat \<Rightarrow> 'b res) \<Rightarrow> 'b slayer layer_dict \<Rightarrow> (nat \<times> nat \<times> 'b res) list \<times> 'b slayer layer_dict" where
  "history_prefetch bld d = history_from bld [1..<length d] d"

section \<open>The bound on what is resident\<close>

definition hot_on :: "player layer_dict \<Rightarrow> nat \<Rightarrow> bool" where
  "hot_on d lj = (case map_of d lj of None \<Rightarrow> False | Some p \<Rightarrow> s_hot (p_layer p) \<noteq> None)"

definition full_on :: "player layer_dict \<Rightarrow> nat \<Rightarrow> bool" where
  "full_on d lj = (case map_of d lj of None \<Rightarrow> False | Some p \<Rightarrow> s_full (p_layer p) \<noteq> None)"

lemma on_layer_lookup:
  "map_of (snd (on_layer f li d)) lj =
     (if lj = li then map_option (\<lambda>p. snd (f p)) (map_of d li) else map_of d lj)"
  by (auto simp: on_layer_def update_conv' split: option.splits prod.splits)

lemma on_layer_length: "length (snd (on_layer f li d)) = length d"
proof -
  have "map fst (AList.update k v d) = map fst d" if "map_of d k \<noteq> None" for k v
    using that by (induction d) auto
  then have "length (AList.update k v d) = length d" if "map_of d k \<noteq> None" for k v
    using that map_eq_imp_length_eq by blast
  then show ?thesis by (auto simp: on_layer_def split: option.splits prod.splits)
qed

lemma on_layers_length: "length (snd (on_layers f lis d)) = length d"
proof (induction lis arbitrary: d)
  case (Cons li lis)
  have "length (snd (on_layer f li d)) = length d" by (rule on_layer_length)
  then show ?case using Cons by (auto split: prod.splits sum.splits)
qed simp

lemma on_layers_lookup:
  assumes "on_layers f lis d = (Inr (), d')" and "distinct lis"
  shows "map_of d' lj = (if lj \<in> set lis then map_option (\<lambda>p. snd (f p)) (map_of d lj) else map_of d lj)"
  using assms
proof (induction lis arbitrary: d)
  case (Cons li lis)
  obtain d1 where d1: "on_layer f li d = (Inr (), d1)" "on_layers f lis d1 = (Inr (), d')"
    using Cons.prems(1) by (auto split: prod.splits sum.splits)
  have "map_of d1 lk = (if lk = li then map_option (\<lambda>p. snd (f p)) (map_of d li) else map_of d lk)" for lk
    using on_layer_lookup [of f li d lk] d1(1) by simp
  then show ?case using Cons.IH [OF d1(2)] Cons.prems(2) by auto
qed simp

lemma on_layers_total: "(\<And>p. isl (fst (f p)) = False) \<Longrightarrow> fst (on_layers f lis d) = Inr ()"
proof (induction lis arbitrary: d)
  case (Cons li lis)
  have "\<not> isl (fst (on_layer f li d))"
    using Cons.prems by (auto simp: on_layer_def split: option.splits prod.splits) (metis fst_conv)
  then show ?case using Cons by (auto split: prod.splits sum.splits)
qed simp

lemma layer_ops_residency [simp]:
  "s_full (p_layer (clear_full_layer p)) = None" "s_hot (p_layer (clear_full_layer p)) = s_hot (p_layer p)"
  "s_hot (p_layer (snd (load_full_layer p))) = s_hot (p_layer p)"
  "s_full (p_layer (dematerialize_hot p)) = s_full (p_layer p)" "s_hot (p_layer (dematerialize_hot p)) = None"
  "s_full (p_layer (snd (load_hot_layer n p))) = s_full (p_layer p)"
  "s_full (p_layer (snd (materialize_hot p))) = s_full (p_layer p)"
  by (auto simp: clear_full_layer_def load_full_layer_def dematerialize_hot_def load_hot_layer_def materialize_hot_def Let_def
      split: sum.splits option.splits)

lemma hot_window_full [simp]: "s_full (p_layer (snd (hot_window_layer n p))) = s_full (p_layer p)"
proof -
  obtain r p1 where r: "load_hot_layer n p = (r, p1)" by (cases "load_hot_layer n p")
  then have "s_full (p_layer p1) = s_full (p_layer p)" using layer_ops_residency(6) [of n p] by simp
  then show ?thesis using r by (auto simp: hot_window_layer_def split: sum.splits)
qed

text \<open>What one call of the hook does to the residency of every layer.\<close>

definition window :: "hook_cfg \<Rightarrow> nat \<Rightarrow> nat set" where
  "window c li =
     (let top = (if ho_full_n c = 0 then li else min li (ho_full_n c - 1))
      in {top - behind_of (ho_window c)..top + ahead_of (ho_window c)})"

lemma before_layer_effect:
  assumes "before_layer c li d = (Inr (), d')"
  defines "ahead \<equiv> ahead_of (ho_window c)" and "back \<equiv> behind_of (ho_window c)"
    and "skip \<equiv> ho_full_n c \<noteq> 0 \<and> ho_full_n c \<le> li"
  shows "hot_on d' lj \<Longrightarrow> hot_on d lj \<or> (\<not> skip \<and> ho_hot_n c \<noteq> 0 \<and> lj \<in> {li..li + ahead})"
    and "hot_on d' lj \<Longrightarrow> \<not> skip \<Longrightarrow> ho_hot_n c \<noteq> 0 \<Longrightarrow> li \<le> lj + back"
    and "full_on d' lj \<Longrightarrow> lj = li \<or> (full_on d lj \<and> Suc lj \<noteq> li)"
proof -
  define d0 where "d0 = (if li = 0 then d else snd (on_layer (\<lambda>p. (Inr (), clear_full_layer p)) (li - 1) d))"
  have d0: "hot_on d0 lk = hot_on d lk" "full_on d0 lk = (full_on d lk \<and> Suc lk \<noteq> li)" for lk
    by (auto simp: d0_def hot_on_def full_on_def on_layer_lookup split: option.splits if_splits)
  have "hot_on d' lk \<longrightarrow> hot_on d lk \<or> (\<not> skip \<and> ho_hot_n c \<noteq> 0 \<and> lk \<in> {li..li + ahead})"
    and "hot_on d' lk \<longrightarrow> \<not> skip \<longrightarrow> ho_hot_n c \<noteq> 0 \<longrightarrow> li \<le> lk + back"
    and "full_on d' lk \<longrightarrow> lk = li \<or> full_on d0 lk" for lk
  proof -
    consider (skip) "skip" "d' = d0"
      | (load) d3 where "\<not> skip" "d' = d3 \<or> d' = snd (on_layer load_full_layer li d3)"
          "ho_hot_n c = 0 \<and> d3 = d0 \<or> (\<exists>d1. ho_hot_n c \<noteq> 0 \<and>
             on_layers (hot_window_layer (ho_hot_n c)) [li..<min (li + ahead + 1) (length d0)] d0 = (Inr (), d1) \<and>
             on_layers (\<lambda>p. (Inr (), dematerialize_hot p)) [0..<li - back] d1 = (Inr (), d3))"
      using assms(1) unfolding before_layer_def hot_pass_def d0_def [symmetric] Let_def ahead_def back_def skip_def
      by (auto split: if_splits prod.splits sum.splits) (metis snd_conv)+
    then have "(hot_on d' lk \<longrightarrow> hot_on d lk \<or> (\<not> skip \<and> ho_hot_n c \<noteq> 0 \<and> lk \<in> {li..li + ahead})) \<and>
      (hot_on d' lk \<longrightarrow> \<not> skip \<longrightarrow> ho_hot_n c \<noteq> 0 \<longrightarrow> li \<le> lk + back) \<and>
      (full_on d' lk \<longrightarrow> lk = li \<or> full_on d0 lk)"
    proof cases
      case load
      have l: "hot_on d' lk = hot_on d3 lk" "full_on d' lk \<longrightarrow> lk = li \<or> full_on d3 lk"
        using load(2) by (auto simp: hot_on_def full_on_def on_layer_lookup split: option.splits if_splits)
      from load(3) show ?thesis
      proof
        assume "ho_hot_n c = 0 \<and> d3 = d0"
        then show ?thesis using l d0 by auto
      next
        assume "\<exists>d1. ho_hot_n c \<noteq> 0 \<and>
             on_layers (hot_window_layer (ho_hot_n c)) [li..<min (li + ahead + 1) (length d0)] d0 = (Inr (), d1) \<and>
             on_layers (\<lambda>p. (Inr (), dematerialize_hot p)) [0..<li - back] d1 = (Inr (), d3)"
        then obtain d1 where h: "ho_hot_n c \<noteq> 0"
          and a: "on_layers (hot_window_layer (ho_hot_n c)) [li..<min (li + ahead + 1) (length d0)] d0 = (Inr (), d1)"
          and b: "on_layers (\<lambda>p. (Inr (), dematerialize_hot p)) [0..<li - back] d1 = (Inr (), d3)" by blast
        have "hot_on d3 lk = (hot_on d1 lk \<and> li \<le> lk + back)" "full_on d3 lk = full_on d1 lk"
          using on_layers_lookup [OF b, of lk] by (auto simp: hot_on_def full_on_def split: option.splits)
        moreover have "hot_on d1 lk \<longrightarrow> hot_on d0 lk \<or> lk \<in> {li..li + ahead}" "full_on d1 lk = full_on d0 lk"
          using on_layers_lookup [OF a, of lk] by (auto simp: hot_on_def full_on_def split: option.splits if_splits)
        ultimately show ?thesis using l d0 h load(1) by auto
      qed
    qed (use d0 in auto)
    then show "hot_on d' lk \<longrightarrow> hot_on d lk \<or> (\<not> skip \<and> ho_hot_n c \<noteq> 0 \<and> lk \<in> {li..li + ahead})"
      and "hot_on d' lk \<longrightarrow> \<not> skip \<longrightarrow> ho_hot_n c \<noteq> 0 \<longrightarrow> li \<le> lk + back"
      and "full_on d' lk \<longrightarrow> lk = li \<or> full_on d0 lk" by blast+
  qed
  then show "hot_on d' lj \<Longrightarrow> hot_on d lj \<or> (\<not> skip \<and> ho_hot_n c \<noteq> 0 \<and> lj \<in> {li..li + ahead})"
    and "hot_on d' lj \<Longrightarrow> \<not> skip \<Longrightarrow> ho_hot_n c \<noteq> 0 \<Longrightarrow> li \<le> lj + back"
    and "full_on d' lj \<Longrightarrow> lj = li \<or> (full_on d lj \<and> Suc lj \<noteq> li)"
    using d0(2) by blast+
qed

text \<open>
  The life of the residency: sweeps over the model's \<open>n\<close> layers, one per prefill chunk and one after
  another, with anything between two calls that adds no resident layer (the layers' own computation,
  \<open>clear_full_layer\<close> at the end of a prefill, the reset between requests). The state is the layer the
  hook was last called for.
\<close>

inductive prefill_run :: "hook_cfg \<Rightarrow> nat \<Rightarrow> nat \<Rightarrow> player layer_dict \<Rightarrow> bool" for c n where
  run_start: "(\<And>lj. \<not> hot_on d lj \<and> \<not> full_on d lj) \<Longrightarrow> prefill_run c n (n - 1) d"
| run_layer: "prefill_run c n li d \<Longrightarrow> before_layer c (if Suc li < n then Suc li else 0) d = (Inr (), d') \<Longrightarrow>
    prefill_run c n (if Suc li < n then Suc li else 0) d'"
| run_other: "prefill_run c n li d \<Longrightarrow> (\<And>lj. (hot_on d' lj \<longrightarrow> hot_on d lj) \<and> (full_on d' lj \<longrightarrow> full_on d lj)) \<Longrightarrow>
    prefill_run c n li d'"

lemma window_step: "li \<le> lj + behind_of (ho_window c) \<Longrightarrow> lj \<le> li + ahead_of (ho_window c) \<Longrightarrow>
    \<not> (ho_full_n c \<noteq> 0 \<and> ho_full_n c \<le> li) \<Longrightarrow> lj \<in> window c li"
  by (auto simp: window_def Let_def)

lemma prefill_run_resident:
  assumes "prefill_run c n li d"
  shows "li \<le> n - 1" and "hot_on d lj \<Longrightarrow> lj \<in> window c li \<union> window c (n - 1)"
    and "full_on d lj \<Longrightarrow> lj = li \<or> lj = n - 1"
proof -
  have "li \<le> n - 1 \<and> (\<forall>lj. (hot_on d lj \<longrightarrow> lj \<in> window c li \<union> window c (n - 1)) \<and>
      (full_on d lj \<longrightarrow> lj = li \<or> lj = n - 1)) \<and> (ho_hot_n c = 0 \<longrightarrow> (\<forall>lj. \<not> hot_on d lj))"
    using assms
  proof induction
    case (run_layer li d d')
    let ?next = "if Suc li < n then Suc li else 0"
    note eff = before_layer_effect [OF run_layer.hyps(2)]
    have hot: "lj \<in> window c ?next \<union> window c (n - 1)" if h: "hot_on d' lj" for lj
    proof (cases "ho_hot_n c = 0 \<or> (ho_full_n c \<noteq> 0 \<and> ho_full_n c \<le> ?next)")
      case True
      then have old: "hot_on d lj" using eff(1) [OF h] by auto
      then have "ho_hot_n c \<noteq> 0" using run_layer.IH by auto
      then have "window c li = window c ?next \<or> window c li = window c (n - 1)"
        using True run_layer.IH by (auto simp: window_def Let_def min_def split: if_splits) 
      then show ?thesis using run_layer.IH old by blast
    next
      case False
      then have low: "?next \<le> lj + behind_of (ho_window c)" using eff(2) [OF h] by blast
      from eff(1) [OF h] show ?thesis
      proof
        assume "hot_on d lj"
        then have old: "lj \<in> window c li \<union> window c (n - 1)" using run_layer.IH by blast
        show ?thesis
        proof (cases "Suc li < n")
          case True
          have "lj \<le> li + ahead_of (ho_window c)" if "lj \<in> window c li"
            using that False True by (auto simp: window_def Let_def split: if_splits)
          then have "lj \<in> window c ?next" if "lj \<in> window c li"
            using that low True False by (intro window_step) auto
          then show ?thesis using old by blast
        next
          case last: False
          moreover have "li \<le> n - 1" using run_layer.IH by simp
          ultimately have "li = n - 1" by linarith
          then show ?thesis using old by blast
        qed
      next
        assume "\<not> (ho_full_n c \<noteq> 0 \<and> ho_full_n c \<le> ?next) \<and> ho_hot_n c \<noteq> 0 \<and> lj \<in> {?next..?next + ahead_of (ho_window c)}"
        then show ?thesis using low by (intro UnI1 window_step) auto
      qed
    qed
    have full: "lj = ?next \<or> lj = n - 1" if "full_on d' lj" for lj
      using eff(3) [OF that] run_layer.IH by (auto split: if_splits)
    show ?case using hot full eff(1) run_layer.IH by (auto split: if_splits)
  qed auto
  then show "li \<le> n - 1" and "hot_on d lj \<Longrightarrow> lj \<in> window c li \<union> window c (n - 1)"
    and "full_on d lj \<Longrightarrow> lj = li \<or> lj = n - 1" by blast+
qed

lemma window_card: "finite (window c li)" "card (window c li) \<le> max 1 (ho_window c) + 1"
  by (auto simp: window_def Let_def ahead_of_def behind_of_def min_def max_def)

text \<open>
  C18: what a prefill keeps resident. At every point of any number of complete sweeps of the hook over
  the model, the layers with a materialized hot stack lie in the window around the current layer or in
  the window the previous sweep ended with, so there are at most twice the window's layers plus two of
  them; and whole-layer weights are held for no layer but the current one and the model's last one.
\<close>

theorem prefill_residency_bounded:
  assumes "prefill_run c n li d"
  shows "{lj. hot_on d lj} \<subseteq> window c li \<union> window c (n - 1) \<and>
    card {lj. hot_on d lj} \<le> 2 * (max 1 (ho_window c) + 1) \<and>
    {lj. full_on d lj} \<subseteq> {li, n - 1} \<and> card {lj. full_on d lj} \<le> 2"
proof (intro conjI)
  show sub: "{lj. hot_on d lj} \<subseteq> window c li \<union> window c (n - 1)"
    using prefill_run_resident(2) [OF assms] by blast
  have "card {lj. hot_on d lj} \<le> card (window c li \<union> window c (n - 1))"
    by (rule card_mono [OF _ sub]) (simp add: window_card)
  also have "\<dots> \<le> card (window c li) + card (window c (n - 1))" by (rule card_Un_le)
  also have "\<dots> \<le> (max 1 (ho_window c) + 1) + (max 1 (ho_window c) + 1)"
    by (rule add_mono [OF window_card(2) window_card(2)])
  finally show "card {lj. hot_on d lj} \<le> 2 * (max 1 (ho_window c) + 1)" by simp
  show two: "{lj. full_on d lj} \<subseteq> {li, n - 1}" using prefill_run_resident(3) [OF assms] by blast
  have "card {lj. full_on d lj} \<le> card {li, n - 1}" by (rule card_mono [OF _ two]) simp
  then show "card {lj. full_on d lj} \<le> 2" by (simp add: card_insert_if split: if_splits)
qed

section \<open>What the hook loads is the checkpoint\<close>

text \<open>
  A layer whose residency state agrees with its checkpoint: bundles, hot backing and resident rows are
  the checkpoint's, and the usage counts name experts of the layer.
\<close>

definition full_rows_of :: "layer_cfg \<Rightarrow> bmap list" where
  "full_rows_of cfg = map (checkpoint_bundle cfg) [0..<lc_experts cfg]"

definition hot_rows_of :: "layer_cfg \<Rightarrow> bmap \<Rightarrow> nat list \<Rightarrow> bmap list" where
  "hot_rows_of cfg z hot = map (checkpoint_bundle cfg) hot @ [z]"

definition player_ok :: "(nat \<times> nat \<Rightarrow> bmap) \<Rightarrow> player \<Rightarrow> bool" where
  "player_ok f p \<longleftrightarrow>
     (let cfg = p_cfg p; L = p_layer p in
      cfg_ok cfg \<and> stage_ok f L \<and> s_interval L \<noteq> 0 \<and> l_num L = lc_experts cfg \<and>
      (\<forall>e < lc_experts cfg. f (l_idx L, e) = checkpoint_bundle cfg e) \<and>
      (\<exists>z. zero_bundle cfg = Inr z \<and> s_zero L = map_of z) \<and>
      (\<forall>e \<in> fst ` set (l_counts L). e < lc_experts cfg) \<and>
      (\<forall>h. p_backing p = Some h \<longrightarrow> (\<exists>hs. (\<forall>e \<in> set hs. e < lc_experts cfg) \<and> h = hot_stack_of cfg hs)) \<and>
      (\<forall>rows. s_full L = Some rows \<longrightarrow> rows = full_rows_of cfg) \<and>
      (\<forall>members rows. s_hot L = Some (members, rows) \<longrightarrow>
         (\<forall>e \<in> set members. e < lc_experts cfg) \<and> rows = hot_rows_of cfg (s_zero L) members))"

lemma unstack_full:
  assumes "cfg_ok cfg"
  shows "\<exists>w. load_full cfg = Inr w \<and> unstack (lc_experts cfg) w = full_rows_of cfg"
proof -
  let ?t = "\<lambda>key. \<lparr>tdtype = part_dtype (snd key), tshape = lc_experts cfg # row_shape cfg key,
    tdata = concat (map (row_of cfg key) [0..<lc_experts cfg])\<rparr>"
  have row: "stack_row (?t key) i = expert_tensor cfg i key" if "key \<in> set (bundle_keys cfg)" "i < lc_experts cfg" for key i
  proof -
    let ?rows = "map (row_of cfg key) [0..<lc_experts cfg]"
    have "stack_row \<lparr>tdtype = part_dtype (snd key), tshape = length ?rows # row_shape cfg key, tdata = concat ?rows\<rparr> i =
        \<lparr>tdtype = part_dtype (snd key), tshape = row_shape cfg key, tdata = ?rows ! i\<rparr>"
      by (rule stack_row_concat [where m = "row_bytes cfg key"])
        (use bundle_rows_ok(2) [OF assms that(1)] that(2) in auto)
    then show ?thesis using that by (simp add: expert_tensor_def)
  qed
  have "map_option (\<lambda>t. stack_row t i) (map_of (map (\<lambda>key. (key, ?t key)) (bundle_keys cfg)) key) = checkpoint_bundle cfg i key"
    if "i < lc_experts cfg" for i key
    using row [OF _ that, of key]
    by (cases "key \<in> set (bundle_keys cfg)") (auto simp: checkpoint_bundle_def map_of_map_keys map_of_eq_None_iff)
  then have "unstack (lc_experts cfg) (map (\<lambda>key. (key, ?t key)) (bundle_keys cfg)) = full_rows_of cfg"
    by (auto simp: unstack_def full_rows_of_def)
  then show ?thesis using load_full_ok [OF assms] by blast
qed

lemma unstack_hot:
  assumes "cfg_ok cfg" and "\<forall>e \<in> set hot. e < lc_experts cfg" and "zero_bundle cfg = Inr z"
  shows "\<exists>w. materialize cfg (hot_stack_of cfg hot) = Inr w \<and>
    unstack (length hot + 1) w = hot_rows_of cfg (map_of z) hot"
proof -
  have hot: "\<And>e. e \<in> set hot \<Longrightarrow> e < lc_experts cfg" using assms(2) by blast
  let ?w = "map (\<lambda>key. (key, hot_tensor cfg hot key)) (bundle_keys cfg)"
  have z: "map_of z = map_of (map (\<lambda>k. (k, \<lparr>tdtype = part_dtype (snd k), tshape = row_shape cfg k,
      tdata = replicate (row_bytes cfg k) 0\<rparr>)) (bundle_keys cfg))"
    using zero_bundle_ok [OF assms(1)] assms(3) by simp
  have row: "(\<lambda>key. map_option (\<lambda>t. stack_row t i) (map_of ?w key)) = hot_rows_of cfg (map_of z) hot ! i"
    if i: "i < length hot + 1" for i
  proof
    fix key
    show "map_option (\<lambda>t. stack_row t i) (map_of ?w key) = (hot_rows_of cfg (map_of z) hot ! i) key"
    proof (cases "key \<in> set (bundle_keys cfg)")
      case True
      then show ?thesis using hot_tensor_row [where hot = hot and i = i, OF assms(1) hot True] i
        by (auto simp: hot_rows_of_def nth_append z map_of_map_keys checkpoint_bundle_def)
    next
      case False
      then have "map_of ?w key = None" "map_of z key = None" by (simp_all add: map_of_eq_None_iff z image_iff)
      then show ?thesis using False i by (auto simp: hot_rows_of_def nth_append checkpoint_bundle_def)
    qed
  qed
  have "unstack (length hot + 1) ?w = hot_rows_of cfg (map_of z) hot"
    by (rule nth_equalityI) (use row in \<open>simp_all add: unstack_def hot_rows_of_def del: upt_Suc\<close>)
  then show ?thesis using materialize_ok [OF assms(1) hot] by blast
qed

lemma stage_ok_residency [simp]:
  "stage_ok f (L\<lparr>s_full := r\<rparr>) = stage_ok f L" "stage_ok f (L\<lparr>s_hot := h\<rparr>) = stage_ok f L"
proof -
  have "layer_ok f (L\<lparr>s_hot := h\<rparr>) = layer_ok f L" "incr_ok f (L\<lparr>s_hot := h\<rparr>) = incr_ok f L"
    by (simp add: layer_ok_def) (cases "s_rows L"; simp add: incr_ok_def)
  then show "stage_ok f (L\<lparr>s_hot := h\<rparr>) = stage_ok f L"
    by (simp add: stage_ok_def fill_ok_def job_ok_def incr_active_def)
qed (rule stage_ok_full)

lemma player_okD:
  assumes "player_ok f p"
  shows "cfg_ok (p_cfg p)" and "\<exists>z. zero_bundle (p_cfg p) = Inr z \<and> s_zero (p_layer p) = map_of z"
    and "p_backing p \<noteq> None \<Longrightarrow> \<exists>hs. (\<forall>e \<in> set hs. e < lc_experts (p_cfg p)) \<and> p_backing p = Some (hot_stack_of (p_cfg p) hs)"
  using assms by (auto simp: player_ok_def Let_def)

lemma load_full_layer_ok:
  assumes "player_ok f p"
  shows "\<exists>p'. load_full_layer p = (Inr (), p') \<and> player_ok f p' \<and> s_full (p_layer p') \<noteq> None"
proof (cases "s_full (p_layer p)")
  case None
  obtain w where w: "load_full (p_cfg p) = Inr w" "unstack (lc_experts (p_cfg p)) w = full_rows_of (p_cfg p)"
    using unstack_full [OF player_okD(1) [OF assms]] by blast
  then show ?thesis using None assms by (auto simp: load_full_layer_def player_ok_def Let_def)
qed (use assms in \<open>auto simp: load_full_layer_def\<close>)

lemma load_hot_layer_ok:
  assumes p: "player_ok f p" and n: "0 < n" "n \<le> lc_experts (p_cfg p)"
  shows "\<exists>p'. load_hot_layer n p = (Inr (), p') \<and> player_ok f p' \<and> p_backing p' \<noteq> None"
proof (cases "hot_keep (p_backing p) (hot_selection (l_counts (p_layer p)) n) n")
  case True
  then show ?thesis using p by (auto simp: load_hot_layer_def hot_keep_def split: option.splits)
next
  case False
  define hot where "hot = hot_selection (l_counts (p_layer p)) n"
  have ne: "hot \<noteq> []"
  proof (cases "l_counts (p_layer p)")
    case (Cons kv cs)
    then have "0 < length (sort_key (\<lambda>kv. - snd kv) (l_counts (p_layer p)))" by simp
    then show ?thesis using n Cons by (cases n) (auto simp: hot_def hot_selection_def)
  qed (use n in \<open>simp add: hot_def hot_selection_def\<close>)
  have "set hot \<subseteq> fst ` set (l_counts (p_layer p))" if "l_counts (p_layer p) \<noteq> []"
    using that set_take_subset [of n "map fst (sort_key (\<lambda>kv. - snd kv) (l_counts (p_layer p)))"]
    by (simp add: hot_def hot_selection_def)
  then have lt: "\<And>e. e \<in> set hot \<Longrightarrow> e < lc_experts (p_cfg p)"
    using p n(2) by (cases "l_counts (p_layer p) = []") (auto simp: hot_def hot_selection_def player_ok_def Let_def)
  have "load_hot (p_cfg p) (l_counts (p_layer p)) (p_backing p) n = Inr (Some (hot_stack_of (p_cfg p) hot))"
    by (rule load_hot_ok [OF _ hot_def [symmetric] _ ne lt])
      (use p False in \<open>simp_all add: player_ok_def Let_def hot_def\<close>)
  moreover have "player_ok f (p\<lparr>p_backing := Some (hot_stack_of (p_cfg p) hot), p_layer := (p_layer p)\<lparr>s_hot := None\<rparr>\<rparr>)"
    using p lt by (auto simp: player_ok_def Let_def)
  ultimately show ?thesis using False by (simp add: load_hot_layer_def hot_def [symmetric])
qed

lemma materialize_hot_ok:
  assumes p: "player_ok f p" and b: "p_backing p \<noteq> None"
  shows "\<exists>p'. materialize_hot p = (Inr (), p') \<and> player_ok f p' \<and> s_hot (p_layer p') \<noteq> None"
proof (cases "s_hot (p_layer p)")
  case None
  obtain hs where hs: "p_backing p = Some (hot_stack_of (p_cfg p) hs)" "\<forall>e \<in> set hs. e < lc_experts (p_cfg p)"
    using player_okD(3) [OF p b] by blast
  obtain z where z: "zero_bundle (p_cfg p) = Inr z" "s_zero (p_layer p) = map_of z"
    using player_okD(2) [OF p] by blast
  obtain w where w: "materialize (p_cfg p) (hot_stack_of (p_cfg p) hs) = Inr w"
    "unstack (length hs + 1) w = hot_rows_of (p_cfg p) (map_of z) hs"
    using unstack_hot [OF player_okD(1) [OF p] hs(2) z(1)] by blast
  have "hk_key (hot_stack_of (p_cfg p) hs) = hs" by (simp add: hot_stack_of_def)
  then show ?thesis using None p hs z w by (auto simp: materialize_hot_def player_ok_def Let_def)
qed (use p in \<open>auto simp: materialize_hot_def split: option.splits\<close>)

lemma hot_window_layer_ok:
  assumes "player_ok f p" and "0 < n" and "n \<le> lc_experts (p_cfg p)"
  shows "\<exists>p'. hot_window_layer n p = (Inr (), p') \<and> player_ok f p' \<and> s_hot (p_layer p') \<noteq> None"
proof -
  obtain p1 where p1: "load_hot_layer n p = (Inr (), p1)" "player_ok f p1" "p_backing p1 \<noteq> None"
    using load_hot_layer_ok [OF assms] by blast
  then show ?thesis using materialize_hot_ok [OF p1(2,3)] by (simp add: hot_window_layer_def)
qed

lemma drop_ok: "player_ok f p \<Longrightarrow> player_ok f (clear_full_layer p)" "player_ok f p \<Longrightarrow> player_ok f (dematerialize_hot p)"
  by (auto simp: player_ok_def Let_def clear_full_layer_def dematerialize_hot_def)

text \<open>The dict version: what holds of every layer, with the size of the hot stack allowed for each.\<close>

definition players_ok :: "(nat \<times> nat \<Rightarrow> bmap) \<Rightarrow> hook_cfg \<Rightarrow> player layer_dict \<Rightarrow> bool" where
  "players_ok f c d \<longleftrightarrow> (\<forall>li p. map_of d li = Some p \<longrightarrow> player_ok f p \<and> ho_hot_n c \<le> lc_experts (p_cfg p))"

lemma ops_cfg [simp]:
  "p_cfg (snd (load_full_layer p)) = p_cfg p" "p_cfg (clear_full_layer p) = p_cfg p"
  "p_cfg (dematerialize_hot p) = p_cfg p" "p_cfg (snd (hot_window_layer n p)) = p_cfg p"
  by (auto simp: load_full_layer_def clear_full_layer_def dematerialize_hot_def hot_window_layer_def
      load_hot_layer_def materialize_hot_def Let_def split: sum.splits prod.splits option.splits if_splits)

lemma on_layer_players:
  assumes "players_ok f c d" and "\<And>p. player_ok f p \<Longrightarrow> ho_hot_n c \<le> lc_experts (p_cfg p) \<Longrightarrow>
      \<exists>p'. g p = (Inr (), p') \<and> player_ok f p' \<and> p_cfg p' = p_cfg p"
  shows "\<exists>d'. on_layer g li d = (Inr (), d') \<and> players_ok f c d'"
proof (cases "map_of d li")
  case (Some p)
  then obtain p' where "g p = (Inr (), p')" "player_ok f p'" "p_cfg p' = p_cfg p" "ho_hot_n c \<le> lc_experts (p_cfg p)"
    using assms by (auto simp: players_ok_def) metis
  then show ?thesis using assms(1) Some by (auto simp: on_layer_def players_ok_def update_conv')
qed (use assms(1) in \<open>simp add: on_layer_def\<close>)

lemma on_layers_players:
  assumes "players_ok f c d" and "\<And>p. player_ok f p \<Longrightarrow> ho_hot_n c \<le> lc_experts (p_cfg p) \<Longrightarrow>
      \<exists>p'. g p = (Inr (), p') \<and> player_ok f p' \<and> p_cfg p' = p_cfg p"
  shows "\<exists>d'. on_layers g lis d = (Inr (), d') \<and> players_ok f c d'"
  using assms(1)
proof (induction lis arbitrary: d)
  case (Cons li lis)
  obtain d1 where "on_layer g li d = (Inr (), d1)" "players_ok f c d1"
    using on_layer_players [where c = c and li = li, OF Cons.prems assms(2)] by blast
  then show ?case using Cons.IH by simp
qed simp

text \<open>Where the hook leaves rows for the layer it is called for.\<close>

definition hook_loads :: "hook_cfg \<Rightarrow> nat \<Rightarrow> nat \<Rightarrow> bool" where
  "hook_loads c n li \<longleftrightarrow> (ho_full_n c = 0 \<or> li < ho_full_n c) \<and>
     (if ho_hot_n c \<noteq> 0 \<and> ho_full_n c = 0 then li < n else ho_full_layer c)"

lemma before_layer_ok:
  assumes "players_ok f c d"
  shows "\<exists>d'. before_layer c li d = (Inr (), d') \<and> players_ok f c d' \<and>
    (hook_loads c (length d) li \<longrightarrow> (\<forall>p. map_of d li = Some p \<longrightarrow>
       (\<exists>p'. map_of d' li = Some p' \<and> p_cfg p' = p_cfg p \<and>
         (if ho_hot_n c \<noteq> 0 \<and> ho_full_n c = 0 then s_hot (p_layer p') \<noteq> None else s_full (p_layer p') \<noteq> None))))"
proof -
  define d0 where "d0 = (if li = 0 then d else snd (on_layer (\<lambda>p. (Inr (), clear_full_layer p)) (li - 1) d))"
  have g0: "players_ok f c d0"
    using on_layer_players [OF assms, of "\<lambda>p. (Inr (), clear_full_layer p)" "li - 1"] assms
    by (auto simp: d0_def drop_ok)
  have l0: "length d0 = length d" by (simp add: d0_def on_layer_length)
  have at0: "map_of d0 li = map_of d li" by (auto simp: d0_def on_layer_lookup)
  let ?ups = "[li..<min (li + ahead_of (ho_window c) + 1) (length d0)]"
  let ?downs = "[0..<li - behind_of (ho_window c)]"
  show ?thesis
  proof (cases "ho_full_n c \<noteq> 0 \<and> ho_full_n c \<le> li")
    case True
    then have "before_layer c li d = (Inr (), d0)" by (simp add: before_layer_def d0_def)
    then show ?thesis using g0 True by (auto simp: hook_loads_def)
  next
    case False
    have "\<exists>d3. hot_pass c li d0 = (Inr (), d3) \<and>
        players_ok f c d3 \<and> (\<forall>p. map_of d li = Some p \<longrightarrow> (\<exists>p'. map_of d3 li = Some p' \<and> p_cfg p' = p_cfg p \<and>
          (ho_hot_n c \<noteq> 0 \<and> li < length d \<longrightarrow> s_hot (p_layer p') \<noteq> None)))"
    proof (cases "ho_hot_n c = 0")
      case True
      then show ?thesis using g0 at0 by (auto simp: hot_pass_def)
    next
      case hot: False
      have w: "\<exists>p'. hot_window_layer (ho_hot_n c) p = (Inr (), p') \<and> player_ok f p' \<and> p_cfg p' = p_cfg p \<and> s_hot (p_layer p') \<noteq> None"
        if "player_ok f p" "ho_hot_n c \<le> lc_experts (p_cfg p)" for p
        using hot_window_layer_ok [OF that(1) _ that(2)] hot ops_cfg(4) [of "ho_hot_n c" p] by (metis gr0I snd_conv)
      obtain d1 where d1: "on_layers (hot_window_layer (ho_hot_n c)) ?ups d0 = (Inr (), d1)" "players_ok f c d1"
        using on_layers_players [OF g0, of "hot_window_layer (ho_hot_n c)"] w by blast
      obtain d2 where d2: "on_layers (\<lambda>p. (Inr (), dematerialize_hot p)) ?downs d1 = (Inr (), d2)" "players_ok f c d2"
        using on_layers_players [OF d1(2), of "\<lambda>p. (Inr (), dematerialize_hot p)"] by (auto simp: drop_ok)
      have "\<exists>p'. map_of d2 li = Some p' \<and> p_cfg p' = p_cfg p \<and> (li < length d \<longrightarrow> s_hot (p_layer p') \<noteq> None)"
        if p: "map_of d li = Some p" for p
      proof -
        have "player_ok f p" "ho_hot_n c \<le> lc_experts (p_cfg p)" using g0 at0 p by (auto simp: players_ok_def)
        then obtain p' where p': "hot_window_layer (ho_hot_n c) p = (Inr (), p')" "p_cfg p' = p_cfg p" "s_hot (p_layer p') \<noteq> None"
          using w by blast
        have "map_of d1 li = Some (if li < length d then p' else p)"
          using on_layers_lookup [OF d1(1), of li] at0 p p'(1) l0 by (auto simp: ahead_of_def)
        then show ?thesis using on_layers_lookup [OF d2(1), of li] p' by auto
      qed
      then show ?thesis using d1(1) d2 hot by (simp add: hot_pass_def)
    qed
    then obtain d3 where d3: "players_ok f c d3"
      and at3: "\<And>p. map_of d li = Some p \<Longrightarrow> \<exists>p'. map_of d3 li = Some p' \<and> p_cfg p' = p_cfg p \<and>
          (ho_hot_n c \<noteq> 0 \<and> li < length d \<longrightarrow> s_hot (p_layer p') \<noteq> None)"
      and run: "before_layer c li d = (if ho_hot_n c \<noteq> 0 \<and> ho_full_n c = 0 then (Inr (), d3)
          else if \<not> ho_full_layer c then (Inr (), d3) else on_layer load_full_layer li d3)"
      using False unfolding before_layer_def d0_def [symmetric] Let_def by auto
    show ?thesis
    proof (cases "(ho_hot_n c \<noteq> 0 \<and> ho_full_n c = 0) \<or> \<not> ho_full_layer c")
      case True
      then have "before_layer c li d = (Inr (), d3)" using run by auto
      then show ?thesis using d3 at3 True by (fastforce simp: hook_loads_def)
    next
      case full: False
      have lf: "\<exists>p'. load_full_layer p = (Inr (), p') \<and> player_ok f p' \<and> p_cfg p' = p_cfg p \<and> s_full (p_layer p') \<noteq> None"
        if "player_ok f p" for p
        using load_full_layer_ok [OF that] ops_cfg(1) [of p] by (metis snd_conv)
      obtain d4 where d4: "on_layer load_full_layer li d3 = (Inr (), d4)" "players_ok f c d4"
        using on_layer_players [OF d3, of load_full_layer] lf by blast
      have "\<exists>p'. map_of d4 li = Some p' \<and> p_cfg p' = p_cfg p \<and> s_full (p_layer p') \<noteq> None" if p: "map_of d li = Some p" for p
      proof -
        obtain p3 where p3: "map_of d3 li = Some p3" "p_cfg p3 = p_cfg p" using at3 [OF p] by blast
        then have "player_ok f p3" using d3 by (auto simp: players_ok_def)
        then show ?thesis using lf [of p3] p3 on_layer_lookup [of load_full_layer li d3 li] d4(1) by auto
      qed
      moreover have "before_layer c li d = (Inr (), d4)" using run full d4(1) by auto
      ultimately show ?thesis using d4(2) full by (intro exI [of _ d4]) auto
    qed
  qed
qed

lemma player_builds:
  assumes "player_ok f p"
  shows "builds_all f (p_layer p) (layer_build (p_cfg p) (p_backing p))"
proof -
  obtain hot where "p_backing p = hot_of (p_cfg p) hot" "\<forall>hs. hot = Some hs \<longrightarrow> (\<forall>e \<in> set hs. e < lc_experts (p_cfg p))"
  proof (cases "p_backing p")
    case None
    then show ?thesis by (intro that [of None]) (simp_all add: hot_of_def)
  next
    case (Some h)
    then show ?thesis using player_okD(3) [OF assms] by (auto simp: hot_of_def intro: that [of "Some hs" for hs])
  qed
  then show ?thesis using layer_build_checkpoint [OF player_okD(1) [OF assms]] assms
    by (auto simp: builds_all_def player_ok_def Let_def)
qed

lemma player_zero:
  assumes "player_ok f p" and "player_ok f p'" and "p_cfg p' = p_cfg p"
  shows "s_zero (p_layer p') = s_zero (p_layer p)"
  using player_okD(2) [OF assms(1)] player_okD(2) [OF assms(2)] assms(3) by auto

text \<open>
  C4: prefill is exact from the checkpoint's bytes. Over any layers whose state agrees with their
  checkpoints, the before-layer hook returns without an error and keeps that agreement, and wherever it
  loads a layer (whole, or through the hot window), the next prefill call of that layer returns for
  every token exactly what the routed experts of the checkpoint compute.
\<close>

theorem prefill_hook_exact:
  assumes "kernels_ok K" and "players_ok f c d" and "map_of d li = Some p" and "hook_loads c (length d) li"
    and "zero_spec K (s_zero (p_layer p))" and "pins_ok (lc_experts (p_cfg p)) pins"
    and "length xs = length inds" and "length (concat inds) > 8" and "\<forall>e \<in> set (concat inds). e < lc_experts (p_cfg p)"
  shows "\<exists>d' p' L'. before_layer c li d = (Inr (), d') \<and> players_ok f c d' \<and> map_of d' li = Some p' \<and>
    forward K fused (layer_build (p_cfg p) (p_backing p')) pins t xs (Some inds) (p_layer p') =
      Some (Inr (moe_reference K fused (checkpoint_bundle (p_cfg p)) xs inds), L')"
proof -
  obtain d' p' where d': "before_layer c li d = (Inr (), d')" "players_ok f c d'" "map_of d' li = Some p'"
    and p': "p_cfg p' = p_cfg p" "s_full (p_layer p') \<noteq> None \<or> s_hot (p_layer p') \<noteq> None"
    using before_layer_ok [OF assms(2), of li] assms(3,4) by (auto split: if_splits)
  let ?L = "p_layer p'" and ?g = "\<lambda>e. f (l_idx (p_layer p'), e)"
  have ok: "player_ok f p'" "player_ok f p" using d'(2,3) assms(2,3) by (auto simp: players_ok_def)
  have g: "\<forall>e < lc_experts (p_cfg p). ?g e = checkpoint_bundle (p_cfg p) e" "l_num ?L = lc_experts (p_cfg p)"
    "stage_ok f ?L" "s_interval ?L \<noteq> 0" using ok(1) p'(1) by (auto simp: player_ok_def Let_def)
  have rows: "s_full ?L = Some (map ?g [0..<l_num ?L]) \<or>
      (s_full ?L = None \<and> s_hot ?L = Some (members, map ?g members @ [s_zero ?L]) \<and> zero_spec K (s_zero ?L))"
    if "s_hot ?L = None \<or> (\<exists>rows. s_hot ?L = Some (members, rows))" for members
  proof -
    have same: "map ?g ms = map (checkpoint_bundle (p_cfg p)) ms" if "\<forall>e \<in> set ms. e < lc_experts (p_cfg p)" for ms
      using that g(1) by simp
    have "map ?g [0..<l_num ?L] = full_rows_of (p_cfg p)" using g(1,2) by (simp add: full_rows_of_def)
    moreover have "s_full ?L = None \<or> s_full ?L = Some (full_rows_of (p_cfg p))"
      using ok(1) p'(1) by (cases "s_full ?L") (auto simp: player_ok_def Let_def)
    moreover have "s_hot ?L = Some (members, map ?g members @ [s_zero ?L])" if h: "s_hot ?L = Some (members, rows)" for rows
      using ok(1) p'(1) h same [of members] by (simp add: player_ok_def Let_def hot_rows_of_def)
    ultimately show ?thesis using p'(2) that assms(5) player_zero [OF ok(2,1) p'(1)] by auto
  qed
  obtain members where m: "s_hot ?L = None \<or> (\<exists>rows. s_hot ?L = Some (members, rows))" by (cases "s_hot ?L") auto
  have "\<exists>L'. forward K fused (layer_build (p_cfg p') (p_backing p')) pins t xs (Some inds) ?L =
      Some (Inr (moe_reference K fused ?g xs inds), L') \<and> stage_ok f L'"
    by (rule forward_prefill [OF assms(1) g(3) player_builds [OF ok(1)] _ g(4) assms(7,8) _ rows [OF m]])
      (use assms(6,9) g(2) in auto)
  moreover have "moe_reference K fused ?g xs inds = moe_reference K fused (checkpoint_bundle (p_cfg p)) xs inds"
    unfolding moe_reference_def by (rule map2_cong_right) (use g(1) assms(9) in auto)
  ultimately show ?thesis using d' p'(1) by metis
qed

section \<open>A concrete prefill\<close>

definition weigh_kernels :: "int kernels" where
  "weigh_kernels = sorting_kernels (\<lambda>x w. case fst w of None \<Rightarrow> 0 | Some t \<Rightarrow> x * int (sum_list (map unat (tdata t))))
     (*) (\<lambda>x. (x, x)) (+) 0"

definition demo_player :: player where
  "demo_player = \<lparr>p_cfg = demo_cfg,
     p_layer = slayer_new (case zero_bundle demo_cfg of Inr z \<Rightarrow> map_of z) default_options
       (layer_new 0 2 default_options None None), p_backing = None\<rparr>"

definition demo_hook :: "nat \<Rightarrow> hook_cfg" where
  "demo_hook hot_n = \<lparr>ho_full_layer = True, ho_full_n = 0, ho_hot_n = hot_n, ho_window = 1\<rparr>"

lemma demo_player_fields:
  "p_cfg demo_player = demo_cfg" "p_backing demo_player = None" "l_num (p_layer demo_player) = 2"
  "l_idx (p_layer demo_player) = 0" "l_counts (p_layer demo_player) = []" "s_full (p_layer demo_player) = None"
  "s_hot (p_layer demo_player) = None" "s_interval (p_layer demo_player) = 4"
  "s_zero (p_layer demo_player) = (case zero_bundle demo_cfg of Inr z \<Rightarrow> map_of z)"
  by (simp_all add: demo_player_def slayer_new_def Let_def layer.defs layer_new_def default_options_def)

lemma demo_player_ok: "player_ok (\<lambda>(i, e). checkpoint_bundle demo_cfg e) demo_player"
proof -
  have "stage_ok (\<lambda>(i, e). checkpoint_bundle demo_cfg e) (p_layer demo_player)"
    unfolding demo_player_def player.select_convs by (rule stage_ok_new, rule layer_ok_new) simp_all
  then show ?thesis
    using demo_cfg_ok zero_bundle_ok [OF demo_cfg_ok] by (simp add: player_ok_def demo_player_fields demo_fields(1))
qed

lemma demo_players_ok: "n \<le> 2 \<Longrightarrow> players_ok (\<lambda>(i, e). checkpoint_bundle demo_cfg e) (demo_hook n) [(0, demo_player)]"
  using demo_player_ok by (simp add: players_ok_def demo_hook_def demo_player_fields demo_fields(1))

lemma weigh_kernels_ok: "kernels_ok weigh_kernels" "zero_spec weigh_kernels (s_zero (p_layer demo_player))"
proof -
  show "kernels_ok weigh_kernels" unfolding weigh_kernels_def by (rule sorting_kernels_ok)
  have "tdata t = replicate (length (tdata t)) 0" if "s_zero (p_layer demo_player) key = Some t" for key t
    using that zero_bundle_ok [OF demo_cfg_ok] by (auto simp: demo_player_fields dest!: map_of_SomeD)
  then have "sum_list (map unat (tdata t)) = 0" if "s_zero (p_layer demo_player) key = Some t" for key t
    using that by (metis map_replicate sum_list_replicate unsigned_0 mult_0_right)
  then show "zero_spec weigh_kernels (s_zero (p_layer demo_player))"
    by (auto simp: zero_spec_def weigh_kernels_def sorting_kernels_def wtri_def split: option.splits)
qed

theorem prefill_hook_exact_witness:
  "\<exists>d' p' L'. before_layer (demo_hook 1) 0 [(0, demo_player)] = (Inr (), d') \<and> map_of d' 0 = Some p' \<and>
    forward weigh_kernels True (layer_build demo_cfg (p_backing p')) ([], id) Late [1, 2, 3, 4, 5]
      (Some [[0, 1], [1, 0], [0, 1], [1, 0], [0, 1]]) (p_layer p') =
    Some (Inr (moe_reference weigh_kernels True (checkpoint_bundle demo_cfg) [1, 2, 3, 4, 5]
      [[0, 1], [1, 0], [0, 1], [1, 0], [0, 1]]), L')"
  using prefill_hook_exact [OF weigh_kernels_ok(1) demo_players_ok [of 1], of 0 demo_player "([], id)" "[1, 2, 3, 4, 5]"
      "[[0, 1], [1, 0], [0, 1], [1, 0], [0, 1]]" True Late] weigh_kernels_ok(2)
  by (auto simp: hook_loads_def demo_hook_def demo_player_fields demo_fields(1) pins_ok_def)

theorem prefill_residency_bounded_witness:
  "\<exists>d. prefill_run (demo_hook 2) 1 0 d \<and> hot_on d 0 \<and> card {lj. hot_on d lj} \<le> 4 \<and> {lj. full_on d lj} \<subseteq> {0}"
proof -
  obtain d where d: "before_layer (demo_hook 2) 0 [(0, demo_player)] = (Inr (), d)"
    "\<exists>p'. map_of d 0 = Some p' \<and> s_hot (p_layer p') \<noteq> None"
    using before_layer_ok [OF demo_players_ok [of 2], of 0] by (auto simp: hook_loads_def demo_hook_def)
  have "prefill_run (demo_hook 2) 1 (1 - 1) [(0, demo_player)]"
    by (rule run_start) (simp add: hot_on_def full_on_def demo_player_fields)
  then have run: "prefill_run (demo_hook 2) 1 0 d"
    using run_layer [of "demo_hook 2" 1 0 "[(0, demo_player)]" d] d(1) by simp
  have "hot_on d 0" using d(2) by (auto simp: hot_on_def)
  then show ?thesis using run prefill_residency_bounded [OF run] by (auto simp: demo_hook_def)
qed

end
