(* ===== verification/Heads.thy ===== *)
theory Heads
  imports Routing
begin

text \<open>
  The trained prerouter heads (\<open>prerouter/heads.py\<close>, \<open>PrerouterStager._stacked_weights\<close> and
  \<open>_logits\<close> of \<open>prerouter/stager.py\<close>) and the one-hot features they read. The arithmetic is that of a
  field: rounding is not modelled, \<open>core.erf\<close>, the float \<open>math.sqrt(2.0)\<close> and \<open>astype\<close> are parameters.
  A vector of shape \<open>[1, 1, n]\<close> is the list of its \<open>n\<close> entries.
\<close>

record 'a hkernels =
  hk_erf :: "'a \<Rightarrow> 'a"
  hk_sqrt2 :: 'a
  hk_cast :: "'a \<Rightarrow> 'a"

text \<open>\<open>gelu_erf\<close>\<close>

definition gelu_erf :: "'a::field hkernels \<Rightarrow> 'a \<Rightarrow> 'a" where
  "gelu_erf K x = 1 / 2 * x * (1 + hk_erf K (x / hk_sqrt2 K))"

text \<open>
  \<open>topk_onehot\<close>: rows of the identity, added up; an index out of range of \<open>core.take\<close> has no row here.
  \<open>_topk_onehot_pos\<close> reads one position of a \<open>[1, T, K]\<close> selection and returns \<open>None\<close> when there is
  no selection or no such position.
\<close>

definition one_hot :: "nat \<Rightarrow> nat \<Rightarrow> 'a::{zero, one} list" where
  "one_hot num e = (replicate num 0)[e := 1]"

definition vec_sum :: "nat \<Rightarrow> 'a::comm_monoid_add list list \<Rightarrow> 'a list" where
  "vec_sum num rows = foldr (map2 (+)) rows (replicate num 0)"

definition topk_onehot :: "nat list \<Rightarrow> nat \<Rightarrow> 'a::comm_semiring_1 list" where
  "topk_onehot inds num = vec_sum num (map (one_hot num) inds)"

definition topk_onehot_pos :: "nat list list option \<Rightarrow> nat \<Rightarrow> int \<Rightarrow> 'a::comm_semiring_1 list option" where
  "topk_onehot_pos idx num pos =
     (case idx of
        None \<Rightarrow> None
      | Some rows \<Rightarrow>
          let lo = (if pos \<ge> 0 then pos else int (length rows) + pos)
          in if lo < 0 \<or> lo \<ge> int (length rows) then None
             else Some (map (\<lambda>e. of_nat (length (filter ((=) e) (rows ! nat lo)))) [0..<num]))"

section \<open>One head\<close>

record 'a head =
  hd_fc1 :: "'a list list"
  hd_fc2 :: "'a list list"
  hd_linear_init :: "'a list list"

definition dot :: "'a::comm_semiring_0 list \<Rightarrow> 'a list \<Rightarrow> 'a" where
  "dot xs ys = sum_list (map2 (*) xs ys)"

text \<open>\<open>nn.Linear\<close> without bias: \<open>x @ weight.T\<close>, with the weight stored as \<open>[out, in]\<close>.\<close>

definition linear :: "'a::comm_semiring_0 list list \<Rightarrow> 'a list \<Rightarrow> 'a list res" where
  "linear W x = (if \<forall>r \<in> set W. length r = length x then Inr (map (\<lambda>r. dot x r) W) else Inl ValueError)"

definition vec_add :: "'a::plus list \<Rightarrow> 'a list \<Rightarrow> 'a list res" where
  "vec_add xs ys = (if length xs = length ys then Inr (map2 (+) xs ys) else Inl ValueError)"

text \<open>\<open>PrerouterHead.__call__\<close>; \<open>BailingPrerouter.__call__\<close> is the same on its three features.\<close>

definition head_call :: "'a::field hkernels \<Rightarrow> 'a head \<Rightarrow> 'a list \<times> 'a list \<times> 'a list \<Rightarrow> 'a list res" where
  "head_call K H f =
     (case f of (h, executed_oh, prev_oh) \<Rightarrow>
       (let feats = map (hk_cast K) (h @ executed_oh @ prev_oh) in
        res_bind (linear (hd_linear_init H) feats) (\<lambda>li.
        res_bind (linear (hd_fc1 H) feats) (\<lambda>h1.
        res_bind (linear (hd_fc2 H) (map (gelu_erf K) h1)) (\<lambda>o2.
          vec_add li o2)))))"

section \<open>All heads in one batch\<close>

text \<open>
  \<open>t\<close> of \<open>_stacked_weights\<close>: \<open>stack\<close> needs one shape, then the last two axes are exchanged. The
  shape of a matrix is taken from its first row.
\<close>

definition shape2 :: "'a list list \<Rightarrow> nat \<times> nat" where
  "shape2 W = (length W, case W of [] \<Rightarrow> 0 | r # _ \<Rightarrow> length r)"

definition transpose_to :: "nat \<Rightarrow> 'a list list \<Rightarrow> 'a list list" where
  "transpose_to n W = map (\<lambda>i. map (\<lambda>r. r ! i) W) [0..<n]"

definition stack_t :: "'a list list list \<Rightarrow> 'a list list list option" where
  "stack_t Ws =
     (case Ws of
        [] \<Rightarrow> None
      | W # _ \<Rightarrow> if \<forall>V \<in> set Ws. shape2 V = shape2 W then Some (map (transpose_to (snd (shape2 W))) Ws) else None)"

type_synonym 'a stacked = "'a list list list \<times> 'a list list list \<times> 'a list list list"

definition stack_heads :: "'a head list \<Rightarrow> 'a stacked option" where
  "stack_heads hs =
     (case (stack_t (map hd_fc1 hs), stack_t (map hd_fc2 hs), stack_t (map hd_linear_init hs)) of
        (Some w1, Some w2, Some wl) \<Rightarrow> Some (w1, w2, wl)
      | _ \<Rightarrow> None)"

text \<open>\<open>einsum("ni,nij->nj")\<close> on one row \<open>n\<close>: \<open>sum_i x_i * w_i_j\<close>.\<close>

definition einsum_row :: "'a::comm_semiring_0 list \<Rightarrow> 'a list list \<Rightarrow> 'a list res" where
  "einsum_row x w =
     (if length x = length w
      then Inr (map (\<lambda>j. sum_list (map2 (\<lambda>a r. a * r ! j) x w)) [0..<snd (shape2 w)]) else Inl ValueError)"

definition batch_row :: "'a::field hkernels \<Rightarrow> 'a list \<Rightarrow> 'a list list \<times> 'a list list \<times> 'a list list \<Rightarrow> 'a list res" where
  "batch_row K f2 w =
     (case w of (w1, w2, wl) \<Rightarrow>
        res_bind (einsum_row f2 w1) (\<lambda>h1.
        res_bind (einsum_row f2 wl) (\<lambda>li.
        res_bind (einsum_row (map (gelu_erf K) h1) w2) (\<lambda>o2.
          vec_add li o2))))"

definition same_lengths :: "'a list list \<Rightarrow> bool" where
  "same_lengths xs \<longleftrightarrow> (\<forall>x \<in> set xs. length x = length (hd xs))"

text \<open>
  \<open>_logits\<close>: with stacked weights the features are cast as one array and every row goes through its own
  matrices; without them each owner's head is called. Stacking the features needs one shape for each of the three.
\<close>

definition batch_logits ::
  "'a::field hkernels \<Rightarrow> 'a stacked \<Rightarrow> ('a list \<times> 'a list \<times> 'a list) list \<Rightarrow> 'a list list res" where
  "batch_logits K w feats =
     (case w of (w1, w2, wl) \<Rightarrow>
        if \<not> (same_lengths (map fst feats) \<and> same_lengths (map (fst \<circ> snd) feats) \<and> same_lengths (map (snd \<circ> snd) feats))
        then Inl ValueError
        else res_map (\<lambda>(f, v). batch_row K (map (hk_cast K) (case f of (m, co, po) \<Rightarrow> m @ co @ po)) v)
               (zip feats (zip w1 (zip w2 wl))))"

definition loop_logits ::
  "'a::field hkernels \<Rightarrow> 'a head res list \<Rightarrow> ('a list \<times> 'a list \<times> 'a list) list \<Rightarrow> 'a list list res" where
  "loop_logits K heads feats = res_map (\<lambda>(H, f). res_bind H (\<lambda>H. head_call K H f)) (zip heads feats)"

definition head_logits ::
  "'a::field hkernels \<Rightarrow> 'a stacked option \<Rightarrow> 'a head res list \<Rightarrow> ('a list \<times> 'a list \<times> 'a list) list \<Rightarrow> 'a list list res" where
  "head_logits K w heads feats =
     (case w of None \<Rightarrow> loop_logits K heads feats | Some w \<Rightarrow> batch_logits K w feats)"

section \<open>The batch computes what the loop computes\<close>

definition matrix_ok :: "nat \<Rightarrow> nat \<Rightarrow> 'a list list \<Rightarrow> bool" where
  "matrix_ok m n W \<longleftrightarrow> length W = m \<and> (\<forall>r \<in> set W. length r = n) \<and> 0 < m \<and> 0 < n"

definition head_ok :: "nat \<Rightarrow> nat \<Rightarrow> nat \<Rightarrow> 'a head \<Rightarrow> bool" where
  "head_ok fin hid num H \<longleftrightarrow> matrix_ok hid fin (hd_fc1 H) \<and> matrix_ok num hid (hd_fc2 H) \<and>
     matrix_ok num fin (hd_linear_init H)"

lemma matrix_shape: "matrix_ok m n W \<Longrightarrow> shape2 W = (m, n)"
  by (cases W) (auto simp: matrix_ok_def shape2_def)

lemma stack_t_ok:
  assumes "Ws \<noteq> []" and "\<And>W. W \<in> set Ws \<Longrightarrow> matrix_ok m n W"
  shows "stack_t Ws = Some (map (transpose_to n) Ws)"
proof -
  have "shape2 W = (m, n)" if "W \<in> set Ws" for W using matrix_shape[OF assms(2)[OF that]] .
  then show ?thesis using assms(1) by (cases Ws) (simp_all add: stack_t_def)
qed

lemma transpose_shape: "matrix_ok m n W \<Longrightarrow> shape2 (transpose_to n W) = (n, m)"
proof -
  assume W: "matrix_ok m n W"
  then obtain k where k: "n = Suc k" by (cases n) (auto simp: matrix_ok_def)
  have "transpose_to n W = map (\<lambda>r. r ! 0) W # map (\<lambda>i. map (\<lambda>r. r ! i) W) [1..<Suc k]"
    unfolding transpose_to_def k by (simp add: upt_conv_Cons del: upt_Suc)
  then show ?thesis using W k by (simp add: shape2_def matrix_ok_def)
qed

text \<open>Transposed storage and the einsum give the linear layer.\<close>

lemma einsum_linear:
  assumes "matrix_ok m n W" and "length x = n"
  shows "einsum_row x (transpose_to n W) = linear W x" and "linear W x = Inr (map (\<lambda>r. dot x r) W)"
proof -
  show lin: "linear W x = Inr (map (\<lambda>r. dot x r) W)" using assms by (simp add: linear_def matrix_ok_def)
  have "sum_list (map2 (\<lambda>a r. a * r ! j) x (transpose_to n W)) = dot x (W ! j)" if j: "j < m" for j
  proof -
    have "map2 (\<lambda>a r. a * r ! j) x (transpose_to n W) = map2 (*) x (W ! j)"
      using assms j by (intro nth_equalityI) (auto simp: transpose_to_def matrix_ok_def)
    then show ?thesis by (simp add: dot_def)
  qed
  then have "einsum_row x (transpose_to n W) = Inr (map (\<lambda>j. dot x (W ! j)) [0..<m])"
    using assms transpose_shape[OF assms(1)] by (simp add: einsum_row_def transpose_to_def cong: map_cong)
  also have "map (\<lambda>j. dot x (W ! j)) [0..<m] = map (\<lambda>r. dot x r) W"
    using assms(1) by (intro nth_equalityI) (simp_all add: matrix_ok_def)
  finally show "einsum_row x (transpose_to n W) = linear W x" using lin by simp
qed

lemma batch_row_head:
  assumes H: "head_ok fin hid num H" and f: "f = (h, co, po)" "length h + length co + length po = fin"
  shows "batch_row K (map (hk_cast K) (h @ co @ po))
           (transpose_to fin (hd_fc1 H), transpose_to hid (hd_fc2 H), transpose_to fin (hd_linear_init H))
         = head_call K H f"
proof -
  let ?x = "map (hk_cast K) (h @ co @ po)"
  have x: "length ?x = fin" using f(2) by simp
  have M: "matrix_ok hid fin (hd_fc1 H)" "matrix_ok num hid (hd_fc2 H)" "matrix_ok num fin (hd_linear_init H)"
    using H by (simp_all add: head_ok_def)
  have h1: "length (map (gelu_erf K) (map (\<lambda>r. dot ?x r) (hd_fc1 H))) = hid" using M(1) by (simp add: matrix_ok_def)
  show ?thesis
    unfolding batch_row_def head_call_def f(1) prod.case Let_def einsum_linear(1)[OF M(1) x] einsum_linear(1)[OF M(3) x]
      einsum_linear(2)[OF M(1) x] einsum_linear(2)[OF M(3) x] res_bind_simps einsum_linear(1)[OF M(2) h1] ..
qed

lemma stack_heads_ok:
  assumes "hs \<noteq> []" and "\<And>H. H \<in> set hs \<Longrightarrow> head_ok fin hid num H"
  shows "stack_heads hs = Some (map (\<lambda>H. transpose_to fin (hd_fc1 H)) hs, map (\<lambda>H. transpose_to hid (hd_fc2 H)) hs,
     map (\<lambda>H. transpose_to fin (hd_linear_init H)) hs)"
proof -
  have "stack_t (map hd_fc1 hs) = Some (map (transpose_to fin) (map hd_fc1 hs))"
    by (rule stack_t_ok[where m = hid]) (use assms in \<open>auto simp: head_ok_def\<close>)
  moreover have "stack_t (map hd_fc2 hs) = Some (map (transpose_to hid) (map hd_fc2 hs))"
    by (rule stack_t_ok[where m = num]) (use assms in \<open>auto simp: head_ok_def\<close>)
  moreover have "stack_t (map hd_linear_init hs) = Some (map (transpose_to fin) (map hd_linear_init hs))"
    by (rule stack_t_ok[where m = num]) (use assms in \<open>auto simp: head_ok_def\<close>)
  ultimately show ?thesis by (simp add: stack_heads_def comp_def)
qed

lemma res_map_nth: "res_map f xs = Inr ys \<Longrightarrow> i < length xs \<Longrightarrow> f (xs ! i) = Inr (ys ! i)"
proof (induction xs arbitrary: ys i)
  case (Cons x xs)
  then show ?case by (cases i) (auto split: sum.splits)
qed simp

lemma res_map_eqI:
  "length xs = length ys \<Longrightarrow> (\<And>i. i < length xs \<Longrightarrow> g (xs ! i) = h (ys ! i)) \<Longrightarrow> res_map g xs = res_map h ys"
proof (induction xs arbitrary: ys)
  case (Cons x xs)
  then obtain y ys' where ys: "ys = y # ys'" by (cases ys) auto
  have "g x = h y" using Cons.prems(2)[of 0] ys by simp
  moreover have "res_map g xs = res_map h ys'"
    using Cons.prems(1) Cons.prems(2)[of "Suc i" for i] ys by (intro Cons.IH) auto
  ultimately show ?case by (cases "h y") (auto simp: ys)
qed simp

lemma heads_batch_same:
  assumes "hs \<noteq> []" and "\<And>H. H \<in> set hs \<Longrightarrow> head_ok (a + b + c) hid num H" and "length fs = length hs"
    and "\<And>m co po. (m, co, po) \<in> set fs \<Longrightarrow> length m = a \<and> length co = b \<and> length po = c"
  shows "\<exists>w. stack_heads hs = Some w \<and> head_logits K (Some w) (map Inr hs) fs = head_logits K None (map Inr hs) fs"
proof -
  let ?w1 = "map (\<lambda>H. transpose_to (a + b + c) (hd_fc1 H)) hs" and ?w2 = "map (\<lambda>H. transpose_to hid (hd_fc2 H)) hs"
    and ?wl = "map (\<lambda>H. transpose_to (a + b + c) (hd_linear_init H)) hs"
  have len: "length (fst f) = a \<and> length (fst (snd f)) = b \<and> length (snd (snd f)) = c" if "f \<in> set fs" for f
    using assms(4)[of "fst f" "fst (snd f)" "snd (snd f)"] that by simp
  have ne: "fs \<noteq> []" using assms(1,3) by auto
  then have hd: "hd fs \<in> set fs" by simp
  then have same: "same_lengths (map fst fs)" "same_lengths (map (fst \<circ> snd) fs)" "same_lengths (map (snd \<circ> snd) fs)"
    using len len[OF hd] ne by (auto simp: same_lengths_def hd_map)
  have "res_map (\<lambda>(f, v). batch_row K (map (hk_cast K) (case f of (m, co, po) \<Rightarrow> m @ co @ po)) v) (zip fs (zip ?w1 (zip ?w2 ?wl)))
      = loop_logits K (map Inr hs) fs"
    unfolding loop_logits_def
  proof (rule res_map_eqI)
    fix i assume "i < length (zip fs (zip ?w1 (zip ?w2 ?wl)))"
    then have i: "i < length hs" "i < length fs" using assms(3) by simp_all
    obtain m co po where f: "fs ! i = (m, co, po)" by (metis prod_cases3)
    have ok: "head_ok (a + b + c) hid num (hs ! i)" using assms(2) i by simp
    have "length m + length co + length po = a + b + c" using len[OF nth_mem[OF i(2)]] f by simp
    from batch_row_head[OF ok f this, of K]
    show "(case zip fs (zip ?w1 (zip ?w2 ?wl)) ! i of (f, v) \<Rightarrow> batch_row K (map (hk_cast K) (case f of (m, co, po) \<Rightarrow> m @ co @ po)) v)
      = (case zip (map Inr hs) fs ! i of (H, f) \<Rightarrow> res_bind H (\<lambda>H. head_call K H f))"
      using i f by simp
  qed (use assms(3) in simp)
  then show ?thesis
    using stack_heads_ok[OF assms(1,2)] same by (intro exI) (auto simp: head_logits_def batch_logits_def)
qed

text \<open>
  C35: batching the heads changes nothing. When the owner heads have one shape (and the features its
  width), stacking succeeds, and the three einsums over the stacked, transposed weights give for every
  owner exactly the logits that calling the owner's head gives.
\<close>
theorem heads_batch_is_loop:
  assumes "hs \<noteq> []" and "\<And>H. H \<in> set hs \<Longrightarrow> head_ok (a + b + c) hid num H" and "length fs = length hs"
    and "\<And>m co po. (m, co, po) \<in> set fs \<Longrightarrow> length m = a \<and> length co = b \<and> length po = c"
  shows "\<exists>w. stack_heads hs = Some w \<and> head_logits K (Some w) (map Inr hs) fs = head_logits K None (map Inr hs) fs"
  using assms by (rule heads_batch_same)

section \<open>An instance\<close>

definition demo_hk :: "rat hkernels" where
  "demo_hk = \<lparr>hk_erf = id, hk_sqrt2 = 7 / 5, hk_cast = id\<rparr>"

definition demo_head :: "rat \<Rightarrow> rat head" where
  "demo_head x = \<lparr>hd_fc1 = [[x, 1, 0, 1], [1, 2, x, 0]], hd_fc2 = [[1, x], [2, 0], [0, 1]],
     hd_linear_init = [[1, 0, 0, 0], [0, x, 0, 0], [0, 0, 1, 2]]\<rparr>"

lemma heads_batch_is_loop_witness:
  "(\<exists>w. stack_heads [demo_head 1, demo_head 3] = Some w \<and>
      head_logits demo_hk (Some w) (map Inr [demo_head 1, demo_head 3]) [([1, 2], [1], [0]), ([5, 1], [0], [1])]
      = head_logits demo_hk None (map Inr [demo_head 1, demo_head 3]) [([1, 2], [1], [0]), ([5, 1], [0], [1])])
   \<and> \<not> isl (head_logits demo_hk None (map Inr [demo_head 1, demo_head 3]) [([1, 2], [1], [0]), ([5, 1], [0], [1])])"
proof
  show "\<exists>w. stack_heads [demo_head 1, demo_head 3] = Some w \<and>
      head_logits demo_hk (Some w) (map Inr [demo_head 1, demo_head 3]) [([1, 2], [1], [0]), ([5, 1], [0], [1])]
      = head_logits demo_hk None (map Inr [demo_head 1, demo_head 3]) [([1, 2], [1], [0]), ([5, 1], [0], [1])]"
    by (rule heads_batch_is_loop[where a = 2 and b = 1 and c = 1 and hid = 2 and num = 3])
      (auto simp: head_ok_def matrix_ok_def demo_head_def)
  show "\<not> isl (head_logits demo_hk None (map Inr [demo_head 1, demo_head 3]) [([1, 2], [1], [0]), ([5, 1], [0], [1])])"
    by code_simp
qed

end
