(* ===== verification/Py_Strings.thy ===== *)
theory Py_Strings
  imports Moe_Spec
begin

text \<open>
  What the sources use of Python's \<open>str\<close> and \<open>list\<close>: \<open>strip\<close>, \<open>startswith\<close>, \<open>endswith\<close>, \<open>find\<close>, \<open>int(s)\<close>, and list
  reads and writes at a possibly negative index. Strings are lists of characters below 256, and white
  space and digits are the ASCII ones.
\<close>

definition is_space :: "char \<Rightarrow> bool" where
  "is_space c \<longleftrightarrow> (let n = of_char c :: nat in n = 32 \<or> (9 \<le> n \<and> n \<le> 13) \<or> (28 \<le> n \<and> n \<le> 31))"

definition lstrip :: "string \<Rightarrow> string" where
  "lstrip s = dropWhile is_space s"

definition rstrip :: "string \<Rightarrow> string" where
  "rstrip s = rev (dropWhile is_space (rev s))"

definition strip :: "string \<Rightarrow> string" where
  "strip s = rstrip (lstrip s)"

fun starts_with :: "'a list \<Rightarrow> 'a list \<Rightarrow> bool" where
  "starts_with s [] = True"
| "starts_with [] (p # ps) = False"
| "starts_with (c # s) (p # ps) = (c = p \<and> starts_with s ps)"

text \<open>\<open>s.endswith(p)\<close>\<close>

definition ends_with :: "string \<Rightarrow> string \<Rightarrow> bool" where
  "ends_with p s \<longleftrightarrow> starts_with (rev s) (rev p)"

text \<open>\<open>s.find(p)\<close>: the first position where \<open>p\<close> occurs; \<open>None\<close> for \<open>-1\<close>.\<close>

fun find_sub :: "'a list \<Rightarrow> 'a list \<Rightarrow> nat option" where
  "find_sub p [] = (if p = [] then Some 0 else None)"
| "find_sub p (c # s) = (if starts_with (c # s) p then Some 0 else map_option Suc (find_sub p s))"

definition occurs :: "'a list \<Rightarrow> 'a list \<Rightarrow> bool" where
  "occurs p s \<longleftrightarrow> find_sub p s \<noteq> None"

text \<open>\<open>int(s)\<close>: white space around, one sign, digits with single underscores between them.\<close>

definition digits_value :: "string \<Rightarrow> int option" where
  "digits_value s =
     (if list_all isdigit (split_on CHR ''_'' s) then Some (int (parse_nat (filter (\<lambda>c. c \<noteq> CHR ''_'') s))) else None)"

definition py_int :: "string \<Rightarrow> int res" where
  "py_int s =
     (case (case strip s of
              [] \<Rightarrow> None
            | c # cs \<Rightarrow> if c = CHR ''-'' then map_option uminus (digits_value cs)
                        else if c = CHR ''+'' then digits_value cs else digits_value (c # cs)) of
        None \<Rightarrow> Inl ValueError
      | Some i \<Rightarrow> Inr i)"

text \<open>\<open>xs[i]\<close> and \<open>xs[i] = x\<close>; a negative index counts from the end.\<close>

definition py_pos :: "'a list \<Rightarrow> int \<Rightarrow> nat res" where
  "py_pos xs i =
     (let j = (if i < 0 then i + int (length xs) else i)
      in if 0 \<le> j \<and> j < int (length xs) then Inr (nat j) else Inl IndexError)"

definition py_at :: "'a list \<Rightarrow> int \<Rightarrow> 'a res" where
  "py_at xs i = res_bind (py_pos xs i) (\<lambda>j. Inr (xs ! j))"

definition py_put :: "'a list \<Rightarrow> int \<Rightarrow> 'a \<Rightarrow> 'a list res" where
  "py_put xs i x = res_bind (py_pos xs i) (\<lambda>j. Inr (xs[j := x]))"

lemma py_pos_nonneg [simp]: "0 \<le> i \<Longrightarrow> i < int (length xs) \<Longrightarrow> py_pos xs i = Inr (nat i)"
  by (simp add: py_pos_def)

lemma py_at_nonneg [simp]: "0 \<le> i \<Longrightarrow> i < int (length xs) \<Longrightarrow> py_at xs i = Inr (xs ! nat i)"
  by (simp add: py_at_def)

lemma py_put_nonneg [simp]: "0 \<le> i \<Longrightarrow> i < int (length xs) \<Longrightarrow> py_put xs i x = Inr (xs[nat i := x])"
  by (simp add: py_put_def)

lemma starts_with_iff: "starts_with s p \<longleftrightarrow> (\<exists>r. s = p @ r)"
  by (induction s p rule: starts_with.induct) auto

lemma starts_with_append [simp]: "starts_with (p @ s) p"
  by (simp add: starts_with_iff)

text \<open>\<open>find\<close> returns the first occurrence, and finds one exactly when there is one.\<close>

lemma find_sub_Some:
  "find_sub p s = Some i \<Longrightarrow> i \<le> length s \<and> starts_with (drop i s) p \<and> (\<forall>j<i. \<not> starts_with (drop j s) p)"
proof (induction p s arbitrary: i rule: find_sub.induct)
  case (2 p c s)
  show ?case
  proof (cases "starts_with (c # s) p")
    case False
    then obtain k where "find_sub p s = Some k" "i = Suc k" using 2(2) by auto
    then show ?thesis using 2(1)[OF False] False by (auto simp: less_Suc_eq_0_disj)
  qed (use 2(2) in simp)
qed (auto split: if_splits)

lemma find_sub_None: "find_sub p s = None \<longleftrightarrow> (\<forall>a b. s \<noteq> a @ p @ b)"
proof (induction p s rule: find_sub.induct)
  case (2 p c s)
  have "(\<forall>a b. c # s \<noteq> a @ p @ b) \<longleftrightarrow> \<not> starts_with (c # s) p \<and> (\<forall>a b. s \<noteq> a @ p @ b)"
    by (auto simp: starts_with_iff Cons_eq_append_conv)
  then show ?case using 2 by auto
qed auto

lemma occurs_iff: "occurs p s \<longleftrightarrow> (\<exists>a b. s = a @ p @ b)"
  using find_sub_None[of p s] by (auto simp: occurs_def)

lemma split_first:
  "find_sub p s = Some i \<Longrightarrow> s = take i s @ p @ drop (i + length p) s"
  using find_sub_Some[of p s i] by (metis append_take_drop_id append_eq_conv_conj drop_drop starts_with_iff add.commute)

end
