(* ===== verification/Prerouter.thy ===== *)
theory Prerouter
  imports Heads Py_Strings
begin

text \<open>
  The prerouter's configuration, decode-time state and installation: \<open>prerouter/spec.py\<close>,
  \<open>prerouter/state.py\<close>, \<open>_parse_weights\<close> and \<open>install_prerouter\<close> of \<open>prerouter/install.py\<close>. Layer
  numbers are Python integers. A weight is a matrix; \<open>astype\<close> and the file system (which weight files
  exist and what they hold) are parameters.
\<close>

record prerouter_spec =
  pp_kind :: router_kind
  pp_start :: int
  pp_hidden :: nat
  pp_dtype :: string
  pp_feature_topk :: string
  pp_owners :: "int list option"
  pp_weights_file :: string
  pp_patch_call :: bool

definition default_prerouter :: prerouter_spec where
  "default_prerouter =
     \<lparr>pp_kind = SOFTMAX_TOPK, pp_start = 7, pp_hidden = 512, pp_dtype = ''fp16'', pp_feature_topk = ''executed'',
      pp_owners = None, pp_weights_file = '''', pp_patch_call = False\<rparr>"

definition owner_layers :: "prerouter_spec \<Rightarrow> int \<Rightarrow> int list" where
  "owner_layers p n = (case pp_owners p of Some os \<Rightarrow> os | None \<Rightarrow> [pp_start p - 1..n - 2])"

section \<open>The double buffer\<close>

record 'a pstate =
  ps_n :: int
  ps_num_experts :: nat
  ps_start :: int
  ps_owners :: "int list"
  ps_logits :: "'a list option list"
  ps_logits_prev :: "'a list option list"
  ps_pred_inds :: "nat list option list"
  ps_pred_scores :: "'a list option list"
  ps_oh :: "'a list option list"
  ps_oh_prev :: "'a list option list"

definition nones :: "int \<Rightarrow> 'a option list" where
  "nones n = replicate (nat n) None"

definition pstate_new :: "int \<Rightarrow> nat \<Rightarrow> int \<Rightarrow> int list option \<Rightarrow> 'a pstate" where
  "pstate_new n num start owners =
     \<lparr>ps_n = n, ps_num_experts = num, ps_start = start,
      ps_owners = (case owners of None \<Rightarrow> [start - 1..n - 2] | Some os \<Rightarrow> os),
      ps_logits = nones n, ps_logits_prev = nones n, ps_pred_inds = nones n, ps_pred_scores = nones n,
      ps_oh = nones n, ps_oh_prev = nones n\<rparr>"

definition pstate_swap :: "'a pstate \<Rightarrow> 'a pstate" where
  "pstate_swap S = S\<lparr>ps_logits_prev := ps_logits S, ps_logits := nones (ps_n S),
     ps_oh_prev := ps_oh S, ps_oh := nones (ps_n S)\<rparr>"

definition pstate_reset :: "'a pstate \<Rightarrow> 'a pstate" where
  "pstate_reset S =
     (let z = nones (ps_n S); zi = nones (ps_n S)
      in S\<lparr>ps_logits := z, ps_logits_prev := z, ps_pred_inds := zi, ps_pred_scores := z, ps_oh := z, ps_oh_prev := z\<rparr>)"

section \<open>Weights\<close>

text \<open>
  \<open>_parse_weights\<close>: \<open>layers.<N>. ... .<part>.weight\<close>; a key of another form is skipped, a later key for the
  same owner and part replaces an earlier one.
\<close>

type_synonym 'a mat = "'a list list"
type_synonym 'a parts = "(string \<times> 'a mat) list"

definition weight_key :: "string \<Rightarrow> (int \<times> string) option" where
  "weight_key key =
     (let ps = split_on CHR ''.'' key in
      if length ps < 4 \<or> ps ! 0 \<noteq> ''layers'' then None
      else case py_int (ps ! 1) of
             Inl _ \<Rightarrow> None
           | Inr owner \<Rightarrow>
               let part = ps ! (length ps - 2) in
               if part \<in> {''fc1'', ''fc2'', ''linear_init''} then Some (owner, part @ ''.weight'') else None)"

definition parse_weights :: "('a mat \<Rightarrow> 'a mat) \<Rightarrow> (string \<times> 'a mat) list \<Rightarrow> (int \<times> 'a parts) list" where
  "parse_weights as_dtype weights =
     fold (\<lambda>(key, w) heads. case weight_key key of
             None \<Rightarrow> heads
           | Some (owner, part) \<Rightarrow>
               let d = (case map_of heads owner of None \<Rightarrow> [] | Some d \<Rightarrow> d)
               in AList.update owner (AList.update part (as_dtype w) d) heads) weights []"

section \<open>Installation\<close>

text \<open>
  A block as the installer sees it: the input width of its router, the head baked into it (ling), and the
  attributes the installer sets (qwen).
\<close>

record 'a iblock =
  ib_baked :: "'a head option"
  ib_head :: "'a head option"
  ib_li :: int
  ib_start :: int
  ib_enabled :: bool

definition part_of :: "'a parts \<Rightarrow> string \<Rightarrow> 'a mat res" where
  "part_of w k = (case map_of w k of None \<Rightarrow> Inl KeyError | Some m \<Rightarrow> Inr m)"

definition zeros_like :: "'a::zero mat \<Rightarrow> 'a mat" where
  "zeros_like W = map (map (\<lambda>_. 0)) W"

definition install_block ::
  "prerouter_spec \<Rightarrow> int \<Rightarrow> 'a::zero parts \<Rightarrow> 'a iblock \<Rightarrow> ('a head \<times> 'a iblock) res" where
  "install_block p owner w b =
     (if pp_patch_call p then
        res_bind (part_of w ''fc1.weight'') (\<lambda>w1.
        res_bind (part_of w ''fc2.weight'') (\<lambda>w2.
        res_bind (part_of w ''linear_init.weight'') (\<lambda>wl.
          let H = \<lparr>hd_fc1 = w1, hd_fc2 = w2, hd_linear_init = wl\<rparr>
          in Inr (H, b\<lparr>ib_head := Some H, ib_li := owner, ib_start := pp_start p, ib_enabled := True\<rparr>))))
      else case ib_baked b of
             None \<Rightarrow> Inl AttributeError
           | Some pg \<Rightarrow>
               res_bind (part_of w ''fc1.weight'') (\<lambda>w1.
               res_bind (part_of w ''fc2.weight'') (\<lambda>w2.
                 let wl = (case map_of w ''linear_init.weight'' of Some wk \<Rightarrow> wk | None \<Rightarrow> zeros_like (hd_linear_init pg));
                     H = \<lparr>hd_fc1 = w1, hd_fc2 = w2, hd_linear_init = wl\<rparr>
                 in Inr (H, b\<lparr>ib_baked := Some H\<rparr>))))"

fun install_heads ::
  "prerouter_spec \<Rightarrow> (int \<times> 'a::zero parts) list \<Rightarrow> int list \<Rightarrow> (int \<times> 'a iblock) list \<Rightarrow> (int \<times> 'a head) list \<Rightarrow>
     ((int \<times> 'a iblock) list \<times> (int \<times> 'a head) list) res" where
  "install_heads p hw [] blocks heads = Inr (blocks, heads)"
| "install_heads p hw (owner # os) blocks heads =
     (case map_of blocks owner of
        None \<Rightarrow> Inl IndexError
      | Some b \<Rightarrow>
          (case map_of hw owner of
             None \<Rightarrow> Inl KeyError
           | Some w \<Rightarrow>
               (case install_block p owner w b of
                  Inl e \<Rightarrow> Inl e
                | Inr (H, b') \<Rightarrow>
                    install_heads p hw os (AList.update owner b' blocks) (AList.update owner H heads))))"

definition weights_given ::
  "prerouter_spec \<Rightarrow> (string \<Rightarrow> (string \<times> 'a mat) list option) \<Rightarrow> (string \<times> 'a mat) list option \<Rightarrow> (string \<times> 'a mat) list res" where
  "weights_given p files weights =
     (case weights of
        Some w \<Rightarrow> Inr w
      | None \<Rightarrow>
          if pp_weights_file p = '''' then Inl ValueError
          else (case files (pp_weights_file p) of None \<Rightarrow> Inl FileNotFoundError | Some w \<Rightarrow> Inr w))"

definition install_prerouter ::
  "prerouter_spec \<Rightarrow> nat \<Rightarrow> (string \<Rightarrow> 'a::zero mat \<Rightarrow> 'a mat) \<Rightarrow> (string \<Rightarrow> (string \<times> 'a mat) list option) \<Rightarrow>
     (string \<times> 'a mat) list option \<Rightarrow> 'a pstate option \<Rightarrow> int \<Rightarrow> (int \<times> 'a iblock) list \<Rightarrow>
     ('a pstate \<times> (int \<times> 'a head) list \<times> (int \<times> 'a iblock) list) res" where
  "install_prerouter p num as_dtype files weights state n blocks =
     res_bind (weights_given p files weights) (\<lambda>ws.
       let hw = parse_weights (as_dtype (if pp_dtype p = ''fp16'' then ''float16'' else ''float32'')) ws;
           missing = filter (\<lambda>o'. map_of hw o' = None) (owner_layers p n)
       in if missing \<noteq> [] then Inl ValueError
          else let S = (case state of Some S \<Rightarrow> S | None \<Rightarrow> pstate_new n num (pp_start p) (Some (owner_layers p n)))
               in res_bind (install_heads p hw (owner_layers p n) blocks []) (\<lambda>(blocks', heads). Inr (S, heads, blocks')))"

section \<open>What installation establishes\<close>

text \<open>An owner that can be given its head, the head its weights make, and the block that carries it.\<close>

definition installable :: "prerouter_spec \<Rightarrow> (int \<times> 'a parts) list \<Rightarrow> (int \<times> 'a iblock) list \<Rightarrow> int \<Rightarrow> bool" where
  "installable p hw blocks owner \<longleftrightarrow>
     (\<exists>w b. map_of hw owner = Some w \<and> map_of blocks owner = Some b \<and>
        map_of w ''fc1.weight'' \<noteq> None \<and> map_of w ''fc2.weight'' \<noteq> None \<and>
        (if pp_patch_call p then map_of w ''linear_init.weight'' \<noteq> None else ib_baked b \<noteq> None))"

definition head_from :: "prerouter_spec \<Rightarrow> 'a::zero parts \<Rightarrow> 'a head \<Rightarrow> bool" where
  "head_from p w H \<longleftrightarrow>
     map_of w ''fc1.weight'' = Some (hd_fc1 H) \<and> map_of w ''fc2.weight'' = Some (hd_fc2 H) \<and>
     (case map_of w ''linear_init.weight'' of
        Some wl \<Rightarrow> hd_linear_init H = wl
      | None \<Rightarrow> \<not> pp_patch_call p \<and> (\<forall>r \<in> set (hd_linear_init H). \<forall>x \<in> set r. x = 0))"

definition carries :: "prerouter_spec \<Rightarrow> int \<Rightarrow> 'a head \<Rightarrow> 'a iblock \<Rightarrow> bool" where
  "carries p owner H b \<longleftrightarrow>
     (if pp_patch_call p then ib_head b = Some H \<and> ib_li b = owner \<and> ib_start b = pp_start p \<and> ib_enabled b
      else ib_baked b = Some H)"

lemma install_block_ok:
  assumes "install_block p owner w b = Inr (H, b')"
  shows "head_from p w H" and "carries p owner H b'" and "ib_baked b \<noteq> None \<longleftrightarrow> ib_baked b' \<noteq> None"
  using assms
  by (auto simp: install_block_def part_of_def Let_def head_from_def carries_def zeros_like_def
      split: if_splits option.splits)

lemma install_block_total:
  "(\<exists>r. install_block p owner w b = Inr r) \<longleftrightarrow>
     map_of w ''fc1.weight'' \<noteq> None \<and> map_of w ''fc2.weight'' \<noteq> None \<and>
     (if pp_patch_call p then map_of w ''linear_init.weight'' \<noteq> None else ib_baked b \<noteq> None)"
  by (auto simp: install_block_def part_of_def Let_def split: option.splits)

lemma install_heads_ok:
  "install_heads p hw os blocks heads = Inr (blocks', heads') \<Longrightarrow>
     (\<forall>owner \<in> set os. installable p hw blocks owner \<and>
        (\<exists>w H b. map_of hw owner = Some w \<and> map_of heads' owner = Some H \<and> map_of blocks' owner = Some b \<and>
           head_from p w H \<and> carries p owner H b)) \<and>
     (\<forall>owner. owner \<notin> set os \<longrightarrow> map_of blocks' owner = map_of blocks owner \<and> map_of heads' owner = map_of heads owner)"
proof (induction os arbitrary: blocks heads)
  case (Cons owner os)
  obtain b w H b' where step: "map_of blocks owner = Some b" "map_of hw owner = Some w" "install_block p owner w b = Inr (H, b')"
    "install_heads p hw os (AList.update owner b' blocks) (AList.update owner H heads) = Inr (blocks', heads')"
    using Cons.prems by (auto split: option.splits sum.splits)
  note block = install_block_ok[OF step(3)]
  have here: "installable p hw blocks owner"
    using step(1-3) install_block_total[of p owner w b] by (auto simp: installable_def)
  have rest: "installable p hw blocks o'" if "installable p hw (AList.update owner b' blocks) o'" for o'
    using that here block(3) step(1) by (cases "o' = owner") (auto simp: installable_def)
  note IH = Cons.IH[OF step(4)]
  have "\<exists>w H b. map_of hw owner = Some w \<and> map_of heads' owner = Some H \<and> map_of blocks' owner = Some b \<and>
      head_from p w H \<and> carries p owner H b"
    using IH step(2) block(1,2) by (cases "owner \<in> set os") auto
  then show ?case using IH here rest by auto
qed simp

lemma install_heads_total:
  "(\<forall>owner \<in> set os. installable p hw blocks owner) \<Longrightarrow> \<exists>r. install_heads p hw os blocks heads = Inr r"
proof (induction os arbitrary: blocks heads)
  case (Cons owner os)
  then obtain w b where wb: "map_of hw owner = Some w" "map_of blocks owner = Some b"
    and parts: "map_of w ''fc1.weight'' \<noteq> None \<and> map_of w ''fc2.weight'' \<noteq> None \<and>
      (if pp_patch_call p then map_of w ''linear_init.weight'' \<noteq> None else ib_baked b \<noteq> None)"
    by (auto simp: installable_def)
  obtain H b' where block: "install_block p owner w b = Inr (H, b')"
    using parts install_block_total[of p owner w b] by auto
  have "installable p hw (AList.update owner b' blocks) o'" if "installable p hw blocks o'" for o'
    using that install_block_ok(3)[OF block] wb by (cases "o' = owner") (auto simp: installable_def)
  then show ?case using Cons wb block by simp
qed simp

text \<open>
  C37: installing the prerouter. With the weights at hand the call succeeds exactly when every owner
  layer has a block and all the parts its convention needs; then the state's owners are the spec's, the
  heads are exactly those of the owners, each made of its own entries of the file, each owner's block
  carries it, and every other block is untouched.
\<close>
theorem install_prerouter_result:
  assumes "hw = parse_weights (as_dtype (if pp_dtype p = ''fp16'' then ''float16'' else ''float32'')) ws"
  shows "case install_prerouter p num as_dtype files (Some ws) None n blocks of
      Inl e \<Rightarrow> \<exists>owner \<in> set (owner_layers p n). \<not> installable p hw blocks owner
    | Inr (S, heads, blocks') \<Rightarrow>
        ps_owners S = owner_layers p n \<and> ps_start S = pp_start p \<and>
        dom (map_of heads) = set (owner_layers p n) \<and>
        (\<forall>owner \<in> set (owner_layers p n). installable p hw blocks owner \<and>
           (\<exists>w H b. map_of hw owner = Some w \<and> map_of heads owner = Some H \<and> map_of blocks' owner = Some b \<and>
              head_from p w H \<and> carries p owner H b)) \<and>
        (\<forall>owner. owner \<notin> set (owner_layers p n) \<longrightarrow> map_of blocks' owner = map_of blocks owner)"
proof -
  let ?os = "owner_layers p n" and ?S = "pstate_new n num (pp_start p) (Some (owner_layers p n))"
  have run: "install_prerouter p num as_dtype files (Some ws) None n blocks =
      (if filter (\<lambda>o'. map_of hw o' = None) ?os \<noteq> [] then Inl ValueError
       else res_bind (install_heads p hw ?os blocks []) (\<lambda>(blocks', heads). Inr (?S, heads, blocks')))"
    by (simp add: install_prerouter_def weights_given_def assms Let_def)
  show ?thesis
  proof (cases "\<forall>owner \<in> set ?os. installable p hw blocks owner")
    case True
    then obtain blocks' heads where r: "install_heads p hw ?os blocks [] = Inr (blocks', heads)"
      using install_heads_total[of ?os p hw blocks "[]"] by auto
    have "filter (\<lambda>o'. map_of hw o' = None) ?os = []" using True by (auto simp: installable_def filter_empty_conv)
    then show ?thesis using run r install_heads_ok[OF r]
      by (auto simp: pstate_new_def dom_def set_eq_iff split: option.splits)
  next
    case False
    then show ?thesis using run install_heads_ok[of p hw ?os blocks "[]"]
      by (cases "install_heads p hw ?os blocks []") (auto split: prod.splits)
  qed
qed

definition demo_prerouter :: prerouter_spec where
  "demo_prerouter = default_prerouter\<lparr>pp_start := 1, pp_patch_call := True\<rparr>"

definition demo_block0 :: "rat iblock" where
  "demo_block0 = \<lparr>ib_baked = None, ib_head = None, ib_li = 0, ib_start = 0, ib_enabled = False\<rparr>"

definition demo_weights :: "(string \<times> rat mat) list" where
  "demo_weights = [(''layers.0.fc1.weight'', [[1]]), (''layers.0.mlp.prerouter.fc2.weight'', [[2]]),
     (''layers.0.linear_init.weight'', [[3]]), (''norm.weight'', [[4]])]"

lemma demo_parse: "parse_weights (\<lambda>w. w) demo_weights =
    [(0, [(''fc1.weight'', [[1]]), (''fc2.weight'', [[2]]), (''linear_init.weight'', [[3]])])]"
  by code_simp

definition demo_hw :: "(int \<times> rat parts) list" where
  "demo_hw = [(0, [(''fc1.weight'', [[1]]), (''fc2.weight'', [[2]]), (''linear_init.weight'', [[3]])])]"

definition demo_install :: "(rat pstate \<times> (int \<times> rat head) list \<times> (int \<times> rat iblock) list) res" where
  "demo_install = install_prerouter demo_prerouter 1 (\<lambda>d w. w) (\<lambda>f. None) (Some demo_weights) None 2
     [(0, demo_block0), (1, demo_block0)]"

lemma install_prerouter_result_witness:
  "(case demo_install of
      Inl e \<Rightarrow> \<exists>owner \<in> set (owner_layers demo_prerouter 2). \<not> installable demo_prerouter demo_hw [(0, demo_block0), (1, demo_block0)] owner
    | Inr (S, heads, blocks') \<Rightarrow>
        ps_owners S = owner_layers demo_prerouter 2 \<and> ps_start S = pp_start demo_prerouter \<and>
        dom (map_of heads) = set (owner_layers demo_prerouter 2) \<and>
        (\<forall>owner \<in> set (owner_layers demo_prerouter 2). installable demo_prerouter demo_hw [(0, demo_block0), (1, demo_block0)] owner \<and>
           (\<exists>w H b. map_of demo_hw owner = Some w \<and> map_of heads owner = Some H \<and> map_of blocks' owner = Some b \<and>
              head_from demo_prerouter w H \<and> carries demo_prerouter owner H b)) \<and>
        (\<forall>owner. owner \<notin> set (owner_layers demo_prerouter 2) \<longrightarrow>
           map_of blocks' owner = map_of [(0, demo_block0), (1, demo_block0)] owner))
   \<and> \<not> isl demo_install \<and> owner_layers demo_prerouter 2 = [0]"
proof (intro conjI)
  have "demo_hw = parse_weights ((\<lambda>d w. w) (if pp_dtype demo_prerouter = ''fp16'' then ''float16'' else ''float32'')) demo_weights"
    using demo_parse by (simp add: demo_hw_def)
  from install_prerouter_result[where as_dtype = "\<lambda>d w. w", OF this, where num = 1 and files = "\<lambda>f. None"
      and n = 2 and blocks = "[(0, demo_block0), (1, demo_block0)]"]
  show "case demo_install of
      Inl e \<Rightarrow> \<exists>owner \<in> set (owner_layers demo_prerouter 2). \<not> installable demo_prerouter demo_hw [(0, demo_block0), (1, demo_block0)] owner
    | Inr (S, heads, blocks') \<Rightarrow>
        ps_owners S = owner_layers demo_prerouter 2 \<and> ps_start S = pp_start demo_prerouter \<and>
        dom (map_of heads) = set (owner_layers demo_prerouter 2) \<and>
        (\<forall>owner \<in> set (owner_layers demo_prerouter 2). installable demo_prerouter demo_hw [(0, demo_block0), (1, demo_block0)] owner \<and>
           (\<exists>w H b. map_of demo_hw owner = Some w \<and> map_of heads owner = Some H \<and> map_of blocks' owner = Some b \<and>
              head_from demo_prerouter w H \<and> carries demo_prerouter owner H b)) \<and>
        (\<forall>owner. owner \<notin> set (owner_layers demo_prerouter 2) \<longrightarrow>
           map_of blocks' owner = map_of [(0, demo_block0), (1, demo_block0)] owner)"
    unfolding demo_install_def .
  show "\<not> isl demo_install" "owner_layers demo_prerouter 2 = [0]" by code_simp+
qed

end
