(* ===== verification/Stager.thy ===== *)
theory Stager
  imports Prerouter Stage_Async
begin

text \<open>
  The step-boundary stagers of \<open>prerouter/stager.py\<close>: the shared pass \<open>PrerouterStager.stage_all\<close>
  (collect the owners' features, run the heads, select, store per consumer) over the methods a family
  overrides, and the two families, \<open>CrossTokenStager\<close> (qwen) and \<open>LingPrerouterStager\<close>. A method is a
  field of \<open>stager_class\<close>; \<open>'w\<close> is what the methods read and write: the model's blocks, the prerouter
  state and the streaming layers. Arrays are lists without the leading unit axes.
\<close>

record ('w, 'a) stager_class =
  sc_features :: "int \<Rightarrow> 'w \<Rightarrow> ('a list \<times> 'a list \<times> 'a list) option res"
  sc_select :: "'a list \<Rightarrow> (nat list \<times> 'a list) res"
  sc_store :: "int \<Rightarrow> 'a list \<Rightarrow> nat list \<Rightarrow> 'a list \<Rightarrow> nat list option \<Rightarrow> 'w \<Rightarrow> unit res \<times> 'w"
  sc_note :: "int \<Rightarrow> 'a list \<Rightarrow> 'w \<Rightarrow> 'w"
  sc_head :: "int \<Rightarrow> 'a head res"
  sc_streams :: bool

record ('w, 'a) stager =
  sg_world :: 'w
  sg_head_batch :: bool
  sg_key :: "int list option"
  sg_stacked :: "'a stacked option"
  sg_records :: "(nat \<times> int \<times> nat list) list option"
  sg_step :: nat

text \<open>\<open>__init__\<close>; \<open>head_batch\<close> comes from the environment.\<close>

definition stager_new :: "bool \<Rightarrow> 'w \<Rightarrow> ('w, 'a) stager" where
  "stager_new batch w =
     \<lparr>sg_world = w, sg_head_batch = batch, sg_key = None, sg_stacked = None, sg_records = None, sg_step = 0\<rparr>"

definition stacked_weights :: "('w, 'a) stager_class \<Rightarrow> int list \<Rightarrow> ('w, 'a) stager \<Rightarrow> 'a stacked option \<times> ('w, 'a) stager" where
  "stacked_weights C metas S =
     (if \<not> sg_head_batch S then (None, S)
      else if sg_key S = Some metas then (sg_stacked S, S)
      else let w = (case res_map (sc_head C) metas of Inl _ \<Rightarrow> None | Inr hs \<Rightarrow> stack_heads hs)
           in (w, S\<lparr>sg_key := Some metas, sg_stacked := w\<rparr>))"

fun collect_features ::
  "('w, 'a) stager_class \<Rightarrow> 'w \<Rightarrow> int list \<Rightarrow> (int \<times> 'a list \<times> 'a list \<times> 'a list) list res" where
  "collect_features C w [] = Inr []"
| "collect_features C w (owner # os) =
     res_bind (sc_features C owner w) (\<lambda>f.
     res_bind (collect_features C w os) (\<lambda>rest.
       Inr (case f of None \<Rightarrow> rest | Some f \<Rightarrow> (owner, f) # rest)))"

text \<open>The loop over the consumers; a row is owner, current one-hot, logits, selection.\<close>

fun stage_rows ::
  "('w, 'a) stager_class \<Rightarrow> (int \<times> 'a list \<times> 'a list \<times> nat list \<times> 'a list) list \<Rightarrow> (int \<times> nat list) list \<Rightarrow> 'w \<Rightarrow>
     (int \<times> nat list) list res \<times> 'w" where
  "stage_rows C [] sets w = (Inr sets, w)"
| "stage_rows C ((owner, cur, lg, inds, sc) # rows) sets w =
     (let experts = (if sc_streams C then Some (uniq inds) else None);
          sets = AList.update (owner + 1) (case experts of None \<Rightarrow> [] | Some es \<Rightarrow> es) sets
      in case sc_store C (owner + 1) lg inds sc experts w of
           (Inl e, w) \<Rightarrow> (Inl e, w)
         | (Inr _, w) \<Rightarrow> stage_rows C rows sets (sc_note C owner cur w))"

definition stage_all ::
  "('w, 'a::field) stager_class \<Rightarrow> 'a hkernels \<Rightarrow> int list \<Rightarrow> ('w, 'a) stager \<Rightarrow>
     (int \<times> nat list) list res \<times> ('w, 'a) stager" where
  "stage_all C K owners S =
     (case collect_features C (sg_world S) owners of
        Inl e \<Rightarrow> (Inl e, S)
      | Inr fs \<Rightarrow>
          if fs = [] then (Inr [], S)
          else
            let metas = map fst fs; (w, S) = stacked_weights C metas S in
            (case res_bind (head_logits K w (map (sc_head C) metas) (map snd fs)) (\<lambda>lgs.
                    res_bind (res_map (sc_select C) lgs) (\<lambda>sels. Inr (zip lgs sels))) of
               Inl e \<Rightarrow> (Inl e, S)
             | Inr rows \<Rightarrow>
                 (case stage_rows C (map2 (\<lambda>(owner, m, cur, prev) (lg, sel). (owner, cur, lg, sel)) fs rows) [] (sg_world S) of
                    (Inl e, w) \<Rightarrow> (Inl e, S\<lparr>sg_world := w\<rparr>)
                  | (Inr sets, w) \<Rightarrow>
                      (Inr sets,
                       S\<lparr>sg_world := w,
                         sg_records := (if sc_streams C
                           then map_option (\<lambda>rs. rs @ map (\<lambda>owner. (sg_step S, owner + 1, the (map_of sets (owner + 1)))) metas)
                                  (sg_records S)
                           else sg_records S),
                         sg_step := Suc (sg_step S)\<rparr>))))"

section \<open>qwen: CrossTokenStager\<close>

text \<open>
  What the blocks' patched call captured (\<open>prerouter_m_in\<close>, \<open>prerouter_oh\<close>), the double buffer and the
  streaming layers that keep staged slots. \<open>bld\<close> and \<open>tm\<close> are the layers' builders and the pool's timing.
\<close>

record ('a, 'b) qworld =
  qw_state :: "'a pstate"
  qw_m_in :: "int \<Rightarrow> 'a list option"
  qw_oh :: "int \<Rightarrow> 'a list option"
  qw_layers :: "(int \<times> 'b slayer) list"

definition cross_features :: "nat \<Rightarrow> int \<Rightarrow> ('a::zero, 'b) qworld \<Rightarrow> ('a list \<times> 'a list \<times> 'a list) option res" where
  "cross_features num owner w =
     (case (qw_m_in w owner, qw_oh w owner) of
        (Some m_in, Some oh) \<Rightarrow>
          res_bind (py_at (ps_oh_prev (qw_state w)) owner) (\<lambda>prev.
            Inr (Some (m_in, oh, case prev of None \<Rightarrow> replicate num 0 | Some p \<Rightarrow> p)))
      | _ \<Rightarrow> Inr None)"

text \<open>\<open>exp.stage_experts(experts)\<close> for a consumer that is a streaming layer, when there is something to stage.\<close>

definition stage_layer ::
  "(int \<Rightarrow> nat \<Rightarrow> 'b res) \<Rightarrow> (int \<Rightarrow> timing \<times> timing) \<Rightarrow> int \<Rightarrow> nat list option \<Rightarrow> (int \<times> 'b slayer) list \<Rightarrow>
     unit res \<times> (int \<times> 'b slayer) list" where
  "stage_layer bld tm consumer experts layers =
     (case (map_of layers consumer, experts) of
        (Some L, Some (e # es)) \<Rightarrow>
          (case stage_experts (bld consumer) (tm consumer) (e # es) L of
             (r, L') \<Rightarrow> (r, AList.update consumer L' layers))
      | _ \<Rightarrow> (Inr (), layers))"

definition cross_store ::
  "(int \<Rightarrow> nat \<Rightarrow> 'b res) \<Rightarrow> (int \<Rightarrow> timing \<times> timing) \<Rightarrow> int \<Rightarrow> 'a list \<Rightarrow> nat list \<Rightarrow> 'a list \<Rightarrow> nat list option \<Rightarrow>
     ('a, 'b) qworld \<Rightarrow> unit res \<times> ('a, 'b) qworld" where
  "cross_store bld tm consumer lg inds sc experts w =
     (let st = qw_state w in
      case res_bind (py_put (ps_pred_inds st) consumer (Some inds)) (\<lambda>pi.
           res_bind (py_put (ps_pred_scores st) consumer (Some sc)) (\<lambda>pc.
           res_bind (py_put (ps_logits st) (consumer - 1) (Some lg)) (\<lambda>lo.
             Inr (st\<lparr>ps_pred_inds := pi, ps_pred_scores := pc, ps_logits := lo\<rparr>)))) of
        Inl e \<Rightarrow> (Inl e, w)
      | Inr st \<Rightarrow>
          (case stage_layer bld tm consumer experts (qw_layers w) of
             (r, ls) \<Rightarrow> (r, w\<lparr>qw_state := st, qw_layers := ls\<rparr>)))"

definition cross_class ::
  "'a::linordered_field rkernels \<Rightarrow> nat \<Rightarrow> nat \<Rightarrow> (int \<Rightarrow> nat \<Rightarrow> 'b res) \<Rightarrow> (int \<Rightarrow> timing \<times> timing) \<Rightarrow> (int \<Rightarrow> 'a head res) \<Rightarrow>
     bool \<Rightarrow> (('a, 'b) qworld, 'a) stager_class" where
  "cross_class R num k bld tm heads streams =
     \<lparr>sc_features = cross_features num, sc_select = (\<lambda>lg. select_from_logits R lg k True),
      sc_store = cross_store bld tm, sc_note = (\<lambda>owner cur w. w), sc_head = heads, sc_streams = streams\<rparr>"

section \<open>ling: LingPrerouterStager\<close>

text \<open>
  The captures of the vendored model (\<open>m_in_cache\<close> of the layer, one row per position; \<open>last_topk\<close> and
  \<open>prev_topk_oh\<close> of the block), the logits cached per consumer and the streaming layers.
\<close>

record ('a, 'b) lworld =
  lw_m_in :: "int \<Rightarrow> 'a list list option"
  lw_last_topk :: "int \<Rightarrow> nat list list option"
  lw_prev_oh :: "int \<Rightarrow> 'a list option"
  lw_pg_cache :: "(int \<times> 'a list) list"
  lw_layers :: "(int \<times> 'b slayer) list"

definition ling_features :: "nat \<Rightarrow> int \<Rightarrow> ('a::comm_semiring_1, 'b) lworld \<Rightarrow> ('a list \<times> 'a list \<times> 'a list) option res" where
  "ling_features num owner w =
     (case lw_m_in w owner of
        None \<Rightarrow> Inr None
      | Some m \<Rightarrow>
          if m = [] then Inl ValueError
          else
            let last_topk = lw_last_topk w owner;
                cur = topk_onehot_pos last_topk num (- 1);
                prev = (case lw_prev_oh w owner of None \<Rightarrow> topk_onehot_pos last_topk num (- 2) | Some p \<Rightarrow> Some p);
                or_zeros = (\<lambda>v. case v of None \<Rightarrow> replicate num 0 | Some v \<Rightarrow> v)
            in Inr (Some (last m, or_zeros cur, or_zeros prev)))"

text \<open>\<open>_select\<close>: the group law with the spec's groups (\<open>None - None\<close> raises) and \<open>routed_scaling or 1.0\<close>.\<close>

definition ling_select :: "real rkernels \<Rightarrow> moe_spec \<Rightarrow> nat \<Rightarrow> real list \<Rightarrow> (nat list \<times> real list) res" where
  "ling_select R sp k lg =
     (case (n_group sp, topk_group sp) of
        (Some g, Some tg) \<Rightarrow>
          group_select_from_logits R lg k g tg
            (case routed_scaling sp of None \<Rightarrow> 1 | Some s \<Rightarrow> if s = 0 then 1 else s) True None
      | _ \<Rightarrow> Inl TypeError)"

definition ling_store ::
  "(int \<Rightarrow> nat \<Rightarrow> 'b res) \<Rightarrow> (int \<Rightarrow> timing \<times> timing) \<Rightarrow> int \<Rightarrow> 'a list \<Rightarrow> nat list \<Rightarrow> 'a list \<Rightarrow> nat list option \<Rightarrow>
     ('a, 'b) lworld \<Rightarrow> unit res \<times> ('a, 'b) lworld" where
  "ling_store bld tm consumer lg inds sc experts w =
     (case stage_layer bld tm consumer experts (lw_layers w) of
        (r, ls) \<Rightarrow> (r, w\<lparr>lw_pg_cache := AList.update consumer lg (lw_pg_cache w), lw_layers := ls\<rparr>))"

definition ling_note :: "int \<Rightarrow> 'a list \<Rightarrow> ('a, 'b) lworld \<Rightarrow> ('a, 'b) lworld" where
  "ling_note owner cur w = w\<lparr>lw_prev_oh := (lw_prev_oh w)(owner := Some cur)\<rparr>"

definition ling_class ::
  "real rkernels \<Rightarrow> moe_spec \<Rightarrow> nat \<Rightarrow> (int \<Rightarrow> nat \<Rightarrow> 'b res) \<Rightarrow> (int \<Rightarrow> timing \<times> timing) \<Rightarrow> (int \<Rightarrow> real head res) \<Rightarrow> bool \<Rightarrow>
     ((real, 'b) lworld, real) stager_class" where
  "ling_class R sp k bld tm heads streams =
     \<lparr>sc_features = ling_features (num_experts sp), sc_select = ling_select R sp k, sc_store = ling_store bld tm,
      sc_note = ling_note, sc_head = heads, sc_streams = streams\<rparr>"

definition ling_stager_reset :: "((real, 'b) lworld, real) stager \<Rightarrow> ((real, 'b) lworld, real) stager" where
  "ling_stager_reset S = S\<lparr>sg_world := (sg_world S)\<lparr>lw_pg_cache := []\<rparr>, sg_step := 0\<rparr>"

section \<open>The shared pass\<close>

lemma collect_features_ok:
  "collect_features C w owners = Inr fs \<Longrightarrow>
     map fst fs = filter (\<lambda>owner. \<exists>f. sc_features C owner w = Inr (Some f)) owners \<and>
     (\<forall>(owner, f) \<in> set fs. sc_features C owner w = Inr (Some f))"
proof (induction owners arbitrary: fs)
  case (Cons owner os)
  then obtain f rest where "sc_features C owner w = Inr f" "collect_features C w os = Inr rest"
    "fs = (case f of None \<Rightarrow> rest | Some f \<Rightarrow> (owner, f) # rest)"
    by (auto simp: res_bind_def split: sum.splits)
  then show ?case using Cons.IH[of rest] by (cases f) auto
qed simp

text \<open>The cached stack is the stack of the owners it was made for.\<close>

definition stacked_ok :: "('w, 'a) stager_class \<Rightarrow> ('w, 'a) stager \<Rightarrow> bool" where
  "stacked_ok C S \<longleftrightarrow> (\<forall>metas. sg_key S = Some metas \<longrightarrow>
     sg_stacked S = (case res_map (sc_head C) metas of Inl _ \<Rightarrow> None | Inr hs \<Rightarrow> stack_heads hs))"

lemma stacked_ok_new: "stacked_ok C (stager_new batch w)"
  by (simp add: stacked_ok_def stager_new_def)

lemma stacked_weights_ok:
  assumes "stacked_ok C S" and "stacked_weights C metas S = (v, S')"
  shows "stacked_ok C S'" and "v = None \<or> v = (case res_map (sc_head C) metas of Inl _ \<Rightarrow> None | Inr hs \<Rightarrow> stack_heads hs)"
    and "sg_world S' = sg_world S" and "sg_step S' = sg_step S" and "sg_records S' = sg_records S"
  using assms by (auto simp: stacked_weights_def stacked_ok_def Let_def split: if_splits)

text \<open>The heads of a family: one shape, of the width of the features.\<close>

definition heads_fit ::
  "('w, 'a) stager_class \<Rightarrow> int list \<Rightarrow> (int \<Rightarrow> 'a head) \<Rightarrow> nat \<times> nat \<times> nat \<Rightarrow> nat \<times> nat \<Rightarrow> 'w \<Rightarrow> bool" where
  "heads_fit C owners H dims hn w \<longleftrightarrow>
     (case (dims, hn) of ((a, b, c), (hid, num)) \<Rightarrow>
        \<forall>owner \<in> set owners. sc_head C owner = Inr (H owner) \<and> head_ok (a + b + c) hid num (H owner) \<and>
          (\<forall>m co po. sc_features C owner w = Inr (Some (m, co, po)) \<longrightarrow> length m = a \<and> length co = b \<and> length po = c))"

text \<open>Whatever the batch mode and the cached stack, the pass computes each owner's own head.\<close>

lemma pass_logits:
  assumes st: "stacked_weights C (map fst fs) S = (v, S')" "stacked_ok C S" and ne: "fs \<noteq> []"
    and fit: "heads_fit C (map fst fs) H (a, b, c) (hid, num) w"
    and fs: "\<forall>(owner, f) \<in> set fs. sc_features C owner w = Inr (Some f)"
  shows "head_logits K v (map (sc_head C) (map fst fs)) (map snd fs) = res_map (\<lambda>(owner, f). head_call K (H owner) f) fs"
proof -
  have heads: "sc_head C (fst x) = Inr (H (fst x))" "head_ok (a + b + c) hid num (H (fst x))" if "x \<in> set fs" for x
    using fit that by (auto simp: heads_fit_def)
  let ?hs = "map (\<lambda>x. H (fst x)) fs"
  have eq: "map (sc_head C) (map fst fs) = map Inr ?hs" using heads(1) by simp
  have loop: "loop_logits K (map Inr ?hs) (map snd fs) = res_map (\<lambda>(owner, f). head_call K (H owner) f) fs"
    unfolding loop_logits_def by (rule res_map_eqI) (auto simp: split_beta)
  have "res_map (sc_head C) (map fst fs) = Inr ?hs"
    using heads(1) by (subst res_map_all_Inr[where g = "\<lambda>owner. H owner"]) auto
  then have v: "v = None \<or> v = stack_heads ?hs" using stacked_weights_ok(2)[OF st(2,1)] by simp
  have width: "length m = a \<and> length co = b \<and> length po = c" if "(m, co, po) \<in> set (map snd fs)" for m co po
    using fit fs that by (fastforce simp: heads_fit_def)
  have ok: "head_ok (a + b + c) hid num x" if "x \<in> set ?hs" for x using heads(2) that by auto
  obtain w' where w': "stack_heads ?hs = Some w'"
    "head_logits K (Some w') (map Inr ?hs) (map snd fs) = head_logits K None (map Inr ?hs) (map snd fs)"
    using heads_batch_same[of ?hs a b c hid num "map snd fs" K, OF _ ok _ width] ne by auto
  show ?thesis using v w' loop unfolding eq by (auto simp: head_logits_def)
qed

section \<open>The contract of a stager family\<close>

text \<open>
  What a family promises of its \<open>_store\<close> and \<open>_note\<close>: storing for a consumer makes that prediction
  visible to the consumer, submits its fill, and touches no other consumer; noting touches neither.
  \<open>seen\<close> is what the consumer reads on the next step and \<open>layer_at\<close> its streaming layer.
\<close>

locale stager_contract =
  fixes C :: "('w, 'a::field) stager_class"
    and seen :: "'w \<Rightarrow> int \<Rightarrow> 'p option"
    and sees :: "'a list \<Rightarrow> nat list \<Rightarrow> 'a list \<Rightarrow> 'p"
    and layer_at :: "'w \<Rightarrow> int \<Rightarrow> 'l option"
    and staged_by :: "int \<Rightarrow> nat list \<Rightarrow> 'l \<Rightarrow> 'l"
  assumes store_seen: "0 \<le> c \<Longrightarrow> sc_store C c lg inds sc ex w = (Inr (), w') \<Longrightarrow>
      seen w' d = (if d = c then Some (sees lg inds sc) else seen w d)"
    and store_layer: "0 \<le> c \<Longrightarrow> sc_store C c lg inds sc ex w = (Inr (), w') \<Longrightarrow>
      layer_at w' d = (case ex of Some (e # es) \<Rightarrow> if d = c then map_option (staged_by c (e # es)) (layer_at w d) else layer_at w d
                       | _ \<Rightarrow> layer_at w d)"
    and note_seen [simp]: "seen (sc_note C owner cur w) d = seen w d"
    and note_layer [simp]: "layer_at (sc_note C owner cur w) d = layer_at w d"
begin

definition staged_if :: "int \<Rightarrow> nat list \<Rightarrow> 'l option \<Rightarrow> 'l option" where
  "staged_if c inds l = (if sc_streams C \<and> inds \<noteq> [] then map_option (staged_by c (uniq inds)) l else l)"

lemma store_layer_if:
  assumes "0 \<le> c" and "sc_store C c lg inds sc (if sc_streams C then Some (uniq inds) else None) w = (Inr (), w')"
  shows "layer_at w' d = (if d = c then staged_if c inds (layer_at w d) else layer_at w d)"
proof (cases "uniq inds")
  case Nil
  then show ?thesis using store_layer[OF assms, of d] by (auto simp: staged_if_def split: if_splits)
next
  case (Cons e es)
  then have "inds \<noteq> []" by auto
  then show ?thesis using store_layer[OF assms, of d] Cons by (auto simp: staged_if_def)
qed

lemma stage_rows_result:
  "stage_rows C rows sets w = (Inr sets', w') \<Longrightarrow> \<forall>r \<in> set rows. 0 \<le> fst r \<Longrightarrow> distinct (map fst rows) \<Longrightarrow>
     (\<forall>(owner, cur, lg, inds, sc) \<in> set rows.
        seen w' (owner + 1) = Some (sees lg inds sc) \<and>
        layer_at w' (owner + 1) = staged_if (owner + 1) inds (layer_at w (owner + 1)) \<and>
        map_of sets' (owner + 1) = Some (if sc_streams C then uniq inds else [])) \<and>
     (\<forall>d. d - 1 \<notin> fst ` set rows \<longrightarrow> seen w' d = seen w d \<and> layer_at w' d = layer_at w d \<and> map_of sets' d = map_of sets d)"
proof (induction rows arbitrary: sets w)
  case (Cons r rows)
  obtain owner cur lg inds sc where r: "r = (owner, cur, lg, inds, sc)" by (metis prod_cases5)
  let ?ex = "if sc_streams C then Some (uniq inds) else None"
  let ?s = "AList.update (owner + 1) (if sc_streams C then uniq inds else []) sets"
  have own: "0 \<le> owner + 1" "owner \<notin> fst ` set rows" using Cons.prems(2,3) r by auto
  obtain w1 where st: "sc_store C (owner + 1) lg inds sc ?ex w = (Inr (), w1)"
    "stage_rows C rows ?s (sc_note C owner cur w1) = (Inr sets', w')"
    using Cons.prems(1) r by (auto simp: Let_def split: prod.splits sum.splits if_splits)
  note IH = Cons.IH[OF st(2)]
  have rest: "(\<forall>(owner, cur, lg, inds, sc) \<in> set rows.
        seen w' (owner + 1) = Some (sees lg inds sc) \<and>
        layer_at w' (owner + 1) = staged_if (owner + 1) inds (layer_at w1 (owner + 1)) \<and>
        map_of sets' (owner + 1) = Some (if sc_streams C then uniq inds else [])) \<and>
     (\<forall>d. d - 1 \<notin> fst ` set rows \<longrightarrow> seen w' d = seen w1 d \<and> layer_at w' d = layer_at w1 d \<and> map_of sets' d = map_of ?s d)"
    using IH Cons.prems(2,3) by simp
  have seen1: "seen w1 d = (if d = owner + 1 then Some (sees lg inds sc) else seen w d)" for d
    by (rule store_seen[OF own(1) st(1)])
  have layer1: "layer_at w1 d = (if d = owner + 1 then staged_if (owner + 1) inds (layer_at w d) else layer_at w d)" for d
    by (rule store_layer_if[OF own(1) st(1)])
  have here: "seen w' (owner + 1) = Some (sees lg inds sc) \<and>
      layer_at w' (owner + 1) = staged_if (owner + 1) inds (layer_at w (owner + 1)) \<and>
      map_of sets' (owner + 1) = Some (if sc_streams C then uniq inds else [])"
    using rest own(2) seen1[of "owner + 1"] layer1[of "owner + 1"] by simp
  show ?case using rest here own(2) by (force simp: r seen1 layer1)
qed simp


text \<open>The whole pass, owner by owner.\<close>

definition passed :: "'a hkernels \<Rightarrow> (int \<Rightarrow> 'a head) \<Rightarrow> 'w \<Rightarrow> 'w \<Rightarrow> (int \<times> nat list) list \<Rightarrow> int \<Rightarrow> 'a list \<times> 'a list \<times> 'a list \<Rightarrow> bool" where
  "passed K H w w' sets owner f \<longleftrightarrow>
     (\<exists>lg inds sc. head_call K (H owner) f = Inr lg \<and> sc_select C lg = Inr (inds, sc) \<and>
        seen w' (owner + 1) = Some (sees lg inds sc) \<and>
        layer_at w' (owner + 1) = staged_if (owner + 1) inds (layer_at w (owner + 1)) \<and>
        map_of sets (owner + 1) = Some (if sc_streams C then uniq inds else []))"

lemma stage_all_run:
  assumes run: "stage_all C K owners S = (Inr sets, S')" and ok: "stacked_ok C S"
    and fs: "collect_features C (sg_world S) owners = Inr fs" "fs \<noteq> []"
    and fit: "heads_fit C (map fst fs) H (a, b, c) (hid, num) (sg_world S)"
  obtains lgs sels where "stacked_ok C S'" "res_map (\<lambda>(owner, f). head_call K (H owner) f) fs = Inr lgs"
    "res_map (sc_select C) lgs = Inr sels"
    "stage_rows C (map2 (\<lambda>(owner, m, cur, prev) (lg, sel). (owner, cur, lg, sel)) fs (zip lgs sels)) [] (sg_world S)
       = (Inr sets, sg_world S')"
proof -
  obtain v S1 where st: "stacked_weights C (map fst fs) S = (v, S1)" by (cases "stacked_weights C (map fst fs) S")
  note w = stacked_weights_ok[OF ok st]
  note lg = pass_logits[OF st ok fs(2) fit, of K, OF collect_features_ok[OF fs(1), THEN conjunct2]]
  obtain rows where rows: "res_bind (res_map (\<lambda>(owner, f). head_call K (H owner) f) fs) (\<lambda>lgs.
        res_bind (res_map (sc_select C) lgs) (\<lambda>sels. Inr (zip lgs sels))) = Inr rows"
      "stage_rows C (map2 (\<lambda>(owner, m, cur, prev) (lg, sel). (owner, cur, lg, sel)) fs rows) [] (sg_world S) = (Inr sets, sg_world S')"
      "sg_key S' = sg_key S1" "sg_stacked S' = sg_stacked S1"
    using run fs st lg w(3) by (auto simp: stage_all_def Let_def split: sum.splits prod.splits)
  then obtain lgs sels where "res_map (\<lambda>(owner, f). head_call K (H owner) f) fs = Inr lgs"
      "res_map (sc_select C) lgs = Inr sels" "rows = zip lgs sels"
    by (auto simp: res_bind_def split: sum.splits)
  moreover have "stacked_ok C S'" using w(1) rows(3,4) by (simp add: stacked_ok_def)
  ultimately show thesis using that rows(2) by blast
qed

lemma stage_all_result:
  assumes run: "stage_all C K owners S = (Inr sets, S')" and ok: "stacked_ok C S"
    and fit: "heads_fit C owners H (a, b, c) (hid, num) (sg_world S)"
    and own: "distinct owners" "\<forall>owner \<in> set owners. 0 \<le> owner"
  shows "stacked_ok C S' \<and>
    (\<forall>owner \<in> set owners. \<forall>f. sc_features C owner (sg_world S) = Inr (Some f) \<longrightarrow>
       passed K H (sg_world S) (sg_world S') sets owner f) \<and>
    (\<forall>d. \<not> (d - 1 \<in> set owners \<and> (\<exists>f. sc_features C (d - 1) (sg_world S) = Inr (Some f))) \<longrightarrow>
       seen (sg_world S') d = seen (sg_world S) d \<and> layer_at (sg_world S') d = layer_at (sg_world S) d \<and> map_of sets d = None)"
proof -
  let ?w = "sg_world S"
  obtain fs where fs: "collect_features C ?w owners = Inr fs" using run by (auto simp: stage_all_def split: sum.splits)
  note cf = collect_features_ok[OF fs]
  have metas: "distinct (map fst fs)" "\<forall>owner \<in> set (map fst fs). 0 \<le> owner" "set (map fst fs) \<subseteq> set owners"
    unfolding cf[THEN conjunct1] using own by auto
  have mem: "owner \<in> set owners \<and> (\<exists>f. sc_features C owner ?w = Inr (Some f)) \<longleftrightarrow> owner \<in> fst ` set fs" for owner
    unfolding set_map[symmetric] cf[THEN conjunct1] by simp
  show ?thesis
  proof (cases "fs = []")
    case True
    then show ?thesis using run fs ok mem by (auto simp: stage_all_def)
  next
    case False
    have "heads_fit C (map fst fs) H (a, b, c) (hid, num) ?w" using fit metas(3) by (auto simp: heads_fit_def)
    from stage_all_run[OF run ok fs False this] obtain lgs sels where r: "stacked_ok C S'"
      "res_map (\<lambda>(owner, f). head_call K (H owner) f) fs = Inr lgs" "res_map (sc_select C) lgs = Inr sels"
      "stage_rows C (map2 (\<lambda>(owner, m, cur, prev) (lg, sel). (owner, cur, lg, sel)) fs (zip lgs sels)) [] ?w = (Inr sets, sg_world S')"
      by blast
    define rows where "rows = map2 (\<lambda>(owner, m, cur, prev) (lg, sel). (owner, cur, lg, sel)) fs (zip lgs sels)"
    have len: "length lgs = length fs" "length sels = length fs"
      using res_map_Inr_length[OF r(2)] res_map_Inr_length[OF r(3)] by simp_all
    have own_rows: "map fst rows = map fst fs"
      using len by (intro nth_equalityI) (auto simp: rows_def split_beta)
    have pos: "\<forall>x \<in> set rows. 0 \<le> fst x"
    proof
      fix x assume "x \<in> set rows"
      then have "fst x \<in> set (map fst rows)" by simp
      then show "0 \<le> fst x" using metas(2) unfolding own_rows by blast
    qed
    have rows_ok: "(\<forall>(owner, cur, lg, inds, sc) \<in> set rows.
        seen (sg_world S') (owner + 1) = Some (sees lg inds sc) \<and>
        layer_at (sg_world S') (owner + 1) = staged_if (owner + 1) inds (layer_at ?w (owner + 1)) \<and>
        map_of sets (owner + 1) = Some (if sc_streams C then uniq inds else [])) \<and>
      (\<forall>d. d - 1 \<notin> fst ` set rows \<longrightarrow> seen (sg_world S') d = seen ?w d \<and> layer_at (sg_world S') d = layer_at ?w d \<and>
        map_of sets d = map_of [] d)"
      by (rule stage_rows_result[OF r(4)[folded rows_def] pos]) (unfold own_rows, rule metas(1))
    have passed: "passed K H ?w (sg_world S') sets owner f" if "owner \<in> set owners" "sc_features C owner ?w = Inr (Some f)" for owner f
    proof -
      have "owner \<in> fst ` set fs" using mem that by blast
      then obtain i f' where i: "i < length fs" "fs ! i = (owner, f')" by (auto simp: in_set_conv_nth)
      then have "f' = f" using cf[THEN conjunct2] that(2) nth_mem[OF i(1)] by auto
      moreover obtain m cur prev where "f = (m, cur, prev)" by (metis prod_cases3)
      ultimately have fi: "fs ! i = (owner, m, cur, prev)" "f = (m, cur, prev)" using i by simp_all
      obtain inds sc where sel: "sels ! i = (inds, sc)" by (cases "sels ! i")
      have "rows ! i = (owner, cur, lgs ! i, inds, sc)" using i(1) len fi sel by (simp add: rows_def)
      then have "(owner, cur, lgs ! i, inds, sc) \<in> set rows" using i(1) len nth_mem[of i rows] by (simp add: rows_def)
      moreover have "head_call K (H owner) f = Inr (lgs ! i)" using res_map_nth[OF r(2) i(1)] fi by simp
      moreover have "sc_select C (lgs ! i) = Inr (inds, sc)" using res_map_nth[OF r(3), of i] i(1) len sel by simp
      ultimately show ?thesis using rows_ok unfolding passed_def by fastforce
    qed
    have "fst ` set rows = fst ` set fs" using own_rows by (metis set_map)
    then show ?thesis using r(1) passed rows_ok mem by auto
  qed
qed

end

section \<open>Both families keep the contract\<close>

definition layer_staged :: "(int \<Rightarrow> nat \<Rightarrow> 'b res) \<Rightarrow> (int \<Rightarrow> timing \<times> timing) \<Rightarrow> int \<Rightarrow> nat list \<Rightarrow> 'b slayer \<Rightarrow> 'b slayer" where
  "layer_staged bld tm c es L = snd (stage_experts (bld c) (tm c) es L)"

lemma stage_layer_at:
  "stage_layer bld tm c ex ls = (r, ls') \<Longrightarrow>
     map_of ls' d = (case ex of Some (e # es) \<Rightarrow> if d = c then map_option (layer_staged bld tm c (e # es)) (map_of ls d) else map_of ls d
                     | _ \<Rightarrow> map_of ls d)"
  by (auto simp: stage_layer_def layer_staged_def split: option.splits list.splits prod.splits)

text \<open>What the patched block of layer \<open>c\<close> reads: \<open>pred_inds[c]\<close> with \<open>pred_scores[c]\<close>.\<close>

definition cross_seen :: "('a, 'b) qworld \<Rightarrow> int \<Rightarrow> (nat list \<times> 'a list) option" where
  "cross_seen w c =
     (let st = qw_state w in
      if 0 \<le> c \<and> c < int (length (ps_pred_inds st)) \<and> c < int (length (ps_pred_scores st))
      then (case (ps_pred_inds st ! nat c, ps_pred_scores st ! nat c) of (Some i, Some sc) \<Rightarrow> Some (i, sc) | _ \<Rightarrow> None)
      else None)"

lemma py_put_ok: "0 \<le> i \<Longrightarrow> py_put xs i x = Inr ys \<longleftrightarrow> i < int (length xs) \<and> ys = xs[nat i := x]"
  by (auto simp: py_put_def py_pos_def Let_def)

lemma cross_store_state:
  assumes c: "0 \<le> c" and st: "cross_store bld tm c lg inds sc ex w = (Inr (), w')"
  shows "c < int (length (ps_pred_inds (qw_state w)))" and "c < int (length (ps_pred_scores (qw_state w)))"
    and "ps_pred_inds (qw_state w') = (ps_pred_inds (qw_state w))[nat c := Some inds]"
    and "ps_pred_scores (qw_state w') = (ps_pred_scores (qw_state w))[nat c := Some sc]"
    and "\<exists>r. stage_layer bld tm c ex (qw_layers w) = (r, qw_layers w')"
proof -
  obtain pi pc lo where puts: "py_put (ps_pred_inds (qw_state w)) c (Some inds) = Inr pi"
    "py_put (ps_pred_scores (qw_state w)) c (Some sc) = Inr pc" "py_put (ps_logits (qw_state w)) (c - 1) (Some lg) = Inr lo"
    using st by (cases "py_put (ps_pred_inds (qw_state w)) c (Some inds)"; cases "py_put (ps_pred_scores (qw_state w)) c (Some sc)";
        cases "py_put (ps_logits (qw_state w)) (c - 1) (Some lg)") (simp_all add: cross_store_def Let_def)
  then have run: "(case stage_layer bld tm c ex (qw_layers w) of (r, ls) \<Rightarrow>
      (r, w\<lparr>qw_state := (qw_state w)\<lparr>ps_pred_inds := pi, ps_pred_scores := pc, ps_logits := lo\<rparr>, qw_layers := ls\<rparr>)) = (Inr (), w')"
    using st by (simp add: cross_store_def Let_def)
  note put = puts(1,2)[unfolded py_put_ok[OF c]]
  show "c < int (length (ps_pred_inds (qw_state w)))" "c < int (length (ps_pred_scores (qw_state w)))"
    "ps_pred_inds (qw_state w') = (ps_pred_inds (qw_state w))[nat c := Some inds]"
    "ps_pred_scores (qw_state w') = (ps_pred_scores (qw_state w))[nat c := Some sc]"
    "\<exists>r. stage_layer bld tm c ex (qw_layers w) = (r, qw_layers w')"
    using put run by (auto split: prod.splits)
qed

lemma cross_store_seen:
  assumes "0 \<le> c" and "cross_store bld tm c lg inds sc ex w = (Inr (), w')"
  shows "cross_seen w' d = (if d = c then Some (inds, sc) else cross_seen w d)"
  using cross_store_state(1-4)[OF assms] assms(1) by (simp add: cross_seen_def Let_def nth_list_update nat_eq_iff)

interpretation cross: stager_contract "cross_class R num k bld tm heads streams" cross_seen "\<lambda>lg inds sc. (inds, sc)"
    "\<lambda>w. map_of (qw_layers w)" "layer_staged bld tm"
  for R :: "'a::linordered_field rkernels" and num k and bld :: "int \<Rightarrow> nat \<Rightarrow> 'b res" and tm heads streams
proof
  fix c d :: int and lg :: "'a list" and inds sc ex and w w' :: "('a, 'b) qworld"
  assume c: "0 \<le> c" and st: "sc_store (cross_class R num k bld tm heads streams) c lg inds sc ex w = (Inr (), w')"
  then have st': "cross_store bld tm c lg inds sc ex w = (Inr (), w')" by (simp add: cross_class_def)
  show "cross_seen w' d = (if d = c then Some (inds, sc) else cross_seen w d)"
    by (rule cross_store_seen[OF c st'])
  obtain r where "stage_layer bld tm c ex (qw_layers w) = (r, qw_layers w')" using cross_store_state(5)[OF c st'] by blast
  from stage_layer_at[OF this]
  show "map_of (qw_layers w') d = (case ex of Some (e # es) \<Rightarrow>
      if d = c then map_option (layer_staged bld tm c (e # es)) (map_of (qw_layers w) d) else map_of (qw_layers w) d
      | _ \<Rightarrow> map_of (qw_layers w) d)" .
qed (simp_all add: cross_class_def)

interpretation ling: stager_contract "ling_class R sp k bld tm heads streams" "\<lambda>w. map_of (lw_pg_cache w)" "\<lambda>lg inds sc. lg"
    "\<lambda>w. map_of (lw_layers w)" "layer_staged bld tm"
  for R sp k and bld :: "int \<Rightarrow> nat \<Rightarrow> 'b res" and tm heads streams
proof
  fix c d :: int and lg :: "real list" and inds sc ex and w w' :: "(real, 'b) lworld"
  assume "sc_store (ling_class R sp k bld tm heads streams) c lg inds sc ex w = (Inr (), w')"
  then have st: "ling_store bld tm c lg inds sc ex w = (Inr (), w')" by (simp add: ling_class_def)
  then show "map_of (lw_pg_cache w') d = (if d = c then Some lg else map_of (lw_pg_cache w) d)"
    by (auto simp: ling_store_def split: prod.splits)
  obtain r where "stage_layer bld tm c ex (lw_layers w) = (r, lw_layers w')"
    using st by (auto simp: ling_store_def split: prod.splits)
  from stage_layer_at[OF this]
  show "map_of (lw_layers w') d = (case ex of Some (e # es) \<Rightarrow>
      if d = c then map_option (layer_staged bld tm c (e # es)) (map_of (lw_layers w) d) else map_of (lw_layers w) d
      | _ \<Rightarrow> map_of (lw_layers w) d)" .
qed (simp_all add: ling_class_def ling_note_def)

end
