(* ===== verification/Zero_Drops.thy ===== *)
theory Zero_Drops
  imports Forward Stager
begin

text \<open>
  The composition that the engine relies on: the stager submits a set of experts for a consumer layer,
  the slots are filled (by the call itself in the synchronous modes that the presets select, by the pool
  during the rest of the step otherwise), and on the next step the consumer routes with the prediction
  that the set was made from. Here the staged set is the routing set, so nothing is dropped and the staged
  layer computes exactly what its resident twin computes.
\<close>

section \<open>One fill, from submission to promotion\<close>

definition idle :: "'b slayer \<Rightarrow> bool" where
  "idle L \<longleftrightarrow> s_mode L \<and> \<not> s_closed L \<and> s_future L = None \<and> s_rearm L = None \<and> s_pending L = None \<and>
     (\<forall>j \<in> fst ` set (s_jobs L). j < length (s_jobs L))"

text \<open>
  What is left to do once the submission has returned: in the asynchronous mode a pool thread runs the job
  in flight and its callback; a synchronous fill leaves nothing in flight and nothing happens.
\<close>

definition fill_lands :: "(nat \<Rightarrow> 'b res) \<Rightarrow> timing \<Rightarrow> 'b slayer \<Rightarrow> 'b slayer" where
  "fill_lands bld t L =
     (case s_future L of
        None \<Rightarrow> L
      | Some j \<Rightarrow> (let M = run_job bld j L in (on_stage_done bld t j M)\<lparr>s_callbacks := remove1 j (s_callbacks M)\<rparr>))"

lemma idle_submit:
  assumes i: "idle L" "\<not> s_sync L" and es: "es \<noteq> []"
  shows "stage_experts bld (t, Late) es L =
    (Inr (), L\<lparr>s_jobs := s_jobs L @ [(length (s_jobs L), uniq es, None)], s_future := Some (length (s_jobs L)),
               s_callbacks := s_callbacks L @ [length (s_jobs L)]\<rparr>)"
  using assms by (simp add: idle_def stage_experts_def submit_stage_def drain_rearm_def Let_def)

text \<open>The fields a fill may change, in any of the three modes: the set is filled and nothing is in flight.\<close>

definition filled_with :: "nat list \<Rightarrow> 'b list \<Rightarrow> 'b slayer \<Rightarrow> 'b slayer \<Rightarrow> bool" where
  "filled_with sel bs L N \<longleftrightarrow> (\<exists>c st js cs oc he rw tb u.
     N = L\<lparr>l_cache := c, s_sstats := st, s_jobs := js, s_callbacks := cs, s_occ := oc, s_held := he, s_rows := rw, s_table := tb,
           s_next := Some (bs, u, sel), s_future := None\<rparr>)"

lemma filled_withI:
  "N = L\<lparr>l_cache := c, s_sstats := st, s_jobs := js, s_callbacks := cs, s_occ := oc, s_held := he, s_rows := rw, s_table := tb,
        s_next := Some (bs, u, sel), s_future := None\<rparr> \<Longrightarrow> filled_with sel bs L N"
  unfolding filled_with_def by blast

lemma filled_fields:
  assumes "filled_with sel bs L N"
  shows "s_future N = None" "\<exists>u. s_next N = Some (bs, u, sel)" "s_rearm N = s_rearm L" "s_mode N = s_mode L" "l_num N = l_num L"
    "l_idx N = l_idx L" "s_zero N = s_zero L" "s_n N = s_n L" "s_trigger N = s_trigger L" "s_interval N = s_interval L"
    "s_replace N = s_replace L" "builds_all f N bld = builds_all f L bld" "futures_ok bld N = futures_ok bld L"
  using assms by (auto simp: filled_with_def builds_all_def futures_ok_def)

text \<open>The asynchronous mode.\<close>

lemma fill_lands_async:
  assumes ok: "stage_ok f L" and b: "builds_all f L bld" and es: "\<forall>e \<in> set es. e < l_num L" "es \<noteq> []"
    and i: "idle L" "\<not> s_sync L"
  shows "filled_with (staged_set (s_n L) es) (map (\<lambda>e. f (l_idx L, e)) (staged_set (s_n L) es)) L
      (fill_lands bld t (snd (stage_experts bld (u, Late) es L)))"
    and "stage_ok f (fill_lands bld t (snd (stage_experts bld (u, Late) es L)))"
proof -
  let ?j = "length (s_jobs L)"
  let ?L1 = "L\<lparr>s_jobs := s_jobs L @ [(?j, uniq es, None)], s_future := Some ?j, s_callbacks := s_callbacks L @ [?j]\<rparr>"
  have sub: "snd (stage_experts bld (u, Late) es L) = ?L1" using idle_submit[OF i es(2)] by simp
  have fresh: "map_of (s_jobs L) ?j = None" using i by (auto simp: idle_def map_of_eq_None_iff)
  have ok1: "stage_ok f ?L1" "same_slots L ?L1" using stage_experts_ok[OF ok b es(1), of "(u, Late)"] sub by simp_all
  have b1: "builds_all f ?L1 bld" using b by (simp add: builds_all_def)
  have es1: "\<forall>e \<in> set (uniq es). e < l_num ?L1" using es(1) by simp
  obtain c st t' where bs: "build_staged bld (uniq es) ?L1 =
      (Inr (map (\<lambda>e. f (l_idx L, e)) (staged_set (s_n L) es), t', staged_set (s_n L) es), ?L1\<lparr>l_cache := c, s_sstats := st\<rparr>)"
    using build_staged_ok[OF ok1(1) b1 es1] by (auto simp: staged_set_def)
  let ?fill = "(map (\<lambda>e. f (l_idx L, e)) (staged_set (s_n L) es), t', staged_set (s_n L) es)"
  have job: "job_of ?L1 ?j = Some (uniq es, None)" using fresh by (simp add: job_of_def map_add_def)
  have run: "run_job bld ?j ?L1 = ?L1\<lparr>l_cache := c, s_sstats := st,
      s_jobs := AList.update ?j (uniq es, Some (Inr ?fill)) (s_jobs ?L1)\<rparr>"
    using job bs by (simp add: run_job_def)
  have filled: "job_of (run_job bld ?j ?L1) ?j = Some (uniq es, Some (Inr ?fill))" by (simp add: run job_of_def)
  have lands: "fill_lands bld t ?L1 = (run_job bld ?j ?L1)\<lparr>s_next := Some ?fill, s_future := None,
      s_callbacks := remove1 ?j (s_callbacks (run_job bld ?j ?L1))\<rparr>"
    using i filled by (simp add: fill_lands_def on_stage_done_def Let_def run idle_def)
  show "filled_with (staged_set (s_n L) es) (map (\<lambda>e. f (l_idx L, e)) (staged_set (s_n L) es)) L
      (fill_lands bld t (snd (stage_experts bld (u, Late) es L)))"
    unfolding sub lands run
    by (rule filled_withI[where c = c and st = st and js = "AList.update ?j (uniq es, Some (Inr ?fill)) (s_jobs ?L1)"
          and cs = "remove1 ?j (s_callbacks ?L1)" and oc = "s_occ L" and he = "s_held L" and rw = "s_rows L" and tb = "s_table L" and u = t']) simp
  have "stage_ok f (run_job bld ?j ?L1)" "builds_all f (run_job bld ?j ?L1) bld"
    using run_job_ok[OF ok1(1) b1, of ?j] builds_all_same b1 by blast+
  then have "stage_ok f (on_stage_done bld t ?j (run_job bld ?j ?L1))" using on_stage_done_ok by blast
  then have "stage_ok f ((on_stage_done bld t ?j (run_job bld ?j ?L1))\<lparr>s_callbacks := remove1 ?j (s_callbacks (run_job bld ?j ?L1))\<rparr>)"
    by (simp add: stage_ok_def fill_ok_def job_ok_def incr_active_def)
  then show "stage_ok f (fill_lands bld t (snd (stage_experts bld (u, Late) es L)))"
    unfolding sub by (simp add: fill_lands_def Let_def)
qed

text \<open>What \<open>_stage_incr\<close> may change, whatever it returns.\<close>

lemma resolve_shape: "\<exists>c st. snd (resolve bld share e L) = L\<lparr>l_cache := c, s_sstats := st\<rparr>"
  by (intro exI[of _ "l_cache (snd (resolve bld share e L))"] exI[of _ "s_sstats (snd (resolve bld share e L))"])
    (auto simp: resolve_def stat_cache_def stat_build_def put_shared_def split: option.splits prod.splits sum.splits)

lemma incr_assign_shape: "\<exists>c st oc. snd (incr_assign bld new a L) = L\<lparr>l_cache := c, s_sstats := st, s_occ := oc\<rparr>"
proof (induction bld new a L rule: incr_assign.induct)
  case (3 bld e slot rest a L)
  obtain r M where r: "resolve bld (\<not> s_writeback L) e L = (r, M)" by fastforce
  obtain c st where M: "M = L\<lparr>l_cache := c, s_sstats := st\<rparr>" using resolve_shape[of bld "\<not> s_writeback L" e L] r by auto
  show ?case
  proof (cases r)
    case (Inl err)
    then have "snd (incr_assign bld ((e, Some slot) # rest) a L) = L\<lparr>l_cache := c, s_sstats := st, s_occ := s_occ L\<rparr>"
      using r M by simp
    then show ?thesis by blast
  next
    case (Inr b)
    show ?thesis
    proof (cases "e < length (a_slots a)")
      case True
      from 3[OF r[symmetric] Inr refl True] show ?thesis using r Inr M True by (auto simp: Let_def)
    next
      case False
      then have "snd (incr_assign bld ((e, Some slot) # rest) a L) = L\<lparr>l_cache := c, s_sstats := st, s_occ := (s_occ L)[slot := Some e]\<rparr>"
        using r Inr M by (simp add: Let_def)
      then show ?thesis by blast
    qed
  qed
next
  case (1 bld a L)
  then show ?case by (intro exI[of _ "l_cache L"] exI[of _ "s_sstats L"] exI[of _ "s_occ L"]) simp
qed simp

lemma put_fold_shape: "\<exists>c. fold (\<lambda>(e, b). put_shared e b) ev L = L\<lparr>l_cache := c\<rparr>"
proof (induction ev arbitrary: L)
  case Nil
  then show ?case by (intro exI[of _ "l_cache L"]) simp
next
  case (Cons x ev)
  from Cons[of "put_shared (fst x) (snd x) L"] show ?case by (auto simp: put_shared_def split_beta)
qed

definition incr_changes :: "'b slayer \<Rightarrow> 'b slayer \<Rightarrow> bool" where
  "incr_changes L N \<longleftrightarrow> N\<lparr>l_cache := l_cache L, s_sstats := s_sstats L, s_occ := s_occ L, s_held := s_held L, s_rows := s_rows L,
     s_table := s_table L\<rparr> = L"

lemma incr_changes_trans: "incr_changes L M \<Longrightarrow> incr_changes M N \<Longrightarrow> incr_changes L N"
  by (cases L; cases M; cases N) (simp add: incr_changes_def)

lemma incr_changes_shape:
  "incr_changes L N \<Longrightarrow> N = L\<lparr>l_cache := l_cache N, s_sstats := s_sstats N, s_occ := s_occ N, s_held := s_held N, s_rows := s_rows N,
     s_table := s_table N\<rparr>"
  by (cases L; cases N) (simp add: incr_changes_def)

lemma stage_incr_changes: "incr_changes L (snd (stage_incr bld es L))"
proof -
  have alloc: "incr_changes L ((incr_alloc L)\<lparr>s_occ := oc\<rparr>)" for oc
    by (simp add: incr_changes_def incr_alloc_def split: option.split)
  have assign: "incr_changes M N" if "incr_assign bld new a M = (r, N)" for new a r M N
    using incr_assign_shape[of bld new a M] that by (auto simp: incr_changes_def)
  have put: "incr_changes M (if b then fold (\<lambda>(e, b). put_shared e b) ev M else M)" for M :: "'a slayer" and b ev
    using put_fold_shape[of ev M] by (auto simp: incr_changes_def)
  have upd: "incr_changes M (M\<lparr>s_held := he, s_rows := rw, s_table := tb, s_sstats := st\<rparr>)" for M :: "'a slayer" and he rw tb st
    by (simp add: incr_changes_def)
  let ?A = "\<lambda>oc. (incr_alloc L)\<lparr>s_occ := oc\<rparr>"
  have done': "incr_changes L N" if "incr_assign bld new a (?A oc) = (r, N)" for new a r oc N
    by (rule incr_changes_trans[OF alloc assign[OF that]])
  have all: "incr_changes L ((if b then fold (\<lambda>(e, b). put_shared e b) ev N else N)\<lparr>s_held := he, s_rows := rw, s_table := tb, s_sstats := st\<rparr>)"
    if "incr_assign bld new a (?A oc) = (r, N)" for new a r oc N b ev he rw tb st
    by (rule incr_changes_trans[OF incr_changes_trans[OF done'[OF that] put] upd])
  show ?thesis
    unfolding stage_incr_def Let_def
    by (simp only: split: sum.split prod.split) (intro conjI allI impI, simp_all only: snd_conv alloc done' all)
qed

text \<open>The fill of a step, in every mode; the timing of the submission matters only to the asynchronous one.\<close>

lemma fill_lands_next:
  assumes ok: "stage_ok f L" and b: "builds_all f L bld" and es: "\<forall>e \<in> set es. e < l_num L" "es \<noteq> []" and i: "idle L"
    and v: "s_sync L \<or> v = Late"
  shows "filled_with (staged_set (s_n L) es) (map (\<lambda>e. f (l_idx L, e)) (staged_set (s_n L) es)) L
      (fill_lands bld t (snd (stage_experts bld (u, v) es L)))"
    and "stage_ok f (fill_lands bld t (snd (stage_experts bld (u, v) es L)))"
proof -
  have u: "staged_set n (uniq es) = staged_set n es" for n by (simp add: staged_set_def)
  have ne: "uniq es \<noteq> []" "\<forall>e \<in> set (uniq es). e < l_num L" using es by simp_all
  have drain: "drain_rearm bld x L = L" "s_future L = None" "s_mode L" for x using i by (simp_all add: idle_def drain_rearm_def)
  have "filled_with (staged_set (s_n L) es) (map (\<lambda>e. f (l_idx L, e)) (staged_set (s_n L) es)) L
        (fill_lands bld t (snd (stage_experts bld (u, v) es L))) \<and>
      stage_ok f (fill_lands bld t (snd (stage_experts bld (u, v) es L)))"
  proof (cases "s_sync L")
    case False
    then show ?thesis using fill_lands_async[OF ok b es i] v by simp
  next
    case True
    obtain N slots where N: "snd (stage_experts bld (u, v) es L) =
        N\<lparr>s_next := Some (map (\<lambda>e. f (l_idx L, e)) (staged_set (s_n L) es), slots, staged_set (s_n L) es)\<rparr>" "incr_changes L N"
    proof (cases "s_incr L")
      case True
      have lok: "incr_ok f L" "layer_ok f L" using ok by (simp_all add: stage_ok_def)
      obtain N where N: "stage_incr bld (uniq es) L = (Inr (map (\<lambda>e. f (l_idx L, e)) (staged_set (s_n L) es), s_table N, staged_set (s_n L) es), N)"
        using stage_incr_run[OF lok b ne(2)] unfolding u by blast
      have ch: "incr_changes L N" using stage_incr_changes[of L bld "uniq es"] N by simp
      have "snd (stage_experts bld (u, v) es L) =
          N\<lparr>s_next := Some (map (\<lambda>e. f (l_idx L, e)) (staged_set (s_n L) es), s_table N, staged_set (s_n L) es)\<rparr>"
        using ne(1) True \<open>s_sync L\<close> drain by (simp add: stage_experts_def Let_def N)
      then show ?thesis using ch by (rule that)
    next
      case False
      obtain c st t' where B: "build_staged bld (uniq es) L = (Inr (map (\<lambda>e. f (l_idx L, e)) (staged_set (s_n L) es), t', staged_set (s_n L) es),
          L\<lparr>l_cache := c, s_sstats := st\<rparr>)"
        using build_staged_ok[OF ok b ne(2)] unfolding u by blast
      have ch: "incr_changes L (L\<lparr>l_cache := c, s_sstats := st\<rparr>)" by (simp add: incr_changes_def)
      have "snd (stage_experts bld (u, v) es L) = L\<lparr>l_cache := c, s_sstats := st,
          s_next := Some (map (\<lambda>e. f (l_idx L, e)) (staged_set (s_n L) es), t', staged_set (s_n L) es)\<rparr>"
        using ne(1) False \<open>s_sync L\<close> drain by (simp add: stage_experts_def Let_def B)
      then show ?thesis using ch by (rule that)
    qed
    let ?M = "snd (stage_experts bld (u, v) es L)"
    obtain c st oc he rw tb where sh: "N = L\<lparr>l_cache := c, s_sstats := st, s_occ := oc, s_held := he, s_rows := rw, s_table := tb\<rparr>"
      using incr_changes_shape[OF N(2)] by metis
    have M: "?M = L\<lparr>l_cache := c, s_sstats := st, s_jobs := s_jobs L, s_callbacks := s_callbacks L, s_occ := oc, s_held := he, s_rows := rw,
        s_table := tb, s_next := Some (map (\<lambda>e. f (l_idx L, e)) (staged_set (s_n L) es), slots, staged_set (s_n L) es), s_future := None\<rparr>"
      unfolding N(1) sh using drain(2) by simp
    have "fill_lands bld t ?M = ?M" unfolding fill_lands_def M by simp
    moreover have "stage_ok f ?M" using stage_experts_ok[OF ok b es(1)] by blast
    ultimately show ?thesis using filled_withI[OF M] by simp
  qed
  then show "filled_with (staged_set (s_n L) es) (map (\<lambda>e. f (l_idx L, e)) (staged_set (s_n L) es)) L
      (fill_lands bld t (snd (stage_experts bld (u, v) es L)))"
    "stage_ok f (fill_lands bld t (snd (stage_experts bld (u, v) es L)))" by blast+
qed

section \<open>The step that consumes it\<close>

text \<open>
  With a fill ready and every routed expert in it, the staged path is taken: the result is exact and the
  set used is the staged one.
\<close>

lemma forward_ready:
  assumes K: "kernels_ok K" "zero_spec K (s_zero L)" and ok: "stage_ok f L" "builds_all f L bld" "futures_ok bld L"
    and pins: "pins_ok (l_num L) pins" "s_interval L \<noteq> 0"
    and inds: "length xs = length inds" "\<forall>e \<in> set (concat inds). e < l_num L" "length (concat inds) \<le> 8"
    and st: "s_mode L" "int (length (concat inds)) = s_trigger L" "s_future L = None" "s_rearm L = None"
    and nx: "s_next L = Some (bs, slot_of, sel)" and sub: "set (concat inds) \<subseteq> set sel"
  shows "\<exists>L'. forward K fused bld pins t xs (Some inds) L =
      Some (Inr (moe_reference K fused (\<lambda>e. f (l_idx L, e)) xs inds), L') \<and>
    s_at_use L' = Some sel \<and> s_indices L' = Some (concat inds) \<and>
    n_staged_dropped (s_sstats L') = n_staged_dropped (s_sstats L)"
proof -
  obtain M where M: "started (Some inds) L M" "stage_ok f M" "builds_all f M bld"
    "forward K fused bld pins t xs (Some inds) L = fwd_paths K fused bld t xs (Some inds) M"
    using forward_start[OF ok(1,2) pins] by blast
  have fM: "s_mode M = s_mode L" "s_trigger M = s_trigger L" "s_future M = None" "s_rearm M = None" "s_next M = s_next L"
    "s_incr M = s_incr L" "s_indices M = Some (concat inds)" "s_sstats M = s_sstats L"
    using M(1) st by (auto simp: started_def)
  have w: "wait_staged bld t M = Some (promote M)" by (simp add: wait_staged_def drain_rearm_def fM Let_def)
  have "s_incr M \<Longrightarrow> s_rows M \<noteq> None" using M(2) fM nx by (simp add: stage_ok_def incr_active_def)
  then obtain rows tbl where stk: "staged_stack (promote M) = Some (rows, tbl, sel)"
    using fM nx by (cases "s_incr M") (auto simp: staged_stack_def promote_def)
  have "fwd_paths K fused bld t xs (Some inds) M
      = Some (fwd_staged K fused (rows, tbl, sel) xs inds (promote M))"
    using inds(3) w stk st(1,2) by (auto simp: fwd_paths_def fwd_tail_def fM split: option.splits)
  then obtain r where run: "forward K fused bld pins t xs (Some inds) L =
      Some (Inr r, stat_used (length (concat inds)) ((promote M)\<lparr>s_at_use := Some sel\<rparr>))" (is "_ = Some (_, ?L')")
    unfolding M(4) by (simp add: fwd_staged_def)
  have use: "s_at_use ?L' = Some sel" "s_indices ?L' = Some (concat inds)"
    "n_staged_dropped (s_sstats ?L') = n_staged_dropped (s_sstats L)"
    using fM nx by (simp_all add: stat_used_def promote_def)
  have "\<exists>r L'. forward K fused bld pins t xs (Some inds) L = Some (Inr r, L') \<and>
    (case s_at_use L' of
       None \<Rightarrow> r = moe_reference K fused (\<lambda>e. f (l_idx L, e)) xs inds
     | Some sel \<Rightarrow>
         r = map2 (\<lambda>x e. if e \<in> set sel then expert_out K fused (f (l_idx L, e)) x else k_zeros K) (spread xs inds) (concat inds) \<and>
         (set (concat inds) \<subseteq> set sel \<longrightarrow> r = moe_reference K fused (\<lambda>e. f (l_idx L, e)) xs inds))"
    by (rule forward_staged[OF K ok pins inds(1,2) disjI1[OF inds(3)] st(1-4)])
  then have "r = moe_reference K fused (\<lambda>e. f (l_idx L, e)) xs inds" using run use(1) sub by auto
  then show ?thesis using run use by blast
qed

lemma staged_set_all: "length (uniq es) \<le> n \<Longrightarrow> staged_set n es = uniq es"
  by (simp add: staged_set_def)

lemma sync_no_drop:
  assumes "s_at_use L = Some sel" and "s_indices L = Some flat" and "set flat \<subseteq> set sel"
  shows "n_staged_dropped (s_sstats (sync_actuals L)) = n_staged_dropped (s_sstats L)"
proof -
  have touch: "s_sstats (fold touch_hot es M) = s_sstats M" "s_at_use (fold touch_hot es M) = s_at_use M" for es and M :: "'b slayer"
    by (induction es arbitrary: M) (simp_all add: touch_hot_def)
  have used: "s_sstats (promote_used es smap M) = s_sstats M" for es smap and M :: "'b slayer"
    by (induction es smap M rule: promote_used.induct) (auto simp: put_shared_def split: option.splits)
  have "filter (\<lambda>e. e \<notin> set sel) (uniq flat) = []" using assms(3) by (auto simp: filter_empty_conv)
  then show ?thesis using assms(1,2)
    by (auto simp: sync_actuals_def Let_def count_dropped_def touch used split: option.splits)
qed

lemma no_drops_step:
  assumes K: "kernels_ok K" "zero_spec K (s_zero L)" and ok: "stage_ok f L" "builds_all f L bld" "futures_ok bld L"
    and pins: "pins_ok (l_num L) pins" "s_interval L \<noteq> 0" and idle: "idle L" and v: "s_sync L \<or> v = Late"
    and pred: "pred \<noteq> []" "\<forall>e \<in> set pred. e < l_num L" "length pred \<le> 8" "length (uniq pred) \<le> s_n L"
      "int (length pred) = s_trigger L"
  shows "\<exists>L2 L'. L2 = fill_lands bld u (snd (stage_experts bld (u, v) (uniq pred) L)) \<and>
    forward K fused bld pins t [x] (Some [pred]) L2 = Some (Inr (moe_reference K fused (\<lambda>e. f (l_idx L, e)) [x] [pred]), L') \<and>
    s_at_use L' = Some (uniq pred) \<and> s_indices L' = Some pred \<and>
    n_staged_dropped (s_sstats (sync_actuals L')) = n_staged_dropped (s_sstats L2)"
proof -
  let ?L2 = "fill_lands bld u (snd (stage_experts bld (u, v) (uniq pred) L))"
  have ne: "uniq pred \<noteq> []" "\<forall>e \<in> set (uniq pred). e < l_num L" using pred(1,2) by simp_all
  have L2: "filled_with (uniq pred) (map (\<lambda>e. f (l_idx L, e)) (uniq pred)) L ?L2"
    using fill_lands_next(1)[OF ok(1,2) ne(2,1) idle v, of u u] pred(4) by (simp add: staged_set_all)
  note F = filled_fields[OF L2]
  have ok2: "stage_ok f ?L2" by (rule fill_lands_next(2)[OF ok(1,2) ne(2,1) idle v])
  obtain so where nx: "s_next ?L2 = Some (map (\<lambda>e. f (l_idx L, e)) (uniq pred), so, uniq pred)" using F(2) by blast
  have "\<exists>L'. forward K fused bld pins t [x] (Some [pred]) ?L2 =
      Some (Inr (moe_reference K fused (\<lambda>e. f (l_idx ?L2, e)) [x] [pred]), L') \<and>
    s_at_use L' = Some (uniq pred) \<and> s_indices L' = Some (concat [pred]) \<and>
    n_staged_dropped (s_sstats L') = n_staged_dropped (s_sstats ?L2)"
    by (rule forward_ready[OF _ _ ok2 _ _ _ _ _ _ _ _ _ _ _ nx])
      (use K pins pred idle ok(2,3) in \<open>simp_all add: F idle_def\<close>)
  then obtain L' where L': "forward K fused bld pins t [x] (Some [pred]) ?L2 =
      Some (Inr (moe_reference K fused (\<lambda>e. f (l_idx L, e)) [x] [pred]), L')"
    "s_at_use L' = Some (uniq pred)" "s_indices L' = Some pred" "n_staged_dropped (s_sstats L') = n_staged_dropped (s_sstats ?L2)"
    by (auto simp: F)
  have "n_staged_dropped (s_sstats (sync_actuals L')) = n_staged_dropped (s_sstats ?L2)"
    using sync_no_drop[OF L'(2,3)] L'(4) by simp
  then show ?thesis using L'(1,2,3) by blast
qed

text \<open>
  C24: staged set = routing set. Let a layer be idle, and let the step boundary submit the experts of a
  prediction of the trigger's length (at most eight, and no more than there are slots) for it. In the
  synchronous modes, incremental or not, the slots are filled when the call returns; in the asynchronous
  one the pool has run the fill and its callback, after the submission. Then the next decode step routed by
  that prediction returns exactly what the routed experts compute, records that prediction as its routing,
  uses exactly the predicted set, and recording its actual experts counts no dropped expert.
\<close>
theorem staged_prediction_no_drops:
  assumes K: "kernels_ok K" "zero_spec K (s_zero L)" and ok: "stage_ok f L" "builds_all f L bld" "futures_ok bld L"
    and pins: "pins_ok (l_num L) pins" "s_interval L \<noteq> 0" and idle: "idle L" and v: "s_sync L \<or> v = Late"
    and pred: "pred \<noteq> []" "\<forall>e \<in> set pred. e < l_num L" "length pred \<le> 8" "length (uniq pred) \<le> s_n L"
      "int (length pred) = s_trigger L"
  shows "\<exists>L2 L'. L2 = fill_lands bld u (snd (stage_experts bld (u, v) (uniq pred) L)) \<and>
    forward K fused bld pins t [x] (Some [pred]) L2 = Some (Inr (moe_reference K fused (\<lambda>e. f (l_idx L, e)) [x] [pred]), L') \<and>
    s_at_use L' = Some (uniq pred) \<and> s_indices L' = Some pred \<and>
    n_staged_dropped (s_sstats (sync_actuals L')) = n_staged_dropped (s_sstats L2)"
  using assms by (rule no_drops_step)

definition demo_pool :: "bmap slayer" where
  "demo_pool = slayer_new (\<lambda>key. None) (default_options\<lparr>staged := True, staged_n := 3, staged_trigger := 2, staged_sync := False\<rparr>)
     (layer_new 3 6 default_options None None)"

lemma demo_pool_fields:
  "l_num demo_pool = 6" "l_idx demo_pool = 3" "s_zero demo_pool = (\<lambda>key. None)" "s_interval demo_pool = 4"
  "s_trigger demo_pool = 2" "s_n demo_pool = 3" "idle demo_pool" "l_inflight demo_pool = []"
  by (simp_all add: demo_pool_def slayer_new_def Let_def layer.defs layer_new_def default_options_def idle_def)

lemma demo_pool_ok:
  "stage_ok demo_f demo_pool" "builds_all demo_f demo_pool (\<lambda>e. Inr (demo_f (3, e)))"
  "futures_ok (\<lambda>e. Inr (demo_f (3, e))) demo_pool" "pins_ok 6 ([], id)"
proof -
  show "stage_ok demo_f demo_pool" unfolding demo_pool_def
    by (rule stage_ok_new, rule layer_ok_new) simp_all
qed (simp_all add: builds_all_def demo_pool_fields futures_ok_def pins_ok_def)

lemma staged_prediction_no_drops_witness:
  "\<exists>L2 L'. L2 = fill_lands (\<lambda>e. Inr (demo_f (3, e))) Late
        (snd (stage_experts (\<lambda>e. Inr (demo_f (3, e))) (Late, Late) (uniq [4, 1]) demo_pool)) \<and>
    forward demo_kernels False (\<lambda>e. Inr (demo_f (3, e))) ([], id) Late [5] (Some [[4, 1]]) L2 =
      Some (Inr (moe_reference demo_kernels False (\<lambda>e. demo_f (3, e)) [5] [[4, 1]]), L') \<and>
    s_at_use L' = Some (uniq [4, 1]) \<and> n_staged_dropped (s_sstats (sync_actuals L')) = n_staged_dropped (s_sstats L2)"
  using staged_prediction_no_drops[OF demo_kernels_ok(1) _ demo_pool_ok(1-3), of "([], id)" Late "[4, 1]" Late False Late 5]
    demo_pool_ok(4) demo_kernels_ok(2)
  by (auto simp: demo_pool_fields uniq_def)

section \<open>The two stagers, consumer by consumer\<close>

text \<open>
  C23: the qwen step boundary. When the pass returns, every owner with captured features has had its own
  head run on them; its consumer's prediction is the softmax selection of those logits, and the consumer's
  streaming layer was asked to stage exactly that selection's experts. No other prediction and no other
  layer changed.
\<close>
theorem cross_stage_all_routes:
  fixes R :: "'a::linordered_field rkernels" and bld :: "int \<Rightarrow> nat \<Rightarrow> 'b res"
  assumes C: "C = cross_class R num k bld tm heads True" and run: "stage_all C K owners S = (Inr sets, S')" and ok: "stacked_ok C S"
    and fit: "heads_fit C owners H (a, b, c) (hid, n) (sg_world S)"
    and own: "distinct owners" "\<forall>owner \<in> set owners. 0 \<le> owner"
  shows "(\<forall>owner \<in> set owners. \<forall>f. cross_features num owner (sg_world S) = Inr (Some f) \<longrightarrow>
      (\<exists>lg inds sc. head_call K (H owner) f = Inr lg \<and> select_from_logits R lg k True = Inr (inds, sc) \<and>
         cross_seen (sg_world S') (owner + 1) = Some (inds, sc) \<and> map_of sets (owner + 1) = Some (uniq inds) \<and>
         map_of (qw_layers (sg_world S')) (owner + 1) =
           (if inds \<noteq> [] then map_option (layer_staged bld tm (owner + 1) (uniq inds)) (map_of (qw_layers (sg_world S)) (owner + 1))
            else map_of (qw_layers (sg_world S)) (owner + 1)))) \<and>
    (\<forall>d. \<not> (d - 1 \<in> set owners \<and> (\<exists>f. cross_features num (d - 1) (sg_world S) = Inr (Some f))) \<longrightarrow>
       cross_seen (sg_world S') d = cross_seen (sg_world S) d \<and>
       map_of (qw_layers (sg_world S')) d = map_of (qw_layers (sg_world S)) d)"
proof -
  have sc: "sc_features C = cross_features num" "sc_select C = (\<lambda>lg. select_from_logits R lg k True)" "sc_streams C = True"
    by (simp_all add: C cross_class_def)
  note pass = cross.stage_all_result[OF run[unfolded C] ok[unfolded C] fit[unfolded C] own,
      unfolded cross.passed_def cross.staged_if_def, folded C, unfolded sc simp_thms if_True]
  show ?thesis using pass by blast
qed

definition demo_qworld :: "(rat, nat) qworld" where
  "demo_qworld = \<lparr>qw_state = pstate_new 3 2 1 None, qw_m_in = (\<lambda>owner. if owner = 0 then Some [1] else None),
     qw_oh = (\<lambda>owner. if owner = 0 then Some [0, 1] else None), qw_layers = [(1, demo_async)]\<rparr>"

definition demo_qhead :: "rat head" where
  "demo_qhead = \<lparr>hd_fc1 = [[1, 0, 0, 1, 0]], hd_fc2 = [[0], [1]], hd_linear_init = [[3, 1, 0, 0, 0], [1, 0, 2, 0, 0]]\<rparr>"

definition demo_cross :: "((rat, nat) qworld, rat) stager_class" where
  "demo_cross = cross_class demo_rk 2 1 (\<lambda>c. demo_bld) (\<lambda>c. (Late, Late)) (\<lambda>owner. Inr demo_qhead) True"

definition demo_stager :: "((rat, nat) qworld, rat) stager" where
  "demo_stager = stager_new True demo_qworld"

lemma demo_stager_ok: "stacked_ok demo_cross demo_stager"
  unfolding demo_stager_def by (rule stacked_ok_new)

lemma demo_cross_fit: "heads_fit demo_cross [0, 1] (\<lambda>owner. demo_qhead) (1, 2, 2) (1, 2) (sg_world demo_stager)"
  by (auto simp: heads_fit_def demo_cross_def cross_class_def head_ok_def matrix_ok_def demo_qhead_def cross_features_def
      demo_qworld_def demo_stager_def stager_new_def pstate_new_def nones_def py_at_def py_pos_def Let_def split: if_splits)

lemma demo_cross_run: "fst (stage_all demo_cross demo_hk [0, 1] demo_stager) = Inr [(1, [1])]"
  by code_simp

lemma cross_stage_all_routes_witness:
  "\<exists>lg inds sc. head_call demo_hk demo_qhead ([1], [0, 1], [0, 0]) = Inr lg \<and> select_from_logits demo_rk lg 1 True = Inr (inds, sc) \<and>
     cross_seen (sg_world (snd (stage_all demo_cross demo_hk [0, 1] demo_stager))) 1 = Some (inds, sc) \<and> uniq inds = [1] \<and>
     map_of (qw_layers (sg_world (snd (stage_all demo_cross demo_hk [0, 1] demo_stager)))) 1 =
       Some (layer_staged (\<lambda>c. demo_bld) (\<lambda>c. (Late, Late)) 1 [1] demo_async)"
proof -
  let ?r = "stage_all demo_cross demo_hk [0, 1] demo_stager"
  have run: "?r = (Inr [(1, [1])], snd ?r)" using demo_cross_run by (metis prod.collapse)
  have f: "cross_features 2 0 (sg_world demo_stager) = Inr (Some ([1], [0, 1], [0, 0]))" by code_simp
  have layer: "map_of (qw_layers (sg_world demo_stager)) 1 = Some demo_async"
    by (simp add: demo_stager_def stager_new_def demo_qworld_def)
  have own: "distinct [0, 1::int]" "\<forall>owner \<in> set [0, 1::int]. 0 \<le> owner" "0 \<in> set [0, 1::int]" by simp_all
  note routes = cross_stage_all_routes[OF demo_cross_def run demo_stager_ok demo_cross_fit own(1,2)]
  obtain lg inds sc where w: "head_call demo_hk demo_qhead ([1], [0, 1], [0, 0]) = Inr lg" "select_from_logits demo_rk lg 1 True = Inr (inds, sc)"
    "cross_seen (sg_world (snd ?r)) (0 + 1) = Some (inds, sc)" "map_of [(1, [1])] (0 + 1 :: int) = Some (uniq inds)"
    "map_of (qw_layers (sg_world (snd ?r))) (0 + 1) =
       (if inds \<noteq> [] then map_option (layer_staged (\<lambda>c. demo_bld) (\<lambda>c. (Late, Late)) (0 + 1) (uniq inds)) (map_of (qw_layers (sg_world demo_stager)) (0 + 1))
        else map_of (qw_layers (sg_world demo_stager)) (0 + 1))"
    using routes[THEN conjunct1, rule_format, OF own(3) f] by blast
  have "inds \<noteq> []" using w(4) by auto
  then show ?thesis using w layer by auto
qed

end
