(* ===== verification/Moe_Blocks.thy ===== *)
theory Moe_Blocks
  imports Zero_Drops
begin

text \<open>
  The MoE blocks that call the streaming layers: the router path of qwen
  (\<open>Qwen3NextSparseMoeBlock.__call__\<close>), the prerouter path patched over it (\<open>prerouter_call\<close> of
  \<open>prerouter/install.py\<close>) and ling's \<open>BailingSparseMoE.__call__\<close>. A token's activation is its vector; the
  layer is reached through the call \<open>F\<close> it answers to (routed experts in, one output row per routed slot
  out, \<open>None\<close> when it blocks). The router's and the shared expert's matrices are functions.
\<close>

section \<open>Combining the routed rows\<close>

fun split_rows :: "'i list list \<Rightarrow> 'v list \<Rightarrow> 'v list list" where
  "split_rows [] ys = []"
| "split_rows (is # iss) ys = take (length is) ys # split_rows iss (drop (length is) ys)"

text \<open>\<open>(y * scores[..., None]).sum(axis=-2)\<close> for one token, and the sum with the shared expert's output.\<close>

definition weighted :: "nat \<Rightarrow> 'a::comm_semiring_1 list list \<Rightarrow> 'a list \<Rightarrow> 'a list" where
  "weighted h ys ws = vec_sum h (map2 (\<lambda>y s. map (\<lambda>v. v * s) y) ys ws)"

type_synonym ('a, 'l) layer_call = "nat list list \<Rightarrow> 'l \<Rightarrow> ('a list list res \<times> 'l) option"

definition combine_rows ::
  "('a::comm_semiring_1 list \<Rightarrow> 'a list) \<Rightarrow> 'a list list \<Rightarrow> (nat list \<times> 'a list) list \<Rightarrow> 'a list list \<Rightarrow> 'a list list" where
  "combine_rows shared xs sels ys =
     map2 (\<lambda>x (rows, ws). map2 (+) (weighted (length x) rows ws) (shared x)) xs
       (zip (split_rows (map fst sels) ys) (map snd sels))"

definition moe_apply ::
  "('a::comm_semiring_1 list \<Rightarrow> 'a list) \<Rightarrow> ('a, 'l) layer_call \<Rightarrow> 'a list list \<Rightarrow> (nat list \<times> 'a list) list \<Rightarrow> 'l \<Rightarrow>
     ('a list list res \<times> 'l) option" where
  "moe_apply shared F xs sels L =
     (case F (map fst sels) L of
        None \<Rightarrow> None
      | Some (r, L') \<Rightarrow> Some (res_bind r (\<lambda>ys. Inr (combine_rows shared xs sels ys)), L'))"

section \<open>qwen\<close>

record 'a moe_block =
  mb_gate :: "'a list \<Rightarrow> 'a list"
  mb_top_k :: nat
  mb_norm :: bool
  mb_num :: nat
  mb_shared :: "'a list \<Rightarrow> 'a list"
  mb_li :: int
  mb_enabled :: bool

definition router_call ::
  "'a::linordered_field rkernels \<Rightarrow> 'a moe_block \<Rightarrow> ('a, 'l) layer_call \<Rightarrow> 'a list list \<Rightarrow> 'l \<Rightarrow> ('a list list res \<times> 'l) option" where
  "router_call R b F xs L =
     (case res_map (\<lambda>x. select_from_logits R (mb_gate b x) (mb_top_k b) (mb_norm b)) xs of
        Inl e \<Rightarrow> Some (Inl e, L)
      | Inr sels \<Rightarrow> moe_apply (mb_shared b) F xs sels L)"

text \<open>
  The routing of one decode token: the prediction of the layer below at the previous token, or the
  router when there is none yet (\<open>pred_scores\<close> without scores fails when they are used).
\<close>

definition prerouter_route ::
  "'a::linordered_field rkernels \<Rightarrow> 'a moe_block \<Rightarrow> 'a list \<Rightarrow> 'a pstate \<Rightarrow> (nat list \<times> 'a list) res" where
  "prerouter_route R b x st =
     (let li = mb_li b in
      res_bind (if li \<ge> ps_start st then py_at (ps_pred_inds st) li else Inr None) (\<lambda>pred.
        case pred of
          Some inds \<Rightarrow>
            res_bind (py_at (ps_pred_scores st) li) (\<lambda>sc. case sc of None \<Rightarrow> Inl TypeError | Some sc \<Rightarrow> Inr (inds, sc))
        | None \<Rightarrow> select_from_logits R (mb_gate b x) (mb_top_k b) (mb_norm b)))"

text \<open>
  \<open>prerouter_call\<close>. The guard is per instance: only an enabled block with a single token and a layer that
  does not replace routing takes the prerouter path. The captures are made before the experts run.
\<close>

definition prerouter_call ::
  "'a::linordered_field rkernels \<Rightarrow> 'a moe_block \<Rightarrow> ('a, 'l) layer_call \<Rightarrow> bool \<Rightarrow> 'a list list \<Rightarrow> ('a, 'b) qworld \<Rightarrow> 'l \<Rightarrow>
     ('a list list res \<times> ('a, 'b) qworld \<times> 'l) option" where
  "prerouter_call R b F replace xs w L =
     (case xs of
        [x] \<Rightarrow>
          if mb_enabled b \<and> \<not> replace then
            let st = qw_state w; li = mb_li b in
            (case res_bind (prerouter_route R b x st) (\<lambda>sel.
                    let oh = topk_onehot (fst sel) (mb_num b) in
                    res_bind (py_put (ps_oh st) li (Some oh)) (\<lambda>ohs. Inr (sel, oh, ohs))) of
               Inl e \<Rightarrow> Some (Inl e, w, L)
             | Inr (sel, oh, ohs) \<Rightarrow>
                 let w = w\<lparr>qw_state := st\<lparr>ps_oh := ohs\<rparr>, qw_m_in := (qw_m_in w)(li := Some x), qw_oh := (qw_oh w)(li := Some oh)\<rparr>
                 in map_option (\<lambda>(r, L). (r, w, L)) (moe_apply (mb_shared b) F [x] [sel] L))
          else map_option (\<lambda>(r, L). (r, w, L)) (router_call R b F xs L)
      | _ \<Rightarrow> map_option (\<lambda>(r, L). (r, w, L)) (router_call R b F xs L))"

section \<open>ling\<close>

record bailing_flags =
  bf_use_prerouter :: bool
  bf_feature_topk :: string
  bf_intra :: bool

text \<open>
  \<open>BailingSparseMoE.__call__\<close>: the selection executed and the one kept as feature (\<open>last_topk\<close>). The
  prerouter logits are one row; with several tokens the shapes of \<open>idx\<close> and \<open>x\<close> disagree.
\<close>

definition bailing_route ::
  "'a::linordered_field rkernels \<Rightarrow> 'a gate_args \<Rightarrow> 'a list \<Rightarrow> bailing_flags \<Rightarrow> ('a list \<Rightarrow> 'a list) \<Rightarrow> 'a list option \<Rightarrow>
     'a list list \<Rightarrow> ((nat list \<times> 'a list) list \<times> nat list list) res" where
  "bailing_route R a bias fl gate prev xs =
     (case (if bf_use_prerouter fl then prev else None) of
        Some lg \<Rightarrow>
          res_bind (bailing_select R a lg) (\<lambda>sel.
            if length xs \<noteq> 1 then Inl ValueError
            else if \<not> bf_intra fl \<and> bf_feature_topk fl = ''teacher''
            then res_bind (res_map (\<lambda>x. bailing_gate R a bias (gate x)) xs) (\<lambda>teacher. Inr ([sel], map fst teacher))
            else Inr ([sel], [fst sel]))
      | None \<Rightarrow> res_bind (res_map (\<lambda>x. bailing_gate R a bias (gate x)) xs) (\<lambda>sels. Inr (sels, map fst sels)))"

definition bailing_call ::
  "'a::linordered_field rkernels \<Rightarrow> 'a gate_args \<Rightarrow> 'a list \<Rightarrow> bailing_flags \<Rightarrow> ('a list \<Rightarrow> 'a list) \<Rightarrow> ('a list \<Rightarrow> 'a list) \<Rightarrow>
     ('a, 'l) layer_call \<Rightarrow> 'a list option \<Rightarrow> 'a list list \<Rightarrow> 'l \<Rightarrow>
     ('a list list res \<times> nat list list option \<times> 'l) option" where
  "bailing_call R a bias fl gate shared F prev xs L =
     (case bailing_route R a bias fl gate prev xs of
        Inl e \<Rightarrow> Some (Inl e, None, L)
      | Inr (sels, feat) \<Rightarrow>
          map_option (\<lambda>(r, L). (r, if bf_intra fl then None else Some feat, L)) (moe_apply shared F xs sels L))"

section \<open>A predicted call\<close>

lemma split_rows_reference:
  "length xs = length inds \<Longrightarrow>
     split_rows inds (moe_reference K fused g xs inds) = map2 (\<lambda>x is. map (\<lambda>e. expert_out K fused (g e) x) is) xs inds"
proof (induction xs inds rule: list_induct2)
  case (Cons x xs js inds)
  have "moe_reference K fused g (x # xs) (js # inds) =
      map (\<lambda>e. expert_out K fused (g e) x) js @ moe_reference K fused g xs inds"
    by (simp add: moe_reference_def spread_def zip_append1 map2_map_right zip_replicate1)
  then show ?case using Cons.IH by simp
qed simp

text \<open>The output of one token: the experts of the selection, weighted, plus the shared expert.\<close>

definition token_out ::
  "'a::comm_semiring_1 list kernels \<Rightarrow> bool \<Rightarrow> (nat \<Rightarrow> bmap) \<Rightarrow> ('a list \<Rightarrow> 'a list) \<Rightarrow> 'a list \<Rightarrow> nat list \<Rightarrow> 'a list \<Rightarrow> 'a list" where
  "token_out K fused g shared x inds ws =
     map2 (+) (weighted (length x) (map (\<lambda>e. expert_out K fused (g e) x) inds) ws) (shared x)"

text \<open>What the consumer's layer must satisfy, gathered.\<close>

definition consumer_ok ::
  "(nat \<times> nat \<Rightarrow> bmap) \<Rightarrow> 'v kernels \<Rightarrow> (nat \<Rightarrow> bmap res) \<Rightarrow> nat list \<times> (nat list \<Rightarrow> nat list) \<Rightarrow> nat \<Rightarrow> bmap slayer \<Rightarrow> bool" where
  "consumer_ok f K bld pins k L \<longleftrightarrow>
     kernels_ok K \<and> zero_spec K (s_zero L) \<and> stage_ok f L \<and> builds_all f L bld \<and> futures_ok bld L \<and>
     pins_ok (l_num L) pins \<and> s_interval L \<noteq> 0 \<and> idle L \<and> 0 < k \<and> k \<le> 8 \<and> k \<le> s_n L \<and> int k = s_trigger L"

lemma predicted_call:
  assumes L: "consumer_ok f K bld pins k L" and v: "s_sync L \<or> v = Late" and inds: "length inds = k" "distinct inds" "\<forall>e \<in> set inds. e < l_num L"
  shows "\<exists>L'. moe_apply shared (\<lambda>is. forward K fused bld pins t [x] (Some is)) [x] [(inds, ws)]
        (fill_lands bld u (snd (stage_experts bld (u, v) (uniq inds) L)))
      = Some (Inr [token_out K fused (\<lambda>e. f (l_idx L, e)) shared x inds ws], L') \<and>
    s_at_use L' = Some (uniq inds) \<and>
    n_staged_dropped (s_sstats (sync_actuals L')) =
      n_staged_dropped (s_sstats (fill_lands bld u (snd (stage_experts bld (u, v) (uniq inds) L))))"
proof -
  have ne: "inds \<noteq> []" using inds(1) L by (auto simp: consumer_ok_def)
  have Lx: "kernels_ok K" "zero_spec K (s_zero L)" "stage_ok f L" "builds_all f L bld" "futures_ok bld L"
    "pins_ok (l_num L) pins" "s_interval L \<noteq> 0" "idle L" "length inds \<le> 8" "int (length inds) = s_trigger L"
    using L inds(1) by (simp_all add: consumer_ok_def)
  have n: "length (uniq inds) \<le> s_n L" using length_uniq_le[of inds] L inds(1) by (simp add: consumer_ok_def)
  obtain L2 L' where L2: "L2 = fill_lands bld u (snd (stage_experts bld (u, v) (uniq inds) L))"
    and run: "forward K fused bld pins t [x] (Some [inds]) L2 =
        Some (Inr (moe_reference K fused (\<lambda>e. f (l_idx L, e)) [x] [inds]), L')"
    and use: "s_at_use L' = Some (uniq inds)" "n_staged_dropped (s_sstats (sync_actuals L')) = n_staged_dropped (s_sstats L2)"
    using no_drops_step[OF Lx(1-8) v ne inds(3) Lx(9) n Lx(10), of u fused t x] by blast
  have "moe_apply shared (\<lambda>is. forward K fused bld pins t [x] (Some is)) [x] [(inds, ws)] L2
      = Some (Inr [token_out K fused (\<lambda>e. f (l_idx L, e)) shared x inds ws], L')"
    using run split_rows_reference[of "[x]" "[inds]" K fused "\<lambda>e. f (l_idx L, e)"]
    by (simp add: moe_apply_def combine_rows_def token_out_def)
  then show ?thesis using use L2 by auto
qed

section \<open>From the stager to the next token\<close>

lemma linear_length: "linear W x = Inr y \<Longrightarrow> length y = length W"
  by (auto simp: linear_def split: if_splits)

lemma head_call_length: "head_call K H f = Inr lg \<Longrightarrow> head_ok fin hid num H \<Longrightarrow> length lg = num"
  by (auto simp: head_call_def Let_def res_bind_def vec_add_def head_ok_def matrix_ok_def
      split: prod.splits sum.splits if_splits dest!: linear_length)

text \<open>A valid group configuration, and what both copies of the law select under it.\<close>

definition groups_fit :: "nat \<Rightarrow> nat \<Rightarrow> nat \<Rightarrow> nat \<Rightarrow> bool" where
  "groups_fit num G T k \<longleftrightarrow> (\<exists>s. num = G * s \<and> T \<le> G \<and> (2 \<le> s \<or> T = G) \<and> 0 < k \<and> k \<le> T * s)"

lemma group_select_idx:
  fixes R :: "'a::linordered_field rkernels"
  assumes "rkernels_ok R" and "groups_fit (length lg) G T k" and "bias = None \<or> (\<exists>b. bias = Some b \<and> length b = length lg)"
  obtains idx where "\<And>scaling renorm. group_select_from_logits R lg k G T scaling renorm bias =
      Inr (idx, chosen_weights renorm scaling (map (r_sigmoid R) lg) idx)"
    "distinct idx" "length idx = k" "\<forall>e \<in> set idx. e < length lg"
proof -
  obtain s where s: "length lg = G * s" "T \<le> G" "2 \<le> s \<or> T = G" "0 < k" "k \<le> T * s"
    using assms(2) by (auto simp: groups_fit_def)
  obtain idx where idx: "group_select_from_logits R lg k G T 1 False bias = Inr (idx, chosen_weights False 1 (map (r_sigmoid R) lg) idx)"
    "distinct idx" "length idx = k" "\<forall>e \<in> set idx. e < length lg"
    using group_select_run[OF assms(1) s(1-3) assms(3) s(4,5), of 1 False] by blast
  have "group_select_from_logits R lg k G T scaling renorm bias =
      Inr (idx, chosen_weights renorm scaling (map (r_sigmoid R) lg) idx)" for scaling renorm
    using idx(1) by (auto simp: group_select_from_logits_def Let_def res_bind_def split: sum.splits)
  then show thesis using that idx(2-4) by blast
qed

definition gate_fits :: "moe_spec \<Rightarrow> real gate_args \<Rightarrow> nat \<Rightarrow> bool" where
  "gate_fits sp a k \<longleftrightarrow> n_group sp = Some (ga_n_group a) \<and> topk_group sp = Some (ga_topk_group a) \<and> k = ga_top_k a \<and>
     groups_fit (ga_num_experts a) (ga_n_group a) (ga_topk_group a) k"

lemma ling_select_is_bailing:
  assumes R: "rkernels_ok R" and a: "gate_fits sp a k" and lg: "length lg = ga_num_experts a"
  obtains inds sc ws where "ling_select R sp k lg = Inr (inds, sc)" "bailing_select R a lg = Inr (inds, ws)"
    "distinct inds" "length inds = k" "\<forall>e \<in> set inds. e < ga_num_experts a"
proof -
  have fit: "groups_fit (length lg) (ga_n_group a) (ga_topk_group a) k" using a lg by (auto simp: gate_fits_def)
  obtain idx where idx: "\<And>scaling renorm. group_select_from_logits R lg k (ga_n_group a) (ga_topk_group a) scaling renorm None =
      Inr (idx, chosen_weights renorm scaling (map (r_sigmoid R) lg) idx)"
    "distinct idx" "length idx = k" "\<forall>e \<in> set idx. e < length lg"
    using group_select_idx[OF R fit, of None] by blast
  show thesis
    by (rule that[of idx]) (use idx a lg in \<open>simp_all add: ling_select_def gate_fits_def bailing_select_is_group_select\<close>)
qed

lemma teacher_ok:
  assumes R: "rkernels_ok R" and a: "gate_fits sp a k" and lg: "length lg = ga_num_experts a" "length bias = ga_num_experts a"
  shows "\<exists>sel. bailing_gate R a bias lg = Inr sel"
proof -
  have fit: "groups_fit (length lg) (ga_n_group a) (ga_topk_group a) (ga_top_k a)" using a lg by (auto simp: gate_fits_def)
  have b: "(if ga_bias_enabled a then Some bias else None) = None \<or>
      (\<exists>v. (if ga_bias_enabled a then Some bias else None) = Some v \<and> length v = length lg)"
    using lg by simp
  obtain idx where "\<And>scaling renorm. group_select_from_logits R lg (ga_top_k a) (ga_n_group a) (ga_topk_group a) scaling renorm
      (if ga_bias_enabled a then Some bias else None) = Inr (idx, chosen_weights renorm scaling (map (r_sigmoid R) lg) idx)"
    using group_select_idx[OF R fit b] by metis
  then show ?thesis using lg by (subst bailing_gate_is_group_select) auto
qed

lemma bailing_call_predicted:
  assumes "rkernels_ok R" and "gate_fits sp a k" and "bf_use_prerouter fl" and "bailing_select R a lg = Inr sel"
    and "length (gate x) = ga_num_experts a" and "length bias = ga_num_experts a"
    and "moe_apply shared F [x] [sel] L = Some (Inr [out], L')"
  shows "\<exists>feat. bailing_call R a bias fl gate shared F (Some lg) [x] L = Some (Inr [out], feat, L')"
proof -
  obtain t where t: "bailing_gate R a bias (gate x) = Inr t" using teacher_ok[OF assms(1,2,5,6)] by blast
  show ?thesis using assms(3,4,7) t by (simp add: bailing_call_def bailing_route_def)
qed

text \<open>
  Zero drops, end to end (ling). Let the step boundary's pass succeed, and let a consumer of an owner
  with features be an idle staged layer whose sizes match. Once the consumer's fill is in (at the call's return in
  the synchronous modes, after the pool has run it otherwise),
  the consumer's MoE block on the next token, fed the logits the stager cached for it, selects exactly
  the experts that were staged, returns the exact mixture of their outputs, and drops none of them.
\<close>
theorem ling_zero_drops:
  assumes C: "C = ling_class R sp k bld tm heads True" and run: "stage_all C HK owners S = (Inr sets, S')"
    and ok: "stacked_ok C S" and fit: "heads_fit C owners H (d1, d2, d3) (hid, ga_num_experts a) (sg_world S)"
    and own: "distinct owners" "\<forall>owner \<in> set owners. 0 \<le> owner"
    and here: "owner \<in> set owners" "ling_features (num_experts sp) owner (sg_world S) = Inr (Some feats)"
    and L: "map_of (lw_layers (sg_world S)) (owner + 1) = Some L" "consumer_ok f K (bld (owner + 1)) pins k L"
      "tm (owner + 1) = (u, v)" "s_sync L \<or> v = Late" "l_num L = ga_num_experts a"
    and R: "rkernels_ok R" "gate_fits sp a k" "length bias = ga_num_experts a"
    and block: "bf_use_prerouter fl" "length (gate x) = ga_num_experts a"
  shows "\<exists>L1 lg inds ws feat L'.
    map_of (lw_layers (sg_world S')) (owner + 1) = Some L1 \<and>
    map_of (lw_pg_cache (sg_world S')) (owner + 1) = Some lg \<and> bailing_select R a lg = Inr (inds, ws) \<and>
    bailing_call R a bias fl gate shared (\<lambda>js. forward K fused (bld (owner + 1)) pins t [x] (Some js))
        (map_of (lw_pg_cache (sg_world S')) (owner + 1)) [x] (fill_lands (bld (owner + 1)) u L1)
      = Some (Inr [token_out K fused (\<lambda>e. f (l_idx L, e)) shared x inds ws], feat, L') \<and>
    s_at_use L' = Some (uniq inds) \<and>
    n_staged_dropped (s_sstats (sync_actuals L')) = n_staged_dropped (s_sstats (fill_lands (bld (owner + 1)) u L1))"
proof -
  let ?c = "owner + 1"
  have sc: "sc_features C = ling_features (num_experts sp)" "sc_select C = ling_select R sp k" "sc_streams C = True"
    by (simp_all add: C ling_class_def)
  note pass = ling.stage_all_result[OF run[unfolded C] ok[unfolded C] fit[unfolded C] own,
      unfolded ling.passed_def ling.staged_if_def, folded C, unfolded sc simp_thms if_True]
  obtain lg inds sc where p: "head_call HK (H owner) feats = Inr lg" "ling_select R sp k lg = Inr (inds, sc)"
    "map_of (lw_pg_cache (sg_world S')) ?c = Some lg"
    "map_of (lw_layers (sg_world S')) ?c =
       (if inds \<noteq> [] then map_option (layer_staged bld tm ?c (uniq inds)) (map_of (lw_layers (sg_world S)) ?c)
        else map_of (lw_layers (sg_world S)) ?c)"
    using pass here by blast
  have "head_ok (d1 + d2 + d3) hid (ga_num_experts a) (H owner)" using fit here(1) by (auto simp: heads_fit_def)
  then have lg: "length lg = ga_num_experts a" using head_call_length[OF p(1)] by blast
  obtain ws where sel: "bailing_select R a lg = Inr (inds, ws)" "distinct inds" "length inds = k" "\<forall>e \<in> set inds. e < l_num L"
    using ling_select_is_bailing[OF R(1,2) lg] p(2) L(5) by (metis old.sum.inject(2) Pair_inject)
  have "inds \<noteq> []" using sel(3) L(2) by (auto simp: consumer_ok_def)
  then have L1: "map_of (lw_layers (sg_world S')) ?c = Some (snd (stage_experts (bld ?c) (u, v) (uniq inds) L))"
    using p(4) L(1,3) by (simp add: layer_staged_def)
  obtain L' where call: "moe_apply shared (\<lambda>js. forward K fused (bld ?c) pins t [x] (Some js)) [x] [(inds, ws)]
        (fill_lands (bld ?c) u (snd (stage_experts (bld ?c) (u, v) (uniq inds) L)))
      = Some (Inr [token_out K fused (\<lambda>e. f (l_idx L, e)) shared x inds ws], L')"
    "s_at_use L' = Some (uniq inds)"
    "n_staged_dropped (s_sstats (sync_actuals L')) =
      n_staged_dropped (s_sstats (fill_lands (bld ?c) u (snd (stage_experts (bld ?c) (u, v) (uniq inds) L))))"
    using predicted_call[OF L(2,4) sel(3,2,4)] by blast
  show ?thesis
    using bailing_call_predicted[where gate = gate and x = x, OF R(1,2) block(1) sel(1) block(2) R(3) call(1)] L1 p(3) sel(1) call(2,3) by auto
qed

section \<open>The two-token features of qwen\<close>

lemma stage_rows_frame:
  fixes C :: "('w, 'a) stager_class"
  assumes "\<And>c lg inds sc ex w. g (snd (sc_store C c lg inds sc ex w)) = g w" and "\<And>owner cur w. g (sc_note C owner cur w) = g w"
  shows "g (snd (stage_rows C rows sets w)) = g w"
proof (induction rows arbitrary: sets w)
  case (Cons r rows)
  obtain owner cur lg inds sc where r: "r = (owner, cur, lg, inds, sc)" by (metis prod_cases5)
  let ?st = "sc_store C (owner + 1) lg inds sc (if sc_streams C then Some (uniq inds) else None) w"
  obtain x w1 where st: "?st = (x, w1)" by (cases ?st)
  have "g w1 = g w" using assms(1)[of "owner + 1" lg inds sc "if sc_streams C then Some (uniq inds) else None" w] st by simp
  then show ?case using Cons.IH st assms(2) by (cases x) (simp_all add: r Let_def)
qed simp

lemma stage_all_frame:
  fixes C :: "('w, 'a::field) stager_class"
  assumes "\<And>c lg inds sc ex w. g (snd (sc_store C c lg inds sc ex w)) = g w" and "\<And>owner cur w. g (sc_note C owner cur w) = g w"
  shows "g (sg_world (snd (stage_all C K owners S))) = g (sg_world S)"
proof (cases "collect_features C (sg_world S) owners")
  case (Inr fs)
  obtain v S1 where st: "stacked_weights C (map fst fs) S = (v, S1)" by (cases "stacked_weights C (map fst fs) S")
  have w1: "sg_world S1 = sg_world S" using st by (auto simp: stacked_weights_def Let_def split: if_splits)
  have "g (snd (stage_rows C rows sets (sg_world S))) = g (sg_world S)" for rows sets
    by (rule stage_rows_frame) (use assms in simp_all)
  then have "g w' = g (sg_world S)" if "stage_rows C rows sets (sg_world S) = (r, w')" for rows sets r w'
    using that by (metis snd_conv)
  then show ?thesis using Inr st w1 by (auto simp: stage_all_def Let_def split: sum.splits prod.splits)
qed (simp add: stage_all_def)

lemma cross_store_frame:
  "ps_oh (qw_state (snd (cross_store bld tm c lg inds sc ex w))) = ps_oh (qw_state w) \<and>
   ps_n (qw_state (snd (cross_store bld tm c lg inds sc ex w))) = ps_n (qw_state w)"
proof (cases "res_bind (py_put (ps_pred_inds (qw_state w)) c (Some inds)) (\<lambda>pi.
           res_bind (py_put (ps_pred_scores (qw_state w)) c (Some sc)) (\<lambda>pc.
           res_bind (py_put (ps_logits (qw_state w)) (c - 1) (Some lg)) (\<lambda>lo.
             Inr ((qw_state w)\<lparr>ps_pred_inds := pi, ps_pred_scores := pc, ps_logits := lo\<rparr>))))")
  case (Inr st)
  then have "ps_oh st = ps_oh (qw_state w) \<and> ps_n st = ps_n (qw_state w)" by (auto simp: res_bind_def split: sum.splits)
  then show ?thesis using Inr by (simp add: cross_store_def Let_def split: prod.split)
qed (simp add: cross_store_def Let_def)

lemma cross_stage_frame:
  "ps_oh (qw_state (sg_world (snd (stage_all (cross_class R num k bld tm heads streams) K owners S)))) = ps_oh (qw_state (sg_world S))"
  "ps_n (qw_state (sg_world (snd (stage_all (cross_class R num k bld tm heads streams) K owners S)))) = ps_n (qw_state (sg_world S))"
  by (rule stage_all_frame[where g = "\<lambda>w. ps_oh (qw_state w)"], simp_all add: cross_class_def cross_store_frame)
    (rule stage_all_frame[where g = "\<lambda>w. ps_n (qw_state w)"], simp_all add: cross_store_frame)

text \<open>What one successful decode call of a block leaves behind.\<close>

lemma prerouter_call_captures:
  assumes "prerouter_call R b F False [x] w L = Some (Inr ys, w', L')" and "mb_enabled b"
    and "0 \<le> mb_li b" "mb_li b < int (length (ps_oh (qw_state w)))"
  shows "\<exists>sel. prerouter_route R b x (qw_state w) = Inr sel \<and>
    qw_m_in w' (mb_li b) = Some x \<and> qw_oh w' (mb_li b) = Some (topk_onehot (fst sel) (mb_num b)) \<and>
    qw_state w' = (qw_state w)\<lparr>ps_oh := (ps_oh (qw_state w))[nat (mb_li b) := Some (topk_onehot (fst sel) (mb_num b))]\<rparr>"
  using assms by (auto simp: prerouter_call_def Let_def res_bind_def split: sum.splits option.splits)

text \<open>
  The features span two tokens. A block routes a token; the step boundary runs the stager and swaps
  the double buffer; the block routes the next token. Then the features its head will read are the next
  token's activation, the one-hot of the experts that token was routed to, and the one-hot of the experts
  the previous token was routed to.
\<close>
theorem cross_features_two_tokens:
  assumes t1: "prerouter_call R b F False [x1] w L = Some (Inr y1, w1, L1)"
    and boundary: "sg_world S = w1" "S' = snd (stage_all (cross_class R (mb_num b) k bld tm heads streams) K owners S)"
    and swap: "w2 = (sg_world S')\<lparr>qw_state := pstate_swap (qw_state (sg_world S'))\<rparr>"
    and t2: "prerouter_call R b F False [x2] w2 M = Some (Inr y2, w3, M')"
    and b: "mb_enabled b" "0 \<le> mb_li b" "mb_li b < ps_n (qw_state w)" "length (ps_oh (qw_state w)) = nat (ps_n (qw_state w))"
  shows "\<exists>sel1 sel2. prerouter_route R b x1 (qw_state w) = Inr sel1 \<and> prerouter_route R b x2 (qw_state w2) = Inr sel2 \<and>
    cross_features (mb_num b) (mb_li b) w3 =
      Inr (Some (x2, topk_onehot (fst sel2) (mb_num b), topk_onehot (fst sel1) (mb_num b)))"
proof -
  let ?li = "mb_li b"
  have len: "?li < int (length (ps_oh (qw_state w)))" using b(2-4) by linarith
  obtain sel1 where s1: "prerouter_route R b x1 (qw_state w) = Inr sel1"
    "qw_state w1 = (qw_state w)\<lparr>ps_oh := (ps_oh (qw_state w))[nat ?li := Some (topk_onehot (fst sel1) (mb_num b))]\<rparr>"
    using prerouter_call_captures[OF t1 b(1,2) len] by auto
  have frame: "ps_oh (qw_state (sg_world S')) = ps_oh (qw_state w1) \<and> ps_n (qw_state (sg_world S')) = ps_n (qw_state w1)"
    by (simp add: boundary cross_stage_frame)
  have w2: "ps_oh_prev (qw_state w2) = ps_oh (qw_state w1)" "length (ps_oh (qw_state w2)) = nat (ps_n (qw_state w))"
    using frame s1(2) by (simp_all add: swap pstate_swap_def nones_def)
  have len2: "?li < int (length (ps_oh (qw_state w2)))" using b(2,3) w2(2) by linarith
  obtain sel2 where s2: "prerouter_route R b x2 (qw_state w2) = Inr sel2"
    "qw_m_in w3 ?li = Some x2" "qw_oh w3 ?li = Some (topk_onehot (fst sel2) (mb_num b))"
    "ps_oh_prev (qw_state w3) = ps_oh_prev (qw_state w2)"
    using prerouter_call_captures[OF t2 b(1,2) len2] by auto
  have "py_at (ps_oh_prev (qw_state w3)) ?li = Inr (Some (topk_onehot (fst sel1) (mb_num b)))"
    using s2(4) w2(1) s1(2) b(2-4) by simp
  then show ?thesis using s1(1) s2(1-3) by (simp add: cross_features_def)
qed

section \<open>A model small enough to run\<close>

definition demo_vkernels :: "real list kernels" where
  "demo_vkernels = sorting_kernels (\<lambda>x w. case fst w of None \<Rightarrow> [] | Some t \<Rightarrow> map (\<lambda>v. v * real (length (tdata t))) x)
     (map2 (*)) (\<lambda>x. (x, x)) (\<lambda>x y. if x = [] then y else map2 (+) x y) []"

lemma demo_vkernels_ok: "kernels_ok demo_vkernels" "zero_spec demo_vkernels (\<lambda>key. None)"
proof -
  show "kernels_ok demo_vkernels" unfolding demo_vkernels_def by (rule sorting_kernels_ok)
qed (simp add: demo_vkernels_def zero_spec_def sorting_kernels_def wtri_def)

definition demo_lspec :: moe_spec where
  "demo_lspec = demo_spec\<lparr>num_experts := 6, n_group := Some 3, topk_group := Some 2, routed_scaling := Some (5 / 2)\<rparr>"

definition demo_args :: "real gate_args" where
  "demo_args = \<lparr>ga_num_experts = 6, ga_n_group = 3, ga_topk_group = 2, ga_top_k = 2, ga_norm = True, ga_scaling = 5 / 2,
     ga_bias_enabled = True\<rparr>"

definition demo_lhead :: "real head" where
  "demo_lhead = \<lparr>hd_fc1 = [replicate 13 1], hd_fc2 = [[0], [1], [2], [1], [3], [1]],
     hd_linear_init = replicate 6 (replicate 13 0)\<rparr>"

definition demo_lworld :: "(real, bmap) lworld" where
  "demo_lworld = \<lparr>lw_m_in = (\<lambda>owner. Some [[1]]), lw_last_topk = (\<lambda>owner. Some [[0, 1]]), lw_prev_oh = (\<lambda>owner. None),
     lw_pg_cache = [], lw_layers = [(1, demo_pool)]\<rparr>"

definition demo_ling :: "((real, bmap) lworld, real) stager_class" where
  "demo_ling = ling_class demo_rk demo_lspec 2 (\<lambda>c e. Inr (demo_f (3, e))) (\<lambda>c. (Late, Late)) (\<lambda>owner. Inr demo_lhead) True"

definition demo_rhk :: "real hkernels" where
  "demo_rhk = \<lparr>hk_erf = id, hk_sqrt2 = 7 / 5, hk_cast = id\<rparr>"

definition demo_lstager :: "((real, bmap) lworld, real) stager" where
  "demo_lstager = stager_new True demo_lworld"

lemma demo_ling_run: "fst (stage_all demo_ling demo_rhk [0] demo_lstager) = Inr [(1, [2, 4])]"
  by code_simp

lemma demo_ling_fit: "heads_fit demo_ling [0] (\<lambda>owner. demo_lhead) (1, 6, 6) (1, ga_num_experts demo_args) (sg_world demo_lstager)"
  by (auto simp: heads_fit_def demo_ling_def ling_class_def head_ok_def matrix_ok_def demo_lhead_def ling_features_def
      demo_lworld_def demo_lstager_def stager_new_def topk_onehot_pos_def demo_lspec_def demo_args_def Let_def split: option.splits)

lemma demo_consumer: "consumer_ok demo_f demo_vkernels (\<lambda>e. Inr (demo_f (3, e))) ([], id) 2 demo_pool"
  using demo_vkernels_ok demo_pool_ok by (simp add: consumer_ok_def demo_pool_fields)

lemma demo_gate_fits: "gate_fits demo_lspec demo_args 2"
  by (simp add: gate_fits_def demo_lspec_def demo_args_def groups_fit_def)

lemma ling_zero_drops_witness:
  "\<exists>lg inds ws feat L'. map_of (lw_pg_cache (sg_world (snd (stage_all demo_ling demo_rhk [0] demo_lstager)))) 1 = Some lg \<and>
    bailing_select demo_rk demo_args lg = Inr (inds, ws) \<and>
    bailing_call demo_rk demo_args (replicate 6 0) \<lparr>bf_use_prerouter = True, bf_feature_topk = ''teacher'', bf_intra = False\<rparr>
        (\<lambda>x. replicate 6 0) id (\<lambda>js. forward demo_vkernels True (\<lambda>e. Inr (demo_f (3, e))) ([], id) Late [[2]] (Some js)) (Some lg) [[2]]
        (fill_lands (\<lambda>e. Inr (demo_f (3, e))) Late
          (the (map_of (lw_layers (sg_world (snd (stage_all demo_ling demo_rhk [0] demo_lstager)))) 1)))
      = Some (Inr [token_out demo_vkernels True (\<lambda>e. demo_f (3, e)) id [2] inds ws], feat, L') \<and>
    s_at_use L' = Some (uniq inds)"
proof -
  let ?r = "stage_all demo_ling demo_rhk [0] demo_lstager"
  have run: "?r = (Inr [(1, [2, 4])], snd ?r)" using demo_ling_run by (metis prod.collapse)
  have ok: "stacked_ok demo_ling demo_lstager" unfolding demo_lstager_def by (rule stacked_ok_new)
  have feats: "\<exists>f. ling_features (num_experts demo_lspec) 0 (sg_world demo_lstager) = Inr (Some f)"
    by (simp add: ling_features_def demo_lstager_def stager_new_def demo_lworld_def Let_def)
  have L: "map_of (lw_layers (sg_world demo_lstager)) (0 + 1) = Some demo_pool"
    by (simp add: demo_lstager_def stager_new_def demo_lworld_def)
  have sizes: "l_num demo_pool = ga_num_experts demo_args" "length (replicate 6 (0::real)) = ga_num_experts demo_args"
    by (simp_all add: demo_pool_fields demo_args_def)
  obtain f where f: "ling_features (num_experts demo_lspec) 0 (sg_world demo_lstager) = Inr (Some f)" using feats by blast
  have "\<exists>L1 lg inds ws feat L'.
    map_of (lw_layers (sg_world (snd ?r))) (0 + 1) = Some L1 \<and>
    map_of (lw_pg_cache (sg_world (snd ?r))) (0 + 1) = Some lg \<and> bailing_select demo_rk demo_args lg = Inr (inds, ws) \<and>
    bailing_call demo_rk demo_args (replicate 6 0) \<lparr>bf_use_prerouter = True, bf_feature_topk = ''teacher'', bf_intra = False\<rparr>
        (\<lambda>x. replicate 6 0) id (\<lambda>js. forward demo_vkernels True (\<lambda>e. Inr (demo_f (3, e))) ([], id) Late [[2]] (Some js))
        (map_of (lw_pg_cache (sg_world (snd ?r))) (0 + 1)) [[2]] (fill_lands (\<lambda>e. Inr (demo_f (3, e))) Late L1)
      = Some (Inr [token_out demo_vkernels True (\<lambda>e. demo_f (l_idx demo_pool, e)) id [2] inds ws], feat, L') \<and>
    s_at_use L' = Some (uniq inds) \<and>
    n_staged_dropped (s_sstats (sync_actuals L')) = n_staged_dropped (s_sstats (fill_lands (\<lambda>e. Inr (demo_f (3, e))) Late L1))"
    by (rule ling_zero_drops[OF demo_ling_def run ok demo_ling_fit _ _ _ f L demo_consumer refl disjI2[OF refl] sizes(1) demo_rk_ok demo_gate_fits sizes(2)])
      (simp_all add: demo_args_def)
  then show ?thesis by (auto simp: demo_pool_fields)
qed

definition demo_mb :: "rat moe_block" where
  "demo_mb = \<lparr>mb_gate = (\<lambda>x. [hd x, 2]), mb_top_k = 1, mb_norm = True, mb_num = 2, mb_shared = id, mb_li = 0, mb_enabled = True\<rparr>"

definition demo_answer :: "(rat, nat) layer_call" where
  "demo_answer inds L = Some (Inr (map (\<lambda>e. [rat_of_nat e]) (concat inds)), Suc L)"

definition demo_call :: "rat list \<Rightarrow> (rat, nat) qworld \<Rightarrow> (rat list list res \<times> (rat, nat) qworld \<times> nat) option" where
  "demo_call x w = prerouter_call demo_rk demo_mb demo_answer False [x] w 0"

definition demo_call_world :: "rat list \<Rightarrow> (rat, nat) qworld \<Rightarrow> (rat, nat) qworld" where
  "demo_call_world x w = (case demo_call x w of Some (_, w, _) \<Rightarrow> w | None \<Rightarrow> w)"

definition demo_between :: "(rat, nat) qworld" where
  "demo_between = (let w = sg_world (snd (stage_all (cross_class demo_rk (mb_num demo_mb) 1 (\<lambda>c. demo_bld) (\<lambda>c. (Late, Late)) (\<lambda>owner. Inr demo_qhead) True)
      demo_hk [0] (demo_stager\<lparr>sg_world := demo_call_world [1] demo_qworld\<rparr>)))
    in w\<lparr>qw_state := pstate_swap (qw_state w)\<rparr>)"

lemma demo_calls:
  "map_option (map_sum id (\<lambda>_. ()) \<circ> fst) (demo_call [1] demo_qworld) = Some (Inr ())"
  "map_option (map_sum id (\<lambda>_. ()) \<circ> fst) (demo_call [3] demo_between) = Some (Inr ())"
  by code_simp+

lemma demo_call_returns:
  assumes "map_option (map_sum id (\<lambda>_. ()) \<circ> fst) (demo_call x w) = Some (Inr ())"
  shows "\<exists>y L. demo_call x w = Some (Inr y, demo_call_world x w, L)"
proof -
  obtain r w' L where r: "demo_call x w = Some (r, w', L)" using assms by auto
  then show ?thesis using assms by (cases r) (simp_all add: demo_call_world_def)
qed

lemma cross_features_two_tokens_witness:
  "\<exists>sel1 sel2. prerouter_route demo_rk demo_mb [1] (qw_state demo_qworld) = Inr sel1 \<and>
    prerouter_route demo_rk demo_mb [3] (qw_state demo_between) = Inr sel2 \<and>
    cross_features 2 0 (demo_call_world [3] demo_between) =
      Inr (Some ([3], topk_onehot (fst sel2) 2, topk_onehot (fst sel1) 2))"
proof -
  obtain y1 L1 y2 L2 where
    t: "prerouter_call demo_rk demo_mb demo_answer False [[1]] demo_qworld 0 = Some (Inr y1, demo_call_world [1] demo_qworld, L1)"
       "prerouter_call demo_rk demo_mb demo_answer False [[3]] demo_between 0 = Some (Inr y2, demo_call_world [3] demo_between, L2)"
    using demo_call_returns[OF demo_calls(1)] demo_call_returns[OF demo_calls(2)] by (auto simp: demo_call_def)
  have b: "mb_enabled demo_mb" "0 \<le> mb_li demo_mb" "mb_li demo_mb < ps_n (qw_state demo_qworld)"
    "length (ps_oh (qw_state demo_qworld)) = nat (ps_n (qw_state demo_qworld))"
    by (simp_all add: demo_mb_def demo_qworld_def pstate_new_def nones_def)
  have s: "sg_world (demo_stager\<lparr>sg_world := demo_call_world [1] demo_qworld\<rparr>) = demo_call_world [1] demo_qworld" by simp
  have m: "mb_num demo_mb = 2" "mb_li demo_mb = 0" by (simp_all add: demo_mb_def)
  show ?thesis
    using cross_features_two_tokens[OF t(1) s refl demo_between_def[unfolded Let_def] t(2) b] unfolding m .
qed

end
