(* ===== verification/Consumers.thy ===== *)
theory Consumers
  imports Prefill Moe_Blocks
begin

text \<open>
  What the two engines do with the dict of streaming layers: views of it and updates through them, the
  loops of the hooks over the layers, and the consumer of a prediction. A layer is \<open>ready\<close> for a selection
  when the fill staged for it has landed; a MoE block that applies that selection then serves it from the
  slots, exactly and with no expert dropped.

  The layers are shared by reference between the engine, the prefill hook, the stager and the MoE blocks.
  They live in one dict; the stager is run on a view of it and its updates are written back.
\<close>

section \<open>The dict of layers\<close>

definition unstaged :: "player \<Rightarrow> player" where
  "unstaged p = p\<lparr>p_layer := (p_layer p)\<lparr>s_mode := False\<rparr>\<rparr>"

definition stream_layers :: "player layer_dict \<Rightarrow> (int \<times> bmap slayer) list" where
  "stream_layers d = map (\<lambda>(li, p). (int li, p_layer p)) (filter (\<lambda>(li, p). s_mode (p_layer p)) d)"

definition build_of :: "player \<Rightarrow> nat \<Rightarrow> bmap res" where
  "build_of p = layer_build (p_cfg p) (p_backing p)"

definition set_layer :: "nat \<Rightarrow> player \<Rightarrow> bmap slayer \<Rightarrow> player layer_dict \<Rightarrow> player layer_dict" where
  "set_layer li p L d = AList.update li (p\<lparr>p_layer := L\<rparr>) d"

definition put_back :: "(int \<times> bmap slayer) list \<Rightarrow> player layer_dict \<Rightarrow> player layer_dict" where
  "put_back ls d = map (\<lambda>(li, p). (li, case map_of ls (int li) of None \<Rightarrow> p | Some L \<Rightarrow> p\<lparr>p_layer := L\<rparr>)) d"

definition dict_build :: "player layer_dict \<Rightarrow> int \<Rightarrow> nat \<Rightarrow> bmap res" where
  "dict_build d c e = (case map_of d (nat c) of None \<Rightarrow> Inl KeyError | Some p \<Rightarrow> build_of p e)"

definition no_hook :: "nat \<Rightarrow> player layer_dict \<Rightarrow> unit res \<times> player layer_dict" where
  "no_hook li d = (Inr (), d)"

definition add_rows :: "real list list \<Rightarrow> real list list \<Rightarrow> real list list" where
  "add_rows h out = map2 (map2 (+)) h out"

section \<open>Loops over the layers\<close>

text \<open>A call may raise, or block (\<open>None\<close>).\<close>

fun each_player :: "(nat \<Rightarrow> player \<Rightarrow> (unit res \<times> player) option) \<Rightarrow> player layer_dict \<Rightarrow> (unit res \<times> player layer_dict) option" where
  "each_player f [] = Some (Inr (), [])"
| "each_player f ((li, p) # d) =
     (case f li p of
        None \<Rightarrow> None
      | Some (Inl e, p) \<Rightarrow> Some (Inl e, (li, p) # d)
      | Some (Inr _, p) \<Rightarrow> map_option (\<lambda>(r, d). (r, (li, p) # d)) (each_player f d))"

definition with_layer :: "player \<Rightarrow> unit res \<times> bmap slayer \<Rightarrow> (unit res \<times> player) option" where
  "with_layer p rL = Some (fst rL, p\<lparr>p_layer := snd rL\<rparr>)"

text \<open>\<open>exp.stage_experts(list(exp.last_used))\<close> when there is a set to stage.\<close>

definition stage_last :: "timing \<times> timing \<Rightarrow> player \<Rightarrow> (unit res \<times> player) option" where
  "stage_last tm p =
     (let L = p_layer p in
      if l_last_used L = [] then Some (Inr (), p)
      else with_layer p (stage_experts (build_of p) tm (l_last_used L) L))"

text \<open>Actuals, staging of the actuals, and the swap: the history step of one layer.\<close>

definition history_step :: "timing \<times> timing \<Rightarrow> timing \<Rightarrow> player \<Rightarrow> (unit res \<times> player) option" where
  "history_step tm t p =
     (let p = p\<lparr>p_layer := sync_actuals (p_layer p)\<rparr> in
      if l_last_used (p_layer p) = [] then Some (Inr (), p)
      else case stage_experts (build_of p) tm (l_last_used (p_layer p)) (p_layer p) of
             (Inl e, L) \<Rightarrow> Some (Inl e, p\<lparr>p_layer := L\<rparr>)
           | (Inr _, L) \<Rightarrow>
               map_option (\<lambda>L. (Inr (), p\<lparr>p_layer := L\<rparr>)) (swap_staged (build_of p) t L))"

definition from_prefill :: "timing \<times> timing \<Rightarrow> player \<Rightarrow> (unit res \<times> player) option" where
  "from_prefill tm p =
     (if s_mode (p_layer p) then with_layer p (stage_from_prefill (build_of p) tm (p_layer p)) else Some (Inr (), p))"

section \<open>Views of the dict\<close>

lemma map_of_map_snd: "map_of (map (\<lambda>(k, v). (k, g k v)) d) k = map_option (g k) (map_of d k)"
  by (induction d) auto

lemma each_player_total:
  assumes "\<And>li p. (li, p) \<in> set d \<Longrightarrow> f li p = Some (Inr (), g li p)"
  shows "each_player f d = Some (Inr (), map (\<lambda>(li, p). (li, g li p)) d)"
  using assms by (induction d) auto

lemma map_of_put_back:
  "map_of (put_back ls d) li = map_option (\<lambda>p. case map_of ls (int li) of None \<Rightarrow> p | Some L \<Rightarrow> p\<lparr>p_layer := L\<rparr>) (map_of d li)"
  unfolding put_back_def by (rule map_of_map_snd)

lemma map_of_stream_layers:
  "distinct (map fst d) \<Longrightarrow> map_of (stream_layers d) (int li) =
     (case map_of d li of None \<Rightarrow> None | Some p \<Rightarrow> if s_mode (p_layer p) then Some (p_layer p) else None)"
  by (induction d) (auto simp: stream_layers_def map_of_eq_None_iff image_iff split: option.splits dest: map_of_SomeD)

section \<open>A consumer whose fill has landed\<close>

definition ready :: "(nat \<times> nat \<Rightarrow> bmap) \<Rightarrow> 'v kernels \<Rightarrow> nat list \<times> (nat list \<Rightarrow> nat list) \<Rightarrow> player \<Rightarrow> nat list \<Rightarrow> bool" where
  "ready f K pins p inds \<longleftrightarrow>
     (let L = p_layer p in
      kernels_ok K \<and> zero_spec K (s_zero L) \<and> stage_ok f L \<and> builds_all f L (build_of p) \<and> futures_ok (build_of p) L \<and>
      pins_ok (l_num L) pins \<and> s_interval L \<noteq> 0 \<and> s_mode L \<and> s_future L = None \<and> s_rearm L = None \<and>
      int (length inds) = s_trigger L \<and> length inds \<le> 8 \<and> (\<forall>e \<in> set inds. e < l_num L) \<and>
      (\<exists>bs slot_of. s_next L = Some (bs, slot_of, uniq inds)))"

text \<open>The step was routed with the selection, from its staged set, and recording it counts no drop.\<close>

definition no_drop :: "nat list \<Rightarrow> bmap slayer \<Rightarrow> bmap slayer \<Rightarrow> bool" where
  "no_drop inds L L' \<longleftrightarrow> s_at_use L' = Some (uniq inds) \<and> s_indices L' = Some inds \<and>
     n_staged_dropped (s_sstats (sync_actuals L')) = n_staged_dropped (s_sstats L)"

lemma ready_apply:
  assumes r: "ready f K pins p inds"
  shows "\<exists>L'. moe_apply shared (\<lambda>js. forward K fused (build_of p) pins t [x] (Some js)) [x] [(inds, ws)] (p_layer p)
      = Some (Inr [token_out K fused (\<lambda>e. f (l_idx (p_layer p), e)) shared x inds ws], L') \<and> no_drop inds (p_layer p) L'"
proof -
  obtain bs slot_of where nx: "s_next (p_layer p) = Some (bs, slot_of, uniq inds)" using r by (auto simp: ready_def Let_def)
  have "\<exists>L'. forward K fused (build_of p) pins t [x] (Some [inds]) (p_layer p) =
      Some (Inr (moe_reference K fused (\<lambda>e. f (l_idx (p_layer p), e)) [x] [inds]), L') \<and>
    s_at_use L' = Some (uniq inds) \<and> s_indices L' = Some (concat [inds]) \<and>
    n_staged_dropped (s_sstats L') = n_staged_dropped (s_sstats (p_layer p))"
    by (rule forward_ready [where bs = bs and slot_of = slot_of])
      (use r nx in \<open>simp_all add: ready_def Let_def\<close>)
  then show ?thesis
    using sync_no_drop [of _ "uniq inds" inds] split_rows_reference [of "[x]" "[inds]" K fused "\<lambda>e. f (l_idx (p_layer p), e)"]
    by (force simp: moe_apply_def no_drop_def combine_rows_def token_out_def)
qed

text \<open>A landed fill stays ready when the step boundary records the actuals.\<close>

lemma ready_sync:
  assumes "ready f K pins p inds"
  shows "ready f K pins (p\<lparr>p_layer := sync_actuals (p_layer p)\<rparr>) inds"
proof -
  have ok: "stage_ok f (p_layer p)" using assms by (simp add: ready_def Let_def)
  obtain cs lu st c ix where sh: "sync_actuals (p_layer p) =
      (p_layer p)\<lparr>s_indices := ix, l_last_used := lu, l_counts := cs, s_sstats := st, l_cache := c\<rparr>"
    using sync_actuals_shape [OF ok] by blast
  have "stage_ok f (sync_actuals (p_layer p))" using sync_actuals_ok [OF ok] by blast
  then show ?thesis using assms unfolding sh
    by (simp add: ready_def Let_def build_of_def builds_all_def futures_ok_def)
qed

lemma ready_lands:
  assumes L: "consumer_ok f K (build_of p) pins k (p_layer p)" and v: "s_sync (p_layer p) \<or> v = Late"
    and inds: "length inds = k" "\<forall>e \<in> set inds. e < l_num (p_layer p)"
  shows "ready f K pins (p\<lparr>p_layer := fill_lands (build_of p) t (snd (stage_experts (build_of p) (u, v) (uniq inds) (p_layer p)))\<rparr>) inds"
    and "s_replace (fill_lands (build_of p) t (snd (stage_experts (build_of p) (u, v) (uniq inds) (p_layer p)))) = s_replace (p_layer p)"
    and "l_idx (fill_lands (build_of p) t (snd (stage_experts (build_of p) (u, v) (uniq inds) (p_layer p)))) = l_idx (p_layer p)"
proof -
  let ?L = "p_layer p"
  let ?N = "fill_lands (build_of p) t (snd (stage_experts (build_of p) (u, v) (uniq inds) ?L))"
  have Lx: "stage_ok f ?L" "builds_all f ?L (build_of p)" "idle ?L" "futures_ok (build_of p) ?L" "k \<le> s_n ?L" "0 < k"
    using L by (simp_all add: consumer_ok_def)
  have ne: "uniq inds \<noteq> []" "\<forall>e \<in> set (uniq inds). e < l_num ?L" using inds Lx(6) by auto
  have n: "length (uniq inds) \<le> s_n ?L" using length_uniq_le [of inds] inds(1) Lx(5) by simp
  have fill: "filled_with (uniq inds) (map (\<lambda>e. f (l_idx ?L, e)) (uniq inds)) ?L ?N"
    using fill_lands_next(1) [OF Lx(1,2) ne(2,1) Lx(3) v, of t u] staged_set_all [of "uniq inds"] n by simp
  note F = filled_fields [OF fill]
  obtain so where nx: "s_next ?N = Some (map (\<lambda>e. f (l_idx ?L, e)) (uniq inds), so, uniq inds)" using F(2) by blast
  have ok: "stage_ok f ?N" by (rule fill_lands_next(2) [OF Lx(1,2) ne(2,1) Lx(3) v])
  have same: "build_of (p\<lparr>p_layer := M\<rparr>) = build_of p" for M by (simp add: build_of_def)
  show "ready f K pins (p\<lparr>p_layer := ?N\<rparr>) inds"
    using L inds ok by (simp add: ready_def Let_def same nx F(1,3-) consumer_ok_def idle_def)
  show "s_replace ?N = s_replace ?L" "l_idx ?N = l_idx ?L" by (simp_all add: F)
qed

section \<open>A consumer of two experts\<close>

definition tiny_head :: "real head" where
  "tiny_head = \<lparr>hd_fc1 = [replicate 5 1], hd_fc2 = [[0], [1]], hd_linear_init = replicate 2 (replicate 5 0)\<rparr>"

text \<open>With the options of a tier, scaled down to one expert of two: one layer per preset.\<close>

definition tiny_player :: "layer_options \<Rightarrow> player" where
  "tiny_player opts = \<lparr>p_cfg = demo_cfg, p_layer = slayer_new (\<lambda>key. None) opts (layer_new 1 2 default_options None None), p_backing = None\<rparr>"

definition tiny_k4 :: layer_options where
  "tiny_k4 = (projr (staged_k4 []))\<lparr>staged_n := 1, staged_trigger := 1\<rparr>"

definition tiny_k8 :: layer_options where
  "tiny_k8 = (projr (prod_k8 []))\<lparr>staged_n := 1, staged_trigger := 1\<rparr>"

lemmas tiny_defs = tiny_player_def tiny_k4_def tiny_k8_def staged_k4_value prod_k8_value

lemma tiny_modes:
  "s_sync (p_layer (tiny_player tiny_k4))" "s_incr (p_layer (tiny_player tiny_k4))" "s_writeback (p_layer (tiny_player tiny_k4))"
  "s_sync (p_layer (tiny_player tiny_k8))" "\<not> s_incr (p_layer (tiny_player tiny_k8))"
  by (simp_all add: tiny_defs slayer_new_def Let_def layer.defs layer_new_def default_options_def)

lemma tiny_fields:
  assumes "opts = tiny_k4 \<or> opts = tiny_k8"
  shows "s_mode (p_layer (tiny_player opts))" "l_num (p_layer (tiny_player opts)) = 2" "l_idx (p_layer (tiny_player opts)) = 1"
    "p_cfg (tiny_player opts) = demo_cfg" "p_backing (tiny_player opts) = None" "s_zero (p_layer (tiny_player opts)) = (\<lambda>key. None)"
    "s_interval (p_layer (tiny_player opts)) = 4" "idle (p_layer (tiny_player opts))" "s_n (p_layer (tiny_player opts)) = 1"
    "s_trigger (p_layer (tiny_player opts)) = 1" "l_inflight (p_layer (tiny_player opts)) = []" "s_sync (p_layer (tiny_player opts))"
    "\<not> s_replace (p_layer (tiny_player opts))"
  using assms by (auto simp: tiny_defs slayer_new_def Let_def layer.defs layer_new_def default_options_def idle_def)

lemma tiny_consumer:
  assumes "opts = tiny_k4 \<or> opts = tiny_k8"
  shows "consumer_ok (\<lambda>(i, e). checkpoint_bundle demo_cfg e) demo_vkernels (build_of (tiny_player opts)) ([], id) 1 (p_layer (tiny_player opts))"
proof -
  have "stage_ok (\<lambda>(i, e). checkpoint_bundle demo_cfg e) (p_layer (tiny_player opts))"
    unfolding tiny_player_def player.select_convs by (rule stage_ok_new, rule layer_ok_new) simp_all
  moreover have "build_of (tiny_player opts) e = Inr (checkpoint_bundle demo_cfg e)" if "e < 2" for e
    using layer_build_checkpoint [OF demo_cfg_ok, of None e] that by (simp add: build_of_def tiny_fields [OF assms] hot_of_def demo_fields(1))
  ultimately show ?thesis
    using demo_vkernels_ok by (simp add: consumer_ok_def tiny_fields [OF assms] builds_all_def futures_ok_def pins_ok_def)
qed

end
