(* ===== verification/Ling_Engine.thy ===== *)
theory Ling_Engine
  imports Engine Consumers
begin

text \<open>
  The ling engine: the layer scoping of \<open>load_installed\<close> and the hooks of \<open>Ling8BEngine\<close>
  (\<open>edge0/engine/ling.py\<close>), with the decoder layer and the model loop they drive
  (\<open>BailingDecoderLayer.__call__\<close> and \<open>BailingModel.__call__\<close> of
  \<open>backends/mlx/_impl/bailing_hybrid.py\<close>). Attention with its cache, norms, the dense MLPs, the
  embedding, the output head and the clip are the functions of the record \<open>ling_model\<close>; a hidden state
  is one row per position.
\<close>

section \<open>The model and the world\<close>

record 'kv ling_model =
  lm_n :: nat
  lm_embed :: "nat list \<Rightarrow> real list list"
  lm_attend :: "nat \<Rightarrow> real list list \<Rightarrow> 'kv \<Rightarrow> real list list \<times> 'kv"
  lm_norm :: "nat \<Rightarrow> real list list \<Rightarrow> real list list"
  lm_dense :: "nat \<Rightarrow> real list list \<Rightarrow> real list list"
  lm_first_moe :: nat
  lm_args :: "real gate_args"
  lm_bias :: "nat \<Rightarrow> real list"
  lm_gate :: "nat \<Rightarrow> real list \<Rightarrow> real list"
  lm_shared :: "nat \<Rightarrow> real list \<Rightarrow> real list"
  lm_feature :: string
  lm_intra :: bool
  lm_pre :: bool
  lm_start :: int
  lm_clip :: "real list list \<Rightarrow> real list list"
  lm_final :: "real list list \<Rightarrow> real list list"
  lm_head :: "real list \<Rightarrow> real list"
  lm_kv0 :: 'kv
  lm_R :: "real rkernels"
  lm_K :: "real list kernels"
  lm_HK :: "real hkernels"
  lm_pins :: "nat \<Rightarrow> nat list \<times> (nat list \<Rightarrow> nat list)"
  lm_wait :: "nat \<Rightarrow> timing"
  lm_tm :: "int \<Rightarrow> timing \<times> timing"

record ling_cfg =
  lg_spec :: moe_spec
  lg_prerouter :: "prerouter_spec option"
  lg_top_k :: nat
  lg_history_slots :: bool
  lg_prefetch_history :: bool
  lg_full_prefill :: bool
  lg_full_n :: nat
  lg_hot_n :: nat
  lg_chunk :: int
  lg_heads :: "int \<Rightarrow> real head res"

record 'kv ling_world =
  gw_players :: "player layer_dict"
  gw_stager :: "((real, bmap) lworld, real) stager"
  gw_pstate :: "real pstate"
  gw_kv :: 'kv
  gw_jobs :: "(nat \<times> nat \<times> bmap res) list"

section \<open>Loading: which layers keep staged slots\<close>

definition first_pg_consumer :: "ling_cfg \<Rightarrow> int" where
  "first_pg_consumer c = (case lg_prerouter c of None \<Rightarrow> 0 | Some p \<Rightarrow> pp_start p + 1)"

definition ling_scope :: "ling_cfg \<Rightarrow> player layer_dict \<Rightarrow> player layer_dict" where
  "ling_scope c d =
     (if lg_history_slots c then d
      else map (\<lambda>(li, p). (li, if lg_prerouter c = None \<or> int li < first_pg_consumer c then unstaged p else p)) d)"

text \<open>Whether \<open>load_installed\<close> makes a stager: a prerouter with a weights file.\<close>

definition has_stager :: "ling_cfg \<Rightarrow> bool" where
  "has_stager c = (case lg_prerouter c of None \<Rightarrow> False | Some p \<Rightarrow> pp_weights_file p \<noteq> '''')"

section \<open>One decoder layer\<close>

definition has_prerouter :: "'kv ling_model \<Rightarrow> nat \<Rightarrow> bool" where
  "has_prerouter M li \<longleftrightarrow> lm_pre M \<and> lm_start M - 1 \<le> int li \<and> li < lm_n M - 1"

definition use_prerouter :: "'kv ling_model \<Rightarrow> nat \<Rightarrow> bool" where
  "use_prerouter M li \<longleftrightarrow> lm_pre M \<and> lm_start M \<le> int li \<and> li < lm_n M"

text \<open>
  The MLP is sparse from \<open>first_k_dense_replace\<close> on; its experts are the streaming twin that the installer
  put there (without one the attribute is missing). A block whose routing raises leaves \<open>last_topk\<close> as it was.
\<close>

definition ling_layer ::
  "'kv ling_model \<Rightarrow> nat \<Rightarrow> real list option \<Rightarrow> real list list \<Rightarrow> 'kv ling_world \<Rightarrow> (real list list res \<times> 'kv ling_world) option" where
  "ling_layer M li prev h W =
     (let (h, kv) = lm_attend M li h (gw_kv W);
          m_in = lm_norm M li h;
          S = gw_stager W; w = sg_world S;
          w = w\<lparr>lw_m_in := (lw_m_in w)(int li := if has_prerouter M li then Some m_in else None)\<rparr>;
          W = W\<lparr>gw_kv := kv, gw_stager := S\<lparr>sg_world := w\<rparr>\<rparr>
      in if li < lm_first_moe M then Some (Inr (add_rows h (lm_dense M li m_in)), W)
         else
           (case map_of (gw_players W) li of
              None \<Rightarrow> Some (Inl AttributeError, W)
            | Some p \<Rightarrow>
                (case bailing_call (lm_R M) (lm_args M) (lm_bias M li)
                        \<lparr>bf_use_prerouter = use_prerouter M li, bf_feature_topk = lm_feature M, bf_intra = lm_intra M\<rparr>
                        (lm_gate M li) (lm_shared M li)
                        (\<lambda>inds. forward (lm_K M) (lc_fused (p_cfg p)) (build_of p) (lm_pins M li) (lm_wait M li) m_in (Some inds))
                        prev m_in (p_layer p) of
                   None \<Rightarrow> None
                 | Some (r, feat, L) \<Rightarrow>
                     Some (res_bind r (\<lambda>out. Inr (add_rows h out)),
                       W\<lparr>gw_players := set_layer li p L (gw_players W),
                         gw_stager := S\<lparr>sg_world :=
                           (if isl r \<and> feat = None then w else w\<lparr>lw_last_topk := (lw_last_topk w)(int li := feat)\<rparr>)\<rparr>\<rparr>))))"

section \<open>The model loop\<close>

text \<open>\<open>before\<close> is the callback on the shared layers; the cached logits go to the layers that use them.\<close>

fun ling_layers ::
  "'kv ling_model \<Rightarrow> (nat \<Rightarrow> player layer_dict \<Rightarrow> unit res \<times> player layer_dict) \<Rightarrow> (int \<times> real list) list option \<Rightarrow> nat list \<Rightarrow>
     real list list \<Rightarrow> 'kv ling_world \<Rightarrow> (real list list res \<times> 'kv ling_world) option" where
  "ling_layers M before cache [] h W = Some (Inr h, W)"
| "ling_layers M before cache (li # lis) h W =
     (case before li (gw_players W) of
        (Inl e, d) \<Rightarrow> Some (Inl e, W\<lparr>gw_players := d\<rparr>)
      | (Inr _, d) \<Rightarrow>
          (case ling_layer M li (case cache of None \<Rightarrow> None | Some pg \<Rightarrow> if use_prerouter M li then map_of pg (int li) else None)
                  h (W\<lparr>gw_players := d\<rparr>) of
             None \<Rightarrow> None
           | Some (Inl e, W) \<Rightarrow> Some (Inl e, W)
           | Some (Inr h, W) \<Rightarrow> ling_layers M before cache lis (lm_clip M h) W))"

section \<open>The stager on the shared layers\<close>

definition ling_stager_class :: "'kv ling_model \<Rightarrow> ling_cfg \<Rightarrow> player layer_dict \<Rightarrow> ((real, bmap) lworld, real) stager_class" where
  "ling_stager_class M c d =
     ling_class (lm_R M) (lg_spec c) (lg_top_k c) (dict_build d) (lm_tm M) (lg_heads c) (stream_layers d \<noteq> [])"

definition ling_stage_all :: "'kv ling_model \<Rightarrow> ling_cfg \<Rightarrow> 'kv ling_world \<Rightarrow> unit res \<times> 'kv ling_world" where
  "ling_stage_all M c W =
     (let d = gw_players W; S = gw_stager W in
      case stage_all (ling_stager_class M c d) (lm_HK M) (ps_owners (gw_pstate W))
             (S\<lparr>sg_world := (sg_world S)\<lparr>lw_layers := stream_layers d\<rparr>\<rparr>) of
        (r, S) \<Rightarrow> (res_bind r (\<lambda>_. Inr ()), W\<lparr>gw_stager := S, gw_players := put_back (lw_layers (sg_world S)) d\<rparr>))"

section \<open>The hooks of the engine\<close>

definition ling_hook_cfg :: "ling_cfg \<Rightarrow> hook_cfg" where
  "ling_hook_cfg c = \<lparr>ho_full_layer = lg_full_prefill c, ho_full_n = lg_full_n c, ho_hot_n = lg_hot_n c, ho_window = 1\<rparr>"

definition ling_forward ::
  "'kv ling_model \<Rightarrow> ling_cfg \<Rightarrow> bool \<Rightarrow> nat list \<Rightarrow> 'kv ling_world \<Rightarrow> (real list res \<times> 'kv ling_world) option" where
  "ling_forward M c active ids W =
     (let prefill_multi = length ids > 1 \<and> active;
          full_layer = prefill_multi \<and> gw_players W \<noteq> [] \<and> lg_full_prefill c;
          before = (if prefill_multi \<and> (full_layer \<or> lg_hot_n c \<noteq> 0) then before_layer (ling_hook_cfg c) else no_hook)
      in case ling_layers M before (if has_stager c then Some (lw_pg_cache (sg_world (gw_stager W))) else None)
                [0..<lm_n M] (lm_embed M ids) W of
           None \<Rightarrow> None
         | Some (Inl e, W) \<Rightarrow> Some (Inl e, W)
         | Some (Inr h, W) \<Rightarrow>
             if h = [] then Some (Inl IndexError, W)
             else let logits = lm_head M (last (lm_final M h)) in
               if has_stager c \<and> \<not> active \<and> length ids = 1
               then (case ling_stage_all M c W of (r, W) \<Rightarrow> Some (res_bind r (\<lambda>_. Inr logits), W))
               else Some (Inr logits, W))"

definition on_players ::
  "(nat \<Rightarrow> player \<Rightarrow> (unit res \<times> player) option) \<Rightarrow> 'kv ling_world \<Rightarrow> (unit res \<times> 'kv ling_world) option" where
  "on_players f W = map_option (\<lambda>(r, d). (r, W\<lparr>gw_players := d\<rparr>)) (each_player f (gw_players W))"

definition ling_step_pre :: "'kv ling_model \<Rightarrow> ling_cfg \<Rightarrow> nat \<Rightarrow> 'kv ling_world \<Rightarrow> (unit res \<times> 'kv ling_world) option" where
  "ling_step_pre M c t W =
     (if has_stager c then
        on_players (\<lambda>li p. if int li < first_pg_consumer c \<and> s_mode (p_layer p) then stage_last (lm_tm M (int li)) p else Some (Inr (), p)) W
      else if lg_prefetch_history c then
        (case history_prefetch (\<lambda>li. dict_build (gw_players W) (int li)) (map (\<lambda>(li, p). (li, p_layer p)) (gw_players W)) of
           (jobs, ls) \<Rightarrow>
             Some (Inr (), W\<lparr>gw_players := put_back (map (\<lambda>(li, L). (int li, L)) ls) (gw_players W), gw_jobs := gw_jobs W @ jobs\<rparr>))
      else Some (Inr (), W))"

definition ling_step_post :: "'kv ling_model \<Rightarrow> ling_cfg \<Rightarrow> nat \<Rightarrow> 'kv ling_world \<Rightarrow> (unit res \<times> 'kv ling_world) option" where
  "ling_step_post M c t W =
     (if has_stager c then
        on_players (\<lambda>li p.
          if int li < first_pg_consumer c then (if s_mode (p_layer p) then history_step (lm_tm M (int li)) (lm_wait M li) p else Some (Inr (), p))
          else if s_mode (p_layer p) then Some (Inr (), p\<lparr>p_layer := sync_actuals (p_layer p)\<rparr>)
          else Some (Inr (), p)) W
      else on_players (\<lambda>li p. if s_mode (p_layer p) then history_step (lm_tm M (int li)) (lm_wait M li) p else Some (Inr (), p)) W)"

definition ling_prefill_end :: "'kv ling_model \<Rightarrow> ling_cfg \<Rightarrow> 'kv ling_world \<Rightarrow> (unit res \<times> 'kv ling_world) option" where
  "ling_prefill_end M c W =
     (let W = W\<lparr>gw_players := map (\<lambda>(li, p). (li, clear_full_layer p)) (gw_players W)\<rparr> in
      if has_stager c then
        (case ling_stage_all M c W of
           (Inl e, W) \<Rightarrow> Some (Inl e, W)
         | (Inr _, W) \<Rightarrow>
             if lg_history_slots c
             then on_players (\<lambda>li p. if int li < first_pg_consumer c then from_prefill (lm_tm M (int li)) p else Some (Inr (), p)) W
             else Some (Inr (), W))
      else on_players (\<lambda>li p. from_prefill (lm_tm M (int li)) p) W)"

definition clear_captures :: "int list \<Rightarrow> ('a, 'b) lworld \<Rightarrow> ('a, 'b) lworld" where
  "clear_captures owners w =
     w\<lparr>lw_last_topk := (\<lambda>i. if i \<in> set owners then None else lw_last_topk w i),
       lw_prev_oh := (\<lambda>i. if i \<in> set owners then None else lw_prev_oh w i),
       lw_m_in := (\<lambda>i. if i \<in> set owners then None else lw_m_in w i)\<rparr>"

definition ling_reset :: "'kv ling_model \<Rightarrow> ling_cfg \<Rightarrow> 'kv ling_world \<Rightarrow> 'kv ling_world" where
  "ling_reset M c W =
     (let W = W\<lparr>gw_kv := lm_kv0 M\<rparr>;
          W = (if has_stager c then
                 let S = ling_stager_reset (gw_stager W) in
                 W\<lparr>gw_pstate := pstate_reset (gw_pstate W),
                   gw_stager := S\<lparr>sg_world := clear_captures (ps_owners (gw_pstate W)) (sg_world S)\<rparr>\<rparr>
               else W)
      in W\<lparr>gw_players := map (\<lambda>(li, p). (li, p\<lparr>p_layer := reset_layer (p_layer p)\<rparr>)) (gw_players W)\<rparr>)"

definition ling_close :: "'kv ling_world \<Rightarrow> 'kv ling_world" where
  "ling_close W = W\<lparr>gw_players := map (\<lambda>(li, p). (li, p\<lparr>p_layer := close_layer (p_layer p)\<rparr>)) (gw_players W)\<rparr>"

definition ling_family :: "'kv ling_model \<Rightarrow> ling_cfg \<Rightarrow> ('kv ling_world, real) family" where
  "ling_family M c =
     \<lparr>fa_forward = ling_forward M c, fa_step_pre = ling_step_pre M c, fa_step_post = ling_step_post M c,
      fa_prefill_end = ling_prefill_end M c, fa_reset = ling_reset M c, fa_close = ling_close, fa_chunk = lg_chunk c\<rparr>"

section \<open>The step boundary leaves the predictions alone\<close>

definition scoped :: "ling_cfg \<Rightarrow> player layer_dict \<Rightarrow> bool" where
  "scoped c d \<longleftrightarrow> (\<forall>(li, p) \<in> set d. s_mode (p_layer p) \<longrightarrow> first_pg_consumer c \<le> int li)"

lemma boundary_hooks:
  assumes "has_stager c" and "scoped c (gw_players W)"
  shows "ling_step_pre M c t W = Some (Inr (), W)"
    and "ling_step_post M c t W = Some (Inr (), W\<lparr>gw_players := map (\<lambda>(li, p).
      (li, if s_mode (p_layer p) then p\<lparr>p_layer := sync_actuals (p_layer p)\<rparr> else p)) (gw_players W)\<rparr>)"
proof -
  have kept: "first_pg_consumer c \<le> int li" if "(li, p) \<in> set (gw_players W)" "s_mode (p_layer p)" for li p
    using that assms(2) by (auto simp: scoped_def)
  let ?pre = "\<lambda>li p. if int li < first_pg_consumer c \<and> s_mode (p_layer p) then stage_last (lm_tm M (int li)) p else Some (Inr (), p)"
  have "each_player ?pre (gw_players W) = Some (Inr (), map (\<lambda>(li, p). (li, p)) (gw_players W))"
    by (rule each_player_total) (use kept in force)
  then show "ling_step_pre M c t W = Some (Inr (), W)" using assms(1) by (simp add: ling_step_pre_def on_players_def)
  let ?post = "\<lambda>li p. if int li < first_pg_consumer c then (if s_mode (p_layer p) then history_step (lm_tm M (int li)) (lm_wait M li) p else Some (Inr (), p))
          else if s_mode (p_layer p) then Some (Inr (), p\<lparr>p_layer := sync_actuals (p_layer p)\<rparr>)
          else Some (Inr (), p)"
  have "each_player ?post (gw_players W) = Some (Inr (), map (\<lambda>(li, p).
      (li, if s_mode (p_layer p) then p\<lparr>p_layer := sync_actuals (p_layer p)\<rparr> else p)) (gw_players W))"
    by (rule each_player_total) (use kept in force)
  then show "ling_step_post M c t W = Some (Inr (), W\<lparr>gw_players := map (\<lambda>(li, p).
      (li, if s_mode (p_layer p) then p\<lparr>p_layer := sync_actuals (p_layer p)\<rparr> else p)) (gw_players W)\<rparr>)"
    using assms(1) by (simp add: ling_step_post_def on_players_def)
qed

text \<open>
  Scoping. After loading with the prerouter and without \<open>history_slots\<close>, a layer keeps staged slots
  exactly when it was configured to and is a consumer. Whatever happens to the layers later (their mode
  never changes), the hooks around a decode step neither stage, prefetch, swap nor wait for anything:
  \<open>_step_pre\<close> changes nothing, and \<open>_step_post\<close> only records the actual experts of the consumers.
\<close>

theorem ling_boundary_only_records:
  assumes "has_stager c" and "\<not> lg_history_slots c"
    and "gw_players W = map (\<lambda>(li, p). (li, later li p)) (ling_scope c d)"
    and "\<And>li p. s_mode (p_layer (later li p)) = s_mode (p_layer p)"
  shows "(\<forall>li p. (li, p) \<in> set d \<longrightarrow> (\<exists>p'. (li, p') \<in> set (ling_scope c d) \<and>
      (s_mode (p_layer p') \<longleftrightarrow> s_mode (p_layer p) \<and> first_pg_consumer c \<le> int li))) \<and>
    ling_step_pre M c t W = Some (Inr (), W) \<and>
    ling_step_post M c t W = Some (Inr (), W\<lparr>gw_players := map (\<lambda>(li, p).
      (li, if s_mode (p_layer p) then p\<lparr>p_layer := sync_actuals (p_layer p)\<rparr> else p)) (gw_players W)\<rparr>)"
proof -
  have some: "lg_prerouter c \<noteq> None" using assms(1) by (auto simp: has_stager_def split: option.splits)
  have "scoped c (ling_scope c d)" using assms(2) by (auto simp: scoped_def ling_scope_def unstaged_def split: if_splits)
  then have sc: "scoped c (gw_players W)" unfolding assms(3) using assms(4) by (fastforce simp: scoped_def)
  have "\<exists>p'. (li, p') \<in> set (ling_scope c d) \<and> (s_mode (p_layer p') \<longleftrightarrow> s_mode (p_layer p) \<and> first_pg_consumer c \<le> int li)"
    if "(li, p) \<in> set d" for li p
    by (rule exI [of _ "if int li < first_pg_consumer c then unstaged p else p"])
      (use that some assms(2) in \<open>force simp: ling_scope_def unstaged_def image_iff\<close>)
  then show ?thesis using boundary_hooks [OF assms(1) sc] by blast
qed

section \<open>The decode step drops nothing\<close>

lemma ready_call:
  assumes r: "ready f (lm_K M) (lm_pins M li) p inds" and sel: "bailing_select (lm_R M) (lm_args M) lg = Inr (inds, ws)"
    and fl: "bf_use_prerouter fl"
    and run: "bailing_call (lm_R M) (lm_args M) bias fl gate shared
      (\<lambda>js. forward (lm_K M) fused (build_of p) (lm_pins M li) t xs (Some js)) (Some lg) xs (p_layer p) = Some (Inr out, feat, L')"
  shows "no_drop inds (p_layer p) L'"
proof -
  obtain feat' where route: "bailing_route (lm_R M) (lm_args M) bias fl gate (Some lg) xs = Inr ([(inds, ws)], feat')" "length xs = 1"
    using run sel fl by (auto simp: bailing_call_def bailing_route_def res_bind_def split: sum.splits if_splits)
  then obtain x where xs: "xs = [x]" by (auto simp: length_Suc_conv)
  have "moe_apply shared (\<lambda>js. forward (lm_K M) fused (build_of p) (lm_pins M li) t xs (Some js)) xs [(inds, ws)] (p_layer p)
      = Some (Inr out, L')" using run route(1) by (auto simp: bailing_call_def)
  then show ?thesis using ready_apply [OF r, of shared fused t x ws] by (auto simp: xs)
qed

lemma ling_layer_frame:
  assumes "ling_layer M li prev h W = Some (r, W')" and "lj \<noteq> li"
  shows "map_of (gw_players W') lj = map_of (gw_players W) lj"
  using assms by (auto simp: ling_layer_def Let_def set_layer_def update_conv'
      split: prod.splits option.splits if_splits)

lemma ling_layer_ready:
  assumes run: "ling_layer M li (Some lg) h W = Some (Inr h', W')" and p: "map_of (gw_players W) li = Some p"
    and r: "ready f (lm_K M) (lm_pins M li) p inds" and sel: "bailing_select (lm_R M) (lm_args M) lg = Inr (inds, ws)"
    and li: "use_prerouter M li" "lm_first_moe M \<le> li"
  shows "\<exists>p'. map_of (gw_players W') li = Some p' \<and> p_cfg p' = p_cfg p \<and> p_backing p' = p_backing p \<and>
    no_drop inds (p_layer p) (p_layer p')"
proof -
  obtain h1 kv where a: "lm_attend M li h (gw_kv W) = (h1, kv)" by fastforce
  let ?m = "lm_norm M li h1"
  obtain out feat L' where call: "bailing_call (lm_R M) (lm_args M) (lm_bias M li)
      \<lparr>bf_use_prerouter = use_prerouter M li, bf_feature_topk = lm_feature M, bf_intra = lm_intra M\<rparr>
      (lm_gate M li) (lm_shared M li)
      (\<lambda>inds. forward (lm_K M) (lc_fused (p_cfg p)) (build_of p) (lm_pins M li) (lm_wait M li) ?m (Some inds))
      (Some lg) ?m (p_layer p) = Some (Inr out, feat, L')"
    and W': "gw_players W' = set_layer li p L' (gw_players W)"
    using run p li(2) a by (auto simp: ling_layer_def Let_def res_bind_def split: option.splits prod.splits sum.splits)
  have "no_drop inds (p_layer p) L'" using ready_call [OF r sel _ call] li(1) by simp
  then show ?thesis unfolding W' set_layer_def by (simp add: update_conv')
qed

lemma ling_layers_plain:
  "ling_layers M no_hook cache (li # lis) h W =
     (case ling_layer M li (case cache of None \<Rightarrow> None | Some pg \<Rightarrow> if use_prerouter M li then map_of pg (int li) else None) h W of
        None \<Rightarrow> None
      | Some (Inl e, W) \<Rightarrow> Some (Inl e, W)
      | Some (Inr h, W) \<Rightarrow> ling_layers M no_hook cache lis (lm_clip M h) W)"
  by (subst ling_layers.simps(2), subst no_hook_def) simp

lemma ling_layers_frame:
  assumes "ling_layers M no_hook cache lis h W = Some (r, W')" and "lj \<notin> set lis"
  shows "map_of (gw_players W') lj = map_of (gw_players W) lj"
  using assms
proof (induction lis arbitrary: h W)
  case (Cons li lis)
  let ?prev = "case cache of None \<Rightarrow> None | Some pg \<Rightarrow> if use_prerouter M li then map_of pg (int li) else None"
  obtain q W1 where q: "ling_layer M li ?prev h W = Some (q, W1)"
    using Cons.prems(1) by (auto simp: ling_layers_plain simp del: ling_layers.simps(2) split: option.splits)
  have "map_of (gw_players W1) lj = map_of (gw_players W) lj" by (rule ling_layer_frame [OF q]) (use Cons.prems(2) in auto)
  then show ?case using Cons q by (cases q) (auto simp: ling_layers_plain simp del: ling_layers.simps(2))
qed simp

lemma ling_layers_ready:
  assumes "ling_layers M no_hook (Some pg) lis h W = Some (Inr h', W')" and "distinct lis" and "li \<in> set lis"
    and "map_of (gw_players W) li = Some p" and "ready f (lm_K M) (lm_pins M li) p inds"
    and "map_of pg (int li) = Some lg" and "bailing_select (lm_R M) (lm_args M) lg = Inr (inds, ws)"
    and "use_prerouter M li" and "lm_first_moe M \<le> li"
  shows "\<exists>p'. map_of (gw_players W') li = Some p' \<and> no_drop inds (p_layer p) (p_layer p')"
  using assms(1-4)
proof (induction lis arbitrary: h W)
  case (Cons lj lis)
  let ?prev = "if use_prerouter M lj then map_of pg (int lj) else None"
  obtain h1 W1 where q: "ling_layer M lj ?prev h W = Some (Inr h1, W1)"
    and rest: "ling_layers M no_hook (Some pg) lis (lm_clip M h1) W1 = Some (Inr h', W')"
    using Cons.prems(1) by (auto simp: ling_layers_plain simp del: ling_layers.simps(2) split: option.splits sum.splits)
  show ?case
  proof (cases "lj = li")
    case True
    then have "ling_layer M li (Some lg) h W = Some (Inr h1, W1)" using q assms(6,8) by simp
    from ling_layer_ready [OF this Cons.prems(4) assms(5,7,8,9)] obtain p' where
      p': "map_of (gw_players W1) li = Some p'" "no_drop inds (p_layer p) (p_layer p')" by blast
    have "map_of (gw_players W') li = map_of (gw_players W1) li"
      by (rule ling_layers_frame [OF rest]) (use Cons.prems(2) True in simp)
    then show ?thesis using p' by simp
  next
    case False
    have "map_of (gw_players W1) li = Some p" using ling_layer_frame [OF q] False Cons.prems(4) by simp
    then show ?thesis using Cons.IH [OF rest] Cons.prems(2,3) False by simp
  qed
qed simp

text \<open>What the pass at the step boundary leaves at a consumer.\<close>

lemma ling_stage_all_consumer:
  assumes run: "ling_stage_all M c W = (Inr (), W1)"
    and d: "distinct (map fst (gw_players W))" and owners: "distinct (ps_owners (gw_pstate W))" "\<forall>o' \<in> set (ps_owners (gw_pstate W)). 0 \<le> o'"
    and ok: "stacked_ok (ling_stager_class M c (gw_players W)) (gw_stager W)"
    and fit: "heads_fit (ling_stager_class M c (gw_players W)) (ps_owners (gw_pstate W)) H (d1, d2, d3)
      (hid, ga_num_experts (lm_args M)) (sg_world (gw_stager W))"
    and here: "int o' \<in> set (ps_owners (gw_pstate W))"
      "ling_features (num_experts (lg_spec c)) (int o') (sg_world (gw_stager W)) = Inr (Some feats)"
    and p: "map_of (gw_players W) (Suc o') = Some p" "s_mode (p_layer p)" "lm_tm M (int (Suc o')) = (u, v)"
    and R: "rkernels_ok (lm_R M)" "gate_fits (lg_spec c) (lm_args M) (lg_top_k c)" "0 < lg_top_k c"
  shows "\<exists>lg inds ws. map_of (lw_pg_cache (sg_world (gw_stager W1))) (int (Suc o')) = Some lg \<and>
    bailing_select (lm_R M) (lm_args M) lg = Inr (inds, ws) \<and> length inds = lg_top_k c \<and>
    (\<forall>e \<in> set inds. e < ga_num_experts (lm_args M)) \<and>
    map_of (gw_players W1) (Suc o') =
      Some (p\<lparr>p_layer := snd (stage_experts (build_of p) (u, v) (uniq inds) (p_layer p))\<rparr>)"
proof -
  let ?d = "gw_players W" and ?c = "int o' + 1"
  define C where "C = ling_stager_class M c ?d"
  define S where "S = (gw_stager W)\<lparr>sg_world := (sg_world (gw_stager W))\<lparr>lw_layers := stream_layers ?d\<rparr>\<rparr>"
  have C: "C = ling_class (lm_R M) (lg_spec c) (lg_top_k c) (dict_build ?d) (lm_tm M) (lg_heads c) True"
  proof -
    have "(Suc o', p) \<in> set (filter (\<lambda>(li, p). s_mode (p_layer p)) ?d)" using p(1,2) by (auto dest: map_of_SomeD)
    then have "stream_layers ?d \<noteq> []"
      unfolding stream_layers_def map_is_Nil_conv by (rule length_pos_if_in_set [THEN length_greater_0_conv [THEN iffD1]])
    then show ?thesis by (simp add: C_def ling_stager_class_def)
  qed
  obtain r S' where st': "stage_all C (lm_HK M) (ps_owners (gw_pstate W)) S = (r, S')" by fastforce
  have "ling_stage_all M c W = (res_bind r (\<lambda>_. Inr ()), W\<lparr>gw_stager := S', gw_players := put_back (lw_layers (sg_world S')) ?d\<rparr>)"
    using st' by (simp add: ling_stage_all_def C_def S_def Let_def)
  then obtain sets where W1: "W1 = W\<lparr>gw_stager := S', gw_players := put_back (lw_layers (sg_world S')) ?d\<rparr>" and "r = Inr sets"
    using run by (cases r) simp_all
  then have st: "stage_all C (lm_HK M) (ps_owners (gw_pstate W)) S = (Inr sets, S')" using st' by simp
  have same: "ling_features n i (sg_world S) = ling_features n i (sg_world (gw_stager W))" for n i
    by (cases "lw_m_in (sg_world (gw_stager W)) i") (simp_all add: ling_features_def S_def)
  have ok': "stacked_ok C S" using ok by (simp add: stacked_ok_def C_def S_def)
  have fit': "heads_fit C (ps_owners (gw_pstate W)) H (d1, d2, d3) (hid, ga_num_experts (lm_args M)) (sg_world S)"
    using fit by (simp add: heads_fit_def C_def [symmetric]) (simp add: C ling_class_def same)
  have sc: "sc_features C = ling_features (num_experts (lg_spec c))" "sc_select C = ling_select (lm_R M) (lg_spec c) (lg_top_k c)"
    "sc_streams C = True" by (simp_all add: C ling_class_def)
  have feats: "ling_features (num_experts (lg_spec c)) (int o') (sg_world S) = Inr (Some feats)" using here(2) same by simp
  note pass = ling.stage_all_result [OF st[unfolded C] ok'[unfolded C] fit'[unfolded C] owners,
      unfolded ling.passed_def ling.staged_if_def, folded C, unfolded sc simp_thms if_True]
  obtain lg inds sc where q: "head_call (lm_HK M) (H (int o')) feats = Inr lg"
    "ling_select (lm_R M) (lg_spec c) (lg_top_k c) lg = Inr (inds, sc)"
    "map_of (lw_pg_cache (sg_world S')) ?c = Some lg"
    "map_of (lw_layers (sg_world S')) ?c =
       (if inds \<noteq> [] then map_option (layer_staged (dict_build ?d) (lm_tm M) ?c (uniq inds)) (map_of (lw_layers (sg_world S)) ?c)
        else map_of (lw_layers (sg_world S)) ?c)"
    using pass here(1) feats by blast
  have "head_ok (d1 + d2 + d3) hid (ga_num_experts (lm_args M)) (H (int o'))" using fit here(1) by (auto simp: heads_fit_def)
  then have lg: "length lg = ga_num_experts (lm_args M)" using head_call_length [OF q(1)] by blast
  obtain ws where sel: "bailing_select (lm_R M) (lm_args M) lg = Inr (inds, ws)" "length inds = lg_top_k c"
    "\<forall>e \<in> set inds. e < ga_num_experts (lm_args M)"
    using ling_select_is_bailing [OF R(1,2) lg] q(2) by (metis old.sum.inject(2) Pair_inject)
  have ne: "inds \<noteq> []" using sel(2) R(3) by auto
  have c': "?c = int (Suc o')" by simp
  have "map_of (stream_layers ?d) ?c = Some (p_layer p)"
    unfolding c' using map_of_stream_layers [OF d, of "Suc o'"] p(1,2) by simp
  moreover have "dict_build ?d ?c = build_of p" using p(1) by (auto simp: dict_build_def nat_add_distrib)
  ultimately have "map_of (lw_layers (sg_world S')) (int (Suc o')) =
      Some (snd (stage_experts (build_of p) (u, v) (uniq inds) (p_layer p)))"
    using q(4) ne p(3) by (simp add: layer_staged_def S_def add.commute)
  then show ?thesis using sel q(3) p(1) by (auto simp: W1 map_of_put_back add.commute)
qed

lemma boundary_ready:
  assumes boundary: "ling_stage_all M c W = (Inr (), W1)"
    and landed: "W2 = W1\<lparr>gw_players := map (\<lambda>(li, p). (li, p\<lparr>p_layer := fill_lands (build_of p) t (p_layer p)\<rparr>)) (gw_players W1)\<rparr>"
    and hooks: "ling_step_post M c tok W2 = Some (Inr (), W3)" "ling_step_pre M c tok' W3 = Some (Inr (), W4)"
    and scoped: "has_stager c" "scoped c (gw_players W2)"
    and d: "distinct (map fst (gw_players W))" and owners: "distinct (ps_owners (gw_pstate W))" "\<forall>o' \<in> set (ps_owners (gw_pstate W)). 0 \<le> o'"
    and ok: "stacked_ok (ling_stager_class M c (gw_players W)) (gw_stager W)"
    and fit: "heads_fit (ling_stager_class M c (gw_players W)) (ps_owners (gw_pstate W)) H (d1, d2, d3)
      (hid, ga_num_experts (lm_args M)) (sg_world (gw_stager W))"
    and here: "int o' \<in> set (ps_owners (gw_pstate W))"
      "ling_features (num_experts (lg_spec c)) (int o') (sg_world (gw_stager W)) = Inr (Some feats)"
    and p: "map_of (gw_players W) (Suc o') = Some p" "s_mode (p_layer p)" "lm_tm M (int (Suc o')) = (u, v)"
      "consumer_ok f (lm_K M) (build_of p) (lm_pins M (Suc o')) (lg_top_k c) (p_layer p)" "s_sync (p_layer p) \<or> v = Late" "l_num (p_layer p) = ga_num_experts (lm_args M)"
    and R: "rkernels_ok (lm_R M)" "gate_fits (lg_spec c) (lm_args M) (lg_top_k c)"
  shows "\<exists>lg inds ws p4. bailing_select (lm_R M) (lm_args M) lg = Inr (inds, ws) \<and>
    map_of (lw_pg_cache (sg_world (gw_stager W4))) (int (Suc o')) = Some lg \<and> gw_kv W4 = gw_kv W \<and>
    map_of (gw_players W4) (Suc o') = Some p4 \<and> p_cfg p4 = p_cfg p \<and> ready f (lm_K M) (lm_pins M (Suc o')) p4 inds"
proof -
  let ?i = "Suc o'"
  have k: "0 < lg_top_k c" using p(4) by (simp add: consumer_ok_def)
  obtain lg inds ws where q: "map_of (lw_pg_cache (sg_world (gw_stager W1))) (int ?i) = Some lg"
    "bailing_select (lm_R M) (lm_args M) lg = Inr (inds, ws)" "length inds = lg_top_k c" "\<forall>e \<in> set inds. e < ga_num_experts (lm_args M)"
    "map_of (gw_players W1) ?i = Some (p\<lparr>p_layer := snd (stage_experts (build_of p) (u, v) (uniq inds) (p_layer p))\<rparr>)"
    using ling_stage_all_consumer [OF boundary d owners ok fit here p(1-3) R k] by blast
  let ?p1 = "p\<lparr>p_layer := snd (stage_experts (build_of p) (u, v) (uniq inds) (p_layer p))\<rparr>"
  let ?p2 = "p\<lparr>p_layer := fill_lands (build_of p) t (snd (stage_experts (build_of p) (u, v) (uniq inds) (p_layer p)))\<rparr>"
  have p2: "map_of (gw_players W2) ?i = Some ?p2" using q(5) by (simp add: landed map_of_map_snd build_of_def)
  have r2: "ready f (lm_K M) (lm_pins M ?i) ?p2 inds" by (rule ready_lands(1) [OF p(4,5) q(3)]) (use q(4) p(6) in simp)
  then have mode: "s_mode (p_layer ?p2)" by (simp add: ready_def Let_def)
  have W4: "W4 = W3"
  proof -
    have W3: "W3 = W2\<lparr>gw_players := map (\<lambda>(li, p). (li, if s_mode (p_layer p) then p\<lparr>p_layer := sync_actuals (p_layer p)\<rparr> else p)) (gw_players W2)\<rparr>"
      using hooks(1) boundary_hooks(2) [OF scoped] by simp
    have "scoped c (gw_players W3)" using scoped(2) unfolding W3 by (fastforce simp: scoped_def)
    from boundary_hooks(1) [OF scoped(1) this, of M tok'] show ?thesis using hooks(2) by simp
  qed
  let ?p4 = "?p2\<lparr>p_layer := sync_actuals (p_layer ?p2)\<rparr>"
  have W3: "W3 = W2\<lparr>gw_players := map (\<lambda>(li, p). (li, if s_mode (p_layer p) then p\<lparr>p_layer := sync_actuals (p_layer p)\<rparr> else p)) (gw_players W2)\<rparr>"
    using hooks(1) boundary_hooks(2) [OF scoped] by simp
  have p4: "map_of (gw_players W4) ?i = Some ?p4" using p2 mode by (simp add: W4 W3 map_of_map_snd)
  have r4: "ready f (lm_K M) (lm_pins M ?i) ?p4 inds" by (rule ready_sync [OF r2])
  have pg: "map_of (lw_pg_cache (sg_world (gw_stager W4))) (int ?i) = Some lg" using q(1) by (simp add: W4 W3 landed)
  have "gw_kv W1 = gw_kv W" using boundary by (auto simp: ling_stage_all_def Let_def split: prod.splits)
  then show ?thesis using q(2) pg p4 r4 by (intro exI [of _ lg] exI [of _ inds] exI [of _ ws] exI [of _ ?p4]) (simp add: W4 W3 landed)
qed

text \<open>
  C1: zero drops across the whole step (ling). Let the pass at the step boundary succeed, the fills be in
  (when the pass returns in the synchronous modes of the presets; in the asynchronous one, after the pool has
  run the jobs submitted), the boundary's hooks run and the next token go through every layer of the model.
  Take a consumer of an owner with features whose layer is coherent with the checkpoint, keeps staged slots,
  has no fill of its own in flight, and is sized for the selection (as many experts as its trigger, at most
  eight, no more than its slots; the stager's and the block's group settings agree). Then the block routed with
  exactly the selection it makes from the cached logits, the set that was in the slots is exactly that
  selection, and recording the step's actual experts counts no drop.
\<close>

theorem ling_decode_step_no_drops:
  assumes boundary: "ling_stage_all M c W = (Inr (), W1)"
    and landed: "W2 = W1\<lparr>gw_players := map (\<lambda>(li, p). (li, p\<lparr>p_layer := fill_lands (build_of p) t (p_layer p)\<rparr>)) (gw_players W1)\<rparr>"
    and hooks: "ling_step_post M c tok W2 = Some (Inr (), W3)" "ling_step_pre M c tok' W3 = Some (Inr (), W4)"
    and forward: "ling_layers M no_hook (Some (lw_pg_cache (sg_world (gw_stager W4)))) [0..<lm_n M] h W4 = Some (Inr h', W5)"
    and scoped: "has_stager c" "scoped c (gw_players W2)"
    and d: "distinct (map fst (gw_players W))" and owners: "distinct (ps_owners (gw_pstate W))" "\<forall>o' \<in> set (ps_owners (gw_pstate W)). 0 \<le> o'"
    and ok: "stacked_ok (ling_stager_class M c (gw_players W)) (gw_stager W)"
    and fit: "heads_fit (ling_stager_class M c (gw_players W)) (ps_owners (gw_pstate W)) H (d1, d2, d3)
      (hid, ga_num_experts (lm_args M)) (sg_world (gw_stager W))"
    and here: "int o' \<in> set (ps_owners (gw_pstate W))"
      "ling_features (num_experts (lg_spec c)) (int o') (sg_world (gw_stager W)) = Inr (Some feats)"
    and p: "map_of (gw_players W) (Suc o') = Some p" "s_mode (p_layer p)" "lm_tm M (int (Suc o')) = (u, v)"
      "consumer_ok f (lm_K M) (build_of p) (lm_pins M (Suc o')) (lg_top_k c) (p_layer p)" "s_sync (p_layer p) \<or> v = Late" "l_num (p_layer p) = ga_num_experts (lm_args M)"
    and R: "rkernels_ok (lm_R M)" "gate_fits (lg_spec c) (lm_args M) (lg_top_k c)"
    and consumer: "use_prerouter M (Suc o')" "lm_first_moe M \<le> Suc o'"
  shows "\<exists>lg inds ws p4 p5. bailing_select (lm_R M) (lm_args M) lg = Inr (inds, ws) \<and>
    map_of (lw_pg_cache (sg_world (gw_stager W4))) (int (Suc o')) = Some lg \<and>
    map_of (gw_players W4) (Suc o') = Some p4 \<and> map_of (gw_players W5) (Suc o') = Some p5 \<and>
    s_indices (p_layer p5) = Some inds \<and> s_at_use (p_layer p5) = Some (uniq inds) \<and>
    n_staged_dropped (s_sstats (sync_actuals (p_layer p5))) = n_staged_dropped (s_sstats (p_layer p4))"
proof -
  obtain lg inds ws p4 where q: "bailing_select (lm_R M) (lm_args M) lg = Inr (inds, ws)"
    "map_of (lw_pg_cache (sg_world (gw_stager W4))) (int (Suc o')) = Some lg"
    "map_of (gw_players W4) (Suc o') = Some p4" "ready f (lm_K M) (lm_pins M (Suc o')) p4 inds"
    using boundary_ready [OF boundary landed hooks scoped d owners ok fit here p R] by blast
  have "Suc o' \<in> set [0..<lm_n M]" using consumer(1) by (simp add: use_prerouter_def)
  then obtain p5 where "map_of (gw_players W5) (Suc o') = Some p5" "no_drop inds (p_layer p4) (p_layer p5)"
    using ling_layers_ready [OF forward _ _ q(3,4,2,1) consumer] by auto
  then show ?thesis using q by (auto simp: no_drop_def)
qed

section \<open>A two-layer model\<close>

lemmas tiny_fields8 = tiny_fields [OF disjI2 [OF refl]]

lemmas tiny_consumer8 = tiny_consumer [OF disjI2 [OF refl]]

definition tiny_args :: "real gate_args" where
  "tiny_args = \<lparr>ga_num_experts = 2, ga_n_group = 1, ga_topk_group = 1, ga_top_k = 1, ga_norm = True, ga_scaling = 5 / 2,
     ga_bias_enabled = True\<rparr>"

definition tiny_model :: "nat ling_model" where
  "tiny_model = \<lparr>lm_n = 2, lm_embed = map (\<lambda>t. [real t]), lm_attend = (\<lambda>li h kv. (h, Suc kv)), lm_norm = (\<lambda>li h. h),
     lm_dense = (\<lambda>li h. h), lm_first_moe = 1, lm_args = tiny_args, lm_bias = (\<lambda>li. [0, 0]), lm_gate = (\<lambda>li x. [0, 0]),
     lm_shared = (\<lambda>li x. x), lm_feature = ''teacher'', lm_intra = False, lm_pre = True, lm_start = 1, lm_clip = (\<lambda>h. h),
     lm_final = (\<lambda>h. h), lm_head = (\<lambda>x. x), lm_kv0 = 0, lm_R = demo_rk, lm_K = demo_vkernels, lm_HK = demo_rhk,
     lm_pins = (\<lambda>li. ([], id)), lm_wait = (\<lambda>li. Late), lm_tm = (\<lambda>c. (Late, Late))\<rparr>"

definition tiny_cfg :: ling_cfg where
  "tiny_cfg = \<lparr>lg_spec = demo_lspec\<lparr>num_experts := 2, n_group := Some 1, topk_group := Some 1\<rparr>,
     lg_prerouter = Some (default_prerouter\<lparr>pp_start := 0, pp_weights_file := ''w''\<rparr>), lg_top_k = 1, lg_history_slots = False,
     lg_prefetch_history = False, lg_full_prefill = True, lg_full_n = 0, lg_hot_n = 0, lg_chunk = 16,
     lg_heads = (\<lambda>i. Inr tiny_head)\<rparr>"

definition tiny_world :: "nat ling_world" where
  "tiny_world = \<lparr>gw_players = [(1, tiny_player tiny_k8)],
     gw_stager = stager_new True \<lparr>lw_m_in = (\<lambda>i. Some [[1]]), lw_last_topk = (\<lambda>i. Some [[0]]), lw_prev_oh = (\<lambda>i. None),
       lw_pg_cache = [], lw_layers = []\<rparr>,
     gw_pstate = pstate_new 2 2 0 (Some [0]), gw_kv = 0, gw_jobs = []\<rparr>"

lemma tiny_stage_run: "fst (ling_stage_all tiny_model tiny_cfg tiny_world) = Inr ()"
  by code_simp


lemma tiny_stager: "has_stager tiny_cfg" "first_pg_consumer tiny_cfg = 1"
  by (simp_all add: has_stager_def tiny_cfg_def first_pg_consumer_def)

lemma tiny_args_fit: "gate_fits (lg_spec tiny_cfg) tiny_args 1"
  by (simp add: gate_fits_def tiny_cfg_def demo_lspec_def tiny_args_def groups_fit_def)

lemma tiny_fit: "heads_fit (ling_stager_class tiny_model tiny_cfg (gw_players tiny_world)) [0] (\<lambda>i. tiny_head) (1, 2, 2)
    (1, ga_num_experts tiny_args) (sg_world (gw_stager tiny_world))"
  by (auto simp: heads_fit_def ling_stager_class_def ling_class_def head_ok_def matrix_ok_def tiny_head_def ling_features_def
      tiny_world_def tiny_cfg_def stager_new_def topk_onehot_pos_def demo_lspec_def tiny_args_def Let_def split: option.splits)

definition tiny_staged :: "nat ling_world" where
  "tiny_staged = snd (ling_stage_all tiny_model tiny_cfg tiny_world)"

definition tiny_landed :: "nat ling_world" where
  "tiny_landed = tiny_staged\<lparr>gw_players := map (\<lambda>(li, p). (li, p\<lparr>p_layer := fill_lands (build_of p) Late (p_layer p)\<rparr>)) (gw_players tiny_staged)\<rparr>"

definition tiny_recorded :: "nat ling_world" where
  "tiny_recorded = tiny_landed\<lparr>gw_players := map (\<lambda>(li, p). (li, if s_mode (p_layer p) then p\<lparr>p_layer := sync_actuals (p_layer p)\<rparr> else p))
     (gw_players tiny_landed)\<rparr>"

lemma tiny_keys: "fst ` set (gw_players tiny_landed) = {1}" "fst ` set (gw_players tiny_recorded) = {1}"
proof -
  have "map fst (gw_players tiny_staged) = [1]"
    by (auto simp: tiny_staged_def ling_stage_all_def Let_def put_back_def tiny_world_def split: prod.splits)
  then have "map fst (gw_players tiny_landed) = [1]" "map fst (gw_players tiny_recorded) = [1]"
    by (auto simp: tiny_landed_def tiny_recorded_def comp_def split_beta)
  then show "fst ` set (gw_players tiny_landed) = {1}" "fst ` set (gw_players tiny_recorded) = {1}"
    by (metis empty_set list.simps(15) set_map)+
qed

lemma tiny_scoped: "scoped tiny_cfg (gw_players tiny_landed)" "scoped tiny_cfg (gw_players tiny_recorded)"
proof -
  have "scoped tiny_cfg d" if "fst ` set d = {1}" for d
    using that by (force simp: scoped_def tiny_stager)
  then show "scoped tiny_cfg (gw_players tiny_landed)" "scoped tiny_cfg (gw_players tiny_recorded)" using tiny_keys by blast+
qed

lemma tiny_hooks:
  "ling_step_post tiny_model tiny_cfg 0 tiny_landed = Some (Inr (), tiny_recorded)"
  "ling_step_pre tiny_model tiny_cfg 0 tiny_recorded = Some (Inr (), tiny_recorded)"
  using boundary_hooks(2) [OF tiny_stager(1) tiny_scoped(1)] boundary_hooks(1) [OF tiny_stager(1) tiny_scoped(2)]
  by (simp_all add: tiny_recorded_def)

lemma tiny_stage: "ling_stage_all tiny_model tiny_cfg tiny_world = (Inr (), tiny_staged)"
  using tiny_stage_run unfolding tiny_staged_def by (metis prod.collapse)

lemma tiny_args_of:
  "lm_K tiny_model = demo_vkernels" "lm_R tiny_model = demo_rk" "lm_args tiny_model = tiny_args" "lm_pins tiny_model li = ([], id)"
  "lm_tm tiny_model i = (Late, Late)" "lg_top_k tiny_cfg = 1" "ps_owners (gw_pstate tiny_world) = [0]" "gw_players tiny_world = [(1, tiny_player tiny_k8)]"
  by (simp_all add: tiny_model_def tiny_cfg_def tiny_world_def pstate_new_def Let_def)

lemma tiny_feats:
  "ling_features (num_experts (lg_spec tiny_cfg)) (int 0) (sg_world (gw_stager tiny_world)) = Inr (Some ([1], [1, 0], [0, 0]))"
  by code_simp

lemma tiny_ok: "stacked_ok (ling_stager_class tiny_model tiny_cfg (gw_players tiny_world)) (gw_stager tiny_world)"
  unfolding tiny_world_def ling_world.select_convs by (rule stacked_ok_new)

lemma tiny_ready:
  "\<exists>lg inds ws p4. bailing_select (lm_R tiny_model) (lm_args tiny_model) lg = Inr (inds, ws) \<and>
    map_of (lw_pg_cache (sg_world (gw_stager tiny_recorded))) (int (Suc 0)) = Some lg \<and> gw_kv tiny_recorded = gw_kv tiny_world \<and>
    map_of (gw_players tiny_recorded) (Suc 0) = Some p4 \<and> p_cfg p4 = p_cfg (tiny_player tiny_k8) \<and>
    ready (\<lambda>(i, e). checkpoint_bundle demo_cfg e) (lm_K tiny_model) (lm_pins tiny_model (Suc 0)) p4 inds"
proof (rule boundary_ready [OF tiny_stage tiny_landed_def tiny_hooks tiny_stager(1) tiny_scoped(1)])
  show "stacked_ok (ling_stager_class tiny_model tiny_cfg (gw_players tiny_world)) (gw_stager tiny_world)" by (rule tiny_ok)
  show "heads_fit (ling_stager_class tiny_model tiny_cfg (gw_players tiny_world)) (ps_owners (gw_pstate tiny_world)) (\<lambda>i. tiny_head)
      (1, 2, 2) (1, ga_num_experts (lm_args tiny_model)) (sg_world (gw_stager tiny_world))"
    using tiny_fit by (simp add: tiny_args_of)
  show "ling_features (num_experts (lg_spec tiny_cfg)) (int 0) (sg_world (gw_stager tiny_world)) = Inr (Some ([1], [1, 0], [0, 0]))"
    by (rule tiny_feats)
  show "consumer_ok (\<lambda>(i, e). checkpoint_bundle demo_cfg e) (lm_K tiny_model) (build_of (tiny_player tiny_k8)) (lm_pins tiny_model (Suc 0))
      (lg_top_k tiny_cfg) (p_layer (tiny_player tiny_k8))"
    unfolding tiny_args_of by (rule tiny_consumer8)
  show "gate_fits (lg_spec tiny_cfg) (lm_args tiny_model) (lg_top_k tiny_cfg)" unfolding tiny_args_of by (rule tiny_args_fit)
  show "l_num (p_layer (tiny_player tiny_k8)) = ga_num_experts (lm_args tiny_model)" by (simp add: tiny_fields8 tiny_args_of tiny_args_def)
qed (simp_all add: tiny_args_of tiny_fields8 demo_rk_ok)

lemma tiny_dense:
  "\<exists>W'. ling_layer tiny_model 0 None [[1]] tiny_recorded = Some (Inr [[2]], W') \<and> gw_players W' = gw_players tiny_recorded \<and>
    lw_pg_cache (sg_world (gw_stager W')) = lw_pg_cache (sg_world (gw_stager tiny_recorded))"
  by (simp add: ling_layer_def Let_def tiny_model_def add_rows_def)

lemma tiny_sparse:
  assumes p: "map_of (gw_players W) 1 = Some p" and r: "ready f (lm_K tiny_model) (lm_pins tiny_model 1) p inds"
    and sel: "bailing_select (lm_R tiny_model) (lm_args tiny_model) lg = Inr (inds, ws)"
  shows "\<exists>h W'. ling_layer tiny_model 1 (Some lg) [[x]] W = Some (Inr h, W')"
proof -
  obtain L' where ap: "moe_apply (lm_shared tiny_model 1) (\<lambda>js. forward (lm_K tiny_model) (lc_fused (p_cfg p)) (build_of p) (lm_pins tiny_model 1)
      (lm_wait tiny_model 1) [[x]] (Some js)) [[x]] [(inds, ws)] (p_layer p)
      = Some (Inr [token_out (lm_K tiny_model) (lc_fused (p_cfg p)) (\<lambda>e. f (l_idx (p_layer p), e)) (lm_shared tiny_model 1) [x] inds ws], L')"
    using ready_apply [OF r] by blast
  let ?fl = "\<lparr>bf_use_prerouter = use_prerouter tiny_model 1, bf_feature_topk = lm_feature tiny_model, bf_intra = lm_intra tiny_model\<rparr>"
  have fl: "bf_use_prerouter ?fl" by (simp add: use_prerouter_def tiny_model_def)
  have sizes: "length (lm_gate tiny_model 1 [x]) = ga_num_experts (lm_args tiny_model)" "length (lm_bias tiny_model 1) = ga_num_experts (lm_args tiny_model)"
    by (simp_all add: tiny_model_def tiny_args_def)
  have R: "rkernels_ok (lm_R tiny_model)" "gate_fits (lg_spec tiny_cfg) (lm_args tiny_model) 1"
    using demo_rk_ok tiny_args_fit by (simp_all add: tiny_args_of)
  obtain feat where "bailing_call (lm_R tiny_model) (lm_args tiny_model) (lm_bias tiny_model 1) ?fl (lm_gate tiny_model 1) (lm_shared tiny_model 1)
      (\<lambda>js. forward (lm_K tiny_model) (lc_fused (p_cfg p)) (build_of p) (lm_pins tiny_model 1) (lm_wait tiny_model 1) [[x]] (Some js))
      (Some lg) [[x]] (p_layer p) =
    Some (Inr [token_out (lm_K tiny_model) (lc_fused (p_cfg p)) (\<lambda>e. f (l_idx (p_layer p), e)) (lm_shared tiny_model 1) [x] inds ws], feat, L')"
    using bailing_call_predicted [where gate = "lm_gate tiny_model 1" and x = "[x]", OF R fl sel sizes ap] by blast
  moreover have "lm_attend tiny_model 1 [[x]] kv = ([[x]], Suc kv)" "lm_norm tiny_model 1 [[x]] = [[x]]" "\<not> 1 < lm_first_moe tiny_model" for kv
    by (simp_all add: tiny_model_def)
  ultimately show ?thesis using p by (simp add: ling_layer_def Let_def)
qed

lemma tiny_forward:
  "\<exists>h W'. ling_layers tiny_model no_hook (Some (lw_pg_cache (sg_world (gw_stager tiny_recorded)))) [0..<lm_n tiny_model] [[1]] tiny_recorded
    = Some (Inr h, W')"
proof -
  obtain lg inds ws p4 where q: "bailing_select (lm_R tiny_model) (lm_args tiny_model) lg = Inr (inds, ws)"
    "map_of (lw_pg_cache (sg_world (gw_stager tiny_recorded))) (int (Suc 0)) = Some lg"
    "map_of (gw_players tiny_recorded) (Suc 0) = Some p4" "ready (\<lambda>(i, e). checkpoint_bundle demo_cfg e) (lm_K tiny_model) (lm_pins tiny_model (Suc 0)) p4 inds"
    using tiny_ready by blast
  obtain W1 where l0: "ling_layer tiny_model 0 None [[1]] tiny_recorded = Some (Inr [[2]], W1)" "gw_players W1 = gw_players tiny_recorded"
    "map_of (gw_players W1) 1 = Some p4"
    using tiny_dense q(3) by auto
  have r: "ready (\<lambda>(i, e). checkpoint_bundle demo_cfg e) (lm_K tiny_model) (lm_pins tiny_model 1) p4 inds" using q(4) by simp
  obtain h2 W2 where l1: "ling_layer tiny_model 1 (Some lg) [[2]] W1 = Some (Inr h2, W2)"
    using tiny_sparse [OF l0(3) r q(1)] by blast
  have flags: "\<not> use_prerouter tiny_model 0" "use_prerouter tiny_model (Suc 0)" "lm_n tiny_model = 2" "lm_clip tiny_model h = h" for h
    by (simp_all add: use_prerouter_def tiny_model_def)
  have "[0..<lm_n tiny_model] = [0, 1]" by (simp add: flags upt_rec)
  then show ?thesis using l0(1) l1 q(2) by (simp add: ling_layers_plain flags del: ling_layers.simps(2))
qed

lemma ling_decode_step_no_drops_witness:
  "\<exists>h W5 lg inds ws p4 p5. ling_layers tiny_model no_hook (Some (lw_pg_cache (sg_world (gw_stager tiny_recorded)))) [0..<lm_n tiny_model] [[1]]
      tiny_recorded = Some (Inr h, W5) \<and>
    bailing_select (lm_R tiny_model) (lm_args tiny_model) lg = Inr (inds, ws) \<and>
    map_of (lw_pg_cache (sg_world (gw_stager tiny_recorded))) (int (Suc 0)) = Some lg \<and>
    map_of (gw_players tiny_recorded) (Suc 0) = Some p4 \<and> map_of (gw_players W5) (Suc 0) = Some p5 \<and>
    s_indices (p_layer p5) = Some inds \<and> s_at_use (p_layer p5) = Some (uniq inds) \<and>
    n_staged_dropped (s_sstats (sync_actuals (p_layer p5))) = n_staged_dropped (s_sstats (p_layer p4))"
proof -
  obtain h W5 where f: "ling_layers tiny_model no_hook (Some (lw_pg_cache (sg_world (gw_stager tiny_recorded)))) [0..<lm_n tiny_model] [[1]]
    tiny_recorded = Some (Inr h, W5)" using tiny_forward by blast
  have side: "int 0 \<in> set (ps_owners (gw_pstate tiny_world))" "map_of (gw_players tiny_world) (Suc 0) = Some (tiny_player tiny_k8)"
    "distinct (map fst (gw_players tiny_world))" "distinct (ps_owners (gw_pstate tiny_world))" "\<forall>o' \<in> set (ps_owners (gw_pstate tiny_world)). 0 \<le> o'"
    "lm_tm tiny_model (int (Suc 0)) = (Late, Late)" "l_num (p_layer (tiny_player tiny_k8)) = ga_num_experts (lm_args tiny_model)"
    "gate_fits (lg_spec tiny_cfg) (lm_args tiny_model) (lg_top_k tiny_cfg)" "rkernels_ok (lm_R tiny_model)"
    "heads_fit (ling_stager_class tiny_model tiny_cfg (gw_players tiny_world)) (ps_owners (gw_pstate tiny_world)) (\<lambda>i. tiny_head)
      (1, 2, 2) (1, ga_num_experts (lm_args tiny_model)) (sg_world (gw_stager tiny_world))"
    "consumer_ok (\<lambda>(i, e). checkpoint_bundle demo_cfg e) (lm_K tiny_model) (build_of (tiny_player tiny_k8)) (lm_pins tiny_model (Suc 0))
      (lg_top_k tiny_cfg) (p_layer (tiny_player tiny_k8))"
    using tiny_args_fit tiny_fit tiny_consumer8 demo_rk_ok by (simp_all add: tiny_args_of tiny_fields8 tiny_args_def)
  have li: "use_prerouter tiny_model (Suc 0)" "lm_first_moe tiny_model \<le> Suc 0" by (simp_all add: use_prerouter_def tiny_model_def)
  show ?thesis
    using ling_decode_step_no_drops [OF tiny_stage tiny_landed_def tiny_hooks f tiny_stager(1) tiny_scoped(1) side(3-5) tiny_ok side(10,1) tiny_feats
        side(2) tiny_fields8(1) side(6,11) disjI1 [OF tiny_fields8(12)] side(7,9,8) li] f by blast
qed

lemma tiny_slots: "\<not> lg_history_slots tiny_cfg" "lg_prerouter tiny_cfg \<noteq> None"
  by (simp_all add: tiny_cfg_def)

lemma ling_boundary_only_records_witness:
  "ling_step_pre tiny_model tiny_cfg 0 (tiny_world\<lparr>gw_players := ling_scope tiny_cfg [(0, tiny_player tiny_k8), (1, tiny_player tiny_k8)]\<rparr>) =
    Some (Inr (), tiny_world\<lparr>gw_players := [(0, unstaged (tiny_player tiny_k8)), (1, tiny_player tiny_k8)]\<rparr>)"
proof -
  have sc: "ling_scope tiny_cfg [(0, tiny_player tiny_k8), (1, tiny_player tiny_k8)] = [(0, unstaged (tiny_player tiny_k8)), (1, tiny_player tiny_k8)]"
    by (simp add: ling_scope_def tiny_stager tiny_slots)
  have "ling_step_pre tiny_model tiny_cfg 0 (tiny_world\<lparr>gw_players := ling_scope tiny_cfg [(0, tiny_player tiny_k8), (1, tiny_player tiny_k8)]\<rparr>) =
      Some (Inr (), tiny_world\<lparr>gw_players := ling_scope tiny_cfg [(0, tiny_player tiny_k8), (1, tiny_player tiny_k8)]\<rparr>)"
    by (rule ling_boundary_only_records [where later = "\<lambda>li p. p" and d = "[(0, tiny_player tiny_k8), (1, tiny_player tiny_k8)]",
          OF tiny_stager(1) tiny_slots(1), THEN conjunct2, THEN conjunct1]) simp_all
  then show ?thesis unfolding sc .
qed

end
