(* ===== verification/Qwen_Engine.thy ===== *)
theory Qwen_Engine
  imports Engine Consumers
begin

text \<open>
  The qwen engine: the layer scoping of \<open>load_installed\<close> and the hooks of \<open>Qwen35Engine\<close>
  (\<open>edge0/engine/qwen.py\<close>), with the decoder layer and the model loop they drive (\<open>DecoderLayer.__call__\<close>
  and \<open>Qwen3_5TextModel.__call__\<close> of \<open>backends/mlx/_impl/qwen3_5.py\<close>). Attention with its cache, norms,
  embedding, output head and clip are the functions of the record \<open>qwen_model\<close>; a hidden state is one row
  per position. The prediction travels in the prerouter state: the pass at the step boundary writes the
  selection of every owner's consumer, and the patched block of the consumer reads it at the next token.
\<close>

section \<open>The model and the world\<close>

record 'kv qwen_model =
  qm_n :: nat
  qm_embed :: "nat list \<Rightarrow> real list list"
  qm_attend :: "nat \<Rightarrow> real list list \<Rightarrow> 'kv \<Rightarrow> real list list \<times> 'kv"
  qm_norm :: "nat \<Rightarrow> real list list \<Rightarrow> real list list"
  qm_dense :: "nat \<Rightarrow> real list list \<Rightarrow> real list list"
  qm_block :: "nat \<Rightarrow> real moe_block"
  qm_clip :: "real list list \<Rightarrow> real list list"
  qm_final :: "real list list \<Rightarrow> real list list"
  qm_head :: "real list \<Rightarrow> real list"
  qm_kv0 :: 'kv
  qm_R :: "real rkernels"
  qm_K :: "real list kernels"
  qm_HK :: "real hkernels"
  qm_pins :: "nat \<Rightarrow> nat list \<times> (nat list \<Rightarrow> nat list)"
  qm_wait :: "nat \<Rightarrow> timing"
  qm_tm :: "int \<Rightarrow> timing \<times> timing"

record qwen_cfg =
  qc_spec :: moe_spec
  qc_prerouter :: "prerouter_spec option"
  qc_top_k :: nat
  qc_history_slots :: bool
  qc_intra :: bool
  qc_prefetch_history :: bool
  qc_full_prefill :: bool
  qc_full_n :: nat
  qc_hot_n :: nat
  qc_hot_window :: nat
  qc_chunk :: int
  qc_heads :: "int \<Rightarrow> real head res"

record 'kv qwen_world =
  qe_players :: "player layer_dict"
  qe_stager :: "((real, bmap) qworld, real) stager"
  qe_kv :: 'kv
  qe_jobs :: "(nat \<times> nat \<times> bmap res) list"

section \<open>Loading: which layers keep staged slots\<close>

text \<open>\<open>n\<close> is the number of decoder layers.\<close>

definition qwen_scope :: "qwen_cfg \<Rightarrow> nat \<Rightarrow> player layer_dict \<Rightarrow> player layer_dict" where
  "qwen_scope c n d =
     (if qc_history_slots c then d
      else case qc_prerouter c of
             None \<Rightarrow> map (\<lambda>(li, p). (li, unstaged p)) d
           | Some ps \<Rightarrow> map (\<lambda>(li, p). (li, if \<not> (pp_start ps \<le> int li \<and> int li \<le> int n - 2) then unstaged p else p)) d)"

definition qwen_has_stager :: "qwen_cfg \<Rightarrow> bool" where
  "qwen_has_stager c = (case qc_prerouter c of None \<Rightarrow> False | Some p \<Rightarrow> pp_weights_file p \<noteq> '''')"

section \<open>One decoder layer and the model loop\<close>

text \<open>
  The MLP is sparse when the model has experts; the installer put a streaming twin in every sparse block,
  so a layer without one is dense. The block's call is the patched one once a prerouter is installed.
\<close>

definition qwen_moe ::
  "'kv qwen_model \<Rightarrow> qwen_cfg \<Rightarrow> nat \<Rightarrow> player \<Rightarrow> real list list \<Rightarrow> (real, bmap) qworld \<Rightarrow>
     (real list list res \<times> (real, bmap) qworld \<times> bmap slayer) option" where
  "qwen_moe M c li p m w =
     (let F = (\<lambda>inds. forward (qm_K M) (lc_fused (p_cfg p)) (build_of p) (qm_pins M li) (qm_wait M li) m (Some inds)) in
      if qwen_has_stager c then prerouter_call (qm_R M) (qm_block M li) F (s_replace (p_layer p)) m w (p_layer p)
      else map_option (\<lambda>(r, L). (r, w, L)) (router_call (qm_R M) (qm_block M li) F m (p_layer p)))"

definition qwen_layer ::
  "'kv qwen_model \<Rightarrow> qwen_cfg \<Rightarrow> nat \<Rightarrow> real list list \<Rightarrow> 'kv qwen_world \<Rightarrow> (real list list res \<times> 'kv qwen_world) option" where
  "qwen_layer M c li h W =
     (let (h, kv) = qm_attend M li h (qe_kv W);
          m = qm_norm M li h;
          S = qe_stager W;
          W = W\<lparr>qe_kv := kv\<rparr>
      in case map_of (qe_players W) li of
           None \<Rightarrow> Some (Inr (add_rows h (qm_dense M li m)), W)
         | Some p \<Rightarrow>
             map_option (\<lambda>(r, w, L).
                 (res_bind r (\<lambda>out. Inr (add_rows h out)),
                  W\<lparr>qe_players := set_layer li p L (qe_players W), qe_stager := S\<lparr>sg_world := w\<rparr>\<rparr>))
               (qwen_moe M c li p m (sg_world S)))"

definition on_dict ::
  "(player layer_dict \<Rightarrow> unit res \<times> player layer_dict) \<Rightarrow> 'kv qwen_world \<Rightarrow> unit res \<times> 'kv qwen_world" where
  "on_dict f W = (case f (qe_players W) of (r, d) \<Rightarrow> (r, W\<lparr>qe_players := d\<rparr>))"

fun qwen_layers ::
  "'kv qwen_model \<Rightarrow> qwen_cfg \<Rightarrow> (nat \<Rightarrow> player layer_dict \<Rightarrow> unit res \<times> player layer_dict) \<Rightarrow>
     (nat \<Rightarrow> player layer_dict \<Rightarrow> unit res \<times> player layer_dict) \<Rightarrow> nat list \<Rightarrow> real list list \<Rightarrow> 'kv qwen_world \<Rightarrow>
     (real list list res \<times> 'kv qwen_world) option" where
  "qwen_layers M c before after [] h W = Some (Inr h, W)"
| "qwen_layers M c before after (li # lis) h W =
     (case on_dict (before li) W of
        (Inl e, W) \<Rightarrow> Some (Inl e, W)
      | (Inr _, W) \<Rightarrow>
          (case qwen_layer M c li h W of
             None \<Rightarrow> None
           | Some (Inl e, W) \<Rightarrow> Some (Inl e, W)
           | Some (Inr h, W) \<Rightarrow>
               (case on_dict (after li) W of
                  (Inl e, W) \<Rightarrow> Some (Inl e, W)
                | (Inr _, W) \<Rightarrow> qwen_layers M c before after lis (qm_clip M h) W)))"

section \<open>The stager on the shared layers\<close>

definition qwen_stager_class :: "'kv qwen_model \<Rightarrow> qwen_cfg \<Rightarrow> player layer_dict \<Rightarrow> ((real, bmap) qworld, real) stager_class" where
  "qwen_stager_class M c d =
     cross_class (qm_R M) (num_experts (qc_spec c)) (qc_top_k c) (dict_build d) (qm_tm M) (qc_heads c) (stream_layers d \<noteq> [])"

text \<open>\<open>stage_all()\<close> and then \<open>swap()\<close>.\<close>

definition qwen_stage_all :: "'kv qwen_model \<Rightarrow> qwen_cfg \<Rightarrow> 'kv qwen_world \<Rightarrow> unit res \<times> 'kv qwen_world" where
  "qwen_stage_all M c W =
     (let d = qe_players W; S = qe_stager W in
      case stage_all (qwen_stager_class M c d) (qm_HK M) (ps_owners (qw_state (sg_world S)))
             (S\<lparr>sg_world := (sg_world S)\<lparr>qw_layers := stream_layers d\<rparr>\<rparr>) of
        (Inl e, S) \<Rightarrow> (Inl e, W\<lparr>qe_stager := S, qe_players := put_back (qw_layers (sg_world S)) d\<rparr>)
      | (Inr _, S) \<Rightarrow>
          (Inr (), W\<lparr>qe_stager := S\<lparr>sg_world := (sg_world S)\<lparr>qw_state := pstate_swap (qw_state (sg_world S))\<rparr>\<rparr>,
                     qe_players := put_back (qw_layers (sg_world S)) d\<rparr>))"

section \<open>The hooks of the engine\<close>

definition qwen_hook_cfg :: "qwen_cfg \<Rightarrow> hook_cfg" where
  "qwen_hook_cfg c = \<lparr>ho_full_layer = qc_full_prefill c, ho_full_n = qc_full_n c, ho_hot_n = qc_hot_n c, ho_window = qc_hot_window c\<rparr>"

text \<open>The callback of \<open>make_intra_after_layer\<close> on the dict of players.\<close>

definition intra_after :: "'kv qwen_model \<Rightarrow> nat \<Rightarrow> player layer_dict \<Rightarrow> unit res \<times> player layer_dict" where
  "intra_after M li =
     on_layer (\<lambda>p. if l_last_used (p_layer p) = [] then (Inr (), p)
       else case stage_experts (build_of p) (qm_tm M (int li)) (l_last_used (p_layer p)) (p_layer p) of (r, L) \<Rightarrow> (r, p\<lparr>p_layer := L\<rparr>)) li"

definition qwen_forward ::
  "'kv qwen_model \<Rightarrow> qwen_cfg \<Rightarrow> bool \<Rightarrow> nat list \<Rightarrow> 'kv qwen_world \<Rightarrow> (real list res \<times> 'kv qwen_world) option" where
  "qwen_forward M c active ids W =
     (let prefill_multi = length ids > 1 \<and> active;
          full_layer = prefill_multi \<and> qe_players W \<noteq> [] \<and> qc_full_prefill c;
          before = (if prefill_multi \<and> (full_layer \<or> qc_hot_n c \<noteq> 0) then before_layer (qwen_hook_cfg c) else no_hook);
          after = (if \<not> full_layer \<and> qc_intra c \<and> length ids = 1 then intra_after M else no_hook)
      in case qwen_layers M c before after [0..<qm_n M] (qm_embed M ids) W of
           None \<Rightarrow> None
         | Some (Inl e, W) \<Rightarrow> Some (Inl e, W)
         | Some (Inr h, W) \<Rightarrow>
             if h = [] then Some (Inl IndexError, W)
             else let logits = qm_head M (last (qm_final M h)) in
               if qwen_has_stager c \<and> \<not> full_layer
               then (case qwen_stage_all M c W of (r, W) \<Rightarrow> Some (res_bind r (\<lambda>_. Inr logits), W))
               else Some (Inr logits, W))"

definition on_qplayers ::
  "(nat \<Rightarrow> player \<Rightarrow> (unit res \<times> player) option) \<Rightarrow> 'kv qwen_world \<Rightarrow> (unit res \<times> 'kv qwen_world) option" where
  "on_qplayers f W = map_option (\<lambda>(r, d). (r, W\<lparr>qe_players := d\<rparr>)) (each_player f (qe_players W))"

text \<open>Layers without an incoming prediction.\<close>

definition unpredicted :: "real pstate \<Rightarrow> nat \<Rightarrow> bool" where
  "unpredicted st li \<longleftrightarrow> int li < ps_start st \<or> ps_n st - 1 \<le> int li"

definition qwen_step_pre :: "'kv qwen_model \<Rightarrow> qwen_cfg \<Rightarrow> nat \<Rightarrow> 'kv qwen_world \<Rightarrow> (unit res \<times> 'kv qwen_world) option" where
  "qwen_step_pre M c t W =
     (if qwen_has_stager c then
        on_qplayers (\<lambda>li p. if unpredicted (qw_state (sg_world (qe_stager W))) li \<and> s_mode (p_layer p)
          then stage_last (qm_tm M (int li)) p else Some (Inr (), p)) W
      else if qc_prefetch_history c then
        (case history_prefetch (\<lambda>li. dict_build (qe_players W) (int li)) (map (\<lambda>(li, p). (li, p_layer p)) (qe_players W)) of
           (jobs, ls) \<Rightarrow>
             Some (Inr (), W\<lparr>qe_players := put_back (map (\<lambda>(li, L). (int li, L)) ls) (qe_players W), qe_jobs := qe_jobs W @ jobs\<rparr>))
      else Some (Inr (), W))"

text \<open>Without a prerouter the set staged may be empty, and the swap happens all the same.\<close>

definition stage_and_swap :: "timing \<times> timing \<Rightarrow> timing \<Rightarrow> player \<Rightarrow> (unit res \<times> player) option" where
  "stage_and_swap tm t p =
     (let p = p\<lparr>p_layer := sync_actuals (p_layer p)\<rparr> in
      case stage_experts (build_of p) tm (l_last_used (p_layer p)) (p_layer p) of
        (Inl e, L) \<Rightarrow> Some (Inl e, p\<lparr>p_layer := L\<rparr>)
      | (Inr _, L) \<Rightarrow> map_option (\<lambda>L. (Inr (), p\<lparr>p_layer := L\<rparr>)) (swap_staged (build_of p) t L))"

definition qwen_step_post :: "'kv qwen_model \<Rightarrow> qwen_cfg \<Rightarrow> nat \<Rightarrow> 'kv qwen_world \<Rightarrow> (unit res \<times> 'kv qwen_world) option" where
  "qwen_step_post M c t W =
     (if qwen_has_stager c then
        on_qplayers (\<lambda>li p. Some (Inr (),
          if unpredicted (qw_state (sg_world (qe_stager W))) li \<and> (s_mode (p_layer p) \<or> 0 < l_hot_per_layer (p_layer p))
          then p\<lparr>p_layer := sync_actuals (p_layer p)\<rparr> else p)) W
      else if stream_layers (qe_players W) \<noteq> []
      then on_qplayers (\<lambda>li p. stage_and_swap (qm_tm M (int li)) (qm_wait M li) p) W
      else Some (Inr (), W))"

definition prefetch_player :: "player \<Rightarrow> (nat \<times> bmap res) list \<times> player" where
  "prefetch_player p = (case prefetch_from_prefill (build_of p) (p_layer p) of (jobs, L) \<Rightarrow> (jobs, p\<lparr>p_layer := L\<rparr>))"

fun prefetch_players :: "player layer_dict \<Rightarrow> (nat \<times> nat \<times> bmap res) list \<times> player layer_dict" where
  "prefetch_players [] = ([], [])"
| "prefetch_players ((li, p) # d) =
     (case (if s_mode (p_layer p) then prefetch_player p else ([], p)) of
        (jobs, p) \<Rightarrow> (case prefetch_players d of (rest, d) \<Rightarrow> (map (\<lambda>j. (li, j)) jobs @ rest, (li, p) # d)))"

definition qwen_prefill_end :: "'kv qwen_model \<Rightarrow> qwen_cfg \<Rightarrow> 'kv qwen_world \<Rightarrow> (unit res \<times> 'kv qwen_world) option" where
  "qwen_prefill_end M c W =
     (let d = map (\<lambda>(li, p). (li, clear_full_layer p)) (qe_players W);
          d = map (\<lambda>(li, p). (li, p\<lparr>p_layer := refresh_hot_pins (build_of p) (fst (qm_pins M li)) (snd (qm_pins M li)) (p_layer p)\<rparr>)) d;
          W = W\<lparr>qe_players := d\<rparr>
      in if stream_layers d = [] then Some (Inr (), W)
         else if \<not> qwen_has_stager c \<or> qc_history_slots c
         then on_qplayers (\<lambda>li p. from_prefill (qm_tm M (int li)) p) W
         else (case prefetch_players d of (jobs, d) \<Rightarrow> Some (Inr (), W\<lparr>qe_players := d, qe_jobs := qe_jobs W @ jobs\<rparr>)))"

definition clear_qcaptures :: "int list \<Rightarrow> ('a, 'b) qworld \<Rightarrow> ('a, 'b) qworld" where
  "clear_qcaptures owners w =
     w\<lparr>qw_m_in := (\<lambda>i. if i \<in> set owners then None else qw_m_in w i), qw_oh := (\<lambda>i. if i \<in> set owners then None else qw_oh w i)\<rparr>"

definition qwen_reset :: "'kv qwen_model \<Rightarrow> qwen_cfg \<Rightarrow> 'kv qwen_world \<Rightarrow> 'kv qwen_world" where
  "qwen_reset M c W =
     (let W = W\<lparr>qe_kv := qm_kv0 M\<rparr>;
          W = (if qwen_has_stager c then
                 let S = qe_stager W; w = sg_world S in
                 W\<lparr>qe_stager := S\<lparr>sg_world := clear_qcaptures (ps_owners (qw_state w)) (w\<lparr>qw_state := pstate_reset (qw_state w)\<rparr>)\<rparr>\<rparr>
               else W)
      in W\<lparr>qe_players := map (\<lambda>(li, p). (li, p\<lparr>p_layer := reset_layer (p_layer p)\<rparr>)) (qe_players W)\<rparr>)"

definition qwen_close :: "'kv qwen_world \<Rightarrow> 'kv qwen_world" where
  "qwen_close W = W\<lparr>qe_players := map (\<lambda>(li, p). (li, p\<lparr>p_layer := close_layer (p_layer p)\<rparr>)) (qe_players W)\<rparr>"

definition qwen_family :: "'kv qwen_model \<Rightarrow> qwen_cfg \<Rightarrow> ('kv qwen_world, real) family" where
  "qwen_family M c =
     \<lparr>fa_forward = qwen_forward M c, fa_step_pre = qwen_step_pre M c, fa_step_post = qwen_step_post M c,
      fa_prefill_end = qwen_prefill_end M c, fa_reset = qwen_reset M c, fa_close = qwen_close, fa_chunk = qc_chunk c\<rparr>"

section \<open>The decode step drops nothing\<close>

text \<open>The functions of the model keep one row per position.\<close>

definition rows_kept :: "'kv qwen_model \<Rightarrow> bool" where
  "rows_kept M \<longleftrightarrow> (\<forall>li h kv. length (fst (qm_attend M li h kv)) = length h) \<and> (\<forall>li h. length (qm_norm M li h) = length h) \<and>
     (\<forall>li h. length (qm_dense M li h) = length h) \<and> (\<forall>h. length (qm_clip M h) = length h)"

lemma each_player_keeps:
  assumes "each_player f d = Some (r, d')" and "\<And>p. f li p = Some (Inr (), p)"
  shows "map_of d' li = map_of d li"
  using assms(1)
proof (induction d arbitrary: d')
  case (Cons a d)
  obtain lj p where a: "a = (lj, p)" by (cases a)
  show ?case
  proof (cases "lj = li")
    case True
    then show ?thesis using Cons.prems by (auto simp: a assms(2))
  next
    case False
    then show ?thesis using Cons by (auto simp: a split: option.splits prod.splits sum.splits)
  qed
qed simp

lemma length_split_rows: "length (split_rows iss ys) = length iss"
  by (induction iss ys rule: split_rows.induct) auto

lemma moe_apply_length: "moe_apply shared F xs sels L = Some (Inr out, L') \<Longrightarrow> length sels = length xs \<Longrightarrow> length out = length xs"
  by (auto simp: moe_apply_def res_bind_Inr_iff combine_rows_def length_split_rows split: option.splits prod.splits)

lemma router_call_length: "router_call R b F xs L = Some (Inr out, L') \<Longrightarrow> length out = length xs"
  by (auto simp: router_call_def split: sum.splits dest!: moe_apply_length res_map_Inr_length)

lemma cross_seen_cong:
  "ps_pred_inds (qw_state w') = ps_pred_inds (qw_state w) \<Longrightarrow> ps_pred_scores (qw_state w') = ps_pred_scores (qw_state w) \<Longrightarrow>
    cross_seen w' d = cross_seen w d"
  by (simp only: cross_seen_def Let_def)

text \<open>The patched call changes only the captures of its own layer.\<close>

lemma prerouter_call_frame:
  assumes "prerouter_call R b F replace xs w L = Some (r, w', L')"
  shows "cross_seen w' d = cross_seen w d" and "ps_start (qw_state w') = ps_start (qw_state w)"
    and "r = Inr out \<Longrightarrow> length out = length xs"
proof -
  have "cross_seen w' d = cross_seen w d \<and> ps_start (qw_state w') = ps_start (qw_state w) \<and> (r = Inr out \<longrightarrow> length out = length xs)"
  proof (cases "\<exists>x. xs = [x] \<and> mb_enabled b \<and> \<not> replace")
    case True
    then obtain x where x: "xs = [x]" "mb_enabled b" "\<not> replace" by blast
    then show ?thesis using assms
      by (auto simp: prerouter_call_def Let_def intro!: cross_seen_cong dest: moe_apply_length split: sum.splits)
  next
    case False
    then have "map_option (\<lambda>(r, L). (r, w, L)) (router_call R b F xs L) = Some (r, w', L')"
      using assms by (auto simp: prerouter_call_def Let_def split: list.splits if_splits)
    then show ?thesis using router_call_length by auto
  qed
  then show "cross_seen w' d = cross_seen w d" "ps_start (qw_state w') = ps_start (qw_state w)" "r = Inr out \<Longrightarrow> length out = length xs" by blast+
qed

lemma prerouter_call_ready:
  assumes r: "ready f K pins p inds" and seen: "cross_seen w (mb_li b) = Some (inds, sc)"
    and b: "mb_enabled b" "\<not> replace" "ps_start (qw_state w) \<le> mb_li b"
    and run: "prerouter_call R b (\<lambda>js. forward K fused (build_of p) pins t [x] (Some js)) replace [x] w (p_layer p) = Some (Inr out, w', L')"
  shows "no_drop inds (p_layer p) L'"
proof -
  let ?st = "qw_state w"
  have at_li: "0 \<le> mb_li b" "mb_li b < int (length (ps_pred_inds ?st))" "mb_li b < int (length (ps_pred_scores ?st))"
    "ps_pred_inds ?st ! nat (mb_li b) = Some inds" "ps_pred_scores ?st ! nat (mb_li b) = Some sc"
    using seen by (auto simp: cross_seen_def Let_def split: if_splits option.splits)
  then have route: "prerouter_route R b x ?st = Inr (inds, sc)" using b(3) by (simp add: prerouter_route_def Let_def)
  obtain w1 where "moe_apply (mb_shared b) (\<lambda>js. forward K fused (build_of p) pins t [x] (Some js)) [x] [(inds, sc)] (p_layer p) = Some (Inr out, L')"
    using run b(1,2) route by (auto simp: prerouter_call_def Let_def res_bind_Inr_iff split: sum.splits)
  then show ?thesis using ready_apply [OF r, of "mb_shared b" fused t x sc] by auto
qed

lemma qwen_moe_frame:
  assumes "qwen_moe M c li p m w = Some (r, w', L')"
  shows "cross_seen w' d = cross_seen w d" and "ps_start (qw_state w') = ps_start (qw_state w)" and "r = Inr out \<Longrightarrow> length out = length m"
  using assms by (auto simp: qwen_moe_def Let_def split: if_splits dest: prerouter_call_frame router_call_length)

lemma qwen_layer_frame:
  assumes "qwen_layer M c li h W = Some (Inr h', W')" and "rows_kept M"
  shows "length h' = length h" and "lj \<noteq> li \<Longrightarrow> map_of (qe_players W') lj = map_of (qe_players W) lj"
    and "cross_seen (sg_world (qe_stager W')) d = cross_seen (sg_world (qe_stager W)) d"
    and "ps_start (qw_state (sg_world (qe_stager W'))) = ps_start (qw_state (sg_world (qe_stager W)))"
proof -
  obtain h1 kv where a: "qm_attend M li h (qe_kv W) = (h1, kv)" by fastforce
  have h1: "length h1 = length h" "length (qm_norm M li h1) = length h" "length (qm_dense M li (qm_norm M li h1)) = length h"
    using assms(2) a unfolding rows_kept_def by (metis fst_conv)+
  have "length h' = length h \<and> (lj \<noteq> li \<longrightarrow> map_of (qe_players W') lj = map_of (qe_players W) lj) \<and>
    cross_seen (sg_world (qe_stager W')) d = cross_seen (sg_world (qe_stager W)) d \<and>
    ps_start (qw_state (sg_world (qe_stager W'))) = ps_start (qw_state (sg_world (qe_stager W)))"
  proof (cases "map_of (qe_players W) li")
    case None
    then show ?thesis using assms(1) h1 by (auto simp: qwen_layer_def a Let_def add_rows_def)
  next
    case (Some p)
    then obtain r w L where q: "qwen_moe M c li p (qm_norm M li h1) (sg_world (qe_stager W)) = Some (r, w, L)"
      and r: "res_bind r (\<lambda>out. Inr (add_rows h1 out)) = Inr h'"
      and W': "W' = W\<lparr>qe_kv := kv, qe_players := set_layer li p L (qe_players W), qe_stager := (qe_stager W)\<lparr>sg_world := w\<rparr>\<rparr>"
      using assms(1) by (auto simp: qwen_layer_def a Let_def)
    obtain out where "r = Inr out" "h' = add_rows h1 out" using r by (cases r) auto
    then show ?thesis using qwen_moe_frame [OF q] h1 by (simp add: W' set_layer_def update_conv' add_rows_def)
  qed
  then show "length h' = length h" "lj \<noteq> li \<Longrightarrow> map_of (qe_players W') lj = map_of (qe_players W) lj"
    "cross_seen (sg_world (qe_stager W')) d = cross_seen (sg_world (qe_stager W)) d"
    "ps_start (qw_state (sg_world (qe_stager W'))) = ps_start (qw_state (sg_world (qe_stager W)))" by blast+
qed

definition routes_predicted :: "'kv qwen_model \<Rightarrow> qwen_cfg \<Rightarrow> nat \<Rightarrow> player \<Rightarrow> bool" where
  "routes_predicted M c li p \<longleftrightarrow> qwen_has_stager c \<and> mb_enabled (qm_block M li) \<and> mb_li (qm_block M li) = int li \<and> \<not> s_replace (p_layer p)"

lemma qwen_layer_ready:
  assumes run: "qwen_layer M c li h W = Some (Inr h', W')" and kept: "rows_kept M" and h: "length h = 1"
    and p: "map_of (qe_players W) li = Some p" "ready f (qm_K M) (qm_pins M li) p inds" "routes_predicted M c li p"
    and seen: "cross_seen (sg_world (qe_stager W)) (int li) = Some (inds, sc)" "ps_start (qw_state (sg_world (qe_stager W))) \<le> int li"
  shows "\<exists>p'. map_of (qe_players W') li = Some p' \<and> no_drop inds (p_layer p) (p_layer p')"
proof -
  obtain h1 kv where a: "qm_attend M li h (qe_kv W) = (h1, kv)" by fastforce
  have "length (qm_norm M li h1) = 1" using kept a h unfolding rows_kept_def by (metis fst_conv)
  then obtain x where x: "qm_norm M li h1 = [x]" by (auto simp: length_Suc_conv)
  obtain out w L where q: "qwen_moe M c li p [x] (sg_world (qe_stager W)) = Some (Inr out, w, L)"
    and W': "qe_players W' = set_layer li p L (qe_players W)"
    using run p(1) by (auto simp: qwen_layer_def a Let_def x res_bind_Inr_iff)
  have fl: "qwen_has_stager c" "mb_enabled (qm_block M li)" "mb_li (qm_block M li) = int li" "\<not> s_replace (p_layer p)"
    using p(3) by (simp_all add: routes_predicted_def)
  have "no_drop inds (p_layer p) L"
    by (rule prerouter_call_ready [OF p(2) _ fl(2) fl(4)]) (use q seen fl in \<open>simp_all add: qwen_moe_def\<close>)
  then show ?thesis by (simp add: W' set_layer_def update_conv')
qed

lemma qwen_layers_plain:
  "qwen_layers M c no_hook no_hook (li # lis) h W =
     (case qwen_layer M c li h W of
        None \<Rightarrow> None
      | Some (Inl e, W) \<Rightarrow> Some (Inl e, W)
      | Some (Inr h, W) \<Rightarrow> qwen_layers M c no_hook no_hook lis (qm_clip M h) W)"
proof -
  have "on_dict (no_hook i) V = (Inr (), V)" for i and V :: "'a qwen_world" by (simp add: on_dict_def no_hook_def)
  then show ?thesis by (subst qwen_layers.simps(2)) (simp split: option.splits prod.splits sum.splits)
qed

lemma qwen_layers_frame:
  assumes "qwen_layers M c no_hook no_hook lis h W = Some (Inr h', W')" and "lj \<notin> set lis" and "rows_kept M"
  shows "map_of (qe_players W') lj = map_of (qe_players W) lj"
  using assms(1,2)
proof (induction lis arbitrary: h W)
  case (Cons li lis)
  obtain h1 W1 where q: "qwen_layer M c li h W = Some (Inr h1, W1)" "qwen_layers M c no_hook no_hook lis (qm_clip M h1) W1 = Some (Inr h', W')"
    using Cons.prems(1) by (auto simp: qwen_layers_plain simp del: qwen_layers.simps(2) split: option.splits sum.splits)
  show ?case using Cons.IH [OF q(2)] qwen_layer_frame(2) [OF q(1) assms(3)] Cons.prems(2) by simp
qed simp

lemma qwen_layers_ready:
  assumes "qwen_layers M c no_hook no_hook lis h W = Some (Inr h', W')" and "distinct lis" and "li \<in> set lis"
    and "map_of (qe_players W) li = Some p" and "cross_seen (sg_world (qe_stager W)) (int li) = Some (inds, sc)"
    and "ps_start (qw_state (sg_world (qe_stager W))) \<le> int li" and "length h = 1"
    and fixed: "ready f (qm_K M) (qm_pins M li) p inds" "routes_predicted M c li p" "rows_kept M"
  shows "\<exists>p'. map_of (qe_players W') li = Some p' \<and> no_drop inds (p_layer p) (p_layer p')"
  using assms(1-7)
proof (induction lis arbitrary: h W)
  case (Cons lj lis)
  obtain h1 W1 where q: "qwen_layer M c lj h W = Some (Inr h1, W1)"
    and rest: "qwen_layers M c no_hook no_hook lis (qm_clip M h1) W1 = Some (Inr h', W')"
    using Cons.prems(1) by (auto simp: qwen_layers_plain simp del: qwen_layers.simps(2) split: option.splits sum.splits)
  note frame = qwen_layer_frame [OF q fixed(3)]
  show ?case
  proof (cases "lj = li")
    case True
    from qwen_layer_ready [OF q [unfolded True] fixed(3) Cons.prems(7,4) fixed(1,2) Cons.prems(5,6)] obtain p' where
      p': "map_of (qe_players W1) li = Some p'" "no_drop inds (p_layer p) (p_layer p')" by blast
    have "map_of (qe_players W') li = map_of (qe_players W1) li"
      by (rule qwen_layers_frame [OF rest _ fixed(3)]) (use Cons.prems(2) True in simp)
    then show ?thesis using p' by simp
  next
    case False
    have clip: "length (qm_clip M h1) = 1" using frame(1) Cons.prems(7) fixed(3) by (simp add: rows_kept_def)
    show ?thesis
      by (rule Cons.IH [OF rest]) (use Cons.prems False frame clip in simp_all)
  qed
qed simp

text \<open>What the pass at the step boundary leaves at a consumer.\<close>

lemma select_props:
  assumes "select_from_logits R lg k True = Inr (inds, sc)" and "rkernels_ok R" and "0 < k"
  shows "length inds = k" and "\<forall>e \<in> set inds. e < length lg"
proof -
  let ?g = "r_softmax R lg"
  have len: "length ?g = length lg" and ap: "argpart_ok (r_argpart R)" using assms(2) by (auto simp: rkernels_ok_def softmax_ok_def)
  have top: "top_part R ?g k = Inr inds" using assms(1) by (auto simp: select_from_logits_def Let_def res_bind_Inr_iff)
  have k: "k \<le> length ?g" using top by (auto simp: top_part_def Let_def split: if_splits)
  show "length inds = k" "\<forall>e \<in> set inds. e < length lg"
    using top_part_best [OF ap assms(3) k] top len by auto
qed

lemma cross_stage_start:
  "ps_start (qw_state (sg_world (snd (stage_all (cross_class R num k bld tm heads streams) K owners S)))) = ps_start (qw_state (sg_world S))"
proof (rule stage_all_frame [where g = "\<lambda>w. ps_start (qw_state w)"])
  show "ps_start (qw_state (snd (sc_store (cross_class R num k bld tm heads streams) c lg inds sc ex w))) = ps_start (qw_state w)"
    for c lg inds sc ex w
    by (auto simp: cross_class_def cross_store_def Let_def res_bind_def split: sum.splits prod.splits)
qed (simp add: cross_class_def)

lemma qwen_stage_all_consumer:
  assumes run: "qwen_stage_all M c W = (Inr (), W1)"
    and d: "distinct (map fst (qe_players W))"
    and owners: "owners = ps_owners (qw_state (sg_world (qe_stager W)))" "distinct owners" "\<forall>o' \<in> set owners. 0 \<le> o'"
    and ok: "stacked_ok (qwen_stager_class M c (qe_players W)) (qe_stager W)"
    and fit: "heads_fit (qwen_stager_class M c (qe_players W)) owners H (d1, d2, d3) (hid, n) (sg_world (qe_stager W))"
    and here: "int o' \<in> set owners" "cross_features (num_experts (qc_spec c)) (int o') (sg_world (qe_stager W)) = Inr (Some feats)"
    and p: "map_of (qe_players W) (Suc o') = Some p" "s_mode (p_layer p)" "qm_tm M (int (Suc o')) = (u, v)"
    and R: "rkernels_ok (qm_R M)" "0 < qc_top_k c"
  shows "\<exists>inds sc. cross_seen (sg_world (qe_stager W1)) (int (Suc o')) = Some (inds, sc) \<and> length inds = qc_top_k c \<and>
    (\<forall>e \<in> set inds. e < n) \<and> ps_start (qw_state (sg_world (qe_stager W1))) = ps_start (qw_state (sg_world (qe_stager W))) \<and>
    ps_n (qw_state (sg_world (qe_stager W1))) = ps_n (qw_state (sg_world (qe_stager W))) \<and>
    map_of (qe_players W1) (Suc o') =
      Some (p\<lparr>p_layer := snd (stage_experts (build_of p) (u, v) (uniq inds) (p_layer p))\<rparr>)"
proof -
  let ?d = "qe_players W" and ?c = "int o' + 1"
  define C where "C = qwen_stager_class M c ?d"
  define S where "S = (qe_stager W)\<lparr>sg_world := (sg_world (qe_stager W))\<lparr>qw_layers := stream_layers ?d\<rparr>\<rparr>"
  have C: "C = cross_class (qm_R M) (num_experts (qc_spec c)) (qc_top_k c) (dict_build ?d) (qm_tm M) (qc_heads c) True"
  proof -
    have "(Suc o', p) \<in> set (filter (\<lambda>(li, p). s_mode (p_layer p)) ?d)" using p(1,2) by (auto dest: map_of_SomeD)
    then have "stream_layers ?d \<noteq> []"
      unfolding stream_layers_def map_is_Nil_conv by (rule length_pos_if_in_set [THEN length_greater_0_conv [THEN iffD1]])
    then show ?thesis by (simp add: C_def qwen_stager_class_def)
  qed
  obtain r S' where st': "stage_all C (qm_HK M) owners S = (r, S')" by fastforce
  then obtain sets where r: "r = Inr sets"
    using run by (cases r) (simp_all add: qwen_stage_all_def C_def S_def owners(1) Let_def)
  then have W1: "W1 = W\<lparr>qe_stager := S'\<lparr>sg_world := (sg_world S')\<lparr>qw_state := pstate_swap (qw_state (sg_world S'))\<rparr>\<rparr>,
      qe_players := put_back (qw_layers (sg_world S')) ?d\<rparr>"
    using run st' by (simp add: qwen_stage_all_def C_def S_def owners(1) Let_def)
  have st: "stage_all C (qm_HK M) owners S = (Inr sets, S')" using st' r by simp
  have same: "cross_features m i (sg_world S) = cross_features m i (sg_world (qe_stager W))" for m i
    by (simp add: cross_features_def S_def split: option.splits)
  have ok': "stacked_ok C S" using ok by (simp add: stacked_ok_def C_def S_def)
  have fit': "heads_fit C owners H (d1, d2, d3) (hid, n) (sg_world S)"
    using fit by (simp add: heads_fit_def C_def [symmetric]) (simp add: C cross_class_def same)
  have sc: "sc_features C = cross_features (num_experts (qc_spec c))" "sc_select C = (\<lambda>lg. select_from_logits (qm_R M) lg (qc_top_k c) True)"
    "sc_streams C = True" by (simp_all add: C cross_class_def)
  have feats: "cross_features (num_experts (qc_spec c)) (int o') (sg_world S) = Inr (Some feats)" using here(2) same by simp
  note pass = cross.stage_all_result [OF st[unfolded C] ok'[unfolded C] fit'[unfolded C] owners(2,3),
      unfolded cross.passed_def cross.staged_if_def, folded C, unfolded sc simp_thms if_True]
  obtain lg inds sc where q: "head_call (qm_HK M) (H (int o')) feats = Inr lg"
    "select_from_logits (qm_R M) lg (qc_top_k c) True = Inr (inds, sc)"
    "cross_seen (sg_world S') ?c = Some (inds, sc)"
    "map_of (qw_layers (sg_world S')) ?c =
       (if inds \<noteq> [] then map_option (layer_staged (dict_build ?d) (qm_tm M) ?c (uniq inds)) (map_of (qw_layers (sg_world S)) ?c)
        else map_of (qw_layers (sg_world S)) ?c)"
    using pass here(1) feats by blast
  have "head_ok (d1 + d2 + d3) hid n (H (int o'))" using fit here(1) by (auto simp: heads_fit_def)
  then have lg: "length lg = n" using head_call_length [OF q(1)] by blast
  have sel: "length inds = qc_top_k c" "\<forall>e \<in> set inds. e < n" using select_props [OF q(2) R] lg by simp_all
  have ne: "inds \<noteq> []" using sel(1) R(2) by auto
  have c': "?c = int (Suc o')" by simp
  have "map_of (stream_layers ?d) ?c = Some (p_layer p)"
    unfolding c' using map_of_stream_layers [OF d, of "Suc o'"] p(1,2) by simp
  moreover have "dict_build ?d ?c = build_of p" using p(1) by (auto simp: dict_build_def nat_add_distrib)
  ultimately have "map_of (qw_layers (sg_world S')) (int (Suc o')) =
      Some (snd (stage_experts (build_of p) (u, v) (uniq inds) (p_layer p)))"
    using q(4) ne p(3) by (simp add: layer_staged_def S_def add.commute)
  moreover have "cross_seen (sg_world (qe_stager W1)) i = cross_seen (sg_world S') i" for i
    by (rule cross_seen_cong) (simp_all add: W1 pstate_swap_def)
  moreover have "ps_start (qw_state (sg_world S')) = ps_start (qw_state (sg_world S)) \<and> ps_n (qw_state (sg_world S')) = ps_n (qw_state (sg_world S))"
    using cross_stage_start [of "qm_R M"] cross_stage_frame(2) [of "qm_R M"] st unfolding C by (metis snd_conv)
  ultimately show ?thesis using sel q(3) p(1) by (auto simp: W1 map_of_put_back add.commute S_def pstate_swap_def)
qed

text \<open>The hooks around a step do not touch a layer that has a prediction.\<close>

lemma qwen_hooks_keep:
  assumes "qwen_has_stager c" and "\<not> unpredicted (qw_state (sg_world (qe_stager W))) li"
  shows "qwen_step_post M c t W = Some (r, W') \<Longrightarrow> map_of (qe_players W') li = map_of (qe_players W) li \<and> qe_stager W' = qe_stager W \<and> qe_kv W' = qe_kv W"
    and "qwen_step_pre M c t W = Some (r, W') \<Longrightarrow> map_of (qe_players W') li = map_of (qe_players W) li \<and> qe_stager W' = qe_stager W \<and> qe_kv W' = qe_kv W"
  using assms by (auto simp: qwen_step_post_def qwen_step_pre_def on_qplayers_def intro: each_player_keeps)

lemma qwen_boundary_ready:
  assumes boundary: "qwen_stage_all M c W = (Inr (), W1)"
    and landed: "W2 = W1\<lparr>qe_players := map (\<lambda>(li, p). (li, p\<lparr>p_layer := fill_lands (build_of p) t (p_layer p)\<rparr>)) (qe_players W1)\<rparr>"
    and hooks: "qwen_step_post M c tok W2 = Some (Inr (), W3)" "qwen_step_pre M c tok' W3 = Some (Inr (), W4)"
    and d: "qwen_has_stager c" "distinct (map fst (qe_players W))"
    and owners: "owners = ps_owners (qw_state (sg_world (qe_stager W)))" "distinct owners" "\<forall>o' \<in> set owners. 0 \<le> o'"
    and ok: "stacked_ok (qwen_stager_class M c (qe_players W)) (qe_stager W)"
    and fit: "heads_fit (qwen_stager_class M c (qe_players W)) owners H (d1, d2, d3) (hid, n) (sg_world (qe_stager W))"
    and here: "int o' \<in> set owners" "cross_features (num_experts (qc_spec c)) (int o') (sg_world (qe_stager W)) = Inr (Some feats)"
    and p: "map_of (qe_players W) (Suc o') = Some p" "s_mode (p_layer p)" "qm_tm M (int (Suc o')) = (u, v)"
      "consumer_ok f (qm_K M) (build_of p) (qm_pins M (Suc o')) (qc_top_k c) (p_layer p)" "s_sync (p_layer p) \<or> v = Late" "l_num (p_layer p) = n"
    and R: "rkernels_ok (qm_R M)" and inside: "\<not> unpredicted (qw_state (sg_world (qe_stager W))) (Suc o')"
  shows "\<exists>inds sc p4. cross_seen (sg_world (qe_stager W4)) (int (Suc o')) = Some (inds, sc) \<and>
    ps_start (qw_state (sg_world (qe_stager W4))) = ps_start (qw_state (sg_world (qe_stager W))) \<and>
    map_of (qe_players W4) (Suc o') = Some p4 \<and> p_cfg p4 = p_cfg p \<and> s_replace (p_layer p4) = s_replace (p_layer p) \<and>
    ready f (qm_K M) (qm_pins M (Suc o')) p4 inds"
proof -
  let ?i = "Suc o'"
  have k: "0 < qc_top_k c" using p(4) by (simp add: consumer_ok_def)
  obtain inds sc where q: "cross_seen (sg_world (qe_stager W1)) (int ?i) = Some (inds, sc)" "length inds = qc_top_k c" "\<forall>e \<in> set inds. e < n"
    "ps_start (qw_state (sg_world (qe_stager W1))) = ps_start (qw_state (sg_world (qe_stager W)))"
    "ps_n (qw_state (sg_world (qe_stager W1))) = ps_n (qw_state (sg_world (qe_stager W)))"
    "map_of (qe_players W1) ?i = Some (p\<lparr>p_layer := snd (stage_experts (build_of p) (u, v) (uniq inds) (p_layer p))\<rparr>)"
    using qwen_stage_all_consumer [OF boundary d(2) owners ok fit here p(1-3) R k] by blast
  let ?p2 = "p\<lparr>p_layer := fill_lands (build_of p) t (snd (stage_experts (build_of p) (u, v) (uniq inds) (p_layer p)))\<rparr>"
  have p2: "map_of (qe_players W2) ?i = Some ?p2" using q(6) by (simp add: landed map_of_map_snd build_of_def)
  have r2: "ready f (qm_K M) (qm_pins M ?i) ?p2 inds" by (rule ready_lands(1) [OF p(4,5) q(2)]) (use q(3) p(6) in simp)
  have rep: "s_replace (p_layer ?p2) = s_replace (p_layer p)" using ready_lands(2) [OF p(4,5) q(2)] q(3) p(6) by simp
  have st2: "qe_stager W2 = qe_stager W1" by (simp add: landed)
  have in2: "\<not> unpredicted (qw_state (sg_world (qe_stager W2))) ?i" using inside q(4,5) by (simp add: st2 unpredicted_def)
  note post = qwen_hooks_keep(1) [OF d(1) in2 hooks(1)]
  have in3: "\<not> unpredicted (qw_state (sg_world (qe_stager W3))) ?i" using in2 post by simp
  note pre = qwen_hooks_keep(2) [OF d(1) in3 hooks(2)]
  have "map_of (qe_players W4) ?i = Some ?p2" "qe_stager W4 = qe_stager W1" using p2 post pre st2 by simp_all
  then show ?thesis using q(1,4) r2 rep by (intro exI [of _ inds] exI [of _ sc] exI [of _ ?p2]) simp
qed

text \<open>
  C2: the predictions of qwen reach their consumers. Let the pass at the end of a decode forward succeed, the
  fills be in (when the pass returns in the synchronous modes of the presets, the incremental stack included;
  in the asynchronous one, after the pool has run the jobs submitted), the boundary's hooks run and the next
  token go through every layer of the model, whose functions keep one row per position. Take a consumer of an
  owner with features that has the patched block enabled and does not replace its routing, whose layer is
  coherent with the checkpoint, keeps staged slots, has no fill of its own in flight, and is sized for the
  selection (as many experts as its trigger, at most eight, no more than its slots). Then the block routed with
  exactly the selection the pass stored for it, the set in its slots was that selection's, and recording the
  step's actuals would count no drop.
\<close>

theorem qwen_decode_step_no_drops:
  assumes boundary: "qwen_stage_all M c W = (Inr (), W1)"
    and landed: "W2 = W1\<lparr>qe_players := map (\<lambda>(li, p). (li, p\<lparr>p_layer := fill_lands (build_of p) t (p_layer p)\<rparr>)) (qe_players W1)\<rparr>"
    and hooks: "qwen_step_post M c tok W2 = Some (Inr (), W3)" "qwen_step_pre M c tok' W3 = Some (Inr (), W4)"
    and forward: "qwen_layers M c no_hook no_hook [0..<qm_n M] h W4 = Some (Inr h', W5)" "length h = 1" "rows_kept M"
    and d: "qwen_has_stager c" "distinct (map fst (qe_players W))"
    and owners: "owners = ps_owners (qw_state (sg_world (qe_stager W)))" "distinct owners" "\<forall>o' \<in> set owners. 0 \<le> o'"
    and ok: "stacked_ok (qwen_stager_class M c (qe_players W)) (qe_stager W)"
    and fit: "heads_fit (qwen_stager_class M c (qe_players W)) owners H (d1, d2, d3) (hid, n) (sg_world (qe_stager W))"
    and here: "int o' \<in> set owners" "cross_features (num_experts (qc_spec c)) (int o') (sg_world (qe_stager W)) = Inr (Some feats)"
    and p: "map_of (qe_players W) (Suc o') = Some p" "s_mode (p_layer p)" "qm_tm M (int (Suc o')) = (u, v)"
      "consumer_ok f (qm_K M) (build_of p) (qm_pins M (Suc o')) (qc_top_k c) (p_layer p)" "s_sync (p_layer p) \<or> v = Late" "l_num (p_layer p) = n"
    and R: "rkernels_ok (qm_R M)" and inside: "\<not> unpredicted (qw_state (sg_world (qe_stager W))) (Suc o')" "Suc o' < qm_n M"
    and route: "routes_predicted M c (Suc o') p"
  shows "\<exists>inds sc p4 p5. cross_seen (sg_world (qe_stager W4)) (int (Suc o')) = Some (inds, sc) \<and>
    map_of (qe_players W4) (Suc o') = Some p4 \<and> map_of (qe_players W5) (Suc o') = Some p5 \<and>
    s_indices (p_layer p5) = Some inds \<and> s_at_use (p_layer p5) = Some (uniq inds) \<and>
    n_staged_dropped (s_sstats (sync_actuals (p_layer p5))) = n_staged_dropped (s_sstats (p_layer p4))"
proof -
  obtain inds sc p4 where q: "cross_seen (sg_world (qe_stager W4)) (int (Suc o')) = Some (inds, sc)"
    "ps_start (qw_state (sg_world (qe_stager W4))) = ps_start (qw_state (sg_world (qe_stager W)))"
    "map_of (qe_players W4) (Suc o') = Some p4" "s_replace (p_layer p4) = s_replace (p_layer p)"
    "ready f (qm_K M) (qm_pins M (Suc o')) p4 inds"
    using qwen_boundary_ready [OF boundary landed hooks d owners ok fit here p R inside(1)] by blast
  have "Suc o' \<in> set [0..<qm_n M]" using inside(2) by simp
  moreover have "ps_start (qw_state (sg_world (qe_stager W4))) \<le> int (Suc o')" using inside(1) q(2) by (simp add: unpredicted_def)
  moreover have "routes_predicted M c (Suc o') p4" using route q(4) by (simp add: routes_predicted_def)
  ultimately obtain p5 where "map_of (qe_players W5) (Suc o') = Some p5" "no_drop inds (p_layer p4) (p_layer p5)"
    using qwen_layers_ready [OF forward(1) _ _ q(3,1) _ forward(2) q(5) _ forward(3)] by auto
  then show ?thesis using q by (auto simp: no_drop_def)
qed

section \<open>A three-layer model\<close>

lemmas tiny_fields4 = tiny_fields [OF disjI1 [OF refl]]

lemmas tiny_consumer4 = tiny_consumer [OF disjI1 [OF refl]]

definition qt_block :: "real moe_block" where
  "qt_block = \<lparr>mb_gate = (\<lambda>x. [0, 0]), mb_top_k = 1, mb_norm = True, mb_num = 2, mb_shared = id, mb_li = 1, mb_enabled = True\<rparr>"

definition qt_model :: "nat qwen_model" where
  "qt_model = \<lparr>qm_n = 3, qm_embed = map (\<lambda>t. [real t]), qm_attend = (\<lambda>li h kv. (h, Suc kv)), qm_norm = (\<lambda>li h. h),
     qm_dense = (\<lambda>li h. h), qm_block = (\<lambda>li. qt_block), qm_clip = (\<lambda>h. h), qm_final = (\<lambda>h. h), qm_head = (\<lambda>x. x), qm_kv0 = 0,
     qm_R = demo_rk, qm_K = demo_vkernels, qm_HK = demo_rhk, qm_pins = (\<lambda>li. ([], id)), qm_wait = (\<lambda>li. Late),
     qm_tm = (\<lambda>c. (Late, Late))\<rparr>"

definition qt_cfg :: qwen_cfg where
  "qt_cfg = \<lparr>qc_spec = demo_lspec\<lparr>num_experts := 2\<rparr>, qc_prerouter = Some (default_prerouter\<lparr>pp_start := 1, pp_weights_file := ''w''\<rparr>),
     qc_top_k = 1, qc_history_slots = False, qc_intra = False, qc_prefetch_history = False, qc_full_prefill = True, qc_full_n = 0,
     qc_hot_n = 0, qc_hot_window = 4, qc_chunk = 16, qc_heads = (\<lambda>i. Inr tiny_head)\<rparr>"

definition qt_world :: "nat qwen_world" where
  "qt_world = \<lparr>qe_players = [(1, tiny_player tiny_k4)],
     qe_stager = stager_new True \<lparr>qw_state = pstate_new 3 2 1 (Some [0]), qw_m_in = (\<lambda>i. Some [1]), qw_oh = (\<lambda>i. Some [1, 0]), qw_layers = []\<rparr>,
     qe_kv = 0, qe_jobs = []\<rparr>"

lemma qt_stage_run: "fst (qwen_stage_all qt_model qt_cfg qt_world) = Inr ()"
  by code_simp

definition qt_staged :: "nat qwen_world" where
  "qt_staged = snd (qwen_stage_all qt_model qt_cfg qt_world)"

definition qt_landed :: "nat qwen_world" where
  "qt_landed = qt_staged\<lparr>qe_players := map (\<lambda>(li, p). (li, p\<lparr>p_layer := fill_lands (build_of p) Late (p_layer p)\<rparr>)) (qe_players qt_staged)\<rparr>"

lemma qt_stage: "qwen_stage_all qt_model qt_cfg qt_world = (Inr (), qt_staged)"
  using qt_stage_run unfolding qt_staged_def by (metis prod.collapse)

lemma qt_state: "qw_state (sg_world (qe_stager qt_world)) = pstate_new 3 2 1 (Some [0])" "qwen_has_stager qt_cfg"
  by (simp_all add: qt_world_def stager_new_def qt_cfg_def qwen_has_stager_def)

lemma qt_staged_state:
  "ps_start (qw_state (sg_world (qe_stager qt_staged))) = 1" "ps_n (qw_state (sg_world (qe_stager qt_staged))) = 3"
  "ps_oh (qw_state (sg_world (qe_stager qt_staged))) = [None, None, None]" "map fst (qe_players qt_staged) = [1]"
  by code_simp+

lemma qt_hooks:
  "qwen_step_post qt_model qt_cfg 0 qt_landed = Some (Inr (), qt_landed)" "qwen_step_pre qt_model qt_cfg 0 qt_landed = Some (Inr (), qt_landed)"
proof -
  have "map fst (qe_players qt_landed) = [1]" using qt_staged_state(4) by (simp add: qt_landed_def comp_def split_beta)
  then obtain p where p: "qe_players qt_landed = [(1, p)]" by (cases "qe_players qt_landed") auto
  have "\<not> unpredicted (qw_state (sg_world (qe_stager qt_landed))) 1"
    by (simp add: qt_landed_def unpredicted_def qt_staged_state(1,2))
  then show "qwen_step_post qt_model qt_cfg 0 qt_landed = Some (Inr (), qt_landed)" "qwen_step_pre qt_model qt_cfg 0 qt_landed = Some (Inr (), qt_landed)"
    using p by (simp_all add: qwen_step_post_def qwen_step_pre_def on_qplayers_def qt_state(2) p [symmetric])
qed

lemma qt_fields:
  "qm_K qt_model = demo_vkernels" "qm_R qt_model = demo_rk" "qm_pins qt_model li = ([], id)" "qm_tm qt_model i = (Late, Late)"
  "qc_top_k qt_cfg = 1" "qe_players qt_world = [(1, tiny_player tiny_k4)]" "num_experts (qc_spec qt_cfg) = 2" "qm_n qt_model = 3"
  by (simp_all add: qt_model_def qt_cfg_def qt_world_def)

lemma qt_feats: "cross_features (num_experts (qc_spec qt_cfg)) (int 0) (sg_world (qe_stager qt_world)) = Inr (Some ([1], [1, 0], [0, 0]))"
  by code_simp

lemma qt_ok: "stacked_ok (qwen_stager_class qt_model qt_cfg (qe_players qt_world)) (qe_stager qt_world)"
  unfolding qt_world_def qwen_world.select_convs by (rule stacked_ok_new)

lemma qt_fit: "heads_fit (qwen_stager_class qt_model qt_cfg (qe_players qt_world)) [0] (\<lambda>i. tiny_head) (1, 2, 2) (1, 2) (sg_world (qe_stager qt_world))"
proof -
  have "cross_features 2 0 (sg_world (qe_stager qt_world)) = Inr (Some ([1], [1, 0], [0, 0]))" using qt_feats by (simp add: qt_fields)
  moreover have "qc_heads qt_cfg = (\<lambda>i. Inr tiny_head)" by (simp add: qt_cfg_def)
  ultimately show ?thesis
    by (simp add: heads_fit_def qwen_stager_class_def cross_class_def head_ok_def matrix_ok_def tiny_head_def qt_fields)
qed

lemma qt_routes: "routes_predicted qt_model qt_cfg 1 p \<longleftrightarrow> \<not> s_replace (p_layer p)"
  by (simp add: routes_predicted_def qt_state(2)) (simp add: qt_model_def qt_block_def)

lemma qt_side:
  "[0] = ps_owners (qw_state (sg_world (qe_stager qt_world)))" "\<not> unpredicted (qw_state (sg_world (qe_stager qt_world))) (Suc 0)"
  "consumer_ok (\<lambda>(i, e). checkpoint_bundle demo_cfg e) (qm_K qt_model) (build_of (tiny_player tiny_k4)) (qm_pins qt_model (Suc 0)) (qc_top_k qt_cfg)
    (p_layer (tiny_player tiny_k4))"
  "rkernels_ok (qm_R qt_model)" "rows_kept qt_model"
  using tiny_consumer4 demo_rk_ok
  by (simp_all add: qt_state(1) pstate_new_def unpredicted_def qt_fields) (simp add: rows_kept_def qt_model_def)

lemma qt_ready:
  "\<exists>inds sc p4. cross_seen (sg_world (qe_stager qt_landed)) (int (Suc 0)) = Some (inds, sc) \<and>
    map_of (qe_players qt_landed) (Suc 0) = Some p4 \<and> \<not> s_replace (p_layer p4) \<and>
    ready (\<lambda>(i, e). checkpoint_bundle demo_cfg e) (qm_K qt_model) (qm_pins qt_model (Suc 0)) p4 inds"
proof -
  have "\<exists>inds sc p4. cross_seen (sg_world (qe_stager qt_landed)) (int (Suc 0)) = Some (inds, sc) \<and>
    ps_start (qw_state (sg_world (qe_stager qt_landed))) = ps_start (qw_state (sg_world (qe_stager qt_world))) \<and>
    map_of (qe_players qt_landed) (Suc 0) = Some p4 \<and> p_cfg p4 = p_cfg (tiny_player tiny_k4) \<and> s_replace (p_layer p4) = s_replace (p_layer (tiny_player tiny_k4)) \<and>
    ready (\<lambda>(i, e). checkpoint_bundle demo_cfg e) (qm_K qt_model) (qm_pins qt_model (Suc 0)) p4 inds"
    by (rule qwen_boundary_ready [OF qt_stage qt_landed_def qt_hooks qt_state(2) _ qt_side(1) _ _ qt_ok qt_fit _ qt_feats _ _ _ qt_side(3) _ _ qt_side(4,2)])
      (simp_all add: qt_fields tiny_fields4)
  then show ?thesis using tiny_fields4(13) by auto
qed

lemma qt_dense:
  assumes "map_of (qe_players W) li = None"
  shows "\<exists>W'. qwen_layer qt_model qt_cfg li [[x]] W = Some (Inr [[x + x]], W') \<and> qe_players W' = qe_players W \<and> qe_stager W' = qe_stager W"
  using assms by (simp add: qwen_layer_def qt_model_def add_rows_def)

lemma qt_forward:
  "\<exists>h W'. qwen_layers qt_model qt_cfg no_hook no_hook [0..<qm_n qt_model] [[1]] qt_landed = Some (Inr h, W')"
proof -
  obtain inds sc p4 where q: "cross_seen (sg_world (qe_stager qt_landed)) 1 = Some (inds, sc)" "map_of (qe_players qt_landed) 1 = Some p4"
    "\<not> s_replace (p_layer p4)" "ready (\<lambda>(i, e). checkpoint_bundle demo_cfg e) (qm_K qt_model) (qm_pins qt_model 1) p4 inds"
    using qt_ready by auto
  have keys: "map fst (qe_players qt_landed) = [1]" using qt_staged_state(4) by (simp add: qt_landed_def comp_def split_beta)
  have none: "map_of (qe_players qt_landed) 0 = None" "map_of (qe_players qt_landed) 2 = None"
    using keys by (cases "qe_players qt_landed"; force)+
  obtain W1 where l0: "qwen_layer qt_model qt_cfg 0 [[1]] qt_landed = Some (Inr [[2]], W1)" "qe_players W1 = qe_players qt_landed"
    "qe_stager W1 = qe_stager qt_landed" using qt_dense [OF none(1), of 1] by auto
  let ?w = "sg_world (qe_stager qt_landed)" and ?b = qt_block
  let ?F = "\<lambda>js. forward (qm_K qt_model) (lc_fused (p_cfg p4)) (build_of p4) (qm_pins qt_model 1) (qm_wait qt_model 1) [[2]] (Some js)"
  have b: "mb_li ?b = 1" "mb_enabled ?b" by (simp_all add: qt_block_def)
  have st: "ps_start (qw_state ?w) = 1" "ps_oh (qw_state ?w) = [None, None, None]"
    using qt_staged_state by (simp_all add: qt_landed_def)
  have route: "prerouter_route (qm_R qt_model) ?b [2] (qw_state ?w) = Inr (inds, sc)"
    using q(1) st(1) b(1) by (auto simp: prerouter_route_def Let_def cross_seen_def split: if_splits option.splits)
  obtain out L' where ap: "moe_apply (mb_shared ?b) ?F [[2]] [(inds, sc)] (p_layer p4) = Some (Inr [out], L')"
    using ready_apply [OF q(4)] by blast
  have "\<exists>w'. prerouter_call (qm_R qt_model) ?b ?F False [[2]] ?w (p_layer p4) = Some (Inr [out], w', L')"
    using route ap b st(2) by (simp add: prerouter_call_def Let_def py_put_def py_pos_def)
  then obtain w' where call: "prerouter_call (qm_R qt_model) ?b ?F False [[2]] ?w (p_layer p4) = Some (Inr [out], w', L')" by blast
  have "\<exists>W2. qwen_layer qt_model qt_cfg 1 [[2]] W1 = Some (Inr [map2 (+) [2] out], W2) \<and> map_of (qe_players W2) 2 = None"
  proof -
    have "qm_attend qt_model 1 [[2]] kv = ([[2]], Suc kv)" "qm_norm qt_model 1 [[2]] = [[2]]" "qm_block qt_model 1 = qt_block" for kv
      by (simp_all add: qt_model_def)
    then show ?thesis using q(2,3) l0(2,3) call none(2)
      by (simp add: qwen_layer_def qwen_moe_def Let_def qt_state(2) add_rows_def set_layer_def update_conv')
  qed
  then obtain W2 where l1: "qwen_layer qt_model qt_cfg 1 [[2]] W1 = Some (Inr [map2 (+) [2] out], W2)" "map_of (qe_players W2) 2 = None" by blast
  have l2: "\<exists>h W3. qwen_layer qt_model qt_cfg 2 [map2 (+) [2] out] W2 = Some (Inr h, W3)"
    using l1(2) by (simp add: qwen_layer_def qt_model_def)
  have clip: "qm_clip qt_model h = h" for h by (simp add: qt_model_def)
  have "[0..<qm_n qt_model] = [0, 1, 2]" by (simp add: qt_fields upt_rec)
  then show ?thesis using l0(1) l1(1) l2 by (auto simp: qwen_layers_plain clip simp del: qwen_layers.simps(2))
qed

theorem qwen_decode_step_no_drops_witness:
  "\<exists>h W5 inds sc p4 p5. qwen_layers qt_model qt_cfg no_hook no_hook [0..<qm_n qt_model] [[1]] qt_landed = Some (Inr h, W5) \<and>
    cross_seen (sg_world (qe_stager qt_landed)) (int (Suc 0)) = Some (inds, sc) \<and>
    map_of (qe_players qt_landed) (Suc 0) = Some p4 \<and> map_of (qe_players W5) (Suc 0) = Some p5 \<and>
    s_indices (p_layer p5) = Some inds \<and> s_at_use (p_layer p5) = Some (uniq inds) \<and>
    n_staged_dropped (s_sstats (sync_actuals (p_layer p5))) = n_staged_dropped (s_sstats (p_layer p4))"
proof -
  obtain h W5 where f: "qwen_layers qt_model qt_cfg no_hook no_hook [0..<qm_n qt_model] [[1]] qt_landed = Some (Inr h, W5)" using qt_forward by blast
  have "\<exists>inds sc p4 p5. cross_seen (sg_world (qe_stager qt_landed)) (int (Suc 0)) = Some (inds, sc) \<and>
    map_of (qe_players qt_landed) (Suc 0) = Some p4 \<and> map_of (qe_players W5) (Suc 0) = Some p5 \<and>
    s_indices (p_layer p5) = Some inds \<and> s_at_use (p_layer p5) = Some (uniq inds) \<and>
    n_staged_dropped (s_sstats (sync_actuals (p_layer p5))) = n_staged_dropped (s_sstats (p_layer p4))"
    by (rule qwen_decode_step_no_drops [OF qt_stage qt_landed_def qt_hooks f _ qt_side(5) qt_state(2) _ qt_side(1) _ _ qt_ok qt_fit _ qt_feats
          _ _ _ qt_side(3) _ _ qt_side(4,2)])
      (use tiny_fields4(13) in \<open>simp_all add: qt_fields tiny_fields4 qt_routes [simplified]\<close>)
  then show ?thesis using f by blast
qed

end
