(* ===== verification/Py_Text.thy ===== *)
theory Py_Text
  imports Prelude
begin

text \<open>
  Python text as the server handles it: a string is a list of code points, \<open>lit\<close> gives the ASCII literals
  of the sources. White space is \<open>str.isspace\<close>, which is also what \<open>\s\<close> of a regular expression and
  \<open>strip()\<close> use. The regular expressions of the sources are built from literals, white-space runs and
  lazy groups \<open>(.*?)\<close>; a lazy group is the leftmost place where the rest of the pattern matches (\<open>seek\<close>),
  and \<open>finditer\<close> repeats that after each match.

  JSON values are one datatype; an object keeps its keys in order. A number is an integer, the exact
  value of a finite float, or one of the constants that are no JSON (\<open>NaN\<close> and the infinities).
\<close>

type_synonym str = "nat list"

definition lit :: "string \<Rightarrow> str" where
  "lit s = map of_char s"

definition uspace :: "nat \<Rightarrow> bool" where
  "uspace c \<longleftrightarrow> (9 \<le> c \<and> c \<le> 13) \<or> (28 \<le> c \<and> c \<le> 32) \<or> c = 133 \<or> c = 160 \<or> c = 5760 \<or> (8192 \<le> c \<and> c \<le> 8202) \<or>
     c = 8232 \<or> c = 8233 \<or> c = 8239 \<or> c = 8287 \<or> c = 12288"

definition lstrip_text :: "str \<Rightarrow> str" where
  "lstrip_text s = dropWhile uspace s"

definition rstrip_text :: "str \<Rightarrow> str" where
  "rstrip_text s = rev (dropWhile uspace (rev s))"

definition strip_text :: "str \<Rightarrow> str" where
  "strip_text s = rstrip_text (lstrip_text s)"

section \<open>Matching\<close>

text \<open>\<open>eat p s\<close>: what follows the literal \<open>p\<close> at the front of \<open>s\<close>.\<close>

fun eat :: "'c list \<Rightarrow> 'c list \<Rightarrow> 'c list option" where
  "eat [] s = Some s"
| "eat (p # ps) [] = None"
| "eat (p # ps) (c # s) = (if c = p then eat ps s else None)"

fun seek :: "('c list \<Rightarrow> 'm option) \<Rightarrow> 'c list \<Rightarrow> ('c list \<times> 'm) option" where
  "seek f [] = map_option (\<lambda>m. ([], m)) (f [])"
| "seek f (c # s) =
     (case f (c # s) of
        Some m \<Rightarrow> Some ([], m)
      | None \<Rightarrow> map_option (\<lambda>(g, m). (c # g, m)) (seek f s))"

text \<open>
  The matches of \<open>finditer\<close> as triples of the text skipped before the match, its groups and the matched
  text, and the text after the last one. Every pattern of the sources consumes its first literal, so the
  test that the rest got shorter never fails.
\<close>

function finditer :: "('c list \<Rightarrow> ('g \<times> 'c list) option) \<Rightarrow> 'c list \<Rightarrow> ('c list \<times> 'g \<times> 'c list) list \<times> 'c list" where
  "finditer p s =
     (case seek p s of
        None \<Rightarrow> ([], s)
      | Some (gap, g, rest) \<Rightarrow>
          if length rest < length s
          then (case finditer p rest of
                  (ms, tail) \<Rightarrow> ((gap, g, take (length s - length gap - length rest) (drop (length gap) s)) # ms, tail))
          else ([], s))"
  by pat_completeness auto
termination by (relation "measure (\<lambda>(p, s). length s)") auto

declare finditer.simps [simp del]

section \<open>JSON\<close>

datatype json = JNull | JBool bool | JInt int | JFloat rat | JSpecial str | JStr str | JList "json list" | JObj "(str \<times> json) list"

definition jget :: "string \<Rightarrow> (str \<times> json) list \<Rightarrow> json" where
  "jget k kvs = (case map_of kvs (lit k) of None \<Rightarrow> JNull | Some v \<Rightarrow> v)"

text \<open>Python's truth of a JSON value.\<close>

fun truthy :: "json \<Rightarrow> bool" where
  "truthy JNull = False"
| "truthy (JBool b) = b"
| "truthy (JInt i) = (i \<noteq> 0)"
| "truthy (JFloat r) = (r \<noteq> 0)"
| "truthy (JSpecial s) = True"
| "truthy (JStr s) = (s \<noteq> [])"
| "truthy (JList xs) = (xs \<noteq> [])"
| "truthy (JObj kvs) = (kvs \<noteq> [])"

section \<open>Laws\<close>

lemma eat_append [simp]: "eat p (p @ s) = Some s"
  by (induction p) auto

lemma eat_Some: "eat p s = Some r \<longleftrightarrow> s = p @ r"
  by (induction p s rule: eat.induct) auto

lemma eat_None: "eat p s = None \<longleftrightarrow> (\<forall>r. s \<noteq> p @ r)"
  by (metis eat_Some not_None_eq)

lemma seek_Some_append: "seek f s = Some (g, m) \<Longrightarrow> \<exists>s'. s = g @ s' \<and> f s' = Some m"
  by (induction f s arbitrary: g rule: seek.induct) (auto split: option.splits)

lemma seek_here: "f s = Some m \<Longrightarrow> seek f s = Some ([], m)"
  by (cases s) auto

lemma seek_skip:
  assumes "f s = Some m" and "\<And>j. j < length g \<Longrightarrow> f (drop j g @ s) = None"
  shows "seek f (g @ s) = Some (g, m)"
  using assms(2)
proof (induction g)
  case Nil
  show ?case by (simp add: seek_here assms(1))
next
  case (Cons c g)
  have "f (c # g @ s) = None" using Cons.prems [of 0] by simp
  moreover have "seek f (g @ s) = Some (g, m)"
  proof (rule Cons.IH)
    show "f (drop j g @ s) = None" if "j < length g" for j using Cons.prems [of "Suc j"] that by simp
  qed
  ultimately show ?case by simp
qed

lemma seek_None: "seek f s = None \<longleftrightarrow> (\<forall>a b. s = a @ b \<longrightarrow> f b = None)"
proof (induction f s rule: seek.induct)
  case (2 f c s)
  show ?case
  proof (cases "f (c # s)")
    case None
    have "(\<forall>a b. c # s = a @ b \<longrightarrow> f b = None) \<longleftrightarrow> f (c # s) = None \<and> (\<forall>a b. s = a @ b \<longrightarrow> f b = None)"
      by (auto simp: Cons_eq_append_conv)
    then show ?thesis using 2 None by simp
  qed auto
qed auto

text \<open>A literal whose first character does not recur in it cannot straddle the place where it stands.\<close>

lemma eat_before:
  assumes "\<nexists>a b. v = a @ (x # xs) @ b" and "x \<notin> set xs" and "j < length v"
  shows "eat (x # xs) (drop j v @ (x # xs) @ r) = None"
proof (rule ccontr)
  assume "eat (x # xs) (drop j v @ (x # xs) @ r) \<noteq> None"
  then obtain t where t: "drop j v @ (x # xs) @ r = (x # xs) @ t" by (auto simp: eat_Some)
  show False
  proof (cases "length (x # xs) \<le> length (drop j v)")
    case True
    then have "drop j v = (x # xs) @ drop (length (x # xs)) (drop j v)"
      using t by (metis append_eq_append_conv_if append_eq_conv_conj append_take_drop_id)
    then have "v = take j v @ (x # xs) @ drop (length (x # xs)) (drop j v)" by (metis append_take_drop_id)
    then show False using assms(1) by blast
  next
    case False
    let ?n = "length (drop j v)"
    have n: "0 < ?n" "?n < length (x # xs)" using False assms(3) by auto
    have "(drop j v @ (x # xs) @ r) ! ?n = x" by (simp add: nth_append)
    moreover have "((x # xs) @ t) ! ?n = xs ! (?n - 1)" using n by (subst nth_append) (simp add: nth_Cons' del: length_drop)
    ultimately have "x \<in> set xs" using t n by (metis One_nat_def Suc_less_eq Suc_pred length_Cons nth_mem)
    then show False using assms(2) by blast
  qed
qed

lemma seek_lit:
  assumes "\<nexists>a b. v = a @ (x # xs) @ b" and "x \<notin> set xs"
  shows "seek (eat (x # xs)) (v @ (x # xs) @ r) = Some (v, r)"
proof (rule seek_skip)
  show "eat (x # xs) ((x # xs) @ r) = Some r" by (rule eat_append)
  show "eat (x # xs) (drop j v @ (x # xs) @ r) = None" if "j < length v" for j by (rule eat_before [OF assms that])
qed

lemma alist_update_new: "k \<notin> fst ` set d \<Longrightarrow> AList.update k v d = d @ [(k, v)]"
  by (induction d) auto

lemma dropWhile_uspace_id: "s = [] \<or> \<not> uspace (hd s) \<Longrightarrow> dropWhile uspace s = s"
  by (cases s) auto

lemma strip_blank:
  assumes "list_all uspace s"
  shows "strip_text s = []"
proof -
  have e: "dropWhile uspace s = []" using assms by (simp add: list_all_iff)
  show ?thesis unfolding strip_text_def lstrip_text_def rstrip_text_def e by simp
qed

lemma strip_text_Nil: "strip_text s = [] \<longleftrightarrow> list_all uspace s"
proof
  assume a: "strip_text s = []"
  have "dropWhile uspace s = []"
  proof (rule ccontr)
    assume ne: "dropWhile uspace s \<noteq> []"
    then have "\<not> uspace (hd (dropWhile uspace s))" by (rule hd_dropWhile)
    moreover have "\<forall>c \<in> set (rev (dropWhile uspace s)). uspace c"
      using a unfolding strip_text_def lstrip_text_def rstrip_text_def rev_is_Nil_conv dropWhile_eq_Nil_conv .
    ultimately show False using ne by simp
  qed
  then show "list_all uspace s" by (simp add: list_all_iff)
qed (rule strip_blank)

lemma strip_text_idem: "strip_text (strip_text s) = strip_text s"
proof -
  let ?u = "dropWhile uspace (rev (dropWhile uspace s))"
  have "?u = [] \<or> \<not> uspace (hd ?u)" using hd_dropWhile by blast
  moreover have "rev ?u = [] \<or> \<not> uspace (hd (rev ?u))"
  proof (cases "?u = []")
    case False
    then have "last ?u = last (rev (dropWhile uspace s))" by (metis last_appendR takeWhile_dropWhile_id)
    moreover have "dropWhile uspace s \<noteq> []" using False by (metis dropWhile.simps(1) rev.simps(1))
    ultimately have "\<not> uspace (last ?u)" using hd_dropWhile [of uspace s] by (simp add: last_rev)
    then show ?thesis by (simp add: hd_rev)
  qed simp
  ultimately show ?thesis by (simp add: strip_text_def lstrip_text_def rstrip_text_def dropWhile_uspace_id)
qed

end
