(* ===== verification/Tool_Calls.thy ===== *)
theory Tool_Calls
  imports Py_Text
begin

text \<open>
  The tool-call blocks of the two chat templates (\<open>edge0/server/tool_calls.py\<close>). \<open>json.loads\<close>, also with the
  constants rejected, and \<open>json.dumps\<close> are the functions of \<open>json_lib\<close>; the ids drawn from \<open>uuid4\<close> are
  a supply indexed by the number of the call. \<open>None\<close> as \<open>tools\<close> is \<open>JNull\<close>.
\<close>

record json_lib =
  js_loads :: "str \<Rightarrow> json option"
  js_strict :: "str \<Rightarrow> json option"
  js_dumps :: "json \<Rightarrow> str"

record tool_call =
  tc_id :: str
  tc_name :: str
  tc_arguments :: str

type_synonym raw_args = "(str \<times> str) list"

section \<open>The patterns\<close>

definition tool_call_block :: "str \<Rightarrow> (str \<times> str) option" where
  "tool_call_block s = Option.bind (eat (lit ''<tool_call>'') s) (seek (eat (lit ''</tool_call>'')))"

definition ling_arg_mid :: "str \<Rightarrow> (str \<times> str) option" where
  "ling_arg_mid s =
     Option.bind (eat (lit ''</arg_key>'') s) (\<lambda>s.
       Option.bind (eat (lit ''<arg_value>'') (dropWhile uspace s)) (seek (eat (lit ''</arg_value>''))))"

definition ling_arg :: "str \<Rightarrow> ((str \<times> str) \<times> str) option" where
  "ling_arg s =
     Option.bind (eat (lit ''<arg_key>'') s) (\<lambda>s. map_option (\<lambda>(k, v, rest). ((k, v), rest)) (seek ling_arg_mid s))"

text \<open>\<open>[^>]+>\<close>: everything up to the first \<open>>\<close>, at least one character.\<close>

definition until_gt :: "str \<Rightarrow> (str \<times> str) option" where
  "until_gt s =
     (let name = takeWhile (\<lambda>c. c \<noteq> 62) s
      in if name = [] then None else map_option (\<lambda>r. (name, r)) (eat [62] (dropWhile (\<lambda>c. c \<noteq> 62) s)))"

definition qwen_param :: "str \<Rightarrow> ((str \<times> str) \<times> str) option" where
  "qwen_param s =
     Option.bind (eat (lit ''<parameter='') s) (\<lambda>s.
       Option.bind (until_gt s) (\<lambda>(k, s).
         Option.bind (eat [10] s) (\<lambda>s.
           map_option (\<lambda>(v, rest). ((k, v), rest)) (seek (eat (10 # lit ''</parameter>'')) s))))"

definition function_end :: "str \<Rightarrow> unit option" where
  "function_end s =
     Option.bind (eat (lit ''</function>'') (dropWhile uspace s)) (\<lambda>s. if dropWhile uspace s = [] then Some () else None)"

text \<open>The full match; neither greedy white-space run has to give anything back, for a tag starts with \<open><\<close>.\<close>

definition qwen_function :: "str \<Rightarrow> (str \<times> str) option" where
  "qwen_function s =
     Option.bind (eat (lit ''<function='') (dropWhile uspace s)) (\<lambda>s.
       Option.bind (until_gt s) (\<lambda>(name, s).
         map_option (\<lambda>(params, _). (name, params)) (seek function_end (dropWhile uspace s))))"

section \<open>Values\<close>

definition coerce :: "json_lib \<Rightarrow> str \<Rightarrow> json" where
  "coerce J raw = (case js_strict J raw of Some v \<Rightarrow> v | None \<Rightarrow> JStr raw)"

definition string_properties :: "(str \<times> json) list \<Rightarrow> str list" where
  "string_properties f =
     (case jget ''parameters'' f of
        JObj ps \<Rightarrow>
          (case jget ''properties'' ps of
             JObj props \<Rightarrow>
               map fst (filter (\<lambda>(key, schema). case schema of JObj s \<Rightarrow> jget ''type'' s = JStr (lit ''string'') | _ \<Rightarrow> False) props)
           | _ \<Rightarrow> [])
      | _ \<Rightarrow> [])"

fun string_params_of :: "json list \<Rightarrow> str \<Rightarrow> str list" where
  "string_params_of [] name = []"
| "string_params_of (tool # tools) name =
     (case tool of
        JObj t \<Rightarrow>
          (case jget ''function'' t of
             JObj f \<Rightarrow> if jget ''name'' f = JStr name then string_properties f else string_params_of tools name
           | _ \<Rightarrow> string_params_of tools name)
      | _ \<Rightarrow> string_params_of tools name)"

definition string_parameters :: "json \<Rightarrow> str \<Rightarrow> str list" where
  "string_parameters tools name = (case tools of JList ts \<Rightarrow> string_params_of ts name | _ \<Rightarrow> [])"

definition to_openai :: "json_lib \<Rightarrow> str \<Rightarrow> str \<Rightarrow> (str \<times> json) list \<Rightarrow> tool_call" where
  "to_openai J i name args = \<lparr>tc_id = i, tc_name = strip_text name, tc_arguments = js_dumps J (JObj args)\<rparr>"

definition coerced_args :: "json_lib \<Rightarrow> json \<Rightarrow> str \<Rightarrow> raw_args \<Rightarrow> (str \<times> json) list" where
  "coerced_args J tools name raw =
     (let strings = string_parameters tools (strip_text name)
      in map (\<lambda>(key, r). (key, if key \<in> set strings then JStr r else coerce J r)) raw)"

section \<open>Blocks\<close>

text \<open>
  The loop of \<open>_split\<close> on the matches of the block pattern: the content keeps the text before a match, and
  the block itself when its body does not parse.
\<close>

fun split_blocks ::
  "json_lib \<Rightarrow> (nat \<Rightarrow> str) \<Rightarrow> (str \<Rightarrow> (str \<times> raw_args) option) \<Rightarrow> json \<Rightarrow> nat \<Rightarrow> (str \<times> str \<times> str) list \<Rightarrow> str \<times> tool_call list" where
  "split_blocks J ids parse tools n [] = ([], [])"
| "split_blocks J ids parse tools n ((gap, body, whole) # ms) =
     (case parse body of
        None \<Rightarrow> (case split_blocks J ids parse tools n ms of (content, calls) \<Rightarrow> (gap @ whole @ content, calls))
      | Some (name, raw) \<Rightarrow>
          (case split_blocks J ids parse tools (Suc n) ms of
             (content, calls) \<Rightarrow> (gap @ content, to_openai J (ids n) name (coerced_args J tools name raw) # calls)))"

definition split_calls ::
  "json_lib \<Rightarrow> (nat \<Rightarrow> str) \<Rightarrow> (str \<Rightarrow> (str \<times> raw_args) option) \<Rightarrow> json \<Rightarrow> str \<Rightarrow> str option \<times> tool_call list" where
  "split_calls J ids parse tools s =
     (case finditer tool_call_block s of
        (ms, tail) \<Rightarrow>
          (case split_blocks J ids parse tools 0 ms of
             (content, calls) \<Rightarrow>
               let content = strip_text (content @ tail)
               in if calls \<noteq> [] \<and> content = [] then (None, calls) else (Some content, calls)))"

text \<open>The matches may be separated by white space only; a repeated key takes the last value.\<close>

fun collect_args :: "(str \<times> (str \<times> str) \<times> str) list \<Rightarrow> raw_args \<Rightarrow> raw_args option" where
  "collect_args [] args = Some args"
| "collect_args ((gap, (k, v), whole) # ms) args =
     (if strip_text gap \<noteq> [] then None
      else if strip_text k = [] then None
      else collect_args ms (AList.update (strip_text k) v args))"

definition parse_arguments :: "(str \<Rightarrow> ((str \<times> str) \<times> str) option) \<Rightarrow> str \<Rightarrow> raw_args option" where
  "parse_arguments pat s =
     (case finditer pat s of
        (ms, tail) \<Rightarrow> Option.bind (collect_args ms []) (\<lambda>args. if strip_text tail \<noteq> [] then None else Some args))"

definition parse_ling_block :: "str \<Rightarrow> (str \<times> raw_args) option" where
  "parse_ling_block body =
     (let raw = takeWhile (\<lambda>c. c \<noteq> 60) body; name = strip_text raw
      in if raw = [] then None else if name = [] then None
         else map_option (\<lambda>args. (name, args)) (parse_arguments ling_arg (drop (length raw) body)))"

definition parse_qwen_block :: "str \<Rightarrow> (str \<times> raw_args) option" where
  "parse_qwen_block body =
     (case qwen_function body of
        None \<Rightarrow> None
      | Some (raw, params) \<Rightarrow>
          let name = strip_text raw
          in if name = [] then None else map_option (\<lambda>args. (name, args)) (parse_arguments qwen_param params))"

definition parse_ling_tool_calls :: "json_lib \<Rightarrow> (nat \<Rightarrow> str) \<Rightarrow> str \<Rightarrow> json \<Rightarrow> str option \<times> tool_call list" where
  "parse_ling_tool_calls J ids s tools = split_calls J ids parse_ling_block tools s"

definition parse_qwen_tool_calls :: "json_lib \<Rightarrow> (nat \<Rightarrow> str) \<Rightarrow> str \<Rightarrow> json \<Rightarrow> str option \<times> tool_call list" where
  "parse_qwen_tool_calls J ids s tools = split_calls J ids parse_qwen_block tools s"

section \<open>Rendered calls\<close>

text \<open>
  What the templates ask the model to write. \<open>spaced\<close> puts white space before every argument; the tail
  follows the last one.
\<close>

datatype tool_family = Ling_Calls str | Qwen_Calls

fun spaced :: "str \<Rightarrow> str \<Rightarrow> ('r \<Rightarrow> str) \<Rightarrow> 'r list \<Rightarrow> str \<Rightarrow> str" where
  "spaced g ws arg [] rest = rest"
| "spaced g ws arg (r # rs) rest = g @ arg r @ spaced ws ws arg rs rest"

fun ling_arg_text :: "str \<Rightarrow> str \<times> str \<Rightarrow> str" where
  "ling_arg_text ws (k, v) = lit ''<arg_key>'' @ k @ lit ''</arg_key>'' @ ws @ lit ''<arg_value>'' @ v @ lit ''</arg_value>''"

fun qwen_arg_text :: "str \<times> str \<Rightarrow> str" where
  "qwen_arg_text (k, v) = lit ''<parameter='' @ k @ [62, 10] @ v @ [10] @ lit ''</parameter>''"

fun body_text :: "tool_family \<Rightarrow> str \<Rightarrow> raw_args \<Rightarrow> str" where
  "body_text (Ling_Calls ws) name raw = name @ spaced ws ws (ling_arg_text ws) raw ws"
| "body_text Qwen_Calls name raw =
     [10] @ lit ''<function='' @ name @ [62] @ spaced [10] [10] qwen_arg_text raw ([10] @ lit ''</function>'' @ [10])"

fun parse_body :: "tool_family \<Rightarrow> str \<Rightarrow> (str \<times> raw_args) option" where
  "parse_body (Ling_Calls ws) = parse_ling_block"
| "parse_body Qwen_Calls = parse_qwen_block"

definition block_text :: "str \<Rightarrow> str" where
  "block_text body = lit ''<tool_call>'' @ body @ lit ''</tool_call>''"

definition free_of :: "string \<Rightarrow> str \<Rightarrow> bool" where
  "free_of p s \<longleftrightarrow> (\<nexists>a b. s = a @ lit p @ b)"

definition name_ok :: "str \<Rightarrow> bool" where
  "name_ok s \<longleftrightarrow> s \<noteq> [] \<and> strip_text s = s \<and> 60 \<notin> set s \<and> 62 \<notin> set s"

fun args_fit :: "tool_family \<Rightarrow> raw_args \<Rightarrow> bool" where
  "args_fit (Ling_Calls ws) raw \<longleftrightarrow> list_all uspace ws \<and> distinct (map fst raw) \<and>
     (\<forall>(k, v) \<in> set raw. name_ok k \<and> free_of ''</arg_value>'' v)"
| "args_fit Qwen_Calls raw \<longleftrightarrow> distinct (map fst raw) \<and>
     (\<forall>(k, v) \<in> set raw. name_ok k \<and> (\<nexists>a b. v = a @ (10 # lit ''</parameter>'') @ b))"

section \<open>Parsing what was rendered\<close>

lemma seek_blank:
  assumes "\<And>c t. c \<noteq> x \<Longrightarrow> f (c # t) = None" and "x \<notin> set g" and "f s = Some m"
  shows "seek f (g @ s) = Some (g, m)"
proof (rule seek_skip [where f = f and s = s and m = m])
  show "f s = Some m" by (rule assms(3))
  show "f (drop j g @ s) = None" if "j < length g" for j
  proof -
    have "drop j g = g ! j # drop (Suc j) g" using that by (simp add: Cons_nth_drop_Suc)
    moreover have "g ! j \<noteq> x" using that assms(2) by (metis nth_mem)
    ultimately show ?thesis using assms(1) by simp
  qed
qed

lemma seek_none_blank:
  assumes "\<And>c t. c \<noteq> x \<Longrightarrow> f (c # t) = None" and "x \<notin> set g" and "f [] = None"
  shows "seek f g = None"
  using assms(2)
proof (induction g)
  case (Cons c g)
  have "f (c # g) = None" by (rule assms(1)) (use Cons.prems in auto)
  then show ?case using Cons by simp
qed (simp add: assms(3))

lemma finditer_match:
  assumes "seek p s = Some (g, m, rest)" and "length rest < length s"
  shows "finditer p s = (let w = take (length s - length g - length rest) (drop (length g) s)
    in ((g, m, w) # fst (finditer p rest), snd (finditer p rest)))"
  using assms by (subst finditer.simps) (simp add: Let_def split: prod.splits)

lemma finditer_none: "seek p s = None \<Longrightarrow> finditer p s = ([], s)"
  by (subst finditer.simps) simp

lemma blank_no_tag: "list_all uspace s \<Longrightarrow> 60 \<notin> set s"
  by (auto simp: list_all_iff uspace_def)

lemma name_okD: "name_ok s \<Longrightarrow> s \<noteq> [] \<and> strip_text s = s \<and> 60 \<notin> set s \<and> 62 \<notin> set s"
  by (simp add: name_ok_def)

lemma collect_spaced:
  assumes pat: "\<And>c t. c \<noteq> 60 \<Longrightarrow> pat (c # t) = None" "pat [] = None"
    and arg: "\<And>r t. r \<in> set raw \<Longrightarrow> pat (arg r @ t) = Some (r, t) \<and> arg r \<noteq> []"
    and ws: "list_all uspace g" "list_all uspace ws" "list_all uspace rest"
    and keys: "distinct (map fst (acc @ raw))" "\<forall>(k, v) \<in> set raw. name_ok k"
  shows "\<exists>ms. finditer pat (spaced g ws arg raw rest) = (ms, rest) \<and> collect_args ms acc = Some (acc @ raw)"
  using arg ws(1) keys
proof (induction raw arbitrary: g acc)
  case Nil
  have "seek pat rest = None" by (rule seek_none_blank [OF pat(1) blank_no_tag [OF ws(3)] pat(2)])
  then show ?case by (simp add: finditer_none)
next
  case (Cons r raw)
  obtain k v where r: "r = (k, v)" by (cases r)
  let ?t = "spaced ws ws arg raw rest"
  have p: "pat (arg r @ ?t) = Some (r, ?t)" "arg r \<noteq> []" using Cons.prems(1) [of r ?t] by simp_all
  have s: "seek pat (g @ arg r @ ?t) = Some (g, r, ?t)"
    by (rule seek_blank [OF pat(1) blank_no_tag [OF Cons.prems(2)] p(1)])
  obtain ms where ms: "finditer pat ?t = (ms, rest)" "collect_args ms (acc @ [r]) = Some ((acc @ [r]) @ raw)"
    using Cons.IH [of ws "acc @ [r]"] Cons.prems ws by auto
  have k: "strip_text k = k" "k \<noteq> []" using Cons.prems(4) r by (auto dest: name_okD)
  have "k \<notin> fst ` set acc" using Cons.prems(3) r by auto
  then have "AList.update k v acc = acc @ [r]" using r by (simp add: alist_update_new)
  moreover have "strip_text g = []" using Cons.prems(2) by (rule strip_blank)
  ultimately show ?case
    using finditer_match [OF s] p(2) ms k r by (simp add: Let_def)
qed

lemma lit_simps [simp]: "lit [] = []" "lit (c # s) = of_char c # lit s"
  by (simp_all add: lit_def)

lemma length_lit [simp]: "length (lit s) = length s"
  by (simp add: lit_def)

text \<open>Every tag starts with \<open><\<close>, which is no other character of it.\<close>

lemma ling_arg_text:
  assumes "name_ok k" "free_of ''</arg_value>'' v" "list_all uspace ws"
  shows "ling_arg (ling_arg_text ws (k, v) @ t) = Some ((k, v), t)"
proof -
  let ?rest = "lit ''</arg_key>'' @ ws @ lit ''<arg_value>'' @ v @ lit ''</arg_value>'' @ t"
  have v: "seek (eat (lit ''</arg_value>'')) (v @ lit ''</arg_value>'' @ t) = Some (v, t)"
    using seek_lit [of v 60 "lit ''/arg_value>''" t] assms(2) by (simp add: free_of_def)
  have "dropWhile uspace (ws @ lit ''<arg_value>'' @ x) = lit ''<arg_value>'' @ x" for x
    using assms(3) by (simp add: list_all_iff uspace_def)
  then have m: "ling_arg_mid ?rest = Some (v, t)" using v unfolding ling_arg_mid_def by simp
  have "seek ling_arg_mid (k @ ?rest) = Some (k, v, t)"
  proof (rule seek_blank [where x = 60])
    show "ling_arg_mid (c # u) = None" if "c \<noteq> 60" for c u using that by (simp add: ling_arg_mid_def)
    show "60 \<notin> set k" using assms(1) by (simp add: name_okD)
  qed (rule m)
  then show ?thesis unfolding ling_arg_def by simp
qed

lemma until_gt_name: "s \<noteq> [] \<Longrightarrow> 62 \<notin> set s \<Longrightarrow> until_gt (s @ 62 # t) = Some (s, t)"
proof -
  assume s: "s \<noteq> []" "62 \<notin> set s"
  have "takeWhile (\<lambda>c. c \<noteq> 62) (s @ 62 # t) = s" "dropWhile (\<lambda>c. c \<noteq> 62) (s @ 62 # t) = 62 # t"
    using s(2) by (induction s) auto
  then show ?thesis using s(1) by (simp add: until_gt_def)
qed

lemma qwen_arg_text:
  assumes "name_ok k" "\<nexists>a b. v = a @ (10 # lit ''</parameter>'') @ b"
  shows "qwen_param (qwen_arg_text (k, v) @ t) = Some ((k, v), t)"
proof -
  have "seek (eat (10 # lit ''</parameter>'')) (v @ (10 # lit ''</parameter>'') @ t) = Some (v, t)"
    by (rule seek_lit [OF assms(2)]) simp
  moreover have "until_gt (k @ 62 # x) = Some (k, x)" for x using assms(1) until_gt_name by (simp add: name_okD)
  ultimately show ?thesis by (simp add: qwen_param_def)
qed

lemma parse_ling_args:
  assumes "args_fit (Ling_Calls ws) raw" and "list_all uspace g" and "list_all uspace rest"
  shows "parse_arguments ling_arg (spaced g ws (ling_arg_text ws) raw rest) = Some raw"
proof -
  have ws: "list_all uspace ws" using assms(1) by simp
  have "\<exists>ms. finditer ling_arg (spaced g ws (ling_arg_text ws) raw rest) = (ms, rest) \<and> collect_args ms [] = Some ([] @ raw)"
  proof (rule collect_spaced)
    show "ling_arg (ling_arg_text ws r @ t) = Some (r, t) \<and> ling_arg_text ws r \<noteq> []" if "r \<in> set raw" for r t
    proof (cases r)
      case (Pair k v)
      then have "name_ok k" "free_of ''</arg_value>'' v" using assms(1) that by auto
      then show ?thesis unfolding Pair using ling_arg_text [OF _ _ ws] by simp
    qed
  qed (use assms ws in \<open>auto simp: ling_arg_def\<close>)
  then show ?thesis using strip_blank [OF assms(3)] by (auto simp: parse_arguments_def)
qed

lemma parse_qwen_args:
  assumes "args_fit Qwen_Calls raw" and "list_all uspace g"
  shows "parse_arguments qwen_param (spaced g [10] qwen_arg_text raw []) = Some raw"
proof -
  have "\<exists>ms. finditer qwen_param (spaced g [10] qwen_arg_text raw []) = (ms, []) \<and> collect_args ms [] = Some ([] @ raw)"
  proof (rule collect_spaced)
    show "qwen_param (qwen_arg_text r @ t) = Some (r, t) \<and> qwen_arg_text r \<noteq> []" if "r \<in> set raw" for r t
    proof (cases r)
      case (Pair k v)
      then have "name_ok k" "\<nexists>a b. v = a @ (10 # lit ''</parameter>'') @ b"
        using assms(1) that unfolding args_fit.simps by blast+
      then show ?thesis unfolding Pair using qwen_arg_text by simp
    qed
  qed (use assms in \<open>auto simp: qwen_param_def uspace_def\<close>)
  then show ?thesis using strip_blank [of "[]"] by (auto simp: parse_arguments_def)
qed

lemma strip_append_blank:
  assumes "list_all uspace ws" and "strip_text s = s"
  shows "strip_text (s @ ws) = s"
proof (cases "s = []")
  case True
  then show ?thesis using strip_blank [OF assms(1)] by simp
next
  case False
  have hd: "\<not> uspace (hd s)"
  proof
    assume "uspace (hd s)"
    then have "length (dropWhile uspace s) < length s" using False by (cases s) (auto simp: le_imp_less_Suc length_dropWhile_le)
    moreover have "length (strip_text s) \<le> length (dropWhile uspace s)"
      using length_dropWhile_le [of uspace "rev (dropWhile uspace s)"]
      by (simp add: strip_text_def lstrip_text_def rstrip_text_def)
    ultimately show False using assms(2) by simp
  qed
  have "dropWhile uspace (s @ ws) = s @ ws" "dropWhile uspace s = s" using hd False by (auto intro!: dropWhile_uspace_id)
  moreover have "dropWhile uspace (rev ws @ x) = dropWhile uspace x" for x using assms(1) by (intro dropWhile_append2) (auto simp: list_all_iff)
  ultimately show ?thesis using assms(2) by (simp add: strip_text_def lstrip_text_def rstrip_text_def)
qed

lemma takeWhile_front: "x \<notin> set xs \<Longrightarrow> takeWhile (\<lambda>c. c \<noteq> x) (xs @ ys) = xs @ takeWhile (\<lambda>c. c \<noteq> x) ys"
  by (induction xs) auto

lemma parse_ling_body:
  assumes "name_ok name" "args_fit (Ling_Calls ws) raw"
  shows "parse_ling_block (body_text (Ling_Calls ws) name raw) = Some (name, raw)"
proof -
  let ?rest = "if raw = [] then [] else ws"
  let ?args = "spaced [] ws (ling_arg_text ws) raw ?rest"
  have ws: "list_all uspace ws" "60 \<notin> set ws" using assms(2) blank_no_tag by auto
  have nm: "name \<noteq> []" "strip_text name = name" "60 \<notin> set name" using assms(1) by (simp_all add: name_okD)
  have body: "body_text (Ling_Calls ws) name raw = (name @ ws) @ ?args" by (cases raw) auto
  have "takeWhile (\<lambda>c. c \<noteq> 60) ?args = []"
  proof (cases raw)
    case (Cons r rs)
    then show ?thesis by (cases r) simp
  qed simp
  moreover have "takeWhile (\<lambda>c. c \<noteq> 60) ((name @ ws) @ ?args) = (name @ ws) @ takeWhile (\<lambda>c. c \<noteq> 60) ?args"
    by (rule takeWhile_front) (use nm ws in simp)
  ultimately have tw: "takeWhile (\<lambda>c. c \<noteq> 60) (body_text (Ling_Calls ws) name raw) = name @ ws" unfolding body by simp
  have "parse_arguments ling_arg ?args = Some raw" by (rule parse_ling_args [OF assms(2)]) (use ws in auto)
  moreover have "strip_text (name @ ws) = name" by (rule strip_append_blank [OF ws(1) nm(2)])
  moreover have "drop (length (name @ ws)) (body_text (Ling_Calls ws) name raw) = ?args" unfolding body by simp
  ultimately show ?thesis unfolding parse_ling_block_def tw Let_def using nm(1) by simp
qed

lemma function_end_iff:
  "function_end s = Some () \<longleftrightarrow> (\<exists>a b. list_all uspace a \<and> list_all uspace b \<and> s = a @ lit ''</function>'' @ b)"
proof
  assume "function_end s = Some ()"
  then obtain t where t: "dropWhile uspace s = lit ''</function>'' @ t" "dropWhile uspace t = []"
    by (auto simp: function_end_def eat_Some bind_eq_Some_conv split: if_splits simp del: lit_simps)
  have "list_all uspace (takeWhile uspace s)" by (auto simp: list_all_iff dest: set_takeWhileD)
  moreover have "list_all uspace t" using t(2) by (simp add: list_all_iff)
  ultimately show "\<exists>a b. list_all uspace a \<and> list_all uspace b \<and> s = a @ lit ''</function>'' @ b"
    using t(1) by (metis takeWhile_dropWhile_id)
next
  assume "\<exists>a b. list_all uspace a \<and> list_all uspace b \<and> s = a @ lit ''</function>'' @ b"
  then obtain a b where ab: "list_all uspace a" "list_all uspace b" "s = a @ lit ''</function>'' @ b" by blast
  have "dropWhile uspace s = lit ''</function>'' @ b"
    using ab(1) unfolding ab(3) by (subst dropWhile_append2) (auto simp: list_all_iff uspace_def)
  moreover have "dropWhile uspace b = []" using ab(2) by (simp add: list_all_iff)
  ultimately show "function_end s = Some ()" by (simp add: function_end_def del: lit_simps)
qed

text \<open>An argument list ends with a tag, so its end marker is not found inside it.\<close>

lemma function_end_after:
  assumes "s \<noteq> []" and "\<not> uspace (last s)"
  shows "function_end (s @ 10 # lit ''</function>'' @ [10]) = None"
proof (rule ccontr)
  assume "function_end (s @ 10 # lit ''</function>'' @ [10]) \<noteq> None"
  then have "function_end (s @ 10 # lit ''</function>'' @ [10]) = Some ()" by auto
  then obtain a b where ab: "list_all uspace a" "list_all uspace b" "s @ 10 # lit ''</function>'' @ [10] = a @ lit ''</function>'' @ b"
    unfolding function_end_iff by blast
  have r: "10 # rev (lit ''</function>'') @ 10 # rev s = rev b @ rev (lit ''</function>'') @ rev a"
    using arg_cong [OF ab(3), of rev] by simp
  have dw: "dropWhile uspace (rev x @ rev (lit ''</function>'') @ y) = rev (lit ''</function>'') @ y" if "list_all uspace x" for x y
    using that by (subst dropWhile_append2) (auto simp: list_all_iff uspace_def)
  have "rev (lit ''</function>'') @ 10 # rev s = rev (lit ''</function>'') @ rev a"
    using arg_cong [OF r, of "dropWhile uspace"] dw [OF ab(2), of "rev a"] dw [of "[10]" "10 # rev s"] by (simp add: uspace_def del: lit_simps)
  then have "10 # rev s = rev a" by simp
  then have "set s \<subseteq> set a" by (metis set_rev set_subset_Cons)
  then show False using assms ab(1) by (meson last_in_set list.pred_set subsetD)
qed

text \<open>The separator after the last argument is the one the function pattern gives to its white-space run.\<close>

lemma spaced_tail: "spaced g ws arg raw rest = spaced g ws arg raw [] @ rest"
  by (induction g ws arg raw rest rule: spaced.induct) auto

lemma spaced_first: "raw \<noteq> [] \<Longrightarrow> spaced g ws arg raw rest = g @ spaced [] ws arg raw rest"
  by (cases raw) auto

lemma spaced_last:
  assumes "raw \<noteq> []"
  shows "spaced g [10] qwen_arg_text raw [] \<noteq> [] \<and> last (spaced g [10] qwen_arg_text raw []) = 62"
  using assms
proof (induction raw arbitrary: g)
  case (Cons r raw)
  obtain k v where r: "r = (k, v)" by (cases r)
  show ?case using Cons.IH [of "[10]"] by (cases "raw = []") (auto simp: r)
qed simp

lemma parse_qwen_body:
  assumes "name_ok name" "args_fit Qwen_Calls raw"
  shows "parse_qwen_block (body_text Qwen_Calls name raw) = Some (name, raw)"
proof -
  let ?args = "spaced [] [10] qwen_arg_text raw []" and ?tail = "10 # lit ''</function>'' @ [10]"
  have nm: "name \<noteq> []" "strip_text name = name" "62 \<notin> set name" using assms(1) by (simp_all add: name_okD)
  let ?after = "(if raw = [] then [] else [10]) @ ?args @ ?tail"
  have body: "body_text Qwen_Calls name raw = 10 # lit ''<function='' @ name @ 62 # ?after"
    using spaced_tail [of "[10]" "[10]" qwen_arg_text raw "[10] @ lit ''</function>'' @ [10]"] spaced_first [of raw "[10]" "[10]" qwen_arg_text "[]"]
    by (simp del: lit_simps)
  have fend: "function_end ?tail = Some ()" unfolding function_end_iff by (rule exI [of _ "[10]"], rule exI [of _ "[10]"]) (simp add: uspace_def)
  have "seek function_end (dropWhile uspace ?after) = Some (?args, ())"
  proof (cases "raw = []")
    case True
    then have "dropWhile uspace ?after = lit ''</function>'' @ [10]" by (simp add: uspace_def)
    moreover have "function_end (lit ''</function>'' @ [10]) = Some ()"
      unfolding function_end_iff by (rule exI [of _ "[]"], rule exI [of _ "[10]"]) (simp add: uspace_def)
    ultimately show ?thesis using True by (simp add: seek_here del: lit_simps)
  next
    case False
    have first: "dropWhile uspace ?after = ?args @ ?tail"
    proof (cases raw)
      case (Cons r rs)
      then show ?thesis by (cases r) (simp add: uspace_def)
    qed (use False in simp)
    have "seek function_end (?args @ ?tail) = Some (?args, ())"
    proof (rule seek_skip [where f = function_end and s = ?tail and m = "()"])
      show "function_end ?tail = Some ()" by (rule fend)
      show "function_end (drop j ?args @ ?tail) = None" if j: "j < length ?args" for j
      proof (rule function_end_after)
        show "drop j ?args \<noteq> []" using j by simp
        show "\<not> uspace (last (drop j ?args))" using j spaced_last [OF False, of "[]"] by (simp add: last_drop uspace_def)
      qed
    qed
    then show ?thesis unfolding first .
  qed
  then have "qwen_function (body_text Qwen_Calls name raw) = Some (name, ?args)"
    using until_gt_name [OF nm(1,3), of ?after] unfolding body qwen_function_def
    by (simp add: uspace_def)
  moreover have "parse_arguments qwen_param ?args = Some raw" by (rule parse_qwen_args [OF assms(2)]) simp
  ultimately show ?thesis using nm by (simp add: parse_qwen_block_def)
qed

lemma parse_rendered: "name_ok name \<Longrightarrow> args_fit fam raw \<Longrightarrow> parse_body fam (body_text fam name raw) = Some (name, raw)"
  by (cases fam) (simp_all only: parse_body.simps parse_ling_body parse_qwen_body)

section \<open>The round trip\<close>

definition parse_tool_calls :: "json_lib \<Rightarrow> (nat \<Rightarrow> str) \<Rightarrow> tool_family \<Rightarrow> str \<Rightarrow> json \<Rightarrow> str option \<times> tool_call list" where
  "parse_tool_calls J ids fam =
     (case fam of Ling_Calls ws \<Rightarrow> parse_ling_tool_calls J ids | Qwen_Calls \<Rightarrow> parse_qwen_tool_calls J ids)"

text \<open>A reply with calls: text, then each call with the text behind it.\<close>

fun transcript :: "tool_family \<Rightarrow> str \<Rightarrow> (str \<times> raw_args \<times> str) list \<Rightarrow> str" where
  "transcript fam pre [] = pre"
| "transcript fam pre ((name, raw, gap) # calls) = pre @ block_text (body_text fam name raw) @ transcript fam gap calls"

definition call_fits :: "tool_family \<Rightarrow> str \<times> raw_args \<times> str \<Rightarrow> bool" where
  "call_fits fam = (\<lambda>(name, raw, gap). name_ok name \<and> args_fit fam raw \<and> free_of ''</tool_call>'' (body_text fam name raw) \<and>
     free_of ''<tool_call>'' gap)"

text \<open>A template writes a string bare and anything else as JSON.\<close>

fun shown :: "json_lib \<Rightarrow> json \<Rightarrow> str" where
  "shown J (JStr s) = s"
| "shown J v = js_dumps J v"

fun recovers :: "json_lib \<Rightarrow> str list \<Rightarrow> str \<times> json \<Rightarrow> bool" where
  "recovers J strings (k, JStr s) \<longleftrightarrow> k \<in> set strings \<or> js_strict J s = None"
| "recovers J strings (k, v) \<longleftrightarrow> k \<notin> set strings \<and> js_strict J (js_dumps J v) = Some v"

lemma seek_open:
  assumes "free_of ''<tool_call>'' pre" and "tool_call_block (lit ''<tool_call>'' @ s) = Some m"
  shows "seek tool_call_block (pre @ lit ''<tool_call>'' @ s) = Some (pre, m)"
proof (rule seek_skip [where f = tool_call_block and s = "lit ''<tool_call>'' @ s" and m = m])
  show "tool_call_block (drop j pre @ lit ''<tool_call>'' @ s) = None" if "j < length pre" for j
    using eat_before [of pre 60 "lit ''tool_call>''" j s] that assms(1) by (simp add: free_of_def tool_call_block_def)
qed (rule assms(2))

lemma finditer_block:
  assumes "free_of ''<tool_call>'' pre" and "free_of ''</tool_call>'' body" and "finditer tool_call_block rest = (ms, t)"
  shows "finditer tool_call_block (pre @ block_text body @ rest) = ((pre, body, block_text body) # ms, t)"
proof -
  have "seek (eat (lit ''</tool_call>'')) (body @ lit ''</tool_call>'' @ rest) = Some (body, rest)"
    using seek_lit [of body 60 "lit ''/tool_call>''" rest] assms(2) by (simp add: free_of_def)
  then have "tool_call_block (lit ''<tool_call>'' @ body @ lit ''</tool_call>'' @ rest) = Some (body, rest)"
    unfolding tool_call_block_def by (simp del: lit_simps)
  from seek_open [OF assms(1) this]
  have s: "seek tool_call_block (pre @ block_text body @ rest) = Some (pre, body, rest)" by (simp add: block_text_def del: lit_simps)
  show ?thesis using finditer_match [OF s] assms(3) by (simp add: Let_def block_text_def del: lit_simps)
qed

lemma finditer_no_block: "free_of ''<tool_call>'' s \<Longrightarrow> finditer tool_call_block s = ([], s)"
proof (rule finditer_none)
  assume "free_of ''<tool_call>'' s"
  then have "eat (lit ''<tool_call>'') b = None" if "s = a @ b" for a b using that by (auto simp: eat_None free_of_def simp del: lit_simps)
  then show "seek tool_call_block s = None" by (auto simp: seek_None tool_call_block_def simp del: lit_simps)
qed

lemma coerced_shown:
  assumes "\<forall>a \<in> set args. recovers J (string_parameters tools (strip_text name)) a"
  shows "coerced_args J tools name (map (\<lambda>(k, v). (k, shown J v)) args) = args"
proof -
  have one: "(if k \<in> set strings then JStr (shown J v) else coerce J (shown J v)) = v" if "recovers J strings (k, v)" for k v strings
    using that by (cases v) (auto simp: coerce_def)
  show ?thesis unfolding coerced_args_def Let_def map_map
    by (rule map_idI) (use assms one in auto)
qed

lemma split_transcript:
  assumes "free_of ''<tool_call>'' pre" and "\<forall>c \<in> set calls. call_fits fam c"
  shows "\<exists>ms t. finditer tool_call_block (transcript fam pre calls) = (ms, t) \<and>
    (\<exists>content. split_blocks J ids (parse_body fam) tools n ms =
      (content, map (\<lambda>(i, name, raw, gap). to_openai J (ids i) name (coerced_args J tools name raw)) (enumerate n calls)) \<and>
      content @ t = pre @ concat (map (\<lambda>(name, raw, gap). gap) calls))"
  using assms
proof (induction calls arbitrary: pre n)
  case Nil
  then show ?case by (simp add: finditer_no_block)
next
  case (Cons c calls)
  obtain name raw gap where c: "c = (name, raw, gap)" by (cases c)
  have fit: "name_ok name" "args_fit fam raw" "free_of ''</tool_call>'' (body_text fam name raw)" "free_of ''<tool_call>'' gap"
    using Cons.prems(2) by (simp_all add: c call_fits_def)
  obtain ms t content where q: "finditer tool_call_block (transcript fam gap calls) = (ms, t)"
    "split_blocks J ids (parse_body fam) tools (Suc n) ms =
      (content, map (\<lambda>(i, name, raw, gap). to_openai J (ids i) name (coerced_args J tools name raw)) (enumerate (Suc n) calls))"
    "content @ t = gap @ concat (map (\<lambda>(name, raw, gap). gap) calls)"
    using Cons.IH [of gap "Suc n"] fit(4) Cons.prems(2) by auto
  show ?case
    using finditer_block [OF Cons.prems(1) fit(3) q(1)] q(2,3) parse_rendered [OF fit(1,2)] by (simp add: c)
qed

text \<open>
  C15: a reply rendered in either dialect, any number of calls with text around them, is taken apart into
  exactly the text outside the calls and the calls with their typed arguments. Names, keys and values
  must not contain the delimiters that would end them; a string value must be declared as a string
  or not be JSON, and any other value must survive \<open>json.dumps\<close> and \<open>json.loads\<close>.
\<close>

theorem tool_calls_roundtrip:
  assumes "free_of ''<tool_call>'' pre"
    and "\<forall>(name, args, gap) \<in> set calls. call_fits fam (name, map (\<lambda>(k, v). (k, shown J v)) args, gap) \<and>
      (\<forall>a \<in> set args. recovers J (string_parameters tools name) a)"
  shows "parse_tool_calls J ids fam (transcript fam pre (map (\<lambda>(name, args, gap). (name, map (\<lambda>(k, v). (k, shown J v)) args, gap)) calls)) tools =
    (let content = strip_text (pre @ concat (map (\<lambda>(name, args, gap). gap) calls))
     in if calls \<noteq> [] \<and> content = [] then None else Some content,
     map (\<lambda>(i, name, args, gap). to_openai J (ids i) name args) (enumerate 0 calls))"
proof -
  let ?raw = "\<lambda>(name, args, gap). (name, map (\<lambda>(k, v). (k, shown J v)) args, gap)"
  let ?cs = "map ?raw calls"
  have fit: "\<forall>c \<in> set ?cs. call_fits fam c" using assms(2) by auto
  obtain ms t content where q: "finditer tool_call_block (transcript fam pre ?cs) = (ms, t)"
    "split_blocks J ids (parse_body fam) tools 0 ms =
      (content, map (\<lambda>(i, name, raw, gap). to_openai J (ids i) name (coerced_args J tools name raw)) (enumerate 0 ?cs))"
    "content @ t = pre @ concat (map (\<lambda>(name, raw, gap). gap) ?cs)"
    using split_transcript [OF assms(1) fit] by blast
  have gaps: "map (\<lambda>(name, raw, gap). gap) ?cs = map (\<lambda>(name, args, gap). gap) calls" by (auto simp: comp_def split_beta)
  have "map (\<lambda>(i, name, raw, gap). to_openai J (ids i) name (coerced_args J tools name raw)) (enumerate n ?cs) =
      map (\<lambda>(i, name, args, gap). to_openai J (ids i) name args) (enumerate n calls)" for n
    using assms(2)
  proof (induction calls arbitrary: n)
    case (Cons c calls)
    obtain name args gap where c: "c = (name, args, gap)" by (cases c)
    have "name_ok name" "\<forall>a \<in> set args. recovers J (string_parameters tools name) a" using Cons.prems by (auto simp: c call_fits_def)
    then have "coerced_args J tools name (map (\<lambda>(k, v). (k, shown J v)) args) = args"
      by (intro coerced_shown) (simp add: name_okD)
    then show ?case using Cons by (simp add: c)
  qed simp
  then have calls: "map (\<lambda>(i, name, raw, gap). to_openai J (ids i) name (coerced_args J tools name raw)) (enumerate 0 ?cs) =
      map (\<lambda>(i, name, args, gap). to_openai J (ids i) name args) (enumerate 0 calls)" .
  have "parse_tool_calls J ids fam = (\<lambda>s tools. split_calls J ids (parse_body fam) tools s)"
    by (cases fam) (simp_all add: parse_tool_calls_def parse_ling_tool_calls_def parse_qwen_tool_calls_def fun_eq_iff)
  moreover have "enumerate 0 calls = [] \<longleftrightarrow> calls = []" by (cases calls) simp_all
  ultimately show ?thesis
    by (simp only: split_calls_def q(1) q(2) [unfolded calls] q(3) [unfolded gaps] prod.case Let_def map_is_Nil_conv) simp
qed

fun demo_loads :: "str \<Rightarrow> json option" where
  "demo_loads s = (if s = lit ''true'' then Some (JBool True) else None)"

fun demo_dumps :: "json \<Rightarrow> str" where
  "demo_dumps (JBool b) = (if b then lit ''true'' else lit ''false'')"
| "demo_dumps v = []"

definition demo_json :: json_lib where
  "demo_json = \<lparr>js_loads = demo_loads, js_strict = demo_loads, js_dumps = demo_dumps\<rparr>"

definition demo_args :: "(str \<times> json) list" where
  "demo_args = [(lit ''city'', JStr (lit ''Rome'')), (lit ''full'', JBool True)]"

lemma free_of_short: "length s < length p \<Longrightarrow> free_of p s"
  by (auto simp: free_of_def)

lemma free_of_eval: "free_of (c # cs) [] " "free_of (c # cs) (x # s) \<longleftrightarrow> eat (lit (c # cs)) (x # s) = None \<and> free_of (c # cs) s"
  by (auto simp: free_of_def eat_None Cons_eq_append_conv)

lemma tool_calls_roundtrip_witness:
  "parse_tool_calls demo_json (\<lambda>i. [i]) (Ling_Calls [10])
     (transcript (Ling_Calls [10]) (lit ''Let me see.'') [(lit ''weather'', [(lit ''city'', lit ''Rome''), (lit ''full'', lit ''true'')], [10])]) JNull =
   (Some (lit ''Let me see.''), [to_openai demo_json [0] (lit ''weather'') demo_args])"
proof -
  have fits: "call_fits (Ling_Calls [10]) (lit ''weather'', [(lit ''city'', lit ''Rome''), (lit ''full'', lit ''true'')], [10])"
    by (simp add: call_fits_def name_ok_def strip_text_def lstrip_text_def rstrip_text_def uspace_def free_of_eval)
  have tools: "string_parameters JNull n = []" for n by (simp add: string_parameters_def)
  have "parse_tool_calls demo_json (\<lambda>i. [i]) (Ling_Calls [10])
     (transcript (Ling_Calls [10]) (lit ''Let me see.'')
       (map (\<lambda>(name, args, gap). (name, map (\<lambda>(k, v). (k, shown demo_json v)) args, gap)) [(lit ''weather'', demo_args, [10])])) JNull =
    (let content = strip_text (lit ''Let me see.'' @ concat (map (\<lambda>(name, args, gap). gap) [(lit ''weather'', demo_args, [10])]))
     in if [(lit ''weather'', demo_args, [10::nat])] \<noteq> [] \<and> content = [] then None else Some content,
     map (\<lambda>(i, name, args, gap). to_openai demo_json [i] name args) (enumerate 0 [(lit ''weather'', demo_args, [10::nat])]))"
    by (rule tool_calls_roundtrip) (use fits in \<open>simp_all add: demo_args_def demo_json_def tools free_of_eval\<close>)
  then show ?thesis
    by (simp add: demo_args_def demo_json_def Let_def strip_text_def lstrip_text_def rstrip_text_def uspace_def)
qed

section \<open>Nothing is lost\<close>

lemma finditer_blocks:
  "finditer tool_call_block s = (ms, t) \<Longrightarrow>
    s = concat (map (\<lambda>(gap, body, whole). gap @ whole) ms) @ t \<and> (\<forall>(gap, body, whole) \<in> set ms. whole = block_text body)"
proof (induction "tool_call_block" s arbitrary: ms t rule: finditer.induct)
  case (1 s)
  show ?case
  proof (cases "seek tool_call_block s")
    case None
    then show ?thesis using 1(2) by (simp add: finditer_none)
  next
    case (Some q)
    obtain gap body rest where q: "q = (gap, body, rest)" by (cases q)
    obtain s' where s': "s = gap @ s'" "tool_call_block s' = Some (body, rest)"
      using seek_Some_append [OF Some [unfolded q]] by blast
    obtain u where u: "s' = lit ''<tool_call>'' @ u" "seek (eat (lit ''</tool_call>'')) u = Some (body, rest)"
      using s'(2) by (auto simp: tool_call_block_def bind_eq_Some_conv eat_Some simp del: lit_simps)
    obtain v where "u = body @ v" "v = lit ''</tool_call>'' @ rest" using seek_Some_append [OF u(2)] by (auto simp: eat_Some simp del: lit_simps)
    then have s: "s = gap @ block_text body @ rest" using s'(1) u(1) by (simp add: block_text_def del: lit_simps)
    then have len: "length rest < length s" by (simp add: block_text_def)
    obtain ms' where ms': "finditer tool_call_block rest = (ms', t)" "ms = (gap, body, block_text body) # ms'"
      using finditer_match [OF Some [unfolded q] len] 1(2) s by (cases "finditer tool_call_block rest") (auto simp: Let_def)
    have "rest = concat (map (\<lambda>(gap, body, whole). gap @ whole) ms') @ t \<and> (\<forall>(gap, body, whole) \<in> set ms'. whole = block_text body)"
      by (rule 1(1) [OF Some _ _ len ms'(1)]) (auto simp: q)
    then show ?thesis using s ms'(2) by simp
  qed
qed

lemma split_blocks_content:
  "split_blocks J ids parse tools n ms = (content, calls) \<Longrightarrow>
    content = concat (map (\<lambda>(gap, body, whole). gap @ (if parse body = None then whole else [])) ms) \<and>
    map tc_name calls = map (\<lambda>(name, raw). strip_text name) (List.map_filter (\<lambda>(gap, body, whole). parse body) ms)"
  by (induction ms arbitrary: n content calls rule: list.induct)
    (auto simp: map_filter_simps to_openai_def split: option.splits prod.splits)

text \<open>
  Nothing the model wrote is dropped. Any text is its blocks with the text around them; the content
  returned is that text without the blocks that parse, stripped, and the calls are the blocks that parse,
  in order. A block that does not parse stays in the content.
\<close>

theorem tool_calls_nothing_lost:
  "\<exists>ms t. s = concat (map (\<lambda>(gap, body). gap @ block_text body) ms) @ t \<and>
    (let kept = strip_text (concat (map (\<lambda>(gap, body). gap @ (if parse_body fam body = None then block_text body else [])) ms) @ t);
         parsed = List.map_filter (\<lambda>(gap, body). parse_body fam body) ms;
         result = parse_tool_calls J ids fam s tools
     in fst result = (if parsed \<noteq> [] \<and> kept = [] then None else Some kept) \<and>
        map tc_name (snd result) = map (\<lambda>(name, raw). strip_text name) parsed)"
proof -
  obtain ms t where f: "finditer tool_call_block s = (ms, t)" by fastforce
  let ?ms = "map (\<lambda>(gap, body, whole). (gap, body)) ms"
  obtain content calls where sp: "split_blocks J ids (parse_body fam) tools 0 ms = (content, calls)" by fastforce
  note blocks = finditer_blocks [OF f] and kept = split_blocks_content [OF sp]
  have "parse_tool_calls J ids fam = (\<lambda>s tools. split_calls J ids (parse_body fam) tools s)"
    by (cases fam) (simp_all add: parse_tool_calls_def parse_ling_tool_calls_def parse_qwen_tool_calls_def fun_eq_iff)
  then have res: "parse_tool_calls J ids fam s tools =
      (let c = strip_text (content @ t) in if calls \<noteq> [] \<and> c = [] then (None, calls) else (Some c, calls))"
    by (simp add: split_calls_def f sp)
  have 1: "s = concat (map (\<lambda>(gap, body). gap @ block_text body) ?ms) @ t"
    using blocks by (auto simp: comp_def split_beta intro!: arg_cong [where f = concat] map_cong)
  have 2: "content = concat (map (\<lambda>(gap, body). gap @ (if parse_body fam body = None then block_text body else [])) ?ms)"
    using blocks kept by (auto simp: comp_def split_beta intro!: arg_cong [where f = concat] map_cong)
  have 3: "List.map_filter (\<lambda>(gap, body). parse_body fam body) ?ms = List.map_filter (\<lambda>(gap, body, whole). parse_body fam body) ms"
    by (induction ms) (auto simp: map_filter_simps split: option.splits)
  have 4: "map tc_name calls = map (\<lambda>(name, raw). strip_text name) (List.map_filter (\<lambda>(gap, body). parse_body fam body) ?ms)"
    using kept 3 by simp
  then have "calls = [] \<longleftrightarrow> List.map_filter (\<lambda>(gap, body). parse_body fam body) ?ms = []" by (metis map_is_Nil_conv)
  then show ?thesis using 1 2 4 res by (intro exI [of _ ?ms] exI [of _ t]) (simp add: Let_def)
qed

end
