(* ===== verification/Chat.thy ===== *)
theory Chat
  imports Tool_Calls Engine
begin

text \<open>
  The chat request and the session that runs it (\<open>edge0/server/chat.py\<close>). A request body is a JSON value.
  \<open>str()\<close> of a JSON value that is no string is the parameter \<open>pe_str\<close>; the tokenizer, the chat templates
  and the engine's think default are the record \<open>chat_env\<close>. Wall-clock times are left out.
\<close>

section \<open>Requests\<close>

record chat_message =
  cm_role :: str
  cm_content :: str
  cm_tool_calls :: json
  cm_tool_call_id :: json
  cm_name :: json

record chat_request =
  rq_model :: str
  rq_messages :: "chat_message list"
  rq_temperature :: json
  rq_top_p :: json
  rq_top_k :: json
  rq_max_tokens :: json
  rq_seed :: json
  rq_stream :: bool
  rq_thinking :: json
  rq_tools :: json
  rq_tool_choice :: json
  rq_raw :: json

record py_env =
  pe_json :: json_lib
  pe_str :: "json \<Rightarrow> str"

definition str_of :: "py_env \<Rightarrow> json \<Rightarrow> str" where
  "str_of P v = (case v of JStr s \<Rightarrow> s | _ \<Rightarrow> pe_str P v)"

definition jget_or :: "string \<Rightarrow> json \<Rightarrow> (str \<times> json) list \<Rightarrow> json" where
  "jget_or k d kvs = (case map_of kvs (lit k) of None \<Rightarrow> d | Some v \<Rightarrow> v)"

text \<open>One entry: the arguments, parsed when they are a string, must be an object; the copies keep the other keys.\<close>

definition template_call :: "json_lib \<Rightarrow> json \<Rightarrow> json res" where
  "template_call J c =
     (case c of
        JObj call \<Rightarrow>
          (case jget ''function'' call of
             JObj f \<Rightarrow>
               (case (case jget_or ''arguments'' (JObj []) f of
                        JStr s \<Rightarrow> (case js_loads J s of None \<Rightarrow> Inl ValueError | Some a \<Rightarrow> Inr a)
                      | a \<Rightarrow> Inr a) of
                  Inl e \<Rightarrow> Inl e
                | Inr (JObj a) \<Rightarrow>
                    Inr (JObj (AList.update (lit ''function'') (JObj (AList.update (lit ''arguments'') (JObj a) f)) call))
                | Inr _ \<Rightarrow> Inl ValueError)
           | _ \<Rightarrow> Inl ValueError)
      | _ \<Rightarrow> Inl ValueError)"

definition template_tool_calls :: "json_lib \<Rightarrow> json \<Rightarrow> json res" where
  "template_tool_calls J calls =
     (case calls of
        JNull \<Rightarrow> Inr JNull
      | JList cs \<Rightarrow> res_bind (res_map (template_call J) cs) (\<lambda>cs. Inr (JList cs))
      | _ \<Rightarrow> Inl ValueError)"

text \<open>\<open>"".join(p.get("text", "") for p in content if isinstance(p, dict))\<close>\<close>

fun join_parts :: "json list \<Rightarrow> str res" where
  "join_parts [] = Inr []"
| "join_parts (p # ps) =
     (case p of
        JObj kvs \<Rightarrow>
          (case jget_or ''text'' (JStr []) kvs of
             JStr s \<Rightarrow> res_bind (join_parts ps) (\<lambda>t. Inr (s @ t))
           | _ \<Rightarrow> Inl TypeError)
      | _ \<Rightarrow> join_parts ps)"

definition parse_message :: "py_env \<Rightarrow> (str \<times> json) list \<Rightarrow> chat_message res" where
  "parse_message P m =
     (let role = str_of P (jget_or ''role'' (JStr (lit ''user'')) m);
          role = (if role = lit ''developer'' then lit ''system'' else role);
          content = (let c = jget ''content'' m in if truthy c then c else JStr [])
      in res_bind (case content of JList ps \<Rightarrow> res_bind (join_parts ps) (\<lambda>s. Inr (JStr s)) | c \<Rightarrow> Inr c) (\<lambda>content.
         res_bind (template_tool_calls (pe_json P) (jget ''tool_calls'' m)) (\<lambda>calls.
           Inr \<lparr>cm_role = role, cm_content = str_of P content, cm_tool_calls = calls,
                cm_tool_call_id = jget ''tool_call_id'' m, cm_name = jget ''name'' m\<rparr>)))"

definition is_obj :: "json \<Rightarrow> bool" where
  "is_obj v = (case v of JObj _ \<Rightarrow> True | _ \<Rightarrow> False)"

definition fields_of :: "json \<Rightarrow> (str \<times> json) list" where
  "fields_of v = (case v of JObj kvs \<Rightarrow> kvs | _ \<Rightarrow> [])"

definition parse_chat_request :: "py_env \<Rightarrow> json \<Rightarrow> chat_request res" where
  "parse_chat_request P payload =
     (case payload of
        JObj kvs \<Rightarrow>
          (case jget_or ''messages'' (JList []) kvs of
             JList ms \<Rightarrow>
               if \<not> list_all is_obj ms then Inl ValueError
               else res_bind (res_map (\<lambda>m. parse_message P (fields_of m)) ms) (\<lambda>msgs.
                 Inr \<lparr>rq_model = str_of P (jget_or ''model'' (JStr []) kvs), rq_messages = msgs,
                      rq_temperature = jget ''temperature'' kvs, rq_top_p = jget ''top_p'' kvs, rq_top_k = jget ''top_k'' kvs,
                      rq_max_tokens = (if jget ''max_completion_tokens'' kvs \<noteq> JNull then jget ''max_completion_tokens'' kvs
                                       else jget ''max_tokens'' kvs),
                      rq_seed = jget ''seed'' kvs, rq_stream = truthy (jget_or ''stream'' (JBool False) kvs),
                      rq_thinking = jget ''enable_thinking'' kvs, rq_tools = jget ''tools'' kvs,
                      rq_tool_choice = jget ''tool_choice'' kvs, rq_raw = payload\<rparr>)
           | _ \<Rightarrow> Inl ValueError)
      | _ \<Rightarrow> Inl ValueError)"

section \<open>The prompt\<close>

text \<open>
  \<open>ce_encode_chat\<close> is the engine's own template (or none); \<open>ce_template\<close> is the tokenizer's, called with
  the think flag and tools or without them; it may raise.
\<close>

record chat_env =
  ce_encode_chat :: "(chat_message list \<Rightarrow> bool \<Rightarrow> json \<Rightarrow> nat list) option"
  ce_template :: "(chat_message list \<Rightarrow> (bool \<times> json) option \<Rightarrow> str res) option"
  ce_encode :: "str \<Rightarrow> nat list"
  ce_bos :: "nat option"
  ce_think :: bool

definition session_tools :: "chat_request \<Rightarrow> json" where
  "session_tools q = (if \<not> truthy (rq_tools q) \<or> rq_tool_choice q = JStr (lit ''none'') then JNull else rq_tools q)"

definition im_turn :: "string \<Rightarrow> str \<Rightarrow> str" where
  "im_turn role content = lit ''<|im_start|>'' @ lit role @ [10] @ content @ lit ''<|im_end|>'' @ [10]"

definition chat_text :: "chat_message list \<Rightarrow> str" where
  "chat_text ms =
     concat (map (\<lambda>m. if cm_role m = lit ''system'' then im_turn ''system'' (cm_content m)
                      else if cm_role m = lit ''user'' then im_turn ''user'' (cm_content m)
                      else if cm_role m = lit ''assistant'' then im_turn ''assistant'' (cm_content m) else []) ms) @
     lit ''<|im_start|>assistant'' @ [10]"

definition prompt_ids :: "chat_env \<Rightarrow> chat_request \<Rightarrow> nat list" where
  "prompt_ids T q =
     (let ms = rq_messages q in
      case ce_encode_chat T of
        Some encode \<Rightarrow> encode ms (if rq_thinking q = JNull then ce_think T else truthy (rq_thinking q)) (session_tools q)
      | None \<Rightarrow>
          let txt = (case ce_template T of
                       None \<Rightarrow> chat_text ms
                     | Some render \<Rightarrow>
                         (case render ms (Some (truthy (rq_thinking q), session_tools q)) of
                            Inr s \<Rightarrow> s
                          | Inl TypeError \<Rightarrow> (case render ms None of Inr s \<Rightarrow> s | Inl e \<Rightarrow> chat_text ms)
                          | Inl e \<Rightarrow> chat_text ms));
              ids = ce_encode T txt
          in if ids = [] then [case ce_bos T of None \<Rightarrow> 0 | Some b \<Rightarrow> b] else ids)"

section \<open>The generation settings of a request\<close>

text \<open>
  The request's values are stored unchecked; one that is no number fails later, where it is used, and is
  outside the model (\<open>None\<close>). A Boolean is an integer to Python.
\<close>

fun int_value :: "json \<Rightarrow> int option" where
  "int_value (JInt i) = Some i"
| "int_value (JBool b) = Some (if b then 1 else 0)"
| "int_value v = None"

fun num_value :: "json \<Rightarrow> rat option" where
  "num_value (JFloat r) = Some r"
| "num_value v = map_option of_int (int_value v)"

definition override :: "(json \<Rightarrow> 'v option) \<Rightarrow> json \<Rightarrow> ('v \<Rightarrow> 'g \<Rightarrow> 'g) \<Rightarrow> 'g \<Rightarrow> 'g option" where
  "override read v put g = (if v = JNull then Some g else map_option (\<lambda>x. put x g) (read v))"

definition request_gen :: "rat gen_config \<Rightarrow> chat_request \<Rightarrow> rat gen_config option" where
  "request_gen base q =
     Option.bind (override num_value (rq_temperature q) (\<lambda>x g. g\<lparr>g_temperature := x\<rparr>) base) (\<lambda>g.
     Option.bind (override num_value (rq_top_p q) (\<lambda>x g. g\<lparr>g_top_p := Some x\<rparr>) g) (\<lambda>g.
     Option.bind (override int_value (rq_top_k q) (\<lambda>x g. g\<lparr>g_top_k := Some x\<rparr>) g) (\<lambda>g.
     Option.bind (override int_value (rq_max_tokens q) (\<lambda>x g. g\<lparr>g_max_new := x\<rparr>) g) (\<lambda>g.
       override int_value (rq_seed q) (\<lambda>x g. g\<lparr>g_seed := Some x\<rparr>) g))))"

section \<open>One run\<close>

record chat_meta =
  me_prompt :: nat
  me_completion :: nat
  me_total :: nat
  me_finish :: string

definition chat_run ::
  "('s, rat) family \<Rightarrow> (rat, 'r) skernels \<Rightarrow> rat gen_config \<Rightarrow> nat list \<Rightarrow> ('s, rat, 'r) engine \<Rightarrow>
     ((nat list \<times> chat_meta) res \<times> ('s, rat, 'r) engine) option" where
  "chat_run F K g ids E =
     map_option (\<lambda>(r, E). (res_bind r (\<lambda>tokens.
         Inr (tokens, \<lparr>me_prompt = length ids, me_completion = length tokens, me_total = length ids + length tokens,
                       me_finish = (if g_max_new g \<le> int (length tokens) then ''length'' else ''stop'')\<rparr>)), E))
       (generate F K g None ids (reset F E))"

section \<open>Tool calls reach the template as objects\<close>

definition template_ready :: "json \<Rightarrow> bool" where
  "template_ready c = (case c of
     JObj call \<Rightarrow> (case jget ''function'' call of JObj f \<Rightarrow> is_obj (jget ''arguments'' f) | _ \<Rightarrow> False) | _ \<Rightarrow> False)"

lemma jget_update: "jget k (AList.update (lit k') v d) = (if k = k' then v else jget k d)"
proof -
  have "lit k = lit k' \<longleftrightarrow> k = k'" by (auto simp: lit_def inj_map_eq_map inj_def)
  then show ?thesis by (auto simp: jget_def update_conv')
qed

lemma template_call_ready: "template_call J c = Inr c' \<Longrightarrow> template_ready c'"
  by (auto simp: template_call_def template_ready_def jget_update is_obj_def simp del: lit_simps
      split: json.splits sum.splits option.splits)

lemma template_call_id: "template_ready c \<Longrightarrow> template_call J c = Inr c"
proof -
  assume a: "template_ready c"
  then obtain call f args where c: "c = JObj call" "jget ''function'' call = JObj f" "jget ''arguments'' f = JObj args"
    by (auto simp: template_ready_def is_obj_def split: json.splits)
  have "map_of f (lit ''arguments'') = Some (JObj args)" "map_of call (lit ''function'') = Some (JObj f)"
    using c by (auto simp: jget_def split: option.splits)
  then show ?thesis using c by (simp add: template_call_def jget_or_def update_triv)
qed

text \<open>
  C34: every request that is accepted hands the chat template normalised calls. Each call of each message
  is an object whose function carries its arguments as an object, whatever form the client sent; the
  normalisation is idempotent, so a conversation sent back verbatim renders the same.
\<close>

theorem accepted_calls_are_objects:
  assumes "parse_chat_request P payload = Inr q" and "m \<in> set (rq_messages q)"
  shows "(cm_tool_calls m = JNull \<or> (\<exists>cs. cm_tool_calls m = JList cs \<and> list_all template_ready cs)) \<and>
    template_tool_calls (pe_json P) (cm_tool_calls m) = Inr (cm_tool_calls m)"
proof -
  have in_map: "\<exists>x \<in> set xs. f x = Inr y" if "res_map f xs = Inr ys" "y \<in> set ys" for f :: "'x \<Rightarrow> 'y res" and xs ys y
    using that by (induction xs arbitrary: ys) (auto split: sum.splits)
  obtain kvs where "parse_message P kvs = Inr m"
    using assms by (auto simp: parse_chat_request_def res_bind_Inr_iff split: json.splits if_splits dest: in_map)
  then obtain v where v: "template_tool_calls (pe_json P) v = Inr (cm_tool_calls m)"
    by (auto simp: parse_message_def Let_def res_bind_Inr_iff)
  show ?thesis
  proof (cases "cm_tool_calls m = JNull")
    case True
    then show ?thesis by (simp add: template_tool_calls_def)
  next
    case False
    then obtain cs cs' where cs: "JList cs = cm_tool_calls m" "res_map (template_call (pe_json P)) cs' = Inr cs"
      using v by (auto simp: template_tool_calls_def res_bind_Inr_iff split: json.splits)
    then have ready: "\<forall>c \<in> set cs. template_ready c" using in_map [OF cs(2)] template_call_ready by blast
    then have "res_map (template_call (pe_json P)) cs = Inr (map (\<lambda>c. c) cs)"
      by (intro res_map_all_Inr) (simp add: template_call_id)
    then show ?thesis using ready unfolding cs(1) [symmetric] by (simp add: template_tool_calls_def list_all_iff)
  qed
qed

definition demo_env :: py_env where
  "demo_env = \<lparr>pe_json = \<lparr>js_loads = (\<lambda>s. if s = lit ''{}'' then Some (JObj []) else None), js_strict = (\<lambda>s. None), js_dumps = (\<lambda>v. [])\<rparr>,
     pe_str = (\<lambda>v. [])\<rparr>"

definition demo_message :: json where
  "demo_message = JObj [(lit ''role'', JStr (lit ''assistant'')), (lit ''content'', JNull),
     (lit ''tool_calls'', JList [JObj [(lit ''function'', JObj [(lit ''name'', JStr (lit ''now'')), (lit ''arguments'', JStr (lit ''{}''))])]])]"

definition demo_body :: json where
  "demo_body = JObj [(lit ''messages'', JList [demo_message])]"

lemma demo_body_accepted: "\<exists>q m. parse_chat_request demo_env demo_body = Inr q \<and> rq_messages q = [m]"
proof -
  have "case parse_chat_request demo_env demo_body of Inl e \<Rightarrow> False | Inr q \<Rightarrow> length (rq_messages q) = 1"
    by code_simp
  then show ?thesis by (auto simp: length_Suc_conv split: sum.splits)
qed

theorem accepted_calls_are_objects_witness:
  "\<exists>q m. parse_chat_request demo_env demo_body = Inr q \<and> m \<in> set (rq_messages q) \<and>
    (cm_tool_calls m = JNull \<or> (\<exists>cs. cm_tool_calls m = JList cs \<and> list_all template_ready cs)) \<and>
    template_tool_calls (pe_json demo_env) (cm_tool_calls m) = Inr (cm_tool_calls m)"
proof -
  obtain q m where q: "parse_chat_request demo_env demo_body = Inr q" "rq_messages q = [m]" using demo_body_accepted by blast
  then have "m \<in> set (rq_messages q)" by simp
  from accepted_calls_are_objects [OF q(1) this] show ?thesis using q by auto
qed

section \<open>The finish reason\<close>

lemma takeWhile_all_length: "length (takeWhile P xs) = length xs \<longleftrightarrow> (\<forall>x \<in> set xs. P x)"
  by (induction xs) auto

text \<open>
  C33: one request. After the reset the session returns the tokens of the autoregressive sequence up to
  the first end token, with the usage that counts them, and the finish reason tells which of the two ended
  it: \<open>stop\<close> exactly when an end token was picked within the budget, \<open>length\<close> when the reply was cut off.
\<close>

theorem chat_run_finish_exact:
  fixes E0 :: "('s, rat, 'r) engine"
  assumes "run_prompt F ids (reset F E) = Some (Inr (), E0)" and "e_last E0 = Some lg"
    and "I (e_state E0)" and "step_total I F TYPE('r)"
    and "toks = map (token_at F K g (lg, ids, E0)) [0..<nat (g_max_new g)]"
  shows "\<exists>E' me. chat_run F K g ids E = Some (Inr (takeWhile (\<lambda>t. \<not> is_eos g t) toks, me), E') \<and>
    me_total me = length ids + length (takeWhile (\<lambda>t. \<not> is_eos g t) toks) \<and>
    (me_finish me = ''stop'' \<longleftrightarrow> (\<exists>t \<in> set toks. is_eos g t)) \<and> (me_finish me = ''length'' \<longleftrightarrow> (\<forall>t \<in> set toks. \<not> is_eos g t))"
proof -
  let ?out = "takeWhile (\<lambda>t. \<not> is_eos g t) toks"
  have "autoregress F K g (lg, ids, E0) 0 = (lg, ids, E0)" by simp
  from gen_loop_autoregress [OF assms(4) this assms(3), of "nat (g_max_new g)"] obtain E' where
    "gen_loop F K g (nat (g_max_new g)) True (Some lg) ids E0 = Some (Inr ?out, E')"
    using assms(5) by auto
  then have gen: "generate F K g None ids (reset F E) = Some (Inr ?out, E')" using assms(1,2) by (simp add: generate_def)
  have len: "length toks = nat (g_max_new g)" by (simp add: assms(5))
  have "length ?out \<le> nat (g_max_new g)" using length_takeWhile_le [of _ toks] len by metis
  then have "g_max_new g \<le> int (length ?out) \<longleftrightarrow> length ?out = length toks" using len by linarith
  then have "g_max_new g \<le> int (length ?out) \<longleftrightarrow> (\<forall>t \<in> set toks. \<not> is_eos g t)" by (simp add: takeWhile_all_length)
  then show ?thesis using gen by (auto simp: chat_run_def)
qed

theorem chat_run_finish_exact_witness:
  "\<exists>E' me. chat_run demo_family demo_sk (greedy_gen\<lparr>g_max_new := 5\<rparr>) [7, 8, 9] (demo_engine\<lparr>e_pos := 40\<rparr>) = Some (Inr ([3, 0, 1], me), E') \<and>
    me_finish me = ''stop''"
proof -
  have r: "reset demo_family (demo_engine\<lparr>e_pos := 40\<rparr>) = demo_engine" by (simp add: reset_def demo_family_def demo_engine_def engine_new_def)
  have p: "run_prompt demo_family [7, 8, 9] (reset demo_family (demo_engine\<lparr>e_pos := 40\<rparr>)) =
      Some (Inr (), demo_engine\<lparr>e_state := 3, e_pos := 3, e_last := Some [0, 0, 0, 1]\<rparr>)"
    unfolding r by (simp add: run_prompt_def demo_prefill)
  let ?E0 = "demo_engine\<lparr>e_state := 3, e_pos := 3, e_last := Some [0, 0, 0, 1]\<rparr>" and ?g = "greedy_gen\<lparr>g_max_new := 5\<rparr>"
  have t: "map (token_at demo_family demo_sk ?g ([0, 0, 0, 1], [7, 8, 9], ?E0)) [0..<nat (g_max_new ?g)] = [3, 0, 1, 2, 3]"
    by code_simp
  show ?thesis
    using chat_run_finish_exact [OF p _ _ demo_family_total t [symmetric]] by (auto simp: is_eos_def greedy_gen_def)
qed

end
