(* ===== verification/App.thy ===== *)
theory App
  imports Chat
begin

text \<open>
  The HTTP layer (\<open>edge0/server/app.py\<close> and the end of \<open>chat.py\<close>): the non-streaming reply, the
  incremental decoding behind server-sent events, the event stream itself, the routes of both transports
  and the chunked framing of the standard-library one. Ids and timestamps are left out; the detokenizer is
  \<open>sv_decode\<close>, the engine's tool-call parser \<open>sv_parser\<close>. The queue between the generating thread and the
  writer keeps the order of the events, so a stream is the list of what the thread puts.
\<close>

record server =
  sv_think :: bool
  sv_parser :: "(str \<Rightarrow> json \<Rightarrow> str option \<times> tool_call list) option"
  sv_decode :: "nat list \<Rightarrow> str"

section \<open>The reply\<close>

definition split_think :: "str \<Rightarrow> bool \<Rightarrow> str \<times> str" where
  "split_think s think =
     (if think
      then (case seek (eat (lit ''</think>'')) s of
              Some (r, c) \<Rightarrow> (strip_text r, strip_text c)
            | None \<Rightarrow> (strip_text s, []))
      else ([], s))"

definition extract_tool_calls :: "server \<Rightarrow> chat_request \<Rightarrow> str \<Rightarrow> str option \<times> tool_call list option" where
  "extract_tool_calls sv q content =
     (if rq_tool_choice q = JStr (lit ''none'') \<or> (\<not> truthy (rq_tools q) \<and> rq_tool_choice q \<noteq> JStr (lit ''required''))
      then (Some content, None)
      else case sv_parser sv of
             None \<Rightarrow> (Some content, None)
           | Some parse \<Rightarrow> (case parse content (rq_tools q) of (c, calls) \<Rightarrow> (c, if calls = [] then None else Some calls)))"

definition think_of :: "server \<Rightarrow> chat_request \<Rightarrow> bool" where
  "think_of sv q = (if rq_thinking q \<noteq> JNull then truthy (rq_thinking q) else sv_think sv)"

record reply =
  rp_content :: "str option"
  rp_reasoning :: str
  rp_calls :: "tool_call list option"
  rp_finish :: string

definition chat_once :: "server \<Rightarrow> chat_request \<Rightarrow> nat list \<Rightarrow> chat_meta \<Rightarrow> reply" where
  "chat_once sv q toks me =
     (case split_think (sv_decode sv toks) (think_of sv q) of
        (reasoning, content) \<Rightarrow>
          (case extract_tool_calls sv q content of
             (content, calls) \<Rightarrow>
               \<lparr>rp_content = content, rp_reasoning = reasoning, rp_calls = calls,
                rp_finish = (if calls \<noteq> None then ''tool_calls'' else me_finish me)\<rparr>))"

section \<open>Streaming\<close>

text \<open>U+FFFD, which a byte-level decoder gives for an incomplete character.\<close>

definition hold_back :: "str \<Rightarrow> str" where
  "hold_back s = rev (dropWhile (\<lambda>c. c = 65533) (rev s))"

fun common_prefix :: "str \<Rightarrow> str \<Rightarrow> nat" where
  "common_prefix (a # s) (b # t) = (if a = b then Suc (common_prefix s t) else 0)"
| "common_prefix s t = 0"

definition incremental_suffix :: "str \<Rightarrow> str \<Rightarrow> str" where
  "incremental_suffix prev s =
     (let safe = hold_back s in
      case eat prev safe of Some r \<Rightarrow> r | None \<Rightarrow> drop (common_prefix safe prev) safe)"

definition buffering :: "server \<Rightarrow> chat_request \<Rightarrow> bool" where
  "buffering sv q \<longleftrightarrow> truthy (rq_tools q) \<and> rq_tool_choice q \<noteq> JStr (lit ''none'') \<and> sv_parser sv \<noteq> None"

datatype event =
    Delta str
  | Last_Chunk "(str option \<times> tool_call list option) option" string chat_meta
  | Finished
  | Failed

text \<open>The token callback: the ids seen, the text emitted, and the events put.\<close>

definition on_token :: "server \<Rightarrow> nat \<Rightarrow> nat list \<times> str \<times> event list \<Rightarrow> nat list \<times> str \<times> event list" where
  "on_token sv t = (\<lambda>(seen, emitted, evs).
     (let seen = seen @ [t];
          s = sv_decode sv seen;
          d = incremental_suffix emitted s
      in (seen, hold_back s, if d = [] then evs else evs @ [Delta d])))"

definition stream_tail :: "str \<Rightarrow> str \<Rightarrow> str" where
  "stream_tail emitted final = (case eat emitted final of Some r \<Rightarrow> r | None \<Rightarrow> incremental_suffix emitted final)"

text \<open>
  \<open>produce\<close>: \<open>toks\<close> are the tokens the callback got, \<open>r\<close> what the generation returned; an exception ends
  the stream with an error event.
\<close>

definition chat_stream :: "server \<Rightarrow> chat_request \<Rightarrow> nat list \<Rightarrow> (nat list \<times> chat_meta) res \<Rightarrow> event list" where
  "chat_stream sv q toks r =
     (case (if buffering sv q then ([], [], []) else fold (on_token sv) toks ([], [], [])) of
        (seen, emitted, evs) \<Rightarrow>
          (case r of
             Inl e \<Rightarrow> evs @ [Failed]
           | Inr (out, me) \<Rightarrow>
               if buffering sv q
               then (case extract_tool_calls sv q (snd (split_think (sv_decode sv out) (think_of sv q))) of
                       (content, calls) \<Rightarrow>
                         evs @ [Last_Chunk (Some (content, calls)) (if calls \<noteq> None then ''tool_calls'' else me_finish me) me, Finished])
               else let tail = stream_tail emitted (sv_decode sv seen)
                    in evs @ (if tail = [] then [] else [Delta tail]) @ [Last_Chunk None (me_finish me) me, Finished]))"

definition deltas :: "event list \<Rightarrow> str" where
  "deltas evs = concat (map (\<lambda>e. case e of Delta s \<Rightarrow> s | _ \<Rightarrow> []) evs)"

section \<open>The routes\<close>

datatype reply_body = Health | Models | Completion | Error_Body
datatype http = Reply nat reply_body | Event_Stream | Crash
datatype body = No_Body | Malformed | Body json

text \<open>\<open>runs\<close> says whether the generation of a request returns or raises.\<close>

definition error_reply :: "nat \<Rightarrow> http" where
  "error_reply status = Reply status Error_Body"

definition handle_chat :: "py_env \<Rightarrow> (chat_request \<Rightarrow> bool) \<Rightarrow> json \<Rightarrow> http" where
  "handle_chat P runs payload =
     (case parse_chat_request P payload of
        Inl ValueError \<Rightarrow> error_reply 400
      | Inl JSONDecodeError \<Rightarrow> error_reply 400
      | Inl e \<Rightarrow> Crash
      | Inr q \<Rightarrow>
          if truthy (jget ''stream'' (fields_of payload)) then Event_Stream
          else if runs q then Reply 200 Completion else Crash)"

definition handle_completions :: http where
  "handle_completions = error_reply 400"

definition stdlib_get :: "string \<Rightarrow> http" where
  "stdlib_get path =
     (if path = ''/healthz'' then Reply 200 Health else if path = ''/v1/models'' then Reply 200 Models else error_reply 404)"

definition stdlib_post :: "py_env \<Rightarrow> (chat_request \<Rightarrow> bool) \<Rightarrow> string \<Rightarrow> body \<Rightarrow> http" where
  "stdlib_post P runs path b =
     (if path \<notin> {''/v1/chat/completions'', ''/v1/completions''} then error_reply 404
      else case (case b of No_Body \<Rightarrow> Some (JObj []) | Malformed \<Rightarrow> None | Body v \<Rightarrow> Some v) of
             None \<Rightarrow> error_reply 400
           | Some payload \<Rightarrow>
               if path = ''/v1/chat/completions'' then
                 (case parse_chat_request P payload of
                    Inl ValueError \<Rightarrow> error_reply 400
                  | Inl JSONDecodeError \<Rightarrow> error_reply 400
                  | Inl e \<Rightarrow> Crash
                  | Inr q \<Rightarrow>
                      if truthy (jget ''stream'' (fields_of payload)) then Event_Stream else handle_chat P runs payload)
               else handle_completions)"

text \<open>Flask: \<open>get_json(silent=True)\<close> is \<open>None\<close> for a malformed body and for the JSON value \<open>null\<close>.\<close>

definition flask_payload :: "body \<Rightarrow> json option" where
  "flask_payload b = (case b of No_Body \<Rightarrow> Some (JObj []) | Malformed \<Rightarrow> None | Body v \<Rightarrow> if v = JNull then None else Some v)"

text \<open>Flask answers a path without a route itself (\<open>None\<close>).\<close>

definition flask_get :: "string \<Rightarrow> http option" where
  "flask_get path =
     (if path = ''/healthz'' then Some (Reply 200 Health) else if path = ''/v1/models'' then Some (Reply 200 Models) else None)"

definition flask_post :: "py_env \<Rightarrow> (chat_request \<Rightarrow> bool) \<Rightarrow> string \<Rightarrow> body \<Rightarrow> http option" where
  "flask_post P runs path b =
     (if path = ''/v1/chat/completions''
      then Some (case flask_payload b of None \<Rightarrow> error_reply 400 | Some v \<Rightarrow> handle_chat P runs v)
      else if path = ''/v1/completions''
      then Some (case flask_payload b of None \<Rightarrow> error_reply 400 | Some v \<Rightarrow> handle_completions)
      else None)"

section \<open>Chunked framing\<close>

definition hex_char :: "nat \<Rightarrow> nat" where
  "hex_char d = (if d < 10 then 48 + d else 55 + d)"

fun hex :: "nat \<Rightarrow> nat list" where
  "hex n = (if n < 16 then [hex_char n] else hex (n div 16) @ [hex_char (n mod 16)])"

declare hex.simps [simp del]

text \<open>The bytes \<open>_sse\<close> writes: empty events are skipped, for an empty chunk would end the body.\<close>

definition chunk_of :: "nat list \<Rightarrow> nat list" where
  "chunk_of bs = (if bs = [] then [] else hex (length bs) @ [13, 10] @ bs @ [13, 10])"

definition sse_wire :: "nat list list \<Rightarrow> nat list" where
  "sse_wire events = concat (map chunk_of events) @ [48, 13, 10, 13, 10]"

text \<open>How HTTP/1.1 reads chunks: a size in hexadecimal, that many bytes, up to the chunk of size \<open>0\<close>.\<close>

definition hex_value :: "nat \<Rightarrow> nat option" where
  "hex_value c = (if 48 \<le> c \<and> c \<le> 57 then Some (c - 48) else if 65 \<le> c \<and> c \<le> 70 then Some (c - 55)
     else if 97 \<le> c \<and> c \<le> 102 then Some (c - 87) else None)"

fun read_hex :: "nat \<Rightarrow> nat list \<Rightarrow> nat \<times> nat list" where
  "read_hex a [] = (a, [])"
| "read_hex a (c # s) = (case hex_value c of None \<Rightarrow> (a, c # s) | Some d \<Rightarrow> read_hex (16 * a + d) s)"

function dechunk :: "nat list \<Rightarrow> nat list list option" where
  "dechunk s =
     (case read_hex 0 s of
        (n, r) \<Rightarrow>
          (case eat [13, 10] r of
             None \<Rightarrow> None
           | Some r \<Rightarrow>
               if n = 0 then (if r = [13, 10] then Some [] else None)
               else if length (drop n r) < length s
               then (case eat [13, 10] (drop n r) of
                       None \<Rightarrow> None
                     | Some rest \<Rightarrow> if length rest < length s then map_option (\<lambda>cs. take n r # cs) (dechunk rest) else None)
               else None))"
  by pat_completeness auto
termination by (relation "measure length") auto

declare dechunk.simps [simp del]

section \<open>What a client reads\<close>

lemma hold_back_prefix: "\<exists>r. s = hold_back s @ r"
proof -
  have "rev s = takeWhile (\<lambda>c. c = 65533) (rev s) @ dropWhile (\<lambda>c. c = 65533) (rev s)" by simp
  then have "s = rev (dropWhile (\<lambda>c. c = 65533) (rev s)) @ rev (takeWhile (\<lambda>c. c = 65533) (rev s))" by (metis rev_append rev_rev_ident)
  then show ?thesis by (auto simp: hold_back_def)
qed

definition prefix_stable :: "(nat list \<Rightarrow> str) \<Rightarrow> bool" where
  "prefix_stable decode \<longleftrightarrow> (\<forall>ts t. \<exists>r. hold_back (decode (ts @ [t])) = hold_back (decode ts) @ r)"

lemma deltas_simps [simp]:
  "deltas [] = []" "deltas (e # es) = (case e of Delta s \<Rightarrow> s | _ \<Rightarrow> []) @ deltas es" "deltas (es @ es') = deltas es @ deltas es'"
  by (simp_all add: deltas_def)

lemma on_token_step:
  "on_token sv t (seen, emitted, evs) =
     (seen @ [t], hold_back (sv_decode sv (seen @ [t])),
      if incremental_suffix emitted (sv_decode sv (seen @ [t])) = [] then evs
      else evs @ [Delta (incremental_suffix emitted (sv_decode sv (seen @ [t])))])"
  by (simp add: on_token_def Let_def)

lemma stream_tokens:
  assumes st: "prefix_stable (sv_decode sv)" and "toks \<noteq> []"
  shows "\<exists>evs. fold (on_token sv) toks ([], [], []) = (toks, hold_back (sv_decode sv toks), evs) \<and>
    deltas evs = hold_back (sv_decode sv toks) \<and> (\<forall>e \<in> set evs. \<exists>s. e = Delta s)"
  using assms(2)
proof (induction toks rule: rev_induct)
  case (snoc t toks)
  show ?case
  proof (cases "toks = []")
    case True
    then show ?thesis by (auto simp: on_token_step incremental_suffix_def Let_def)
  next
    case False
    then obtain evs where evs: "fold (on_token sv) toks ([], [], []) = (toks, hold_back (sv_decode sv toks), evs)"
      "deltas evs = hold_back (sv_decode sv toks)" "\<forall>e \<in> set evs. \<exists>s. e = Delta s" using snoc.IH by blast
    obtain r where r: "hold_back (sv_decode sv (toks @ [t])) = hold_back (sv_decode sv toks) @ r"
      using st by (auto simp: prefix_stable_def)
    then have "incremental_suffix (hold_back (sv_decode sv toks)) (sv_decode sv (toks @ [t])) = r"
      by (simp add: incremental_suffix_def)
    then show ?thesis using evs r by (auto simp: on_token_step)
  qed
qed simp

lemma stream_tail_exact: "s = emitted @ r \<Longrightarrow> stream_tail emitted s = r"
  by (simp add: stream_tail_def)

text \<open>
  C16: where streaming and non-streaming replies agree, and where they do not. With a prefix-stable
  detokenizer the stream of a finished generation ends with one last chunk and the end mark; when it
  buffers (tools given, \<open>tool_choice\<close> not \<open>none\<close>, an engine that parses calls), that chunk carries exactly
  the content, the calls and the finish reason of the non-streaming reply and nothing went out before.
  Otherwise the deltas concatenate to the decoded text and the last chunk carries no calls. With thinking
  off, that text and finish reason are the reply's own provided tools were given or \<open>tool_choice\<close> is not
  \<open>required\<close>; with no tools and \<open>tool_choice\<close> \<open>required\<close> the stream sends that text raw, while the reply's
  content and calls are what the engine's parser makes of it. With thinking on, nothing is claimed of an
  unbuffered stream.
\<close>

theorem stream_agrees_with_reply:
  assumes "prefix_stable (sv_decode sv)"
  shows "\<exists>evs last. chat_stream sv q toks (Inr (toks, me)) = evs @ [last, Finished] \<and> (\<forall>e \<in> set evs. \<exists>s. e = Delta s) \<and>
    (if buffering sv q
     then evs = [] \<and> last = Last_Chunk (Some (rp_content (chat_once sv q toks me), rp_calls (chat_once sv q toks me)))
            (rp_finish (chat_once sv q toks me)) me
     else last = Last_Chunk None (me_finish me) me \<and> deltas evs = sv_decode sv toks \<and>
       (\<not> think_of sv q \<and> (truthy (rq_tools q) \<or> rq_tool_choice q \<noteq> JStr (lit ''required'')) \<longrightarrow>
          rp_content (chat_once sv q toks me) = Some (deltas evs) \<and> rp_finish (chat_once sv q toks me) = me_finish me) \<and>
       (\<not> think_of sv q \<and> \<not> truthy (rq_tools q) \<and> rq_tool_choice q = JStr (lit ''required'') \<longrightarrow>
          (rp_content (chat_once sv q toks me), rp_calls (chat_once sv q toks me)) =
            (case sv_parser sv of None \<Rightarrow> (Some (deltas evs), None)
             | Some parse \<Rightarrow> (case parse (deltas evs) (rq_tools q) of
                 (c, calls) \<Rightarrow> (c, if calls = [] then None else Some calls)))))"
proof (cases "buffering sv q")
  case True
  obtain rs c where sp: "split_think (sv_decode sv toks) (think_of sv q) = (rs, c)" by fastforce
  obtain content calls where ex: "extract_tool_calls sv q c = (content, calls)" by fastforce
  show ?thesis using True sp ex by (simp add: chat_stream_def chat_once_def)
next
  case False
  obtain evs where evs: "chat_stream sv q toks (Inr (toks, me)) = evs @ [Last_Chunk None (me_finish me) me, Finished]"
    "deltas evs = sv_decode sv toks" "\<forall>e \<in> set evs. \<exists>s. e = Delta s"
  proof (cases "toks = []")
    case True
    then show ?thesis using that [of "if sv_decode sv [] = [] then [] else [Delta (sv_decode sv [])]"] False
      by (auto simp: chat_stream_def stream_tail_def)
  next
    case ne: False
    obtain es where es: "fold (on_token sv) toks ([], [], []) = (toks, hold_back (sv_decode sv toks), es)"
      "deltas es = hold_back (sv_decode sv toks)" "\<forall>e \<in> set es. \<exists>s. e = Delta s" using stream_tokens [OF assms ne] by blast
    obtain r where r: "sv_decode sv toks = hold_back (sv_decode sv toks) @ r" using hold_back_prefix by blast
    have tail: "stream_tail (hold_back (sv_decode sv toks)) (sv_decode sv toks) = r" by (rule stream_tail_exact [OF r])
    show ?thesis
    proof (rule that [of "es @ (if r = [] then [] else [Delta r])"])
      show "chat_stream sv q toks (Inr (toks, me)) = (es @ (if r = [] then [] else [Delta r])) @ [Last_Chunk None (me_finish me) me, Finished]"
        using False by (simp add: chat_stream_def es(1) tail)
      show "deltas (es @ (if r = [] then [] else [Delta r])) = sv_decode sv toks"
      proof -
        have "deltas (if r = [] then [] else [Delta r]) = r" by simp
        then show ?thesis unfolding deltas_simps(3) es(2) using r by simp
      qed
      show "\<forall>e \<in> set (es @ (if r = [] then [] else [Delta r])). \<exists>s. e = Delta s" using es(3) by auto
    qed
  qed
  have "rp_content (chat_once sv q toks me) = Some (sv_decode sv toks) \<and> rp_finish (chat_once sv q toks me) = me_finish me"
    if "\<not> think_of sv q" "truthy (rq_tools q) \<or> rq_tool_choice q \<noteq> JStr (lit ''required'')"
    using that False by (auto simp: chat_once_def split_think_def extract_tool_calls_def buffering_def split: option.splits)
  moreover have "(rp_content (chat_once sv q toks me), rp_calls (chat_once sv q toks me)) =
      (case sv_parser sv of None \<Rightarrow> (Some (sv_decode sv toks), None)
       | Some parse \<Rightarrow> (case parse (sv_decode sv toks) (rq_tools q) of (c, calls) \<Rightarrow> (c, if calls = [] then None else Some calls)))"
    if "\<not> think_of sv q" "\<not> truthy (rq_tools q)" "rq_tool_choice q = JStr (lit ''required'')"
  proof -
    have "rq_tool_choice q \<noteq> JStr (lit ''none'')" using that(3) by (simp add: lit_def)
    then show ?thesis using that by (simp add: chat_once_def split_think_def extract_tool_calls_def split: option.splits prod.splits)
  qed
  ultimately show ?thesis
    using evs False by (intro exI [of _ evs] exI [of _ "Last_Chunk None (me_finish me) me"]) (unfold evs(2), simp)
qed

text \<open>A decoder that maps each id to one character; the id \<open>0\<close> to an incomplete one.\<close>

definition demo_server :: server where
  "demo_server = \<lparr>sv_think = False, sv_parser = None, sv_decode = map (\<lambda>t. if t = 0 then 65533 else t)\<rparr>"

definition demo_request :: chat_request where
  "demo_request = \<lparr>rq_model = [], rq_messages = [], rq_temperature = JNull, rq_top_p = JNull, rq_top_k = JNull, rq_max_tokens = JNull,
     rq_seed = JNull, rq_stream = True, rq_thinking = JNull, rq_tools = JNull, rq_tool_choice = JNull, rq_raw = JNull\<rparr>"

lemma hold_back_snoc: "hold_back (s @ [c]) = (if c = 65533 then hold_back s else s @ [c])"
  by (simp add: hold_back_def)

lemma demo_stable: "prefix_stable (sv_decode demo_server)"
proof -
  have "\<exists>r. hold_back (s @ [c]) = hold_back s @ r" for s c
    using hold_back_prefix [of s] by (cases "c = 65533") (auto simp: hold_back_snoc, metis append.assoc)
  then show ?thesis by (simp add: prefix_stable_def demo_server_def)
qed

theorem stream_agrees_with_reply_witness:
  "\<forall>me. \<exists>evs. chat_stream demo_server demo_request [104, 0, 105, 0] (Inr ([104, 0, 105, 0], me)) = evs @ [Last_Chunk None (me_finish me) me, Finished] \<and>
    deltas evs = [104, 65533, 105, 65533] \<and> rp_content (chat_once demo_server demo_request [104, 0, 105, 0] me) = Some [104, 65533, 105, 65533]"
proof -
  have "\<not> buffering demo_server demo_request" "\<not> think_of demo_server demo_request" "rq_tool_choice demo_request \<noteq> JStr (lit ''required'')"
    "sv_decode demo_server [104, 0, 105, 0] = [104, 65533, 105, 65533]"
    by (simp_all add: buffering_def think_of_def demo_request_def demo_server_def)
  note facts = this
  show ?thesis
  proof
    fix me
    show "\<exists>evs. chat_stream demo_server demo_request [104, 0, 105, 0] (Inr ([104, 0, 105, 0], me)) = evs @ [Last_Chunk None (me_finish me) me, Finished] \<and>
      deltas evs = [104, 65533, 105, 65533] \<and> rp_content (chat_once demo_server demo_request [104, 0, 105, 0] me) = Some [104, 65533, 105, 65533]"
      using facts stream_agrees_with_reply [OF demo_stable, of demo_request "[104, 0, 105, 0]" me] by auto
  qed
qed

section \<open>The framing is read back\<close>

lemma hex_value_char: "d < 16 \<Longrightarrow> hex_value (hex_char d) = Some d"
  by (auto simp: hex_value_def hex_char_def)

lemma read_hex_append: "read_hex a (hex n @ [c] @ s) = (case hex_value c of None \<Rightarrow> (a * 16 ^ length (hex n) + n, [c] @ s) | Some d \<Rightarrow> read_hex ((a * 16 ^ length (hex n) + n) * 16 + d) s)"
proof (induction n arbitrary: c s rule: hex.induct)
  case (1 n)
  show ?case
  proof (cases "n < 16")
    case True
    then have "hex n = [hex_char n]" by (simp add: hex.simps)
    then show ?thesis using True by (simp add: hex_value_char mult.commute split: option.splits)
  next
    case False
    have h: "hex n = hex (n div 16) @ [hex_char (n mod 16)]" using False by (subst hex.simps) simp
    let ?m = "(a * 16 ^ length (hex (n div 16)) + n div 16) * 16 + n mod 16"
    have "read_hex a (hex (n div 16) @ [hex_char (n mod 16)] @ [c] @ s) = read_hex ?m ([c] @ s)"
      using 1 [OF False, of "hex_char (n mod 16)" "[c] @ s"] by (simp add: hex_value_char)
    then have "read_hex a (hex n @ [c] @ s) = read_hex ?m ([c] @ s)" by (simp add: h)
    moreover have "?m = a * 16 ^ length (hex n) + n" using h by (simp add: algebra_simps)
    ultimately have "read_hex a (hex n @ [c] @ s) = read_hex (a * 16 ^ length (hex n) + n) ([c] @ s)" by (simp only:)
    then show ?thesis by (simp only: append.simps read_hex.simps mult.commute [of 16])
  qed
qed

lemma dechunk_chunk:
  assumes "bs \<noteq> []"
  shows "dechunk (chunk_of bs @ s) = map_option (\<lambda>cs. bs # cs) (dechunk s)"
proof -
  have "read_hex 0 (hex (length bs) @ [13] @ 10 # bs @ [13, 10] @ s) = (length bs, [13] @ 10 # bs @ [13, 10] @ s)"
    by (subst read_hex_append) (simp add: hex_value_def)
  then show ?thesis using assms by (subst dechunk.simps) (simp add: chunk_of_def)
qed

text \<open>
  C38: whatever the events, a client that reads the chunked body gets exactly the non-empty ones, each in
  one chunk, and sees the end of the body only at its end.
\<close>

theorem sse_wire_read_back:
  "dechunk (sse_wire events) = Some (filter (\<lambda>e. e \<noteq> []) events)"
proof (induction events)
  case Nil
  show ?case by (subst dechunk.simps) (simp add: sse_wire_def hex_value_def)
next
  case (Cons e events)
  then show ?case
  proof (cases "e = []")
    case False
    have "sse_wire (e # events) = chunk_of e @ sse_wire events" by (simp add: sse_wire_def)
    then show ?thesis using dechunk_chunk [OF False] Cons False by simp
  qed (simp add: sse_wire_def chunk_of_def)
qed

section \<open>The two transports\<close>

text \<open>
  Flask and the standard-library server answer alike. For every path the server declares and every
  body, absent, malformed or any JSON value, both transports give the same status and kind of reply; the
  standard-library one answers 404 on every path that is no route of Flask's.
\<close>

theorem transports_agree:
  "stdlib_get path = (case flask_get path of Some r \<Rightarrow> r | None \<Rightarrow> error_reply 404) \<and>
   stdlib_post P runs path b = (case flask_post P runs path b of Some r \<Rightarrow> r | None \<Rightarrow> error_reply 404)"
proof -
  let ?f = "\<lambda>path b. case flask_post P runs path b of Some r \<Rightarrow> r | None \<Rightarrow> error_reply 404"
  have null: "parse_chat_request P JNull = Inl ValueError" by (simp add: parse_chat_request_def)
  have "stdlib_post P runs ''/v1/chat/completions'' (Body v) = ?f ''/v1/chat/completions'' (Body v)" for v
    by (cases "v = JNull") (auto simp: stdlib_post_def flask_post_def flask_payload_def handle_chat_def null split: sum.splits py_error.splits)
  moreover have "stdlib_post P runs ''/v1/chat/completions'' No_Body = ?f ''/v1/chat/completions'' No_Body"
    by (auto simp: stdlib_post_def flask_post_def flask_payload_def handle_chat_def split: sum.splits py_error.splits)
  moreover have "stdlib_post P runs ''/v1/completions'' b = ?f ''/v1/completions'' b"
    by (auto simp: stdlib_post_def flask_post_def flask_payload_def handle_completions_def split: body.splits)
  moreover have "stdlib_post P runs path b = ?f path b" if "path \<notin> {''/v1/chat/completions'', ''/v1/completions''}"
    using that by (simp add: stdlib_post_def flask_post_def)
  moreover have "stdlib_post P runs ''/v1/chat/completions'' Malformed = ?f ''/v1/chat/completions'' Malformed"
    by (simp add: stdlib_post_def flask_post_def flask_payload_def)
  ultimately have "stdlib_post P runs path b = ?f path b" by (cases b) blast+
  then show ?thesis by (simp add: stdlib_get_def flask_get_def)
qed

end
