(* ===== verification/Byte_Pack.thy ===== *)
theory Byte_Pack
  imports Safetensors Py_Strings
begin

text \<open>
  What the repacking tools use of \<open>struct\<close>, \<open>bytes\<close> and \<open>str\<close>: unsigned little-endian packing with its
  range check, slicing of a byte buffer at possibly negative or too large indices, and splitting at a
  separator.
\<close>

section \<open>struct.pack and struct.unpack, unsigned little endian\<close>

fun le_bytes :: "nat \<Rightarrow> nat \<Rightarrow> u8 list" where
  "le_bytes 0 n = []"
| "le_bytes (Suc k) n = word_of_nat (n mod 256) # le_bytes k (n div 256)"

text \<open>\<open>struct.pack\<close> of a value that does not fit raises \<open>struct.error\<close>.\<close>

definition pack_le :: "nat \<Rightarrow> nat \<Rightarrow> u8 list res" where
  "pack_le k n = (if n < 256 ^ k then Inr (le_bytes k n) else Inl StructError)"

lemma length_le_bytes [simp]: "length (le_bytes k n) = k"
  by (induction k arbitrary: n) simp_all

lemma le_bytes_Nil [simp]: "le_bytes k n = [] \<longleftrightarrow> k = 0"
  by (cases k) simp_all

lemma le_nat_le_bytes: "n < 256 ^ k \<Longrightarrow> le_nat (le_bytes k n) = n"
proof (induction k arbitrary: n)
  case (Suc k)
  then have "n div 256 < 256 ^ k" by (simp add: less_mult_imp_div_less mult.commute)
  moreover have "unat (word_of_nat (n mod 256) :: u8) = n mod 256"
    by (simp add: unat_of_nat)
  ultimately show ?case using Suc.IH by simp
qed simp

lemma pack_le_Inr: "pack_le k n = Inr bs \<longleftrightarrow> n < 256 ^ k \<and> bs = le_bytes k n"
  by (auto simp: pack_le_def)

section \<open>Slices\<close>

text \<open>\<open>b[i:j]\<close>: a negative index counts from the end, and both ends are clipped.\<close>

definition clip_index :: "nat \<Rightarrow> int \<Rightarrow> nat" where
  "clip_index n i = (if i < 0 then nat (max 0 (i + int n)) else min n (nat i))"

definition mm_slice :: "int \<Rightarrow> int \<Rightarrow> 'a list \<Rightarrow> 'a list" where
  "mm_slice a b mm = py_slice (clip_index (length mm) a) (clip_index (length mm) b) mm"

lemma mm_slice_inside:
  "0 \<le> a \<Longrightarrow> a \<le> b \<Longrightarrow> b \<le> int (length mm) \<Longrightarrow> mm_slice a b mm = take (nat (b - a)) (drop (nat a) mm)"
  by (simp add: mm_slice_def clip_index_def py_slice_def nat_diff_distrib)

lemma length_mm_slice:
  "0 \<le> a \<Longrightarrow> a \<le> b \<Longrightarrow> b \<le> int (length mm) \<Longrightarrow> int (length (mm_slice a b mm)) = b - a"
  by (simp add: mm_slice_inside)

text \<open>A slice that covers exactly the middle part of a concatenation.\<close>

lemma mm_slice_middle:
  "a = int (length xs) \<Longrightarrow> b = a + int (length ys) \<Longrightarrow> mm_slice a b (xs @ ys @ zs) = ys"
  by (subst mm_slice_inside) auto

section \<open>str.split\<close>

text \<open>\<open>s.split(sep)\<close> for a non-empty separator.\<close>

function split_sep :: "string \<Rightarrow> string \<Rightarrow> string list" where
  "split_sep p s =
     (if p = [] then [s]
      else case find_sub p s of
             None \<Rightarrow> [s]
           | Some i \<Rightarrow> take i s # split_sep p (drop (i + length p) s))"
  by pat_completeness auto

termination
proof (relation "measure (\<lambda>(p, s). length s)", goal_cases)
  case (2 p s i)
  from split_first [OF 2(2)] have "length s = length (take i s @ p @ drop (i + length p) s)" by simp
  with 2(1) show ?case by (cases p) auto
qed simp

declare split_sep.simps [simp del]

end
