(* ===== verification/Repack_Experts.thy ===== *)
theory Repack_Experts
  imports Byte_Pack
begin

text \<open>
  \<open>ios/tools/repack_experts.py\<close>: the routed experts of the checkpoint rewritten as one contiguous
  block per expert and one file per layer (\<open>pack\<close>), the byte comparison of the result with the
  originals (\<open>verify\<close>) and the extraction of every other tensor into one safetensors file
  (\<open>resident\<close>). The model directory is its list of files and the decoded weight map; the output
  directory is a \<open>disk\<close>, whose \<open>experts.json\<close> is kept as the object it encodes.
\<close>

section \<open>The original shards\<close>

record xshards =
  xwmap :: "(string \<times> string) list"
  xfiles :: "(string \<times> header \<times> int \<times> u8 list) list"

definition PARTS :: "(string \<times> string) list" where
  "PARTS =
     [(''gate_proj'', ''weight''), (''gate_proj'', ''scales''), (''gate_proj'', ''biases''),
      (''up_proj'', ''weight''), (''up_proj'', ''scales''), (''up_proj'', ''biases''),
      (''down_proj'', ''weight''), (''down_proj'', ''scales''), (''down_proj'', ''biases'')]"

definition tensor_name :: "nat \<Rightarrow> string \<Rightarrow> string \<Rightarrow> string" where
  "tensor_name layer projection part =
     ''language_model.model.layers.'' @ show_nat layer @ ''.mlp.switch_mlp.'' @ projection @ ''.'' @ part"

text \<open>The file name of a layer: the format \<open>:02d\<close> pads to two digits.\<close>

definition layer_file :: "nat \<Rightarrow> string" where
  "layer_file layer = ''experts-L'' @ (if layer < 10 then ''0'' else []) @ show_nat layer @ ''.bin''"

definition open_shard :: "(u8 list \<Rightarrow> header res) \<Rightarrow> (string \<times> u8 list) list \<Rightarrow> string \<Rightarrow> (string \<times> header \<times> int \<times> u8 list) res" where
  "open_shard loads files f =
     (case map_of files f of
        None \<Rightarrow> Inl FileNotFoundError
      | Some bytes \<Rightarrow>
          res_bind (unpack_Q (take 8 bytes)) (\<lambda>n.
          res_bind (loads (py_slice 8 (8 + n) bytes)) (\<lambda>h. Inr (f, h, 8 + int n, bytes))))"

definition shards_open ::
  "(u8 list \<Rightarrow> header res) \<Rightarrow> (string \<times> u8 list) list \<Rightarrow> (string \<times> string) list \<Rightarrow> xshards res" where
  "shards_open loads files wm =
     res_bind (res_map (open_shard loads files) (uniq (map snd wm)))
       (\<lambda>fs. Inr \<lparr>xwmap = wm, xfiles = fs\<rparr>)"

text \<open>\<open>entry\<close>: the file, the first byte, the byte count, the dtype and the shape of a tensor.\<close>

type_synonym entry_info = "string \<times> int \<times> int \<times> string \<times> nat list"

definition shard_entry :: "xshards \<Rightarrow> string \<Rightarrow> entry_info res" where
  "shard_entry s name =
     (case map_of (xwmap s) name of
        None \<Rightarrow> Inl KeyError
      | Some f \<Rightarrow>
          (case map_of (xfiles s) f of
             None \<Rightarrow> Inl KeyError
           | Some (h, base, mm) \<Rightarrow>
               (case map_of h name of
                  None \<Rightarrow> Inl KeyError
                | Some (HMeta m) \<Rightarrow> Inl KeyError
                | Some (HTensor t) \<Rightarrow>
                    Inr (f, base + mbegin t, mend t - mbegin t, mdtype t, mshape t))))"

definition file_bytes :: "xshards \<Rightarrow> string \<Rightarrow> u8 list" where
  "file_bytes s f = (case map_of (xfiles s) f of None \<Rightarrow> [] | Some (h, base, mm) \<Rightarrow> mm)"

text \<open>\<open>count // experts\<close>.\<close>

definition per_expert :: "int \<Rightarrow> nat \<Rightarrow> int res" where
  "per_expert count experts = (if experts = 0 then Inl ZeroDivisionError else Inr (count div int experts))"

definition slice_of :: "xshards \<Rightarrow> string \<Rightarrow> nat \<Rightarrow> nat \<Rightarrow> u8 list res" where
  "slice_of s name expert experts =
     res_bind (shard_entry s name) (\<lambda>(f, offset, count, dt, shp).
     res_bind (per_expert count experts) (\<lambda>per.
       let start = offset + int expert * per
       in Inr (mm_slice start (start + per) (file_bytes s f))))"

section \<open>pack\<close>

record ppart =
  pp_name :: string
  pp_projection :: string
  pp_part :: string
  pp_dtype :: string
  pp_shape :: "nat list"
  pp_offset :: int
  pp_bytes :: int

fun describe_from :: "xshards \<Rightarrow> nat \<Rightarrow> int \<Rightarrow> (string \<times> string) list \<Rightarrow> (ppart list \<times> int) res" where
  "describe_from s experts cursor [] = Inr ([], cursor)"
| "describe_from s experts cursor ((projection, part) # ps) =
     res_bind (shard_entry s (tensor_name 0 projection part)) (\<lambda>(f, offset, count, dt, shp).
     res_bind (per_expert count experts) (\<lambda>per.
     res_bind (describe_from s experts (cursor + per) ps) (\<lambda>(rest, sum_bytes).
       Inr (\<lparr>pp_name = projection @ ''.'' @ part, pp_projection = projection, pp_part = part,
             pp_dtype = dt, pp_shape = drop 1 shp, pp_offset = cursor, pp_bytes = per\<rparr> # rest,
            sum_bytes))))"

definition describe :: "xshards \<Rightarrow> nat \<Rightarrow> (ppart list \<times> int) res" where
  "describe s experts = describe_from s experts 0 PARTS"

record pmeta =
  pm_format :: string
  pm_layers :: int
  pm_experts :: nat
  pm_block :: int
  pm_layer_bytes :: int
  pm_page :: nat
  pm_pattern :: string
  pm_parts :: "ppart list"

definition FORMAT :: string where
  "FORMAT = ''edge0-expert-repack-v1''"

definition PAGE :: nat where
  "PAGE = 16384"

record disk =
  dfiles :: "(string \<times> u8 list) list"
  dmeta :: "pmeta option"
  dindex :: "(string \<times> string) list option"

text \<open>The number of layers: one more than the largest index in the weight map's switch names.\<close>

definition layer_index :: "string \<Rightarrow> int res" where
  "layer_index name = py_int (hd (split_sep ''.'' (split_sep ''.layers.'' name ! 1)))"

definition layer_count :: "xshards \<Rightarrow> int res" where
  "layer_count s =
     res_bind (res_map layer_index
         (filter (\<lambda>n. occurs ''.layers.'' n \<and> occurs ''.switch_mlp.'' n) (map fst (xwmap s))))
       (\<lambda>is. if is = [] then Inl ValueError else Inr (1 + Max (set is)))"

text \<open>
  One layer: the nine sources are looked up, then expert by expert and part by part the bytes are
  copied. The byte count accumulated beside them is the sum of the requested sizes.
\<close>

definition part_copy :: "xshards \<Rightarrow> nat \<Rightarrow> nat \<Rightarrow> entry_info \<Rightarrow> u8 list \<times> int" where
  "part_copy s experts expert = (\<lambda>(f, offset, count, dt, shp).
     let per = count div int experts; start = offset + int expert * per
     in (mm_slice start (start + per) (file_bytes s f), per))"

definition layer_copies :: "xshards \<Rightarrow> nat \<Rightarrow> entry_info list \<Rightarrow> (u8 list \<times> int) list" where
  "layer_copies s experts sources = concat (map (\<lambda>e. map (part_copy s experts e) sources) [0..<experts])"

definition put_file :: "string \<Rightarrow> u8 list \<Rightarrow> disk \<Rightarrow> disk" where
  "put_file path b d = d\<lparr>dfiles := AList.update path b (dfiles d)\<rparr>"

definition unlink_file :: "string \<Rightarrow> disk \<Rightarrow> disk" where
  "unlink_file path d = d\<lparr>dfiles := AList.delete path (dfiles d)\<rparr>"

definition rename_file :: "string \<Rightarrow> string \<Rightarrow> disk \<Rightarrow> disk" where
  "rename_file src dst d =
     (case map_of (dfiles d) src of
        None \<Rightarrow> d
      | Some b \<Rightarrow> put_file dst b (unlink_file src d))"

definition pack_layer :: "xshards \<Rightarrow> nat \<Rightarrow> int \<Rightarrow> nat \<Rightarrow> disk \<Rightarrow> disk \<times> unit res" where
  "pack_layer s experts per_layer layer d =
     (case res_map (\<lambda>(projection, part). shard_entry s (tensor_name layer projection part)) PARTS of
        Inl e \<Rightarrow> (d, Inl e)
      | Inr sources \<Rightarrow>
          let copies = layer_copies s experts sources;
              path = layer_file layer;
              temporary = path @ ''.partial'';
              d' = put_file temporary (concat (map fst copies)) d
          in if sum_list (map snd copies) \<noteq> per_layer then (unlink_file temporary d', Inl SystemExit)
             else (rename_file temporary path d', Inr ()))"

fun pack_layers :: "xshards \<Rightarrow> nat \<Rightarrow> int \<Rightarrow> nat list \<Rightarrow> disk \<Rightarrow> disk \<times> unit res" where
  "pack_layers s experts per_layer [] d = (d, Inr ())"
| "pack_layers s experts per_layer (l # ls) d =
     (case pack_layer s experts per_layer l d of
        (d', Inl e) \<Rightarrow> (d', Inl e)
      | (d', Inr u) \<Rightarrow> pack_layers s experts per_layer ls d')"

text \<open>\<open>free\<close> is what \<open>statvfs\<close> reports for the output directory.\<close>

definition pack :: "xshards \<Rightarrow> int \<Rightarrow> disk \<Rightarrow> disk \<times> unit res" where
  "pack s free d =
     (case res_bind (layer_count s) (\<lambda>layers.
           res_bind (shard_entry s (tensor_name 0 ''gate_proj'' ''weight'')) (\<lambda>(f, offset, count, dt, shape).
           res_bind (case shape of [] \<Rightarrow> Inl IndexError | n # _ \<Rightarrow> Inr n) (\<lambda>experts.
           res_bind (describe s experts) (\<lambda>(parts, block_bytes).
           let expected = layers * int experts * block_bytes
           in if free < expected then Inl SystemExit else Inr (layers, experts, parts, block_bytes))))) of
        Inl e \<Rightarrow> (d, Inl e)
      | Inr (layers, experts, parts, block_bytes) \<Rightarrow>
          let per_layer = int experts * block_bytes
          in case pack_layers s experts per_layer [0..<nat layers] d of
               (d', Inl e) \<Rightarrow> (d', Inl e)
             | (d', Inr u) \<Rightarrow>
                 (d'\<lparr>dmeta := Some \<lparr>pm_format = FORMAT, pm_layers = layers, pm_experts = experts,
                     pm_block = block_bytes, pm_layer_bytes = per_layer, pm_page = PAGE,
                     pm_pattern = ''experts-L%02d.bin'', pm_parts = parts\<rparr>\<rparr>, Inr ()))"

section \<open>verify\<close>

definition broken_layers :: "pmeta \<Rightarrow> disk \<Rightarrow> nat list" where
  "broken_layers m d =
     filter (\<lambda>l. case map_of (dfiles d) (layer_file l) of
                   None \<Rightarrow> True | Some b \<Rightarrow> int (length b) \<noteq> pm_layer_bytes m) [0..<nat (pm_layers m)]"

text \<open>
  The four corners, then a spread whose step the sample count decides; \<open>range(0, n, step)\<close> is the
  multiples of \<open>step\<close> below \<open>n\<close>. The corners' last indices may be \<open>-1\<close>.
\<close>

definition pick_step :: "int \<Rightarrow> int \<Rightarrow> int" where
  "pick_step n samples = max 1 (n div max 1 (samples - 4))"

definition picks :: "int \<Rightarrow> nat \<Rightarrow> int \<Rightarrow> (int \<times> int) list" where
  "picks layers experts samples =
     (let n = layers * int experts
      in [(0, 0), (0, int experts - 1), (layers - 1, 0), (layers - 1, int experts - 1)] @
         map (\<lambda>flat. (int (flat div experts), int (flat mod experts)))
           (filter (\<lambda>flat. nat (pick_step n samples) dvd flat) [0..<nat n]))"

fun check_parts :: "xshards \<Rightarrow> nat \<Rightarrow> nat \<Rightarrow> nat \<Rightarrow> u8 list \<Rightarrow> int \<Rightarrow> ppart list \<Rightarrow> unit res" where
  "check_parts s experts layer expert packed base [] = Inr ()"
| "check_parts s experts layer expert packed base (p # ps) =
     res_bind (slice_of s (tensor_name layer (pp_projection p) (pp_part p)) expert experts) (\<lambda>original.
       let start = base + pp_offset p
       in if mm_slice start (start + pp_bytes p) packed \<noteq> original then Inl SystemExit
          else check_parts s experts layer expert packed base ps)"

text \<open>
  One pick: the layer's file is opened and mapped. A file name with a negative index does not exist
  in the directory, and an empty file cannot be mapped.
\<close>

definition check_block :: "xshards \<Rightarrow> pmeta \<Rightarrow> disk \<Rightarrow> int \<times> int \<Rightarrow> unit res" where
  "check_block s m d = (\<lambda>(layer, expert).
     if layer < 0 then Inl FileNotFoundError
     else case map_of (dfiles d) (layer_file (nat layer)) of
            None \<Rightarrow> Inl FileNotFoundError
          | Some packed \<Rightarrow>
              if packed = [] then Inl ValueError
              else check_parts s (pm_experts m) (nat layer) (nat expert) packed (expert * pm_block m) (pm_parts m))"

definition verify :: "xshards \<Rightarrow> disk \<Rightarrow> int \<Rightarrow> nat res" where
  "verify s d samples =
     (case dmeta d of
        None \<Rightarrow> Inl FileNotFoundError
      | Some m \<Rightarrow>
          if pm_format m \<noteq> FORMAT then Inl SystemExit
          else if broken_layers m d \<noteq> [] then Inl SystemExit
          else let ps = picks (pm_layers m) (pm_experts m) samples
               in res_bind (res_map (check_block s m d) (sort_key fst (sort_key snd ps))) (\<lambda>us. Inr (length us)))"


section \<open>resident\<close>

text \<open>
  The tensors that are no routed expert, in name order, with the header of the file that will hold
  them. \<open>dumps\<close> is the JSON encoder.
\<close>

definition resident_names :: "xshards \<Rightarrow> string list" where
  "resident_names s = sort (filter (\<lambda>n. \<not> occurs ''.switch_mlp.'' n) (map fst (xwmap s)))"

fun resident_header :: "xshards \<Rightarrow> int \<Rightarrow> string list \<Rightarrow> (header \<times> int) res" where
  "resident_header s cursor [] = Inr ([], cursor)"
| "resident_header s cursor (n # ns) =
     res_bind (shard_entry s n) (\<lambda>(f, offset, count, dt, shp).
     res_bind (resident_header s (cursor + count) ns) (\<lambda>(h, data_size).
       Inr ((n, HTensor \<lparr>mdtype = dt, mshape = shp, mbegin = cursor, mend = cursor + count\<rparr>) # h, data_size)))"

definition source_bytes :: "xshards \<Rightarrow> string \<Rightarrow> u8 list res" where
  "source_bytes s n =
     res_bind (shard_entry s n) (\<lambda>(f, offset, count, dt, shp).
       Inr (mm_slice offset (offset + count) (file_bytes s f)))"

fun read_back :: "xshards \<Rightarrow> u8 list \<Rightarrow> int \<Rightarrow> header \<Rightarrow> unit res" where
  "read_back s packed base [] = Inr ()"
| "read_back s packed base ((n, v) # h) =
     (case v of
        HMeta m \<Rightarrow> Inl KeyError
      | HTensor t \<Rightarrow>
          res_bind (shard_entry s n) (\<lambda>(f, offset, count, dt, shp).
            let start = base + mbegin t
            in if mm_slice start (start + count) packed \<noteq> mm_slice offset (offset + count) (file_bytes s f)
               then Inl SystemExit else read_back s packed base h))"

definition resident :: "(header \<Rightarrow> u8 list) \<Rightarrow> xshards \<Rightarrow> disk \<Rightarrow> disk \<times> unit res" where
  "resident dumps s d =
     (let names = resident_names s; path = ''resident.safetensors''; temporary = path @ ''.partial''
      in case resident_header s 0 names of
           Inl e \<Rightarrow> (d, Inl e)
         | Inr (header, cursor) \<Rightarrow>
             let blob = dumps header
             in case pack_le 8 (length blob) of
                  Inl e \<Rightarrow> (put_file temporary [] d, Inl e)
                | Inr len \<Rightarrow>
                    (case res_map (source_bytes s) names of
                       Inl e \<Rightarrow> (put_file temporary (len @ blob) d, Inl e)
                     | Inr bs \<Rightarrow>
                         let packed = len @ blob @ concat bs;
                             d' = rename_file temporary path (put_file temporary packed d);
                             d'' = d'\<lparr>dindex := Some (map (\<lambda>n. (n, path)) names)\<rparr>
                         in (d'', read_back s packed (8 + int (length blob)) header)))"

section \<open>The packed layer files\<close>

lemma parse_nat_pad: "parse_nat ((if n < 10 then ''0'' else []) @ show_nat n) = n"
  using parse_show_nat [of n] by (simp add: parse_nat_def)

lemma layer_file_inj [simp]: "layer_file l = layer_file k \<longleftrightarrow> l = k"
proof
  assume "layer_file l = layer_file k"
  then have "((if l < 10 then ''0'' else []) @ show_nat l) @ ''.bin'' = ((if k < 10 then ''0'' else []) @ show_nat k) @ ''.bin''"
    unfolding layer_file_def same_append_eq by (simp only: append_assoc)
  then have "(if l < 10 then ''0'' else []) @ show_nat l = (if k < 10 then ''0'' else []) @ show_nat k"
    by (simp only: append_same_eq)
  then have "parse_nat ((if l < 10 then ''0'' else []) @ show_nat l) = parse_nat ((if k < 10 then ''0'' else []) @ show_nat k)"
    by (rule arg_cong)
  then show "l = k" by (simp only: parse_nat_pad)
qed simp

lemma layer_file_partial [simp]: "layer_file l \<noteq> layer_file k @ ''.partial''" "layer_file k @ ''.partial'' \<noteq> layer_file l"
proof -
  show "layer_file l \<noteq> layer_file k @ ''.partial''"
  proof
    assume "layer_file l = layer_file k @ ''.partial''"
    then have "last (layer_file l) = last (layer_file k @ ''.partial'')" by (rule arg_cong)
    then show False by (simp add: layer_file_def)
  qed
  then show "layer_file k @ ''.partial'' \<noteq> layer_file l" by (rule not_sym)
qed

lemma put_file_lookup: "map_of (dfiles (put_file p b d)) = (map_of (dfiles d))(p \<mapsto> b)"
  by (simp add: put_file_def)

lemma rename_file_lookup:
  "map_of (dfiles d) src = Some b \<Longrightarrow> src \<noteq> dst \<Longrightarrow>
     map_of (dfiles (rename_file src dst d)) = (map_of (dfiles d))(src := None, dst \<mapsto> b)"
  by (simp add: rename_file_def put_file_def unlink_file_def)

text \<open>
  A stacked tensor that can be sliced: it lies in its file and is \<open>experts\<close> slices of \<open>k\<close> bytes.
  A packable model has the nine of every layer, of the sizes \<open>ks\<close>.
\<close>

definition sliceable :: "xshards \<Rightarrow> nat \<Rightarrow> nat \<Rightarrow> string \<times> string \<Rightarrow> nat \<Rightarrow> bool" where
  "sliceable s experts layer = (\<lambda>(projection, part) k.
     case shard_entry s (tensor_name layer projection part) of
       Inl e \<Rightarrow> False
     | Inr (f, offset, count, dt, shp) \<Rightarrow>
         0 \<le> offset \<and> count = int experts * int k \<and> offset + count \<le> int (length (file_bytes s f)))"

definition packable :: "xshards \<Rightarrow> nat \<Rightarrow> nat \<Rightarrow> nat list \<Rightarrow> bool" where
  "packable s layers experts ks \<longleftrightarrow>
     0 < experts \<and> 0 < sum_list ks \<and> (\<forall>l<layers. list_all2 (sliceable s experts l) PARTS ks)"

definition the_slice :: "xshards \<Rightarrow> nat \<Rightarrow> nat \<Rightarrow> nat \<Rightarrow> string \<times> string \<Rightarrow> u8 list" where
  "the_slice s experts layer expert = (\<lambda>(projection, part).
     case slice_of s (tensor_name layer projection part) expert experts of Inl e \<Rightarrow> [] | Inr b \<Rightarrow> b)"

definition expert_block :: "xshards \<Rightarrow> nat \<Rightarrow> nat \<Rightarrow> nat \<Rightarrow> u8 list" where
  "expert_block s experts layer expert = concat (map (the_slice s experts layer expert) PARTS)"

lemma sliceableE:
  assumes "sliceable s experts layer (pr, pa) k" "0 < experts"
  obtains f offset dt shp where "shard_entry s (tensor_name layer pr pa) = Inr (f, offset, int experts * int k, dt, shp)"
    "0 \<le> offset" "offset + int experts * int k \<le> int (length (file_bytes s f))"
    "\<And>e. e < experts \<Longrightarrow> slice_of s (tensor_name layer pr pa) e experts
        = Inr (mm_slice (offset + int e * int k) (offset + int e * int k + int k) (file_bytes s f))"
    "\<And>e. e < experts \<Longrightarrow> length (the_slice s experts layer e (pr, pa)) = k"
proof -
  obtain f offset dt shp where e: "shard_entry s (tensor_name layer pr pa) = Inr (f, offset, int experts * int k, dt, shp)"
    "0 \<le> offset" "offset + int experts * int k \<le> int (length (file_bytes s f))"
    using assms(1) by (auto simp: sliceable_def split: sum.splits)
  have sl: "slice_of s (tensor_name layer pr pa) i experts
        = Inr (mm_slice (offset + int i * int k) (offset + int i * int k + int k) (file_bytes s f))" for i
    using assms(2) by (simp add: slice_of_def e per_expert_def Let_def)
  have len: "length (the_slice s experts layer i (pr, pa)) = k" if "i < experts" for i
  proof -
    have "(i + 1) * k \<le> experts * k" using that by (intro mult_right_mono) auto
    then have "int i * int k + int k \<le> int experts * int k"
      by (simp flip: of_nat_mult of_nat_add add: algebra_simps)
    then have "int (length (the_slice s experts layer i (pr, pa))) = int k"
      using e by (simp add: the_slice_def sl length_mm_slice)
    then show ?thesis by simp
  qed
  show thesis by (rule that [OF e sl len])
qed

lemma sliceable_copies:
  assumes "list_all2 (sliceable s experts layer) ps ks" "0 < experts"
  shows "\<exists>es. res_map (\<lambda>(projection, part). shard_entry s (tensor_name layer projection part)) ps = Inr es
    \<and> (\<forall>e. map (part_copy s experts e) es
         = map (\<lambda>(p, k). (the_slice s experts layer e p, int k)) (zip ps ks))"
  using assms
proof (induction rule: list_all2_induct)
  case (Cons p ps k ks)
  obtain pr pa where p: "p = (pr, pa)" by (cases p)
  from Cons obtain es where es: "res_map (\<lambda>(projection, part). shard_entry s (tensor_name layer projection part)) ps = Inr es"
    "\<And>e. map (part_copy s experts e) es = map (\<lambda>(p, k). (the_slice s experts layer e p, int k)) (zip ps ks)" by auto
  from Cons(1) obtain f offset dt shp where en: "shard_entry s (tensor_name layer pr pa) = Inr (f, offset, int experts * int k, dt, shp)"
    unfolding p sliceable_def by (auto split: sum.splits)
  then have "part_copy s experts e (f, offset, int experts * int k, dt, shp) = (the_slice s experts layer e p, int k)" for e
    using Cons.prems by (simp add: p part_copy_def the_slice_def slice_of_def per_expert_def Let_def)
  then show ?case using es en by (simp add: p)
qed simp

lemma sliceable_block:
  assumes "list_all2 (sliceable s experts layer) ps ks" "0 < experts" "e < experts"
  shows "length (concat (map (the_slice s experts layer e) ps)) = sum_list ks"
  using assms
proof (induction rule: list_all2_induct)
  case (Cons p ps k ks)
  obtain pr pa where p: "p = (pr, pa)" by (cases p)
  have "length (the_slice s experts layer e p) = k"
    using Cons(1) Cons.prems unfolding p by (elim sliceableE) auto
  with Cons show ?case by simp
qed simp


lemma int_sum_list: "sum_list (map int ks) = int (sum_list ks)"
  by (induction ks) simp_all

lemma concat_concat_map: "concat (concat (map f xs)) = concat (map (\<lambda>x. concat (f x)) xs)"
  by (induction xs) simp_all

lemma sum_list_concat_map: "sum_list (concat (map f xs)) = (\<Sum>x\<leftarrow>xs. sum_list (f x))"
  by (induction xs) simp_all

text \<open>The layer file holds the experts' blocks in order, and the byte count that \<open>pack\<close> checks is their length.\<close>

lemma pack_layer_ok:
  assumes "list_all2 (sliceable s experts layer) PARTS ks" "0 < experts"
  shows "\<exists>d'. pack_layer s experts (int experts * int (sum_list ks)) layer d = (d', Inr ()) \<and>
    map_of (dfiles d') = (map_of (dfiles d))(layer_file layer @ ''.partial'' := None,
       layer_file layer \<mapsto> concat (map (expert_block s experts layer) [0..<experts]))"
proof -
  obtain es where es: "res_map (\<lambda>(projection, part). shard_entry s (tensor_name layer projection part)) PARTS = Inr es"
    "\<And>e. map (part_copy s experts e) es = map (\<lambda>(p, k). (the_slice s experts layer e p, int k)) (zip PARTS ks)"
    using sliceable_copies [OF assms] by blast
  have len: "length PARTS = length ks" using assms(1) by (rule list_all2_lengthD)
  have cs: "layer_copies s experts es
      = concat (map (\<lambda>e. map (\<lambda>(p, k). (the_slice s experts layer e p, int k)) (zip PARTS ks)) [0..<experts])"
    by (simp add: layer_copies_def es)
  have one: "map (\<lambda>x. fst (case x of (p, k) \<Rightarrow> (the_slice s experts layer e p, int k))) (zip PARTS ks) = map (the_slice s experts layer e) PARTS"
    for e using len by (intro nth_equalityI) (simp_all add: split_beta)
  have two: "map (\<lambda>x. snd (case x of (p, k) \<Rightarrow> (the_slice s experts layer e p, int k))) (zip PARTS ks) = map int ks"
    for e using len by (intro nth_equalityI) (simp_all add: split_beta)
  have fsts: "concat (map fst (layer_copies s experts es)) = concat (map (expert_block s experts layer) [0..<experts])"
    unfolding cs map_concat list.map_comp comp_def one concat_concat_map expert_block_def ..
  have "sum_list (map snd (layer_copies s experts es)) = (\<Sum>e\<leftarrow>[0..<experts]. sum_list (map int ks))"
    unfolding cs map_concat list.map_comp comp_def two sum_list_concat_map ..
  then have snds: "sum_list (map snd (layer_copies s experts es)) = int experts * int (sum_list ks)"
    by (simp add: sum_list_triv int_sum_list)
  show ?thesis
    by (simp add: pack_layer_def es(1) Let_def fsts snds put_file_lookup rename_file_lookup fun_upd_twist)
qed


definition layer_bytes :: "xshards \<Rightarrow> nat \<Rightarrow> nat \<Rightarrow> u8 list" where
  "layer_bytes s experts layer = concat (map (expert_block s experts layer) [0..<experts])"

lemma pack_layers_ok:
  assumes "\<forall>l\<in>set ls. list_all2 (sliceable s experts l) PARTS ks" "0 < experts"
  shows "\<exists>d'. pack_layers s experts (int experts * int (sum_list ks)) ls d = (d', Inr ()) \<and>
    (\<forall>l\<in>set ls. map_of (dfiles d') (layer_file l) = Some (layer_bytes s experts l)) \<and>
    (\<forall>l. l \<notin> set ls \<longrightarrow> map_of (dfiles d') (layer_file l) = map_of (dfiles d) (layer_file l))"
  using assms
proof (induction ls arbitrary: d)
  case (Cons l ls)
  obtain d1 where one: "pack_layer s experts (int experts * int (sum_list ks)) l d = (d1, Inr ())"
    "map_of (dfiles d1) = (map_of (dfiles d))(layer_file l @ ''.partial'' := None, layer_file l \<mapsto> layer_bytes s experts l)"
    using pack_layer_ok [of s experts l ks d] Cons.prems by (auto simp: layer_bytes_def)
  obtain d' where rest: "pack_layers s experts (int experts * int (sum_list ks)) ls d1 = (d', Inr ())"
    "\<forall>l\<in>set ls. map_of (dfiles d') (layer_file l) = Some (layer_bytes s experts l)"
    "\<forall>l. l \<notin> set ls \<longrightarrow> map_of (dfiles d') (layer_file l) = map_of (dfiles d1) (layer_file l)"
    using Cons.IH [of d1] Cons.prems by auto
  have "pack_layers s experts (int experts * int (sum_list ks)) (l # ls) d = (d', Inr ())"
    by (simp add: one(1) rest(1))
  moreover have "map_of (dfiles d') (layer_file l) = Some (layer_bytes s experts l)"
    using rest(2,3) one(2) by (cases "l \<in> set ls") simp_all
  ultimately show ?case using rest(2,3) one(2) by auto
qed simp

lemma describe_ok:
  assumes "list_all2 (sliceable s experts 0) ps ks" "0 < experts"
  shows "\<exists>parts. describe_from s experts cursor ps = Inr (parts, cursor + int (sum_list ks))"
  using assms
proof (induction arbitrary: cursor rule: list_all2_induct)
  case (Cons p ps k ks)
  obtain pr pa where p: "p = (pr, pa)" by (cases p)
  obtain f offset dt shp where en: "shard_entry s (tensor_name 0 pr pa) = Inr (f, offset, int experts * int k, dt, shp)"
    using Cons(1) unfolding p sliceable_def by (auto split: sum.splits)
  obtain parts where "describe_from s experts (cursor + int k) ps = Inr (parts, cursor + int k + int (sum_list ks))"
    using Cons by blast
  then show ?case using Cons.prems by (simp add: p en per_expert_def)
qed simp

text \<open>Every part of a block is found in the packed file at the offset the layout gives it.\<close>

lemma check_parts_ok:
  assumes "list_all2 (sliceable s experts 0) ps ks" "list_all2 (sliceable s experts layer) ps ks" "e < experts"
    "describe_from s experts cursor ps = Inr (parts, c)"
    "packed = pre @ concat (map (the_slice s experts layer e) ps) @ post" "int (length pre) = base + cursor"
  shows "check_parts s experts layer e packed base parts = Inr ()"
  using assms
proof (induction arbitrary: cursor parts pre rule: list_all2_induct)
  case (Cons p ps k ks)
  obtain pr pa where p: "p = (pr, pa)" by (cases p)
  obtain f offset dt shp where en: "shard_entry s (tensor_name 0 pr pa) = Inr (f, offset, int experts * int k, dt, shp)"
    using Cons(1) unfolding p sliceable_def by (auto split: sum.splits)
  have "sliceable s experts layer (pr, pa) k" using Cons.prems(1) p by simp
  moreover have "0 < experts" using Cons.prems by simp
  ultimately obtain sl where sl: "slice_of s (tensor_name layer pr pa) e experts = Inr sl"
    "length sl = k" "the_slice s experts layer e (pr, pa) = sl"
    using Cons.prems(2) by (elim sliceableE) (auto simp: the_slice_def)
  obtain rest where rest: "describe_from s experts (cursor + int k) ps = Inr (rest, c)"
    "parts = \<lparr>pp_name = pr @ ''.'' @ pa, pp_projection = pr, pp_part = pa, pp_dtype = dt,
      pp_shape = drop 1 shp, pp_offset = cursor, pp_bytes = int k\<rparr> # rest"
    using Cons.prems by (auto simp: p en per_expert_def res_bind_Inr_iff)
  have "mm_slice (base + cursor) (base + cursor + int k) packed = sl"
    using Cons.prems(4,5) sl unfolding p by (simp add: mm_slice_middle)
  moreover have "check_parts s experts layer e packed base rest = Inr ()"
  proof (rule Cons.IH [OF _ _ rest(1)])
    show "packed = (pre @ sl) @ concat (map (the_slice s experts layer e) ps) @ post"
      using Cons.prems(4) sl unfolding p by simp
    show "int (length (pre @ sl)) = base + (cursor + int k)" using Cons.prems(5) sl by simp
  qed (use Cons.prems in auto)
  ultimately show ?case by (simp add: rest(2) sl(1))
qed simp

lemma length_blocks:
  assumes "list_all2 (sliceable s experts layer) PARTS ks" "n \<le> experts"
  shows "length (concat (map (expert_block s experts layer) [0..<n])) = n * sum_list ks"
proof -
  have "length (expert_block s experts layer e) = sum_list ks" if "e < n" for e
    using sliceable_block [OF assms(1), of e] that assms(2) by (simp add: expert_block_def)
  then have "map (length \<circ> expert_block s experts layer) [0..<n] = map (\<lambda>e. sum_list ks) [0..<n]" by simp
  then show ?thesis by (simp add: length_concat sum_list_triv del: map_eq_conv)
qed

lemma layer_bytes_at:
  assumes "list_all2 (sliceable s experts layer) PARTS ks" "e < experts"
  obtains pre post where "layer_bytes s experts layer = pre @ expert_block s experts layer e @ post"
    "length pre = e * sum_list ks"
proof
  have "[0..<experts] = [0..<e] @ e # [Suc e..<experts]"
    using assms(2) upt_add_eq_append [of 0 e "experts - e"] by (simp add: upt_conv_Cons)
  then show "layer_bytes s experts layer = concat (map (expert_block s experts layer) [0..<e])
      @ expert_block s experts layer e @ concat (map (expert_block s experts layer) [Suc e..<experts])"
    by (simp add: layer_bytes_def)
  show "length (concat (map (expert_block s experts layer) [0..<e])) = e * sum_list ks"
    using assms by (intro length_blocks) auto
qed


lemma check_block_ok:
  assumes "packable s layers experts ks" "l < layers" "e < experts"
    "map_of (dfiles d) (layer_file l) = Some (layer_bytes s experts l)"
    "describe s experts = Inr (parts, c)" "pm_parts m = parts" "pm_experts m = experts" "pm_block m = int (sum_list ks)"
  shows "check_block s m d (int l, int e) = Inr ()"
proof -
  have st: "list_all2 (sliceable s experts l) PARTS ks" "list_all2 (sliceable s experts 0) PARTS ks"
    using assms(1,2) by (auto simp: packable_def)
  obtain pre post where at: "layer_bytes s experts l = pre @ expert_block s experts l e @ post" "length pre = e * sum_list ks"
    using st(1) assms(3) by (rule layer_bytes_at)
  have "length (expert_block s experts l e) = sum_list ks"
    using sliceable_block [OF st(1) _ assms(3)] assms(3) by (simp add: expert_block_def)
  moreover have "0 < sum_list ks" using assms(1) by (simp add: packable_def)
  ultimately have "0 < length (layer_bytes s experts l)" unfolding at(1) by simp
  then have "layer_bytes s experts l \<noteq> []" by (rule length_greater_0_conv [THEN iffD1])
  moreover have "check_parts s experts l e (layer_bytes s experts l) (int e * int (sum_list ks)) parts = Inr ()"
    by (rule check_parts_ok [OF st(2,1) assms(3) assms(5) [unfolded describe_def], of _ pre post])
      (use at in \<open>simp_all add: expert_block_def\<close>)
  ultimately show ?thesis using assms(4,6,7,8) by (simp add: check_block_def)
qed

text \<open>The picks are blocks of the model.\<close>

lemma picks_range:
  assumes "0 < layers" "0 < experts" "p \<in> set (picks (int layers) experts samples)"
  shows "\<exists>l e. p = (int l, int e) \<and> l < layers \<and> e < experts"
proof -
  have corner: "\<exists>l e. (int a, int b) = (int l, int e) \<and> l < layers \<and> e < experts" if "a < layers" "b < experts" for a b
    using that by blast
  have "flat div experts < layers" if "flat < layers * experts" for flat
    using that by (simp add: less_mult_imp_div_less)
  moreover have "nat (int layers * int experts) = layers * experts" by (simp flip: of_nat_mult)
  moreover have "int experts - 1 = int (experts - 1)" "int layers - 1 = int (layers - 1)" using assms(1,2) by simp_all
  ultimately show ?thesis
    using assms corner [of 0 0] corner [of 0 "experts - 1"] corner [of "layers - 1" 0] corner [of "layers - 1" "experts - 1"]
    by (auto simp: picks_def Let_def)
qed

lemma pack_run:
  assumes "packable s layers experts ks" "layer_count s = Inr (int layers)" "0 < layers"
    "shard_entry s (tensor_name 0 ''gate_proj'' ''weight'') = Inr (f, off, n, dt, experts # shp)"
    "int layers * int experts * int (sum_list ks) \<le> free"
  shows "\<exists>d' m. pack s free d = (d', Inr ()) \<and> dmeta d' = Some m \<and>
    pm_layers m = int layers \<and> pm_experts m = experts \<and> pm_block m = int (sum_list ks) \<and>
    pm_layer_bytes m = int experts * int (sum_list ks) \<and>
    (\<forall>l<layers. \<exists>file. map_of (dfiles d') (layer_file l) = Some file \<and>
       (\<forall>e<experts. take (sum_list ks) (drop (e * sum_list ks) file) = concat (map (the_slice s experts l e) PARTS))) \<and>
    (\<exists>k. verify s d' samples = Inr k)"
proof -
  have st: "\<forall>l\<in>set [0..<layers]. list_all2 (sliceable s experts l) PARTS ks" and pos: "0 < experts"
    using assms(1) by (auto simp: packable_def)
  obtain parts where parts: "describe s experts = Inr (parts, int (sum_list ks))"
    using describe_ok [of s experts PARTS ks 0] st assms(3) pos by (auto simp: describe_def)
  obtain d1 where d1: "pack_layers s experts (int experts * int (sum_list ks)) [0..<layers] d = (d1, Inr ())"
    "\<forall>l\<in>set [0..<layers]. map_of (dfiles d1) (layer_file l) = Some (layer_bytes s experts l)"
    using pack_layers_ok [OF st pos] by blast
  let ?m = "\<lparr>pm_format = FORMAT, pm_layers = int layers, pm_experts = experts, pm_block = int (sum_list ks),
    pm_layer_bytes = int experts * int (sum_list ks), pm_page = PAGE, pm_pattern = ''experts-L%02d.bin'', pm_parts = parts\<rparr>"
  let ?d = "d1\<lparr>dmeta := Some ?m\<rparr>"
  have "pack s free d = (?d, Inr ())"
    using assms(5) by (simp add: pack_def assms(2,4) parts d1(1) Let_def)
  moreover have "take (sum_list ks) (drop (e * sum_list ks) (layer_bytes s experts l)) = concat (map (the_slice s experts l e) PARTS)"
    if le: "l < layers" "e < experts" for l e
  proof -
    have l: "list_all2 (sliceable s experts l) PARTS ks" using st le(1) by simp
    obtain pre post where "layer_bytes s experts l = pre @ expert_block s experts l e @ post" "length pre = e * sum_list ks"
      using l le(2) by (rule layer_bytes_at)
    then show ?thesis using sliceable_block [OF l pos le(2)] by (simp add: expert_block_def)
  qed
  moreover have "\<exists>k. verify s ?d samples = Inr k"
  proof -
    have "broken_layers ?m ?d = []"
      using d1(2) length_blocks [of s experts _ ks experts] st by (simp add: broken_layers_def filter_empty_conv layer_bytes_def)
    moreover have "check_block s ?m ?d p = Inr ()" if "p \<in> set (picks (int layers) experts samples)" for p
      using picks_range [OF assms(3) pos that] check_block_ok [OF assms(1) _ _ _ parts, of _ _ ?d ?m] d1(2) by auto
    then have "res_map (check_block s ?m ?d) (sort_key fst (sort_key snd (picks (int layers) experts samples)))
        = Inr (map (\<lambda>p. ()) (sort_key fst (sort_key snd (picks (int layers) experts samples))))"
      by (intro res_map_all_Inr) simp
    ultimately show ?thesis by (simp add: verify_def)
  qed
  ultimately show ?thesis using d1(2) by (intro exI [of _ ?d] exI [of _ ?m]) simp
qed

text \<open>
  C14: packing is lossless. When every layer has the nine stacked tensors, sliceable and of the same sizes
  in each layer, and the disk has room, \<open>pack\<close> succeeds; then the block of every expert of every layer is
  found at \<open>expert * block_bytes\<close> of its layer's file and is exactly the nine slices of that expert, and
  \<open>verify\<close> accepts the result for every sample count.
\<close>

theorem pack_lossless:
  assumes "packable s layers experts ks" "layer_count s = Inr (int layers)" "0 < layers"
    "shard_entry s (tensor_name 0 ''gate_proj'' ''weight'') = Inr (f, off, n, dt, experts # shp)"
    "int layers * int experts * int (sum_list ks) \<le> free"
  shows "\<exists>d'. pack s free d = (d', Inr ()) \<and>
    (\<forall>l<layers. \<exists>file. map_of (dfiles d') (layer_file l) = Some file \<and>
       (\<forall>e<experts. take (sum_list ks) (drop (e * sum_list ks) file) = concat (map (the_slice s experts l e) PARTS))) \<and>
    (\<exists>k. verify s d' samples = Inr k)"
  using pack_run [OF assms, of d samples] by (elim exE conjE) (intro exI conjI, assumption+)


section \<open>What an accepted verification means\<close>

lemma res_map_Inr_all: "res_map f xs = Inr ys \<Longrightarrow> x \<in> set xs \<Longrightarrow> \<exists>y. f x = Inr y"
  by (induction xs arbitrary: ys) (auto split: sum.splits)

lemma check_parts_sound:
  "check_parts s experts layer e packed base parts = Inr () \<Longrightarrow> p \<in> set parts \<Longrightarrow>
     slice_of s (tensor_name layer (pp_projection p) (pp_part p)) e experts
       = Inr (mm_slice (base + pp_offset p) (base + pp_offset p + pp_bytes p) packed)"
  by (induction parts) (auto simp: res_bind_Inr_iff Let_def split: if_splits)

lemma picks_cover:
  assumes "l < layers" "e < experts"
    "l \<in> {0, layers - 1} \<and> e \<in> {0, experts - 1} \<or> int layers * int experts \<le> samples - 4"
  shows "(int l, int e) \<in> set (picks (int layers) experts samples)"
proof (cases "l \<in> {0, layers - 1} \<and> e \<in> {0, experts - 1}")
  case True
  then show ?thesis using assms(1,2) by (auto simp: picks_def Let_def)
next
  case False
  then have big: "int layers * int experts \<le> samples - 4" using assms(3) by blast
  have "(l + 1) * experts \<le> layers * experts" using assms(1) by (intro mult_right_mono) auto
  then have flat: "l * experts + e < layers * experts" using assms(2) by simp
  then have pos: "0 < int layers * int experts" using assms(1,2) by simp
  have "int layers * int experts div max 1 (samples - 4) \<le> 1"
  proof (cases "int layers * int experts = samples - 4")
    case True
    with pos show ?thesis by simp
  next
    case False
    then show ?thesis using pos big by (simp add: div_pos_pos_trivial)
  qed
  then have "pick_step (int layers * int experts) samples = 1" by (simp add: pick_step_def)
  moreover have "l * experts + e < nat (int layers * int experts)" using flat by (simp flip: of_nat_mult)
  moreover have "(l * experts + e) div experts = l" "(l * experts + e) mod experts = e" using assms(2) by simp_all
  ultimately show ?thesis unfolding picks_def Let_def set_append set_map
    by (intro UnI2 image_eqI [of _ _ "l * experts + e"]) simp_all
qed


section \<open>The resident file is read back\<close>

definition in_file :: "xshards \<Rightarrow> string \<Rightarrow> bool" where
  "in_file s n = (case shard_entry s n of
     Inl e \<Rightarrow> False
   | Inr (f, offset, count, dt, shp) \<Rightarrow> 0 \<le> offset \<and> 0 \<le> count \<and> offset + count \<le> int (length (file_bytes s f)))"

definition bytes_in :: "xshards \<Rightarrow> string \<Rightarrow> u8 list" where
  "bytes_in s n = (case source_bytes s n of Inl e \<Rightarrow> [] | Inr b \<Rightarrow> b)"

lemma in_fileE:
  assumes "in_file s n"
  obtains f offset dt shp where "shard_entry s n = Inr (f, offset, int (length (bytes_in s n)), dt, shp)"
    "mm_slice offset (offset + int (length (bytes_in s n))) (file_bytes s f) = bytes_in s n"
    "source_bytes s n = Inr (bytes_in s n)"
proof -
  obtain f offset count dt shp where e: "shard_entry s n = Inr (f, offset, count, dt, shp)"
    "0 \<le> offset" "0 \<le> count" "offset + count \<le> int (length (file_bytes s f))"
    using assms by (auto simp: in_file_def split: sum.splits)
  have b: "source_bytes s n = Inr (mm_slice offset (offset + count) (file_bytes s f))"
    by (simp add: source_bytes_def e)
  then have "int (length (bytes_in s n)) = count" using e by (simp add: bytes_in_def length_mm_slice)
  then show thesis using that e(1) b by (simp add: bytes_in_def)
qed

text \<open>The header lays the tensors out back to back, and the file's bytes are theirs.\<close>

fun laid_out :: "xshards \<Rightarrow> int \<Rightarrow> string list \<Rightarrow> header" where
  "laid_out s c [] = []"
| "laid_out s c (n # ns) =
     (case shard_entry s n of
        Inl e \<Rightarrow> []
      | Inr (f, offset, count, dt, shp) \<Rightarrow>
          (n, HTensor \<lparr>mdtype = dt, mshape = shp, mbegin = c, mend = c + count\<rparr>) # laid_out s (c + count) ns)"

lemma resident_header_ok:
  "\<forall>n\<in>set ns. in_file s n \<Longrightarrow>
     resident_header s c ns = Inr (laid_out s c ns, c + int (length (concat (map (bytes_in s) ns))))"
proof (induction ns arbitrary: c)
  case (Cons n ns)
  then have "in_file s n" by simp
  then obtain f offset dt shp where "shard_entry s n = Inr (f, offset, int (length (bytes_in s n)), dt, shp)" by (rule in_fileE)
  then show ?case using Cons by simp
qed simp

lemma read_back_ok:
  assumes "\<forall>n\<in>set ns. in_file s n" "packed = pre @ concat (map (bytes_in s) ns)" "int (length pre) = base + c"
  shows "read_back s packed base (laid_out s c ns) = Inr ()"
  using assms
proof (induction ns arbitrary: c pre)
  case (Cons n ns)
  have "in_file s n" using Cons.prems by simp
  then obtain f offset dt shp where e: "shard_entry s n = Inr (f, offset, int (length (bytes_in s n)), dt, shp)"
    "mm_slice offset (offset + int (length (bytes_in s n))) (file_bytes s f) = bytes_in s n" by (rule in_fileE)
  have "mm_slice (base + c) (base + c + int (length (bytes_in s n))) packed = bytes_in s n"
    using Cons.prems(2,3) by (simp add: mm_slice_middle)
  moreover have "read_back s packed base (laid_out s (c + int (length (bytes_in s n))) ns) = Inr ()"
    by (rule Cons.IH [of "pre @ bytes_in s n"]) (use Cons.prems in auto)
  ultimately show ?case by (simp add: e Let_def)
qed simp

lemma mmap_entries_laid_out:
  assumes "\<forall>n\<in>set ns. in_file s n \<and> n \<noteq> ''__metadata__''" "distinct ns" "\<forall>n\<in>set ns. map_of acc n = None"
    "packed = pre @ concat (map (bytes_in s) ns)" "int (length pre) = base + c"
  shows "\<exists>es. mmap_entries base (laid_out s c ns) acc = Inr es \<and>
    (\<forall>n. n \<notin> set ns \<longrightarrow> map_of es n = map_of acc n) \<and>
    (\<forall>n\<in>set ns. \<exists>en. map_of es n = Some en \<and> frombuffer packed (esize en) (eoffset en) = Inr (bytes_in s n))"
  using assms
proof (induction ns arbitrary: c pre acc)
  case (Cons n ns)
  have "in_file s n" using Cons.prems by simp
  then obtain f offset dt shp where e: "shard_entry s n = Inr (f, offset, int (length (bytes_in s n)), dt, shp)"
    by (rule in_fileE)
  let ?en = "\<lparr>eoffset = base + c, esize = int (length (bytes_in s n)), edtype = dt, eshape = shp\<rparr>"
  obtain es where es: "mmap_entries base (laid_out s (c + int (length (bytes_in s n))) ns) (AList.update n ?en acc) = Inr es"
    "\<forall>m. m \<notin> set ns \<longrightarrow> map_of es m = map_of (AList.update n ?en acc) m"
    "\<forall>m\<in>set ns. \<exists>en. map_of es m = Some en \<and> frombuffer packed (esize en) (eoffset en) = Inr (bytes_in s m)"
  proof (atomize_elim, rule Cons.IH)
    show "\<forall>n\<in>set ns. in_file s n \<and> n \<noteq> ''__metadata__''" "distinct ns" using Cons.prems(1,2) by simp_all
    show "\<forall>m\<in>set ns. map_of (AList.update n ?en acc) m = None" using Cons.prems(2,3) by auto
    show "packed = (pre @ bytes_in s n) @ concat (map (bytes_in s) ns)" using Cons.prems(4) by simp
    show "int (length (pre @ bytes_in s n)) = base + (c + int (length (bytes_in s n)))" using Cons.prems(5) by simp
  qed
  have "frombuffer packed (esize ?en) (eoffset ?en) = Inr (bytes_in s n)"
    using Cons.prems(4,5) by (simp add: frombuffer_def flip: Cons.prems(5))
  moreover have "map_of es n = Some ?en" using es(2) Cons.prems(2) by simp
  ultimately show ?case using es Cons.prems by (intro exI [of _ es]) (auto simp: e)
qed simp

text \<open>
  C21: the resident file replaces the shards. When every tensor that is no routed expert lies in its shard,
  \<open>resident\<close> succeeds, its own read-back included; the file it leaves opens with the runtime's
  \<open>SafetensorsMmap\<close>, which returns for each of these tensors exactly the bytes of the original shards, and the
  written index names the file for each.
\<close>

theorem resident_reads_back:
  assumes "\<forall>n\<in>set (resident_names s). in_file s n \<and> n \<noteq> ''__metadata__''" "distinct (map fst (xwmap s))"
    "\<And>h c. resident_header s 0 (resident_names s) = Inr (h, c) \<Longrightarrow> loads (dumps h) = Inr h \<and> length (dumps h) < 256 ^ 8"
  shows "\<exists>d' file sh index. resident dumps s d = (d', Inr ()) \<and>
    map_of (dfiles d') ''resident.safetensors'' = Some file \<and> dindex d' = Some index \<and> mmap_open loads file = Inr sh \<and>
    (\<forall>n\<in>set (resident_names s). \<exists>b. source_bytes s n = Inr b \<and> mmap_raw sh n = Inr b \<and>
       map_of index n = Some ''resident.safetensors'')"
proof -
  let ?ns = "resident_names s"
  let ?h = "laid_out s 0 ?ns" and ?data = "concat (map (bytes_in s) ?ns)"
  have ok: "\<forall>n\<in>set ?ns. in_file s n" using assms(1) by blast
  have hd: "resident_header s 0 ?ns = Inr (?h, int (length ?data))" using resident_header_ok [OF ok, of 0] by simp
  then have js: "loads (dumps ?h) = Inr ?h" "length (dumps ?h) < 256 ^ 8" using assms(3) by blast+
  let ?len = "le_bytes 8 (length (dumps ?h))"
  let ?file = "?len @ dumps ?h @ ?data"
  have bs: "res_map (source_bytes s) ?ns = Inr (map (bytes_in s) ?ns)"
    by (rule res_map_all_Inr) (use ok in \<open>auto elim: in_fileE\<close>)
  have again: "read_back s ?file (8 + int (length (dumps ?h))) ?h = Inr ()"
    by (rule read_back_ok [OF ok, where pre = "?len @ dumps ?h"]) simp_all
  have dist: "distinct ?ns" using assms(2) by (simp add: resident_names_def distinct_filter)
  obtain es where es: "mmap_entries (8 + int (length (dumps ?h))) ?h [] = Inr es"
    "\<forall>n\<in>set ?ns. \<exists>en. map_of es n = Some en \<and> frombuffer ?file (esize en) (eoffset en) = Inr (bytes_in s n)"
    using mmap_entries_laid_out [OF assms(1) dist, of "[]" ?file "?len @ dumps ?h" "8 + int (length (dumps ?h))" 0] by auto
  have slice: "py_slice 8 (8 + length (dumps ?h)) ?file = dumps ?h" by (simp add: py_slice_def)
  have opened: "mmap_open loads ?file = Inr \<lparr>smm = ?file, payload_base = 8 + int (length (dumps ?h)), sentries = es\<rparr>"
    using js es(1) slice by (simp add: mmap_open_def unpack_Q_def le_nat_le_bytes)
  let ?tmp = "''resident.safetensors'' @ ''.partial''"
  let ?index = "map (\<lambda>n. (n, ''resident.safetensors'')) ?ns"
  let ?d = "(rename_file ?tmp ''resident.safetensors'' (put_file ?tmp ?file d))\<lparr>dindex := Some ?index\<rparr>"
  have "resident dumps s d = (?d, Inr ())"
    using hd js(2) bs again by (simp add: resident_def Let_def pack_le_def)
  moreover have "map_of (dfiles ?d) ''resident.safetensors'' = Some ?file"
    by (simp add: put_file_lookup rename_file_lookup)
  moreover have "\<exists>b. source_bytes s n = Inr b \<and> mmap_raw \<lparr>smm = ?file, payload_base = 8 + int (length (dumps ?h)), sentries = es\<rparr> n = Inr b
      \<and> map_of ?index n = Some ''resident.safetensors''" if n: "n \<in> set ?ns" for n
  proof -
    have "source_bytes s n = Inr (bytes_in s n)" using ok n by (auto elim: in_fileE)
    moreover have "map_of ?index n = Some ''resident.safetensors''"
      using n by (simp add: map_of_map_restrict restrict_map_def)
    ultimately show ?thesis using es(2) n by (auto simp: mmap_raw_def)
  qed
  moreover have "dindex ?d = Some ?index" by simp
  ultimately show ?thesis using opened by blast
qed


section \<open>A one-layer model\<close>

text \<open>Two experts, one byte per part and expert, and one resident tensor.\<close>

definition demo_xnames :: "string list" where
  "demo_xnames = map (\<lambda>(projection, part). tensor_name 0 projection part) PARTS @ [''norm'']"

definition demo_xmodel :: xshards where
  "demo_xmodel = \<lparr>xwmap = map (\<lambda>n. (n, ''f'')) demo_xnames,
     xfiles = [(''f'',
       map (\<lambda>(i, n). (n, HTensor \<lparr>mdtype = ''U8'', mshape = [2, 1], mbegin = 2 * int i, mend = 2 * int i + 2\<rparr>))
         (enumerate_from0 demo_xnames), 8, replicate 8 0 @ map word_of_nat [0..<20])]\<rparr>"

definition demo_disk :: disk where
  "demo_disk = \<lparr>dfiles = [], dmeta = None, dindex = None\<rparr>"

lemma demo_entries:
  "map (shard_entry demo_xmodel) demo_xnames
     = map (\<lambda>i. Inr (''f'', 8 + 2 * int i, 2, ''U8'', [2, 1])) [0..<10]"
  by code_simp

lemma demo_layers: "layer_count demo_xmodel = Inr 1"
  by code_simp

lemma demo_sliceable: "list_all2 (sliceable demo_xmodel 2 0) PARTS (replicate 9 1)"
  by code_simp

lemma demo_packable: "packable demo_xmodel 1 2 (replicate 9 1)"
  using demo_sliceable by (simp add: packable_def sum_list_replicate)

lemma demo_first: "shard_entry demo_xmodel (tensor_name 0 ''gate_proj'' ''weight'') = Inr (''f'', 8, 2, ''U8'', 2 # [1])"
  by code_simp

lemma demo_block: "concat (map (the_slice demo_xmodel 2 0 1) PARTS) = [1, 3, 5, 7, 9, 11, 13, 15, 17]"
  by code_simp

theorem pack_lossless_witness:
  "\<exists>d' file k. pack demo_xmodel 18 demo_disk = (d', Inr ()) \<and> map_of (dfiles d') (layer_file 0) = Some file \<and>
     take 9 (drop 9 file) = [1, 3, 5, 7, 9, 11, 13, 15, 17] \<and> verify demo_xmodel d' 64 = Inr k"
proof -
  obtain d' k where d: "pack demo_xmodel 18 demo_disk = (d', Inr ())" "verify demo_xmodel d' 64 = Inr k"
    "\<forall>l<1. \<exists>file. map_of (dfiles d') (layer_file l) = Some file \<and>
       (\<forall>e<2. take (sum_list (replicate 9 1)) (drop (e * sum_list (replicate 9 1)) file) = concat (map (the_slice demo_xmodel 2 l e) PARTS))"
    using pack_lossless [OF demo_packable _ _ demo_first, of 18 demo_disk 64] demo_layers
    by (auto simp del: One_nat_def simp: sum_list_replicate)
  obtain packed where fl: "map_of (dfiles d') (layer_file 0) = Some packed"
    "\<And>e. e < 2 \<Longrightarrow> take 9 (drop (e * 9) packed) = concat (map (the_slice demo_xmodel 2 0 e) PARTS)"
    using d(3) by (auto simp: sum_list_replicate)
  then show ?thesis using d(1,2) fl(2) [of 1] unfolding demo_block by auto
qed


lemma demo_resident: "resident_names demo_xmodel = [''norm'']"
  by code_simp

lemma demo_xheader:
  "resident_header demo_xmodel 0 [''norm''] = Inr ([(''norm'', HTensor \<lparr>mdtype = ''U8'', mshape = [2, 1], mbegin = 0, mend = 2\<rparr>)], 2)"
  by code_simp

lemma demo_in_file: "in_file demo_xmodel ''norm''" "distinct (map fst (xwmap demo_xmodel))"
  "source_bytes demo_xmodel ''norm'' = Inr [18, 19]"
  by code_simp+

theorem resident_reads_back_witness:
  "\<exists>d' file sh. resident (\<lambda>h. [123, 125]) demo_xmodel demo_disk = (d', Inr ()) \<and>
     map_of (dfiles d') ''resident.safetensors'' = Some file \<and>
     mmap_open (\<lambda>b. Inr [(''norm'', HTensor \<lparr>mdtype = ''U8'', mshape = [2, 1], mbegin = 0, mend = 2\<rparr>)]) file = Inr sh \<and>
     mmap_raw sh ''norm'' = Inr [18, 19]"
proof -
  let ?h = "[(''norm'', HTensor \<lparr>mdtype = ''U8'', mshape = [2, 1], mbegin = 0, mend = 2\<rparr>)]"
  have names: "\<forall>n\<in>set (resident_names demo_xmodel). in_file demo_xmodel n \<and> n \<noteq> ''__metadata__''"
    unfolding demo_resident using demo_in_file(1) by simp
  have js: "Inr ?h = Inr h \<and> length ([123, 125] :: u8 list) < 256 ^ 8"
    if "resident_header demo_xmodel 0 (resident_names demo_xmodel) = Inr (h, c)" for h c
    using that unfolding demo_resident demo_xheader by simp
  show ?thesis
    using resident_reads_back [where loads = "\<lambda>b. Inr ?h" and dumps = "\<lambda>h. [123, 125]" and d = demo_disk, OF names demo_in_file(2) js]
      demo_in_file(3) unfolding demo_resident by fastforce
qed

end
