(* ===== verification/Install.thy ===== *)
theory Install
  imports Expert_Bundles Layer_Options
begin

text \<open>
  \<open>edge0/streaming/install.py\<close>: \<open>install_streaming_experts\<close> walks the loaded model along the block template, makes a
  streaming twin for every routed block and swaps it in. The model is the tree of \<open>Moe_Spec\<close>; setting an
  attribute of an object rebuilds the path to it. \<open>tw\<close> and \<open>num\<close> make the leaf for a twin (given by its static
  configuration) and for a number, and \<open>me i\<close> is the leaf that stands for a reference to the block of layer
  \<open>i\<close>: the attribute \<open>_edge0_resident\<close>, by which a block points at itself, is a cycle and a tree holds none.
\<close>

section \<open>Attributes\<close>

definition has_attr :: "'x pyobj \<Rightarrow> string \<Rightarrow> bool" where
  "has_attr obj a \<longleftrightarrow> (case py_getattr obj a of Inr _ \<Rightarrow> True | Inl _ \<Rightarrow> False)"

fun py_setattr :: "string \<Rightarrow> 'x pyobj \<Rightarrow> 'x pyobj \<Rightarrow> 'x pyobj res" where
  "py_setattr a v (PyObj fs) = Inr (PyObj (AList.update a v fs))"
| "py_setattr a v (PyList xs) = Inl AttributeError"
| "py_setattr a v (PyLeaf x) = Inl AttributeError"

text \<open>The tree after the object at a path has changed.\<close>

fun put_step :: "'x pyobj \<Rightarrow> string \<Rightarrow> 'x pyobj \<Rightarrow> 'x pyobj" where
  "put_step (PyObj fs) p v = PyObj (AList.update p v fs)"
| "put_step (PyList xs) p v = PyList (xs[parse_nat p := v])"
| "put_step (PyLeaf x) p v = PyLeaf x"

fun put_at :: "'x pyobj \<Rightarrow> string list \<Rightarrow> 'x pyobj \<Rightarrow> 'x pyobj res" where
  "put_at obj [] v = Inr v"
| "put_at obj (p # ps) v = res_bind (path_step obj p) (\<lambda>x. res_bind (put_at x ps v) (\<lambda>x'. Inr (put_step obj p x')))"

section \<open>Installation\<close>

text \<open>A block is routed when it holds \<open>switch_mlp\<close> (qwen) or \<open>experts\<close> (ling).\<close>

definition routed :: "'x pyobj \<Rightarrow> bool" where
  "routed block \<longleftrightarrow> has_attr block ''experts'' \<or> has_attr block ''switch_mlp''"

definition slot_of :: "'x pyobj \<Rightarrow> string" where
  "slot_of block = (if has_attr block ''switch_mlp'' then ''switch_mlp'' else ''experts'')"

text \<open>
  The object that \<open>getattr(block, '_edge0_resident', block)\<close> gives is the block, whether the attribute, a reference
  to it, is there or not.
\<close>

definition swap_in :: "(int \<Rightarrow> 'x) \<Rightarrow> layer_options \<Rightarrow> 'x \<Rightarrow> 'x \<Rightarrow> 'x pyobj \<Rightarrow> 'x pyobj res" where
  "swap_in num opts me twin block =
     res_bind (py_setattr ''_edge0_resident'' (PyLeaf me) block) (\<lambda>block.
     res_bind (py_getattr block (slot_of block)) (\<lambda>old.
     res_bind (py_setattr ''_edge0_resident_switch'' old block) (\<lambda>b.
     res_bind (py_setattr (slot_of block) (PyLeaf twin) b) (\<lambda>b.
       case opt_top_k opts of
         None \<Rightarrow> Inr b
       | Some k \<Rightarrow> if has_attr b ''top_k'' then py_setattr ''top_k'' (PyLeaf (num k)) b else Inr b))))"

fun install_from ::
  "(layer_cfg \<Rightarrow> 'x) \<Rightarrow> (int \<Rightarrow> 'x) \<Rightarrow> (nat \<Rightarrow> 'x) \<Rightarrow> shard list \<Rightarrow> moe_spec \<Rightarrow> layer_options \<Rightarrow> nat list \<Rightarrow> 'x pyobj \<Rightarrow>
     (layer_cfg option list \<times> 'x pyobj) res" where
  "install_from tw num me shards sp opts [] model = Inr ([], model)"
| "install_from tw num me shards sp opts (i # is') model =
     res_bind (block_of sp model i) (\<lambda>block.
       if \<not> routed block then
         res_bind (install_from tw num me shards sp opts is' model) (\<lambda>(ts, model). Inr (None # ts, model))
       else
         res_bind (make_cfg shards i sp) (\<lambda>cfg.
         res_bind (swap_in num opts (me i) (tw cfg) block) (\<lambda>block'.
         res_bind (fmt_layer (show_nat i) (block_path sp)) (\<lambda>path.
         res_bind (put_at model (split_on CHR ''.'' path) block') (\<lambda>model.
         res_bind (install_from tw num me shards sp opts is' model) (\<lambda>(ts, model). Inr (Some cfg # ts, model)))))))"

definition install_streaming_experts ::
  "(layer_cfg \<Rightarrow> 'x) \<Rightarrow> (int \<Rightarrow> 'x) \<Rightarrow> (nat \<Rightarrow> 'x) \<Rightarrow> shard list \<Rightarrow> moe_spec \<Rightarrow> layer_options option \<Rightarrow> nat option \<Rightarrow> 'x pyobj \<Rightarrow>
     (layer_cfg option list \<times> 'x pyobj) res option" where
  "install_streaming_experts tw num me shards sp opts num_layers model =
     (case (case num_layers of Some n \<Rightarrow> Some (Inr n) | None \<Rightarrow> discover_layers sp model) of
        None \<Rightarrow> None
      | Some (Inl e) \<Rightarrow> Some (Inl e)
      | Some (Inr n) \<Rightarrow>
          Some (install_from tw num me shards sp (case opts of None \<Rightarrow> default_options | Some o' \<Rightarrow> o') [0..<n] model))"

section \<open>What is installed\<close>

lemma path_step_put: "path_step obj p = Inr x \<Longrightarrow> path_step (put_step obj p v) p = Inr v"
  by (cases obj) (auto simp: path_step_def split: if_splits option.splits)

lemma put_at_prefix:
  "walk_path obj pre = Inr x \<Longrightarrow> put_at x rest v = Inr x' \<Longrightarrow> \<exists>obj'. put_at obj (pre @ rest) v = Inr obj' \<and> walk_path obj' pre = Inr x'"
proof (induction pre arbitrary: obj)
  case (Cons p pre)
  then obtain y where y: "path_step obj p = Inr y" "walk_path y pre = Inr x" by (auto simp: res_bind_Inr_iff)
  obtain y' where "put_at y (pre @ rest) v = Inr y'" "walk_path y' pre = Inr x'" using Cons.IH [OF y(2) Cons.prems(2)] by blast
  then show ?case using y(1) path_step_put [OF y(1), of y'] by simp
qed simp

lemma put_at_walk: "walk_path obj ps = Inr x \<Longrightarrow> \<exists>obj'. put_at obj ps v = Inr obj' \<and> walk_path obj' ps = Inr v"
  using put_at_prefix [of obj ps x "[]" v v] by simp

lemma walk_path_append: "walk_path obj (pre @ qs) = res_bind (walk_path obj pre) (\<lambda>x. walk_path x qs)"
proof (induction pre arbitrary: obj)
  case (Cons p ps)
  then show ?case by (cases "path_step obj p") auto
qed simp

text \<open>The block after installation, and what of it differs from the block before.\<close>

definition top_k_after :: "(int \<Rightarrow> 'x) \<Rightarrow> layer_options \<Rightarrow> 'x pyobj \<Rightarrow> 'x pyobj res" where
  "top_k_after num opts block =
     (case opt_top_k opts of
        Some k \<Rightarrow> if has_attr block ''top_k'' then Inr (PyLeaf (num k)) else py_getattr block ''top_k''
      | None \<Rightarrow> py_getattr block ''top_k'')"

lemma swap_in_ok:
  assumes "block = PyObj fs" and "routed block"
  obtains block' where "swap_in num opts me twin block = Inr block'"
    and "py_getattr block' (slot_of block) = Inr (PyLeaf twin)"
    and "py_getattr block' ''_edge0_resident_switch'' = py_getattr block (slot_of block)"
    and "py_getattr block' ''_edge0_resident'' = Inr (PyLeaf me)"
    and "py_getattr block' ''top_k'' = top_k_after num opts block"
    and "\<And>a. a \<notin> {slot_of block, ''_edge0_resident_switch'', ''_edge0_resident'', ''top_k''} \<Longrightarrow> py_getattr block' a = py_getattr block a"
proof -
  let ?fs = "AList.update ''_edge0_resident'' (PyLeaf me) fs"
  have attr: "has_attr (PyObj ?fs) a = has_attr block a" "map_of ?fs a = map_of fs a" if "a \<noteq> ''_edge0_resident''" for a
    using that by (simp_all add: assms(1) has_attr_def update_conv')
  have slot: "slot_of block = ''switch_mlp'' \<or> slot_of block = ''experts''" by (simp add: slot_of_def)
  have same: "slot_of (PyObj ?fs) = slot_of block" by (simp add: slot_of_def attr)
  obtain old where old: "map_of fs (slot_of block) = Some old"
    using assms by (auto simp: routed_def slot_of_def has_attr_def split: option.splits if_splits)
  then have old': "map_of ?fs (slot_of block) = Some old" using slot attr(2) by auto
  let ?b = "AList.update (slot_of block) (PyLeaf twin) (AList.update ''_edge0_resident_switch'' old ?fs)"
  let ?k = "\<lambda>k. AList.update ''top_k'' (PyLeaf (num k)) ?b"
  have topk: "has_attr (PyObj ?b) ''top_k'' = has_attr block ''top_k''"
    using slot by (auto simp: has_attr_def assms(1) update_conv')
  have run: "swap_in num opts me twin block =
      Inr (PyObj (case opt_top_k opts of None \<Rightarrow> ?b | Some k \<Rightarrow> if has_attr (PyObj ?b) ''top_k'' then ?k k else ?b))"
    using old' by (auto simp: swap_in_def assms(1) same [unfolded assms(1)] split: option.splits)
  show ?thesis
  proof (rule that [OF run])
    show "py_getattr (PyObj (case opt_top_k opts of None \<Rightarrow> ?b | Some k \<Rightarrow> if has_attr (PyObj ?b) ''top_k'' then ?k k else ?b)) ''top_k'' =
        top_k_after num opts block"
      unfolding topk using slot by (auto simp: top_k_after_def assms(1) update_conv' split: option.splits)
  qed (use old slot in \<open>auto simp: assms(1) update_conv' split: option.splits\<close>)
qed

definition templated :: "moe_spec \<Rightarrow> string list \<Rightarrow> string list \<Rightarrow> bool" where
  "templated sp pre post \<longleftrightarrow> (\<forall>i. \<exists>path. fmt_layer (show_nat i) (block_path sp) = Inr path \<and> split_on CHR ''.'' path = pre @ show_nat i # post)"

lemma block_of_templated:
  assumes "templated sp pre post" and "walk_path model pre = Inr (PyList ls)"
  shows "block_of sp model i = (if i < length ls then walk_path (ls ! i) post else Inl IndexError)"
proof -
  obtain path where "fmt_layer (show_nat i) (block_path sp) = Inr path" "split_on CHR ''.'' path = pre @ show_nat i # post"
    using assms(1) by (auto simp: templated_def)
  then show ?thesis using assms(2) isdigit_show_nat [of i] by (simp add: block_of_def walk_path_append path_step_def)
qed

text \<open>What stands at a layer afterwards: the final block if it was routed, the original one if not.\<close>

definition final_block ::
  "(layer_cfg \<Rightarrow> 'x) \<Rightarrow> (int \<Rightarrow> 'x) \<Rightarrow> (nat \<Rightarrow> 'x) \<Rightarrow> layer_options \<Rightarrow> string list \<Rightarrow> nat \<Rightarrow> layer_cfg \<Rightarrow> 'x pyobj \<Rightarrow> 'x pyobj \<Rightarrow> bool" where
  "final_block tw num me opts post i cfg block obj \<longleftrightarrow>
     (if routed block then res_bind (walk_path obj post) Inr = swap_in num opts (me i) (tw cfg) block \<and> (\<exists>b. swap_in num opts (me i) (tw cfg) block = Inr b)
      else walk_path obj post = Inr block)"

lemma install_from_ok:
  assumes path: "templated sp pre post" and n: "n = length ls"
    and objs: "\<forall>i < n. \<exists>fs. block i = PyObj fs"
    and cfgs: "\<forall>i < n. routed (block i) \<longrightarrow> make_cfg shards i sp = Inr (cfg i)"
    and here: "\<forall>i < n. walk_path (ls ! i) post = Inr (block i)"
  shows "k \<le> n \<Longrightarrow> walk_path model pre = Inr (PyList ks) \<Longrightarrow> length ks = n \<Longrightarrow> (\<forall>i. k \<le> i \<and> i < n \<longrightarrow> ks ! i = ls ! i) \<Longrightarrow>
    \<exists>model' ks'. install_from tw num me shards sp opts [k..<n] model =
        Inr (map (\<lambda>i. if routed (block i) then Some (cfg i) else None) [k..<n], model') \<and>
      walk_path model' pre = Inr (PyList ks') \<and> length ks' = n \<and> (\<forall>i < k. ks' ! i = ks ! i) \<and>
      (\<forall>i. k \<le> i \<and> i < n \<longrightarrow> final_block tw num me opts post i (cfg i) (block i) (ks' ! i))"
proof (induction "n - k" arbitrary: k model ks)
  case 0
  then show ?case by (auto intro!: exI [of _ model] exI [of _ ks])
next
  case (Suc m)
  then have k: "k < n" "[k..<n] = k # [Suc k..<n]" by (simp_all add: upt_conv_Cons)
  have same: "ks ! k = ls ! k" using Suc.prems(4) k(1) by simp
  have bl: "block_of sp model k = Inr (block k)"
    using block_of_templated [OF path Suc.prems(2), of k] Suc.prems(3) same here k(1) by simp
  have step: "\<exists>model' ks'. install_from tw num me shards sp opts [Suc k..<n] model1 =
        Inr (map (\<lambda>i. if routed (block i) then Some (cfg i) else None) [Suc k..<n], model') \<and>
      walk_path model' pre = Inr (PyList ks') \<and> length ks' = n \<and> (\<forall>i < Suc k. ks' ! i = ks1 ! i) \<and>
      (\<forall>i. Suc k \<le> i \<and> i < n \<longrightarrow> final_block tw num me opts post i (cfg i) (block i) (ks' ! i))"
    if "walk_path model1 pre = Inr (PyList ks1)" "length ks1 = n" "\<forall>i. Suc k \<le> i \<and> i < n \<longrightarrow> ks1 ! i = ls ! i" for model1 ks1
    by (rule Suc.hyps(1)) (use Suc.hyps(2) k(1) that in auto)
  have later: "i = k \<or> Suc k \<le> i" if "k \<le> i" for i using that by auto
  show ?case
  proof (cases "routed (block k)")
    case False
    obtain model' ks' where rest: "install_from tw num me shards sp opts [Suc k..<n] model =
        Inr (map (\<lambda>i. if routed (block i) then Some (cfg i) else None) [Suc k..<n], model')"
      "walk_path model' pre = Inr (PyList ks')" "length ks' = n" "\<forall>i < Suc k. ks' ! i = ks ! i"
      "\<forall>i. Suc k \<le> i \<and> i < n \<longrightarrow> final_block tw num me opts post i (cfg i) (block i) (ks' ! i)"
      using step [OF Suc.prems(2,3)] Suc.prems(4) by auto
    have at_k: "final_block tw num me opts post k (cfg k) (block k) (ks' ! k)" using False rest(4) same here k(1) by (simp add: final_block_def)
    have "final_block tw num me opts post i (cfg i) (block i) (ks' ! i)" if "k \<le> i" "i < n" for i
      using later [OF that(1)] at_k rest(5) that(2) by auto
    then show ?thesis
      using False bl rest by (intro exI [of _ model'] exI [of _ ks']) (auto simp: k(2))
  next
    case True
    obtain fs where fs: "block k = PyObj fs" using objs k(1) by blast
    obtain b where b: "swap_in num opts (me k) (tw (cfg k)) (block k) = Inr b" using swap_in_ok [OF fs True] by metis
    obtain x' where x': "put_at (ks ! k) post b = Inr x'" "walk_path x' post = Inr b"
      using put_at_walk [of "ks ! k" post] same here k(1) by fastforce
    obtain p where p: "fmt_layer (show_nat k) (block_path sp) = Inr p" "split_on CHR ''.'' p = pre @ show_nat k # post"
      using path by (auto simp: templated_def)
    have "put_at (PyList ks) (show_nat k # post) b = Inr (PyList (ks[k := x']))"
      using x'(1) Suc.prems(3) k(1) isdigit_show_nat [of k] by (simp add: path_step_def)
    then obtain model1 where model1: "put_at model (pre @ show_nat k # post) b = Inr model1" "walk_path model1 pre = Inr (PyList (ks[k := x']))"
      using put_at_prefix [OF Suc.prems(2)] by blast
    obtain model' ks' where rest: "install_from tw num me shards sp opts [Suc k..<n] model1 =
        Inr (map (\<lambda>i. if routed (block i) then Some (cfg i) else None) [Suc k..<n], model')"
      "walk_path model' pre = Inr (PyList ks')" "length ks' = n" "\<forall>i < Suc k. ks' ! i = ks[k := x'] ! i"
      "\<forall>i. Suc k \<le> i \<and> i < n \<longrightarrow> final_block tw num me opts post i (cfg i) (block i) (ks' ! i)"
      using step [OF model1(2)] Suc.prems(3,4) by auto
    have "ks' ! k = x'" using rest(4) Suc.prems(3) k(1) by simp
    then have at_k: "final_block tw num me opts post k (cfg k) (block k) (ks' ! k)" using True b x'(2) by (simp add: final_block_def)
    have "final_block tw num me opts post i (cfg i) (block i) (ks' ! i)" if "k \<le> i" "i < n" for i
      using later [OF that(1)] at_k rest(5) that(2) by auto
    moreover have "\<forall>i < k. ks' ! i = ks ! i" using rest(4) by auto
    moreover have "make_cfg shards k sp = Inr (cfg k)" using cfgs k(1) True by simp
    ultimately show ?thesis
      using True bl b p model1(1) rest by (intro exI [of _ model'] exI [of _ ks']) (auto simp: k(2))
  qed
qed

text \<open>
  C36: installing the streaming twins changes exactly what it should. On a model whose block template indexes
  a list of layers, with the layer count given or discovered, the result has one entry per layer, in order:
  nothing for a dense block, which stays as it was, and the twin's configuration for a routed one, where the
  twin now stands in the slot, the original is kept under \<open>_edge0_resident_switch\<close>, \<open>_edge0_resident\<close> refers to
  the block itself, \<open>top_k\<close> is the option's value if there is one and the block has the attribute and is
  untouched otherwise, and so is every other attribute.
\<close>

theorem install_swaps_twins:
  assumes "templated sp pre post" and "walk_path model pre = Inr (PyList ls)"
    and "num_layers = Some (length ls) \<or> (num_layers = None \<and> discover_layers sp model = Some (Inr (length ls)))"
    and "\<forall>i < length ls. \<exists>fs. walk_path (ls ! i) post = Inr (PyObj fs) \<and> (routed (PyObj fs) \<longrightarrow> make_cfg shards i sp = Inr (cfg i))"
  shows "\<exists>twins model'. install_streaming_experts tw num me shards sp opts num_layers model = Some (Inr (twins, model')) \<and>
    length twins = length ls \<and>
    (\<forall>i < length ls. \<exists>b b'. block_of sp model i = Inr b \<and> block_of sp model' i = Inr b' \<and>
      (if routed b
       then twins ! i = Some (cfg i) \<and> py_getattr b' (slot_of b) = Inr (PyLeaf (tw (cfg i))) \<and>
         py_getattr b' ''_edge0_resident_switch'' = py_getattr b (slot_of b) \<and>
         py_getattr b' ''_edge0_resident'' = Inr (PyLeaf (me i)) \<and>
         py_getattr b' ''top_k'' = top_k_after num (case opts of None \<Rightarrow> default_options | Some o' \<Rightarrow> o') b \<and>
         (\<forall>a. a \<notin> {slot_of b, ''_edge0_resident_switch'', ''_edge0_resident'', ''top_k''} \<longrightarrow> py_getattr b' a = py_getattr b a)
       else twins ! i = None \<and> b' = b))"
proof -
  let ?n = "length ls" and ?block = "\<lambda>i. projr (walk_path (ls ! i) post)"
  let ?opts = "case opts of None \<Rightarrow> default_options | Some o' \<Rightarrow> o'"
  have here: "walk_path (ls ! i) post = Inr (?block i)" "\<exists>fs. ?block i = PyObj fs" "routed (?block i) \<Longrightarrow> make_cfg shards i sp = Inr (cfg i)"
    if i: "i < ?n" for i
  proof -
    obtain fs where fs: "walk_path (ls ! i) post = Inr (PyObj fs)" "routed (PyObj fs) \<longrightarrow> make_cfg shards i sp = Inr (cfg i)"
      using assms(4) i by blast
    show "walk_path (ls ! i) post = Inr (?block i)" "\<exists>fs. ?block i = PyObj fs" using fs(1) by simp_all
    show "make_cfg shards i sp = Inr (cfg i)" if "routed (?block i)" using fs that by simp
  qed
  have o': "\<forall>i < ?n. \<exists>fs. ?block i = PyObj fs" by (intro allI impI here(2))
  have c': "\<forall>i < ?n. routed (?block i) \<longrightarrow> make_cfg shards i sp = Inr (cfg i)" by (intro allI impI here(3))
  have h': "\<forall>i < ?n. walk_path (ls ! i) post = Inr (?block i)" by (intro allI impI here(1))
  have all: "\<forall>i. 0 \<le> i \<and> i < ?n \<longrightarrow> ls ! i = ls ! i" by blast
  obtain model' ks where run: "install_from tw num me shards sp ?opts [0..<?n] model =
      Inr (map (\<lambda>i. if routed (?block i) then Some (cfg i) else None) [0..<?n], model')"
    "walk_path model' pre = Inr (PyList ks)" "length ks = ?n" "\<forall>i. 0 \<le> i \<and> i < ?n \<longrightarrow> final_block tw num me ?opts post i (cfg i) (?block i) (ks ! i)"
    using install_from_ok [OF assms(1) refl o' c' h' le0 assms(2) refl all, of tw num me ?opts] by (elim exE conjE) (rule that)
  have "\<exists>b b'. block_of sp model i = Inr b \<and> block_of sp model' i = Inr b' \<and>
      (if routed b
       then map (\<lambda>i. if routed (?block i) then Some (cfg i) else None) [0..<?n] ! i = Some (cfg i) \<and>
         py_getattr b' (slot_of b) = Inr (PyLeaf (tw (cfg i))) \<and>
         py_getattr b' ''_edge0_resident_switch'' = py_getattr b (slot_of b) \<and>
         py_getattr b' ''_edge0_resident'' = Inr (PyLeaf (me i)) \<and>
         py_getattr b' ''top_k'' = top_k_after num ?opts b \<and>
         (\<forall>a. a \<notin> {slot_of b, ''_edge0_resident_switch'', ''_edge0_resident'', ''top_k''} \<longrightarrow> py_getattr b' a = py_getattr b a)
       else map (\<lambda>i. if routed (?block i) then Some (cfg i) else None) [0..<?n] ! i = None \<and> b' = b)" if i: "i < ?n" for i
  proof -
    have before: "block_of sp model i = Inr (?block i)" and after: "block_of sp model' i = walk_path (ks ! i) post"
      using block_of_templated [OF assms(1,2)] block_of_templated [OF assms(1) run(2)] here(1) [OF i] i run(3) by simp_all
    have fin: "final_block tw num me ?opts post i (cfg i) (?block i) (ks ! i)" using run(4) i by blast
    show ?thesis
    proof (cases "routed (?block i)")
      case True
      obtain fs where fs: "?block i = PyObj fs" using here(2) [OF i] by blast
      obtain b' where b': "swap_in num ?opts (me i) (tw (cfg i)) (?block i) = Inr b'"
        "py_getattr b' (slot_of (?block i)) = Inr (PyLeaf (tw (cfg i)))"
        "py_getattr b' ''_edge0_resident_switch'' = py_getattr (?block i) (slot_of (?block i))"
        "py_getattr b' ''_edge0_resident'' = Inr (PyLeaf (me i))" "py_getattr b' ''top_k'' = top_k_after num ?opts (?block i)"
        "\<And>a. a \<notin> {slot_of (?block i), ''_edge0_resident_switch'', ''_edge0_resident'', ''top_k''} \<Longrightarrow> py_getattr b' a = py_getattr (?block i) a"
        using swap_in_ok [OF fs True] by metis
      have "walk_path (ks ! i) post = Inr b'" using fin True b'(1) by (cases "walk_path (ks ! i) post") (simp_all add: final_block_def)
      then show ?thesis using before after True b' i by (intro exI [of _ "?block i"] exI [of _ b']) auto
    next
      case False
      then show ?thesis using fin before after i by (simp add: final_block_def)
    qed
  qed
  moreover have "install_streaming_experts tw num me shards sp opts num_layers model =
      Some (Inr (map (\<lambda>i. if routed (?block i) then Some (cfg i) else None) [0..<?n], model'))"
    using assms(3) run(1) by (auto simp: install_streaming_experts_def)
  ultimately show ?thesis by (intro exI [of _ "map (\<lambda>i. if routed (?block i) then Some (cfg i) else None) [0..<?n]"] exI [of _ model']) simp
qed

lemma split_on_skip: "c \<notin> set xs \<Longrightarrow> split_on c (xs @ c # ys) = xs # split_on c ys"
  by (induction xs) auto

lemma no_dot_in_number: "CHR ''.'' \<notin> set (show_nat n)"
  using isdigit_show_nat [of n] by (auto simp: isdigit_def list_all_iff is_digit_def dest!: bspec)

definition demo_stack :: "(layer_cfg + int) pyobj" where
  "demo_stack = PyObj [(''m'', PyList [PyObj [(''mlp'', PyObj [(''switch_mlp'', PyObj []), (''top_k'', PyLeaf (Inr 8))])], PyObj [(''mlp'', PyObj [])]])]"

theorem install_swaps_twins_witness:
  "\<exists>twins model'. install_streaming_experts Inl Inr (\<lambda>i. Inr (- int i)) [demo_shard] demo_moe None None demo_stack = Some (Inr (twins, model')) \<and>
    length twins = 2 \<and>
    (\<forall>i < 2. \<exists>b b'. block_of demo_moe demo_stack i = Inr b \<and> block_of demo_moe model' i = Inr b' \<and>
      (if routed b
       then twins ! i = Some demo_cfg \<and> py_getattr b' (slot_of b) = Inr (PyLeaf (Inl demo_cfg)) \<and>
         py_getattr b' ''_edge0_resident_switch'' = py_getattr b (slot_of b) \<and>
         py_getattr b' ''_edge0_resident'' = Inr (PyLeaf (Inr (- int i))) \<and>
         py_getattr b' ''top_k'' = top_k_after Inr default_options b \<and>
         (\<forall>a. a \<notin> {slot_of b, ''_edge0_resident_switch'', ''_edge0_resident'', ''top_k''} \<longrightarrow> py_getattr b' a = py_getattr b a)
       else twins ! i = None \<and> b' = b))"
proof -
  let ?ls = "[PyObj [(''mlp'', PyObj [(''switch_mlp'', PyObj []), (''top_k'', PyLeaf (Inr 8))])], PyObj [(''mlp'', PyObj [])]] :: (layer_cfg + int) pyobj list"
  have path: "block_path demo_moe = ''m.{layer}.mlp''" by (simp add: demo_moe_def demo_spec_def)
  have t: "templated demo_moe [''m''] [''mlp'']"
    using split_on_skip [OF no_dot_in_number, of _ "''mlp''"] by (simp add: templated_def path)
  have w: "walk_path demo_stack [''m''] = Inr (PyList ?ls)" by (simp add: demo_stack_def path_step_def isdigit_def is_digit_def)
  have "layer_exists demo_moe demo_stack n = (if n < length ?ls then res_bind (walk_path (?ls ! n) [''mlp'']) (\<lambda>_. Inr True) else Inr False)" for n
    by (rule layer_exists_list [OF _ _ _ w]) (simp_all add: path plain_def)
  then have "discover_from demo_moe demo_stack 0 = Some (Inr (length ?ls))"
    by (rule discover_from_list [where post = "[''mlp'']"]) (auto simp: path_step_def isdigit_def is_digit_def)
  then have d: "discover_layers demo_moe demo_stack = Some (Inr (length ?ls))" by (simp add: discover_layers_def)
  have len: "length ?ls = 2" by simp
  have ok: "\<forall>i < length ?ls. \<exists>fs. walk_path (?ls ! i) [''mlp''] = Inr (PyObj fs) \<and>
      (routed (PyObj fs) \<longrightarrow> make_cfg [demo_shard] i demo_moe = Inr demo_cfg)"
    using demo_make_cfg by (simp add: path_step_def isdigit_def is_digit_def nth_Cons All_less_Suc routed_def has_attr_def numeral_2_eq_2)
  show ?thesis
    by (rule install_swaps_twins [OF t w disjI2 [OF conjI [OF refl d]] ok,
          of Inl Inr "\<lambda>i. Inr (- int i)" None, unfolded len option.case])
qed

end
