(* ===== verification/Lora.thy ===== *)
theory Lora
  imports Heads Install Py_Strings "HOL-Library.Sublist"
begin

text \<open>
  \<open>edge0/adapters/lora.py\<close>: parallel LoRA adapters. A loaded model is a tree (\<open>Moe_Spec\<close>, \<open>Install\<close>) whose
  leaves are tensors, numbers, \<open>None\<close> and the name of an object's class; \<open>install_lora\<close> replaces a module by a
  \<open>LoraLinear\<close> around it. The file's tensors are an argument (\<open>None\<close>: there is no such file), \<open>print\<close> is left out.
  \<open>astype\<close> and the call of a module that is not a \<open>LoraLinear\<close> are parameters; arithmetic is exact.
\<close>

datatype 'a leaf = PyNone | ClassOf string | Tensor "'a list list" | Num 'a

type_synonym 'a module = "'a leaf pyobj"

section \<open>LoraLinear\<close>

record 'a lkernels =
  lk_call :: "'a module \<Rightarrow> 'a list \<Rightarrow> 'a list res"
  lk_to_adapter :: "'a list \<Rightarrow> 'a list"
  lk_to_output :: "'a list \<Rightarrow> 'a list"

definition LoraLinear :: "'a module \<Rightarrow> 'a list list \<Rightarrow> 'a list list \<Rightarrow> 'a \<Rightarrow> 'a module" where
  "LoraLinear base a b scale =
     PyObj [(''__class__'', PyLeaf (ClassOf ''LoraLinear'')), (''base'', base), (''lora_A'', PyLeaf (Tensor a)),
            (''lora_B'', PyLeaf (Tensor b)), (''lora_scale'', PyLeaf (Num scale))]"

text \<open>\<open>y + d\<close>, with the broadcasting of an axis of length one.\<close>

definition add_out :: "'a::plus list \<Rightarrow> 'a list \<Rightarrow> 'a list res" where
  "add_out ys ds =
     (if length ys = length ds then Inr (map2 (+) ys ds)
      else if length ds = 1 then Inr (map (\<lambda>y. y + hd ds) ys)
      else if length ys = 1 then Inr (map (\<lambda>d. hd ys + d) ds)
      else Inl ValueError)"

definition lora_delta :: "'a::comm_semiring_0 list list \<Rightarrow> 'a list list \<Rightarrow> 'a \<Rightarrow> 'a list \<Rightarrow> 'a list res" where
  "lora_delta a b scale xd = res_bind (linear a xd) (\<lambda>h. res_bind (linear b h) (\<lambda>d. Inr (map ((*) scale) d)))"

definition is_lora :: "(string \<times> 'a module) list \<Rightarrow> bool" where
  "is_lora fs \<longleftrightarrow> (case map_of fs ''__class__'' of Some (PyLeaf (ClassOf c)) \<Rightarrow> c = ''LoraLinear'' | _ \<Rightarrow> False)"

lemma map_of_size: "map_of fs k = Some x \<Longrightarrow> size x < Suc (size_list (size_prod (\<lambda>_. 0) size) fs)"
  by (induction fs) (auto split: if_splits)

function module_call :: "'a::comm_semiring_0 lkernels \<Rightarrow> 'a module \<Rightarrow> 'a list \<Rightarrow> 'a list res" where
  "module_call K (PyList ms) x = lk_call K (PyList ms) x"
| "module_call K (PyLeaf l) x = lk_call K (PyLeaf l) x"
| "module_call K (PyObj fs) x =
     (if \<not> is_lora fs then lk_call K (PyObj fs) x
      else case map_of fs ''base'' of
        None \<Rightarrow> Inl AttributeError
      | Some base \<Rightarrow>
          res_bind (module_call K base x) (\<lambda>y.
          case (map_of fs ''lora_A'', map_of fs ''lora_B'', map_of fs ''lora_scale'') of
            (Some (PyLeaf (Tensor a)), Some (PyLeaf (Tensor b)), Some (PyLeaf (Num scale))) \<Rightarrow>
              res_bind (lora_delta a b scale (lk_to_adapter K x)) (\<lambda>d. add_out y (lk_to_output K d))
          | _ \<Rightarrow> Inl AttributeError))"
  by pat_completeness auto
termination
  by (relation "measure (\<lambda>(K, m, x). size m)") (auto dest: map_of_size)

section \<open>Installation\<close>

text \<open>Where in the tree a module hangs: a path of attributes and list positions.\<close>

datatype place = Attr string | Item nat

fun getattrs :: "'x pyobj \<Rightarrow> string list \<Rightarrow> 'x pyobj res" where
  "getattrs obj [] = Inr obj"
| "getattrs obj (p # ps) = res_bind (py_getattr obj p) (\<lambda>x. getattrs x ps)"

fun item_pos :: "'x pyobj \<Rightarrow> int \<Rightarrow> (nat \<times> 'x pyobj) res" where
  "item_pos (PyList xs) i = res_bind (py_pos xs i) (\<lambda>j. Inr (j, xs ! j))"
| "item_pos (PyObj fs) i = Inl TypeError"
| "item_pos (PyLeaf x) i = Inl TypeError"

definition under_layers :: "'x pyobj \<Rightarrow> string list \<Rightarrow> string list \<Rightarrow> (place list \<times> 'x pyobj) res" where
  "under_layers model pre num_rest =
     res_bind (getattrs model pre) (\<lambda>layers.
     case num_rest of
       [] \<Rightarrow> Inl IndexError
     | num # rest \<Rightarrow>
         res_bind (py_int num) (\<lambda>i.
         res_bind (item_pos layers i) (\<lambda>(j, node).
         res_bind (getattrs node rest) (\<lambda>node. Inr (map Attr pre @ Item j # map Attr rest, node)))))"

definition lora_resolve :: "'x pyobj \<Rightarrow> string \<Rightarrow> (place list \<times> 'x pyobj) res" where
  "lora_resolve model key =
     (let parts = split_on CHR ''.'' key in
      if length parts \<ge> 3 \<and> parts ! 0 = ''model'' \<and> parts ! 1 = ''layers'' then
        under_layers model [''model'', ''layers''] (drop 2 parts)
      else if length parts \<ge> 3 \<and> parts ! 0 = ''language_model'' \<and> parts ! 1 = ''model'' then
        under_layers model [''language_model'', ''model'', ''layers''] (drop 3 parts)
      else res_bind (getattrs model parts) (\<lambda>node. Inr (map Attr parts, node)))"

text \<open>The tree after the object at a place has changed.\<close>

fun put_place :: "'x pyobj \<Rightarrow> place list \<Rightarrow> 'x pyobj \<Rightarrow> 'x pyobj" where
  "put_place obj [] v = v"
| "put_place (PyObj fs) (Attr a # ps) v =
     (case map_of fs a of None \<Rightarrow> PyObj fs | Some x \<Rightarrow> PyObj (AList.update a (put_place x ps v) fs))"
| "put_place (PyList xs) (Item i # ps) v = (if i < length xs then PyList (xs[i := put_place (xs ! i) ps v]) else PyList xs)"
| "put_place obj ps v = obj"

type_synonym 'm halves = "'m option \<times> 'm option"

fun group_lora :: "(string \<times> 'm) list \<Rightarrow> (string \<times> 'm halves) list \<Rightarrow> (string \<times> 'm halves) list res" where
  "group_lora [] targets = Inr targets"
| "group_lora ((k, v) # lora) targets =
     (let t = take (length k - 7) k; (a, b) = (case map_of targets t of None \<Rightarrow> (None, None) | Some h \<Rightarrow> h) in
      if ends_with ''.lora_A'' k then group_lora lora (AList.update t (Some v, b) targets)
      else if ends_with ''.lora_B'' k then group_lora lora (AList.update t (a, Some v) targets)
      else Inl ValueError)"

record 'a lora_report =
  lr_applied :: "string list"
  lr_not_found :: "string list"
  lr_skipped :: "(string \<times> string) list"
  lr_scale :: 'a

text \<open>\<open>type(mod).__name__\<close>\<close>

fun type_name :: "'a module \<Rightarrow> string" where
  "type_name (PyObj fs) = (case map_of fs ''__class__'' of Some (PyLeaf (ClassOf c)) \<Rightarrow> c | _ \<Rightarrow> ''Module'')"
| "type_name (PyList xs) = ''list''"
| "type_name (PyLeaf PyNone) = ''NoneType''"
| "type_name (PyLeaf (ClassOf c)) = ''type''"
| "type_name (PyLeaf (Tensor a)) = ''array''"
| "type_name (PyLeaf (Num a)) = ''float''"

definition owner_key :: "string \<Rightarrow> string" where
  "owner_key key = join_with CHR ''.'' (butlast (split_on CHR ''.'' key))"

definition bind_lora :: "'a module \<Rightarrow> string \<Rightarrow> 'a module \<Rightarrow> 'a module res" where
  "bind_lora model key new =
     res_bind (lora_resolve model (owner_key key)) (\<lambda>(place, owner).
     res_bind (py_setattr (last (split_on CHR ''.'' key)) new owner) (\<lambda>owner. Inr (put_place model place owner)))"

text \<open>One target after the other; an exception leaves the model as far as it has been changed.\<close>

fun install_each ::
  "('a list list \<Rightarrow> 'a list list) \<Rightarrow> bool \<Rightarrow> (string \<times> 'a list list halves) list \<Rightarrow> 'a lora_report \<Rightarrow> 'a module \<Rightarrow>
     'a lora_report res \<times> 'a module" where
  "install_each cast strict [] rep model = (Inr rep, model)"
| "install_each cast strict ((key, d) # targets) rep model =
     (case d of
        (Some a, Some b) \<Rightarrow>
          (case lora_resolve model key of
             Inl e \<Rightarrow> (Inl e, model)
           | Inr (place, md) \<Rightarrow>
               if md = PyLeaf PyNone then
                 (if strict then (Inl KeyError, model)
                  else install_each cast strict targets (rep\<lparr>lr_not_found := lr_not_found rep @ [key]\<rparr>) model)
               else if \<not> has_attr md ''weight'' \<and> \<not> has_attr md ''base'' then
                 (if strict then (Inl TypeError, model)
                  else install_each cast strict targets (rep\<lparr>lr_skipped := lr_skipped rep @ [(key, type_name md)]\<rparr>) model)
               else
                 (case bind_lora model key (LoraLinear md (cast a) (cast b) (lr_scale rep)) of
                    Inl e \<Rightarrow> (Inl e, model)
                  | Inr model' \<Rightarrow> install_each cast strict targets (rep\<lparr>lr_applied := lr_applied rep @ [key]\<rparr>) model'))
      | _ \<Rightarrow> install_each cast strict targets (rep\<lparr>lr_skipped := lr_skipped rep @ [(key, ''missing A or B'')]\<rparr>) model)"

definition install_lora ::
  "('a::field list list \<Rightarrow> 'a list list) \<Rightarrow> (string \<times> 'a list list) list option \<Rightarrow> int \<Rightarrow> 'a \<Rightarrow> bool \<Rightarrow> 'a module \<Rightarrow>
     'a lora_report res \<times> 'a module" where
  "install_lora cast contents r alpha strict model =
     (case contents of
        None \<Rightarrow> (Inl FileNotFoundError, model)
      | Some lora \<Rightarrow>
          if lora = [] then (Inl ValueError, model)
          else case group_lora lora [] of
            Inl e \<Rightarrow> (Inl e, model)
          | Inr targets \<Rightarrow>
              if r = 0 then (Inl ZeroDivisionError, model)
              else install_each cast strict (sort_key fst targets)
                     \<lparr>lr_applied = [], lr_not_found = [], lr_skipped = [], lr_scale = alpha / of_int r\<rparr> model)"


section \<open>Places\<close>

fun look :: "'x pyobj \<Rightarrow> place list \<Rightarrow> 'x pyobj option" where
  "look obj [] = Some obj"
| "look (PyObj fs) (Attr a # ps) = (case map_of fs a of None \<Rightarrow> None | Some x \<Rightarrow> look x ps)"
| "look (PyList xs) (Item i # ps) = (if i < length xs then look (xs ! i) ps else None)"
| "look obj ps = None"

lemma look_append: "look obj (u @ w) = (case look obj u of None \<Rightarrow> None | Some x \<Rightarrow> look x w)"
  by (induction obj u rule: look.induct) (auto split: option.splits)

lemma getattrs_look: "getattrs obj ps = Inr x \<longleftrightarrow> look obj (map Attr ps) = Some x"
proof (induction ps arbitrary: obj)
  case (Cons p ps)
  then show ?case by (cases obj) (auto split: option.splits)
qed auto

text \<open>What a change at one place does to another that does not lie below it.\<close>

lemma look_put:
  "look obj u = Some x \<Longrightarrow> \<not> prefix s u \<Longrightarrow>
     look (put_place obj s v) u = Some (if prefix u s then put_place x (drop (length u) s) v else x)"
proof (induction obj s v arbitrary: u rule: put_place.induct)
  case (2 fs a ps v)
  show ?case
  proof (cases u)
    case (Cons p u')
    then show ?thesis using 2 by (cases p) (auto split: option.splits if_splits)
  qed (use 2 in simp)
next
  case (3 xs i ps v)
  show ?case
  proof (cases u)
    case (Cons p u')
    then show ?thesis using 3 by (cases p) (auto simp: nth_list_update split: if_splits)
  qed (use 3 in simp)
next
  case 1
  then show ?case by simp
next
  case "4_1"
  then show ?case by (cases u) auto
next
  case "4_2"
  then show ?case by (cases u) auto
next
  case "4_3"
  then show ?case by (cases u) auto
next
  case "4_4"
  then show ?case by (cases u) auto
qed

lemma look_put_same: "look obj s \<noteq> None \<Longrightarrow> look (put_place obj s v) s = Some v"
  by (induction obj s v rule: put_place.induct) (auto split: option.splits if_splits)

lemma put_put_attr:
  "look obj s = Some (PyObj fs) \<Longrightarrow> map_of fs a = Some y \<Longrightarrow>
     put_place obj s (PyObj (AList.update a v fs)) = put_place obj (s @ [Attr a]) v"
  by (induction obj s "PyObj (AList.update a v fs)" rule: put_place.induct) (auto split: option.splits if_splits)

definition same_kind :: "'x pyobj \<Rightarrow> 'x pyobj \<Rightarrow> bool" where
  "same_kind x y \<longleftrightarrow> (case (x, y) of (PyObj _, PyObj _) \<Rightarrow> True | (PyList xs, PyList ys) \<Rightarrow> length xs = length ys | _ \<Rightarrow> x = y)"

lemma same_kind_refl [simp]: "same_kind x x"
  by (cases x) (simp_all add: same_kind_def)

lemma same_kind_put: "s \<noteq> [] \<Longrightarrow> same_kind x (put_place x s v)"
  by (cases s; cases "hd s"; cases x) (auto simp: same_kind_def split: option.splits)

lemma look_put_kind:
  assumes "look obj u = Some x" and "\<not> prefix s u"
  obtains x' where "look (put_place obj s v) u = Some x'" and "same_kind x x'" and "\<not> prefix u s \<Longrightarrow> x' = x"
proof -
  let ?x = "if prefix u s then put_place x (drop (length u) s) v else x"
  have "drop (length u) s \<noteq> []" if "prefix u s" using that assms(2) by (auto elim!: prefixE)
  then have "same_kind x ?x" using same_kind_put [of "drop (length u) s" x v] by simp
  then show ?thesis using look_put [OF assms, of v] by (intro that [of ?x]) auto
qed

text \<open>Resolving a key is looking at a place that only the key and the lengths of the lists decide.\<close>

lemma item_pos_Inr: "item_pos ls i = Inr (j, x) \<longleftrightarrow> (\<exists>xs. ls = PyList xs \<and> py_pos xs i = Inr j \<and> x = xs ! j)"
  by (cases ls) (auto simp: res_bind_Inr_iff)

lemma py_pos_length: "length xs = length ys \<Longrightarrow> py_pos xs i = py_pos ys i"
  by (simp add: py_pos_def)

lemma py_pos_bound: "py_pos xs i = Inr j \<Longrightarrow> j < length xs"
  by (auto simp: py_pos_def Let_def split: if_splits)

lemma under_layers_look:
  "under_layers obj pre nr = Inr (u, x) \<longleftrightarrow>
     (\<exists>num rest xs i j. nr = num # rest \<and> look obj (map Attr pre) = Some (PyList xs) \<and> py_int num = Inr i \<and>
        py_pos xs i = Inr j \<and> u = map Attr pre @ Item j # map Attr rest \<and> look obj u = Some x)"
proof -
  have "look obj (map Attr pre @ Item j # map Attr rest) = Some x \<longleftrightarrow> getattrs (xs ! j) rest = Inr x"
    if "look obj (map Attr pre) = Some (PyList xs)" "py_pos xs i = Inr j" for xs i j rest
    using that py_pos_bound [OF that(2)] by (simp add: look_append getattrs_look)
  then show ?thesis
    by (cases nr) (fastforce simp: under_layers_def res_bind_Inr_iff getattrs_look item_pos_Inr)+
qed

lemma resolve_look: "lora_resolve obj key = Inr (u, x) \<Longrightarrow> look obj u = Some x"
  by (auto simp: lora_resolve_def Let_def under_layers_look res_bind_Inr_iff getattrs_look split: if_splits)

lemma under_layers_put:
  assumes "under_layers obj pre nr = Inr (u, x)" and "\<not> strict_prefix s u" and "look (put_place obj s v) u = Some x'"
  shows "under_layers (put_place obj s v) pre nr = Inr (u, x')"
proof -
  obtain num rest xs i j where *: "nr = num # rest" "look obj (map Attr pre) = Some (PyList xs)" "py_int num = Inr i"
    "py_pos xs i = Inr j" "u = map Attr pre @ Item j # map Attr rest"
    using assms(1) by (auto simp: under_layers_look)
  have "strict_prefix (map Attr pre) u" by (simp add: *(5) strict_prefix_def)
  then have "\<not> prefix s (map Attr pre)" using assms(2) prefix_order.le_less_trans by blast
  then obtain ls where ls: "look (put_place obj s v) (map Attr pre) = Some ls" "same_kind (PyList xs) ls"
    using look_put_kind [OF *(2)] by metis
  then obtain ys where ys: "ls = PyList ys" "length xs = length ys" by (cases ls) (auto simp: same_kind_def)
  then show ?thesis using * ls assms(3) py_pos_length [OF ys(2)] by (auto simp: under_layers_look)
qed

lemma resolve_put:
  assumes "lora_resolve obj key = Inr (u, x)" and "\<not> strict_prefix s u" and "look (put_place obj s v) u = Some x'"
  shows "lora_resolve (put_place obj s v) key = Inr (u, x')"
  using assms under_layers_put [OF _ assms(2,3)]
  by (fastforce simp: lora_resolve_def Let_def res_bind_Inr_iff getattrs_look split: if_split_asm)

lemma resolve_put_kind:
  assumes "lora_resolve obj key = Inr (u, x)" and "\<not> prefix s u"
  obtains x' where "lora_resolve (put_place obj s v) key = Inr (u, x')" and "same_kind x x'" and "\<not> prefix u s \<Longrightarrow> x' = x"
proof -
  obtain x' where "look (put_place obj s v) u = Some x'" "same_kind x x'" "\<not> prefix u s \<Longrightarrow> x' = x"
    using look_put_kind [OF resolve_look [OF assms(1)] assms(2)] by metis
  then show ?thesis using that resolve_put [OF assms(1)] assms(2) by (metis strict_prefix_def)
qed

lemma resolve_put_same: "lora_resolve obj key = Inr (s, x) \<Longrightarrow> lora_resolve (put_place obj s v) key = Inr (s, v)"
  using resolve_put [of obj key s x s v v] look_put_same [of obj s v] resolve_look [of obj key s x] by simp

section \<open>What is installed\<close>

definition apart :: "place list \<Rightarrow> place list \<Rightarrow> bool" where
  "apart s u \<longleftrightarrow> \<not> prefix s u \<and> \<not> prefix u s"

text \<open>A target the code can wrap: an attribute of an object that its owner's key reaches.\<close>

definition adaptable :: "'a module \<Rightarrow> string \<Rightarrow> place list \<Rightarrow> 'a module \<Rightarrow> bool" where
  "adaptable model key s orig \<longleftrightarrow>
     lora_resolve model key = Inr (s, orig) \<and> s \<noteq> [] \<and> last s = Attr (last (split_on CHR ''.'' key)) \<and>
     (\<exists>fs. lora_resolve model (owner_key key) = Inr (butlast s, PyObj fs)) \<and> (has_attr orig ''weight'' \<or> has_attr orig ''base'')"

lemma adaptable_bind:
  assumes "adaptable model key s orig"
  shows "bind_lora model key new = Inr (put_place model s new)"
proof -
  obtain fs where fs: "lora_resolve model (owner_key key) = Inr (butlast s, PyObj fs)" using assms by (auto simp: adaptable_def)
  let ?a = "last (split_on CHR ''.'' key)"
  have s: "s = butlast s @ [Attr ?a]" using assms by (metis adaptable_def append_butlast_last_id)
  have "look model (butlast s @ [Attr ?a]) = Some orig" using resolve_look assms s by (metis adaptable_def)
  then have "map_of fs ?a = Some orig" using resolve_look [OF fs] by (simp add: look_append split: option.splits)
  then have "put_place model (butlast s) (PyObj (AList.update ?a new fs)) = put_place model s new"
    using put_put_attr [OF resolve_look [OF fs]] s by metis
  then show ?thesis using fs by (simp add: bind_lora_def)
qed

lemma adaptable_put:
  assumes "adaptable model key s orig" and "apart s' s"
  shows "adaptable (put_place model s' v) key s orig"
proof -
  obtain fs where fs: "lora_resolve model (owner_key key) = Inr (butlast s, PyObj fs)" using assms(1) by (auto simp: adaptable_def)
  have "\<not> prefix s' (butlast s)" using assms(2) by (metis apart_def prefix_order.trans prefixeq_butlast)
  then obtain x' where x': "lora_resolve (put_place model s' v) (owner_key key) = Inr (butlast s, x')" "same_kind (PyObj fs) x'"
    using resolve_put_kind [OF fs] by metis
  moreover obtain fs' where "x' = PyObj fs'" using x'(2) by (cases x') (auto simp: same_kind_def)
  moreover have "lora_resolve (put_place model s' v) key = Inr (s, orig)"
    using assms resolve_put_kind [of model key s orig s' v] by (metis adaptable_def apart_def)
  ultimately show ?thesis using assms(1) by (auto simp: adaptable_def)
qed

definition untouched :: "place list set \<Rightarrow> 'a module \<Rightarrow> 'a module \<Rightarrow> bool" where
  "untouched S model model' \<longleftrightarrow>
     (\<forall>u x. (\<forall>s \<in> S. apart s u) \<and> look model u = Some x \<longrightarrow> look model' u = Some x) \<and>
     (\<forall>key u x. (\<forall>s \<in> S. apart s u) \<and> lora_resolve model key = Inr (u, x) \<longrightarrow> lora_resolve model' key = Inr (u, x))"

lemma untouched_put: "untouched {s} model (put_place model s v)"
proof -
  have "look (put_place model s v) u = Some x" if "apart s u" "look model u = Some x" for u x
    using look_put_kind [OF that(2), of s v] that(1) by (metis apart_def)
  moreover have "lora_resolve (put_place model s v) key = Inr (u, x)" if "apart s u" "lora_resolve model key = Inr (u, x)" for key u x
    using resolve_put_kind [OF that(2), of s v] that(1) by (metis apart_def)
  ultimately show ?thesis by (simp add: untouched_def)
qed

lemma untouched_trans: "untouched S m1 m2 \<Longrightarrow> untouched S' m2 m3 \<Longrightarrow> untouched (S \<union> S') m1 m3"
  by (auto simp: untouched_def)

definition wrapped :: "('a list list \<Rightarrow> 'a list list) \<Rightarrow> 'a \<Rightarrow> (string \<Rightarrow> 'a module) \<Rightarrow> (string \<Rightarrow> 'a list list) \<Rightarrow>
    (string \<Rightarrow> 'a list list) \<Rightarrow> string \<Rightarrow> 'a module" where
  "wrapped cast scale orig A B t = LoraLinear (orig t) (cast (A t)) (cast (B t)) scale"

lemma install_each_ok:
  assumes "\<forall>t \<in> set ts. adaptable model t (pl t) (orig t)" and "distinct ts"
    and "\<forall>t \<in> set ts. \<forall>t' \<in> set ts. t \<noteq> t' \<longrightarrow> apart (pl t) (pl t')"
  shows "\<exists>model'. install_each cast strict (map (\<lambda>t. (t, Some (A t), Some (B t))) ts) rep model =
      (Inr (rep\<lparr>lr_applied := lr_applied rep @ ts\<rparr>), model') \<and>
    (\<forall>t \<in> set ts. lora_resolve model' t = Inr (pl t, wrapped cast (lr_scale rep) orig A B t)) \<and> untouched (pl ` set ts) model model'"
  using assms
proof (induction ts arbitrary: model rep)
  case Nil
  then show ?case by (auto simp: untouched_def)
next
  case (Cons t ts)
  have t: "adaptable model t (pl t) (orig t)" using Cons.prems(1) by simp
  let ?m = "put_place model (pl t) (wrapped cast (lr_scale rep) orig A B t)"
  let ?rep = "rep\<lparr>lr_applied := lr_applied rep @ [t]\<rparr>"
  have far: "apart (pl t) (pl t')" if "t' \<in> set ts" for t' using Cons.prems(2,3) that by auto
  have "\<forall>t' \<in> set ts. adaptable ?m t' (pl t') (orig t')" using Cons.prems(1) far by (auto intro!: adaptable_put)
  then obtain m' where m': "install_each cast strict (map (\<lambda>t. (t, Some (A t), Some (B t))) ts) ?rep ?m =
        (Inr (?rep\<lparr>lr_applied := lr_applied ?rep @ ts\<rparr>), m')"
      "\<forall>t' \<in> set ts. lora_resolve m' t' = Inr (pl t', wrapped cast (lr_scale ?rep) orig A B t')" "untouched (pl ` set ts) ?m m'"
    using Cons.IH [of ?m ?rep] Cons.prems(2,3) by auto
  have r: "lora_resolve model t = Inr (pl t, orig t)" using t by (simp add: adaptable_def)
  have "lora_resolve ?m t = Inr (pl t, wrapped cast (lr_scale rep) orig A B t)" by (rule resolve_put_same [OF r])
  moreover have "apart s (pl t)" if "s \<in> pl ` set ts" for s using far that by (auto simp: apart_def)
  ultimately have "lora_resolve m' t = Inr (pl t, wrapped cast (lr_scale rep) orig A B t)" using m'(3) by (auto simp: untouched_def)
  moreover have "install_each cast strict (map (\<lambda>t. (t, Some (A t), Some (B t))) (t # ts)) rep model =
      install_each cast strict (map (\<lambda>t. (t, Some (A t), Some (B t))) ts) ?rep ?m"
    using r t adaptable_bind [OF t] by (auto simp: adaptable_def has_attr_def wrapped_def)
  ultimately show ?case
    using m' untouched_trans [OF untouched_put m'(3)] by (intro exI [of _ m']) auto
qed

text \<open>Grouping the file's tensors by target.\<close>

definition key_A :: "string \<Rightarrow> string" where "key_A t = t @ ''.lora_A''"

definition key_B :: "string \<Rightarrow> string" where "key_B t = t @ ''.lora_B''"

lemma ends_with_iff: "ends_with p s \<longleftrightarrow> (\<exists>r. s = r @ p)"
  by (auto simp: ends_with_def starts_with_iff) (metis rev_append rev_rev_ident)

lemma key_ends [simp]:
  "ends_with ''.lora_A'' (key_A t)" "\<not> ends_with ''.lora_A'' (key_B t)" "ends_with ''.lora_B'' (key_B t)"
  "take (length (key_A t) - 7) (key_A t) = t" "take (length (key_B t) - 7) (key_B t) = t"
  by (auto simp: key_A_def key_B_def ends_with_iff)

lemma key_inj [simp]: "key_A t = key_A t' \<longleftrightarrow> t = t'" "key_B t = key_B t' \<longleftrightarrow> t = t'" "key_A t \<noteq> key_B t'" "key_B t \<noteq> key_A t'"
  by (auto simp: key_A_def key_B_def)

definition first_of :: "'a option \<Rightarrow> 'a option \<Rightarrow> 'a option" where
  "first_of a b = (case a of None \<Rightarrow> b | Some x \<Rightarrow> Some x)"

definition half :: "('k \<times> 'm halves) list \<Rightarrow> 'k \<Rightarrow> 'm halves" where
  "half d t = (case map_of d t of None \<Rightarrow> (None, None) | Some h \<Rightarrow> h)"

lemma first_of_None [simp]: "first_of a None = a"
  by (cases a) (simp_all add: first_of_def)

lemma group_lora_ok:
  assumes "dict_ok lora" and "\<forall>k \<in> set (keys_of lora). \<exists>t. k = key_A t \<or> k = key_B t"
  shows "dict_ok d \<Longrightarrow> \<exists>d'. group_lora lora d = Inr d' \<and> dict_ok d' \<and>
    (\<forall>t. half d' t = (first_of (map_of lora (key_A t)) (fst (half d t)), first_of (map_of lora (key_B t)) (snd (half d t)))) \<and>
    set (keys_of d') = set (keys_of d) \<union> {t. key_A t \<in> set (keys_of lora) \<or> key_B t \<in> set (keys_of lora)}"
  using assms
proof (induction lora arbitrary: d)
  case Nil
  then show ?case by (simp add: first_of_def keys_of_def)
next
  case (Cons kv lora)
  obtain k v where kv: "kv = (k, v)" by (cases kv)
  have rest: "dict_ok lora" "\<forall>k \<in> set (keys_of lora). \<exists>t. k = key_A t \<or> k = key_B t" "map_of lora k = None"
    using Cons.prems(2,3) kv by (auto simp: dict_ok_def keys_of_def map_of_eq_None_iff)
  obtain t where t: "k = key_A t \<or> k = key_B t" using Cons.prems(3) kv by (auto simp: keys_of_def)
  let ?h = "half d t"
  let ?d = "AList.update t (if k = key_A t then (Some v, snd ?h) else (fst ?h, Some v)) d"
  have run: "group_lora (kv # lora) d = group_lora lora ?d"
    using t by (auto simp: kv half_def split: prod.splits option.splits)
  have new: "half ?d t' = (if t' = t then (if k = key_A t then (Some v, snd ?h) else (fst ?h, Some v)) else half d t')" for t'
    by (simp add: half_def)
  obtain d' where d': "group_lora lora ?d = Inr d'" "dict_ok d'"
      "\<forall>t. half d' t = (first_of (map_of lora (key_A t)) (fst (half ?d t)), first_of (map_of lora (key_B t)) (snd (half ?d t)))"
      "set (keys_of d') = set (keys_of ?d) \<union> {t. key_A t \<in> set (keys_of lora) \<or> key_B t \<in> set (keys_of lora)}"
    using Cons.IH [OF _ rest(1,2), of ?d] Cons.prems(1) by auto
  have "half d' t' = (first_of (map_of (kv # lora) (key_A t')) (fst (half d t')), first_of (map_of (kv # lora) (key_B t')) (snd (half d t')))" for t'
    using t rest(3) by (auto simp: d'(3) new kv first_of_def split: option.split)
  moreover have "set (keys_of d') = set (keys_of d) \<union> {t. key_A t \<in> set (keys_of (kv # lora)) \<or> key_B t \<in> set (keys_of (kv # lora))}"
  proof -
    have "keys_of (kv # lora) = k # keys_of lora" by (simp add: keys_of_def kv)
    then show ?thesis using t by (auto simp: d'(4) keys_of_update)
  qed
  ultimately show ?case using run d'(1,2) by auto
qed

text \<open>
  C27: installing an adapter wraps exactly its targets. For a file of tensors \<open>t.lora_A\<close> and \<open>t.lora_B\<close>, both for
  each target, whose targets are attributes of objects of the model with a weight (or already wrapped) and do
  not lie in one another, the installation succeeds, strict or not: it reports all targets, in order, at each of
  them there is now a \<open>LoraLinear\<close> around the unchanged original with the file's tensors and the scale
  \<open>alpha / r\<close>, and everything that is not above or below a target is as it was.
\<close>

theorem install_lora_wraps_targets:
  fixes A B :: "string \<Rightarrow> 'a::field list list"
  assumes "dict_ok lora" and "set (keys_of lora) = key_A ` set ts \<union> key_B ` set ts" and "ts \<noteq> []"
    and "\<forall>t \<in> set ts. map_of lora (key_A t) = Some (A t) \<and> map_of lora (key_B t) = Some (B t)"
    and "\<forall>t \<in> set ts. adaptable model t (pl t) (orig t)"
    and "\<forall>t \<in> set ts. \<forall>t' \<in> set ts. t \<noteq> t' \<longrightarrow> apart (pl t) (pl t')" and "r \<noteq> 0"
  shows "\<exists>model'. install_lora cast (Some lora) r alpha strict model =
      (Inr \<lparr>lr_applied = sorted_list_of_set (set ts), lr_not_found = [], lr_skipped = [], lr_scale = alpha / of_int r\<rparr>, model') \<and>
    (\<forall>t \<in> set ts. lora_resolve model' t = Inr (pl t, LoraLinear (orig t) (cast (A t)) (cast (B t)) (alpha / of_int r))) \<and>
    (\<forall>u x. (\<forall>t \<in> set ts. apart (pl t) u) \<longrightarrow> look model u = Some x \<longrightarrow> look model' u = Some x)"
proof -
  have keys: "\<forall>k \<in> set (keys_of lora). \<exists>t. k = key_A t \<or> k = key_B t" using assms(2) by auto
  obtain d where d: "group_lora lora [] = Inr d" "dict_ok d" "\<forall>t. half d t = (map_of lora (key_A t), map_of lora (key_B t))"
      "set (keys_of d) = {t. key_A t \<in> set (keys_of lora) \<or> key_B t \<in> set (keys_of lora)}"
    using group_lora_ok [OF assms(1) keys dict_ok_Nil] by (auto simp: half_def keys_of_def [of "[]"])
  let ?s = "sort_key fst d"
  have names: "set (keys_of d) = set ts" using d(4) assms(2) by auto
  have sorted: "map fst ?s = sorted_list_of_set (set ts)"
    by (rule sorted_distinct_set_unique) (use d(2) names in \<open>simp_all add: dict_ok_def keys_of_def distinct_map\<close>)
  have each: "x = (fst x, Some (A (fst x)), Some (B (fst x)))" if "x \<in> set ?s" for x
  proof -
    have x: "x \<in> set d" using that by simp
    then have m: "map_of d (fst x) = Some (snd x)" using d(2) by (simp add: dict_ok_def keys_of_def)
    have "fst x \<in> set ts" using x names by (auto simp: keys_of_def)
    then have "snd x = (Some (A (fst x)), Some (B (fst x)))"
      using spec [OF d(3), of "fst x"] assms(4) by (simp add: half_def m)
    then show ?thesis by (metis prod.collapse)
  qed
  have "map (\<lambda>t. (t, Some (A t), Some (B t))) (map fst ?s) = map (\<lambda>x. x) ?s"
    unfolding map_map by (rule map_cong [OF refl]) (use each in force)
  then have list: "?s = map (\<lambda>t. (t, Some (A t), Some (B t))) (sorted_list_of_set (set ts))" by (simp add: sorted)
  have "lora \<noteq> []" using assms(2,3) by (cases ts) (auto simp: keys_of_def)
  then have run: "install_lora cast (Some lora) r alpha strict model =
      install_each cast strict (map (\<lambda>t. (t, Some (A t), Some (B t))) (sorted_list_of_set (set ts)))
        \<lparr>lr_applied = [], lr_not_found = [], lr_skipped = [], lr_scale = alpha / of_int r\<rparr> model"
    using d(1) assms(7) list by (simp add: install_lora_def)
  show ?thesis
    using install_each_ok [of "sorted_list_of_set (set ts)" model pl orig cast strict A B
        "\<lparr>lr_applied = [], lr_not_found = [], lr_skipped = [], lr_scale = alpha / of_int r\<rparr>"] assms(5,6)
    unfolding run by (auto simp: wrapped_def untouched_def)
qed

section \<open>A parallel path is a merged weight\<close>

definition merged_weight :: "'a::comm_ring_1 list list \<Rightarrow> 'a list list \<Rightarrow> 'a list list \<Rightarrow> 'a \<Rightarrow> 'a list list" where
  "merged_weight W a b scale =
     map2 (\<lambda>w bo. map (\<lambda>i. w ! i + scale * (\<Sum>j < length a. bo ! j * a ! j ! i)) [0..<length w]) W b"

lemma dot_nth: "length xs = length ys \<Longrightarrow> dot xs ys = (\<Sum>i < length ys. xs ! i * ys ! i)"
  by (simp add: dot_def sum_list_sum_nth lessThan_atLeast0)

lemma merged_row:
  fixes x :: "'a::comm_ring_1 list"
  assumes "length w = length x" and "length bo = length a" and "\<forall>r \<in> set a. length r = length x"
  shows "dot x w + scale * dot (map (dot x) a) bo = dot x (map (\<lambda>i. w ! i + scale * (\<Sum>j < length a. bo ! j * a ! j ! i)) [0..<length w])"
proof -
  let ?n = "length x"
  have "dot (map (dot x) a) bo = (\<Sum>j < length a. (\<Sum>i < ?n. x ! i * a ! j ! i) * bo ! j)"
    using assms(2,3) by (simp add: dot_nth)
  also have "\<dots> = (\<Sum>i < ?n. x ! i * (\<Sum>j < length a. bo ! j * a ! j ! i))"
    by (simp add: sum_distrib_left sum_distrib_right mult_ac sum.swap [of _ "{..<length a}"])
  finally show ?thesis
    using assms(1) by (simp add: dot_nth distrib_left sum.distrib sum_distrib_left mult.left_commute)
qed

text \<open>
  C28: the parallel path is the merged weight. In exact arithmetic, calling the \<open>LoraLinear\<close> that the
  installation puts around a linear layer of weight \<open>W\<close> gives what a linear layer of weight
  \<open>W + scale * (B @ A)\<close> gives.
\<close>

theorem lora_is_merged_weight:
  fixes x :: "'a::field list"
  assumes "lk_to_adapter K = id" and "lk_to_output K = id"
    and "module_call K base x = linear W x" and "\<forall>w \<in> set W. length w = length x"
    and "\<forall>r \<in> set a. length r = length x" and "length b = length W" and "\<forall>r \<in> set b. length r = length a"
  shows "module_call K (LoraLinear base a b scale) x = linear (merged_weight W a b scale) x"
proof -
  have rows: "\<forall>r \<in> set (merged_weight W a b scale). length r = length x"
    using assms(4) by (auto simp: merged_weight_def dest!: set_zip_leftD)
  have "module_call K (LoraLinear base a b scale) x =
      Inr (map2 (+) (map (dot x) W) (map (\<lambda>bo. scale * dot (map (dot x) a) bo) b))"
    using assms by (simp add: LoraLinear_def is_lora_def lora_delta_def linear_def add_out_def comp_def)
  also have "map2 (+) (map (dot x) W) (map (\<lambda>bo. scale * dot (map (dot x) a) bo) b) = map (dot x) (merged_weight W a b scale)"
  proof (rule nth_equalityI)
    show "length (map2 (+) (map (dot x) W) (map (\<lambda>bo. scale * dot (map (dot x) a) bo) b)) = length (map (dot x) (merged_weight W a b scale))"
      using assms(6) by (simp add: merged_weight_def)
  next
    fix i assume "i < length (map2 (+) (map (dot x) W) (map (\<lambda>bo. scale * dot (map (dot x) a) bo) b))"
    then have i: "i < length W" "i < length b" by simp_all
    show "map2 (+) (map (dot x) W) (map (\<lambda>bo. scale * dot (map (dot x) a) bo) b) ! i = map (dot x) (merged_weight W a b scale) ! i"
      using i assms(4,7) merged_row [of "W ! i" x "b ! i" a scale] assms(5) by (simp add: merged_weight_def)
  qed
  finally show ?thesis using rows by (simp add: linear_def)
qed

text \<open>
  With \<open>strict\<close> off a missing target is not skipped: \<open>_resolve\<close> raises before the code can see that there is
  nothing. A target at the top of the model cannot be wrapped at all, since its owner's key is empty.
\<close>

lemma missing_target_raises:
  assumes "lora_resolve model t = Inl e"
  shows "fst (install_lora cast (Some [(key_A t, a), (key_B t, b)]) 16 alpha strict model) = Inl e"
  using assms key_ends by (simp add: install_lora_def Let_def)

lemma top_level_target_fails:
  assumes "CHR ''.'' \<notin> set t" and "model = PyObj fs" and "map_of fs t = Some md" and "map_of fs [] = None"
    and "has_attr md ''weight''"
  shows "fst (install_lora cast (Some [(key_A t, a), (key_B t, b)]) 16 alpha strict model) = Inl AttributeError"
proof -
  have parts: "split_on CHR ''.'' t = [t]" using assms(1) by (induction t) auto
  then have "lora_resolve model t = Inr ([Attr t], md)" using assms(2,3) by (simp add: lora_resolve_def)
  moreover have "lora_resolve model (owner_key t) = Inl AttributeError"
    using assms(2,4) by (simp add: owner_key_def parts lora_resolve_def)
  moreover have "md \<noteq> PyLeaf PyNone" using assms(5) by (auto simp: has_attr_def)
  ultimately show ?thesis using assms(5) key_ends by (simp add: install_lora_def Let_def bind_lora_def)
qed

section \<open>Witnesses\<close>

definition demo_q :: "rat module" where
  "demo_q = PyObj [(''weight'', PyLeaf (Tensor [[1, 0], [0, 1]]))]"

definition demo_k :: "rat module" where
  "demo_k = PyObj [(''weight'', PyLeaf (Tensor [[0, 1], [1, 0]]))]"

definition demo_attention :: "(string \<times> rat module) list" where
  "demo_attention = [(''q_proj'', demo_q), (''k_proj'', demo_k)]"

definition demo_net :: "rat module" where
  "demo_net = PyObj [(''model'', PyObj [(''layers'', PyList [PyObj [(''attention'', PyObj demo_attention)]])])]"

definition q_name :: string where "q_name = ''model.layers.0.attention.q_proj''"

definition k_name :: string where "k_name = ''model.layers.0.attention.k_proj''"

definition demo_place :: "string \<Rightarrow> place list" where
  "demo_place t = [Attr ''model'', Attr ''layers'', Item 0, Attr ''attention'', Attr (if t = q_name then ''q_proj'' else ''k_proj'')]"

definition demo_orig :: "string \<Rightarrow> rat module" where
  "demo_orig t = (if t = q_name then demo_q else demo_k)"

definition demo_file :: "(string \<times> rat list list) list" where
  "demo_file = [(key_A q_name, [[1, 2]]), (key_B k_name, [[3], [4]]), (key_A k_name, [[1, 2]]), (key_B q_name, [[3], [4]])]"

lemma demo_resolved:
  "lora_resolve demo_net q_name = Inr (demo_place q_name, demo_q)" "lora_resolve demo_net k_name = Inr (demo_place k_name, demo_k)"
  "lora_resolve demo_net (owner_key q_name) = Inr (butlast (demo_place q_name), PyObj demo_attention)"
  "lora_resolve demo_net (owner_key k_name) = Inr (butlast (demo_place k_name), PyObj demo_attention)"
  "last (split_on CHR ''.'' q_name) = ''q_proj''" "last (split_on CHR ''.'' k_name) = ''k_proj''" "q_name \<noteq> k_name"
  by code_simp+

lemma demo_adaptable: "t \<in> {q_name, k_name} \<Longrightarrow> adaptable demo_net t (demo_place t) (demo_orig t)"
  using demo_resolved by (auto simp: adaptable_def demo_orig_def demo_place_def has_attr_def demo_q_def demo_k_def)

lemma install_lora_wraps_targets_witness:
  "\<exists>model'. install_lora id (Some demo_file) 16 32 True demo_net =
      (Inr \<lparr>lr_applied = sorted_list_of_set (set [q_name, k_name]), lr_not_found = [], lr_skipped = [], lr_scale = 32 / of_int 16\<rparr>, model') \<and>
    (\<forall>t \<in> set [q_name, k_name]. lora_resolve model' t = Inr (demo_place t, LoraLinear (demo_orig t) (id [[1, 2]]) (id [[3], [4]]) (32 / of_int 16))) \<and>
    (\<forall>u x. (\<forall>t \<in> set [q_name, k_name]. apart (demo_place t) u) \<longrightarrow> look demo_net u = Some x \<longrightarrow> look model' u = Some x)"
proof (rule install_lora_wraps_targets [where A = "\<lambda>_. [[1, 2]]" and B = "\<lambda>_. [[3], [4]]"])
  show "dict_ok demo_file" "set (keys_of demo_file) = key_A ` set [q_name, k_name] \<union> key_B ` set [q_name, k_name]"
    using demo_resolved(7) by (auto simp: demo_file_def dict_ok_def keys_of_def)
  show "\<forall>t \<in> set [q_name, k_name]. map_of demo_file (key_A t) = Some [[1, 2]] \<and> map_of demo_file (key_B t) = Some [[3], [4]]"
    using demo_resolved(7) by (auto simp: demo_file_def)
  show "\<forall>t \<in> set [q_name, k_name]. adaptable demo_net t (demo_place t) (demo_orig t)" using demo_adaptable by auto
  show "\<forall>t \<in> set [q_name, k_name]. \<forall>t' \<in> set [q_name, k_name]. t \<noteq> t' \<longrightarrow> apart (demo_place t) (demo_place t')"
    using demo_resolved(7) by (auto simp: apart_def demo_place_def)
qed simp_all

definition demo_calls :: "rat lkernels" where
  "demo_calls = \<lparr>lk_call = (\<lambda>md x. case md of PyObj [(_, PyLeaf (Tensor W))] \<Rightarrow> linear W x | _ \<Rightarrow> Inl TypeError),
     lk_to_adapter = id, lk_to_output = id\<rparr>"

lemma lora_is_merged_weight_witness:
  "module_call demo_calls (LoraLinear demo_q [[1, 2]] [[3], [4]] 2) [5, 6] = linear (merged_weight [[1, 0], [0, 1]] [[1, 2]] [[3], [4]] 2) [5, 6] \<and>
   linear (merged_weight [[1, 0], [0, 1]] [[1, 2]] [[3], [4]] 2) [5, 6 :: rat] = Inr [107, 142]"
proof
  show "module_call demo_calls (LoraLinear demo_q [[1, 2]] [[3], [4]] 2) [5, 6] = linear (merged_weight [[1, 0], [0, 1]] [[1, 2]] [[3], [4]] 2) [5, 6]"
    by (rule lora_is_merged_weight) (simp_all add: demo_calls_def demo_q_def is_lora_def linear_def)
  show "linear (merged_weight [[1, 0], [0, 1]] [[1, 2]] [[3], [4]] 2) [5, 6 :: rat] = Inr [107, 142]" by code_simp
qed

end
