(* ===== verification/Q41.thy ===== *)
theory Q41
  imports Byte_Pack
begin

unbundle bit_operations_syntax

text \<open>
  The lossless core of \<open>windows/tools/repack_mlx_to_gguf.py\<close>: MLX words of eight 4-bit codes are unpacked
  (\<open>mlx_q_bytes\<close>) and packed into ggml \<open>Q4_1\<close> blocks (\<open>pack_q41_rows\<close>), with the grading of scales that a
  half float cannot hold; two independent dequantizations (\<open>deq_mlx_side\<close>, \<open>deq_gguf_side\<close>) are compared bit
  by bit, outside the exempted blocks, by the gate of \<open>run\<close>.

  A float32 or float16 is its bit pattern. Conversion and arithmetic are numpy's, hence arguments.
\<close>

type_synonym f32 = "32 word"
type_synonym f16 = "16 word"

record float_ops =
  to_half :: "f32 \<Rightarrow> f16"
  of_half :: "f16 \<Rightarrow> f32"
  of_code :: "nat \<Rightarrow> f32"
  fmul :: "f32 \<Rightarrow> f32 \<Rightarrow> f32"
  fadd :: "f32 \<Rightarrow> f32 \<Rightarrow> f32"

text \<open>
  \<open>np.isnan\<close>, and the numeric \<open>!=\<close> of float32: the two zeros are equal, and NaN differs from everything.
\<close>

definition is_nan :: "f32 \<Rightarrow> bool" where
  "is_nan x \<longleftrightarrow> 0x7F800000 < x AND 0x7FFFFFFF"

definition is_zero :: "f32 \<Rightarrow> bool" where
  "is_zero x \<longleftrightarrow> x AND 0x7FFFFFFF = 0"

definition fneq :: "f32 \<Rightarrow> f32 \<Rightarrow> bool" where
  "fneq x y \<longleftrightarrow> is_nan x \<or> is_nan y \<or> (x \<noteq> y \<and> \<not> (is_zero x \<and> is_zero y))"

text \<open>
  The laws used of IEEE rounding to half and back: it keeps the sign of a zero; and the product of zero and a
  scale that does not overflow a half depends on the scale's sign only, which rounding keeps. (The
  smallest magnitude that rounds to infinity is 65520, \<open>0x477FF000\<close>.)
\<close>

definition half_range :: "f32 \<Rightarrow> bool" where
  "half_range x \<longleftrightarrow> x AND 0x7FFFFFFF < 0x477FF000"

definition ieee_ok :: "float_ops \<Rightarrow> bool" where
  "ieee_ok fo \<longleftrightarrow>
     of_half fo (to_half fo 0) = 0 \<and> of_half fo (to_half fo 0x80000000) = 0x80000000 \<and>
     (\<forall>x. half_range x \<longrightarrow> fmul fo (of_code fo 0) (of_half fo (to_half fo x)) = fmul fo (of_code fo 0) x)"

section \<open>Unpacking and packing the codes\<close>

text \<open>\<open>mlx_q_bytes\<close>: the eight nibbles of each word, lowest first.\<close>

definition mlx_q_bytes :: "32 word list \<Rightarrow> 32 word list" where
  "mlx_q_bytes ws = concat (map (\<lambda>w. map (\<lambda>k. drop_bit (4 * k) w AND 0xF) [0..<8]) ws)"

text \<open>
  A \<open>Q4_1\<close> block. \<open>qs\<close> packs code \<open>j\<close> in the low and code \<open>j + 16\<close> in the high nibble; the arithmetic is done
  at the width of the code array (\<open>uint32\<close> or \<open>uint8\<close>) and truncated to a byte.
\<close>

record q41 =
  qd :: f16
  qm :: f16
  qs :: "u8 list"

definition pack_codes :: "'a::len word list \<Rightarrow> u8 list" where
  "pack_codes q = map (\<lambda>j. ucast (q ! j OR push_bit 4 (q ! (j + 16)))) [0..<16]"

definition chunk32 :: "nat \<Rightarrow> 'a list \<Rightarrow> 'a list" where
  "chunk32 b q = take 32 (drop (32 * b) q)"

definition group64 :: "nat \<Rightarrow> 'a list \<Rightarrow> 'a list" where
  "group64 g q = take 64 (drop (64 * g) q)"

text \<open>
  The range gate's counters: elements seen, malignant breaches, benign breaches. A scale or bias breaches when
  its half float is another number; a breaching scale is benign when all codes of its group are zero.
\<close>

record gate_counts =
  g_elems :: nat
  g_breach :: nat
  g_benign :: nat

definition breaches :: "float_ops \<Rightarrow> f32 \<Rightarrow> bool" where
  "breaches fo x \<longleftrightarrow> fneq (of_half fo (to_half fo x)) x \<and> \<not> is_nan x"

definition all_zero :: "'a::zero list \<Rightarrow> bool" where
  "all_zero q \<longleftrightarrow> list_all (\<lambda>c. c = 0) q"

definition positions :: "nat \<Rightarrow> nat \<Rightarrow> (nat \<times> nat) list" where
  "positions R G = concat (map (\<lambda>r. map (\<lambda>g. (r, g)) [0..<G]) [0..<R])"

definition pack_q41_rows ::
  "float_ops \<Rightarrow> gate_counts \<Rightarrow> nat \<Rightarrow> 'a::len word list list \<Rightarrow> f32 list list \<Rightarrow> f32 list list \<Rightarrow>
     (q41 list list \<times> (nat \<times> nat) set \<times> gate_counts) res" where
  "pack_q41_rows fo gc K q s b =
     (let R = length q; G = K div 64; B = K div 32
      in if \<not> (length s = R \<and> length b = R \<and> list_all (\<lambda>r. length r = G) s \<and> list_all (\<lambda>r. length r = G) b)
         then Inl AssertionError
         else if K mod 64 \<noteq> 0 then Inl ValueError
         else
           let zero = (\<lambda>(r, g). all_zero (group64 g (q ! r)));
               sbad = filter (\<lambda>(r, g). breaches fo (s ! r ! g)) (positions R G);
               bbad = filter (\<lambda>(r, g). breaches fo (b ! r ! g)) (positions R G);
               benign = filter zero sbad;
               mal_s = filter (\<lambda>p. \<not> zero p) sbad;
               exempt = \<Union> ((\<lambda>(r, g). {(r, 2 * g), (r, 2 * g + 1)}) ` set (mal_s @ bbad));
               gc' = gc\<lparr>g_elems := g_elems gc + 2 * (R * G), g_breach := g_breach gc + (length mal_s + length bbad),
                        g_benign := g_benign gc + length benign\<rparr>;
               blocks = map (\<lambda>r. map (\<lambda>n. \<lparr>qd = to_half fo (s ! r ! (n div 2)), qm = to_half fo (b ! r ! (n div 2)),
                                          qs = pack_codes (chunk32 n (q ! r))\<rparr>) [0..<B]) [0..<R]
           in Inr (blocks, exempt, gc'))"

section \<open>The two dequantizations\<close>

definition deq_mlx_side :: "float_ops \<Rightarrow> 'a::len word list list \<Rightarrow> f32 list list \<Rightarrow> f32 list list \<Rightarrow> f32 list list" where
  "deq_mlx_side fo q s b =
     map (\<lambda>(qr, sr, br). map (\<lambda>c. fadd fo (fmul fo (of_code fo (unat (qr ! c))) (sr ! (c div 64))) (br ! (c div 64)))
            [0..<length qr]) (zip q (zip s b))"

definition deq_block :: "float_ops \<Rightarrow> q41 \<Rightarrow> f32 list" where
  "deq_block fo k =
     map (\<lambda>x. fadd fo (fmul fo (of_code fo (unat x)) (of_half fo (qd k))) (of_half fo (qm k)))
       (map (\<lambda>x. x AND 0xF) (qs k) @ map (\<lambda>x. drop_bit 4 x) (qs k))"

definition deq_gguf_side :: "float_ops \<Rightarrow> q41 list list \<Rightarrow> f32 list list" where
  "deq_gguf_side fo = map (\<lambda>row. concat (map (deq_block fo) row))"

text \<open>\<open>tobytes\<close> of both sides.\<close>

definition f32_bytes :: "f32 list list \<Rightarrow> u8 list" where
  "f32_bytes xss = concat (map (\<lambda>x. le_bytes 4 (unat x)) (concat xss))"

definition q41_bytes :: "q41 list list \<Rightarrow> u8 list" where
  "q41_bytes kss = concat (map (\<lambda>k. le_bytes 2 (unat (qd k)) @ le_bytes 2 (unat (qm k)) @ qs k) (concat kss))"

section \<open>The parity gate of one chunk\<close>

text \<open>
  With exemptions the two sides are compared element by element, NaNs skipped, and every difference must lie in
  an exempted block; without, the digests of all bytes are compared. \<open>i0\<close> is the first row of the chunk.
\<close>

definition differing :: "f32 list list \<Rightarrow> f32 list list \<Rightarrow> (nat \<times> nat) list" where
  "differing A B =
     filter (\<lambda>(r, c). A ! r ! c \<noteq> B ! r ! c \<and> \<not> is_nan (A ! r ! c))
       (concat (map (\<lambda>r. map (\<lambda>c. (r, c)) [0..<length (A ! r)]) [0..<length A]))"

definition parity_gate ::
  "(u8 list \<Rightarrow> string) \<Rightarrow> nat \<Rightarrow> (nat \<times> nat) set \<Rightarrow> f32 list list \<Rightarrow> f32 list list \<Rightarrow> bool \<times> nat" where
  "parity_gate sha16 i0 exm A B =
     (let exm_g = (\<lambda>(r, n). (i0 + r, n)) ` exm
      in if exm_g \<noteq> {}
         then (list_all (\<lambda>(r, c). (r + i0, c div 32) \<in> exm_g) (differing A B), length (differing A B))
         else (sha16 (f32_bytes A) = sha16 (f32_bytes B), 0))"

text \<open>The check of one row chunk: pack, then dequantize both ways and compare.\<close>

definition chunk_gate ::
  "(u8 list \<Rightarrow> string) \<Rightarrow> float_ops \<Rightarrow> nat \<Rightarrow> gate_counts \<Rightarrow> nat \<Rightarrow> 'a::len word list list \<Rightarrow> f32 list list \<Rightarrow> f32 list list \<Rightarrow>
     (bool \<times> u8 list \<times> gate_counts) res" where
  "chunk_gate sha16 fo i0 gc K q s b =
     res_bind (pack_q41_rows fo gc K q s b) (\<lambda>(blocks, exm, gc').
       Inr (fst (parity_gate sha16 i0 exm (deq_mlx_side fo q s b) (deq_gguf_side fo blocks)), q41_bytes blocks, gc'))"

section \<open>The nibbles survive\<close>

text \<open>A code is a value below 16; the condition is stated on its bits.\<close>

definition code_ok :: "'a::len word \<Rightarrow> bool" where
  "code_ok x \<longleftrightarrow> x AND 0xF = x"

lemma mask4: "(0xF :: 'a::len word) = mask 4"
  by (simp add: mask_eq_exp_minus_1)

lemma code_ok_bit: "code_ok x \<Longrightarrow> bit x n \<Longrightarrow> n < 4"
  unfolding code_ok_def mask4 by (metis bit_and_iff bit_mask_iff)

lemma code_ok_and [simp]: "code_ok (x AND 0xF)"
  by (simp add: code_ok_def and.assoc)

lemma code_ok_unat: "code_ok x \<Longrightarrow> unat x < 16"
proof -
  assume "code_ok x"
  then have "unat x = unat (take_bit 4 x)" unfolding code_ok_def mask4 by (simp add: take_bit_eq_mask)
  also have "\<dots> = take_bit 4 (unat x)" by (rule unsigned_take_bit_eq)
  finally show ?thesis using take_bit_nat_less_exp [of 4 "unat x"] by simp
qed

lemma unat_ucast_code: "code_ok (x :: 'a::len word) \<Longrightarrow> unat (ucast x :: u8) = unat x"
  using code_ok_unat [of x] by (simp add: unsigned_ucast_eq take_bit_nat_eq_self)

lemma low_nibble:
  fixes x y :: "'a::len word"
  assumes "code_ok x" "code_ok y" "8 \<le> LENGTH('a)"
  shows "(ucast (x OR push_bit 4 y) :: u8) AND 0xF = ucast x"
  unfolding mask4
  by (rule bit_word_eqI) (use assms in \<open>auto simp: bit_simps dest: code_ok_bit\<close>)

lemma high_nibble:
  fixes x y :: "'a::len word"
  assumes "code_ok x" "code_ok y" "8 \<le> LENGTH('a)"
  shows "drop_bit 4 (ucast (x OR push_bit 4 y) :: u8) = ucast y"
  by (rule bit_word_eqI) (use assms in \<open>auto simp: bit_simps dest: code_ok_bit\<close>)

lemma mlx_codes_ok: "c \<in> set (mlx_q_bytes ws) \<Longrightarrow> code_ok c"
  by (auto simp: mlx_q_bytes_def)

lemma length_mlx_q_bytes [simp]: "length (mlx_q_bytes ws) = 8 * length ws"
  by (induction ws) (simp_all add: mlx_q_bytes_def)

text \<open>Code \<open>8 i + k\<close> is nibble \<open>k\<close> of word \<open>i\<close>.\<close>

lemma mlx_q_bytes_nth: "c < 8 * length ws \<Longrightarrow> mlx_q_bytes ws ! c = drop_bit (4 * (c mod 8)) (ws ! (c div 8)) AND 0xF"
proof -
  assume c: "c < 8 * length ws"
  let ?n = "\<lambda>w :: 32 word. map (\<lambda>k. drop_bit (4 * k) w AND 0xF) [0..<8]"
  have "concat (map ?n ws) ! c = map ?n ws ! (c div 8) ! (c mod 8)"
    by (rule concat_uniform_nth) (use c in auto)
  moreover have "c div 8 < length ws" using c by (simp add: less_mult_imp_div_less mult.commute)
  ultimately show ?thesis by (simp add: mlx_q_bytes_def)
qed

lemma deq_block_codes:
  fixes q :: "'a::len word list"
  assumes "length q = 32" "\<forall>c\<in>set q. code_ok c" "8 \<le> LENGTH('a)"
  shows "deq_block fo \<lparr>qd = d, qm = m, qs = pack_codes q\<rparr> =
    map (\<lambda>c. fadd fo (fmul fo (of_code fo (unat c)) (of_half fo d)) (of_half fo m)) q"
proof -
  have ok: "code_ok (q ! j)" if "j < 32" for j using assms(1,2) that by simp
  have "map (\<lambda>x. unat (x AND 0xF)) (pack_codes q) @ map (\<lambda>x. unat (drop_bit 4 x)) (pack_codes q) = map unat q"
    (is "?l = ?r")
  proof (rule nth_equalityI)
    show "length ?l = length ?r" using assms(1) by (simp add: pack_codes_def)
    fix i assume "i < length ?l"
    then have i: "i < 32" by (simp add: pack_codes_def)
    show "?l ! i = ?r ! i"
    proof (cases "i < 16")
      case True
      then show ?thesis using ok [of i] ok [of "i + 16"] assms(1,3)
        by (simp add: pack_codes_def nth_append low_nibble unat_ucast_code)
    next
      case False
      then show ?thesis using ok [of "i - 16"] ok [of i] assms(1,3) i
        by (simp add: pack_codes_def nth_append high_nibble unat_ucast_code)
    qed
  qed
  from arg_cong [OF this, of "map (\<lambda>n. fadd fo (fmul fo (of_code fo n) (of_half fo d)) (of_half fo m))"]
  show ?thesis by (simp add: deq_block_def comp_def)
qed

section \<open>Parity outside the exemptions\<close>

text \<open>The inputs of \<open>pack_q41_rows\<close> as \<open>run\<close> forms them, without NaN and with scales a half does not overflow.\<close>

definition chunk_ok :: "nat \<Rightarrow> 'a::len word list list \<Rightarrow> f32 list list \<Rightarrow> f32 list list \<Rightarrow> bool" where
  "chunk_ok K q s b \<longleftrightarrow>
     K mod 64 = 0 \<and> length s = length q \<and> length b = length q \<and>
     (\<forall>r\<in>set q. length r = K \<and> (\<forall>c\<in>set r. code_ok c)) \<and>
     (\<forall>r\<in>set s. length r = K div 64 \<and> (\<forall>x\<in>set r. half_range x)) \<and>
     (\<forall>r\<in>set b. length r = K div 64 \<and> (\<forall>x\<in>set r. \<not> is_nan x))"

lemma zero_cases: "is_zero x \<Longrightarrow> x = 0 \<or> x = 0x80000000"
proof -
  assume z: "is_zero x"
  have "(0x7FFFFFFF :: f32) = mask 31" by (simp add: mask_eq_exp_minus_1)
  then have "take_bit 31 x = 0" using z by (simp add: is_zero_def take_bit_eq_mask)
  then have low: "\<not> bit x n" if "n < 31" for n using that by (metis bit_take_bit_iff bit_0_eq bot_apply bot_bool_def)
  have "(0x80000000 :: f32) = push_bit 31 1" by (simp add: push_bit_eq_mult)
  then have "x = (if bit x 31 then 0x80000000 else 0)"
    by (intro bit_word_eqI) (auto simp: bit_simps low less_Suc_eq numeral_eq_Suc)
  then show ?thesis by metis
qed

lemma half_same:
  assumes "ieee_ok fo" "\<not> is_nan x" "\<not> breaches fo x"
  shows "of_half fo (to_half fo x) = x"
proof -
  have "of_half fo (to_half fo x) = x \<or> is_zero x"
    using assms(2,3) by (auto simp: breaches_def fneq_def)
  then show ?thesis using zero_cases [of x] assms(1) by (auto simp: ieee_ok_def)
qed

lemma half_range_nan: "half_range x \<Longrightarrow> \<not> is_nan x"
  by (auto simp: half_range_def is_nan_def word_less_nat_alt)

lemma in_positions: "(r, g) \<in> set (positions R G) \<longleftrightarrow> r < R \<and> g < G"
  by (auto simp: positions_def image_iff)

lemma all_zero_code: "all_zero (group64 g q) \<Longrightarrow> c < length q \<Longrightarrow> c div 64 = g \<Longrightarrow> q ! c = 0"
proof -
  assume z: "all_zero (group64 g q)" and c: "c < length q" "c div 64 = g"
  have "64 * g \<le> c" "c - 64 * g < 64" using c(2) by (auto simp: algebra_simps dividend_less_times_div)
  then have "q ! c = group64 g q ! (c - 64 * g)" "c - 64 * g < length (group64 g q)"
    using c(1) by (auto simp: group64_def)
  then show ?thesis using z by (simp add: all_zero_def list_all_length)
qed

lemma chunk32_nth: "c < length q \<Longrightarrow> length q mod 32 = 0 \<Longrightarrow> chunk32 (c div 32) q ! (c mod 32) = q ! c \<and> length (chunk32 (c div 32) q) = 32"
proof -
  assume c: "c < length q" and m: "length q mod 32 = 0"
  obtain B where B: "length q = 32 * B" using m by auto
  then have "c div 32 < B" using c by (simp add: less_mult_imp_div_less mult.commute)
  then have "32 * (c div 32) + 32 \<le> length q" using B by simp
  then show ?thesis by (auto simp: chunk32_def)
qed

lemma length_chunk32: "length q mod 32 = 0 \<Longrightarrow> n < length q div 32 \<Longrightarrow> length (chunk32 n q) = 32"
proof -
  assume m: "length q mod 32 = 0" and n: "n < length q div 32"
  from m obtain B where B: "length q = 32 * B" by auto
  with n have "32 * n + 32 \<le> length q" by simp
  then show ?thesis by (simp add: chunk32_def)
qed

lemma mod64: "(K :: nat) mod 64 = 0 \<Longrightarrow> K mod 32 = 0"
  by presburger

text \<open>What a block decodes to.\<close>

definition pack_block :: "float_ops \<Rightarrow> 'a::len word list list \<Rightarrow> f32 list list \<Rightarrow> f32 list list \<Rightarrow> nat \<Rightarrow> nat \<Rightarrow> q41" where
  "pack_block fo q s b r n =
     \<lparr>qd = to_half fo (s ! r ! (n div 2)), qm = to_half fo (b ! r ! (n div 2)), qs = pack_codes (chunk32 n (q ! r))\<rparr>"

lemma deq_gguf_nth:
  fixes q :: "'a::len word list list"
  assumes "chunk_ok K q s b" "8 \<le> LENGTH('a)" "r < length q" "c < K"
  shows "deq_gguf_side fo (map (\<lambda>r. map (pack_block fo q s b r) [0..<K div 32]) [0..<length q]) ! r ! c =
    fadd fo (fmul fo (of_code fo (unat (q ! r ! c))) (of_half fo (to_half fo (s ! r ! (c div 64)))))
      (of_half fo (to_half fo (b ! r ! (c div 64))))"
proof -
  have K: "length (q ! r) = K" "K mod 32 = 0" and ok: "\<forall>c\<in>set (q ! r). code_ok c"
    using assms(1,3) by (auto simp: chunk_ok_def intro: mod64)
  have one: "deq_block fo (pack_block fo q s b r n) =
      map (\<lambda>c. fadd fo (fmul fo (of_code fo (unat c)) (of_half fo (to_half fo (s ! r ! (n div 2)))))
        (of_half fo (to_half fo (b ! r ! (n div 2))))) (chunk32 n (q ! r))" if "n < K div 32" for n
  proof -
    have "length (chunk32 n (q ! r)) = 32" using K that by (intro length_chunk32) simp_all
    moreover have "\<forall>c\<in>set (chunk32 n (q ! r)). code_ok c"
      using ok by (auto simp: chunk32_def dest: in_set_takeD in_set_dropD)
    ultimately show ?thesis unfolding pack_block_def using assms(2) by (rule deq_block_codes)
  qed
  from K(2) obtain B where B: "K = 32 * B" by auto
  then have n: "c div 32 < K div 32" using assms(4) by (simp add: less_mult_imp_div_less mult.commute)
  have "concat (map (deq_block fo) (map (pack_block fo q s b r) [0..<K div 32])) ! c
      = map (deq_block fo) (map (pack_block fo q s b r) [0..<K div 32]) ! (c div 32) ! (c mod 32)"
  proof (rule concat_uniform_nth)
    show "length ys = 32" if "ys \<in> set (map (deq_block fo) (map (pack_block fo q s b r) [0..<K div 32]))" for ys
      using that K by (auto simp: one intro!: length_chunk32)
    show "c < length (map (deq_block fo) (map (pack_block fo q s b r) [0..<K div 32])) * 32" using assms(4) K(2) by auto
  qed
  then show ?thesis
    using n chunk32_nth [of c "q ! r"] K assms(3,4) one [OF n]
    by (simp add: deq_gguf_side_def div_mult2_eq [symmetric])
qed


text \<open>The result of packing a well-formed chunk.\<close>

definition breach_rows :: "float_ops \<Rightarrow> nat \<Rightarrow> nat \<Rightarrow> f32 list list \<Rightarrow> (nat \<times> nat) list" where
  "breach_rows fo R G x = filter (\<lambda>(r, g). breaches fo (x ! r ! g)) (positions R G)"

definition exempt_of :: "float_ops \<Rightarrow> nat \<Rightarrow> 'a::len word list list \<Rightarrow> f32 list list \<Rightarrow> f32 list list \<Rightarrow> (nat \<times> nat) set" where
  "exempt_of fo K q s b =
     {(r, n). r < length q \<and> n div 2 < K div 64 \<and>
        (breaches fo (s ! r ! (n div 2)) \<and> \<not> all_zero (group64 (n div 2) (q ! r)) \<or> breaches fo (b ! r ! (n div 2)))}"

lemma pair_of_group: "n \<in> {2 * g, 2 * g + 1} \<longleftrightarrow> n div 2 = (g :: nat)"
  by auto

lemma pack_rows_ok:
  assumes "chunk_ok K q s b"
  shows "\<exists>gc'. pack_q41_rows fo gc K q s b =
    Inr (map (\<lambda>r. map (pack_block fo q s b r) [0..<K div 32]) [0..<length q], exempt_of fo K q s b, gc')"
proof -
  have "\<Union> ((\<lambda>(r, g). {(r, 2 * g), (r, 2 * g + 1)}) `
      set (filter (\<lambda>p. \<not> (case p of (r, g) \<Rightarrow> all_zero (group64 g (q ! r)))) (breach_rows fo (length q) (K div 64) s)
        @ breach_rows fo (length q) (K div 64) b)) = exempt_of fo K q s b" (is "?l = ?r")
  proof (rule set_eqI)
    fix p :: "nat \<times> nat"
    obtain r n where p: "p = (r, n)" by (cases p)
    have "p \<in> ?l \<longleftrightarrow> (\<exists>g. n \<in> {2 * g, 2 * g + 1} \<and> r < length q \<and> g < K div 64 \<and>
       (breaches fo (s ! r ! g) \<and> \<not> all_zero (group64 g (q ! r)) \<or> breaches fo (b ! r ! g)))"
      by (auto simp: p breach_rows_def in_positions)
    also have "\<dots> \<longleftrightarrow> p \<in> ?r" unfolding p exempt_of_def pair_of_group by blast
    finally show "p \<in> ?l \<longleftrightarrow> p \<in> ?r" .
  qed
  then show ?thesis using assms
    by (simp add: pack_q41_rows_def Let_def chunk_ok_def list_all_iff breach_rows_def pack_block_def [abs_def])
qed

lemma deq_mlx_nth:
  "chunk_ok K q s b \<Longrightarrow> r < length q \<Longrightarrow> c < K \<Longrightarrow>
     deq_mlx_side fo q s b ! r ! c = fadd fo (fmul fo (of_code fo (unat (q ! r ! c))) (s ! r ! (c div 64))) (b ! r ! (c div 64))"
  by (auto simp: deq_mlx_side_def chunk_ok_def)

lemma parity_at:
  fixes q :: "'a::len word list list"
  assumes "ieee_ok fo" "chunk_ok K q s b" "8 \<le> LENGTH('a)" "r < length q" "c < K" "(r, c div 32) \<notin> exempt_of fo K q s b"
  shows "deq_gguf_side fo (map (\<lambda>r. map (pack_block fo q s b r) [0..<K div 32]) [0..<length q]) ! r ! c
    = deq_mlx_side fo q s b ! r ! c"
proof -
  let ?g = "c div 64"
  have g: "c div 32 div 2 = ?g" by (simp flip: div_mult2_eq)
  obtain G where G: "K = 64 * G" using assms(2) by (auto simp: chunk_ok_def)
  then have gl: "?g < K div 64" using assms(5) by (simp add: less_mult_imp_div_less mult.commute)
  have "s ! r \<in> set s" "b ! r \<in> set b" using assms(2,4) by (simp_all add: chunk_ok_def)
  with gl have s: "half_range (s ! r ! ?g)" and b: "\<not> is_nan (b ! r ! ?g)"
    using assms(2) by (simp_all add: chunk_ok_def)
  have "\<not> breaches fo (b ! r ! ?g)" using assms(4,6) gl by (auto simp: exempt_of_def g)
  then have bb: "of_half fo (to_half fo (b ! r ! ?g)) = b ! r ! ?g" using half_same [OF assms(1) b] by blast
  have "fmul fo (of_code fo (unat (q ! r ! c))) (of_half fo (to_half fo (s ! r ! ?g)))
      = fmul fo (of_code fo (unat (q ! r ! c))) (s ! r ! ?g)"
  proof (cases "breaches fo (s ! r ! ?g)")
    case True
    then have "all_zero (group64 ?g (q ! r))" using assms(4,6) gl by (auto simp: exempt_of_def g)
    then have "q ! r ! c = 0" using assms(2,4,5) by (intro all_zero_code) (auto simp: chunk_ok_def)
    then show ?thesis using assms(1) s by (simp add: ieee_ok_def)
  next
    case False
    then show ?thesis using half_same [OF assms(1) half_range_nan [OF s]] by simp
  qed
  then show ?thesis by (simp only: deq_gguf_nth [OF assms(2-5)] deq_mlx_nth [OF assms(2,4,5)] bb)
qed

lemma deq_gguf_lengths:
  assumes "chunk_ok K q s b" "r < length q"
  shows "length (deq_gguf_side fo (map (\<lambda>r. map (pack_block fo q s b r) [0..<K div 32]) [0..<length q])) = length q"
    "length (deq_gguf_side fo (map (\<lambda>r. map (pack_block fo q s b r) [0..<K div 32]) [0..<length q]) ! r) = K"
proof -
  let ?row = "map (deq_block fo) (map (pack_block fo q s b r) [0..<K div 32])"
  have "length ys = 32" if "ys \<in> set ?row" for ys
    using that by (auto simp: deq_block_def pack_block_def pack_codes_def)
  then have "length (concat ?row) = length ?row * 32" by (rule length_concat_uniform)
  moreover have "K div 32 * 32 = K" using mod64 [of K] assms(1) by (auto simp: chunk_ok_def)
  ultimately show "length (deq_gguf_side fo (map (\<lambda>r. map (pack_block fo q s b r) [0..<K div 32]) [0..<length q]) ! r) = K"
    using assms(2) by (simp add: deq_gguf_side_def)
qed (simp add: deq_gguf_side_def)

text \<open>Without exemptions the two sides are the same arrays, so their digests agree; with them, every difference is exempted.\<close>

lemma parity_gate_ok:
  fixes q :: "'a::len word list list"
  assumes "ieee_ok fo" "chunk_ok K q s b" "8 \<le> LENGTH('a)"
  shows "fst (parity_gate sha16 i0 (exempt_of fo K q s b) (deq_mlx_side fo q s b)
    (deq_gguf_side fo (map (\<lambda>r. map (pack_block fo q s b r) [0..<K div 32]) [0..<length q])))"
proof -
  let ?A = "deq_mlx_side fo q s b" and ?B = "deq_gguf_side fo (map (\<lambda>r. map (pack_block fo q s b r) [0..<K div 32]) [0..<length q])"
  let ?X = "exempt_of fo K q s b"
  have len: "length ?A = length q" "\<And>r. r < length q \<Longrightarrow> length (?A ! r) = K"
    using assms(2) by (auto simp: deq_mlx_side_def chunk_ok_def)
  have lenB: "length ?B = length q" "length (?B ! r) = K" if "r < length q" for r
    using deq_gguf_lengths [OF assms(2) that] by blast+
  have diff: "(r, c div 32) \<in> ?X" if "(r, c) \<in> set (differing ?A ?B)" for r c
  proof (rule ccontr)
    assume "(r, c div 32) \<notin> ?X"
    moreover have "r < length q" "c < K" "?A ! r ! c \<noteq> ?B ! r ! c" using that len by (auto simp: differing_def)
    ultimately show False using parity_at [OF assms, of r c] by simp
  qed
  show ?thesis
  proof (cases "?X = {}")
    case True
    have "?A = ?B"
    proof (rule nth_equalityI)
      show "length ?A = length ?B" using len(1) by (simp add: deq_gguf_side_def)
      fix r assume "r < length ?A"
      then have r: "r < length q" using len by simp
      show "?A ! r = ?B ! r"
        using True by (intro nth_equalityI) (simp_all add: len(2) [OF r] lenB(2) [OF r] parity_at [OF assms r])
    qed
    then show ?thesis using True by (simp add: parity_gate_def Let_def)
  next
    case False
    then show ?thesis using diff by (force simp: parity_gate_def Let_def list_all_iff add.commute)
  qed
qed

text \<open>The code at position \<open>j\<close> of a block.\<close>

definition code_at :: "q41 \<Rightarrow> nat \<Rightarrow> nat" where
  "code_at k j = (if j < 16 then unat (qs k ! j AND 0xF) else unat (drop_bit 4 (qs k ! (j - 16))))"

lemma code_at_block:
  fixes q :: "'a::len word list list"
  assumes "chunk_ok K q s b" "8 \<le> LENGTH('a)" "r < length q" "c < K"
  shows "code_at (pack_block fo q s b r (c div 32)) (c mod 32) = unat (q ! r ! c)"
proof -
  have K: "length (q ! r) = K" "K mod 32 = 0" and ok: "\<forall>c\<in>set (q ! r). code_ok c"
    using assms(1,3) by (auto simp: chunk_ok_def intro: mod64)
  let ?q = "chunk32 (c div 32) (q ! r)"
  have ch: "length ?q = 32" "?q ! (c mod 32) = q ! r ! c" using chunk32_nth [of c "q ! r"] K assms(4) by auto
  have okc: "code_ok (?q ! j)" if "j < 32" for j
    using ok ch(1) that by (metis chunk32_def in_set_dropD in_set_takeD nth_mem)
  show ?thesis
  proof (cases "c mod 32 < 16")
    case True
    then show ?thesis using okc [of "c mod 32"] okc [of "c mod 32 + 16"] assms(2) ch(2)
      by (simp add: code_at_def pack_block_def pack_codes_def low_nibble unat_ucast_code)
  next
    case False
    moreover have "c mod 32 - 16 < 16" using mod_less_divisor [of 32 c] by linarith
    ultimately show ?thesis using okc [of "c mod 32"] okc [of "c mod 32 - 16"] assms(2) ch(2)
      by (simp add: code_at_def pack_block_def pack_codes_def high_nibble unat_ucast_code)
  qed
qed

text \<open>
  C10: repacking to \<open>Q4_1\<close> is bit exact. For codes of four bits, scales within half range and no NaN, packing
  succeeds, no code is changed, the exempted blocks are exactly those of groups whose bias breaches or whose scale
  breaches over a non-zero code, both dequantizations give the same bits at every element outside them, and
  the gate that \<open>run\<close> applies to the chunk passes.
\<close>

theorem repack_parity:
  fixes q :: "'a::len word list list"
  assumes "ieee_ok fo" "chunk_ok K q s b" "8 \<le> LENGTH('a)"
  shows "\<exists>blocks exm gc'. pack_q41_rows fo gc K q s b = Inr (blocks, exm, gc') \<and>
    (\<forall>r<length q. \<forall>c<K. code_at (blocks ! r ! (c div 32)) (c mod 32) = unat (q ! r ! c) \<and>
       ((r, c div 32) \<notin> exm \<longrightarrow> deq_gguf_side fo blocks ! r ! c = deq_mlx_side fo q s b ! r ! c)) \<and>
    (\<forall>r<length q. \<forall>n<K div 32. (r, n) \<in> exm \<longleftrightarrow> breaches fo (b ! r ! (n div 2)) \<or>
       breaches fo (s ! r ! (n div 2)) \<and> \<not> all_zero (group64 (n div 2) (q ! r))) \<and>
    chunk_gate sha16 fo i0 gc K q s b = Inr (True, q41_bytes blocks, gc')"
proof -
  let ?B = "map (\<lambda>r. map (pack_block fo q s b r) [0..<K div 32]) [0..<length q]"
  obtain gc' where gc: "pack_q41_rows fo gc K q s b = Inr (?B, exempt_of fo K q s b, gc')"
    using pack_rows_ok [OF assms(2)] by blast
  obtain G where G: "K = 64 * G" using assms(2) by (auto simp: chunk_ok_def)
  then have "n div 2 < K div 64" if "n < K div 32" for n using that by auto
  moreover have "c div 32 < K div 32" if "c < K" for c
    using that G less_mult_imp_div_less [of c "2 * G" 32] by simp
  moreover have "chunk_gate sha16 fo i0 gc K q s b = Inr (True, q41_bytes ?B, gc')"
    using parity_gate_ok [OF assms] by (simp add: chunk_gate_def gc)
  ultimately show ?thesis
    using gc parity_at [OF assms] code_at_block [OF assms(2,3)]
    by (intro exI [of _ ?B] exI [of _ "exempt_of fo K q s b"] exI [of _ gc'] conjI allI impI)
      (auto simp: exempt_of_def)
qed


text \<open>
  A small instance: halves keep the upper sixteen bits. The scale of the second group does not fit, and its
  codes are not all zero.
\<close>

definition demo_floats :: float_ops where
  "demo_floats = \<lparr>to_half = (\<lambda>x. ucast (drop_bit 16 x)), of_half = (\<lambda>h. push_bit 16 (ucast h)),
     of_code = word_of_nat, fmul = (\<lambda>x y. x * y), fadd = (\<lambda>x y. x + y)\<rparr>"

definition no_counts :: gate_counts where
  "no_counts = \<lparr>g_elems = 0, g_breach = 0, g_benign = 0\<rparr>"

definition demo_codes :: "32 word list" where
  "demo_codes = mlx_q_bytes (replicate 8 0xFEDCBA98 @ replicate 8 0x76543210)"

lemma demo_ieee: "ieee_ok demo_floats"
  by (simp add: ieee_ok_def demo_floats_def)

lemma demo_chunk: "chunk_ok 128 [demo_codes] [[0x3C010000, 0x3C010001]] [[0x3F800000, 0]]"
  by (auto simp: chunk_ok_def demo_codes_def half_range_def is_nan_def intro: mlx_codes_ok)

lemma demo_breach: "breaches demo_floats 0x3C010001" "\<not> breaches demo_floats 0x3C010000"
  "\<not> breaches demo_floats 0x3F800000" "\<not> breaches demo_floats 0"
  by (simp_all add: breaches_def fneq_def is_nan_def is_zero_def demo_floats_def)

lemma demo_nonzero: "\<not> all_zero (group64 1 demo_codes)" "unat (demo_codes ! 7) = 15"
  by code_simp+

theorem repack_parity_witness:
  "\<exists>blocks exm gc'. pack_q41_rows demo_floats no_counts 128 [demo_codes] [[0x3C010000, 0x3C010001]] [[0x3F800000, 0]] = Inr (blocks, exm, gc') \<and>
     (0, 2) \<in> exm \<and> (0, 0) \<notin> exm \<and> code_at (blocks ! 0 ! 0) 7 = 15 \<and>
     chunk_gate (\<lambda>b. []) demo_floats 0 no_counts 128 [demo_codes] [[0x3C010000, 0x3C010001]] [[0x3F800000, 0]] = Inr (True, q41_bytes blocks, gc')"
proof -
  obtain blocks exm gc' where r: "pack_q41_rows demo_floats no_counts 128 [demo_codes] [[0x3C010000, 0x3C010001]] [[0x3F800000, 0]] = Inr (blocks, exm, gc')"
    "\<forall>r<length [demo_codes]. \<forall>c<128. code_at (blocks ! r ! (c div 32)) (c mod 32) = unat ([demo_codes] ! r ! c)"
    "\<forall>r<length [demo_codes]. \<forall>n<128 div 32. (r, n) \<in> exm \<longleftrightarrow> breaches demo_floats ([[0x3F800000, 0]] ! r ! (n div 2)) \<or>
       breaches demo_floats ([[0x3C010000, 0x3C010001]] ! r ! (n div 2)) \<and> \<not> all_zero (group64 (n div 2) ([demo_codes] ! r))"
    "chunk_gate (\<lambda>b. []) demo_floats 0 no_counts 128 [demo_codes] [[0x3C010000, 0x3C010001]] [[0x3F800000, 0]] = Inr (True, q41_bytes blocks, gc')"
    using repack_parity [OF demo_ieee demo_chunk, of no_counts "\<lambda>b. []" 0] by auto
  have "(0, 2) \<in> exm" "(0, 0) \<notin> exm" using r(3) [rule_format, of 0 2] r(3) [rule_format, of 0 0] demo_breach demo_nonzero by auto
  moreover have "code_at (blocks ! 0 ! 0) 7 = 15" using r(2) [rule_format, of 0 7] demo_nonzero by simp
  ultimately show ?thesis using r(1,4) by blast
qed

text \<open>
  The condition on the scales matters: over an all-zero group a scale that overflows a half is counted as benign,
  yet the block decodes to zero times infinity. The arithmetic below satisfies the laws; it rounds everything in
  range to a zero of the same sign, and multiplies zero and infinity to NaN.
\<close>

definition overflow_floats :: float_ops where
  "overflow_floats = \<lparr>to_half = (\<lambda>x. if x = 0x80000000 then 0x8000 else if half_range x then 0 else 0x7F80),
     of_half = (\<lambda>h. push_bit 16 (ucast h)), of_code = word_of_nat,
     fmul = (\<lambda>x y. if y = 0x7F800000 \<and> x = 0 then 0x7FC00000 else x * y), fadd = (\<lambda>x y. x + y)\<rparr>"

definition zero_codes :: "32 word list" where
  "zero_codes = mlx_q_bytes (replicate 8 0)"

lemma overflow_floats_ok: "ieee_ok overflow_floats"
  by (auto simp: ieee_ok_def overflow_floats_def half_range_def)

lemma benign_overflow_not_exact:
  "case pack_q41_rows overflow_floats no_counts 64 [zero_codes] [[0x47800000]] [[0]] of
      Inl e \<Rightarrow> False
    | Inr (blocks, exm, gc) \<Rightarrow> exm = {} \<and> gc = \<lparr>g_elems = 2, g_breach = 0, g_benign = 1\<rparr> \<and>
        deq_gguf_side overflow_floats blocks \<noteq> deq_mlx_side overflow_floats [zero_codes] [[0x47800000]] [[0]]"
  by code_simp

end
