(* ===== verification/Gguf_File.thy ===== *)
theory Gguf_File
  imports Byte_Pack
begin

text \<open>
  The GGUF v3 container of \<open>windows/tools/repack_mlx_to_gguf.py\<close>: the two-pass \<open>GgufWriter\<close> (register every
  tensor, then stream the data with alignment) and the reader of its self test. A file is its bytes; strings have
  code points below 256.
\<close>

section \<open>The writer\<close>

definition ALIGN :: nat where
  "ALIGN = 32"

definition pad_len :: "nat \<Rightarrow> nat" where
  "pad_len nbytes = nat ((- int nbytes) mod int ALIGN)"

text \<open>\<open>s.encode("utf-8")\<close>.\<close>

definition utf8 :: "string \<Rightarrow> u8 list" where
  "utf8 s = concat (map (\<lambda>c. let n = (of_char c :: nat) in
     if n < 128 then [word_of_nat n] else [word_of_nat (192 + n div 64), word_of_nat (128 + n mod 64)]) s)"

record gguf_writer =
  w_kvs :: "u8 list list"
  w_recs :: "(string \<times> nat \<times> nat list \<times> nat \<times> nat) list"
  w_dlen :: nat
  w_hdr_done :: bool
  w_file :: "u8 list"

definition writer_new :: gguf_writer where
  "writer_new = \<lparr>w_kvs = [], w_recs = [], w_dlen = 0, w_hdr_done = False, w_file = []\<rparr>"

definition gguf_str :: "string \<Rightarrow> u8 list res" where
  "gguf_str s = (let b = utf8 s in res_bind (pack_le 8 (length b)) (\<lambda>n. Inr (n @ b)))"

definition gguf_kv :: "string \<Rightarrow> nat \<Rightarrow> u8 list \<Rightarrow> gguf_writer \<Rightarrow> gguf_writer res" where
  "gguf_kv key ty payload w =
     (if w_hdr_done w then Inl AssertionError
      else res_bind (gguf_str key) (\<lambda>k. res_bind (pack_le 4 ty) (\<lambda>t.
        Inr (w\<lparr>w_kvs := w_kvs w @ [k @ t @ payload]\<rparr>))))"

definition KV_STR :: nat where
  "KV_STR = 8"

definition gguf_kv_s :: "string \<Rightarrow> string \<Rightarrow> gguf_writer \<Rightarrow> gguf_writer res" where
  "gguf_kv_s key v w = res_bind (gguf_str v) (\<lambda>p. gguf_kv key KV_STR p w)"

definition gguf_register :: "string \<Rightarrow> nat \<Rightarrow> nat list \<Rightarrow> nat \<Rightarrow> gguf_writer \<Rightarrow> gguf_writer res" where
  "gguf_register name tt dims_ne nbytes w =
     (if w_hdr_done w then Inl AssertionError
      else Inr (w\<lparr>w_recs := w_recs w @ [(name, tt, dims_ne, w_dlen w, nbytes)],
                 w_dlen := w_dlen w + (nbytes + pad_len nbytes)\<rparr>))"

definition info_bytes :: "string \<times> nat \<times> nat list \<times> nat \<times> nat \<Rightarrow> u8 list res" where
  "info_bytes = (\<lambda>(n, tt, d, off, nbytes).
     res_bind (gguf_str n) (\<lambda>s. res_bind (pack_le 4 (length d)) (\<lambda>nd.
     res_bind (res_map (pack_le 8) d) (\<lambda>ds. res_bind (pack_le 4 tt) (\<lambda>t. res_bind (pack_le 8 off) (\<lambda>o8.
       Inr (s @ nd @ concat ds @ t @ o8)))))))"

definition magic :: "u8 list" where
  "magic = [0x47, 0x47, 0x55, 0x46]"

definition gguf_finalize :: "gguf_writer \<Rightarrow> (gguf_writer \<times> nat) res" where
  "gguf_finalize w =
     res_bind (res_map info_bytes (w_recs w)) (\<lambda>infos.
     res_bind (pack_le 8 (length (w_recs w))) (\<lambda>nr.
     res_bind (pack_le 8 (length (w_kvs w))) (\<lambda>nk.
       let body = concat (w_kvs w);
           head = magic @ le_bytes 4 3 @ nr @ nk;
           nbytes = length head + length body + length (concat infos);
           ds = (nbytes + ALIGN - 1) div ALIGN * ALIGN
       in Inr (w\<lparr>w_file := head @ body @ concat infos @ replicate (ds - nbytes) 0, w_hdr_done := True\<rparr>, ds))))"

definition gguf_write :: "u8 list \<Rightarrow> gguf_writer \<Rightarrow> gguf_writer res" where
  "gguf_write d w =
     (if \<not> w_hdr_done w then Inl AssertionError else Inr (w\<lparr>w_file := w_file w @ d\<rparr>))"

definition gguf_align_pad :: "gguf_writer \<Rightarrow> gguf_writer res" where
  "gguf_align_pad w =
     (let p = length (w_file w) mod ALIGN
      in if p \<noteq> 0 then Inr (w\<lparr>w_file := w_file w @ replicate (ALIGN - p) 0\<rparr>) else Inr w)"

text \<open>Pass A registers all tensors; pass B writes each tensor's data, given in pieces, and pads.\<close>

fun register_all :: "(string \<times> nat \<times> nat list \<times> nat) list \<Rightarrow> gguf_writer \<Rightarrow> gguf_writer res" where
  "register_all [] w = Inr w"
| "register_all ((n, tt, dims, nbytes) # ts) w = res_bind (gguf_register n tt dims nbytes w) (register_all ts)"

fun write_pieces :: "u8 list list \<Rightarrow> gguf_writer \<Rightarrow> gguf_writer res" where
  "write_pieces [] w = Inr w"
| "write_pieces (d # ds) w = res_bind (gguf_write d w) (write_pieces ds)"

fun stream_all :: "u8 list list list \<Rightarrow> gguf_writer \<Rightarrow> gguf_writer res" where
  "stream_all [] w = Inr w"
| "stream_all (ps # pss) w =
     res_bind (write_pieces ps w) (\<lambda>w. res_bind (gguf_align_pad w) (stream_all pss))"

section \<open>The reader of the self test\<close>

text \<open>\<open>fh.read(n)\<close> returns at most \<open>n\<close> bytes, and \<open>struct.unpack\<close> raises unless it got exactly as many as it needs.\<close>

definition read_le :: "nat \<Rightarrow> u8 list \<Rightarrow> (nat \<times> u8 list) res" where
  "read_le k bs = (if length (take k bs) = k then Inr (le_nat (take k bs), drop k bs) else Inl StructError)"

definition read_str :: "u8 list \<Rightarrow> (u8 list \<times> u8 list) res" where
  "read_str bs = res_bind (read_le 8 bs) (\<lambda>(n, rest). Inr (take n rest, drop n rest))"

fun un_utf8 :: "u8 list \<Rightarrow> string res" where
  "un_utf8 [] = Inr []"
| "un_utf8 (b # bs) =
     (if b < 128 then res_bind (un_utf8 bs) (\<lambda>s. Inr (char_of (unat b) # s))
      else case bs of
             [] \<Rightarrow> Inl ValueError
           | c # cs \<Rightarrow>
               if 194 \<le> b \<and> b < 196 \<and> 128 \<le> c \<and> c < 192
               then res_bind (un_utf8 cs) (\<lambda>s. Inr (char_of (64 * (unat b - 192) + (unat c - 128)) # s))
               else Inl ValueError)"

fun read_dims :: "nat \<Rightarrow> u8 list \<Rightarrow> (nat list \<times> u8 list) res" where
  "read_dims 0 bs = Inr ([], bs)"
| "read_dims (Suc k) bs =
     res_bind (read_le 8 bs) (\<lambda>(d, rest). res_bind (read_dims k rest) (\<lambda>(ds, rest'). Inr (d # ds, rest')))"

fun read_infos :: "nat \<Rightarrow> u8 list \<Rightarrow> ((string \<times> nat \<times> nat list \<times> nat) list \<times> u8 list) res" where
  "read_infos 0 bs = Inr ([], bs)"
| "read_infos (Suc k) bs =
     res_bind (read_str bs) (\<lambda>(nm, bs). res_bind (un_utf8 nm) (\<lambda>name.
     res_bind (read_le 4 bs) (\<lambda>(nd, bs). res_bind (read_dims nd bs) (\<lambda>(dims, bs).
     res_bind (read_le 4 bs) (\<lambda>(ty, bs). res_bind (read_le 8 bs) (\<lambda>(off, bs).
     res_bind (read_infos k bs) (\<lambda>(rest, bs). Inr ((name, ty, dims, off) # rest, bs))))))))"

text \<open>
  The header as the self test reads it: the magic, the two counts, one string key, and the tensor records; the data
  section starts at the next multiple of the alignment.
\<close>

definition read_container :: "u8 list \<Rightarrow> ((string \<times> nat \<times> nat list \<times> nat) list \<times> nat) res" where
  "read_container file =
     (if take 8 file \<noteq> magic @ [3, 0, 0, 0] then Inl AssertionError
      else res_bind (read_le 8 (drop 8 file)) (\<lambda>(nt, bs). res_bind (read_le 8 bs) (\<lambda>(nkv, bs).
        if nkv \<noteq> 1 then Inl AssertionError
        else res_bind (read_str bs) (\<lambda>(key, bs). res_bind (read_str (drop 4 bs)) (\<lambda>(v, bs).
             res_bind (read_infos nt bs) (\<lambda>(recs, bs).
               Inr (recs, (length file - length bs + ALIGN - 1) div ALIGN * ALIGN)))))))"

text \<open>One container with a single string key, written as the self test does.\<close>

definition write_container ::
  "string \<Rightarrow> string \<Rightarrow> (string \<times> nat \<times> nat list \<times> nat) list \<Rightarrow> u8 list list list \<Rightarrow> (u8 list \<times> nat) res" where
  "write_container key v ts pss =
     res_bind (gguf_kv_s key v writer_new) (\<lambda>w. res_bind (register_all ts w) (\<lambda>w.
     res_bind (gguf_finalize w) (\<lambda>(w, ds). res_bind (stream_all pss w) (\<lambda>w. Inr (w_file w, ds)))))"


section \<open>Alignment\<close>

lemma mod32_add: "a mod 32 = 0 \<Longrightarrow> b mod 32 = 0 \<Longrightarrow> (a + b) mod 32 = (0 :: nat)"
  by (simp add: mod_eq_0_iff_dvd)

lemma mod32_left: "a mod 32 = 0 \<Longrightarrow> (a + b) mod 32 = b mod (32 :: nat)"
  by (metis add_0 mod_add_left_eq)

lemma pad_len_eq: "pad_len n = (if n mod 32 = 0 then 0 else 32 - n mod 32)"
proof -
  have e: "int n mod 32 = int (n mod 32)" by (simp add: zmod_int)
  have "(- int n) mod 32 = (if int n mod 32 = 0 then 0 else 32 - int n mod 32)" by (simp add: zmod_zminus1_eq_if)
  then show ?thesis unfolding e by (simp add: pad_len_def ALIGN_def nat_diff_distrib)
qed

lemma pad_len_mod: "(n + pad_len n) mod 32 = 0"
proof (cases "n mod 32 = 0")
  case False
  have "n = 32 * (n div 32) + n mod 32" "n mod 32 < 32" by simp_all
  then have "n + pad_len n = 32 * (n div 32 + 1)" unfolding pad_len_eq if_not_P [OF False] by arith
  then show ?thesis by simp
qed (simp add: pad_len_eq)

definition padded :: "u8 list list \<Rightarrow> u8 list" where
  "padded ps = concat ps @ replicate (pad_len (length (concat ps))) 0"

lemma padded_mod: "length (padded ps) mod 32 = 0"
  using pad_len_mod by (simp add: padded_def)

text \<open>The records that registration produces, and the data section that streaming produces.\<close>

fun layout_from :: "nat \<Rightarrow> (string \<times> nat \<times> nat list \<times> nat) list \<Rightarrow> (string \<times> nat \<times> nat list \<times> nat \<times> nat) list" where
  "layout_from d [] = []"
| "layout_from d ((n, tt, dims, nbytes) # ts) = (n, tt, dims, d, nbytes) # layout_from (d + (nbytes + pad_len nbytes)) ts"

lemma register_all_ok:
  "\<not> w_hdr_done w \<Longrightarrow> \<exists>d. register_all ts w = Inr (w\<lparr>w_recs := w_recs w @ layout_from (w_dlen w) ts, w_dlen := d\<rparr>)"
proof (induction ts arbitrary: w)
  case (Cons t ts)
  obtain n tt dims nbytes where t: "t = (n, tt, dims, nbytes)" by (cases t)
  let ?w = "w\<lparr>w_recs := w_recs w @ [(n, tt, dims, w_dlen w, nbytes)], w_dlen := w_dlen w + (nbytes + pad_len nbytes)\<rparr>"
  show ?case using Cons.IH [of ?w] Cons.prems by (simp add: t gguf_register_def)
next
  case Nil
  show ?case by (rule exI [of _ "w_dlen w"]) simp
qed

lemma write_pieces_ok: "w_hdr_done w \<Longrightarrow> write_pieces ps w = Inr (w\<lparr>w_file := w_file w @ concat ps\<rparr>)"
  by (induction ps arbitrary: w) (simp_all add: gguf_write_def)

lemma stream_all_ok:
  "w_hdr_done w \<Longrightarrow> length (w_file w) mod 32 = 0 \<Longrightarrow>
     stream_all pss w = Inr (w\<lparr>w_file := w_file w @ concat (map padded pss)\<rparr>)"
proof (induction pss arbitrary: w)
  case (Cons ps pss)
  have "length (w_file w @ concat ps) mod 32 = length (concat ps) mod 32"
    using Cons.prems(2) by (simp add: mod32_left)
  then have "gguf_align_pad (w\<lparr>w_file := w_file w @ concat ps\<rparr>) = Inr (w\<lparr>w_file := w_file w @ padded ps\<rparr>)"
    by (simp add: gguf_align_pad_def padded_def pad_len_eq ALIGN_def Let_def)
  moreover have "length (w_file w @ padded ps) mod 32 = 0"
    using Cons.prems(2) padded_mod [of ps] by (simp add: mod32_add)
  ultimately show ?case
    using Cons.IH [of "w\<lparr>w_file := w_file w @ padded ps\<rparr>"] Cons.prems(1) by (simp add: write_pieces_ok)
qed simp

definition sizes_fit :: "(string \<times> nat \<times> nat list \<times> nat) list \<Rightarrow> u8 list list list \<Rightarrow> bool" where
  "sizes_fit ts pss \<longleftrightarrow> list_all2 (\<lambda>(n, tt, dims, nbytes) ps. length (concat ps) = nbytes) ts pss"

lemma layout_data:
  "sizes_fit ts pss \<Longrightarrow> d mod 32 = 0 \<Longrightarrow> i < length ts \<Longrightarrow>
     \<exists>off. layout_from d ts ! i = (fst (ts ! i), fst (snd (ts ! i)), fst (snd (snd (ts ! i))), d + off, snd (snd (snd (ts ! i)))) \<and>
       (d + off) mod 32 = 0 \<and> take (snd (snd (snd (ts ! i)))) (drop off (concat (map padded pss))) = concat (pss ! i)"
proof (induction ts arbitrary: pss d i)
  case (Cons t ts)
  obtain n tt dims nbytes where t: "t = (n, tt, dims, nbytes)" by (cases t)
  from Cons.prems(1) obtain ps pss' where ps: "pss = ps # pss'" "length (concat ps) = nbytes" "sizes_fit ts pss'"
    by (auto simp: sizes_fit_def t list_all2_Cons1)
  have len: "length (padded ps) = nbytes + pad_len nbytes" using ps(2) by (simp add: padded_def)
  show ?case
  proof (cases i)
    case 0
    then show ?thesis using Cons.prems(2) ps by (simp add: t padded_def)
  next
    case (Suc j)
    have "(d + (nbytes + pad_len nbytes)) mod 32 = 0"
      using Cons.prems(2) pad_len_mod [of nbytes] by (rule mod32_add)
    then obtain off where off: "layout_from (d + (nbytes + pad_len nbytes)) ts ! j =
        (fst (ts ! j), fst (snd (ts ! j)), fst (snd (snd (ts ! j))), d + (nbytes + pad_len nbytes) + off, snd (snd (snd (ts ! j))))"
        "(d + (nbytes + pad_len nbytes) + off) mod 32 = 0"
        "take (snd (snd (snd (ts ! j)))) (drop off (concat (map padded pss'))) = concat (pss' ! j)"
      using Cons.IH [OF ps(3), of "d + (nbytes + pad_len nbytes)" j] Cons.prems(3) Suc by auto
    then show ?thesis using Suc len
      by (intro exI [of _ "nbytes + pad_len nbytes + off"]) (simp add: t ps(1) add.assoc)
  qed
qed simp

lemma length_layout [simp]: "length (layout_from d ts) = length ts"
  by (induction d ts rule: layout_from.induct) simp_all


section \<open>The header is read back\<close>

lemma read_le_bytes: "n < 256 ^ k \<Longrightarrow> read_le k (le_bytes k n @ rest) = Inr (n, rest)"
  by (simp add: read_le_def le_nat_le_bytes)

lemma of_char_lt: "(of_char c :: nat) < 256"
  by simp

lemma unat_u8: "m < 256 \<Longrightarrow> unat (word_of_nat m :: u8) = m"
  by (simp add: unat_of_nat)

lemma round_up: "n \<le> (n + 32 - 1) div 32 * (32 :: nat)"
  using div_mult_mod_eq [of "n + 31" 32] mod_less_divisor [of 32 "n + 31"] by simp

lemma un_utf8: "un_utf8 (utf8 s) = Inr s"
proof (induction s)
  case (Cons c s)
  let ?n = "of_char c :: nat"
  have n: "?n < 256" by (rule of_char_lt)
  show ?case
  proof (cases "?n < 128")
    case True
    have "(word_of_nat ?n :: u8) < 128" "unat (word_of_nat ?n :: u8) = ?n"
      using True by (simp_all add: word_less_nat_alt unat_of_nat)
    then show ?thesis using Cons True by (simp add: utf8_def Let_def)
  next
    case False
    let ?b = "word_of_nat (192 + ?n div 64) :: u8" and ?c = "word_of_nat (128 + ?n mod 64) :: u8"
    have d: "2 \<le> ?n div 64" "?n div 64 < 4" using False less_mult_imp_div_less [of ?n 4 64] n by auto
    have u: "unat ?b = 192 + ?n div 64" "unat ?c = 128 + ?n mod 64" using d mod_less_divisor [of 64 ?n] by (intro unat_u8; simp)+
    have "194 \<le> ?b" "?b < 196" "128 \<le> ?c" "?c < 192" "\<not> ?b < 128"
      unfolding word_less_nat_alt word_le_nat_alt u using d mod_less_divisor [of 64 ?n] by simp_all
    moreover have "char_of (64 * (unat ?b - 192) + (unat ?c - 128)) = c" unfolding u by simp
    ultimately show ?thesis using Cons False by (simp add: utf8_def Let_def)
  qed
qed (simp add: utf8_def)

definition str_fits :: "string \<Rightarrow> bool" where
  "str_fits s \<longleftrightarrow> length (utf8 s) < 256 ^ 8"

lemma gguf_str_ok: "str_fits s \<Longrightarrow> gguf_str s = Inr (le_bytes 8 (length (utf8 s)) @ utf8 s)"
  by (simp add: str_fits_def gguf_str_def pack_le_def Let_def)

lemma read_str_ok: "str_fits s \<Longrightarrow> read_str (le_bytes 8 (length (utf8 s)) @ utf8 s @ rest) = Inr (utf8 s, rest)"
  using read_le_bytes [of "length (utf8 s)" 8 "utf8 s @ rest"] by (simp add: read_str_def str_fits_def)

lemma read_dims_ok: "\<forall>d\<in>set ds. d < 256 ^ 8 \<Longrightarrow> read_dims (length ds) (concat (map (le_bytes 8) ds) @ rest) = Inr (ds, rest)"
  by (induction ds) (simp_all add: read_le_bytes del: power_numeral)

text \<open>A record whose fields fit their widths.\<close>

definition rec_fits :: "string \<times> nat \<times> nat list \<times> nat \<times> nat \<Rightarrow> bool" where
  "rec_fits = (\<lambda>(n, tt, dims, off, nbytes).
     str_fits n \<and> tt < 256 ^ 4 \<and> length dims < 256 ^ 4 \<and> (\<forall>d\<in>set dims. d < 256 ^ 8) \<and> off < 256 ^ 8)"

definition the_info :: "string \<times> nat \<times> nat list \<times> nat \<times> nat \<Rightarrow> u8 list" where
  "the_info = (\<lambda>(n, tt, dims, off, nbytes). (le_bytes 8 (length (utf8 n)) @ utf8 n) @ le_bytes 4 (length dims) @
     concat (map (le_bytes 8) dims) @ le_bytes 4 tt @ le_bytes 8 off)"

lemma info_bytes_ok: "rec_fits r \<Longrightarrow> info_bytes r = Inr (the_info r)"
proof -
  assume r: "rec_fits r"
  obtain n tt dims off nbytes where e: "r = (n, tt, dims, off, nbytes)" by (cases r)
  have "res_map (pack_le 8) dims = Inr (map (le_bytes 8) dims)"
    using r by (intro res_map_all_Inr) (auto simp: e rec_fits_def pack_le_def)
  then show ?thesis using r by (simp add: e rec_fits_def info_bytes_def gguf_str_ok pack_le_def the_info_def del: power_numeral)
qed

definition drop_nbytes :: "string \<times> nat \<times> nat list \<times> nat \<times> nat \<Rightarrow> string \<times> nat \<times> nat list \<times> nat" where
  "drop_nbytes = (\<lambda>(n, tt, dims, off, nbytes). (n, tt, dims, off))"

lemma read_infos_ok:
  "\<forall>r\<in>set rs. rec_fits r \<Longrightarrow> read_infos (length rs) (concat (map the_info rs) @ rest) = Inr (map drop_nbytes rs, rest)"
proof (induction rs)
  case (Cons r rs)
  obtain n tt dims off nbytes where e: "r = (n, tt, dims, off, nbytes)" by (cases r)
  have f: "str_fits n" "tt < 256 ^ 4" "length dims < 256 ^ 4" "\<forall>d\<in>set dims. d < 256 ^ 8" "off < 256 ^ 8"
    using Cons.prems by (simp_all add: e rec_fits_def)
  show ?case using Cons
    by (simp add: e the_info_def drop_nbytes_def read_str_ok [OF f(1)] un_utf8 read_le_bytes [OF f(2)] read_le_bytes [OF f(3)]
        read_dims_ok [OF f(4)] read_le_bytes [OF f(5)] del: power_numeral)
qed simp

text \<open>Finalizing leaves a header that ends at an aligned data section.\<close>

lemma finalize_ok:
  assumes "\<forall>r\<in>set (w_recs w). rec_fits r" "length (w_recs w) < 256 ^ 8" "length (w_kvs w) < 256 ^ 8"
  shows "\<exists>w' ds. gguf_finalize w = Inr (w', ds) \<and> length (w_file w') = ds \<and> ds mod 32 = 0 \<and> w_hdr_done w'"
proof -
  have all: "res_map info_bytes (w_recs w) = Inr (map the_info (w_recs w))"
    by (rule res_map_all_Inr) (use assms(1) info_bytes_ok in blast)
  define head where "head = magic @ le_bytes 4 3 @ le_bytes 8 (length (w_recs w)) @ le_bytes 8 (length (w_kvs w))"
  define n where "n = length head + length (concat (w_kvs w)) + length (concat (map the_info (w_recs w)))"
  have le: "n \<le> (n + ALIGN - 1) div ALIGN * ALIGN" unfolding ALIGN_def by (rule round_up)
  have "gguf_finalize w = Inr (w\<lparr>w_file := head @ concat (w_kvs w) @ concat (map the_info (w_recs w)) @
      replicate ((n + ALIGN - 1) div ALIGN * ALIGN - n) 0, w_hdr_done := True\<rparr>, (n + ALIGN - 1) div ALIGN * ALIGN)"
    unfolding gguf_finalize_def all res_bind_simps pack_le_def if_P [OF assms(2)] if_P [OF assms(3)] Let_def n_def head_def ..
  moreover have "length (head @ concat (w_kvs w) @ concat (map the_info (w_recs w)) @
      replicate ((n + ALIGN - 1) div ALIGN * ALIGN - n) (0 :: u8)) = (n + ALIGN - 1) div ALIGN * ALIGN"
    using le by (simp add: n_def)
  ultimately show ?thesis by (simp add: ALIGN_def)
qed

text \<open>Registering, finalizing and streaming in sequence, over any metadata.\<close>

lemma streamed_ok:
  assumes "\<forall>r\<in>set (layout_from 0 ts). rec_fits r" "length ts < 256 ^ 8" "length kvs < 256 ^ 8" "sizes_fit ts pss"
  shows "\<exists>w w' ds. register_all ts (writer_new\<lparr>w_kvs := kvs\<rparr>) = Inr w \<and> gguf_finalize w = Inr (w', ds) \<and> ds mod 32 = 0 \<and>
    stream_all pss w' = Inr (w'\<lparr>w_file := w_file w' @ concat (map padded pss)\<rparr>) \<and>
    (\<forall>i<length ts. \<exists>off. layout_from 0 ts ! i = (fst (ts ! i), fst (snd (ts ! i)), fst (snd (snd (ts ! i))), off, snd (snd (snd (ts ! i)))) \<and>
       off mod 32 = 0 \<and> take (snd (snd (snd (ts ! i)))) (drop (ds + off) (w_file w' @ concat (map padded pss))) = concat (pss ! i))"
proof -
  obtain d where reg: "register_all ts (writer_new\<lparr>w_kvs := kvs\<rparr>) = Inr (writer_new\<lparr>w_kvs := kvs, w_recs := layout_from 0 ts, w_dlen := d\<rparr>)"
    using register_all_ok [of "writer_new\<lparr>w_kvs := kvs\<rparr>" ts] by (auto simp: writer_new_def)
  obtain w' ds where fin: "gguf_finalize (writer_new\<lparr>w_kvs := kvs, w_recs := layout_from 0 ts, w_dlen := d\<rparr>) = Inr (w', ds)"
    "length (w_file w') = ds" "ds mod 32 = 0" "w_hdr_done w'"
    using finalize_ok [of "writer_new\<lparr>w_kvs := kvs, w_recs := layout_from 0 ts, w_dlen := d\<rparr>"] assms(1,2,3) by auto
  have "\<exists>off. layout_from 0 ts ! i = (fst (ts ! i), fst (snd (ts ! i)), fst (snd (snd (ts ! i))), off, snd (snd (snd (ts ! i)))) \<and>
       off mod 32 = 0 \<and> take (snd (snd (snd (ts ! i)))) (drop (ds + off) (w_file w' @ concat (map padded pss))) = concat (pss ! i)"
    if i: "i < length ts" for i
    using layout_data [OF assms(4) _ i, of 0] fin(2) by auto
  then show ?thesis using reg fin stream_all_ok [of w' pss] by auto
qed

section \<open>Round trip\<close>

definition container_fits :: "string \<Rightarrow> string \<Rightarrow> (string \<times> nat \<times> nat list \<times> nat) list \<Rightarrow> bool" where
  "container_fits key v ts \<longleftrightarrow> str_fits key \<and> str_fits v \<and> length ts < 256 ^ 8 \<and> (\<forall>r\<in>set (layout_from 0 ts). rec_fits r)"

text \<open>
  C20: the container is read back. Whatever tensors are registered and streamed (the data of each matching the
  size registered for it), the self test's reader finds the same records and the same start of the data section; every
  tensor starts at a multiple of the alignment, and the bytes at its recorded offset are exactly its data.
\<close>

theorem gguf_reads_back:
  assumes "container_fits key v ts" "sizes_fit ts pss"
  shows "\<exists>file ds recs. write_container key v ts pss = Inr (file, ds) \<and> read_container file = Inr (recs, ds) \<and>
    ds mod 32 = 0 \<and> length recs = length ts \<and>
    (\<forall>i<length ts. \<exists>off. recs ! i = (fst (ts ! i), fst (snd (ts ! i)), fst (snd (snd (ts ! i))), off) \<and> off mod 32 = 0 \<and>
       take (snd (snd (snd (ts ! i)))) (drop (ds + off) file) = concat (pss ! i))"
proof -
  define rs where "rs = layout_from 0 ts"
  define kvb where "kvb = (le_bytes 8 (length (utf8 key)) @ utf8 key) @ le_bytes 4 8 @ le_bytes 8 (length (utf8 v)) @ utf8 v"
  define infos where "infos = concat (map the_info rs)"
  define nr nk where "nr = le_bytes 8 (length ts)" and "nk = le_bytes 8 1"
  define pre where "pre = (magic @ le_bytes 4 3 @ nr @ nk) @ kvb @ infos"
  define ds where "ds = (length pre + ALIGN - 1) div ALIGN * ALIGN"
  define pad where "pad = (replicate (ds - length pre) 0 :: u8 list)"
  define tensors where "tensors = concat (map padded pss)"
  have fit: "str_fits key" "str_fits v" "length ts < 256 ^ 8" "\<forall>r\<in>set rs. rec_fits r"
    using assms(1) by (simp_all add: container_fits_def rs_def)
  have kv: "gguf_kv_s key v writer_new = Inr (writer_new\<lparr>w_kvs := [kvb]\<rparr>)"
    using fit by (simp add: gguf_kv_s_def gguf_str_ok gguf_kv_def writer_new_def pack_le_def KV_STR_def kvb_def)
  obtain d where reg: "register_all ts (writer_new\<lparr>w_kvs := [kvb]\<rparr>) = Inr (writer_new\<lparr>w_kvs := [kvb], w_recs := rs, w_dlen := d\<rparr>)"
    using register_all_ok [of "writer_new\<lparr>w_kvs := [kvb]\<rparr>" ts] by (auto simp: writer_new_def rs_def)
  have all: "res_map info_bytes rs = Inr (map the_info rs)"
    by (rule res_map_all_Inr) (use fit(4) info_bytes_ok in blast)
  let ?w = "writer_new\<lparr>w_kvs := [kvb], w_recs := rs, w_dlen := d, w_file := pre @ pad, w_hdr_done := True\<rparr>"
  have "length rs = length ts" by (simp add: rs_def)
  then have fin: "gguf_finalize (writer_new\<lparr>w_kvs := [kvb], w_recs := rs, w_dlen := d\<rparr>) = Inr (?w, ds)"
    using fit(3) by (simp add: gguf_finalize_def all pack_le_def Let_def writer_new_def pad_def ds_def pre_def infos_def nr_def nk_def
        add.assoc del: le_bytes.simps)
  have "length pre \<le> ds" unfolding ds_def ALIGN_def by (rule round_up)
  then have len: "length (pre @ pad) = ds" by (simp add: pad_def)
  have aligned: "ds mod 32 = 0" by (simp add: ds_def ALIGN_def)
  have str: "stream_all pss ?w = Inr (?w\<lparr>w_file := (pre @ pad) @ tensors\<rparr>)"
    using stream_all_ok [of ?w pss] len aligned by (simp add: tensors_def)
  have written: "write_container key v ts pss = Inr ((pre @ pad) @ tensors, ds)"
    unfolding write_container_def kv reg fin str res_bind_simps prod.case by simp
  have readc: "read_container ((pre @ pad) @ tensors) = Inr (map drop_nbytes rs, ds)"
  proof -
    have version: "le_bytes 4 3 = [3, 0, 0, 0]" by code_simp
    have shape: "(pre @ pad) @ tensors = (magic @ [3, 0, 0, 0]) @ nr @ nk @ kvb @ infos @ pad @ tensors"
      unfolding pre_def version by simp
    have "length (magic @ [3, 0, 0, 0]) = 8" by (simp add: magic_def)
    then have "take 8 ((pre @ pad) @ tensors) = magic @ [3, 0, 0, 0]"
      and "drop 8 ((pre @ pad) @ tensors) = nr @ nk @ kvb @ infos @ pad @ tensors"
      unfolding shape by (metis append_eq_conv_conj)+
    moreover have "read_le 8 (nr @ nk @ kvb @ infos @ pad @ tensors) = Inr (length ts, nk @ kvb @ infos @ pad @ tensors)"
      unfolding nr_def by (rule read_le_bytes [OF fit(3)])
    moreover have "read_le 8 (nk @ kvb @ infos @ pad @ tensors) = Inr (1, kvb @ infos @ pad @ tensors)"
      unfolding nk_def by (rule read_le_bytes) simp
    moreover have "read_str (kvb @ infos @ pad @ tensors) =
        Inr (utf8 key, le_bytes 4 8 @ le_bytes 8 (length (utf8 v)) @ utf8 v @ infos @ pad @ tensors)"
      unfolding kvb_def append_assoc by (rule read_str_ok [OF fit(1)])
    moreover have "read_str (drop 4 (le_bytes 4 8 @ le_bytes 8 (length (utf8 v)) @ utf8 v @ infos @ pad @ tensors))
        = Inr (utf8 v, infos @ pad @ tensors)"
      using read_str_ok [OF fit(2), of "infos @ pad @ tensors"] by (simp del: le_bytes.simps)
    moreover have "read_infos (length ts) (infos @ pad @ tensors) = Inr (map drop_nbytes rs, pad @ tensors)"
      using read_infos_ok [OF fit(4), of "pad @ tensors"] by (simp add: rs_def infos_def)
    moreover have "length ((pre @ pad) @ tensors) - length (pad @ tensors) = length pre" by simp
    ultimately show ?thesis unfolding read_container_def ds_def by simp
  qed
  have "\<exists>off. map drop_nbytes rs ! i = (fst (ts ! i), fst (snd (ts ! i)), fst (snd (snd (ts ! i))), off) \<and> off mod 32 = 0 \<and>
       take (snd (snd (snd (ts ! i)))) (drop (ds + off) ((pre @ pad) @ tensors)) = concat (pss ! i)" if i: "i < length ts" for i
  proof -
    obtain off where off: "rs ! i = (fst (ts ! i), fst (snd (ts ! i)), fst (snd (snd (ts ! i))), 0 + off, snd (snd (snd (ts ! i))))"
      "(0 + off) mod 32 = 0" "take (snd (snd (snd (ts ! i)))) (drop off tensors) = concat (pss ! i)"
      using layout_data [OF assms(2) _ i, of 0] by (auto simp: rs_def tensors_def)
    have "drop (ds + off) ((pre @ pad) @ tensors) = drop off tensors"
      unfolding drop_append [of _ "pre @ pad"] len by (simp add: len [symmetric])
    then show ?thesis using off i by (intro exI [of _ off]) (simp add: drop_nbytes_def rs_def)
  qed
  then show ?thesis using written readc aligned
    by (intro exI [of _ "(pre @ pad) @ tensors"] exI [of _ ds] exI [of _ "map drop_nbytes rs"] conjI) (simp_all add: rs_def)
qed


definition demo_tensors :: "(string \<times> nat \<times> nat list \<times> nat) list" where
  "demo_tensors = [(''a.weight'', 3, [32, 1], 20), (''z.weight'', 0, [1], 4)]"

definition demo_pieces :: "u8 list list list" where
  "demo_pieces = [[replicate 12 7, replicate 8 9], [[1, 2, 3, 4]]]"

lemma str_fits_short: "length s < 1000 \<Longrightarrow> str_fits s"
proof -
  have "length (utf8 s) \<le> 2 * length s" by (induction s) (auto simp: utf8_def Let_def)
  then show "length s < 1000 \<Longrightarrow> str_fits s" by (simp add: str_fits_def)
qed

lemma demo_container: "container_fits ''general.architecture'' ''qwen3next'' demo_tensors" "sizes_fit demo_tensors demo_pieces"
  by (simp_all add: container_fits_def demo_tensors_def demo_pieces_def rec_fits_def sizes_fit_def str_fits_short pad_len_eq)

theorem gguf_reads_back_witness:
  "\<exists>file ds recs off. write_container ''general.architecture'' ''qwen3next'' demo_tensors demo_pieces = Inr (file, ds) \<and>
     read_container file = Inr (recs, ds) \<and> recs ! 1 = (''z.weight'', 0, [1], off) \<and> take 4 (drop (ds + off) file) = [1, 2, 3, 4]"
proof -
  obtain bytes ds recs where c: "write_container ''general.architecture'' ''qwen3next'' demo_tensors demo_pieces = Inr (bytes, ds)"
    "read_container bytes = Inr (recs, ds)"
    "\<forall>i<length demo_tensors. \<exists>off. recs ! i = (fst (demo_tensors ! i), fst (snd (demo_tensors ! i)), fst (snd (snd (demo_tensors ! i))), off) \<and>
       off mod 32 = 0 \<and> take (snd (snd (snd (demo_tensors ! i)))) (drop (ds + off) bytes) = concat (demo_pieces ! i)"
    using gguf_reads_back [OF demo_container] by blast
  then show ?thesis using c(3) [rule_format, of 1] by (auto simp: demo_tensors_def demo_pieces_def)
qed

end
