(* ===== verification/Repack_Gguf.thy ===== *)
theory Repack_Gguf
  imports Q41 Gguf_File
begin

text \<open>
  The flow of \<open>windows/tools/repack_mlx_to_gguf.py\<close>: the index over the shards (\<open>StIndex\<close>), the classification of
  the tensors (\<open>classify\<close>, \<open>tensor_shape\<close>) and the two passes of \<open>run\<close>, which register every planned tensor and
  then stream its data chunk by chunk through the parity gate.
\<close>

section \<open>The tensor index\<close>

record st_entry =
  st_path :: string
  st_off :: int
  st_size :: int
  st_dtype :: string
  st_shape :: "nat list"

record st_index =
  st_t :: "(string \<times> st_entry) list"
  st_files :: "(string \<times> u8 list) list"

text \<open>\<open>st_header\<close>: the metadata entry is dropped, offsets become absolute.\<close>

fun header_entries :: "string \<Rightarrow> int \<Rightarrow> header \<Rightarrow> (string \<times> st_entry) list res" where
  "header_entries p base [] = Inr []"
| "header_entries p base ((k, v) # h) =
     (case v of
        HMeta m \<Rightarrow> Inl KeyError
      | HTensor t \<Rightarrow> res_bind (header_entries p base h) (\<lambda>es.
          Inr ((k, \<lparr>st_path = p, st_off = base + mbegin t, st_size = mend t - mbegin t, st_dtype = mdtype t, st_shape = mshape t\<rparr>) # es)))"

definition st_header :: "(u8 list \<Rightarrow> header res) \<Rightarrow> (string \<times> u8 list) list \<Rightarrow> string \<Rightarrow> (string \<times> st_entry) list res" where
  "st_header loads files p =
     (case map_of files p of
        None \<Rightarrow> Inl FileNotFoundError
      | Some bytes \<Rightarrow> res_bind (unpack_Q (take 8 bytes)) (\<lambda>n. res_bind (loads (py_slice 8 (8 + n) bytes)) (\<lambda>h.
          header_entries p (8 + int n) (AList.delete ''__metadata__'' h))))"

definition st_index_open :: "(u8 list \<Rightarrow> header res) \<Rightarrow> (string \<times> u8 list) list \<Rightarrow> string list \<Rightarrow> st_index res" where
  "st_index_open loads files paths =
     res_bind (res_map (st_header loads files) (sort paths)) (\<lambda>hs.
       Inr \<lparr>st_t = fold (\<lambda>(k, e) t. AList.update k e t) (concat hs) [], st_files = files\<rparr>)"

text \<open>
  \<open>load\<close>: the bytes viewed at the dtype, BF16 widened exactly to float32, reshaped. An array is its elements in
  row-major order.
\<close>

datatype arr = AU32 "32 word list" | AF32 "f32 list" | AF16 "f16 list"

definition bf16_to_f32 :: "16 word list \<Rightarrow> f32 list" where
  "bf16_to_f32 u16 = map (\<lambda>u. push_bit 16 (ucast u)) u16"

definition read_at :: "int \<Rightarrow> int \<Rightarrow> u8 list \<Rightarrow> u8 list res" where
  "read_at off n bytes =
     (if off < 0 then Inl ValueError
      else if n < 0 then Inr (drop (nat off) bytes) else Inr (take (nat n) (drop (nat off) bytes)))"

fun arr_length :: "arr \<Rightarrow> nat" where
  "arr_length (AU32 xs) = length xs"
| "arr_length (AF32 xs) = length xs"
| "arr_length (AF16 xs) = length xs"

definition view_arr :: "string \<Rightarrow> u8 list \<Rightarrow> arr res" where
  "view_arr dt a =
     (if dt = ''U32'' then res_bind (view_u4 a) (\<lambda>w. Inr (AU32 w))
      else if dt = ''BF16'' then res_bind (view_u2 a) (\<lambda>w. Inr (AF32 (bf16_to_f32 w)))
      else if dt = ''F16'' then res_bind (view_u2 a) (\<lambda>w. Inr (AF16 w))
      else if dt = ''F32'' then res_bind (view_u4 a) (\<lambda>w. Inr (AF32 w))
      else Inl KeyError)"

definition st_load :: "st_index \<Rightarrow> string \<Rightarrow> arr res" where
  "st_load idx name =
     (case map_of (st_t idx) name of
        None \<Rightarrow> Inl KeyError
      | Some e \<Rightarrow>
          (case map_of (st_files idx) (st_path e) of
             None \<Rightarrow> Inl FileNotFoundError
           | Some bytes \<Rightarrow>
               res_bind (read_at (st_off e) (st_size e) bytes) (\<lambda>raw.
               res_bind (view_arr (st_dtype e) raw) (\<lambda>a.
                 if arr_length a = prod_list (st_shape e) then Inr a else Inl ValueError))))"

section \<open>Classification\<close>

definition lower :: "char \<Rightarrow> char" where
  "lower c = (let n = (of_char c :: nat) in if 65 \<le> n \<and> n \<le> 90 then char_of (n + 32) else c)"

text \<open>The search for \<open>lora|pregate|prerouter|mtp\<close> that ignores case.\<close>

definition external :: "string \<Rightarrow> bool" where
  "external name \<longleftrightarrow> (let n = map lower name in
     occurs ''lora'' n \<or> occurs ''pregate'' n \<or> occurs ''prerouter'' n \<or> occurs ''mtp'' n)"

definition base_of :: "string \<Rightarrow> string" where
  "base_of name = (if ends_with ''.weight'' name then take (length name - 7) name else name)"

definition py_lastelem :: "'a list \<Rightarrow> 'a res" where
  "py_lastelem xs = (if xs = [] then Inl IndexError else Inr (last xs))"

text \<open>One tensor: nothing, a skipped name, or a plan entry (kind, name, base).\<close>

datatype verdict = Ignored | Skipped string | Planned "string \<times> string \<times> string"

definition classify_one :: "st_index \<Rightarrow> string \<times> st_entry \<Rightarrow> verdict res" where
  "classify_one idx = (\<lambda>(name, e).
     if ends_with ''.scales'' name \<or> ends_with ''.biases'' name then Inr Ignored
     else if external name then Inr (Skipped name)
     else
       let base = base_of name; dt = st_dtype e; shp = st_shape e
       in if dt = ''U32'' then
            (case map_of (st_t idx) (base @ ''.scales'') of
               None \<Rightarrow> Inl ValueError
             | Some se \<Rightarrow> res_bind (py_lastelem (st_shape se)) (\<lambda>G. res_bind (py_lastelem shp) (\<lambda>words.
                 if G * 64 = words * 8 then Inr (Planned (''q41'', name, base))
                 else if G * 64 = words * 4 then Inr (Planned (''f32i8'', name, base))
                 else Inl ValueError)))
          else if dt = ''BF16'' \<or> dt = ''F16'' \<or> dt = ''F32''
               then Inr (Planned (if dt = ''F16'' then ''f16'' else ''f32'', name, base))
          else Inl ValueError)"

definition classify :: "st_index \<Rightarrow> ((string \<times> string \<times> string) list \<times> string list) res" where
  "classify idx =
     res_bind (res_map (classify_one idx) (st_t idx)) (\<lambda>vs.
       Inr (sort_key fst (sort_key (\<lambda>p. fst (snd p)) (concat (map (\<lambda>v. case v of Planned p \<Rightarrow> [p] | _ \<Rightarrow> []) vs))),
            sort (concat (map (\<lambda>v. case v of Skipped n \<Rightarrow> [n] | _ \<Rightarrow> []) vs))))"

definition T_F32 :: nat where "T_F32 = 0"

definition T_F16 :: nat where "T_F16 = 1"

definition T_Q4_1 :: nat where "T_Q4_1 = 3"

text \<open>\<open>tensor_shape\<close>: the ggml type, the dimensions innermost first, and the byte size.\<close>

definition tensor_shape :: "st_index \<Rightarrow> string \<times> string \<times> string \<Rightarrow> (nat \<times> nat list \<times> nat) res" where
  "tensor_shape idx = (\<lambda>(kind, name, base).
     case map_of (st_t idx) name of
       None \<Rightarrow> Inl KeyError
     | Some e \<Rightarrow>
         let shp = st_shape e
         in if kind = ''f16'' \<or> kind = ''f32'' then
              Inr (if kind = ''f16'' then T_F16 else T_F32, rev shp, prod_list shp * (if kind = ''f16'' then 2 else 4))
            else res_bind (py_lastelem shp) (\<lambda>words.
              let lead = butlast shp; rows = prod_list lead
              in case map_of (st_t idx) (base @ ''.scales'') of
                   None \<Rightarrow> Inl KeyError
                 | Some se \<Rightarrow> res_bind (py_lastelem (st_shape se)) (\<lambda>G.
                     if kind = ''q41'' then
                       (if G * 64 = words * 8 then Inr (T_Q4_1, words * 8 # rev lead, rows * (words * 8 div 32) * 20)
                        else Inl AssertionError)
                     else if G * 64 = words * 4 then Inr (T_F32, words * 4 # rev lead, rows * (words * 4) * 4)
                     else Inl AssertionError)))"

section \<open>The two passes\<close>

text \<open>Rows of a reshaped array, and \<open>reshape(rows, -1)\<close>.\<close>

definition rows_of :: "nat \<Rightarrow> nat \<Rightarrow> 'a list \<Rightarrow> 'a list list" where
  "rows_of R n xs = map (\<lambda>r. take n (drop (r * n) xs)) [0..<R]"

definition reshape_rows :: "nat \<Rightarrow> 'a list \<Rightarrow> 'a list list res" where
  "reshape_rows R xs =
     (if R = 0 \<or> length xs mod R \<noteq> 0 then Inl ValueError else Inr (rows_of R (length xs div R) xs))"

text \<open>
  Scales and biases as float32; a float16 array promotes exactly. Scales stored as integers are outside the model
  and reported as a type error.
\<close>

definition as_f32 :: "float_ops \<Rightarrow> arr \<Rightarrow> f32 list res" where
  "as_f32 fo a = (case a of AF32 xs \<Rightarrow> Inr xs | AF16 xs \<Rightarrow> Inr (map (of_half fo) xs) | AU32 xs \<Rightarrow> Inl TypeError)"

fun as_u32 :: "arr \<Rightarrow> 32 word list res" where
  "as_u32 (AU32 xs) = Inr xs"
| "as_u32 (AF32 xs) = Inl TypeError"
| "as_u32 (AF16 xs) = Inl TypeError"

text \<open>
  \<open>deq_mlx_side\<close> with numpy's broadcasting: a row of scales or biases has one value per group, or one value.
\<close>

definition spread_groups :: "nat \<Rightarrow> f32 list \<Rightarrow> f32 list res" where
  "spread_groups G row =
     (if length row = G then Inr row else if length row = 1 then Inr (replicate G (hd row)) else Inl ValueError)"

definition deq_checked :: "float_ops \<Rightarrow> nat \<Rightarrow> u8 list list \<Rightarrow> f32 list list \<Rightarrow> f32 list list \<Rightarrow> f32 list list res" where
  "deq_checked fo K q s b =
     (if K mod 64 \<noteq> 0 then Inl ValueError
      else res_bind (res_map (spread_groups (K div 64)) s) (\<lambda>s'. res_bind (res_map (spread_groups (K div 64)) b) (\<lambda>b'.
        Inr (deq_mlx_side fo q s' b'))))"

record gate_entry =
  ga_tensor :: string
  ga_first :: nat
  ga_last :: nat
  ga_ok :: bool

record audit =
  au_counts :: gate_counts
  au_gates :: "gate_entry list"
  au_errors :: "(string \<times> nat) list"

definition CHUNK :: nat where
  "CHUNK = 8192"

text \<open>
  One chunk of rows. \<open>picked\<close> says whether the chunk's parity is checked (all of them with \<open>verify = all\<close>, a random
  choice otherwise).
\<close>

definition q41_chunk ::
  "(u8 list \<Rightarrow> string) \<Rightarrow> float_ops \<Rightarrow> (string \<Rightarrow> nat \<Rightarrow> bool) \<Rightarrow> string \<Rightarrow> nat \<Rightarrow> nat \<Rightarrow>
     32 word list list \<Rightarrow> f32 list list \<Rightarrow> f32 list list \<Rightarrow> audit \<Rightarrow> (u8 list \<times> audit) res" where
  "q41_chunk sha16 fo picked name ci K W S B au =
     (let q = map mlx_q_bytes W; i0 = ci * CHUNK
      in res_bind (pack_q41_rows fo (au_counts au) K q S B) (\<lambda>(blocks, exm, gc).
           let au' = au\<lparr>au_counts := gc\<rparr>
           in Inr (q41_bytes blocks,
                if picked name ci then
                  let ok = fst (parity_gate sha16 i0 exm (deq_mlx_side fo q S B) (deq_gguf_side fo blocks));
                      au'' = au'\<lparr>au_gates := au_gates au' @ [\<lparr>ga_tensor = name, ga_first = i0, ga_last = i0 + length W, ga_ok = ok\<rparr>]\<rparr>
                  in if ok then au'' else au''\<lparr>au_errors := au_errors au'' @ [(name, i0)]\<rparr>
                else au')))"

fun q41_chunks ::
  "(u8 list \<Rightarrow> string) \<Rightarrow> float_ops \<Rightarrow> (string \<Rightarrow> nat \<Rightarrow> bool) \<Rightarrow> string \<Rightarrow> nat \<Rightarrow>
     32 word list list \<Rightarrow> f32 list list \<Rightarrow> f32 list list \<Rightarrow> nat list \<Rightarrow> audit \<Rightarrow> (u8 list list \<times> audit) res" where
  "q41_chunks sha16 fo picked name K W S B [] au = Inr ([], au)"
| "q41_chunks sha16 fo picked name K W S B (ci # later) au =
     (let sl = (\<lambda>xs. take CHUNK (drop (ci * CHUNK) xs)); sf = (\<lambda>xs. take CHUNK (drop (ci * CHUNK) xs))
      in res_bind (q41_chunk sha16 fo picked name ci K (sl W) (sf S) (sf B) au) (\<lambda>(bs, au').
         res_bind (q41_chunks sha16 fo picked name K W S B later au') (\<lambda>(rest, au''). Inr (bs # rest, au''))))"

text \<open>\<open>range(0, rows, CHUNK)\<close> has one element per started chunk.\<close>

definition chunk_indices :: "nat \<Rightarrow> nat list" where
  "chunk_indices rows = [0..<(rows + CHUNK - 1) div CHUNK]"

definition u32_bytes :: "32 word list \<Rightarrow> u8 list" where
  "u32_bytes ws = concat (map (\<lambda>w. le_bytes 4 (unat w)) ws)"

text \<open>Pass B for one planned tensor: the pieces written to the file.\<close>

definition tensor_pieces ::
  "(u8 list \<Rightarrow> string) \<Rightarrow> float_ops \<Rightarrow> (string \<Rightarrow> nat \<Rightarrow> bool) \<Rightarrow> st_index \<Rightarrow> string \<times> string \<times> string \<Rightarrow> audit \<Rightarrow>
     (u8 list list \<times> audit) res" where
  "tensor_pieces sha16 fo picked idx = (\<lambda>(kind, name, base) au.
     if kind = ''f16'' \<or> kind = ''f32'' then
       res_bind (st_load idx name) (\<lambda>a.
         case a of
           AF16 xs \<Rightarrow> (if kind = ''f16'' then Inr ([concat (map (\<lambda>x. le_bytes 2 (unat x)) xs)], au) else Inl TypeError)
         | AF32 xs \<Rightarrow> (if kind = ''f32'' then Inr ([concat (map (\<lambda>x. le_bytes 4 (unat x)) xs)], au) else Inl TypeError)
         | AU32 xs \<Rightarrow> Inl TypeError)
     else
       case map_of (st_t idx) name of
         None \<Rightarrow> Inl KeyError
       | Some e \<Rightarrow>
           let words = last (st_shape e); rows = prod_list (butlast (st_shape e))
           in res_bind (st_load idx name) (\<lambda>wa. res_bind (st_load idx (base @ ''.scales'')) (\<lambda>sa.
              res_bind (st_load idx (base @ ''.biases'')) (\<lambda>ba.
              res_bind (as_u32 wa) (\<lambda>w. res_bind (as_f32 fo sa) (\<lambda>s. res_bind (as_f32 fo ba) (\<lambda>b.
              let W = rows_of rows words w
              in res_bind (reshape_rows rows s) (\<lambda>S. res_bind (reshape_rows rows b) (\<lambda>B.
                 if kind = ''q41'' then q41_chunks sha16 fo picked name (words * 8) W S B (chunk_indices rows) au
                 else res_bind (res_map (\<lambda>ci.
                          let sl = (\<lambda>xs. take CHUNK (drop (ci * CHUNK) xs)); sf = (\<lambda>xs. take CHUNK (drop (ci * CHUNK) xs))
                          in res_bind (deq_checked fo (words * 4) (map u32_bytes (sl W)) (sf S) (sf B)) (\<lambda>A. Inr (f32_bytes A)))
                        (chunk_indices rows)) (\<lambda>ps. Inr (ps, au)))))))))))"

fun all_pieces ::
  "(u8 list \<Rightarrow> string) \<Rightarrow> float_ops \<Rightarrow> (string \<Rightarrow> nat \<Rightarrow> bool) \<Rightarrow> st_index \<Rightarrow> (string \<times> string \<times> string) list \<Rightarrow> audit \<Rightarrow>
     (u8 list list list \<times> audit) res" where
  "all_pieces sha16 fo picked idx [] au = Inr ([], au)"
| "all_pieces sha16 fo picked idx (p # ps) au =
     res_bind (tensor_pieces sha16 fo picked idx p au) (\<lambda>(d, au').
     res_bind (all_pieces sha16 fo picked idx ps au') (\<lambda>(ds, au''). Inr (d # ds, au'')))"

text \<open>The metadata of the R1 artifact, pass A, pass B. \<open>title\<close> is the descriptive name string.\<close>

definition r1_header :: "string \<Rightarrow> gguf_writer res" where
  "r1_header title =
     res_bind (gguf_kv_s ''general.architecture'' ''qwen3next'' writer_new) (\<lambda>w.
     res_bind (gguf_kv_s ''general.name'' title w) (\<lambda>w.
       gguf_kv ''general.alignment'' 4 (le_bytes 4 ALIGN) w))"

definition plan_regs :: "st_index \<Rightarrow> (string \<times> string \<times> string) list \<Rightarrow> (string \<times> nat \<times> nat list \<times> nat) list res" where
  "plan_regs idx plan =
     res_map (\<lambda>p. res_bind (tensor_shape idx p) (\<lambda>(tt, dims, nbytes). Inr (fst (snd p), tt, dims, nbytes))) plan"

definition no_audit :: audit where
  "no_audit = \<lparr>au_counts = \<lparr>g_elems = 0, g_breach = 0, g_benign = 0\<rparr>, au_gates = [], au_errors = []\<rparr>"

definition repack_run ::
  "(u8 list \<Rightarrow> string) \<Rightarrow> float_ops \<Rightarrow> (string \<Rightarrow> nat \<Rightarrow> bool) \<Rightarrow> string \<Rightarrow> st_index \<Rightarrow>
     ((string \<times> nat \<times> nat list \<times> nat) list \<times> u8 list \<times> nat \<times> audit \<times> bool) res" where
  "repack_run sha16 fo picked title idx =
     res_bind (classify idx) (\<lambda>(plan, skipped).
     res_bind (r1_header title) (\<lambda>w.
     res_bind (plan_regs idx plan) (\<lambda>regs.
     res_bind (register_all regs w) (\<lambda>w.
     res_bind (gguf_finalize w) (\<lambda>(w, ds).
     res_bind (all_pieces sha16 fo picked idx plan no_audit) (\<lambda>(data, au).
     res_bind (stream_all data w) (\<lambda>w.
       Inr (regs, w_file w, ds, au, au_errors au = [] \<and> list_all ga_ok (au_gates au)))))))))"


section \<open>Every tensor has its registered size\<close>

lemma chunks_take: "concat (map (\<lambda>i. take m (drop (i * m) xs)) [0..<n]) = take (n * m) xs"
  by (induction n) (simp_all add: take_add [symmetric] add.commute)

lemma chunks_all: "concat (map (\<lambda>i. take CHUNK (drop (i * CHUNK) xs)) (chunk_indices (length xs))) = xs"
proof -
  have "length xs \<le> (length xs + CHUNK - 1) div CHUNK * CHUNK"
    using div_mult_mod_eq [of "length xs + 8191" 8192] mod_less_divisor [of 8192 "length xs + 8191"] by (simp add: CHUNK_def)
  then show ?thesis unfolding chunk_indices_def chunks_take by simp
qed

lemma chunks_length: "(\<Sum>i\<leftarrow>chunk_indices (length xs). length (take CHUNK (drop (i * CHUNK) xs))) = length xs"
  using arg_cong [OF chunks_all [of xs], of length] by (simp add: length_concat comp_def del: length_take)

lemma in_slice: "x \<in> set (take m (drop n xs)) \<Longrightarrow> x \<in> set xs"
  by (metis in_set_dropD in_set_takeD)

lemma chunk_ok_slice:
  "chunk_ok K q s b \<Longrightarrow> chunk_ok K (take m (drop n q)) (take m (drop n s)) (take m (drop n b))"
  by (auto simp: chunk_ok_def dest: in_slice)

text \<open>An audit without failures.\<close>

definition green :: "audit \<Rightarrow> bool" where
  "green au \<longleftrightarrow> au_errors au = [] \<and> list_all ga_ok (au_gates au)"

lemma length_q41_bytes:
  "length (q41_bytes (map (\<lambda>r. map (pack_block fo q s b r) [0..<n]) [0..<R])) = R * (n * 20)"
proof -
  have "length (q41_bytes kss) = length kss * (n * 20)" if "\<forall>ks\<in>set kss. length ks = n \<and> (\<forall>k\<in>set ks. length (qs k) = 16)" for kss
    using that
  proof (induction kss)
    case (Cons ks kss)
    have "length (q41_bytes [ks]) = length ks * 20" if "\<forall>k\<in>set ks. length (qs k) = 16" for ks
      using that by (induction ks) (simp_all add: q41_bytes_def)
    then have "length (q41_bytes [ks]) = n * 20" using Cons.prems by simp
    moreover have "q41_bytes (ks # kss) = q41_bytes [ks] @ q41_bytes kss" by (simp add: q41_bytes_def)
    ultimately show ?case using Cons by simp
  qed (simp add: q41_bytes_def)
  then show ?thesis by (simp add: pack_block_def pack_codes_def)
qed

lemma q41_chunk_ok:
  assumes "ieee_ok fo" "chunk_ok K (map mlx_q_bytes W) S B"
  shows "\<exists>bs au'. q41_chunk sha16 fo picked name ci K W S B au = Inr (bs, au') \<and>
    length bs = length W * (K div 32 * 20) \<and> (green au \<longrightarrow> green au')"
proof -
  let ?q = "map mlx_q_bytes W"
  let ?blocks = "map (\<lambda>r. map (pack_block fo ?q S B r) [0..<K div 32]) [0..<length ?q]"
  obtain gc where gc: "pack_q41_rows fo (au_counts au) K ?q S B = Inr (?blocks, exempt_of fo K ?q S B, gc)"
    using pack_rows_ok [OF assms(2)] by blast
  have ok: "fst (parity_gate sha16 (ci * CHUNK) (exempt_of fo K ?q S B) (deq_mlx_side fo ?q S B) (deq_gguf_side fo ?blocks))"
    by (rule parity_gate_ok [OF assms]) simp
  have len: "length (q41_bytes ?blocks) = length W * (K div 32 * 20)"
    using length_q41_bytes [of fo ?q S B "K div 32" "length ?q"] by simp
  show ?thesis using ok len by (simp add: q41_chunk_def gc Let_def green_def del: length_map)
qed

lemma q41_chunks_ok:
  assumes "ieee_ok fo" "chunk_ok K (map mlx_q_bytes W) S B"
  shows "\<exists>ps au'. q41_chunks sha16 fo picked name K W S B ixs au = Inr (ps, au') \<and>
    length (concat ps) = (\<Sum>i\<leftarrow>ixs. length (take CHUNK (drop (i * CHUNK) W))) * (K div 32 * 20) \<and> (green au \<longrightarrow> green au')"
proof (induction ixs arbitrary: au)
  case (Cons ci ixs)
  have "chunk_ok K (map mlx_q_bytes (take CHUNK (drop (ci * CHUNK) W)))
      (take CHUNK (drop (ci * CHUNK) S)) (take CHUNK (drop (ci * CHUNK) B))"
    using chunk_ok_slice [OF assms(2), of CHUNK "ci * CHUNK"] by (simp add: take_map drop_map)
  from q41_chunk_ok [OF assms(1) this, of sha16 picked name ci au]
  obtain bs au1 where one: "q41_chunk sha16 fo picked name ci K (take CHUNK (drop (ci * CHUNK) W))
      (take CHUNK (drop (ci * CHUNK) S)) (take CHUNK (drop (ci * CHUNK) B)) au = Inr (bs, au1)"
    "length bs = length (take CHUNK (drop (ci * CHUNK) W)) * (K div 32 * 20)" "green au \<longrightarrow> green au1" by blast
  obtain ps au2 where rest: "q41_chunks sha16 fo picked name K W S B ixs au1 = Inr (ps, au2)"
    "length (concat ps) = (\<Sum>i\<leftarrow>ixs. length (take CHUNK (drop (i * CHUNK) W))) * (K div 32 * 20)" "green au1 \<longrightarrow> green au2"
    using Cons.IH [of au1] by blast
  have "length (concat (bs # ps)) = (\<Sum>i\<leftarrow>ci # ixs. length (take CHUNK (drop (i * CHUNK) W))) * (K div 32 * 20)"
    using one(2) rest(2) by (simp add: add_mult_distrib del: length_take length_drop)
  then show ?case using one rest by (auto simp: Let_def simp del: length_take length_drop)
qed simp

definition load_three :: "float_ops \<Rightarrow> st_index \<Rightarrow> string \<Rightarrow> string \<Rightarrow> (32 word list \<times> f32 list \<times> f32 list) res" where
  "load_three fo idx name base =
     res_bind (res_bind (st_load idx name) as_u32) (\<lambda>w.
     res_bind (res_bind (st_load idx (base @ ''.scales'')) (as_f32 fo)) (\<lambda>s.
     res_bind (res_bind (st_load idx (base @ ''.biases'')) (as_f32 fo)) (\<lambda>b. Inr (w, s, b))))"

lemma load_three_Inr:
  assumes "load_three fo idx name base = Inr (w, s, b)"
  obtains sa ba where "st_load idx name = Inr (AU32 w)" "st_load idx (base @ ''.scales'') = Inr sa" "as_f32 fo sa = Inr s"
    "st_load idx (base @ ''.biases'') = Inr ba" "as_f32 fo ba = Inr b"
  using assms by (auto simp: load_three_def res_bind_Inr_iff elim!: as_u32.elims)

definition code_width :: "string \<Rightarrow> nat \<Rightarrow> nat" where
  "code_width kind words = (if kind = ''q41'' then words * 8 else words * 4)"

definition quant_fit :: "string \<Rightarrow> nat \<Rightarrow> nat \<Rightarrow> f32 list \<Rightarrow> f32 list \<Rightarrow> bool" where
  "quant_fit kind words rows s b \<longleftrightarrow>
     0 < rows \<and> code_width kind words mod 64 = 0 \<and>
     length s = rows * (code_width kind words div 64) \<and> length b = rows * (code_width kind words div 64) \<and>
     (kind = ''q41'' \<longrightarrow> list_all half_range s \<and> list_all (\<lambda>x. \<not> is_nan x) b)"

text \<open>A planned tensor whose sources can be loaded; for a \<open>Q4_1\<close> tensor the scales are within half range.\<close>

definition source_ok :: "float_ops \<Rightarrow> st_index \<Rightarrow> string \<times> string \<times> string \<Rightarrow> bool" where
  "source_ok fo idx = (\<lambda>(kind, name, base).
     case map_of (st_t idx) name of
       None \<Rightarrow> False
     | Some e \<Rightarrow>
         if kind = ''f16'' \<or> kind = ''f32''
         then (case st_load idx name of Inl x \<Rightarrow> False | Inr a \<Rightarrow>
                 (case a of AU32 xs \<Rightarrow> False | AF16 xs \<Rightarrow> kind = ''f16'' | AF32 xs \<Rightarrow> kind = ''f32''))
         else (case load_three fo idx name base of
                 Inl x \<Rightarrow> False
               | Inr (w, s, b) \<Rightarrow> quant_fit kind (last (st_shape e)) (prod_list (butlast (st_shape e))) s b))"

lemma source_ok_quantised:
  assumes "source_ok fo idx (kind, name, base)" "map_of (st_t idx) name = Some e" "\<not> (kind = ''f16'' \<or> kind = ''f32'')"
  obtains w s b where "load_three fo idx name base = Inr (w, s, b)"
    "quant_fit kind (last (st_shape e)) (prod_list (butlast (st_shape e))) s b"
  using assms by (cases "load_three fo idx name base") (auto simp: source_ok_def)

lemma st_load_length:
  "st_load idx name = Inr a \<Longrightarrow> map_of (st_t idx) name = Some e \<Longrightarrow> arr_length a = prod_list (st_shape e)"
  by (auto simp: st_load_def res_bind_Inr_iff split: option.splits if_splits)

lemma prod_list_last: "xs \<noteq> [] \<Longrightarrow> prod_list (butlast xs) * last xs = prod_list (xs :: nat list)"
  by (metis append_butlast_last_id prod_list.Nil prod_list.append prod_list.Cons mult.right_neutral)

lemma rows_of_props: "length (rows_of R n xs) = R" "length xs = R * n \<Longrightarrow> r \<in> set (rows_of R n xs) \<Longrightarrow> length r = n"
  "r \<in> set (rows_of R n xs) \<Longrightarrow> set r \<subseteq> set xs"
proof -
  show "length (rows_of R n xs) = R" by (simp add: rows_of_def)
  show "r \<in> set (rows_of R n xs) \<Longrightarrow> set r \<subseteq> set xs"
    by (auto simp: rows_of_def dest: in_set_takeD in_set_dropD)
  assume l: "length xs = R * n" and r: "r \<in> set (rows_of R n xs)"
  then obtain i where i: "i < R" "r = take n (drop (i * n) xs)" by (auto simp: rows_of_def)
  then have "Suc i * n \<le> R * n" by (intro mult_right_mono) auto
  then show "length r = n" using i l by simp
qed

lemma reshape_rows_ok:
  "0 < R \<Longrightarrow> length xs = R * n \<Longrightarrow> reshape_rows R xs = Inr (rows_of R n xs)"
  by (simp add: reshape_rows_def)

lemma chunk_ok_rows:
  assumes "length w = rows * words" "length s = rows * (words * 8 div 64)" "length b = rows * (words * 8 div 64)"
    "words * 8 mod 64 = 0" "list_all half_range s" "list_all (\<lambda>x. \<not> is_nan x) b"
  shows "chunk_ok (words * 8) (map mlx_q_bytes (rows_of rows words w)) (rows_of rows (words * 8 div 64) s) (rows_of rows (words * 8 div 64) b)"
  unfolding chunk_ok_def
proof (intro conjI ballI)
  fix r assume "r \<in> set (map mlx_q_bytes (rows_of rows words w))"
  then obtain x where x: "x \<in> set (rows_of rows words w)" "r = mlx_q_bytes x" by auto
  then show "length r = words * 8" using rows_of_props(2) [OF assms(1)] by simp
  show "code_ok c" if "c \<in> set r" for c using that x mlx_codes_ok by simp
next
  fix r assume r: "r \<in> set (rows_of rows (words * 8 div 64) s)"
  then show "length r = words * 8 div 64" by (rule rows_of_props(2) [OF assms(2)])
  show "half_range x" if "x \<in> set r" for x using that r rows_of_props(3) assms(5) by (fastforce simp: list_all_iff)
next
  fix r assume r: "r \<in> set (rows_of rows (words * 8 div 64) b)"
  then show "length r = words * 8 div 64" by (rule rows_of_props(2) [OF assms(3)])
  show "\<not> is_nan x" if "x \<in> set r" for x using that r rows_of_props(3) assms(6) by (fastforce simp: list_all_iff)
qed (use assms in \<open>simp_all add: rows_of_props(1)\<close>)


lemma length_u32_bytes: "length (u32_bytes ws) = length ws * 4"
  by (induction ws) (simp_all add: u32_bytes_def)

lemma deq_checked_ok:
  assumes "K mod 64 = 0" "\<forall>r\<in>set q. length r = K" "length s = length q" "length b = length q"
    "\<forall>r\<in>set s. length r = K div 64" "\<forall>r\<in>set b. length r = K div 64"
  shows "\<exists>A. deq_checked fo K q s b = Inr A \<and> length (f32_bytes A) = length q * (K * 4)"
proof -
  have same: "res_map (spread_groups (K div 64)) x = Inr x" if "\<forall>r\<in>set x. length r = K div 64" for x
    using res_map_all_Inr [of x "spread_groups (K div 64)" "\<lambda>r. r"] that by (simp add: spread_groups_def)
  have bytes: "length (f32_bytes A) = length A * (K * 4)" if "\<forall>r\<in>set A. length r = K" for A
  proof -
    have four: "length (concat (map (\<lambda>x. le_bytes 4 (unat x)) ws)) = length ws * 4" for ws :: "f32 list"
      by (induction ws) simp_all
    have "length (concat A) = length A * K" using that by (intro length_concat_uniform) blast
    then show ?thesis by (simp add: f32_bytes_def four)
  qed
  have rows: "length (deq_mlx_side fo q s b) = length q" using assms(3,4) by (simp add: deq_mlx_side_def)
  have "\<forall>r\<in>set (deq_mlx_side fo q s b). length r = K"
    using assms(2) by (auto simp: deq_mlx_side_def dest: set_zip_leftD)
  from bytes [OF this] show ?thesis using assms(1) same [OF assms(5)] same [OF assms(6)] rows by (simp add: deq_checked_def)
qed

lemma f32i8_pieces_ok:
  assumes "0 < rows" "length w = rows * words" "words * 4 mod 64 = 0"
    "length s = rows * (words * 4 div 64)" "length b = rows * (words * 4 div 64)"
  defines "W \<equiv> rows_of rows words w" and "S \<equiv> rows_of rows (words * 4 div 64) s" and "B \<equiv> rows_of rows (words * 4 div 64) b"
  shows "\<exists>ps. res_map (\<lambda>ci. res_bind (deq_checked fo (words * 4) (map u32_bytes (take CHUNK (drop (ci * CHUNK) W)))
        (take CHUNK (drop (ci * CHUNK) S)) (take CHUNK (drop (ci * CHUNK) B))) (\<lambda>A. Inr (f32_bytes A))) (chunk_indices rows) = Inr ps \<and>
    length (concat ps) = rows * (words * 4) * 4"
proof -
  have one: "\<exists>x. res_bind (deq_checked fo (words * 4) (map u32_bytes (take CHUNK (drop (ci * CHUNK) W)))
        (take CHUNK (drop (ci * CHUNK) S)) (take CHUNK (drop (ci * CHUNK) B))) (\<lambda>A. Inr (f32_bytes A)) = Inr x \<and>
      length x = length (take CHUNK (drop (ci * CHUNK) W)) * (words * 4 * 4)" for ci
  proof -
    have "\<exists>A. deq_checked fo (words * 4) (map u32_bytes (take CHUNK (drop (ci * CHUNK) W)))
        (take CHUNK (drop (ci * CHUNK) S)) (take CHUNK (drop (ci * CHUNK) B)) = Inr A \<and>
        length (f32_bytes A) = length (map u32_bytes (take CHUNK (drop (ci * CHUNK) W))) * (words * 4 * 4)"
    proof (rule deq_checked_ok [OF assms(3)])
      show "\<forall>r\<in>set (map u32_bytes (take CHUNK (drop (ci * CHUNK) W))). length r = words * 4"
        unfolding W_def by (auto simp: length_u32_bytes dest!: in_slice rows_of_props(2) [OF assms(2)])
      show "\<forall>r\<in>set (take CHUNK (drop (ci * CHUNK) S)). length r = words * 4 div 64"
        unfolding S_def by (blast dest: in_slice rows_of_props(2) [OF assms(4)])
      show "\<forall>r\<in>set (take CHUNK (drop (ci * CHUNK) B)). length r = words * 4 div 64"
        unfolding B_def by (blast dest: in_slice rows_of_props(2) [OF assms(5)])
    qed (simp_all add: W_def S_def B_def rows_of_props(1))
    then show ?thesis by auto
  qed
  then obtain g where g: "\<And>ci. res_bind (deq_checked fo (words * 4) (map u32_bytes (take CHUNK (drop (ci * CHUNK) W)))
        (take CHUNK (drop (ci * CHUNK) S)) (take CHUNK (drop (ci * CHUNK) B))) (\<lambda>A. Inr (f32_bytes A)) = Inr (g ci)"
      "\<And>ci. length (g ci) = length (take CHUNK (drop (ci * CHUNK) W)) * (words * 4 * 4)" by metis
  have "length (concat (map g (chunk_indices rows))) = (\<Sum>ci\<leftarrow>chunk_indices rows. length (take CHUNK (drop (ci * CHUNK) W))) * (words * 4 * 4)"
    unfolding length_concat list.map_comp comp_def g(2) by (rule sum_list_mult_const)
  also have "(\<Sum>ci\<leftarrow>chunk_indices rows. length (take CHUNK (drop (ci * CHUNK) W))) = rows"
    using chunks_length [of W] by (simp add: W_def rows_of_props(1) del: length_take length_drop)
  finally show ?thesis using res_map_all_Inr [OF g(1)] by (intro exI [of _ "map g (chunk_indices rows)"]) simp
qed

text \<open>Pass B writes for each planned tensor exactly the number of bytes that pass A registered.\<close>

lemma tensor_pieces_ok:
  assumes "ieee_ok fo" "source_ok fo idx (kind, name, base)" "tensor_shape idx (kind, name, base) = Inr (tt, dims, n)"
  shows "\<exists>ds au'. tensor_pieces sha16 fo picked idx (kind, name, base) au = Inr (ds, au') \<and> length (concat ds) = n \<and> (green au \<longrightarrow> green au')"
proof -
  obtain e where e: "map_of (st_t idx) name = Some e" using assms(2) by (auto simp: source_ok_def split: option.splits)
  show ?thesis
  proof (cases "kind = ''f16'' \<or> kind = ''f32''")
    case True
    then obtain a where a: "st_load idx name = Inr a" using assms(2) e by (auto simp: source_ok_def split: sum.splits)
    have two: "length (concat (map (\<lambda>x. le_bytes 2 (unat x)) ws)) = length ws * 2" for ws :: "f16 list"
      by (induction ws) simp_all
    have four: "length (concat (map (\<lambda>x. le_bytes 4 (unat x)) ws)) = length ws * 4" for ws :: "f32 list"
      by (induction ws) simp_all
    show ?thesis using True a e assms(2,3) st_load_length [OF a e] two four
      by (cases a) (auto simp: source_ok_def tensor_pieces_def tensor_shape_def Let_def)
  next
    case False
    let ?words = "last (st_shape e)" and ?rows = "prod_list (butlast (st_shape e))"
    let ?K = "code_width kind ?words"
    obtain w s b where three: "load_three fo idx name base = Inr (w, s, b)" and fits: "quant_fit kind ?words ?rows s b"
      using assms(2) e False by (rule source_ok_quantised)
    have dims: "0 < ?rows" "?K mod 64 = 0" "length s = ?rows * (?K div 64)" "length b = ?rows * (?K div 64)"
      "kind = ''q41'' \<Longrightarrow> list_all half_range s" "kind = ''q41'' \<Longrightarrow> list_all (\<lambda>x. \<not> is_nan x) b"
      using fits by (simp_all add: quant_fit_def)
    obtain sa ba where src: "st_load idx name = Inr (AU32 w)" "st_load idx (base @ ''.scales'') = Inr sa" "as_f32 fo sa = Inr s"
      "st_load idx (base @ ''.biases'') = Inr ba" "as_f32 fo ba = Inr b" using three by (rule load_three_Inr)
    have shape: "st_shape e \<noteq> []" "n = (if kind = ''q41'' then ?rows * (?words * 8 div 32) * 20 else ?rows * (?words * 4) * 4)"
    proof -
      note ts = assms(3) [unfolded tensor_shape_def prod.case e option.case Let_def if_not_P [OF False]]
      show ne: "st_shape e \<noteq> []" using ts by (cases "st_shape e = []") (simp_all add: py_lastelem_def)
      obtain se where se: "map_of (st_t idx) (base @ ''.scales'') = Some se"
        using ts ne by (cases "map_of (st_t idx) (base @ ''.scales'')") (simp_all add: py_lastelem_def)
      show "n = (if kind = ''q41'' then ?rows * (?words * 8 div 32) * 20 else ?rows * (?words * 4) * 4)"
        using ts ne se by (cases "st_shape se = []"; cases "kind = ''q41''") (simp_all add: py_lastelem_def split: if_splits)
    qed
    have w: "length w = ?rows * ?words" using st_load_length [OF src(1) e] prod_list_last [OF shape(1)] by simp
    have reshape: "reshape_rows ?rows s = Inr (rows_of ?rows (?K div 64) s)" "reshape_rows ?rows b = Inr (rows_of ?rows (?K div 64) b)"
      using dims by (simp_all add: reshape_rows_ok)
    show ?thesis
    proof (cases "kind = ''q41''")
      case q: True
      have ok: "chunk_ok (?words * 8) (map mlx_q_bytes (rows_of ?rows ?words w)) (rows_of ?rows (?words * 8 div 64) s) (rows_of ?rows (?words * 8 div 64) b)"
        using dims w q by (intro chunk_ok_rows) (simp_all add: code_width_def)
      have total: "(\<Sum>i\<leftarrow>chunk_indices ?rows. length (take CHUNK (drop (i * CHUNK) (rows_of ?rows ?words w)))) = ?rows"
        using chunks_length [of "rows_of ?rows ?words w"] by (simp add: rows_of_props(1) del: length_take length_drop)
      obtain ps au' where ps: "q41_chunks sha16 fo picked name (?words * 8) (rows_of ?rows ?words w) (rows_of ?rows (?words * 8 div 64) s)
          (rows_of ?rows (?words * 8 div 64) b) (chunk_indices ?rows) au = Inr (ps, au')"
        "length (concat ps) = ?rows * (?words * 8 div 32 * 20)" "green au \<longrightarrow> green au'"
        using q41_chunks_ok [OF assms(1) ok, of sha16 picked name "chunk_indices ?rows" au] unfolding total by blast
      have "tensor_pieces sha16 fo picked idx (kind, name, base) au = Inr (ps, au')"
        using False q e src reshape ps(1) by (simp add: tensor_pieces_def Let_def code_width_def)
      then show ?thesis using ps(2,3) shape(2) q by (intro exI [of _ ps] exI [of _ au']) (simp add: mult.assoc)
    next
      case i8: False
      obtain ps where ps: "res_map (\<lambda>ci. res_bind (deq_checked fo (?words * 4) (map u32_bytes (take CHUNK (drop (ci * CHUNK) (rows_of ?rows ?words w))))
          (take CHUNK (drop (ci * CHUNK) (rows_of ?rows (?words * 4 div 64) s))) (take CHUNK (drop (ci * CHUNK) (rows_of ?rows (?words * 4 div 64) b))))
          (\<lambda>A. Inr (f32_bytes A))) (chunk_indices ?rows) = Inr ps" "length (concat ps) = ?rows * (?words * 4) * 4"
        using f32i8_pieces_ok [of ?rows w ?words s b fo] dims(1-4) i8 w by (auto simp: code_width_def)
      have "tensor_pieces sha16 fo picked idx (kind, name, base) au = Inr (ps, au)"
        using False i8 e src reshape ps(1) by (simp add: tensor_pieces_def Let_def code_width_def)
      then show ?thesis using ps(2) shape(2) i8 by auto
    qed
  qed
qed


section \<open>The artifact\<close>

lemma all_pieces_ok:
  assumes "ieee_ok fo" "\<forall>p\<in>set plan. source_ok fo idx p" "plan_regs idx plan = Inr regs"
  shows "\<exists>data au'. all_pieces sha16 fo picked idx plan au = Inr (data, au') \<and> sizes_fit regs data \<and>
    (green au \<longrightarrow> green au') \<and> map fst regs = map (\<lambda>p. fst (snd p)) plan \<and>
    (\<forall>i<length plan. \<exists>a b. tensor_pieces sha16 fo picked idx (plan ! i) a = Inr (data ! i, b))"
  using assms(2,3)
proof (induction plan arbitrary: regs au)
  case Nil
  then show ?case by (simp add: plan_regs_def sizes_fit_def)
next
  case (Cons p plan)
  obtain kind name base where p: "p = (kind, name, base)" by (cases p)
  obtain tt dims n rs where sh: "tensor_shape idx p = Inr (tt, dims, n)" "plan_regs idx plan = Inr rs" "regs = (name, tt, dims, n) # rs"
    using Cons.prems(2) by (cases "tensor_shape idx p") (auto simp: plan_regs_def p split: sum.splits)
  have "source_ok fo idx (kind, name, base)" using Cons.prems(1) p by simp
  then obtain d au1 where d: "tensor_pieces sha16 fo picked idx p au = Inr (d, au1)" "length (concat d) = n" "green au \<longrightarrow> green au1"
    using tensor_pieces_ok [OF assms(1), of idx kind name base tt dims n sha16 picked au] sh(1) p by blast
  obtain data au2 where rest: "all_pieces sha16 fo picked idx plan au1 = Inr (data, au2)" "sizes_fit rs data" "green au1 \<longrightarrow> green au2"
    "map fst rs = map (\<lambda>p. fst (snd p)) plan" "\<forall>i<length plan. \<exists>a b. tensor_pieces sha16 fo picked idx (plan ! i) a = Inr (data ! i, b)"
    using Cons.IH [OF _ sh(2), of au1] Cons.prems(1) by auto
  have "\<exists>a b. tensor_pieces sha16 fo picked idx ((p # plan) ! i) a = Inr ((d # data) ! i, b)" if "i < length (p # plan)" for i
    using that d(1) rest(5) by (cases i) auto
  then show ?case using d rest sh(3) p by (auto simp: sizes_fit_def)
qed

lemma r1_header_ok:
  assumes "str_fits title"
  shows "\<exists>kvs. length kvs = 3 \<and> r1_header title = Inr (writer_new\<lparr>w_kvs := kvs\<rparr>)"
  using assms by (simp add: r1_header_def gguf_kv_s_def gguf_kv_def gguf_str_ok str_fits_short pack_le_def writer_new_def KV_STR_def)

text \<open>
  C11: the repacking run puts every tensor where its record says. For a checkpoint whose planned tensors load and fit
  the container's fields, with scales in half range, the run succeeds with a GREEN verdict (no parity error in any checked
  chunk); the registered tensors are the planned ones in order; each starts at an aligned offset of the
  aligned data section; and the bytes there, of the registered size, are exactly those pass B made of the tensor.
\<close>

theorem repack_run_places_tensors:
  assumes "ieee_ok fo" "classify idx = Inr (plan, skipped)" "\<forall>p\<in>set plan. source_ok fo idx p" "plan_regs idx plan = Inr regs"
    "\<forall>r\<in>set (layout_from 0 regs). rec_fits r" "length regs < 256 ^ 8" "str_fits title"
  shows "\<exists>file ds au. repack_run sha16 fo picked title idx = Inr (regs, file, ds, au, True) \<and> ds mod 32 = 0 \<and>
    map fst regs = map (\<lambda>p. fst (snd p)) plan \<and>
    (\<forall>i<length regs. \<exists>off pieces a b. layout_from 0 regs ! i = (fst (regs ! i), fst (snd (regs ! i)), fst (snd (snd (regs ! i))), off, snd (snd (snd (regs ! i)))) \<and>
       off mod 32 = 0 \<and> tensor_pieces sha16 fo picked idx (plan ! i) a = Inr (pieces, b) \<and>
       take (snd (snd (snd (regs ! i)))) (drop (ds + off) file) = concat pieces)"
proof -
  obtain kvs where kvs: "length kvs = 3" "r1_header title = Inr (writer_new\<lparr>w_kvs := kvs\<rparr>)" using r1_header_ok [OF assms(7)] by blast
  obtain data au where data: "all_pieces sha16 fo picked idx plan no_audit = Inr (data, au)" "sizes_fit regs data"
    "green no_audit \<longrightarrow> green au" "map fst regs = map (\<lambda>p. fst (snd p)) plan"
    "\<forall>i<length plan. \<exists>a b. tensor_pieces sha16 fo picked idx (plan ! i) a = Inr (data ! i, b)"
    using all_pieces_ok [OF assms(1,3,4)] by blast
  have "green au" using data(3) by (simp add: green_def no_audit_def)
  obtain w w' ds where place: "register_all regs (writer_new\<lparr>w_kvs := kvs\<rparr>) = Inr w" "gguf_finalize w = Inr (w', ds)" "ds mod 32 = 0"
    "stream_all data w' = Inr (w'\<lparr>w_file := w_file w' @ concat (map padded data)\<rparr>)"
    "\<forall>i<length regs. \<exists>off. layout_from 0 regs ! i = (fst (regs ! i), fst (snd (regs ! i)), fst (snd (snd (regs ! i))), off, snd (snd (snd (regs ! i)))) \<and>
       off mod 32 = 0 \<and> take (snd (snd (snd (regs ! i)))) (drop (ds + off) (w_file w' @ concat (map padded data))) = concat (data ! i)"
    using streamed_ok [OF assms(5,6) _ data(2), of kvs] kvs(1) by auto
  have run: "repack_run sha16 fo picked title idx = Inr (regs, w_file w' @ concat (map padded data), ds, au, True)"
    using \<open>green au\<close> by (simp add: repack_run_def assms(2,4) kvs(2) place(1,2,4) data(1) green_def)
  have "length plan = length regs" using arg_cong [OF data(4), of length] by simp
  then show ?thesis using run place(3,5) data(4,5) by metis
qed


text \<open>One quantised matrix of 64 codes and one norm vector.\<close>

definition demo_idx :: st_index where
  "demo_idx = \<lparr>st_t =
     [(''w.weight'', \<lparr>st_path = ''f'', st_off = 0, st_size = 32, st_dtype = ''U32'', st_shape = [1, 8]\<rparr>),
      (''w.scales'', \<lparr>st_path = ''f'', st_off = 32, st_size = 2, st_dtype = ''BF16'', st_shape = [1, 1]\<rparr>),
      (''w.biases'', \<lparr>st_path = ''f'', st_off = 34, st_size = 2, st_dtype = ''BF16'', st_shape = [1, 1]\<rparr>),
      (''norm.weight'', \<lparr>st_path = ''f'', st_off = 36, st_size = 4, st_dtype = ''F32'', st_shape = [1]\<rparr>),
      (''mtp.x'', \<lparr>st_path = ''f'', st_off = 36, st_size = 4, st_dtype = ''F32'', st_shape = [1]\<rparr>)],
     st_files = [(''f'', map word_of_nat [0..<32] @ [0x01, 0x3C, 0x80, 0x3F, 1, 2, 3, 4])]\<rparr>"

definition demo_plan :: "(string \<times> string \<times> string) list" where
  "demo_plan = [(''f32'', ''norm.weight'', ''norm''), (''q41'', ''w.weight'', ''w'')]"

lemma demo_classified: "classify demo_idx = Inr (demo_plan, [''mtp.x''])"
  by code_simp

lemma demo_loads: "st_load demo_idx ''w.scales'' = Inr (AF32 [0x3C010000])" "st_load demo_idx ''w.biases'' = Inr (AF32 [0x3F800000])"
  "(case st_load demo_idx ''w.weight'' of Inr (AU32 w) \<Rightarrow> length w = 8 | _ \<Rightarrow> False)"
  by code_simp+

lemma demo_regs: "plan_regs demo_idx demo_plan = Inr [(''norm.weight'', 0, [1], 4), (''w.weight'', 3, [64, 1], 40)]"
  by code_simp

lemma demo_norm: "st_load demo_idx ''norm.weight'' = Inr (AF32 [0x04030201])"
  by code_simp

lemma demo_three: "\<exists>w. length w = 8 \<and> st_load demo_idx ''w.weight'' = Inr (AU32 w) \<and>
  load_three demo_floats demo_idx ''w.weight'' ''w'' = Inr (w, [0x3C010000], [0x3F800000])"
proof -
  obtain w where w: "st_load demo_idx ''w.weight'' = Inr (AU32 w)" "length w = 8"
    using demo_loads(3) by (auto split: sum.splits arr.splits)
  then show ?thesis using demo_loads(1,2) by (simp add: load_three_def as_f32_def)
qed

lemma demo_shapes: "map_option st_shape (map_of (st_t demo_idx) ''w.weight'') = Some [1, 8]"
  "map_option st_shape (map_of (st_t demo_idx) ''norm.weight'') = Some [1]"
  by (simp_all add: demo_idx_def)

lemma demo_sources: "list_all (source_ok demo_floats demo_idx) demo_plan"
proof -
  obtain e e' where e: "map_of (st_t demo_idx) ''w.weight'' = Some e" "st_shape e = [1, 8]"
    "map_of (st_t demo_idx) ''norm.weight'' = Some e'" using demo_shapes by auto
  have "quant_fit ''q41'' 8 1 [0x3C010000] [0x3F800000]"
    by (simp add: quant_fit_def code_width_def half_range_def is_nan_def)
  then have "source_ok demo_floats demo_idx (''q41'', ''w.weight'', ''w'')" using e demo_three by (auto simp: source_ok_def)
  moreover have "source_ok demo_floats demo_idx (''f32'', ''norm.weight'', ''norm'')" using e demo_norm by (simp add: source_ok_def)
  ultimately show ?thesis by (simp add: demo_plan_def)
qed

lemma demo_norm_bytes: "le_bytes 4 67305985 = [1, 2, 3, 4]"
proof -
  have "le_bytes (Suc (Suc (Suc (Suc 0)))) 67305985 = [1, 2, 3, 4]" by simp
  moreover have "Suc (Suc (Suc (Suc 0))) = 4" by simp
  ultimately show ?thesis by (simp only:)
qed

theorem repack_run_places_tensors_witness:
  "\<exists>file ds off au. repack_run (\<lambda>b. []) demo_floats (\<lambda>n c. True) ''edge0'' demo_idx
       = Inr ([(''norm.weight'', 0, [1], 4), (''w.weight'', 3, [64, 1], 40)], file, ds, au, True) \<and>
     take 4 (drop (ds + off) file) = [1, 2, 3, 4]"
proof -
  let ?regs = "[(''norm.weight'', 0, [1], 4), (''w.weight'', 3, [64, 1], 40)] :: (string \<times> nat \<times> nat list \<times> nat) list"
  have fits: "\<forall>r\<in>set (layout_from 0 ?regs). rec_fits r" "length ?regs < 256 ^ 8" "str_fits ''edge0''"
    by (simp_all add: rec_fits_def str_fits_short pad_len_eq)
  have src: "\<forall>p\<in>set demo_plan. source_ok demo_floats demo_idx p" using demo_sources by (simp add: list_all_iff)
  obtain bytes ds au where run: "repack_run (\<lambda>b. []) demo_floats (\<lambda>n c. True) ''edge0'' demo_idx = Inr (?regs, bytes, ds, au, True)"
    "\<forall>i<length ?regs. \<exists>off pieces a b. tensor_pieces (\<lambda>b. []) demo_floats (\<lambda>n c. True) demo_idx (demo_plan ! i) a = Inr (pieces, b) \<and>
       take (snd (snd (snd (?regs ! i)))) (drop (ds + off) bytes) = concat pieces"
    using repack_run_places_tensors [OF demo_ieee demo_classified src demo_regs fits, of "\<lambda>b. []" "\<lambda>n c. True"] by blast
  obtain off pieces a b where p: "tensor_pieces (\<lambda>b. []) demo_floats (\<lambda>n c. True) demo_idx (demo_plan ! 0) a = Inr (pieces, b)"
    "take 4 (drop (ds + off) bytes) = concat pieces" using run(2) [rule_format, of 0] by auto
  have "pieces = [[1, 2, 3, 4]]" using p(1) by (simp add: tensor_pieces_def demo_plan_def demo_norm demo_norm_bytes del: le_bytes.simps)
  then show ?thesis using run(1) p(2) by auto
qed

end
