(* ===== verification/Repack_R3.thy ===== *)
theory Repack_R3
  imports Repack_Gguf
begin

text \<open>
  \<open>windows/tools/repack_r3.py\<close>: the table that renames the checkpoint's tensors for the runtime artifact
  (\<open>build_name_table\<close>), the interleaving of the two gate matrices (\<open>ssm_ba_perm\<close>, \<open>load_ba\<close>), the shape
  declarations (\<open>r3_spec\<close>), the bytes written for each kind, and the token table.
\<close>

section \<open>The name table\<close>

datatype src = One string | Two string string

definition full_attn_layer :: "nat \<Rightarrow> nat \<Rightarrow> bool" where
  "full_attn_layer i interval \<longleftrightarrow> (i + 1) mod interval = 0"

definition layer_prefix :: "nat \<Rightarrow> string" where
  "layer_prefix i = ''language_model.model.layers.'' @ show_nat i @ ''.''"

definition blk :: "nat \<Rightarrow> string \<Rightarrow> string" where
  "blk i s = ''blk.'' @ show_nat i @ ''.'' @ s"

definition attn_rows :: "nat \<Rightarrow> (string \<times> string \<times> src) list" where
  "attn_rows i = (let b = layer_prefix i in
     [(blk i ''attn_q.weight'', ''q41'', One (b @ ''self_attn.q_proj.weight'')),
      (blk i ''attn_k.weight'', ''q41'', One (b @ ''self_attn.k_proj.weight'')),
      (blk i ''attn_v.weight'', ''q41'', One (b @ ''self_attn.v_proj.weight'')),
      (blk i ''attn_q_norm.weight'', ''f32raw'', One (b @ ''self_attn.q_norm.weight'')),
      (blk i ''attn_k_norm.weight'', ''f32raw'', One (b @ ''self_attn.k_norm.weight'')),
      (blk i ''attn_output.weight'', ''q41'', One (b @ ''self_attn.o_proj.weight''))])"

definition linear_rows :: "nat \<Rightarrow> (string \<times> string \<times> src) list" where
  "linear_rows i = (let la = layer_prefix i @ ''linear_attn.'' in
     [(blk i ''attn_qkv.weight'', ''q41'', One (la @ ''in_proj_qkv.weight'')),
      (blk i ''attn_gate.weight'', ''q41'', One (la @ ''in_proj_z.weight'')),
      (blk i ''ssm_ba.weight'', ''ba'', Two (la @ ''in_proj_b.weight'') (la @ ''in_proj_a.weight'')),
      (blk i ''ssm_conv1d.weight'', ''conv'', One (la @ ''conv1d.weight'')),
      (blk i ''ssm_dt.bias'', ''f32raw'', One (la @ ''dt_bias'')),
      (blk i ''ssm_a'', ''sa'', One (la @ ''A_log'')),
      (blk i ''ssm_norm.weight'', ''f32raw'', One (la @ ''norm.weight'')),
      (blk i ''ssm_out.weight'', ''q41'', One (la @ ''out_proj.weight''))])"

definition mlp_rows :: "nat \<Rightarrow> (string \<times> string \<times> src) list" where
  "mlp_rows i = (let m = layer_prefix i @ ''mlp.'' in
     [(blk i ''ffn_gate_inp.weight'', ''f32i8'', One (m @ ''gate.weight'')),
      (blk i ''ffn_gate_exps.weight'', ''q41'', One (m @ ''switch_mlp.gate_proj.weight'')),
      (blk i ''ffn_up_exps.weight'', ''q41'', One (m @ ''switch_mlp.up_proj.weight'')),
      (blk i ''ffn_down_exps.weight'', ''q41'', One (m @ ''switch_mlp.down_proj.weight'')),
      (blk i ''ffn_gate_shexp.weight'', ''q41'', One (m @ ''shared_expert.gate_proj.weight'')),
      (blk i ''ffn_up_shexp.weight'', ''q41'', One (m @ ''shared_expert.up_proj.weight'')),
      (blk i ''ffn_down_shexp.weight'', ''q41'', One (m @ ''shared_expert.down_proj.weight'')),
      (blk i ''ffn_gate_inp_shexp.weight'', ''f32i8_1d'', One (m @ ''shared_expert_gate.weight''))])"

definition layer_rows :: "nat \<Rightarrow> nat \<Rightarrow> (string \<times> string \<times> src) list" where
  "layer_rows interval i =
     [(blk i ''attn_norm.weight'', ''f32raw'', One (layer_prefix i @ ''input_layernorm.weight'')),
      (blk i ''post_attention_norm.weight'', ''f32raw'', One (layer_prefix i @ ''post_attention_layernorm.weight''))] @
     (if full_attn_layer i interval then attn_rows i else linear_rows i) @ mlp_rows i"

definition build_name_table :: "nat \<Rightarrow> nat \<Rightarrow> (string \<times> string \<times> src) list" where
  "build_name_table nl interval =
     [(''token_embd.weight'', ''q41'', One ''language_model.model.embed_tokens.weight''),
      (''output.weight'', ''q41'', One ''language_model.lm_head.weight''),
      (''output_norm.weight'', ''f32raw'', One ''language_model.model.norm.weight'')] @
     concat (map (layer_rows interval) [0..<nl])"

section \<open>The interleaved gate matrix\<close>

text \<open>The order of the rows: per group two rows of the first (\<open>b\<close>) and two of the second (\<open>a\<close>) matrix.\<close>

datatype ba = Tb | Ta

definition ssm_ba_perm :: "nat \<Rightarrow> (ba \<times> nat) list" where
  "ssm_ba_perm n_k = concat (map (\<lambda>g. [(Tb, 2 * g), (Tb, 2 * g + 1), (Ta, 2 * g), (Ta, 2 * g + 1)]) [0..<n_k])"

text \<open>
  \<open>load_ba\<close>: both matrices as code, scale and bias rows; the result arrays are allocated with \<open>2 * n_v\<close> rows and
  filled row by row in the order above. \<open>junk\<close> is the content of a row that is never written.
\<close>

type_synonym qsb_row = "u8 list \<times> f32 list \<times> f32 list"

definition ba_source :: "float_ops \<Rightarrow> st_index \<Rightarrow> nat \<Rightarrow> string \<Rightarrow> qsb_row list res" where
  "ba_source fo idx n_v key =
     (let base = take (length key - 7) key
      in res_bind (res_bind (st_load idx key) as_u32) (\<lambda>w.
         res_bind (res_bind (st_load idx (base @ ''.scales'')) (as_f32 fo)) (\<lambda>s.
         res_bind (res_bind (st_load idx (base @ ''.biases'')) (as_f32 fo)) (\<lambda>b.
         res_bind (reshape_rows n_v w) (\<lambda>W. res_bind (reshape_rows n_v s) (\<lambda>S. res_bind (reshape_rows n_v b) (\<lambda>B.
           Inr (map2 (\<lambda>q sb. (map ucast (mlx_q_bytes q), sb)) W (zip S B)))))))))"

text \<open>Assigning to a row of \<open>n\<close> entries: numpy broadcasts a single entry and refuses any other length.\<close>

definition into_row :: "nat \<Rightarrow> 'a list \<Rightarrow> 'a list res" where
  "into_row n xs = (if length xs = n then Inr xs else case xs of [x] \<Rightarrow> Inr (replicate n x) | _ \<Rightarrow> Inl ValueError)"

fun fill_rows :: "nat \<Rightarrow> nat \<Rightarrow> qsb_row list \<Rightarrow> qsb_row list \<Rightarrow> nat \<Rightarrow> (ba \<times> nat) list \<Rightarrow> qsb_row list \<Rightarrow> qsb_row list res" where
  "fill_rows K G rb ra r [] out = Inr out"
| "fill_rows K G rb ra r ((tag, row) # ps) out =
     (let rows = (case tag of Tb \<Rightarrow> rb | Ta \<Rightarrow> ra)
      in if \<not> (r < length out \<and> row < length rows) then Inl IndexError
         else case rows ! row of (q, s, b) \<Rightarrow>
           res_bind (into_row K q) (\<lambda>q. res_bind (into_row G s) (\<lambda>s. res_bind (into_row G b) (\<lambda>b.
             fill_rows K G rb ra (Suc r) ps (out[r := (q, s, b)])))))"

definition load_ba :: "float_ops \<Rightarrow> (nat \<Rightarrow> qsb_row) \<Rightarrow> st_index \<Rightarrow> string \<Rightarrow> string \<Rightarrow> nat \<Rightarrow> nat \<Rightarrow> (qsb_row list \<times> nat) res" where
  "load_ba fo junk idx kb ka n_k n_v =
     res_bind (ba_source fo idx n_v kb) (\<lambda>rb. res_bind (ba_source fo idx n_v ka) (\<lambda>ra.
       let K = (case rb of [] \<Rightarrow> 0 | (q, s, b) # _ \<Rightarrow> length q)
       in res_bind (fill_rows K (K div 64) rb ra 0 (ssm_ba_perm n_k) (map junk [0..<2 * n_v])) (\<lambda>out. Inr (out, K))))"

section \<open>The declared shapes\<close>

definition entry_of :: "st_index \<Rightarrow> string \<Rightarrow> st_entry res" where
  "entry_of idx n = (case map_of (st_t idx) n of None \<Rightarrow> Inl KeyError | Some e \<Rightarrow> Inr e)"

definition nth_dim :: "nat list \<Rightarrow> nat \<Rightarrow> nat res" where
  "nth_dim shp i = (if i < length shp then Inr (shp ! i) else Inl IndexError)"

definition r3_spec :: "st_index \<Rightarrow> nat \<Rightarrow> string \<Rightarrow> src \<Rightarrow> (nat \<times> nat list \<times> nat) res" where
  "r3_spec idx n_v kind src =
     (case src of
        Two kb ka \<Rightarrow>
          res_bind (entry_of idx kb) (\<lambda>e. res_bind (py_lastelem (st_shape e)) (\<lambda>words.
            Inr (T_Q4_1, [words * 8, 2 * n_v], 2 * n_v * (words * 8 div 32) * 20)))
      | One n \<Rightarrow>
          res_bind (entry_of idx n) (\<lambda>e.
            let shp = st_shape e
            in if kind = ''q41'' then
                 res_bind (py_lastelem shp) (\<lambda>words.
                   Inr (T_Q4_1, words * 8 # rev (butlast shp), prod_list (butlast shp) * (words * 8 div 32) * 20))
               else if kind = ''f32i8'' then
                 res_bind (py_lastelem shp) (\<lambda>words.
                   Inr (T_F32, words * 4 # rev (butlast shp), prod_list (butlast shp) * (words * 4) * 4))
               else if kind = ''f32i8_1d'' then
                 res_bind (py_lastelem shp) (\<lambda>words. Inr (T_F32, [words * 4], words * 4 * 4))
               else if kind = ''conv'' then
                 res_bind (nth_dim shp 1) (\<lambda>k. res_bind (nth_dim shp 0) (\<lambda>c. Inr (T_F32, [k, c], prod_list shp * 4)))
               else if kind = ''sa'' then
                 res_bind (nth_dim shp 0) (\<lambda>c. Inr (T_F32, [c], c * 4))
               else if 1 < length shp then Inr (T_F32, rev shp, prod_list shp * 4)
               else res_bind (nth_dim shp 0) (\<lambda>c. Inr (T_F32, [c], prod_list shp * 4))))"

section \<open>The bytes of each kind\<close>

text \<open>\<open>neg_exp\<close> is \<open>-np.exp\<close> on float32; a float16 source widens exactly.\<close>

definition word_rows :: "nat list \<Rightarrow> nat" where
  "word_rows shp = (if 1 < length shp then prod_list (butlast shp) else 1)"

definition f32_raw :: "f32 list \<Rightarrow> u8 list" where
  "f32_raw xs = concat (map (\<lambda>x. le_bytes 4 (unat x)) xs)"

definition unpack3 :: "qsb_row list \<Rightarrow> u8 list list \<times> f32 list list \<times> f32 list list" where
  "unpack3 rows = (map fst rows, map (\<lambda>r. fst (snd r)) rows, map (\<lambda>r. snd (snd r)) rows)"

definition quant_bytes ::
  "float_ops \<Rightarrow> string \<Rightarrow> nat \<Rightarrow> gate_counts \<Rightarrow> 32 word list \<times> f32 list \<times> f32 list \<Rightarrow> (u8 list \<times> gate_counts) res" where
  "quant_bytes fo kind rows gc = (\<lambda>(w, s, b).
     res_bind (reshape_rows rows w) (\<lambda>W. res_bind (reshape_rows rows s) (\<lambda>S. res_bind (reshape_rows rows b) (\<lambda>B.
       let words = length w div rows
       in if kind = ''q41'' then
            res_bind (pack_q41_rows fo gc (words * 8) (map mlx_q_bytes W) S B) (\<lambda>(blocks, exm, gc'). Inr (q41_bytes blocks, gc'))
          else res_bind (deq_checked fo (words * 4) (map u32_bytes W) S B) (\<lambda>A. Inr (f32_bytes A, gc))))))"

definition plain_bytes :: "(f32 \<Rightarrow> f32) \<Rightarrow> string \<Rightarrow> nat list \<Rightarrow> f32 list \<Rightarrow> u8 list res" where
  "plain_bytes neg_exp kind shp xs =
     (if kind = ''sa'' then Inr (f32_raw (map neg_exp xs))
      else if kind = ''conv'' then
        (if shp = [] then Inl IndexError
         else if last shp \<noteq> 1 then Inl AssertionError
         else if length shp < 2 then Inl IndexError
         else if prod_list shp \<noteq> shp ! 0 * shp ! 1 then Inl ValueError
         else Inr (f32_raw xs))
      else Inr (f32_raw xs))"

definition r3_pieces ::
  "float_ops \<Rightarrow> (f32 \<Rightarrow> f32) \<Rightarrow> (nat \<Rightarrow> qsb_row) \<Rightarrow> st_index \<Rightarrow> nat \<Rightarrow> nat \<Rightarrow> string \<Rightarrow> src \<Rightarrow> gate_counts \<Rightarrow> (u8 list \<times> gate_counts) res" where
  "r3_pieces fo neg_exp junk idx n_k n_v kind src gc =
     (case src of
        Two kb ka \<Rightarrow>
          res_bind (load_ba fo junk idx kb ka n_k n_v) (\<lambda>(rows, K).
          case unpack3 rows of (q, S, B) \<Rightarrow>
            res_bind (pack_q41_rows fo gc K q S B) (\<lambda>(blocks, exm, gc'). Inr (q41_bytes blocks, gc')))
      | One n \<Rightarrow>
          if kind = ''q41'' \<or> kind = ''f32i8'' \<or> kind = ''f32i8_1d'' then
            res_bind (entry_of idx n) (\<lambda>e. res_bind (load_three fo idx n (take (length n - 7) n)) (\<lambda>wsb.
              quant_bytes fo kind (word_rows (st_shape e)) gc wsb))
          else
            res_bind (entry_of idx n) (\<lambda>e. res_bind (res_bind (st_load idx n) (as_f32 fo)) (\<lambda>xs.
              res_bind (plain_bytes neg_exp kind (st_shape e) xs) (\<lambda>b. Inr (b, gc)))))"

text \<open>The comparison \<open>main\<close> records as the reversibility gate: the forward order is applied to the sources again.\<close>

definition ba_gate :: "nat \<Rightarrow> u8 list list \<Rightarrow> u8 list list \<Rightarrow> u8 list list \<Rightarrow> bool" where
  "ba_gate n_k qb qa q \<longleftrightarrow> map (\<lambda>(tag, row). (case tag of Tb \<Rightarrow> qb | Ta \<Rightarrow> qa) ! row) (ssm_ba_perm n_k) = q"

text \<open>
  The sentinel of a quantised tensor: its first row is dequantised on both sides and the digests are compared; a
  difference is an error unless the row has an exempted block.
\<close>

definition sentinel ::
  "(u8 list \<Rightarrow> string) \<Rightarrow> float_ops \<Rightarrow> 32 word list list \<Rightarrow> f32 list list \<Rightarrow> f32 list list \<Rightarrow> q41 list list \<Rightarrow> (nat \<times> nat) set \<Rightarrow> string option" where
  "sentinel sha16 fo W S B blocks exm =
     (if W = [] then None
      else if sha16 (f32_bytes (deq_mlx_side fo (map mlx_q_bytes (take 1 W)) (take 1 S) (take 1 B)))
              = sha16 (f32_bytes (deq_gguf_side fo (take 1 blocks))) then Some ''OK''
      else if 0 \<in> fst ` exm then Some ''EXEMPT'' else Some ''FAIL'')"

lemma sentinel_passes:
  assumes "ieee_ok fo" "chunk_ok K (map mlx_q_bytes W) S B" "pack_q41_rows fo gc K (map mlx_q_bytes W) S B = Inr (blocks, exm, gc')"
  shows "sentinel sha16 fo W S B blocks exm \<noteq> Some ''FAIL''"
proof (cases "W = [] \<or> 0 \<in> fst ` exm")
  case False
  let ?q = "map mlx_q_bytes W"
  let ?A = "deq_mlx_side fo ?q S B" and ?B = "deq_gguf_side fo blocks"
  have p: "blocks = map (\<lambda>r. map (pack_block fo ?q S B r) [0..<K div 32]) [0..<length ?q]" "exm = exempt_of fo K ?q S B"
    using pack_rows_ok [OF assms(2), of fo gc] assms(3) by auto
  have r: "0 < length ?q" using False by simp
  have lenA: "length ?A = length ?q" "length (?A ! 0) = K" using assms(2) r by (auto simp: deq_mlx_side_def chunk_ok_def)
  have lenB: "length ?B = length ?q" "length (?B ! 0) = K" unfolding p(1) using deq_gguf_lengths [OF assms(2) r] by blast+
  have no: "(0, n) \<notin> exempt_of fo K ?q S B" for n using False unfolding p(2) by force
  have "?A ! 0 = ?B ! 0"
  proof (rule nth_equalityI)
    fix c assume "c < length (?A ! 0)"
    then have "c < K" by (simp only: lenA)
    then show "?A ! 0 ! c = ?B ! 0 ! c" unfolding p(1) using parity_at [OF assms(1,2) _ r _ no] by simp
  qed (simp only: lenA lenB)
  moreover have "take 1 ?A = [?A ! 0]" "take 1 ?B = [?B ! 0]"
    using r lenA(1) lenB(1) by (simp_all add: take_Suc hd_conv_nth flip: length_greater_0_conv)
  moreover have "deq_mlx_side fo (map mlx_q_bytes (take 1 W)) (take 1 S) (take 1 B) = take 1 ?A"
    by (simp only: deq_mlx_side_def take_map take_zip)
  moreover have "deq_gguf_side fo (take 1 blocks) = take 1 ?B" by (simp only: deq_gguf_side_def take_map)
  ultimately show ?thesis unfolding sentinel_def by simp
qed (auto simp: sentinel_def)

section \<open>The token table\<close>

definition hex_digit :: "nat \<Rightarrow> char" where
  "hex_digit d = (if d < 10 then char_of (48 + d) else char_of (55 + d))"

definition placeholder :: "nat \<Rightarrow> string" where
  "placeholder i = (let b = 255 - i mod 256 in ''<0x'' @ [hex_digit (b div 16), hex_digit (b mod 16)] @ ''>'')"

fun put_tokens :: "(nat \<times> string) list \<Rightarrow> string option list \<Rightarrow> string option list res" where
  "put_tokens [] toks = Inr toks"
| "put_tokens ((i, s) # ps) toks = (if i < length toks then put_tokens ps (toks[i := Some s]) else Inl IndexError)"

text \<open>The vocabulary, then the added tokens, then placeholders; and the type codes, 3 for an added token.\<close>

definition token_table :: "nat \<Rightarrow> (nat \<times> string) list \<Rightarrow> (nat \<times> string) list \<Rightarrow> (string list \<times> nat list) res" where
  "token_table vocab_size vocab added =
     res_bind (put_tokens vocab (replicate vocab_size None)) (\<lambda>toks.
     res_bind (put_tokens added toks) (\<lambda>toks.
       Inr (map (\<lambda>(i, t). case t of None \<Rightarrow> placeholder i | Some s \<Rightarrow> s) (enumerate_from0 toks),
            fold (\<lambda>(i, s) tt. tt[i := 3]) added (replicate vocab_size 1))))"


section \<open>The names are distinct\<close>

definition number_of :: "string \<Rightarrow> nat" where
  "number_of s = parse_nat (takeWhile (\<lambda>c. c \<noteq> CHR ''.'') (drop 4 s))"

definition suffix_of :: "string \<Rightarrow> string" where
  "suffix_of s = dropWhile (\<lambda>c. c \<noteq> CHR ''.'') (drop 4 s)"

lemma no_dot: "c \<in> set (show_nat n) \<Longrightarrow> c \<noteq> CHR ''.''"
  using isdigit_show_nat [of n] by (auto simp: isdigit_def list_all_iff is_digit_def)

lemma blk_parts: "number_of (blk i s) = i" "suffix_of (blk i s) = ''.'' @ s"
  by (simp_all add: number_of_def suffix_of_def blk_def no_dot takeWhile_append dropWhile_append)

definition layer_suffixes :: "bool \<Rightarrow> string list" where
  "layer_suffixes full = map (\<lambda>s. ''.'' @ s)
     ([''attn_norm.weight'', ''post_attention_norm.weight''] @
      (if full then [''attn_q.weight'', ''attn_k.weight'', ''attn_v.weight'', ''attn_q_norm.weight'', ''attn_k_norm.weight'', ''attn_output.weight'']
       else [''attn_qkv.weight'', ''attn_gate.weight'', ''ssm_ba.weight'', ''ssm_conv1d.weight'', ''ssm_dt.bias'', ''ssm_a'',
             ''ssm_norm.weight'', ''ssm_out.weight'']) @
      [''ffn_gate_inp.weight'', ''ffn_gate_exps.weight'', ''ffn_up_exps.weight'', ''ffn_down_exps.weight'',
       ''ffn_gate_shexp.weight'', ''ffn_up_shexp.weight'', ''ffn_down_shexp.weight'', ''ffn_gate_inp_shexp.weight''])"

lemma layer_names: "map (\<lambda>r. suffix_of (fst r)) (layer_rows interval i) = layer_suffixes (full_attn_layer i interval)"
  by (cases "full_attn_layer i interval")
    (simp_all only: layer_rows_def attn_rows_def linear_rows_def mlp_rows_def layer_suffixes_def blk_parts Let_def if_True if_False
      list.map fst_conv append.simps)

lemma layer_number: "list_all (\<lambda>r. number_of (fst r) = i \<and> take 4 (fst r) = ''blk.'') (layer_rows interval i)"
proof -
  have "take 4 (blk i s) = ''blk.''" for i s by (simp add: blk_def)
  then show ?thesis
    by (cases "full_attn_layer i interval")
      (simp_all only: layer_rows_def attn_rows_def linear_rows_def mlp_rows_def blk_parts Let_def if_True if_False
        list.pred_inject list_all_append fst_conv append.simps simp_thms)
qed

lemma suffixes_distinct: "distinct (layer_suffixes full)"
  by (cases full) (simp_all add: layer_suffixes_def)

text \<open>
  The runtime artifact's registry. For every depth and attention interval the new names are pairwise different, so
  the collision check never fails, and there are three global tensors, sixteen per full-attention layer and
  eighteen per other layer.
\<close>

theorem name_table_distinct:
  "distinct (map fst (build_name_table nl interval)) \<and>
   length (build_name_table nl interval) =
     3 + (\<Sum>i\<leftarrow>[0..<nl]. if full_attn_layer i interval then 16 else 18)"
proof
  have one: "distinct (map fst (layer_rows interval i))" for i
  proof -
    have "distinct (map suffix_of (map fst (layer_rows interval i)))"
      unfolding list.map_comp comp_def layer_names by (rule suffixes_distinct)
    then show ?thesis by (rule distinct_map [THEN iffD1, THEN conjunct1])
  qed
  have "distinct (map fst (concat (map (layer_rows interval) [0..<nl])))"
  proof (induction nl)
    case (Suc nl)
    have "number_of n < nl" if "n \<in> set (map fst (concat (map (layer_rows interval) [0..<nl])))" for n
      using that layer_number [of _ interval] by (fastforce simp: list_all_iff)
    moreover have "number_of n = nl" if "n \<in> set (map fst (layer_rows interval nl))" for n
      using that layer_number [of _ interval] by (fastforce simp: list_all_iff)
    ultimately have "set (map fst (concat (map (layer_rows interval) [0..<nl]))) \<inter> set (map fst (layer_rows interval nl)) = {}"
      by fastforce
    then show ?case using Suc one [of nl] by simp
  qed simp
  moreover have "take 4 n = ''blk.''" if "n \<in> set (map fst (concat (map (layer_rows interval) [0..<nl])))" for n
    using that layer_number [of _ interval] by (fastforce simp: list_all_iff)
  ultimately show "distinct (map fst (build_name_table nl interval))"
    by (fastforce simp: build_name_table_def)
  have "length (layer_rows interval i) = (if full_attn_layer i interval then 16 else 18)" for i
    by (simp add: layer_rows_def attn_rows_def linear_rows_def mlp_rows_def Let_def)
  then show "length (build_name_table nl interval) = 3 + (\<Sum>i\<leftarrow>[0..<nl]. if full_attn_layer i interval then 16 else 18)"
    by (simp add: build_name_table_def length_concat comp_def)
qed


section \<open>Interleaving keeps every row\<close>

definition ba_pick :: "'a list \<Rightarrow> 'a list \<Rightarrow> ba \<times> nat \<Rightarrow> 'a" where
  "ba_pick xb xa = (\<lambda>(tag, row). (case tag of Tb \<Rightarrow> xb | Ta \<Rightarrow> xa) ! row)"

definition row_fits :: "nat \<Rightarrow> nat \<Rightarrow> qsb_row \<Rightarrow> bool" where
  "row_fits K G = (\<lambda>(q, s, b). length q = K \<and> length s = G \<and> length b = G)"

lemma fill_rows_ok:
  assumes "r + length ps \<le> length out"
    "\<forall>(tag, row)\<in>set ps. row < length (case tag of Tb \<Rightarrow> rb | Ta \<Rightarrow> ra)"
    "\<forall>x\<in>set rb \<union> set ra. row_fits K G x"
  shows "fill_rows K G rb ra r ps out = Inr (take r out @ map (ba_pick rb ra) ps @ drop (r + length ps) out)"
  using assms
proof (induction ps arbitrary: r out)
  case (Cons p ps)
  obtain tag row where p: "p = (tag, row)" by (cases p)
  let ?rows = "case tag of Tb \<Rightarrow> rb | Ta \<Rightarrow> ra"
  have row: "row < length ?rows" using Cons.prems(2) p by simp
  then have "?rows ! row \<in> set rb \<union> set ra" by (cases tag) simp_all
  then have fit: "row_fits K G (?rows ! row)" using Cons.prems(3) by blast
  have r: "r < length out" using Cons.prems(1) by simp
  have "fill_rows K G rb ra r (p # ps) out = fill_rows K G rb ra (Suc r) ps (out[r := ?rows ! row])"
    using row r fit by (cases "?rows ! row") (simp add: p row_fits_def into_row_def Let_def)
  also have "\<dots> = Inr (take (Suc r) (out[r := ?rows ! row]) @ map (ba_pick rb ra) ps @ drop (Suc r + length ps) (out[r := ?rows ! row]))"
    using Cons.IH [of "Suc r" "out[r := ?rows ! row]"] Cons.prems by auto
  also have "take (Suc r) (out[r := ?rows ! row]) = take r out @ [ba_pick rb ra p]"
    using r by (simp add: take_Suc_conv_app_nth p ba_pick_def)
  finally show ?case by simp
qed simp

lemma length_perm [simp]: "length (ssm_ba_perm n_k) = 4 * n_k"
  by (induction n_k) (simp_all add: ssm_ba_perm_def)

lemma perm_nth:
  assumes "i < 4 * n_k"
  shows "ssm_ba_perm n_k ! i = [(Tb, 2 * (i div 4)), (Tb, 2 * (i div 4) + 1), (Ta, 2 * (i div 4)), (Ta, 2 * (i div 4) + 1)] ! (i mod 4)"
proof -
  let ?f = "\<lambda>g. [(Tb, 2 * g), (Tb, 2 * g + 1), (Ta, 2 * g), (Ta, 2 * g + 1)]"
  have "concat (map ?f [0..<n_k]) ! i = map ?f [0..<n_k] ! (i div 4) ! (i mod 4)"
    by (rule concat_uniform_nth) (use assms in auto)
  moreover have "i div 4 < n_k" using assms by (simp add: less_mult_imp_div_less mult.commute)
  ultimately show ?thesis by (simp add: ssm_ba_perm_def)
qed

lemma perm_at:
  assumes "j < 2 * n_k"
  shows "4 * (j div 2) + j mod 2 < 4 * n_k" "ssm_ba_perm n_k ! (4 * (j div 2) + j mod 2) = (Tb, j)"
    "4 * (j div 2) + 2 + j mod 2 < 4 * n_k" "ssm_ba_perm n_k ! (4 * (j div 2) + 2 + j mod 2) = (Ta, j)"
proof -
  have g: "j div 2 < n_k" using assms by (simp add: less_mult_imp_div_less mult.commute)
  have j: "j = 2 * (j div 2) + j mod 2" "j mod 2 < 2" by simp_all
  show l1: "4 * (j div 2) + j mod 2 < 4 * n_k" and l2: "4 * (j div 2) + 2 + j mod 2 < 4 * n_k"
    using g j(2) by linarith+
  have c: "j mod 2 = 0 \<or> j mod 2 = 1" by auto
  show "ssm_ba_perm n_k ! (4 * (j div 2) + j mod 2) = (Tb, j)"
    using c
  proof
    assume z: "j mod 2 = 0"
    then have "ssm_ba_perm n_k ! (4 * (j div 2)) = (Tb, 2 * (j div 2))" using perm_nth [OF l1] by simp
    then show ?thesis using z j(1) by simp
  next
    assume z: "j mod 2 = 1"
    then have "ssm_ba_perm n_k ! (4 * (j div 2) + 1) = (Tb, 2 * (j div 2) + 1)" using perm_nth [OF l1] by simp
    moreover have "2 * (j div 2) + 1 = j" using z j(1) by linarith
    ultimately show ?thesis using z by simp
  qed
  show "ssm_ba_perm n_k ! (4 * (j div 2) + 2 + j mod 2) = (Ta, j)"
    using c
  proof
    assume z: "j mod 2 = 0"
    have "(4 * (j div 2) + 2) div 4 = j div 2" "(4 * (j div 2) + 2) mod 4 = 2" by (simp_all del: add_2_eq_Suc')
    then have "ssm_ba_perm n_k ! (4 * (j div 2) + 2) = (Ta, 2 * (j div 2))" using perm_nth [OF l2] z by (simp del: add_2_eq_Suc')
    then show ?thesis using z j(1) by simp
  next
    assume z: "j mod 2 = 1"
    have "(4 * (j div 2) + 3) div 4 = j div 2" "(4 * (j div 2) + 3) mod 4 = 3" by simp_all
    moreover have "4 * (j div 2) + 2 + j mod 2 = 4 * (j div 2) + 3" using z by simp
    moreover have "2 * (j div 2) + 1 = j" using z j(1) by linarith
    ultimately show ?thesis using perm_nth [OF l2] by (simp only:) simp
  qed
qed

lemma perm_rows: "(tag, row) \<in> set (ssm_ba_perm n_k) \<Longrightarrow> row < 2 * n_k"
  by (auto simp: ssm_ba_perm_def)

text \<open>
  C31: the interleaved gate matrix. With twice as many value heads as key heads and sources of one width, the
  result has no unwritten row, and row \<open>j\<close> of either source, codes, scales and biases alike, is found at its place in the group
  of \<open>j\<close>; the recorded reversibility gate passes.
\<close>

theorem load_ba_interleaves:
  assumes "n_v = 2 * n_k" "0 < n_k" "ba_source fo idx n_v kb = Inr rb" "ba_source fo idx n_v ka = Inr ra"
    "length rb = n_v" "length ra = n_v" "\<forall>x\<in>set rb \<union> set ra. row_fits K (K div 64) x"
  shows "\<exists>rows. load_ba fo junk idx kb ka n_k n_v = Inr (rows, K) \<and> length rows = 2 * n_v \<and>
    (\<forall>j<n_v. rows ! (4 * (j div 2) + j mod 2) = rb ! j \<and> rows ! (4 * (j div 2) + 2 + j mod 2) = ra ! j) \<and>
    ba_gate n_k (map fst rb) (map fst ra) (map fst rows)"
proof -
  have K: "(case rb of [] \<Rightarrow> 0 | (q, s, b) # _ \<Rightarrow> length q) = K"
  proof (cases rb)
    case (Cons x xs)
    then show ?thesis using assms(7) by (cases x) (simp add: row_fits_def)
  qed (use assms in simp)
  let ?rows = "map (ba_pick rb ra) (ssm_ba_perm n_k)"
  have "\<forall>(tag, row)\<in>set (ssm_ba_perm n_k). row < length (case tag of Tb \<Rightarrow> rb | Ta \<Rightarrow> ra)"
    using perm_rows assms(1,5,6) by (fastforce split: ba.splits)
  then have "fill_rows K (K div 64) rb ra 0 (ssm_ba_perm n_k) (map junk [0..<2 * n_v]) = Inr ?rows"
    using fill_rows_ok [of 0 "ssm_ba_perm n_k" "map junk [0..<2 * n_v]" rb ra K "K div 64"] assms(1,7) by simp
  then have "load_ba fo junk idx kb ka n_k n_v = Inr (?rows, K)"
    unfolding load_ba_def assms(3,4) res_bind_simps K Let_def by simp
  moreover have "?rows ! (4 * (j div 2) + j mod 2) = rb ! j \<and> ?rows ! (4 * (j div 2) + 2 + j mod 2) = ra ! j" if "j < n_v" for j
    using perm_at [of j n_k] that assms(1) by (simp add: ba_pick_def)
  moreover have "ba_gate n_k (map fst rb) (map fst ra) (map fst ?rows)"
    unfolding ba_gate_def list.map_comp
  proof (rule map_cong [OF refl])
    fix x assume x: "x \<in> set (ssm_ba_perm n_k)"
    obtain tag row where "x = (tag, row)" by (cases x)
    moreover have "row < 2 * n_k" using x calculation perm_rows by simp
    ultimately show "(case x of (tag, row) \<Rightarrow> (case tag of Tb \<Rightarrow> map fst rb | Ta \<Rightarrow> map fst ra) ! row) = (fst \<circ> ba_pick rb ra) x"
      using assms(1,5,6) by (cases tag) (simp_all add: ba_pick_def)
  qed
  ultimately show ?thesis using assms(1) by (intro exI [of _ ?rows]) simp
qed


section \<open>Writing the artifact\<close>

text \<open>The two passes of \<open>main\<close> over a name table; \<open>kvs\<close> are the metadata entries written before.\<close>

definition r3_regs :: "st_index \<Rightarrow> nat \<Rightarrow> (string \<times> string \<times> src) list \<Rightarrow> (string \<times> nat \<times> nat list \<times> nat) list res" where
  "r3_regs idx n_v table =
     res_map (\<lambda>(n, kind, src). res_bind (r3_spec idx n_v kind src) (\<lambda>(tt, dims, nbytes). Inr (n, tt, dims, nbytes))) table"

fun r3_data ::
  "float_ops \<Rightarrow> (f32 \<Rightarrow> f32) \<Rightarrow> (nat \<Rightarrow> qsb_row) \<Rightarrow> st_index \<Rightarrow> nat \<Rightarrow> nat \<Rightarrow> (string \<times> string \<times> src) list \<Rightarrow> gate_counts \<Rightarrow> u8 list list res" where
  "r3_data fo neg_exp junk idx n_k n_v [] gc = Inr []"
| "r3_data fo neg_exp junk idx n_k n_v ((n, kind, src) # ts) gc =
     res_bind (r3_pieces fo neg_exp junk idx n_k n_v kind src gc) (\<lambda>(b, gc').
     res_bind (r3_data fo neg_exp junk idx n_k n_v ts gc') (\<lambda>bs. Inr (b # bs)))"

definition r3_write ::
  "float_ops \<Rightarrow> (f32 \<Rightarrow> f32) \<Rightarrow> (nat \<Rightarrow> qsb_row) \<Rightarrow> st_index \<Rightarrow> nat \<Rightarrow> nat \<Rightarrow> u8 list list \<Rightarrow> (string \<times> string \<times> src) list \<Rightarrow>
     ((string \<times> nat \<times> nat list \<times> nat) list \<times> u8 list \<times> nat) res" where
  "r3_write fo neg_exp junk idx n_k n_v kvs table =
     (if \<not> distinct (map fst table) then Inl AssertionError
      else res_bind (r3_regs idx n_v table) (\<lambda>regs.
           res_bind (register_all regs (writer_new\<lparr>w_kvs := kvs\<rparr>)) (\<lambda>w.
           res_bind (gguf_finalize w) (\<lambda>(w, ds).
           res_bind (r3_data fo neg_exp junk idx n_k n_v table no_counts) (\<lambda>bs.
           res_bind (stream_all (map (\<lambda>b. [b]) bs) w) (\<lambda>w. Inr (regs, w_file w, ds)))))))"

section \<open>The declared sizes are the written sizes\<close>

text \<open>
  The shapes the size declarations silently rely on: the first gate matrix has one row per value head, the decay
  vector has one axis and the one-dimensional gate one row.
\<close>

definition shape_assumed :: "st_index \<Rightarrow> nat \<Rightarrow> string \<Rightarrow> src \<Rightarrow> bool" where
  "shape_assumed idx n_v kind src =
     (case src of
        Two kb ka \<Rightarrow> (case entry_of idx kb of Inl x \<Rightarrow> True | Inr e \<Rightarrow> prod_list (butlast (st_shape e)) = n_v)
      | One n \<Rightarrow> (case entry_of idx n of Inl x \<Rightarrow> True | Inr e \<Rightarrow>
          (kind = ''sa'' \<longrightarrow> length (st_shape e) = 1) \<and> (kind = ''f32i8_1d'' \<longrightarrow> word_rows (st_shape e) = 1)))"

lemma pack_rows_bytes:
  "pack_q41_rows fo gc K q s b = Inr (blocks, exm, gc') \<Longrightarrow> length (q41_bytes blocks) = length q * (K div 32 * 20)"
  using length_q41_bytes [of fo q s b "K div 32" "length q"]
  by (auto simp: pack_q41_rows_def Let_def pack_block_def [abs_def] split: if_splits)

lemma res_map_spread: "res_map (spread_groups G) xs = Inr ys \<Longrightarrow> length ys = length xs"
  by (rule res_map_Inr_length)

lemma deq_checked_bytes:
  assumes "deq_checked fo K q s b = Inr A" "\<forall>r\<in>set q. length r = K" "length s = length q" "length b = length q"
  shows "length (f32_bytes A) = length q * (K * 4)"
proof -
  obtain s' b' where A: "A = deq_mlx_side fo q s' b'" "length s' = length q" "length b' = length q"
  proof -
    obtain s' b' where "res_map (spread_groups (K div 64)) s = Inr s'" "res_map (spread_groups (K div 64)) b = Inr b'"
      "A = deq_mlx_side fo q s' b'" using assms(1) by (auto simp: deq_checked_def res_bind_Inr_iff split: if_splits)
    with assms(3,4) show thesis by (intro that [of s' b']) (simp_all add: res_map_spread)
  qed
  have four: "length (concat (map (\<lambda>x. le_bytes 4 (unat x)) ws)) = length ws * 4" for ws :: "f32 list"
    by (induction ws) simp_all
  have "length (concat A) = length A * K"
    using assms(2) by (intro length_concat_uniform) (auto simp: A(1) deq_mlx_side_def dest: set_zip_leftD)
  then show ?thesis using A by (simp add: f32_bytes_def four deq_mlx_side_def)
qed

lemma word_rows_prod: "shp \<noteq> [] \<Longrightarrow> prod_list shp = word_rows shp * last shp"
  using prod_list_last [of shp] by (cases "1 < length shp") (auto simp: word_rows_def not_less le_Suc_eq length_Suc_conv)

lemma fill_rows_length: "fill_rows K G rb ra r ps out = Inr out' \<Longrightarrow> length out' = length out"
proof (induction ps arbitrary: r out)
  case (Cons p ps)
  obtain tag row where p: "p = (tag, row)" by (cases p)
  define x where "x = (case tag of Tb \<Rightarrow> rb | Ta \<Rightarrow> ra) ! row"
  obtain q s b where x: "x = (q, s, b)" by (cases x)
  obtain y where "fill_rows K G rb ra (Suc r) ps (out[r := y]) = Inr out'"
    using Cons.prems unfolding p fill_rows.simps Let_def x_def [symmetric] x by (auto simp: res_bind_Inr_iff split: if_splits)
  from Cons.IH [OF this] show ?case by simp
qed simp

lemma reshape_length: "reshape_rows R xs = Inr xss \<Longrightarrow> 0 < R \<and> length xss = R"
  by (auto simp: reshape_rows_def rows_of_props(1) split: if_splits)

lemma reshape_eq: "reshape_rows R xs = Inr xss \<Longrightarrow> length xs = R * n \<Longrightarrow> xss = rows_of R n xs"
  by (auto simp: reshape_rows_def split: if_splits)

lemma ba_source_width:
  assumes "ba_source fo idx n_v key = Inr rows" "entry_of idx key = Inr e" "st_shape e \<noteq> []" "prod_list (butlast (st_shape e)) = n_v"
  shows "0 < n_v \<and> length rows = n_v \<and> (\<forall>r\<in>set rows. length (fst r) = last (st_shape e) * 8)"
proof -
  obtain w s b W S B where w: "st_load idx key = Inr (AU32 w)" "reshape_rows n_v w = Inr W" "reshape_rows n_v s = Inr S"
    "reshape_rows n_v b = Inr B" "rows = map2 (\<lambda>q sb. (map ucast (mlx_q_bytes q), sb)) W (zip S B)"
    using assms(1) by (auto simp: ba_source_def Let_def res_bind_Inr_iff elim!: as_u32.elims)
  have "map_of (st_t idx) key = Some e" using assms(2) by (auto simp: entry_of_def split: option.splits)
  then have lw: "length w = n_v * last (st_shape e)"
    using st_load_length [OF w(1)] prod_list_last [OF assms(3)] assms(4) by simp
  have W: "0 < n_v" "W = rows_of n_v (last (st_shape e)) w" "length W = n_v" "length S = n_v" "length B = n_v"
    using reshape_length [OF w(2)] reshape_length [OF w(3)] reshape_length [OF w(4)] reshape_eq [OF w(2) lw] by blast+
  have "length r = last (st_shape e)" if "r \<in> set W" for r using that unfolding W(2) by (rule rows_of_props(2) [OF lw])
  then have "\<forall>r\<in>set rows. length (fst r) = last (st_shape e) * 8" unfolding w(5) by (auto dest: set_zip_leftD)
  then show ?thesis using W(1,3,4,5) unfolding w(5) by simp
qed

lemma load_ba_bytes:
  assumes "load_ba fo junk idx kb ka n_k n_v = Inr (rows, K)" "entry_of idx kb = Inr e" "st_shape e \<noteq> []"
    "prod_list (butlast (st_shape e)) = n_v"
  shows "length rows = 2 * n_v \<and> K = last (st_shape e) * 8"
proof -
  obtain rb ra where rb: "ba_source fo idx n_v kb = Inr rb"
    "K = (case rb of [] \<Rightarrow> 0 | (q, s, b) # _ \<Rightarrow> length q)"
    "fill_rows K (K div 64) rb ra 0 (ssm_ba_perm n_k) (map junk [0..<2 * n_v]) = Inr rows"
    using assms(1) by (auto simp: load_ba_def Let_def res_bind_Inr_iff)
  have "0 < n_v \<and> length rb = n_v \<and> (\<forall>r\<in>set rb. length (fst r) = last (st_shape e) * 8)"
    using ba_source_width [OF rb(1) assms(2-4)] .
  then show ?thesis using rb(2) fill_rows_length [OF rb(3)] by (cases rb) auto
qed

lemma r3_size_ba:
  assumes "r3_spec idx n_v kind (Two kb ka) = Inr (tt, dims, n)" "shape_assumed idx n_v kind (Two kb ka)"
    "r3_pieces fo neg_exp junk idx n_k n_v kind (Two kb ka) gc = Inr (bytes, gc')"
  shows "length bytes = n"
proof -
  obtain e where e: "entry_of idx kb = Inr e" "st_shape e \<noteq> []" "n = 2 * n_v * (last (st_shape e) * 8 div 32) * 20"
    using assms(1) by (auto simp: r3_spec_def res_bind_Inr_iff py_lastelem_def split: if_splits)
  have nv: "prod_list (butlast (st_shape e)) = n_v" using assms(2) e(1) by (simp add: shape_assumed_def)
  obtain rows K blocks exm where l: "load_ba fo junk idx kb ka n_k n_v = Inr (rows, K)"
    "pack_q41_rows fo gc K (map fst rows) (map (\<lambda>r. fst (snd r)) rows) (map (\<lambda>r. snd (snd r)) rows) = Inr (blocks, exm, gc')"
    "bytes = q41_bytes blocks"
    using assms(3) by (auto simp: r3_pieces_def unpack3_def res_bind_Inr_iff)
  then show ?thesis using pack_rows_bytes [OF l(2)] load_ba_bytes [OF l(1) e(1,2) nv] e(3) by (simp add: mult.assoc)
qed

lemma r3_size_quantised:
  assumes "kind = ''q41'' \<or> kind = ''f32i8'' \<or> kind = ''f32i8_1d''" "entry_of idx m = Inr e" "st_shape e \<noteq> []"
    "r3_pieces fo neg_exp junk idx n_k n_v kind (One m) gc = Inr (bytes, gc')"
  shows "length bytes = word_rows (st_shape e) *
    (if kind = ''q41'' then last (st_shape e) * 8 div 32 * 20 else last (st_shape e) * 4 * 4)"
proof -
  let ?R = "word_rows (st_shape e)" and ?words = "last (st_shape e)"
  obtain w s b where l: "load_three fo idx m (take (length m - 7) m) = Inr (w, s, b)" "quant_bytes fo kind ?R gc (w, s, b) = Inr (bytes, gc')"
    using assms(1,2,4) by (auto simp: r3_pieces_def res_bind_Inr_iff)
  obtain W S B where w: "reshape_rows ?R w = Inr W" "reshape_rows ?R s = Inr S" "reshape_rows ?R b = Inr B"
    using l(2) by (auto simp: quant_bytes_def res_bind_Inr_iff)
  have rest: "(if kind = ''q41'' then res_bind (pack_q41_rows fo gc (length w div ?R * 8) (map mlx_q_bytes W) S B) (\<lambda>(blocks, exm, gc'). Inr (q41_bytes blocks, gc'))
      else res_bind (deq_checked fo (length w div ?R * 4) (map u32_bytes W) S B) (\<lambda>A. Inr (f32_bytes A, gc))) = Inr (bytes, gc')"
    using l(2) by (simp add: quant_bytes_def w Let_def)
  obtain sa ba where "st_load idx m = Inr (AU32 w)" using l(1) by (rule load_three_Inr)
  moreover have "map_of (st_t idx) m = Some e" using assms(2) by (auto simp: entry_of_def split: option.splits)
  ultimately have lw: "length w = ?R * ?words" using st_load_length [of idx m "AU32 w" e] word_rows_prod [OF assms(3)] by simp
  have R: "0 < ?R" "W = rows_of ?R ?words w" "length S = ?R" "length B = ?R"
    using reshape_length [OF w(1)] reshape_length [OF w(2)] reshape_length [OF w(3)] reshape_eq [OF w(1) lw] by blast+
  then have div: "length w div ?R = ?words" using lw by simp
  show ?thesis
  proof (cases "kind = ''q41''")
    case True
    then obtain blocks exm where "pack_q41_rows fo gc (?words * 8) (map mlx_q_bytes W) S B = Inr (blocks, exm, gc')" "bytes = q41_bytes blocks"
      using rest unfolding div by (auto simp: res_bind_Inr_iff)
    then show ?thesis using pack_rows_bytes True R(2) by (fastforce simp: rows_of_props(1))
  next
    case False
    then obtain A where A: "deq_checked fo (?words * 4) (map u32_bytes W) S B = Inr A" "bytes = f32_bytes A"
      using rest unfolding div by (auto simp: res_bind_Inr_iff)
    have "\<forall>r\<in>set (map u32_bytes W). length r = ?words * 4"
      using rows_of_props(2) [OF lw] unfolding R(2) by (auto simp: length_u32_bytes)
    then show ?thesis using deq_checked_bytes [OF A(1)] A(2) False R by (simp add: rows_of_props(1))
  qed
qed


lemma as_f32_length: "as_f32 fo a = Inr xs \<Longrightarrow> length xs = arr_length a"
  by (cases a) (auto simp: as_f32_def)

lemma length_f32_raw: "length (f32_raw xs) = length xs * 4"
  by (induction xs) (simp_all add: f32_raw_def)

lemma plain_bytes_length: "plain_bytes neg_exp kind shp xs = Inr b \<Longrightarrow> length b = length xs * 4"
  by (simp add: plain_bytes_def length_f32_raw split: if_splits) (auto simp: length_f32_raw)

lemma r3_size_plain:
  assumes "\<not> (kind = ''q41'' \<or> kind = ''f32i8'' \<or> kind = ''f32i8_1d'')" "entry_of idx m = Inr e"
    "r3_pieces fo neg_exp junk idx n_k n_v kind (One m) gc = Inr (bytes, gc')"
  shows "length bytes = prod_list (st_shape e) * 4"
proof -
  note p = assms(3) [unfolded r3_pieces_def src.case if_not_P [OF assms(1)] assms(2) res_bind_simps]
  obtain a xs where a: "st_load idx m = Inr a" "as_f32 fo a = Inr xs" "plain_bytes neg_exp kind (st_shape e) xs = Inr bytes"
    using p unfolding res_bind_Inr_iff by blast
  then have "length bytes = length xs * 4" using plain_bytes_length by blast
  moreover have "map_of (st_t idx) m = Some e" using assms(2) by (auto simp: entry_of_def split: option.splits)
  ultimately show ?thesis using a st_load_length [of idx m a e] as_f32_length by simp
qed

text \<open>The size that \<open>r3_spec\<close> declares is the number of bytes written.\<close>

lemma r3_size:
  assumes "r3_spec idx n_v kind src = Inr (tt, dims, n)" "shape_assumed idx n_v kind src"
    "r3_pieces fo neg_exp junk idx n_k n_v kind src gc = Inr (bytes, gc')"
  shows "length bytes = n"
proof (cases src)
  case (Two kb ka)
  then show ?thesis using r3_size_ba assms by blast
next
  case src: (One m)
  obtain e where e: "entry_of idx m = Inr e" using assms(1) src by (auto simp: r3_spec_def res_bind_Inr_iff)
  have asm: "kind = ''sa'' \<longrightarrow> length (st_shape e) = 1" "kind = ''f32i8_1d'' \<longrightarrow> word_rows (st_shape e) = 1"
    using assms(2) e src by (simp_all add: shape_assumed_def)
  note spec = assms(1) [unfolded r3_spec_def src src.case e res_bind_simps Let_def]
  show ?thesis
  proof (cases "kind = ''q41'' \<or> kind = ''f32i8'' \<or> kind = ''f32i8_1d''")
    case True
    have ne: "st_shape e \<noteq> []" using spec True by (auto simp: py_lastelem_def split: if_splits)
    have wr: "prod_list (butlast (st_shape e)) = word_rows (st_shape e)"
      using ne by (cases "st_shape e") (auto simp: word_rows_def)
    have "n = word_rows (st_shape e) * (if kind = ''q41'' then last (st_shape e) * 8 div 32 * 20 else last (st_shape e) * 4 * 4)"
      using spec True ne asm by (auto simp: py_lastelem_def wr)
    then show ?thesis using r3_size_quantised [OF True e ne] assms(3) src by simp
  next
    case False
    have "n = prod_list (st_shape e) * 4"
    proof (cases "kind = ''sa''")
      case True
      then show ?thesis using spec asm(1) by (auto simp: nth_dim_def length_Suc_conv)
    next
      case sa: False
      then show ?thesis using spec False by (auto simp: res_bind_Inr_iff nth_dim_def split: if_splits)
    qed
    then show ?thesis using r3_size_plain [OF False e] assms(3) src by simp
  qed
qed

text \<open>The bytes do not depend on the gate's counters.\<close>

lemma pack_rows_counts:
  "pack_q41_rows fo gc K q s b = Inr (blocks, exm, gc') \<Longrightarrow> \<exists>g. pack_q41_rows fo gc2 K q s b = Inr (blocks, exm, g)"
  by (auto simp: pack_q41_rows_def Let_def split: if_splits)

lemma quant_bytes_counts:
  "quant_bytes fo kind R gc wsb = Inr (bytes, gc') \<Longrightarrow> \<exists>g. quant_bytes fo kind R gc2 wsb = Inr (bytes, g)"
proof -
  assume q: "quant_bytes fo kind R gc wsb = Inr (bytes, gc')"
  obtain w s b where t: "wsb = (w, s, b)" by (cases wsb)
  obtain W S B where w: "reshape_rows R w = Inr W" "reshape_rows R s = Inr S" "reshape_rows R b = Inr B"
    using q t by (auto simp: quant_bytes_def res_bind_Inr_iff)
  show ?thesis
  proof (cases "kind = ''q41''")
    case True
    then obtain blocks exm where "pack_q41_rows fo gc (length w div R * 8) (map mlx_q_bytes W) S B = Inr (blocks, exm, gc')" "bytes = q41_bytes blocks"
      using q by (auto simp: quant_bytes_def t w Let_def res_bind_Inr_iff)
    then show ?thesis using pack_rows_counts [of fo gc _ _ S B blocks exm gc' gc2] True by (fastforce simp: quant_bytes_def t w Let_def)
  next
    case False
    then show ?thesis using q by (auto simp: quant_bytes_def t w Let_def res_bind_Inr_iff)
  qed
qed

lemma r3_pieces_counts:
  assumes "r3_pieces fo neg_exp junk idx n_k n_v kind src gc = Inr (bytes, gc')"
  shows "\<exists>g. r3_pieces fo neg_exp junk idx n_k n_v kind src gc2 = Inr (bytes, g)"
proof (cases src)
  case (Two kb ka)
  then obtain rows K blocks exm where l: "load_ba fo junk idx kb ka n_k n_v = Inr (rows, K)"
    "pack_q41_rows fo gc K (map fst rows) (map (\<lambda>r. fst (snd r)) rows) (map (\<lambda>r. snd (snd r)) rows) = Inr (blocks, exm, gc')"
    "bytes = q41_bytes blocks"
    using assms by (auto simp: r3_pieces_def unpack3_def res_bind_Inr_iff)
  then show ?thesis using pack_rows_counts [OF l(2), of gc2] Two by (auto simp: r3_pieces_def unpack3_def)
next
  case src: (One m)
  show ?thesis
  proof (cases "kind = ''q41'' \<or> kind = ''f32i8'' \<or> kind = ''f32i8_1d''")
    case True
    then obtain e wsb where "entry_of idx m = Inr e" "load_three fo idx m (take (length m - 7) m) = Inr wsb"
      "quant_bytes fo kind (word_rows (st_shape e)) gc wsb = Inr (bytes, gc')"
      using assms src by (auto simp: r3_pieces_def res_bind_Inr_iff)
    then show ?thesis using quant_bytes_counts [of fo kind _ gc wsb bytes gc' gc2] True src by (auto simp: r3_pieces_def)
  next
    case False
    obtain e xs b where "entry_of idx m = Inr e" "res_bind (st_load idx m) (as_f32 fo) = Inr xs"
      "plain_bytes neg_exp kind (st_shape e) xs = Inr b" "b = bytes"
      using assms unfolding src r3_pieces_def src.case if_not_P [OF False] res_bind_Inr_iff [of "entry_of idx m"]
        res_bind_Inr_iff [of "res_bind (st_load idx m) (as_f32 fo)"] res_bind_Inr_iff [of "plain_bytes _ _ _ _"] by blast
    then show ?thesis unfolding src r3_pieces_def src.case if_not_P [OF False] by simp
  qed
qed

definition r3_bytes :: "float_ops \<Rightarrow> (f32 \<Rightarrow> f32) \<Rightarrow> (nat \<Rightarrow> qsb_row) \<Rightarrow> st_index \<Rightarrow> nat \<Rightarrow> nat \<Rightarrow> string \<times> string \<times> src \<Rightarrow> u8 list res" where
  "r3_bytes fo neg_exp junk idx n_k n_v = (\<lambda>(n, kind, src).
     res_bind (r3_pieces fo neg_exp junk idx n_k n_v kind src no_counts) (\<lambda>(b, gc). Inr b))"

lemma r3_data_ok:
  assumes "\<forall>t\<in>set table. shape_assumed idx n_v (fst (snd t)) (snd (snd t)) \<and> (\<exists>b. r3_bytes fo neg_exp junk idx n_k n_v t = Inr b)"
    "r3_regs idx n_v table = Inr regs"
  shows "\<exists>bs. r3_data fo neg_exp junk idx n_k n_v table gc = Inr bs \<and> sizes_fit regs (map (\<lambda>b. [b]) bs) \<and> length regs = length table \<and>
    map fst regs = map fst table \<and> (\<forall>i<length table. r3_bytes fo neg_exp junk idx n_k n_v (table ! i) = Inr (bs ! i))"
  using assms
proof (induction table arbitrary: regs gc)
  case Nil
  then show ?case by (simp add: r3_regs_def sizes_fit_def)
next
  case (Cons t ts)
  obtain n kind src where t: "t = (n, kind, src)" by (cases t)
  obtain tt dims k rs where sp: "r3_spec idx n_v kind src = Inr (tt, dims, k)" "r3_regs idx n_v ts = Inr rs" "regs = (n, tt, dims, k) # rs"
    using Cons.prems(2) by (cases "r3_spec idx n_v kind src") (auto simp: r3_regs_def t split: sum.splits)
  obtain b where b: "r3_bytes fo neg_exp junk idx n_k n_v t = Inr b" using Cons.prems(1) by auto
  then obtain g where "r3_pieces fo neg_exp junk idx n_k n_v kind src no_counts = Inr (b, g)" by (auto simp: r3_bytes_def t res_bind_Inr_iff)
  then obtain g' where g: "r3_pieces fo neg_exp junk idx n_k n_v kind src gc = Inr (b, g')" using r3_pieces_counts by blast
  have len: "length b = k" using r3_size [OF sp(1) _ g] Cons.prems(1) t by simp
  obtain bs where bs: "r3_data fo neg_exp junk idx n_k n_v ts g' = Inr bs" "sizes_fit rs (map (\<lambda>b. [b]) bs)" "length rs = length ts"
    "map fst rs = map fst ts" "\<forall>i<length ts. r3_bytes fo neg_exp junk idx n_k n_v (ts ! i) = Inr (bs ! i)"
    using Cons.IH [OF _ sp(2), of g'] Cons.prems(1) by auto
  have "r3_bytes fo neg_exp junk idx n_k n_v ((t # ts) ! i) = Inr ((b # bs) ! i)" if "i < length (t # ts)" for i
    using that b bs(5) by (cases i) auto
  then show ?case using g bs len sp(3) t by (auto simp: sizes_fit_def)
qed

text \<open>
  C26: the runtime artifact is laid out as declared. For a table whose tensors can be read, with the shapes the
  declarations rely on, the writer succeeds; the registered names are the table's, each tensor starts at an aligned
  offset of the aligned data section, and the bytes of the declared size there are exactly those of that tensor.
\<close>

theorem r3_places_tensors:
  assumes "distinct (map fst table)" "r3_regs idx n_v table = Inr regs" "length kvs < 256 ^ 8" "length regs < 256 ^ 8"
    "\<forall>t\<in>set table. shape_assumed idx n_v (fst (snd t)) (snd (snd t)) \<and> (\<exists>b. r3_bytes fo neg_exp junk idx n_k n_v t = Inr b)"
    "\<forall>r\<in>set (layout_from 0 regs). rec_fits r"
  shows "\<exists>file ds. r3_write fo neg_exp junk idx n_k n_v kvs table = Inr (regs, file, ds) \<and> ds mod 32 = 0 \<and> map fst regs = map fst table \<and>
    (\<forall>i<length table. \<exists>off b. layout_from 0 regs ! i = (fst (regs ! i), fst (snd (regs ! i)), fst (snd (snd (regs ! i))), off, snd (snd (snd (regs ! i)))) \<and>
       off mod 32 = 0 \<and> r3_bytes fo neg_exp junk idx n_k n_v (table ! i) = Inr b \<and>
       take (snd (snd (snd (regs ! i)))) (drop (ds + off) file) = b)"
proof -
  obtain bs where bs: "r3_data fo neg_exp junk idx n_k n_v table no_counts = Inr bs" "sizes_fit regs (map (\<lambda>b. [b]) bs)" "length regs = length table"
    "map fst regs = map fst table" "\<forall>i<length table. r3_bytes fo neg_exp junk idx n_k n_v (table ! i) = Inr (bs ! i)"
    using r3_data_ok [OF assms(5,2), of no_counts] by auto
  let ?data = "map (\<lambda>b. [b]) bs"
  obtain w w' ds where place: "register_all regs (writer_new\<lparr>w_kvs := kvs\<rparr>) = Inr w" "gguf_finalize w = Inr (w', ds)" "ds mod 32 = 0"
    "stream_all ?data w' = Inr (w'\<lparr>w_file := w_file w' @ concat (map padded ?data)\<rparr>)"
    "\<forall>i<length regs. \<exists>off. layout_from 0 regs ! i = (fst (regs ! i), fst (snd (regs ! i)), fst (snd (snd (regs ! i))), off, snd (snd (snd (regs ! i)))) \<and>
       off mod 32 = 0 \<and> take (snd (snd (snd (regs ! i)))) (drop (ds + off) (w_file w' @ concat (map padded ?data))) = concat (?data ! i)"
    using streamed_ok [OF assms(6,4,3) bs(2)] by (elim exE conjE) (rule that)
  have run: "r3_write fo neg_exp junk idx n_k n_v kvs table = Inr (regs, w_file w' @ concat (map padded ?data), ds)"
    unfolding r3_write_def using assms(1) by (simp only: not_not if_False assms(2) place(1,2,4) bs(1) res_bind_simps prod.case) simp
  have lb: "length bs = length table" using bs(2,3) by (auto simp: sizes_fit_def dest: list_all2_lengthD)
  have "concat (?data ! i) = bs ! i" if "i < length table" for i using that lb by simp
  then show ?thesis using run place(3,5) bs(3,4,5) by metis
qed


section \<open>Small instances\<close>

lemma zip3: "(x, y, z) \<in> set (zip A (zip B C)) \<Longrightarrow> x \<in> set A \<and> y \<in> set B \<and> z \<in> set C"
  by (metis set_zip_leftD set_zip_rightD)

text \<open>Sources that load and reshape.\<close>

lemma ba_source_ok:
  assumes "load_three fo idx key (take (length key - 7) key) = Inr (w, s, b)" "0 < n_v"
    "length w = n_v * words" "length s = n_v * (words * 8 div 64)" "length b = n_v * (words * 8 div 64)"
  shows "\<exists>rows. ba_source fo idx n_v key = Inr rows \<and> length rows = n_v \<and> (\<forall>x\<in>set rows. row_fits (words * 8) (words * 8 div 64) x)"
proof -
  let ?g = "words * 8 div 64"
  let ?rows = "map2 (\<lambda>q sb. (map ucast (mlx_q_bytes q), sb)) (rows_of n_v words w) (zip (rows_of n_v ?g s) (rows_of n_v ?g b))"
  have l: "res_bind (st_load idx key) as_u32 = Inr w" "res_bind (st_load idx (take (length key - 7) key @ ''.scales'')) (as_f32 fo) = Inr s"
    "res_bind (st_load idx (take (length key - 7) key @ ''.biases'')) (as_f32 fo) = Inr b"
    using assms(1) by (auto simp: load_three_def res_bind_Inr_iff)
  have "ba_source fo idx n_v key = Inr ?rows"
    unfolding ba_source_def Let_def l res_bind_simps reshape_rows_ok [OF assms(2,3)] reshape_rows_ok [OF assms(2,4)] reshape_rows_ok [OF assms(2,5)] ..
  moreover have "row_fits (words * 8) ?g x" if x: "x \<in> set ?rows" for x
  proof -
    obtain q sb bb where "x = (map ucast (mlx_q_bytes q), sb, bb)" "q \<in> set (rows_of n_v words w)"
      "sb \<in> set (rows_of n_v ?g s)" "bb \<in> set (rows_of n_v ?g b)"
      using x zip3 by fastforce
    then show ?thesis using rows_of_props(2) [OF assms(3)] rows_of_props(2) [OF assms(4)] rows_of_props(2) [OF assms(5)]
      by (simp add: row_fits_def)
  qed
  moreover have "length ?rows = n_v" by (simp add: rows_of_props(1))
  ultimately show ?thesis by blast
qed

definition demo_ba :: st_index where
  "demo_ba = \<lparr>st_t =
     [(''b.weight'', \<lparr>st_path = ''f'', st_off = 0, st_size = 64, st_dtype = ''U32'', st_shape = [2, 8]\<rparr>),
      (''b.scales'', \<lparr>st_path = ''f'', st_off = 0, st_size = 4, st_dtype = ''BF16'', st_shape = [2, 1]\<rparr>),
      (''b.biases'', \<lparr>st_path = ''f'', st_off = 4, st_size = 4, st_dtype = ''BF16'', st_shape = [2, 1]\<rparr>)],
     st_files = [(''f'', map word_of_nat [0..<64])]\<rparr>"

lemma demo_ba_loads:
  "(case load_three demo_floats demo_ba ''b.weight'' ''b'' of Inl e \<Rightarrow> False
    | Inr (w, s, b) \<Rightarrow> length w = 16 \<and> length s = 2 \<and> length b = 2)"
  by code_simp

theorem load_ba_interleaves_witness:
  "\<exists>rb rows. ba_source demo_floats demo_ba 2 ''b.weight'' = Inr rb \<and>
     load_ba demo_floats (\<lambda>r. ([], [], [])) demo_ba ''b.weight'' ''b.weight'' 1 2 = Inr (rows, 64) \<and> length rows = 4 \<and>
     rows ! 0 = rb ! 0 \<and> rows ! 1 = rb ! 1 \<and> rows ! 2 = rb ! 0 \<and> rows ! 3 = rb ! 1"
proof -
  obtain w s b where l: "load_three demo_floats demo_ba ''b.weight'' ''b'' = Inr (w, s, b)" "length w = 16" "length s = 2" "length b = 2"
    using demo_ba_loads by (auto split: sum.splits)
  obtain rb where rb: "ba_source demo_floats demo_ba 2 ''b.weight'' = Inr rb" "length rb = 2" "\<forall>x\<in>set rb. row_fits 64 1 x"
    using ba_source_ok [of demo_floats demo_ba "''b.weight''" w s b 2 8] l by auto
  obtain rows where r: "load_ba demo_floats (\<lambda>r. ([], [], [])) demo_ba ''b.weight'' ''b.weight'' 1 2 = Inr (rows, 64)" "length rows = 2 * 2"
    "\<forall>j<2. rows ! (4 * (j div 2) + j mod 2) = rb ! j \<and> rows ! (4 * (j div 2) + 2 + j mod 2) = rb ! j"
    using load_ba_interleaves [OF _ _ rb(1) rb(1) rb(2) rb(2), of 1 64 "\<lambda>r. ([], [], [])"] rb(3) by auto
  show ?thesis using rb(1) r(1,2) r(3) [rule_format, of 0] r(3) [rule_format, of 1] by (simp add: numeral_eq_Suc)
qed

definition demo_table :: "(string \<times> string \<times> src) list" where
  "demo_table = [(''output_norm.weight'', ''f32raw'', One ''norm.weight''), (''output.weight'', ''q41'', One ''w.weight'')]"

lemma demo_r3_regs: "r3_regs demo_idx 2 demo_table = Inr [(''output_norm.weight'', 0, [1], 4), (''output.weight'', 3, [64, 1], 40)]"
  by code_simp

lemma demo_r3_norm: "r3_bytes demo_floats (\<lambda>x. x) (\<lambda>r. ([], [], [])) demo_idx 1 2 (''output_norm.weight'', ''f32raw'', One ''norm.weight'') = Inr [1, 2, 3, 4]"
  using demo_shapes(2) demo_norm demo_norm_bytes
  by (auto simp: r3_bytes_def r3_pieces_def entry_of_def as_f32_def plain_bytes_def f32_raw_def simp del: le_bytes.simps)

lemma demo_r3_quant: "\<exists>b. r3_bytes demo_floats (\<lambda>x. x) (\<lambda>r. ([], [], [])) demo_idx 1 2 (''output.weight'', ''q41'', One ''w.weight'') = Inr b"
proof -
  obtain w where w: "length w = 8" "load_three demo_floats demo_idx ''w.weight'' ''w'' = Inr (w, [0x3C010000], [0x3F800000])"
    using demo_three by blast
  have "chunk_ok (8 * 8) (map mlx_q_bytes (rows_of 1 8 w)) (rows_of 1 (8 * 8 div 64) [0x3C010000]) (rows_of 1 (8 * 8 div 64) [0x3F800000])"
    by (rule chunk_ok_rows) (use w in \<open>simp_all add: half_range_def is_nan_def\<close>)
  from pack_rows_ok [OF this, of demo_floats no_counts]
  have "\<exists>r. quant_bytes demo_floats ''q41'' 1 no_counts (w, [0x3C010000], [0x3F800000]) = Inr r"
    using w(1) by (auto simp: quant_bytes_def reshape_rows_def Let_def)
  then show ?thesis using demo_shapes(1) w(2) by (auto simp: r3_bytes_def r3_pieces_def entry_of_def word_rows_def)
qed

theorem r3_places_tensors_witness:
  "\<exists>file ds off. r3_write demo_floats (\<lambda>x. x) (\<lambda>r. ([], [], [])) demo_idx 1 2 [[7]] demo_table
      = Inr ([(''output_norm.weight'', 0, [1], 4), (''output.weight'', 3, [64, 1], 40)], file, ds) \<and>
     take 4 (drop (ds + off) file) = [1, 2, 3, 4]"
proof -
  let ?regs = "[(''output_norm.weight'', 0, [1], 4), (''output.weight'', 3, [64, 1], 40)] :: (string \<times> nat \<times> nat list \<times> nat) list"
  have fits: "\<forall>r\<in>set (layout_from 0 ?regs). rec_fits r" "length ?regs < 256 ^ 8" "length [[7 :: u8]] < 256 ^ 8"
    by (simp_all add: rec_fits_def str_fits_short pad_len_eq)
  have ok: "\<forall>t\<in>set demo_table. shape_assumed demo_idx 2 (fst (snd t)) (snd (snd t)) \<and>
      (\<exists>b. r3_bytes demo_floats (\<lambda>x. x) (\<lambda>r. ([], [], [])) demo_idx 1 2 t = Inr b)"
    using demo_r3_norm demo_r3_quant by (auto simp: demo_table_def shape_assumed_def split: sum.splits)
  have dist: "distinct (map fst demo_table)" by (simp add: demo_table_def)
  obtain bytes ds where run: "r3_write demo_floats (\<lambda>x. x) (\<lambda>r. ([], [], [])) demo_idx 1 2 [[7]] demo_table = Inr (?regs, bytes, ds)"
    "\<forall>i<length demo_table. \<exists>off b. r3_bytes demo_floats (\<lambda>x. x) (\<lambda>r. ([], [], [])) demo_idx 1 2 (demo_table ! i) = Inr b \<and>
       take (snd (snd (snd (?regs ! i)))) (drop (ds + off) bytes) = b"
    using r3_places_tensors [OF dist demo_r3_regs fits(3,2) ok fits(1)] by blast
  have at0: "demo_table ! 0 = (''output_norm.weight'', ''f32raw'', One ''norm.weight'')" "0 < length demo_table" by (simp_all add: demo_table_def)
  obtain off where "take 4 (drop (ds + off) bytes) = [1, 2, 3, 4]"
    using run(2) [rule_format, OF at0(2)] unfolding at0(1) demo_r3_norm by auto
  then show ?thesis using run(1) by blast
qed

end
