(* ===== verification/Lora_Gguf.thy ===== *)
theory Lora_Gguf
  imports Lora Repack_R3
begin

text \<open>
  \<open>windows/tools/lora_mlx_to_gguf.py\<close>: the adapter of \<open>Lora\<close> as a GGUF adapter for the other runtime. The tensors
  keep their mat_values; only the two gate projections, which the runtime's base merges into one interleaved matrix
  (\<open>Repack_R3\<close>), are merged into one block-diagonal pair. The adapter file is the tensor index of \<open>Repack_Gguf\<close>;
  the filter \<open>only\<close>, numpy's float operations and the tensors the GGUF reader finds in two files are arguments. A
  \<open>$\<close> of the patterns also matches before a final line break, which no tensor name has; matrices are two-dimensional.
\<close>

section \<open>Names\<close>

datatype target = ToName string | ByLayerType | SkipIt

definition FAMILIES :: "(string \<times> target) list" where
  "FAMILIES =
     [(''linear_attn.in_proj_qkv'', ToName ''attn_qkv.weight''),
      (''linear_attn.in_proj_z'', ToName ''attn_gate.weight''),
      (''linear_attn.out_proj'', ToName ''ssm_out.weight''),
      (''self_attn.q_proj'', ToName ''attn_q.weight''),
      (''self_attn.k_proj'', ToName ''attn_k.weight''),
      (''self_attn.v_proj'', ToName ''attn_v.weight''),
      (''self_attn.o_proj'', ToName ''attn_output.weight''),
      (''mlp.shared_expert.gate_proj'', ToName ''ffn_gate_shexp.weight''),
      (''mlp.shared_expert.up_proj'', ToName ''ffn_up_shexp.weight''),
      (''mlp.shared_expert.down_proj'', ToName ''ffn_down_shexp.weight'')]"

definition FAMILIES_8B :: "(string \<times> target) list" where
  "FAMILIES_8B =
     [(''attention.q_proj'', ToName ''attn_q.weight''),
      (''attention.k_proj'', ToName ''attn_k.weight''),
      (''attention.v_proj'', ToName ''attn_v.weight''),
      (''attention.o_proj'', ToName ''attn_output.weight''),
      (''attention.dense'', ToName ''attn_output.weight''),
      (''attention.f_proj'', ToName ''ssm_f_a.weight''),
      (''attention.b_proj'', ToName ''ssm_beta.weight''),
      (''attention.q_a_proj'', ToName ''attn_q_a.weight''),
      (''attention.q_b_proj'', ToName ''attn_q_b.weight''),
      (''attention.g_proj'', ByLayerType),
      (''attention.kv_b_proj'', SkipIt),
      (''mlp.gate_proj'', ToName ''ffn_gate.weight''),
      (''mlp.up_proj'', ToName ''ffn_up.weight''),
      (''mlp.down_proj'', ToName ''ffn_down.weight'')]"

text \<open>A pattern \<open>^<prefix>(\d+)\.<rest>$\<close>: the digits and the rest.\<close>

definition layer_parts :: "string \<Rightarrow> string \<Rightarrow> (string \<times> string) option" where
  "layer_parts pre base =
     (if \<not> starts_with base pre then None
      else let s = drop (length pre) base; ds = takeWhile is_digit s
           in case dropWhile is_digit s of c # rest \<Rightarrow> if ds \<noteq> [] \<and> c = CHR ''.'' then Some (ds, rest) else None | [] \<Rightarrow> None)"

definition layer_pre :: "bool \<Rightarrow> string" where
  "layer_pre is8 = (if is8 then ''model.layers.'' else ''language_model.model.layers.'')"

definition families :: "bool \<Rightarrow> (string \<times> target) list" where
  "families is8 = (if is8 then FAMILIES_8B else FAMILIES)"

text \<open>The first pattern that matches, with the layer number as it is written.\<close>

definition rename_rule :: "bool \<Rightarrow> string \<Rightarrow> (string \<times> target) option" where
  "rename_rule is8 base =
     (case layer_parts (layer_pre is8) base of
        None \<Rightarrow> None
      | Some (ds, rest) \<Rightarrow> map_option (\<lambda>t. (ds, t)) (map_of (families is8) rest))"

definition ba_match :: "string \<Rightarrow> (nat \<times> ba) option" where
  "ba_match base =
     (case layer_parts ''language_model.model.layers.'' base of
        None \<Rightarrow> None
      | Some (ds, rest) \<Rightarrow>
          if rest = ''linear_attn.in_proj_a'' then Some (parse_nat ds, Ta)
          else if rest = ''linear_attn.in_proj_b'' then Some (parse_nat ds, Tb) else None)"

definition lora_base :: "string \<Rightarrow> string" where
  "lora_base name = (if ends_with ''.lora_A'' name \<or> ends_with ''.lora_B'' name then take (length name - 7) name else name)"

definition blk_name :: "string \<Rightarrow> string \<Rightarrow> string" where
  "blk_name ds s = ''blk.'' @ ds @ ''.'' @ s"

definition dest_name :: "string \<Rightarrow> target \<Rightarrow> string option" where
  "dest_name ds t =
     (case t of
        ToName s \<Rightarrow> Some (blk_name ds s)
      | ByLayerType \<Rightarrow> (let il = parse_nat ds in Some (blk_name (show_nat il) (if (il + 1) mod 4 = 0 then ''attn_gate.weight'' else ''ssm_g_a.weight'')))
      | SkipIt \<Rightarrow> None)"

text \<open>
  The loop over the file's tensors: what goes where, and what is skipped. A half is the name of the source tensor.
\<close>

record lora_plan =
  lp_simple :: "(string \<times> string halves) list"
  lp_ba :: "((nat \<times> ba) \<times> string halves) list"
  lp_skipped :: "string list"

definition no_plan :: lora_plan where
  "no_plan = \<lparr>lp_simple = [], lp_ba = [], lp_skipped = []\<rparr>"

definition set_half :: "string \<Rightarrow> 'k \<Rightarrow> ('k \<times> string halves) list \<Rightarrow> ('k \<times> string halves) list" where
  "set_half name k d =
     (let (a, b) = (case map_of d k of None \<Rightarrow> (None, None) | Some h \<Rightarrow> h)
      in AList.update k (if ends_with ''.lora_A'' name then (Some name, b) else (a, Some name)) d)"

definition plan_one :: "(string \<Rightarrow> bool) option \<Rightarrow> bool \<Rightarrow> string \<Rightarrow> lora_plan \<Rightarrow> lora_plan res" where
  "plan_one only is8 name p =
     (let base = lora_base name in
      if (case only of None \<Rightarrow> False | Some f \<Rightarrow> \<not> f base) then Inr (p\<lparr>lp_skipped := lp_skipped p @ [base]\<rparr>)
      else case (if is8 then None else ba_match base) of
        Some k \<Rightarrow> Inr (p\<lparr>lp_ba := set_half name k (lp_ba p)\<rparr>)
      | None \<Rightarrow>
          (case rename_rule is8 base of
             Some (ds, t) \<Rightarrow>
               (case dest_name ds t of
                  None \<Rightarrow> Inr (p\<lparr>lp_skipped := lp_skipped p @ [base @ '' [3D split tensor unimplemented]'']\<rparr>)
                | Some dst \<Rightarrow> Inr (p\<lparr>lp_simple := set_half name dst (lp_simple p)\<rparr>))
           | None \<Rightarrow>
               if \<not> occurs ''pregate'' base \<and> \<not> occurs ''mlp.gate'' base then Inl SystemExit else Inr p))"

fun plan_lora :: "(string \<Rightarrow> bool) option \<Rightarrow> bool \<Rightarrow> string list \<Rightarrow> lora_plan \<Rightarrow> lora_plan res" where
  "plan_lora only is8 [] p = Inr p"
| "plan_lora only is8 (n # ns) p = res_bind (plan_one only is8 n p) (plan_lora only is8 ns)"

section \<open>The tensors\<close>

record mat =
  mt_rows :: nat
  mt_cols :: nat
  mt_data :: arr

definition load_mat :: "st_index \<Rightarrow> string option \<Rightarrow> mat res" where
  "load_mat idx name =
     (case name of
        None \<Rightarrow> Inl KeyError
      | Some n \<Rightarrow>
          res_bind (entry_of idx n) (\<lambda>e. res_bind (st_load idx n) (\<lambda>a.
            case st_shape e of [r, c] \<Rightarrow> Inr \<lparr>mt_rows = r, mt_cols = c, mt_data = a\<rparr> | _ \<Rightarrow> Inl IndexError)))"

text \<open>\<open>np.ascontiguousarray(_, np.float16)\<close> of a float array; LoRA tensors are never integers.\<close>

definition as_f16 :: "float_ops \<Rightarrow> arr \<Rightarrow> f16 list res" where
  "as_f16 fo a = (case a of AF16 xs \<Rightarrow> Inr xs | AF32 xs \<Rightarrow> Inr (map (to_half fo) xs) | AU32 xs \<Rightarrow> Inl TypeError)"

text \<open>\<open>np.concatenate([Ab, Aa], 0)\<close>: two dtypes promote to float32.\<close>

definition concat_rows :: "float_ops \<Rightarrow> mat \<Rightarrow> mat \<Rightarrow> mat res" where
  "concat_rows fo x y =
     (if mt_cols x \<noteq> mt_cols y then Inl ValueError
      else res_bind (case (mt_data x, mt_data y) of
             (AF16 xs, AF16 ys) \<Rightarrow> Inr (AF16 (xs @ ys))
           | (dx, dy) \<Rightarrow> res_bind (as_f32 fo dx) (\<lambda>xs. res_bind (as_f32 fo dy) (\<lambda>ys. Inr (AF32 (xs @ ys))))) (\<lambda>d.
             Inr \<lparr>mt_rows = mt_rows x + mt_rows y, mt_cols = mt_cols x, mt_data = d\<rparr>))"

text \<open>The factor 2.0 of \<open>comp\<close> as a float32.\<close>

definition COMP :: f32 where
  "COMP = 0x40000000"

text \<open>\<open>B[out_row, cols] = row * comp\<close>; a row of one value is broadcast.\<close>

definition put_cols :: "nat \<Rightarrow> nat \<Rightarrow> 'v list \<Rightarrow> 'v list \<Rightarrow> 'v list res" where
  "put_cols lo r src old =
     (if length src = r then Inr (take lo old @ src @ drop (lo + r) old)
      else if length src = 1 then Inr (take lo old @ replicate r (hd src) @ drop (lo + r) old)
      else Inl ValueError)"

fun fill_ba :: "float_ops \<Rightarrow> nat \<Rightarrow> f32 list list \<Rightarrow> f32 list list \<Rightarrow> nat \<Rightarrow> (ba \<times> nat) list \<Rightarrow> f32 list list \<Rightarrow> f32 list list res" where
  "fill_ba fo r rb ra i [] out = Inr out"
| "fill_ba fo r rb ra i ((tag, j) # ps) out =
     (let src = (case tag of Tb \<Rightarrow> rb | Ta \<Rightarrow> ra); lo = (case tag of Tb \<Rightarrow> 0 | Ta \<Rightarrow> r) in
      if \<not> (j < length src \<and> i < length out) then Inl IndexError
      else res_bind (put_cols lo r (map (\<lambda>v. fmul fo v COMP) (src ! j)) (out ! i)) (\<lambda>row.
        fill_ba fo r rb ra (Suc i) ps (out[i := row])))"

definition mat_rows :: "mat \<Rightarrow> 'v list \<Rightarrow> 'v list list" where
  "mat_rows m xs = rows_of (mt_rows m) (mt_cols m) xs"

text \<open>The block-diagonal pair for \<open>ssm_ba\<close>.\<close>

definition merge_ba :: "float_ops \<Rightarrow> nat \<Rightarrow> nat \<Rightarrow> mat \<Rightarrow> mat \<Rightarrow> mat \<Rightarrow> mat \<Rightarrow> (mat \<times> mat) res" where
  "merge_ba fo n_k n_v Ab Bb Aa Ba =
     (let r = mt_rows Ab in
      res_bind (concat_rows fo Ab Aa) (\<lambda>A.
      res_bind (as_f32 fo (mt_data Bb)) (\<lambda>xb. res_bind (as_f32 fo (mt_data Ba)) (\<lambda>xa.
      res_bind (fill_ba fo r (mat_rows Bb xb) (mat_rows Ba xa) 0 (ssm_ba_perm n_k) (replicate (2 * n_v) (replicate (2 * r) 0))) (\<lambda>rows.
        Inr (A, \<lparr>mt_rows = 2 * n_v, mt_cols = 2 * r, mt_data = AF16 (map (to_half fo) (concat rows))\<rparr>))))))"

type_synonym entry = "string \<times> mat \<times> mat"

definition simple_entry :: "st_index \<Rightarrow> string \<times> string halves \<Rightarrow> entry res" where
  "simple_entry idx = (\<lambda>(mname, a, b).
     res_bind (load_mat idx a) (\<lambda>A. res_bind (load_mat idx b) (\<lambda>B.
       if mt_rows A = mt_cols B then Inr (mname, A, B) else Inl AssertionError)))"

definition ba_half :: "((nat \<times> ba) \<times> string halves) list \<Rightarrow> nat \<Rightarrow> ba \<Rightarrow> string halves res" where
  "ba_half d il t = (case map_of d (il, t) of None \<Rightarrow> Inl KeyError | Some h \<Rightarrow> Inr h)"

definition ba_entry :: "float_ops \<Rightarrow> nat \<Rightarrow> nat \<Rightarrow> st_index \<Rightarrow> ((nat \<times> ba) \<times> string halves) list \<Rightarrow> nat \<Rightarrow> entry res" where
  "ba_entry fo n_k n_v idx d il =
     res_bind (ba_half d il Tb) (\<lambda>(b_a, b_b). res_bind (ba_half d il Ta) (\<lambda>(a_a, a_b).
     res_bind (load_mat idx b_a) (\<lambda>Ab. res_bind (load_mat idx b_b) (\<lambda>Bb.
     res_bind (load_mat idx a_a) (\<lambda>Aa. res_bind (load_mat idx a_b) (\<lambda>Ba.
     res_bind (merge_ba fo n_k n_v Ab Bb Aa Ba) (\<lambda>(A, B). Inr (blk_name (show_nat il) ''ssm_ba.weight'', A, B))))))))"

definition lora_entries :: "float_ops \<Rightarrow> nat \<Rightarrow> nat \<Rightarrow> st_index \<Rightarrow> lora_plan \<Rightarrow> entry list res" where
  "lora_entries fo n_k n_v idx p =
     res_bind (res_map (simple_entry idx) (sort_key fst (lp_simple p))) (\<lambda>es.
     res_bind (res_map (ba_entry fo n_k n_v idx (lp_ba p)) (uniq (map (\<lambda>(k, h). fst k) (lp_ba p)))) (\<lambda>bs. Inr (es @ bs)))"

section \<open>Writing\<close>

definition KV_F32 :: nat where
  "KV_F32 = 6"

definition adapter_header :: "bool \<Rightarrow> string \<Rightarrow> u8 list \<Rightarrow> gguf_writer res" where
  "adapter_header is8 stem alpha =
     res_bind (gguf_kv_s ''general.architecture'' (if is8 then ''bailingmoe3'' else ''qwen3next'') writer_new) (\<lambda>w.
     res_bind (gguf_kv_s ''general.type'' ''adapter'' w) (\<lambda>w.
     res_bind (gguf_kv_s ''general.name'' (stem @ ''-lora (repack of lora_'' @ stem @ ''.safetensors)'') w) (\<lambda>w.
     res_bind (gguf_kv_s ''adapter.type'' ''lora'' w) (\<lambda>w.
     res_bind (gguf_kv_s ''adapter.name'' (''edge0-'' @ stem) w) (\<lambda>w.
       gguf_kv ''adapter.lora.alpha'' KV_F32 alpha w)))))"

text \<open>Both records and both byte strings of an entry; the dimensions are declared in reverse order.\<close>

definition entry_regs :: "entry \<Rightarrow> (string \<times> nat \<times> nat list \<times> nat) list" where
  "entry_regs = (\<lambda>(n, A, B).
     [(n @ ''.lora_a'', T_F16, [mt_cols A, mt_rows A], mt_rows A * mt_cols A * 2),
      (n @ ''.lora_b'', T_F16, [mt_cols B, mt_rows B], mt_rows B * mt_cols B * 2)])"

definition mat_bytes :: "float_ops \<Rightarrow> mat \<Rightarrow> u8 list res" where
  "mat_bytes fo m = res_bind (as_f16 fo (mt_data m)) (\<lambda>xs. Inr (concat (map (\<lambda>x. le_bytes 2 (unat x)) xs)))"

definition entry_bytes :: "float_ops \<Rightarrow> entry \<Rightarrow> u8 list list res" where
  "entry_bytes fo = (\<lambda>(n, A, B). res_bind (mat_bytes fo A) (\<lambda>a. res_bind (mat_bytes fo B) (\<lambda>b. Inr [a, b])))"

definition write_adapter :: "float_ops \<Rightarrow> gguf_writer \<Rightarrow> entry list \<Rightarrow> (u8 list \<times> nat) res" where
  "write_adapter fo w es =
     res_bind (register_all (concat (map entry_regs es)) w) (\<lambda>w.
     res_bind (gguf_finalize w) (\<lambda>(w, ds).
     res_bind (res_map (entry_bytes fo) es) (\<lambda>bs.
     res_bind (stream_all (map (\<lambda>b. [b]) (concat bs)) w) (\<lambda>w. Inr (w_file w, ds)))))"

section \<open>The gate against the base\<close>

text \<open>The tensors of the two files, with their shapes, as the reader lists them.\<close>

definition stems :: "string \<Rightarrow> (string \<times> nat list) list \<Rightarrow> (string \<times> nat list) list" where
  "stems suf ts = map (\<lambda>(n, s). (take (length n - 7) n, s)) (filter (\<lambda>(n, s). ends_with suf n) ts)"

definition same_dim :: "nat list \<Rightarrow> nat \<Rightarrow> nat list \<Rightarrow> nat \<Rightarrow> bool res" where
  "same_dim xs i ys j = res_bind (nth_dim xs i) (\<lambda>x. res_bind (nth_dim ys j) (\<lambda>y. Inr (x = y)))"

definition and_then :: "bool res \<Rightarrow> bool res \<Rightarrow> bool res" where
  "and_then x y = res_bind x (\<lambda>b. if b then y else Inr False)"

definition stem_ok :: "(string \<times> nat list) list \<Rightarrow> (string \<times> nat list) list \<Rightarrow> (string \<times> nat list) list \<Rightarrow> string \<Rightarrow> bool res" where
  "stem_ok base A B n =
     (case (map_of (rev base) n, map_of (rev A) n, map_of (rev B) n) of
        (Some b, Some a, Some bb) \<Rightarrow>
          if starts_with n ''token_embd''
          then and_then (same_dim b 0 bb 1) (and_then (same_dim b 1 a 1) (same_dim a 1 bb 0))
          else and_then (same_dim b 0 a 0) (and_then (same_dim b 1 bb 1) (same_dim a 1 bb 0))
      | _ \<Rightarrow> Inr False)"

definition verify_against_base :: "(string \<times> nat list) list option \<Rightarrow> (string \<times> nat list) list \<Rightarrow> nat res" where
  "verify_against_base base adapter =
     (case base of
        None \<Rightarrow> Inl SystemExit
      | Some bt \<Rightarrow>
          let A = stems ''.lora_a'' adapter; B = stems ''.lora_b'' adapter;
              both = filter (\<lambda>n. n \<in> set (keys_of B)) (uniq (keys_of A))
          in res_bind (res_map (stem_ok bt A B) both) (\<lambda>oks.
               if list_all id oks then Inr (length both) else Inl SystemExit))"

text \<open>
  \<open>main\<close>, after its arguments are parsed and \<open>config.json\<close> is read. \<open>tensors_of\<close> is the GGUF reader on the written
  file; the gate runs once the file is there.
\<close>

definition lora_main ::
  "float_ops \<Rightarrow> (u8 list \<Rightarrow> (string \<times> nat list) list) \<Rightarrow> (string \<Rightarrow> bool) option \<Rightarrow> string \<Rightarrow> u8 list \<Rightarrow> nat \<Rightarrow> nat \<Rightarrow>
     (string \<times> nat list) list option \<Rightarrow> st_index \<Rightarrow> (u8 list \<times> nat) res" where
  "lora_main fo tensors_of only stem alpha n_k n_v base idx =
     (let is8 = occurs ''8b'' stem in
      res_bind (plan_lora only is8 (keys_of (st_t idx)) no_plan) (\<lambda>p.
      res_bind (lora_entries fo n_k n_v idx p) (\<lambda>es.
      res_bind (adapter_header is8 stem alpha) (\<lambda>w.
      res_bind (write_adapter fo w es) (\<lambda>(out, ds).
      res_bind (verify_against_base base (tensors_of out)) (\<lambda>pairs. Inr (out, pairs)))))))"

section \<open>The merged pair adds the same deltas\<close>

text \<open>A matrix of halves of the given shape, and its rows as numbers.\<close>

definition halves_mat :: "nat \<Rightarrow> nat \<Rightarrow> f16 list \<Rightarrow> mat" where
  "halves_mat R C hs = \<lparr>mt_rows = R, mt_cols = C, mt_data = AF16 hs\<rparr>"

definition mat_values :: "(f16 \<Rightarrow> 'a) \<Rightarrow> nat \<Rightarrow> nat \<Rightarrow> f16 list \<Rightarrow> 'a list list" where
  "mat_values val R C hs = rows_of R C (map val hs)"

lemma rows_of_Suc: "length x = n \<Longrightarrow> rows_of (Suc R) n (x @ xs) = x # rows_of R n xs"
  by (simp add: rows_of_def map_upt_Suc del: upt_Suc)

lemma rows_of_concat: "\<forall>x \<in> set xs. length x = n \<Longrightarrow> rows_of (length xs) n (concat xs) = xs"
proof (induction xs)
  case (Cons x xs)
  then show ?case using rows_of_Suc [of x n "length xs" "concat xs"] by simp
qed (simp add: rows_of_def)

lemma rows_of_append: "length xs = R * n \<Longrightarrow> rows_of (R + R') n (xs @ ys) = rows_of R n xs @ rows_of R' n ys"
proof (induction R arbitrary: xs)
  case (Suc R)
  have "xs = take n xs @ drop n xs" by simp
  moreover have "rows_of (Suc (R + R')) n (take n xs @ drop n xs @ ys) = take n xs # rows_of (R + R') n (drop n xs @ ys)"
    by (rule rows_of_Suc) (use Suc.prems in simp)
  moreover have "rows_of (Suc R) n (take n xs @ drop n xs) = take n xs # rows_of R n (drop n xs)"
    by (rule rows_of_Suc) (use Suc.prems in simp)
  moreover have "rows_of (R + R') n (drop n xs @ ys) = rows_of R n (drop n xs) @ rows_of R' n ys"
    by (rule Suc.IH) (use Suc.prems in simp)
  ultimately show ?case by (metis add_Suc append_Cons append_assoc)
qed (simp add: rows_of_def)

lemma rows_of_map: "rows_of R n (map f xs) = map (map f) (rows_of R n xs)"
  by (simp add: rows_of_def take_map drop_map)

lemma rows_of_lengths:
  assumes "length xs = R * n"
  shows "length (rows_of R n xs) = R" "\<forall>x \<in> set (rows_of R n xs). length x = n"
proof -
  have "n \<le> R * n - r * n" if "r < R" for r
  proof -
    have "r * n + n \<le> R * n" using mult_le_mono1 [of "Suc r" R n] that by simp
    then show ?thesis by arith
  qed
  then show "length (rows_of R n xs) = R" "\<forall>x \<in> set (rows_of R n xs). length x = n" using assms by (auto simp: rows_of_def)
qed

definition twice :: "float_ops \<Rightarrow> f16 \<Rightarrow> f32" where
  "twice fo h = fmul fo (of_half fo h) COMP"

text \<open>A merged row: the doubled source row in the columns of its path, zeros in the other's.\<close>

definition merged_ba_row :: "nat \<Rightarrow> 'v::zero list list \<Rightarrow> 'v list list \<Rightarrow> ba \<times> nat \<Rightarrow> 'v list" where
  "merged_ba_row r rb ra = (\<lambda>(tag, j). case tag of Tb \<Rightarrow> rb ! j @ replicate r 0 | Ta \<Rightarrow> replicate r 0 @ ra ! j)"

lemma fill_ba_ok:
  assumes "\<forall>x \<in> set rb \<union> set ra. length x = r"
  shows "(\<forall>(tag, j) \<in> set ps. j < length (case tag of Tb \<Rightarrow> rb | Ta \<Rightarrow> ra)) \<Longrightarrow>
    fill_ba fo r rb ra (length done') ps (done' @ replicate (length ps) (replicate (2 * r) 0)) =
      Inr (done' @ map (merged_ba_row r (map (map (\<lambda>v. fmul fo v COMP)) rb) (map (map (\<lambda>v. fmul fo v COMP)) ra)) ps)"
proof (induction ps arbitrary: done')
  case (Cons p ps)
  obtain tag j where p: "p = (tag, j)" by (cases p)
  let ?m = "merged_ba_row r (map (map (\<lambda>v. fmul fo v COMP)) rb) (map (map (\<lambda>v. fmul fo v COMP)) ra)"
  have j: "j < length (case tag of Tb \<Rightarrow> rb | Ta \<Rightarrow> ra)" using Cons.prems p by simp
  then have len: "length ((case tag of Tb \<Rightarrow> rb | Ta \<Rightarrow> ra) ! j) = r" using assms by (cases tag) simp_all
  have "put_cols (case tag of Tb \<Rightarrow> 0 | Ta \<Rightarrow> r) r (map (\<lambda>v. fmul fo v COMP) ((case tag of Tb \<Rightarrow> rb | Ta \<Rightarrow> ra) ! j)) (replicate (2 * r) 0) = Inr (?m p)"
    using j len by (cases tag) (simp_all add: put_cols_def merged_ba_row_def p)
  then have "fill_ba fo r rb ra (length done') (p # ps) (done' @ replicate (length (p # ps)) (replicate (2 * r) 0)) =
      fill_ba fo r rb ra (length (done' @ [?m p])) ps ((done' @ [?m p]) @ replicate (length ps) (replicate (2 * r) 0))"
    using j by (simp add: p Let_def nth_append)
  also have "\<dots> = Inr ((done' @ [?m p]) @ map ?m ps)" by (rule Cons.IH) (use Cons.prems in simp)
  finally show ?case by simp
qed simp

lemma dot_append_both: "length xs = length us \<Longrightarrow> dot (xs @ ys) (us @ vs) = dot xs us + dot ys vs"
  by (simp add: dot_def)

lemma dot_zeros [simp]: "dot xs (replicate n 0) = 0"
proof (induction xs arbitrary: n)
  case (Cons x xs)
  then show ?case by (cases n) (simp_all add: dot_def)
qed (simp add: dot_def)

lemma dot_scaled: "dot xs (map (\<lambda>y. c * f y) ys) = c * dot xs (map f ys)"
  by (induction xs ys rule: list_induct2') (simp_all add: dot_def distrib_left mult_ac)

lemma merge_ba_run:
  assumes "n_v = 2 * n_k" "length ab = r * K" "length aa = r * K" "length bb = n_v * r" "length ba = n_v * r"
  shows "merge_ba fo n_k n_v (halves_mat r K ab) (halves_mat n_v r bb) (halves_mat r K aa) (halves_mat n_v r ba) =
    Inr (halves_mat (2 * r) K (ab @ aa),
         halves_mat (2 * n_v) (2 * r) (map (to_half fo) (concat (map (merged_ba_row r
           (map (map (twice fo)) (rows_of n_v r bb)) (map (map (twice fo)) (rows_of n_v r ba))) (ssm_ba_perm n_k)))))"
proof -
  let ?rb = "rows_of n_v r (map (of_half fo) bb)" and ?ra = "rows_of n_v r (map (of_half fo) ba)"
  let ?z = "replicate (2 * n_v) (replicate (2 * r) 0) :: f32 list list"
  have len: "\<forall>x \<in> set ?rb \<union> set ?ra. length x = r" "length ?rb = n_v" "length ?ra = n_v"
    using assms(4,5) rows_of_lengths [of "map (of_half fo) bb" n_v r] rows_of_lengths [of "map (of_half fo) ba" n_v r] by auto
  have "\<forall>(tag, j) \<in> set (ssm_ba_perm n_k). j < length (case tag of Tb \<Rightarrow> ?rb | Ta \<Rightarrow> ?ra)"
    using perm_rows len(2,3) assms(1) by (fastforce split: ba.splits)
  then have "fill_ba fo r ?rb ?ra 0 (ssm_ba_perm n_k) ?z =
      Inr (map (merged_ba_row r (map (map (\<lambda>v. fmul fo v COMP)) ?rb) (map (map (\<lambda>v. fmul fo v COMP)) ?ra)) (ssm_ba_perm n_k))"
    using fill_ba_ok [OF len(1), of "ssm_ba_perm n_k" fo "[]"] assms(1) by simp
  moreover have "map (map (\<lambda>v. fmul fo v COMP)) (rows_of n_v r (map (of_half fo) hs)) = map (map (twice fo)) (rows_of n_v r hs)" for hs
    by (simp add: rows_of_map twice_def comp_def)
  ultimately show ?thesis
    by (simp add: merge_ba_def halves_mat_def concat_rows_def as_f32_def mat_rows_def mult_2)
qed

text \<open>
  C29: the merged gate adapter. For float16 factors of one rank \<open>r\<close>, with twice as many value heads as key heads,
  the block-diagonal pair has rank \<open>2 * r\<close>, and at the runtime's scale \<open>alpha / (2 * r)\<close> its delta holds, at the
  interleaved place of row \<open>j\<close>, exactly row \<open>j\<close> of the delta of each source adapter at the scale \<open>alpha / r\<close> it
  was trained with: doubling \<open>B\<close> compensates the doubled rank. What is used of the floats is that doubling
  these entries is exact and that zero is zero.
\<close>

theorem lora_ba_merge_exact:
  fixes val :: "f16 \<Rightarrow> 'a::field_char_0"
  assumes "n_v = 2 * n_k" and "0 < r"
    and "length ab = r * K" "length aa = r * K" "length bb = n_v * r" "length ba = n_v * r"
    and "\<forall>h \<in> set bb \<union> set ba. val (to_half fo (twice fo h)) = 2 * val h" and "val (to_half fo 0) = 0"
  shows "\<exists>av bv. merge_ba fo n_k n_v (halves_mat r K ab) (halves_mat n_v r bb) (halves_mat r K aa) (halves_mat n_v r ba) =
      Inr (halves_mat (2 * r) K av, halves_mat (2 * n_v) (2 * r) bv) \<and>
    (\<forall>x. length x = K \<longrightarrow> (\<exists>d db da.
       lora_delta (mat_values val (2 * r) K av) (mat_values val (2 * n_v) (2 * r) bv) (alpha / of_nat (2 * r)) x = Inr d \<and>
       lora_delta (mat_values val r K ab) (mat_values val n_v r bb) (alpha / of_nat r) x = Inr db \<and>
       lora_delta (mat_values val r K aa) (mat_values val n_v r ba) (alpha / of_nat r) x = Inr da \<and>
       length d = 2 * n_v \<and> (\<forall>j < n_v. d ! (4 * (j div 2) + j mod 2) = db ! j \<and> d ! (4 * (j div 2) + 2 + j mod 2) = da ! j)))"
proof -
  let ?vb = "mat_values val n_v r bb" and ?va = "mat_values val n_v r ba"
  let ?v2 = "\<lambda>hs. map (map (\<lambda>h. 2 * val h)) (rows_of n_v r hs)"
  let ?rows = "map (merged_ba_row r (map (map (twice fo)) (rows_of n_v r bb)) (map (map (twice fo)) (rows_of n_v r ba))) (ssm_ba_perm n_k)"
  let ?bs = "map (to_half fo) (concat ?rows)"
  have inb: "h \<in> set hs" if "x \<in> set (rows_of n_v r hs)" "h \<in> set x" for x h and hs :: "f16 list"
    using that by (auto simp: rows_of_def dest: in_set_takeD in_set_dropD)
  have len: "length (rows_of n_v r bb) = n_v" "length (rows_of n_v r ba) = n_v"
    "\<forall>x \<in> set (rows_of n_v r bb). length x = r" "\<forall>x \<in> set (rows_of n_v r ba). length x = r"
    using rows_of_lengths assms(5,6) by blast+
  have ok: "j < n_v" if "(tag, j) \<in> set (ssm_ba_perm n_k)" for tag j using that perm_rows assms(1) by simp
  have vals: "mat_values val (2 * n_v) (2 * r) ?bs = map (merged_ba_row r (?v2 bb) (?v2 ba)) (ssm_ba_perm n_k)"
  proof -
    have "\<forall>x \<in> set ?rows. length x = 2 * r"
      using len ok by (auto simp: merged_ba_row_def split: ba.splits)
    then have "rows_of (length ?rows) (2 * r) (concat ?rows) = ?rows" by (rule rows_of_concat)
    moreover have "length ?rows = 2 * n_v" using assms(1) by simp
    ultimately have "rows_of (2 * n_v) (2 * r) (concat ?rows) = ?rows" by (simp only:)
    then have "mat_values val (2 * n_v) (2 * r) ?bs = map (map (\<lambda>v. val (to_half fo v))) ?rows"
      by (simp add: mat_values_def rows_of_map comp_def)
    also have "\<dots> = map (merged_ba_row r (?v2 bb) (?v2 ba)) (ssm_ba_perm n_k)"
    proof -
      have "map (\<lambda>v. val (to_half fo v)) (merged_ba_row r (map (map (twice fo)) (rows_of n_v r bb)) (map (map (twice fo)) (rows_of n_v r ba)) p)
          = merged_ba_row r (?v2 bb) (?v2 ba) p" if "p \<in> set (ssm_ba_perm n_k)" for p
      proof -
        obtain tag j where p: "p = (tag, j)" by (cases p)
        have j: "j < n_v" using ok that p by blast
        have "rows_of n_v r bb ! j \<in> set (rows_of n_v r bb)" "rows_of n_v r ba ! j \<in> set (rows_of n_v r ba)" using j len(1,2) by auto
        then have "\<forall>h \<in> set (rows_of n_v r bb ! j) \<union> set (rows_of n_v r ba ! j). val (to_half fo (twice fo h)) = 2 * val h"
          using inb assms(7) by blast
        then show ?thesis using j len(1,2) assms(8) by (cases tag) (auto simp: p merged_ba_row_def)
      qed
      then show ?thesis by simp
    qed
    finally show ?thesis .
  qed
  have "\<exists>d db da.
       lora_delta (mat_values val (2 * r) K (ab @ aa)) (mat_values val (2 * n_v) (2 * r) ?bs) (alpha / of_nat (2 * r)) x = Inr d \<and>
       lora_delta (mat_values val r K ab) ?vb (alpha / of_nat r) x = Inr db \<and> lora_delta (mat_values val r K aa) ?va (alpha / of_nat r) x = Inr da \<and>
       length d = 2 * n_v \<and> (\<forall>j < n_v. d ! (4 * (j div 2) + j mod 2) = db ! j \<and> d ! (4 * (j div 2) + 2 + j mod 2) = da ! j)"
    if x: "length x = K" for x
  proof -
    let ?hb = "map (dot x) (mat_values val r K ab)" and ?ha = "map (dot x) (mat_values val r K aa)"
    have A: "linear (mat_values val r K ab) x = Inr ?hb" "linear (mat_values val r K aa) x = Inr ?ha" "length ?hb = r" "length ?ha = r"
      "linear (mat_values val (2 * r) K (ab @ aa)) x = Inr (?hb @ ?ha)"
      using rows_of_lengths [of "map val ab" r K] rows_of_lengths [of "map val aa" r K] rows_of_append [of "map val ab" r K r "map val aa"] assms(3,4) x
      by (auto simp: linear_def mat_values_def mult_2)
    have V: "length (mat_values val n_v r hs) = n_v" "\<forall>w \<in> set (mat_values val n_v r hs). length w = r" if "length hs = n_v * r" for hs
      using rows_of_lengths [of "map val hs" n_v r] that by (simp_all add: mat_values_def)
    let ?db = "map (\<lambda>w. alpha / of_nat r * dot ?hb w) ?vb" and ?da = "map (\<lambda>w. alpha / of_nat r * dot ?ha w) ?va"
    have b: "lora_delta (mat_values val r K ab) ?vb (alpha / of_nat r) x = Inr ?db"
      and a: "lora_delta (mat_values val r K aa) ?va (alpha / of_nat r) x = Inr ?da"
      using V(2) [OF assms(5)] V(2) [OF assms(6)] A(1-4) by (simp_all add: lora_delta_def linear_def comp_def)
    let ?d = "map (\<lambda>p. alpha / of_nat (2 * r) * dot (?hb @ ?ha) (merged_ba_row r (?v2 bb) (?v2 ba) p)) (ssm_ba_perm n_k)"
    have "\<forall>w \<in> set (map (merged_ba_row r (?v2 bb) (?v2 ba)) (ssm_ba_perm n_k)). length w = 2 * r"
      using len ok by (auto simp: merged_ba_row_def split: ba.splits)
    then have d: "lora_delta (mat_values val (2 * r) K (ab @ aa)) (mat_values val (2 * n_v) (2 * r) ?bs) (alpha / of_nat (2 * r)) x = Inr ?d"
      using A(3-5) by (simp add: lora_delta_def linear_def vals comp_def)
    have half: "alpha / of_nat (2 * r) * (2 * c) = alpha / of_nat r * c" for c :: 'a using assms(2) by (simp add: field_simps)
    have row: "alpha / of_nat (2 * r) * dot (?hb @ ?ha) (merged_ba_row r (?v2 bb) (?v2 ba) (Tb, j)) = ?db ! j"
      "alpha / of_nat (2 * r) * dot (?hb @ ?ha) (merged_ba_row r (?v2 bb) (?v2 ba) (Ta, j)) = ?da ! j" if j: "j < n_v" for j
    proof -
      have l: "length (rows_of n_v r bb ! j) = r" "length (rows_of n_v r ba ! j) = r" using len j by auto
      have "dot (?hb @ ?ha) (merged_ba_row r (?v2 bb) (?v2 ba) (Tb, j)) = 2 * dot ?hb (?vb ! j)"
        using j len(1,2) l A(3) by (simp add: merged_ba_row_def dot_append_both dot_scaled mat_values_def rows_of_map)
      then show "alpha / of_nat (2 * r) * dot (?hb @ ?ha) (merged_ba_row r (?v2 bb) (?v2 ba) (Tb, j)) = ?db ! j"
        using half j V(1) [OF assms(5)] by simp
      have "dot (?hb @ ?ha) (merged_ba_row r (?v2 bb) (?v2 ba) (Ta, j)) = 2 * dot ?ha (?va ! j)"
        using j len(1,2) l A(3) by (simp add: merged_ba_row_def dot_append_both dot_scaled mat_values_def rows_of_map)
      then show "alpha / of_nat (2 * r) * dot (?hb @ ?ha) (merged_ba_row r (?v2 bb) (?v2 ba) (Ta, j)) = ?da ! j"
        using half j V(1) [OF assms(6)] by simp
    qed
    have "?d ! (4 * (j div 2) + j mod 2) = ?db ! j \<and> ?d ! (4 * (j div 2) + 2 + j mod 2) = ?da ! j" if j: "j < n_v" for j
      using perm_at [of j n_k] j assms(1) row [OF j] by (simp del: map_append)
    moreover have "length ?d = 2 * n_v" using assms(1) by simp
    ultimately show ?thesis using a b d by blast
  qed
  then show ?thesis using merge_ba_run [OF assms(1,3,4,5,6), of fo] by blast
qed

section \<open>Every tensor keeps a place of its own\<close>

text \<open>Where the plan of the 35b tier puts a tensor.\<close>

definition spot :: "string \<Rightarrow> (nat \<times> ba) option \<times> string option" where
  "spot base =
     (case ba_match base of
        Some k \<Rightarrow> (Some k, None)
      | None \<Rightarrow> (None, case rename_rule False base of None \<Rightarrow> None | Some (ds, t) \<Rightarrow> dest_name ds t))"

definition slot :: "string \<Rightarrow> string halves \<Rightarrow> string option" where
  "slot name h = (if ends_with ''.lora_A'' name then fst h else snd h)"

definition mapped :: "string \<Rightarrow> bool" where
  "mapped base \<longleftrightarrow> spot base \<noteq> (None, None)"

definition passed_over :: "string \<Rightarrow> bool" where
  "passed_over base \<longleftrightarrow> occurs ''pregate'' base \<or> occurs ''mlp.gate'' base"

text \<open>The tensor stands in its own half of its own entry.\<close>

definition placed :: "lora_plan \<Rightarrow> string \<Rightarrow> bool" where
  "placed p name \<longleftrightarrow>
     (case spot (lora_base name) of
        (Some k, _) \<Rightarrow> slot name (half (lp_ba p) k) = Some name
      | (None, Some dst) \<Rightarrow> slot name (half (lp_simple p) dst) = Some name
      | (None, None) \<Rightarrow> False)"

definition held :: "lora_plan \<Rightarrow> string \<Rightarrow> bool" where
  "held p name \<longleftrightarrow> (if mapped (lora_base name) then placed p name else passed_over (lora_base name))"

lemma held_cases:
  "held p name =
     (case spot (lora_base name) of
        (Some k, _) \<Rightarrow> slot name (half (lp_ba p) k) = Some name
      | (None, Some dst) \<Rightarrow> slot name (half (lp_simple p) dst) = Some name
      | (None, None) \<Rightarrow> occurs ''pregate'' (lora_base name) \<or> occurs ''mlp.gate'' (lora_base name))"
  by (auto simp: held_def mapped_def placed_def passed_over_def split: prod.split option.split)

definition plain_name :: "string \<Rightarrow> bool" where
  "plain_name name \<longleftrightarrow> (ends_with ''.lora_A'' name \<or> ends_with ''.lora_B'' name) \<and>
     (\<forall>ds rest. layer_parts (layer_pre False) (lora_base name) = Some (ds, rest) \<longrightarrow> show_nat (parse_nat ds) = ds)"

lemma layer_parts_Some:
  "layer_parts pre base = Some (ds, rest) \<Longrightarrow> base = pre @ ds @ ''.'' @ rest \<and> list_all is_digit ds"
proof -
  assume a: "layer_parts pre base = Some (ds, rest)"
  let ?s = "drop (length pre) base"
  have "starts_with base pre" "ds = takeWhile is_digit ?s" "dropWhile is_digit ?s = CHR ''.'' # rest"
    using a by (auto simp: layer_parts_def Let_def split: if_splits list.splits)
  moreover have "list_all is_digit (takeWhile is_digit ?s)" by (simp add: list_all_iff) (metis set_takeWhileD)
  ultimately show ?thesis using takeWhile_dropWhile_id [of is_digit ?s] by (auto simp: starts_with_iff)
qed

lemma digits_split:
  "list_all is_digit ds \<Longrightarrow> list_all is_digit ds' \<Longrightarrow> ds @ ''.'' @ s = ds' @ ''.'' @ s' \<Longrightarrow> ds = ds' \<and> s = s'"
proof (induction ds arbitrary: ds')
  case Nil
  then show ?case by (cases ds') (auto simp: is_digit_def)
next
  case (Cons d ds)
  then show ?case by (cases ds') (auto simp: is_digit_def)
qed

lemma family_inj: "map_of FAMILIES rest = Some t \<Longrightarrow> map_of FAMILIES rest' = Some t \<Longrightarrow> rest = rest'"
  by (auto simp: FAMILIES_def split: if_splits)

lemma family_named: "map_of FAMILIES rest = Some t \<Longrightarrow> \<exists>s. t = ToName s"
  by (auto simp: FAMILIES_def split: if_splits)

lemma rename_inj:
  assumes "rename_rule False b = Some (ds, t)" "dest_name ds t = Some dst"
    and "rename_rule False b' = Some (ds', t')" "dest_name ds' t' = Some dst"
  shows "b = b'"
proof -
  obtain rest rest' where r: "layer_parts (layer_pre False) b = Some (ds, rest)" "map_of FAMILIES rest = Some t"
    "layer_parts (layer_pre False) b' = Some (ds', rest')" "map_of FAMILIES rest' = Some t'"
    using assms(1,3) by (auto simp: rename_rule_def families_def split: option.splits)
  obtain s s' where s: "t = ToName s" "t' = ToName s'" using r(2,4) family_named by blast
  have "ds @ ''.'' @ s = ds' @ ''.'' @ s'" using assms(2,4) s by (auto simp: dest_name_def blk_name_def)
  then have "ds = ds' \<and> s = s'" by (rule digits_split [rotated 2]) (use layer_parts_Some r(1,3) in blast)+
  then show ?thesis using layer_parts_Some [OF r(1)] layer_parts_Some [OF r(3)] family_inj [OF r(2)] r(4) s by auto
qed

lemma ba_inj:
  assumes "ba_match b = Some k" "ba_match b' = Some k"
    and "\<forall>ds rest. layer_parts (layer_pre False) b = Some (ds, rest) \<longrightarrow> show_nat (parse_nat ds) = ds"
    and "\<forall>ds rest. layer_parts (layer_pre False) b' = Some (ds, rest) \<longrightarrow> show_nat (parse_nat ds) = ds"
  shows "b = b'"
proof -
  obtain ds rest ds' rest' where r: "layer_parts (layer_pre False) b = Some (ds, rest)" "layer_parts (layer_pre False) b' = Some (ds', rest')"
    "parse_nat ds = parse_nat ds'" "rest = rest'"
    using assms(1,2) by (auto simp: ba_match_def layer_pre_def split: option.splits if_splits)
  then have "ds = ds'" using assms(3,4) by metis
  then show ?thesis using layer_parts_Some [OF r(1)] layer_parts_Some [OF r(2)] r(4) by simp
qed

lemma spot_inj:
  assumes "plain_name n" "plain_name n'" "spot (lora_base n) = spot (lora_base n')" "spot (lora_base n) \<noteq> (None, None)"
  shows "lora_base n = lora_base n'"
  using assms ba_inj [of "lora_base n" _ "lora_base n'"] rename_inj [of "lora_base n" _ _ _ "lora_base n'"]
  by (auto simp: spot_def plain_name_def split: option.splits)

lemma base_name_inj:
  assumes "plain_name n" "plain_name n'" "lora_base n = lora_base n'" "ends_with ''.lora_A'' n = ends_with ''.lora_A'' n'"
  shows "n = n'"
  using assms by (auto simp: plain_name_def lora_base_def ends_with_iff split: if_splits)

text \<open>One step puts its tensor and disturbs no other.\<close>

lemma half_set_half:
  "half (set_half name k d) k' =
     (if k' = k then (if ends_with ''.lora_A'' name then (Some name, snd (half d k)) else (fst (half d k), Some name)) else half d k')"
  by (auto simp: set_half_def half_def split: option.splits prod.splits)

lemma plan_one_holds:
  assumes "plan_one None False n p = Inr p'" and "plain_name n"
  shows "held p' n" and "plain_name n' \<Longrightarrow> n' \<noteq> n \<Longrightarrow> held p n' \<Longrightarrow> held p' n'"
proof -
  have cases: "(\<exists>k. spot (lora_base n) = (Some k, None) \<and> p' = p\<lparr>lp_ba := set_half n k (lp_ba p)\<rparr>) \<or>
      (\<exists>dst. spot (lora_base n) = (None, Some dst) \<and> p' = p\<lparr>lp_simple := set_half n dst (lp_simple p)\<rparr>) \<or>
      (spot (lora_base n) = (None, None) \<and> (occurs ''pregate'' (lora_base n) \<or> occurs ''mlp.gate'' (lora_base n)) \<and> lp_ba p' = lp_ba p \<and> lp_simple p' = lp_simple p)"
  proof (cases "ba_match (lora_base n)")
    case None
    show ?thesis
    proof (cases "rename_rule False (lora_base n)")
      case (Some x)
      obtain ds t where x: "x = (ds, t)" by (cases x)
      then obtain s where "t = ToName s"
        using Some family_named by (auto simp: rename_rule_def families_def split: option.splits)
      then show ?thesis using assms(1) None Some x by (auto simp: plan_one_def spot_def dest_name_def)
    qed (use assms(1) None in \<open>auto simp: plan_one_def spot_def Let_def split: if_splits\<close>)
  qed (use assms(1) in \<open>auto simp: plan_one_def spot_def\<close>)
  then show "held p' n" by (auto simp: held_cases slot_def half_set_half)
  show "held p' n'" if n': "plain_name n'" "n' \<noteq> n" "held p n'"
  proof -
    have other: "ends_with ''.lora_A'' n \<noteq> ends_with ''.lora_A'' n'" if "spot (lora_base n) = spot (lora_base n')" "spot (lora_base n) \<noteq> (None, None)"
      using spot_inj [OF assms(2) n'(1) that] base_name_inj [OF assms(2) n'(1)] n'(2) by blast
    have form: "(\<exists>k. spot (lora_base n') = (Some k, None)) \<or> (\<exists>d. spot (lora_base n') = (None, d))"
      by (simp add: spot_def split: option.split)
    consider (ba) k where "spot (lora_base n) = (Some k, None)" "p' = p\<lparr>lp_ba := set_half n k (lp_ba p)\<rparr>"
      | (simple) d where "spot (lora_base n) = (None, Some d)" "p' = p\<lparr>lp_simple := set_half n d (lp_simple p)\<rparr>"
      | (neither) "lp_ba p' = lp_ba p" "lp_simple p' = lp_simple p"
      using cases by blast
    then show ?thesis
    proof cases
      case k: ba
      show ?thesis
      proof (cases "spot (lora_base n') = (Some k, None)")
        case True
        then have "ends_with ''.lora_A'' n \<noteq> ends_with ''.lora_A'' n'" using other k(1) by simp
        then show ?thesis using True n'(3) k(2) by (auto simp: held_cases slot_def half_set_half)
      qed (use form n'(3) k(2) in \<open>auto simp: held_cases slot_def half_set_half split: option.split\<close>)
    next
      case d: simple
      show ?thesis
      proof (cases "spot (lora_base n') = (None, Some d)")
        case True
        then have "ends_with ''.lora_A'' n \<noteq> ends_with ''.lora_A'' n'" using other d(1) by simp
        then show ?thesis using True n'(3) d(2) by (auto simp: held_cases slot_def half_set_half)
      qed (use form n'(3) d(2) in \<open>auto simp: held_cases slot_def half_set_half split: option.split option.split_asm\<close>)
    next
      case neither
      moreover obtain k d where "spot (lora_base n') = (k, d)" by (cases "spot (lora_base n')")
      ultimately show ?thesis using n'(3) by (cases k; cases d) (simp_all add: held_cases)
    qed
  qed
qed

lemma plan_holds_all:
  assumes "plan_lora None False names q = Inr p" and "distinct names" and "\<forall>n \<in> set names. plain_name n"
    and "n \<in> set names \<or> plain_name n \<and> held q n"
  shows "held p n"
  using assms
proof (induction names arbitrary: q)
  case (Cons m ns)
  obtain q' where q': "plan_one None False m q = Inr q'" "plan_lora None False ns q' = Inr p"
    using Cons.prems(1) by (auto simp: res_bind_Inr_iff)
  have m: "plain_name m" using Cons.prems(3) by simp
  have "held q' m" by (rule plan_one_holds(1) [OF q'(1) m])
  moreover have "held q' n" if "plain_name n" "n \<noteq> m" "held q n" by (rule plan_one_holds(2) [OF q'(1) m that])
  ultimately show ?case using Cons.IH [OF q'(2)] Cons.prems(2,3,4) m by auto
qed simp

lemma plan_one_fails:
  "plan_one None False n q = Inl e \<longleftrightarrow> e = SystemExit \<and> \<not> mapped (lora_base n) \<and> \<not> passed_over (lora_base n)"
proof (cases "ba_match (lora_base n)")
  case None
  show ?thesis
  proof (cases "rename_rule False (lora_base n)")
    case (Some x)
    obtain ds t where x: "x = (ds, t)" by (cases x)
    then obtain s where "t = ToName s"
      using Some family_named by (auto simp: rename_rule_def families_def split: option.splits)
    then show ?thesis using None Some x by (simp add: plan_one_def spot_def dest_name_def mapped_def)
  qed (use None in \<open>auto simp: plan_one_def spot_def mapped_def passed_over_def Let_def\<close>)
qed (auto simp: plan_one_def spot_def mapped_def)

lemma plan_fails:
  "plan_lora None False names q = Inl e \<Longrightarrow>
   e = SystemExit \<and> (\<exists>n \<in> set names. \<not> mapped (lora_base n) \<and> \<not> passed_over (lora_base n))"
  by (induction names arbitrary: q) (auto simp: plan_one_fails res_bind_def split: sum.splits)

text \<open>
  C30: where each adapter tensor goes in the 35b tier with no \<open>--only\<close> filter. The names of a file are distinct;
  they are taken to end in \<open>.lora_A\<close> or \<open>.lora_B\<close> and to write their layer number without leading zeros
  (\<open>plain_name\<close>). Either the tool stops, and then some tensor's family is in no rule and its base contains neither
  \<open>pregate\<close> nor \<open>mlp.gate\<close>; or every tensor of a mapped family stands, after the loop, in its own half of its own
  entry (the renamed base weight's, or for the two gate projections the layer's merged pair), so that no two share
  a place, and every other tensor is one whose base contains one of the two substrings and is passed over. Those are
  the trained routers, but also any other unmapped family with such a name, a dense \<open>mlp.gate_proj\<close> among them.
\<close>

theorem plan_places_mapped_tensors:
  assumes "distinct names" and "\<forall>n \<in> set names. plain_name n"
  shows "case plan_lora None False names no_plan of
     Inl e \<Rightarrow> e = SystemExit \<and> (\<exists>n \<in> set names. \<not> mapped (lora_base n) \<and> \<not> passed_over (lora_base n))
   | Inr p \<Rightarrow> (\<forall>n \<in> set names. if mapped (lora_base n) then placed p n else passed_over (lora_base n))"
proof (cases "plan_lora None False names no_plan")
  case (Inl e)
  then show ?thesis using plan_fails [OF Inl] by simp
next
  case (Inr p)
  have "held p n" if "n \<in> set names" for n by (rule plan_holds_all [OF Inr assms]) (simp add: that)
  then show ?thesis using Inr by (simp add: held_def)
qed

text \<open>
  Two oddities of the rules: in the 35b tier a dense layer's \<open>mlp.gate_proj\<close> contains \<open>mlp.gate\<close> and is passed over
  in silence like a router, where any other unknown family stops the tool; in the 8b tier \<open>o_proj\<close> and \<open>dense\<close> of
  one layer share an entry.
\<close>

lemma gate_proj_passed_over:
  "plan_one None False ''language_model.model.layers.0.mlp.gate_proj.lora_A'' p = Inr p"
  "plan_one None False ''language_model.model.layers.0.mlp.up_proj.lora_A'' p = Inl SystemExit"
proof -
  have "lora_base ''language_model.model.layers.0.mlp.gate_proj.lora_A'' = ''language_model.model.layers.0.mlp.gate_proj''"
    "lora_base ''language_model.model.layers.0.mlp.up_proj.lora_A'' = ''language_model.model.layers.0.mlp.up_proj''"
    "ba_match ''language_model.model.layers.0.mlp.gate_proj'' = None" "rename_rule False ''language_model.model.layers.0.mlp.gate_proj'' = None"
    "ba_match ''language_model.model.layers.0.mlp.up_proj'' = None" "rename_rule False ''language_model.model.layers.0.mlp.up_proj'' = None"
    "occurs ''mlp.gate'' ''language_model.model.layers.0.mlp.gate_proj''"
    "\<not> occurs ''mlp.gate'' ''language_model.model.layers.0.mlp.up_proj''" "\<not> occurs ''pregate'' ''language_model.model.layers.0.mlp.up_proj''"
    by code_simp+
  then show "plan_one None False ''language_model.model.layers.0.mlp.gate_proj.lora_A'' p = Inr p"
    "plan_one None False ''language_model.model.layers.0.mlp.up_proj.lora_A'' p = Inl SystemExit"
    by (simp_all add: plan_one_def)
qed

section \<open>Witnesses\<close>

definition demo_adapter_names :: "string list" where
  "demo_adapter_names =
     [''language_model.model.layers.0.linear_attn.in_proj_a.lora_A'', ''language_model.model.layers.0.linear_attn.in_proj_b.lora_A'',
      ''language_model.model.layers.0.linear_attn.in_proj_b.lora_B'', ''language_model.model.layers.0.linear_attn.in_proj_a.lora_B'',
      ''language_model.model.layers.3.self_attn.q_proj.lora_B'', ''language_model.model.layers.3.self_attn.q_proj.lora_A'',
      ''language_model.model.layers.3.mlp.gate.lora_A'', ''language_model.model.layers.0.mlp.gate_proj.lora_A'']"

definition demo_lora_plan :: lora_plan where
  "demo_lora_plan = projr (plan_lora None False demo_adapter_names no_plan)"

lemma demo_planned: "plan_lora None False demo_adapter_names no_plan = Inr demo_lora_plan"
proof -
  have "(case plan_lora None False demo_adapter_names no_plan of Inr p \<Rightarrow> True | Inl e \<Rightarrow> False)" by code_simp
  then show ?thesis by (auto simp: demo_lora_plan_def split: sum.splits)
qed

lemma demo_plain: "plain_name n" if "n \<in> set demo_adapter_names"
proof -
  have "list_all (\<lambda>n. (ends_with ''.lora_A'' n \<or> ends_with ''.lora_B'' n) \<and>
      (case layer_parts (layer_pre False) (lora_base n) of None \<Rightarrow> True | Some (ds, rest) \<Rightarrow> show_nat (parse_nat ds) = ds)) demo_adapter_names"
    by code_simp
  then show ?thesis using that by (fastforce simp: list_all_iff plain_name_def)
qed

lemma plan_places_mapped_tensors_witness:
  "list_all (\<lambda>n. if mapped (lora_base n) then placed demo_lora_plan n else passed_over (lora_base n)) demo_adapter_names \<and>
   map fst (lp_simple demo_lora_plan) = [''blk.3.attn_q.weight''] \<and> map fst (lp_ba demo_lora_plan) = [(0, Ta), (0, Tb)] \<and>
   filter (\<lambda>n. \<not> mapped (lora_base n)) demo_adapter_names =
     [''language_model.model.layers.3.mlp.gate.lora_A'', ''language_model.model.layers.0.mlp.gate_proj.lora_A'']"
proof -
  have "distinct demo_adapter_names" by code_simp
  moreover have "map fst (lp_simple demo_lora_plan) = [''blk.3.attn_q.weight'']" "map fst (lp_ba demo_lora_plan) = [(0, Ta), (0, Tb)]"
    by code_simp+
  moreover have "filter (\<lambda>n. \<not> mapped (lora_base n)) demo_adapter_names =
     [''language_model.model.layers.3.mlp.gate.lora_A'', ''language_model.model.layers.0.mlp.gate_proj.lora_A'']"
    by code_simp
  ultimately show ?thesis
    using plan_places_mapped_tensors [of demo_adapter_names] demo_planned demo_plain by (simp add: list_all_iff)
qed

text \<open>Conversion between half and single, and doubling, for normal numbers and zero.\<close>

definition normal_floats :: float_ops where
  "normal_floats =
     \<lparr>to_half = (\<lambda>f. if f AND 0x7FFFFFFF = 0 then 0
        else ucast (drop_bit 13 ((f AND 0x7FFFFFFF) - 0x38000000)) + ucast (drop_bit 16 (f AND 0x80000000))),
      of_half = (\<lambda>h. if h AND 0x7FFF = 0 then 0
        else push_bit 13 (ucast (h AND 0x7FFF)) + 0x38000000 + push_bit 16 (ucast (h AND 0x8000))),
      of_code = (\<lambda>n. 0),
      fmul = (\<lambda>x y. if y = COMP \<and> x AND 0x7FFFFFFF \<noteq> 0 then x + 0x00800000 else 0),
      fadd = (\<lambda>x y. 0)\<rparr>"

definition half_value :: "f16 \<Rightarrow> rat" where
  "half_value h =
     (if h AND 0x7FFF = 0 then 0
      else (if h AND 0x8000 = 0 then 1 else - 1) * (1 + of_nat (unat (h AND 0x3FF)) / 1024) *
           2 ^ unat (drop_bit 10 (h AND 0x7C00)) / 32768)"

lemma lora_ba_merge_exact_witness:
  "\<exists>av bv. merge_ba normal_floats 1 2 (halves_mat 1 2 [0x3C00, 0x4000]) (halves_mat 2 1 [0x3C00, 0xC000])
        (halves_mat 1 2 [0xBC00, 0x3E00]) (halves_mat 2 1 [0x3E00, 0x3C00]) = Inr (halves_mat (2 * 1) 2 av, halves_mat (2 * 2) (2 * 1) bv) \<and>
    (\<forall>x. length x = 2 \<longrightarrow> (\<exists>d db da.
       lora_delta (mat_values half_value (2 * 1) 2 av) (mat_values half_value (2 * 2) (2 * 1) bv) (32 / of_nat (2 * 1)) x = Inr d \<and>
       lora_delta (mat_values half_value 1 2 [0x3C00, 0x4000]) (mat_values half_value 2 1 [0x3C00, 0xC000]) (32 / of_nat 1) x = Inr db \<and>
       lora_delta (mat_values half_value 1 2 [0xBC00, 0x3E00]) (mat_values half_value 2 1 [0x3E00, 0x3C00]) (32 / of_nat 1) x = Inr da \<and>
       length d = 2 * 2 \<and> (\<forall>j < 2. d ! (4 * (j div 2) + j mod 2) = db ! j \<and> d ! (4 * (j div 2) + 2 + j mod 2) = da ! j)))"
proof (rule lora_ba_merge_exact)
  have "list_all (\<lambda>h. half_value (to_half normal_floats (twice normal_floats h)) = 2 * half_value h) [0x3C00, 0xC000, 0x3E00]"
    "half_value (to_half normal_floats 0) = 0"
    by code_simp+
  then show "\<forall>h \<in> set [0x3C00, 0xC000] \<union> set [0x3E00, 0x3C00]. half_value (to_half normal_floats (twice normal_floats h)) = 2 * half_value h"
    "half_value (to_half normal_floats 0) = 0"
    by (auto simp: list_all_iff)
qed simp_all

end
