(* ===== verification/Seq_Layers.thy ===== *)
theory Seq_Layers
  imports Consumers
begin

text \<open>
  Layers that read a sequence of positions and keep a cache. The engine feeds a prompt in chunks
  (\<open>engine/base.py\<close>) and then one token at a time, so the layers have to give the same rows however the
  sequence is cut. The contract \<open>chunked\<close> states this for one call, and its lemma lifts it to any list of
  chunks. The laws of the array kernels that the layers of \<open>backends/mlx/_impl\<close> use (a causal
  convolution without padding, the delta-rule recurrence, causal attention and the KV cache) are stated
  here, with their consequences on a sequence that is cut in two.
\<close>

section \<open>Rows and chunks\<close>

type_synonym row = "real list"
type_synonym toks = "real list list list"

text \<open>The chunks of a prefill, in order; each call sees the cache that the previous one left.\<close>

fun run_chunks :: "('x list \<Rightarrow> 'c \<Rightarrow> 'y list \<times> 'c) \<Rightarrow> 'x list list \<Rightarrow> 'c \<Rightarrow> 'y list \<times> 'c" where
  "run_chunks call [] c = ([], c)"
| "run_chunks call (xs # css) c =
     (let (hs, c) = call xs c; (later, c) = run_chunks call css c in (hs @ later, c))"

section \<open>The contract of a cached layer\<close>

text \<open>
  \<open>ok\<close> is what a cache has to satisfy (and the laws of the layer's kernels), \<open>same\<close> is equality of
  caches up to what the layer can observe.
\<close>

locale chunked =
  fixes call :: "'x list \<Rightarrow> 'c \<Rightarrow> 'y list \<times> 'c" and ok :: "'c \<Rightarrow> bool" and same :: "'c \<Rightarrow> 'c \<Rightarrow> bool"
  assumes ok_call: "ok c \<Longrightarrow> ok (snd (call xs c))"
    and rows_call: "ok c \<Longrightarrow> length (fst (call xs c)) = length xs"
    and split_rows: "ok c \<Longrightarrow> fst (call (xs @ ys) c) = fst (call xs c) @ fst (call ys (snd (call xs c)))"
    and split_cache: "ok c \<Longrightarrow> same (snd (call (xs @ ys) c)) (snd (call ys (snd (call xs c))))"
    and same_rows: "ok c \<Longrightarrow> ok d \<Longrightarrow> same c d \<Longrightarrow> fst (call xs c) = fst (call xs d)"
    and same_cache: "ok c \<Longrightarrow> ok d \<Longrightarrow> same c d \<Longrightarrow> same (snd (call xs c)) (snd (call xs d))"
    and same_refl: "same c c"
    and same_trans: "same c d \<Longrightarrow> same d b \<Longrightarrow> same c b"
begin

lemma run_chunks_same:
  "ok c \<Longrightarrow> ok d \<Longrightarrow> same c d \<Longrightarrow>
     fst (run_chunks call css c) = fst (run_chunks call css d) \<and> same (snd (run_chunks call css c)) (snd (run_chunks call css d))"
  by (induction css arbitrary: c d) (auto simp: split_beta Let_def same_rows ok_call same_cache)

lemma run_chunks_ok: "ok c \<Longrightarrow> ok (snd (run_chunks call css c)) \<and> length (fst (run_chunks call css c)) = length (concat css)"
  by (induction css arbitrary: c) (auto simp: split_beta Let_def rows_call ok_call)

lemma run_chunks_exact:
  "ok c \<Longrightarrow> css \<noteq> [] \<Longrightarrow>
     fst (run_chunks call css c) = fst (call (concat css) c) \<and> same (snd (call (concat css) c)) (snd (run_chunks call css c))"
proof (induction css arbitrary: c)
  case (Cons xs css)
  then show ?case
  proof (cases "css = []")
    case True
    then show ?thesis by (simp add: split_beta Let_def same_refl)
  next
    case False
    note IH = Cons.IH [OF ok_call [OF Cons.prems(1), of xs] False]
    have "same (snd (call (xs @ concat css) c)) (snd (run_chunks call css (snd (call xs c))))"
      using split_cache [OF Cons.prems(1)] IH same_trans by blast
    then show ?thesis using IH split_rows [OF Cons.prems(1)] by (simp add: split_beta Let_def)
  qed
qed simp

end

section \<open>Contracts from contracts\<close>

text \<open>A function of each row, in front of a layer, behind it, and the residual sum around it.\<close>

lemma add_rows_append: "length a = length c \<Longrightarrow> add_rows (a @ b) (c @ d) = add_rows a c @ add_rows b d"
  by (simp add: add_rows_def)

lemma length_add_rows [simp]: "length (add_rows a b) = min (length a) (length b)"
  by (simp add: add_rows_def)

lemma add_rows_map: "add_rows xs (map f xs) = map (\<lambda>x. map2 (+) x (f x)) xs"
  by (induction xs) (simp_all add: add_rows_def)

lemma chunked_before:
  assumes L: "chunked call ok same"
  shows "chunked (\<lambda>xs. call (map f xs)) ok same"
proof (rule chunked.intro, goal_cases)
  case (5 c d xs)
  then show ?case by (rule chunked.same_rows [OF L])
next
  case (8 c d b)
  then show ?case by (rule chunked.same_trans [OF L])
qed (simp_all add: chunked.ok_call [OF L] chunked.rows_call [OF L] chunked.split_rows [OF L]
      chunked.split_cache [OF L] chunked.same_refl [OF L] chunked.same_cache [OF L])

lemma chunked_after:
  assumes L: "chunked call ok same"
  shows "chunked (\<lambda>xs c. (map g (fst (call xs c)), snd (call xs c))) ok same"
proof (rule chunked.intro, goal_cases)
  case (5 c d xs)
  then show ?case using chunked.same_rows [OF L] by fastforce
next
  case (8 c d b)
  then show ?case by (rule chunked.same_trans [OF L])
qed (simp_all add: chunked.ok_call [OF L] chunked.rows_call [OF L] chunked.split_rows [OF L]
      chunked.split_cache [OF L] chunked.same_refl [OF L] chunked.same_cache [OF L])

lemma chunked_residual:
  assumes L: "chunked call ok same"
  shows "chunked (\<lambda>xs c. (add_rows xs (fst (call xs c)), snd (call xs c))) ok same"
proof (rule chunked.intro, goal_cases)
  case (5 c d xs)
  then show ?case using chunked.same_rows [OF L] by fastforce
next
  case (8 c d b)
  then show ?case by (rule chunked.same_trans [OF L])
qed (simp_all add: chunked.ok_call [OF L] chunked.rows_call [OF L] chunked.split_rows [OF L] add_rows_append
      chunked.split_cache [OF L] chunked.same_refl [OF L] chunked.same_cache [OF L])

lemma chunked_cong:
  assumes eq: "\<And>xs c. ok c \<Longrightarrow> call xs c = call' xs c" and L: "chunked call' ok same"
  shows "chunked call ok same"
proof (rule chunked.intro, goal_cases)
  case (5 c d xs)
  then show ?case using chunked.same_rows [OF L] eq by metis
next
  case (6 c d xs)
  then show ?case using chunked.same_cache [OF L] eq by metis
next
  case (8 c d b)
  then show ?case by (rule chunked.same_trans [OF L])
qed (simp_all add: eq chunked.ok_call [OF L] chunked.rows_call [OF L] chunked.split_rows [OF L]
      chunked.split_cache [OF L] chunked.same_refl [OF L])

text \<open>One more layer at the front of a stack; the caches are a list.\<close>

definition same_hd :: "('c \<Rightarrow> 'c \<Rightarrow> bool) \<Rightarrow> ('c list \<Rightarrow> 'c list \<Rightarrow> bool) \<Rightarrow> 'c list \<Rightarrow> 'c list \<Rightarrow> bool" where
  "same_hd same1 same2 cs ds \<longleftrightarrow> cs = ds \<or> (cs \<noteq> [] \<and> ds \<noteq> [] \<and> same1 (hd cs) (hd ds) \<and> same2 (tl cs) (tl ds))"

lemma chunked_cons:
  assumes F: "chunked f ok1 same1" and G: "chunked g ok2 same2"
  shows "chunked (\<lambda>xs cs. (fst (g (fst (f xs (hd cs))) (tl cs)), snd (f xs (hd cs)) # snd (g (fst (f xs (hd cs))) (tl cs))))
    (\<lambda>cs. cs \<noteq> [] \<and> ok1 (hd cs) \<and> ok2 (tl cs)) (same_hd same1 same2)"
proof (rule chunked.intro, goal_cases)
  case (1 c xs)
  then show ?case using chunked.ok_call [OF F] chunked.ok_call [OF G] by simp
next
  case (2 c xs)
  then show ?case using chunked.rows_call [OF F] chunked.rows_call [OF G] by simp
next
  case (3 c xs ys)
  then show ?case using chunked.split_rows [OF F] chunked.split_rows [OF G] chunked.ok_call [OF F] chunked.ok_call [OF G]
    chunked.same_rows [OF G] by simp
next
  case (4 c xs ys)
  then show ?case using chunked.split_rows [OF F] chunked.split_cache [OF F] chunked.split_cache [OF G] by (simp add: same_hd_def)
next
  case (5 c d xs)
  then show ?case using chunked.same_rows [OF F] chunked.same_rows [OF G] by (auto simp: same_hd_def)
next
  case (6 c d xs)
  then show ?case using chunked.same_rows [OF F] chunked.same_cache [OF F] chunked.same_cache [OF G]
    by (auto simp: same_hd_def)
next
  case (7 c)
  then show ?case by (simp add: same_hd_def)
next
  case (8 c d b)
  then show ?case using chunked.same_trans [OF F] chunked.same_trans [OF G] unfolding same_hd_def by metis
qed

text \<open>A stack of layers over a list of caches, one cache for each.\<close>

fun through :: "(nat \<Rightarrow> 'x list \<Rightarrow> 'c \<Rightarrow> 'x list \<times> 'c) \<Rightarrow> nat list \<Rightarrow> 'x list \<Rightarrow> 'c list \<Rightarrow> 'x list \<times> 'c list" where
  "through dec [] x cs = (x, [])"
| "through dec (li # lis) x cs =
     (fst (through dec lis (fst (dec li x (hd cs))) (tl cs)), snd (dec li x (hd cs)) # snd (through dec lis (fst (dec li x (hd cs))) (tl cs)))"

fun stack_ok :: "(nat \<Rightarrow> 'c \<Rightarrow> bool) \<Rightarrow> nat list \<Rightarrow> 'c list \<Rightarrow> bool" where
  "stack_ok ok [] cs \<longleftrightarrow> cs = []"
| "stack_ok ok (li # lis) cs \<longleftrightarrow> cs \<noteq> [] \<and> ok li (hd cs) \<and> stack_ok ok lis (tl cs)"

fun stack_same :: "(nat \<Rightarrow> 'c \<Rightarrow> 'c \<Rightarrow> bool) \<Rightarrow> nat list \<Rightarrow> 'c list \<Rightarrow> 'c list \<Rightarrow> bool" where
  "stack_same same [] = (=)"
| "stack_same same (li # lis) = same_hd (same li) (stack_same same lis)"

lemma chunked_through:
  "(\<And>li. li \<in> set lis \<Longrightarrow> chunked (dec li) (ok li) (same li)) \<Longrightarrow> chunked (through dec lis) (stack_ok ok lis) (stack_same same lis)"
proof (induction lis)
  case Nil
  show ?case by (rule chunked.intro) auto
next
  case (Cons li lis)
  then show ?case using chunked_cons [of "dec li" "ok li" "same li" "through dec lis" "stack_ok ok lis" "stack_same same lis"]
    by simp
qed

lemma stack_ok_iff: "stack_ok ok lis cs \<longleftrightarrow> length cs = length lis \<and> (\<forall>i < length lis. ok (lis ! i) (cs ! i))"
proof (induction lis arbitrary: cs)
  case (Cons li lis)
  then show ?case by (cases cs) (auto simp: nth_Cons split: nat.splits)
qed auto

lemma stack_same_nth:
  "stack_same same lis cs ds \<Longrightarrow> (\<And>li c. same li c c) \<Longrightarrow> i < length lis \<Longrightarrow> same (lis ! i) (cs ! i) (ds ! i)"
proof (induction lis arbitrary: cs ds i)
  case (Cons li lis)
  show ?case
  proof (cases "cs = ds")
    case True
    then show ?thesis using Cons.prems(2) by simp
  next
    case False
    then obtain c cs' d ds' where "cs = c # cs'" "ds = d # ds'" "same li c d" "stack_same same lis cs' ds'"
      using Cons.prems(1) by (cases cs; cases ds) (auto simp: same_hd_def)
    then show ?thesis using Cons.IH Cons.prems(2,3) by (cases i) auto
  qed
qed simp

section \<open>Laws of the kernels\<close>

text \<open>
  \<open>nn.Conv1d\<close> with kernel size \<open>k\<close>, stride 1 and no padding: an output row for every window of \<open>k\<close>
  input rows, a function of that window.
\<close>

definition windowed :: "nat \<Rightarrow> ('x list \<Rightarrow> 'y list) \<Rightarrow> bool" where
  "windowed k conv \<longleftrightarrow> (\<exists>f. \<forall>xs. conv xs = map (\<lambda>t. f (take k (drop t xs))) [0..<Suc (length xs) - k])"

lemma windowed_length: "windowed k conv \<Longrightarrow> length (conv xs) = Suc (length xs) - k"
  by (auto simp: windowed_def)

lemma drop_rolling: "drop (length xs + u) (s @ xs @ ys) = drop u (drop (length xs) (s @ xs) @ ys)"
proof -
  have "drop (length xs) ((s @ xs) @ ys) = drop (length xs) (s @ xs) @ ys" by (simp only: drop_append) simp
  then show ?thesis by (metis add.commute append_assoc drop_drop)
qed

lemma windowed_split:
  assumes "windowed k conv" and "0 < k" and "length s = k - 1"
  shows "conv (s @ xs @ ys) = conv (s @ xs) @ conv (drop (length xs) (s @ xs) @ ys)"
proof -
  obtain f where f: "\<And>xs. conv xs = map (\<lambda>t. f (take k (drop t xs))) [0..<Suc (length xs) - k]"
    using assms(1) by (auto simp: windowed_def)
  have len: "Suc (length (s @ xs @ ys)) - k = length xs + length ys" "Suc (length (s @ xs)) - k = length xs"
    "Suc (length (drop (length xs) (s @ xs) @ ys)) - k = length ys" using assms(2,3) by auto
  have front: "take k (drop t (s @ xs @ ys)) = take k (drop t (s @ xs))" if "t < length xs" for t
    using that assms(2,3) by (cases "t \<le> length s") (auto simp: take_append drop_append)
  note behind = drop_rolling [of xs _ s ys]
  show ?thesis
    by (rule nth_equalityI) (use len in \<open>auto simp: f nth_append front behind[symmetric] not_less add.commute
      simp del: append_assoc drop_append dest!: le_Suc_ex\<close>)
qed

text \<open>A convolution over the cached rows and the new ones, with the rows to cache for the next call.\<close>

definition rolled :: "nat \<Rightarrow> ('x list \<Rightarrow> 'y list) \<Rightarrow> 'x list \<Rightarrow> 'x list \<Rightarrow> 'y list \<times> 'x list" where
  "rolled k conv s x = (conv (s @ x), drop (length (s @ x) - (k - 1)) (s @ x))"

lemma rolled_lengths:
  "windowed k conv \<Longrightarrow> 0 < k \<Longrightarrow> length s = k - 1 \<Longrightarrow> length (fst (rolled k conv s x)) = length x \<and> length (snd (rolled k conv s x)) = k - 1"
  by (auto simp: rolled_def windowed_length)

lemma rolled_split:
  assumes "windowed k conv" and "0 < k" and "length s = k - 1"
  shows "rolled k conv s (x @ y) =
    (fst (rolled k conv s x) @ fst (rolled k conv (snd (rolled k conv s x)) y), snd (rolled k conv (snd (rolled k conv s x)) y))"
proof -
  define t where "t = drop (length x) (s @ x)"
  have t: "length t = k - 1" using assms(3) by (simp add: t_def)
  have roll: "rolled k conv s' x' = (conv (s' @ x'), drop (length x') (s' @ x'))" if "length s' = k - 1" for s' x'
    using that by (simp add: rolled_def)
  have "drop (length (x @ y)) (s @ x @ y) = drop (length y) (t @ y)"
    using drop_rolling [of x "length y" s y] by (simp only: t_def length_append)
  then show ?thesis
    using windowed_split [OF assms(1,2,3), of x y]
    by (simp only: roll [OF assms(3)] fst_conv snd_conv t_def [symmetric] roll [OF t])
qed

text \<open>
  The delta-rule recurrence: one step per position, in order, over a state. \<open>gated_delta_ops\<close> and
  \<open>gated_delta_kernel\<close> are two implementations of it.
\<close>

fun scan :: "('i \<Rightarrow> 's \<Rightarrow> 'o \<times> 's) \<Rightarrow> 'i list \<Rightarrow> 's \<Rightarrow> 'o list \<times> 's" where
  "scan step [] s = ([], s)"
| "scan step (i # is') s = (let (o', s) = step i s; (os, s) = scan step is' s in (o' # os, s))"

lemma scan_append:
  "scan step (xs @ ys) s = (let (os, s) = scan step xs s; (os', s) = scan step ys s in (os @ os', s))"
  by (induction xs arbitrary: s) (auto simp: split_beta Let_def)

lemma scan_length: "length (fst (scan step xs s)) = length xs"
  by (induction xs arbitrary: s) (auto simp: split_beta Let_def)

type_synonym ('g, 's) delta = "toks \<Rightarrow> toks \<Rightarrow> toks \<Rightarrow> 'g list \<Rightarrow> row list \<Rightarrow> 's \<Rightarrow> toks \<times> 's"

definition scans :: "('g, 's) delta \<Rightarrow> bool" where
  "scans dl \<longleftrightarrow> (\<exists>step. \<forall>q k v g b s. length k = length q \<and> length v = length q \<and> length g = length q \<and> length b = length q \<longrightarrow>
     dl q k v g b s = scan step (zip q (zip k (zip v (zip g b)))) s)"

lemma scans_split:
  assumes "scans dl" and "length k = length q" "length v = length q" "length g = length q" "length b = length q"
    and "length k' = length q'" "length v' = length q'" "length g' = length q'" "length b' = length q'"
  shows "dl (q @ q') (k @ k') (v @ v') (g @ g') (b @ b') s =
    (fst (dl q k v g b s) @ fst (dl q' k' v' g' b' (snd (dl q k v g b s))), snd (dl q' k' v' g' b' (snd (dl q k v g b s))))"
  using assms unfolding scans_def by (auto simp: scan_append split_beta Let_def)

lemma scans_length:
  "scans dl \<Longrightarrow> length k = length q \<Longrightarrow> length v = length q \<Longrightarrow> length g = length q \<Longrightarrow> length b = length q \<Longrightarrow>
     length (fst (dl q k v g b s)) = length q"
  unfolding scans_def by (auto simp: scan_length)

text \<open>
  Causal attention: with the mask that \<open>create_attention_mask\<close> makes for the new positions, the query at
  each new position sees the keys and values up to its own position. The KV cache appends along the
  sequence and counts the positions it holds; \<open>view\<close> is the content a reader of it can see.
\<close>

definition causal :: "('q list \<Rightarrow> 'k list \<Rightarrow> 'v list \<Rightarrow> 'm \<Rightarrow> 'o list) \<Rightarrow> (nat \<Rightarrow> 'kv \<Rightarrow> 'm) \<Rightarrow> bool" where
  "causal sdpa mk \<longleftrightarrow> (\<exists>att. \<forall>qs ks vs c. length qs \<le> length ks \<and> length vs = length ks \<longrightarrow>
     sdpa qs ks vs (mk (length qs) c) =
       map (\<lambda>i. att (qs ! i) (take (Suc (length ks - length qs + i)) ks) (take (Suc (length ks - length qs + i)) vs)) [0..<length qs])"

definition appends :: "('kv \<Rightarrow> nat) \<Rightarrow> ('k list \<Rightarrow> 'v list \<Rightarrow> 'kv \<Rightarrow> ('k list \<times> 'v list) \<times> 'kv) \<Rightarrow> ('kv \<Rightarrow> 'k list \<times> 'v list) \<Rightarrow> bool" where
  "appends offset upd view \<longleftrightarrow> (\<forall>c. offset c = length (fst (view c)) \<and> length (snd (view c)) = length (fst (view c))) \<and>
     (\<forall>ks vs c. length vs = length ks \<longrightarrow>
        fst (upd ks vs c) = (fst (view c) @ ks, snd (view c) @ vs) \<and> view (snd (upd ks vs c)) = (fst (view c) @ ks, snd (view c) @ vs))"

lemma causal_length:
  "causal sdpa mk \<Longrightarrow> length qs \<le> length ks \<Longrightarrow> length vs = length ks \<Longrightarrow> length (sdpa qs ks vs (mk (length qs) c)) = length qs"
  by (auto simp: causal_def)

lemma causal_any:
  "causal sdpa mk \<Longrightarrow> length qs \<le> length ks \<Longrightarrow> length vs = length ks \<Longrightarrow> length qs = n \<Longrightarrow>
     sdpa qs ks vs (mk n c) = sdpa qs ks vs (mk n d)"
  by (auto simp: causal_def)

lemma causal_split:
  assumes "causal sdpa mk" and "length vs = length ks" "length qs \<le> length ks" and "length vs' = length ks'" "length qs' = length ks'"
  shows "sdpa (qs @ qs') (ks @ ks') (vs @ vs') (mk (length (qs @ qs')) c) =
    sdpa qs ks vs (mk (length qs) c1) @ sdpa qs' (ks @ ks') (vs @ vs') (mk (length qs') c2)"
proof -
  obtain att where att: "\<And>qs ks vs c. length qs \<le> length ks \<Longrightarrow> length vs = length ks \<Longrightarrow> sdpa qs ks vs (mk (length qs) c) =
       map (\<lambda>i. att (qs ! i) (take (Suc (length ks - length qs + i)) ks) (take (Suc (length ks - length qs + i)) vs)) [0..<length qs]"
    using assms(1) unfolding causal_def by blast
  have "length (qs @ qs') \<le> length (ks @ ks')" "length (vs @ vs') = length (ks @ ks')" "length qs' \<le> length (ks @ ks')" using assms by auto
  note e = att [OF this(1,2)] att [OF assms(3,2)] att [OF this(3,2)]
  show ?thesis unfolding e
    by (rule nth_equalityI) (use assms(2-) in \<open>auto simp: nth_append not_less take_append dest!: le_Suc_ex\<close>)
qed

text \<open>
  One call of a cached softmax layer: queries, keys and values are functions of a position and its row,
  \<open>prev\<close> is the content of the cache, and \<open>fin\<close> finishes a row from its input and what attention gave it.
\<close>

definition att_keys :: "(nat \<times> 'x \<Rightarrow> 'k) \<Rightarrow> (nat \<times> 'x \<Rightarrow> 'v) \<Rightarrow> 'x list \<Rightarrow> 'k list \<times> 'v list \<Rightarrow> 'k list \<times> 'v list" where
  "att_keys kf vf x prev =
     (fst prev @ map kf (enumerate (length (fst prev)) x), snd prev @ map vf (enumerate (length (fst prev)) x))"

definition att_rows ::
  "('x \<Rightarrow> 'o \<Rightarrow> 'y) \<Rightarrow> ('q list \<Rightarrow> 'k list \<Rightarrow> 'v list \<Rightarrow> 'm \<Rightarrow> 'o list) \<Rightarrow> (nat \<times> 'x \<Rightarrow> 'q) \<Rightarrow> (nat \<times> 'x \<Rightarrow> 'k) \<Rightarrow> (nat \<times> 'x \<Rightarrow> 'v) \<Rightarrow>
     'm \<Rightarrow> 'x list \<Rightarrow> 'k list \<times> 'v list \<Rightarrow> 'y list" where
  "att_rows fin sdpa qf kf vf m x prev =
     map2 fin x (sdpa (map qf (enumerate (length (fst prev)) x)) (fst (att_keys kf vf x prev)) (snd (att_keys kf vf x prev)) m)"

lemma att_keys_append: "att_keys kf vf (x @ y) prev = att_keys kf vf y (att_keys kf vf x prev)"
  by (simp add: att_keys_def enumerate_append_eq)

lemma att_rows_mask:
  assumes "causal sdpa mk" and "length (snd prev) = length (fst prev)"
  shows "att_rows fin sdpa qf kf vf (mk (length x) c) x prev = att_rows fin sdpa qf kf vf (mk (length x) d) x prev"
  unfolding att_rows_def by (rule arg_cong [where f = "map2 fin x"], rule causal_any [OF assms(1)]) (simp_all add: att_keys_def assms(2))

lemma att_rows_length:
  assumes "causal sdpa mk" and "length (snd prev) = length (fst prev)"
  shows "length (att_rows fin sdpa qf kf vf (mk (length x) c) x prev) = length x"
  using causal_length [OF assms(1), of "map qf (enumerate (length (fst prev)) x)" "fst (att_keys kf vf x prev)" "snd (att_keys kf vf x prev)" c]
  by (simp add: att_rows_def att_keys_def assms(2))

lemma att_rows_split:
  assumes "causal sdpa mk" and "length (snd prev) = length (fst prev)"
  shows "att_rows fin sdpa qf kf vf (mk (length (x @ y)) c) (x @ y) prev =
    att_rows fin sdpa qf kf vf (mk (length x) c) x prev @ att_rows fin sdpa qf kf vf (mk (length y) c) y (att_keys kf vf x prev)"
proof -
  let ?n = "length (fst prev)" and ?x = "att_keys kf vf x prev"
  have n: "length (fst ?x) = ?n + length x" "length (snd ?x) = ?n + length x" using assms(2) by (simp_all add: att_keys_def)
  have "sdpa (map qf (enumerate ?n (x @ y))) (fst (att_keys kf vf (x @ y) prev)) (snd (att_keys kf vf (x @ y) prev)) (mk (length (x @ y)) c) =
      sdpa (map qf (enumerate ?n x)) (fst ?x) (snd ?x) (mk (length x) c) @
      sdpa (map qf (enumerate (?n + length x) y)) (fst (att_keys kf vf y ?x)) (snd (att_keys kf vf y ?x)) (mk (length y) c)"
    using causal_split [OF assms(1), of "snd ?x" "fst ?x" "map qf (enumerate ?n x)" "map vf (enumerate (?n + length x) y)"
        "map kf (enumerate (?n + length x) y)" "map qf (enumerate (?n + length x) y)" c c c] n
    by (simp add: att_keys_append enumerate_append_eq att_keys_def [of kf vf y])
  moreover have "length (sdpa (map qf (enumerate ?n x)) (fst ?x) (snd ?x) (mk (length x) c)) = length x"
    using causal_length [OF assms(1), of "map qf (enumerate ?n x)" "fst ?x" "snd ?x" c] n by simp
  ultimately show ?thesis using n by (simp add: att_rows_def)
qed

end
