(* ===== verification/Streamed_Experts.thy ===== *)
theory Streamed_Experts
  imports Moe_Blocks
begin

text \<open>
  What the model around a MoE block needs of the layer that holds its experts: over the calls of a run it
  answers each routed slot from the token and the expert alone, whatever it does to its own caches. A
  streaming layer with nothing staged for it keeps this contract through every path of its call.
\<close>

section \<open>The contract\<close>

text \<open>\<open>E\<close> is the call of the layer on activations and routed experts, \<open>P\<close> an invariant of its state.\<close>

definition answers :: "('a list list \<Rightarrow> ('a, 'l) layer_call) \<Rightarrow> nat \<Rightarrow> ('l \<Rightarrow> bool) \<Rightarrow> ('a list \<Rightarrow> nat \<Rightarrow> 'a list) \<Rightarrow> bool" where
  "answers E num P out \<longleftrightarrow> (\<forall>xs inds L. P L \<and> length inds = length xs \<and> (\<forall>e \<in> set (concat inds). e < num) \<longrightarrow>
     (\<exists>L'. E xs inds L = Some (Inr (map2 out (spread xs inds) (concat inds)), L') \<and> P L'))"

lemma split_rows_spread:
  "length xs = length inds \<Longrightarrow>
     split_rows inds (map2 out (spread xs inds) (concat inds)) = map2 (\<lambda>x is. map (out x) is) xs inds"
proof (induction xs inds rule: list_induct2)
  case (Cons x xs js inds)
  have "map2 out (spread (x # xs) (js # inds)) (concat (js # inds)) = map (out x) js @ map2 out (spread xs inds) (concat inds)"
    by (simp add: spread_def zip_append1 map2_map_right zip_replicate1)
  then show ?case using Cons.IH by simp
qed simp

text \<open>A block over such a layer acts on each token by itself, given a selection made from the token.\<close>

definition block_row ::
  "('a::comm_semiring_1 list \<Rightarrow> 'a list) \<Rightarrow> ('a list \<Rightarrow> nat \<Rightarrow> 'a list) \<Rightarrow> ('a list \<Rightarrow> nat list \<times> 'a list) \<Rightarrow> 'a list \<Rightarrow> 'a list" where
  "block_row shared out sel x = map2 (+) (weighted (length x) (map (out x) (fst (sel x))) (snd (sel x))) (shared x)"

lemma moe_apply_answers:
  assumes E: "answers E num P out" and L: "P L" and sel: "\<And>x. \<forall>e \<in> set (fst (sel x)). e < num"
  shows "\<exists>L'. moe_apply shared (E xs) xs (map sel xs) L = Some (Inr (map (block_row shared out sel) xs), L') \<and> P L'"
proof -
  let ?is = "map fst (map sel xs)"
  have "length ?is = length xs" "\<forall>e \<in> set (concat ?is). e < num" using sel by auto
  then obtain L' where L': "E xs ?is L = Some (Inr (map2 out (spread xs ?is) (concat ?is)), L')" "P L'"
    using E L unfolding answers_def by blast
  have "split_rows ?is (map2 out (spread xs ?is) (concat ?is)) = map (\<lambda>x. map (out x) (fst (sel x))) xs"
    by (subst split_rows_spread) (simp_all add: map2_map_map zip_same_conv_map zip_map2)
  then have "combine_rows shared xs (map sel xs) (map2 out (spread xs ?is) (concat ?is)) = map (block_row shared out sel) xs"
    by (simp add: combine_rows_def block_row_def zip_map1 zip_map2 zip_same_conv_map comp_def)
  then show ?thesis using L' by (simp add: moe_apply_def)
qed

section \<open>A streaming layer keeps the contract\<close>

text \<open>
  Coherent caches, exact stacks where there are any, and no staged set to serve from: staging is off, or no
  prediction or history was ever staged.
\<close>

definition stacks_exact ::
  "(nat \<times> nat \<Rightarrow> bmap) \<Rightarrow> 'v kernels \<Rightarrow> nat \<Rightarrow> nat \<Rightarrow> bmap list option \<Rightarrow> (nat list \<times> bmap list) option \<Rightarrow> bmap \<Rightarrow> bool" where
  "stacks_exact f K i num full hot z \<longleftrightarrow>
     (case full of
        Some rows \<Rightarrow> rows = map (\<lambda>e. f (i, e)) [0..<num]
      | None \<Rightarrow> (case hot of None \<Rightarrow> True | Some (members, rows) \<Rightarrow> rows = map (\<lambda>e. f (i, e)) members @ [z] \<and> zero_spec K z))"

definition streams ::
  "(nat \<times> nat \<Rightarrow> bmap) \<Rightarrow> 'v kernels \<Rightarrow> (nat \<Rightarrow> bmap res) \<Rightarrow> nat \<Rightarrow> nat \<Rightarrow> bmap slayer \<Rightarrow> bool" where
  "streams f K bld i num L \<longleftrightarrow> l_idx L = i \<and> l_num L = num \<and> stage_ok f L \<and> builds_all f L bld \<and> futures_ok bld L \<and> s_interval L \<noteq> 0 \<and>
     (s_mode L \<longrightarrow> s_state L = None \<and> s_next L = None \<and> s_future L = None \<and> s_rearm L = None) \<and>
     stacks_exact f K i num (s_full L) (s_hot L) (s_zero L)"

lemma more_fields:
  assumes "layer.more M = layer.more L"
  shows "s_interval M = s_interval L" "s_mode M = s_mode L" "s_state M = s_state L" "s_next M = s_next L"
    "s_future M = s_future L" "s_rearm M = s_rearm L" "s_full M = s_full L" "s_hot M = s_hot L" "s_zero M = s_zero L"
    "s_jobs M = s_jobs L" "s_pending M = s_pending L" "s_incr M = s_incr L" "s_n M = s_n L" "s_writeback M = s_writeback L"
    "s_sync M = s_sync L" "s_rows M = s_rows L" "s_held M = s_held L" "s_table M = s_table L"
  using assms by (cases L; cases M; simp)+

lemma take_phases_more:
  "take_cached es bs st L = (bs', st', L') \<Longrightarrow> layer.more L' = layer.more L"
  "take_prefetched es bs rs L = (bs', rs', L') \<Longrightarrow> layer.more L' = layer.more L"
  "take_inflight es bs rs L = (r, L') \<Longrightarrow> layer.more L' = layer.more L"
proof -
  show "take_cached es bs st L = (bs', st', L') \<Longrightarrow> layer.more L' = layer.more L"
    by (induction es bs st L rule: take_cached.induct) (auto simp: count_hit_def split: prod.splits option.splits)
  show "take_prefetched es bs rs L = (bs', rs', L') \<Longrightarrow> layer.more L' = layer.more L"
    by (induction es bs rs L rule: take_prefetched.induct)
      (auto simp: put_shared_def touch_hot_def count_pf_hit_def split: prod.splits option.splits)
  show "take_inflight es bs rs L = (r, L') \<Longrightarrow> layer.more L' = layer.more L"
    by (induction es bs rs L rule: take_inflight.induct)
      (auto simp: put_shared_def touch_hot_def count_pf_hit_def split: option.splits sum.splits)
qed

lemma fold_more:
  "layer.more (fold loaded es L) = layer.more L" "layer.more (fold (\<lambda>(e, b). put_shared e b) ws L) = layer.more L"
proof -
  show "layer.more (fold loaded es L) = layer.more L"
    by (induction es arbitrary: L) (simp_all add: loaded_def touch_hot_def count_load_def)
  show "layer.more (fold (\<lambda>(e, b). put_shared e b) ws L) = layer.more L"
    by (induction ws arbitrary: L) (auto simp: put_shared_def split: prod.splits)
qed

text \<open>A request touches only the residency fields.\<close>

lemma get_bundles_more: "layer.more (snd (get_bundles bld L es)) = layer.more L"
  by (auto simp: get_bundles_def load_missing_def fold_more Let_def split: prod.splits sum.splits dest!: take_phases_more)

lemma fwd_exact_state: "snd (fwd_exact K fused bld xs inds M) = snd (get_bundles bld (M\<lparr>l_last_used := uniq (concat inds)\<rparr>) (uniq (concat inds)))"
  by (auto simp: fwd_exact_def Let_def split: prod.splits sum.splits)

lemma stage_ok_more:
  assumes ok: "stage_ok f M" and L: "layer_ok f L" "l_idx L = l_idx M" "l_num L = l_num M" "layer.more L = layer.more M"
  shows "stage_ok f L"
proof -
  note e = more_fields [OF L(4)] L(2,3)
  have "same_slots M L" by (simp add: same_slots_def e)
  moreover have "s_occ L = s_occ M" using L(4) by (cases L; cases M) simp
  ultimately show ?thesis
    by (intro stage_ok_frame [OF ok]) (use ok L(1) in \<open>auto simp: stage_ok_def incr_ok_def incr_active_def e split: option.splits\<close>)
qed

lemma fwd_exact_keeps:
  assumes M: "streams f K bld i num M" and lt: "\<forall>e \<in> set (concat inds). e < num"
  shows "streams f K bld i num (snd (fwd_exact K fused bld xs inds M))"
proof -
  let ?M = "M\<lparr>l_last_used := uniq (concat inds)\<rparr>"
  let ?L = "snd (get_bundles bld ?M (uniq (concat inds)))"
  have m: "stage_ok f M" "builds_all f M bld" "futures_ok bld M" "l_num M = num" "l_idx M = i" using M by (simp_all add: streams_def)
  have same: "l_idx ?L = i" "l_num ?L = num" using get_bundles_same [of bld ?M "uniq (concat inds)"] m by simp_all
  have more: "layer.more ?L = layer.more M" by (simp add: get_bundles_more)
  have "layer_ok f ?L" using exact_state_ok [OF m(1,2)] lt m(4) by (simp add: fwd_exact_state)
  then have "stage_ok f ?L" by (intro stage_ok_more [OF m(1)]) (simp_all add: same m more)
  moreover have "futures_ok bld ?L" using m(3) by (auto simp: futures_ok_def dest: get_bundles_inflight)
  moreover have "builds_all f ?L bld" using m(2) by (simp add: builds_all_def same m)
  ultimately show ?thesis using M unfolding fwd_exact_state streams_def more_fields [OF more] same by simp
qed

text \<open>Between the start of a call and its path only counters, the cache and the pins change; recording usage changes counters.\<close>

lemma streams_started:
  assumes "streams f K bld i num L" and "started indices L M" and "stage_ok f M"
  shows "streams f K bld i num M"
  using assms by (auto simp: streams_def started_def builds_all_def futures_ok_def)

lemma record_usage_shape: "\<exists>cs tk. record_usage inds M = M\<lparr>l_counts := cs, s_topk := tk\<rparr>"
proof -
  obtain cs where cs: "fold touch_hot (uniq (concat inds)) M = M\<lparr>l_counts := cs\<rparr>" using touch_fold by blast
  show ?thesis
  proof (cases "s_mode M")
    case False
    then show ?thesis by (intro exI [of _ cs] exI [of _ "s_topk M"]) (simp add: record_usage_def Let_def cs)
  qed (auto simp: record_usage_def Let_def cs)
qed

lemma streams_usage:
  assumes "streams f K bld i num M"
  shows "streams f K bld i num (record_usage inds M)"
proof -
  obtain cs tk where sh: "record_usage inds M = M\<lparr>l_counts := cs, s_topk := tk\<rparr>" using record_usage_shape by blast
  have "stage_ok f (record_usage inds M)" using record_usage_ok assms by (auto simp: streams_def)
  then show ?thesis using assms unfolding sh by (simp add: streams_def builds_all_def futures_ok_def)
qed

lemma streams_fallback:
  assumes "streams f K bld i num M"
  shows "streams f K bld i num (stat_fallback M)"
proof -
  have "stage_ok f (stat_fallback M) = stage_ok f M"
    by (simp add: stat_fallback_def stage_ok_def incr_active_def fill_ok_def job_ok_def)
  then show ?thesis using assms by (simp add: streams_def stat_fallback_def builds_all_def futures_ok_def)
qed

lemma fwd_tail_streams:
  assumes "kernels_ok K" and M: "streams f K bld i num M" and len: "length xs = length inds" and lt: "\<forall>e \<in> set (concat inds). e < num"
  shows "\<exists>L'. fwd_tail K fused bld t xs (Some inds) M = Some (Inr (moe_reference K fused (\<lambda>e. f (i, e)) xs inds), L') \<and> streams f K bld i num L'"
proof -
  have exact: "\<exists>L'. fwd_exact K fused bld xs inds N = (Inr (moe_reference K fused (\<lambda>e. f (i, e)) xs inds), L') \<and> streams f K bld i num L'"
    if N: "streams f K bld i num N" for N
    using fwd_exact_ok [OF assms(1) _ _ _ len, of f N bld fused] fwd_exact_keeps [OF N lt, of fused xs] N lt
    by (auto simp: streams_def prod_eq_iff)
  show ?thesis
  proof (cases "s_mode M \<and> int (length (concat inds)) = s_trigger M")
    case True
    then have "s_state M = None" "s_next M = None" "s_future M = None" "s_rearm M = None" using M by (auto simp: streams_def)
    then have "wait_staged bld t M = Some M" "staged_stack M = None"
      by (simp_all add: wait_staged_def drain_rearm_def promote_def staged_stack_def)
    then show ?thesis using True exact [OF streams_fallback [OF M]] by (auto simp: fwd_tail_def)
  next
    case False
    then show ?thesis using exact [OF M] by (auto simp: fwd_tail_def)
  qed
qed

lemma fwd_paths_streams:
  assumes K: "kernels_ok K" and M: "streams f K bld i num M" and len: "length xs = length inds" and lt: "\<forall>e \<in> set (concat inds). e < num"
  shows "\<exists>L'. fwd_paths K fused bld t xs (Some inds) M = Some (Inr (moe_reference K fused (\<lambda>e. f (i, e)) xs inds), L') \<and> streams f K bld i num L'"
proof -
  note tail = fwd_tail_streams [OF assms, of fused t]
  note usage = streams_usage [OF M, of inds]
  have num: "l_num M = num" "l_idx M = i" using M by (simp_all add: streams_def)
  show ?thesis
  proof (cases "s_full M")
    case (Some rows)
    then have "rows = map (\<lambda>e. f (i, e)) [0..<num]" using M by (simp add: streams_def stacks_exact_def)
    then have "fst (fwd_full K fused rows xs inds M) = Inr (moe_reference K fused (\<lambda>e. f (i, e)) xs inds)"
      using lt by (intro fwd_full_ok [OF K len]) simp_all
    then show ?thesis using Some tail usage by (cases "s_hot M") (auto simp: fwd_paths_def fwd_full_def)
  next
    case None
    show ?thesis
    proof (cases "s_hot M")
      case None
      then show ?thesis using tail \<open>s_full M = None\<close> by (simp add: fwd_paths_def)
    next
      case (Some mr)
      obtain members rows where mr: "mr = (members, rows)" by (cases mr)
      have hot: "rows = map (\<lambda>e. f (i, e)) members @ [s_zero M]" "zero_spec K (s_zero M)" using M None Some by (auto simp: streams_def stacks_exact_def mr)
      have "\<forall>e \<in> set (concat inds). bld e = Inr (f (i, e))" using M lt by (auto simp: streams_def builds_all_def)
      then have "fst (fwd_hot K fused bld members rows xs inds M) = Inr (moe_reference K fused (\<lambda>e. f (i, e)) xs inds)"
        unfolding hot(1) by (rule fwd_hot_ok [OF K hot(2) len refl])
      moreover have "snd (fwd_hot K fused bld members rows xs inds M) = record_usage inds M" by (simp add: fwd_hot_def Let_def)
      ultimately show ?thesis using tail usage None Some by (simp add: fwd_paths_def mr prod_eq_iff)
    qed
  qed
qed

text \<open>Whatever is resident, the call of the layer keeps the contract.\<close>

lemma forward_answers:
  assumes K: "kernels_ok K" and pins: "pins_ok num pins"
  shows "answers (\<lambda>xs is. forward K fused bld pins t xs (Some is)) num (streams f K bld i num) (\<lambda>x e. expert_out K fused (f (i, e)) x)"
proof -
  have "\<exists>L'. forward K fused bld pins t xs (Some inds) L = Some (Inr (moe_reference K fused (\<lambda>e. f (i, e)) xs inds), L') \<and> streams f K bld i num L'"
    if L: "streams f K bld i num L" and len: "length inds = length xs" and lt: "\<forall>e \<in> set (concat inds). e < num" for xs inds L
  proof -
    have l: "stage_ok f L" "builds_all f L bld" "pins_ok (l_num L) pins" "s_interval L \<noteq> 0" using L pins by (simp_all add: streams_def)
    obtain M where M: "started (Some inds) L M" "stage_ok f M"
      "forward K fused bld pins t xs (Some inds) L = fwd_paths K fused bld t xs (Some inds) M"
      using forward_start [OF l] by blast
    show ?thesis unfolding M(3) by (rule fwd_paths_streams [OF K streams_started [OF L M(1,2)] len [symmetric] lt])
  qed
  then show ?thesis by (simp add: answers_def moe_reference_def)
qed

end
