(* ===== verification/Bailing_Layers.thy ===== *)
theory Bailing_Layers
  imports Seq_Layers Streamed_Experts
begin

text \<open>
  The attention layers of ling and the model around them (\<open>backends/mlx/_impl/bailing_hybrid.py\<close>): the short
  convolutions, the safe-gate recurrence and \<open>BailingKDA\<close>, the interleaved rotation and \<open>BailingMLA\<close>, the layer
  schedule, the decoder layers with their dense or MoE block, and the loop of \<open>BailingModel\<close>. The layer that
  holds a block's experts is reached through its call and carries its own state through the run. One batch row; an array with a head axis is a list over positions of lists over heads (a
  transpose only renames its axes). Matrices are functions of a row, arithmetic is exact; MLX's functions and
  the caches of \<open>mlx_lm\<close> are the record \<open>bail_lib\<close>.
\<close>

record ('kv, 'm) bail_lib =
  bx_silu :: "real \<Rightarrow> real"
  bx_sigmoid :: "real \<Rightarrow> real"
  bx_exp :: "real \<Rightarrow> real"
  bx_softplus :: "real \<Rightarrow> real"
  bx_norm :: "row \<Rightarrow> real"
  bx_sqrt :: "real \<Rightarrow> real"
  bx_cos :: "real \<Rightarrow> real"
  bx_sin :: "real \<Rightarrow> real"
  bx_pow :: "real \<Rightarrow> real \<Rightarrow> real"
  bx_ops :: "(real list list, toks) delta"
  bx_kernel :: "(real list list, toks) delta option"
  bx_gpu :: bool
  bx_metal :: bool
  bx_sdpa :: "real \<Rightarrow> toks \<Rightarrow> toks \<Rightarrow> toks \<Rightarrow> 'm \<Rightarrow> toks"
  bx_mask :: "nat \<Rightarrow> 'kv option \<Rightarrow> 'm"
  bx_offset :: "'kv \<Rightarrow> nat"
  bx_update :: "toks \<Rightarrow> toks \<Rightarrow> 'kv \<Rightarrow> (toks \<times> toks) \<times> 'kv"
  bx_kv0 :: 'kv

text \<open>\<open>reshape\<close> of a row into heads.\<close>

definition heads :: "nat \<Rightarrow> nat \<Rightarrow> row \<Rightarrow> real list list" where
  "heads h d r = map (\<lambda>i. take d (drop (i * d) r)) [0..<h]"

section \<open>The linear layers: KDA\<close>

definition short_conv ::
  "('kv, 'm) bail_lib \<Rightarrow> nat \<Rightarrow> nat \<Rightarrow> (real list list \<Rightarrow> real list list) \<Rightarrow> real list list \<Rightarrow> real list list option \<Rightarrow>
     real list list \<times> real list list" where
  "short_conv F k channels conv x st =
     (let st = (case st of None \<Rightarrow> replicate (k - 1) (replicate channels 0) | Some s \<Rightarrow> s);
          conv_input = st @ x;
          out = map (map (bx_silu F)) (conv conv_input)
      in (out, if k = 1 then take 0 conv_input else drop (length conv_input - (k - 1)) conv_input))"

record kda =
  kd_heads :: nat
  kd_dim :: nat
  kd_ksize :: nat
  kd_safe :: bool
  kd_lower :: real
  kd_no_lora :: bool
  kd_q_proj :: "row \<Rightarrow> row"
  kd_k_proj :: "row \<Rightarrow> row"
  kd_v_proj :: "row \<Rightarrow> row"
  kd_q_conv :: "real list list \<Rightarrow> real list list"
  kd_k_conv :: "real list list \<Rightarrow> real list list"
  kd_v_conv :: "real list list \<Rightarrow> real list list"
  kd_f_proj :: "row \<Rightarrow> row"
  kd_f_a :: "row \<Rightarrow> row"
  kd_f_b :: "row \<Rightarrow> row"
  kd_g_proj :: "row \<Rightarrow> row"
  kd_g_a :: "row \<Rightarrow> row"
  kd_g_b :: "row \<Rightarrow> row"
  kd_b_proj :: "row \<Rightarrow> row"
  kd_A_log :: row
  kd_dt_bias :: row
  kd_o_norm :: "row \<Rightarrow> row"
  kd_o_proj :: "row \<Rightarrow> row"

definition kda_gate :: "('kv, 'm) bail_lib \<Rightarrow> bool \<Rightarrow> real \<Rightarrow> row \<Rightarrow> real list list \<Rightarrow> real list list \<Rightarrow> real list list" where
  "kda_gate F safe lower A_log dt_bias f =
     map2 (\<lambda>a fh. map (\<lambda>v. if safe then lower * bx_sigmoid F (a * v) else - a * bx_softplus F v) fh)
       (map (bx_exp F) A_log) (map2 (map2 (+)) f dt_bias)"

text \<open>The kernel path needs a head size that is a multiple of 32, a GPU and Metal.\<close>

definition kda_fn :: "('kv, 'm) bail_lib \<Rightarrow> kda \<Rightarrow> (real list list, toks) delta" where
  "kda_fn F P =
     (case bx_kernel F of
        Some kern \<Rightarrow> if kd_dim P mod 32 = 0 \<and> bx_gpu F \<and> bx_metal F then kern else bx_ops F
      | None \<Rightarrow> bx_ops F)"

definition kda_update ::
  "('kv, 'm) bail_lib \<Rightarrow> kda \<Rightarrow> toks \<Rightarrow> toks \<Rightarrow> toks \<Rightarrow> toks \<Rightarrow> real list list \<Rightarrow> toks option \<Rightarrow> toks \<times> toks" where
  "kda_update F P q k v g_log beta st =
     (let g = map (map (map (bx_exp F))) g_log;
          st = (case st of None \<Rightarrow> replicate (kd_heads P) (replicate (kd_dim P) (replicate (kd_dim P) 0)) | Some s \<Rightarrow> s)
      in kda_fn F P q k v g beta st)"

type_synonym kda_cache = "real list list option \<times> real list list option \<times> real list list option \<times> toks option"

definition l2_norm :: "('kv, 'm) bail_lib \<Rightarrow> real \<Rightarrow> row \<Rightarrow> row" where
  "l2_norm F scale r = map (\<lambda>v. scale * v / (bx_norm F r + 1 / 1000000)) r"

definition kda_call :: "('kv, 'm) bail_lib \<Rightarrow> kda \<Rightarrow> real list list \<Rightarrow> kda_cache option \<Rightarrow> real list list \<times> kda_cache option" where
  "kda_call F P x cache =
     (let h = kd_heads P; d = kd_dim P; ks = kd_ksize P;
          (q_state, k_state, v_state, ssm_state) = (case cache of None \<Rightarrow> (None, None, None, None) | Some c \<Rightarrow> c);
          (q_conv, q_state) = short_conv F ks (h * d) (kd_q_conv P) (map (kd_q_proj P) x) q_state;
          (k_conv, k_state) = short_conv F ks (h * d) (kd_k_conv P) (map (kd_k_proj P) x) k_state;
          (v_conv, v_state) = short_conv F ks (h * d) (kd_v_conv P) (map (kd_v_proj P) x) v_state;
          q = map (\<lambda>r. map (l2_norm F (1 / bx_sqrt F (real d))) (heads h d r)) q_conv;
          k = map (\<lambda>r. map (l2_norm F 1) (heads h d r)) k_conv;
          v = map (heads h d) v_conv;
          f = map (\<lambda>r. heads h d (if kd_no_lora P then kd_f_proj P r else kd_f_b P (kd_f_a P r))) x;
          gate = map (\<lambda>r. heads h d (if kd_no_lora P then kd_g_proj P r else kd_g_b P (kd_g_a P r))) x;
          g = map (kda_gate F (kd_safe P) (kd_lower P) (kd_A_log P) (heads h d (kd_dt_bias P))) f;
          beta = map (\<lambda>r. map (bx_sigmoid F) (kd_b_proj P r)) x;
          (out, ssm_state) = kda_update F P q k v g beta ssm_state;
          out = map2 (map2 (\<lambda>o' g. map2 (*) (kd_o_norm P o') (map (bx_sigmoid F) g))) out gate
      in (map (\<lambda>o'. kd_o_proj P (concat o')) out,
          map_option (\<lambda>_. (Some q_state, Some k_state, Some v_state, Some ssm_state)) cache))"

section \<open>The softmax layers: MLA\<close>

text \<open>The rotation of one vector at one position; even entries first, then the odd ones.\<close>

definition rope_freqs :: "('kv, 'm) bail_lib \<Rightarrow> real \<Rightarrow> nat \<Rightarrow> row" where
  "rope_freqs F theta d = map (\<lambda>i. 1 / bx_pow F theta (real (2 * i) / real d)) [0..<d div 2]"

definition rope_row :: "('kv, 'm) bail_lib \<Rightarrow> real \<Rightarrow> nat \<Rightarrow> row \<Rightarrow> row" where
  "rope_row F theta pos x =
     (let h = length x div 2;
          angles = map (\<lambda>f. real pos * f) (rope_freqs F theta (length x));
          emb = angles @ angles;
          xi = map (\<lambda>i. x ! (2 * i)) [0..<h] @ map (\<lambda>i. x ! (2 * i + 1)) [0..<h];
          rh = map uminus (drop h xi) @ take h xi
      in map2 (+) (map2 (*) xi (map (bx_cos F) emb)) (map2 (*) rh (map (bx_sin F) emb)))"

record mla =
  ml_heads :: nat
  ml_nope :: nat
  ml_rope :: nat
  ml_vdim :: nat
  ml_kv_rank :: nat
  ml_q_rank :: "nat option"
  ml_gate_kind :: "string option"
  ml_theta :: real
  ml_q_proj :: "row \<Rightarrow> row"
  ml_q_a :: "row \<Rightarrow> row"
  ml_q_norm :: "row \<Rightarrow> row"
  ml_q_b :: "row \<Rightarrow> row"
  ml_kv_a :: "row \<Rightarrow> row"
  ml_kv_norm :: "row \<Rightarrow> row"
  ml_kv_b :: "row \<Rightarrow> row"
  ml_g_proj :: "row \<Rightarrow> row"
  ml_dense :: "row \<Rightarrow> row"

definition mla_query :: "('kv, 'm) bail_lib \<Rightarrow> mla \<Rightarrow> nat \<times> row \<Rightarrow> real list list" where
  "mla_query F P = (\<lambda>(pos, r).
     let q = (case ml_q_rank P of None \<Rightarrow> ml_q_proj P r | Some _ \<Rightarrow> ml_q_b P (ml_q_norm P (ml_q_a P r)))
     in map (\<lambda>qh. take (ml_nope P) qh @ rope_row F (ml_theta P) pos (drop (ml_nope P) qh)) (heads (ml_heads P) (ml_nope P + ml_rope P) q))"

definition mla_key_value :: "('kv, 'm) bail_lib \<Rightarrow> mla \<Rightarrow> nat \<times> row \<Rightarrow> real list list \<times> real list list" where
  "mla_key_value F P = (\<lambda>(pos, r).
     let compressed = ml_kv_a P r;
         kv = heads (ml_heads P) (ml_nope P + ml_vdim P) (ml_kv_b P (ml_kv_norm P (take (ml_kv_rank P) compressed)));
         k_pe = rope_row F (ml_theta P) pos (drop (ml_kv_rank P) compressed)
     in (map (\<lambda>kh. take (ml_nope P) kh @ k_pe) kv, map (drop (ml_nope P)) kv))"

definition mla_gate :: "('kv, 'm) bail_lib \<Rightarrow> mla \<Rightarrow> row \<Rightarrow> real list list \<Rightarrow> row" where
  "mla_gate F P r out =
     (if ml_gate_kind P = Some ''head_wise'' then concat (map2 (\<lambda>o' g. map (\<lambda>v. v * bx_sigmoid F g) o') out (ml_g_proj P r))
      else if ml_gate_kind P = Some ''element_wise'' then map2 (\<lambda>v g. v * bx_sigmoid F g) (concat out) (ml_g_proj P r)
      else concat out)"

definition mla_call :: "('kv, 'm) bail_lib \<Rightarrow> mla \<Rightarrow> 'm \<Rightarrow> real list list \<Rightarrow> 'kv option \<Rightarrow> real list list \<times> 'kv option" where
  "mla_call F P m x cache =
     (let offset = (case cache of None \<Rightarrow> 0 | Some c \<Rightarrow> bx_offset F c);
          positions = enumerate offset x;
          queries = map (mla_query F P) positions;
          keys = map (fst \<circ> mla_key_value F P) positions;
          vals = map (snd \<circ> mla_key_value F P) positions;
          ((keys, vals), cache) =
            (case cache of None \<Rightarrow> ((keys, vals), None) | Some c \<Rightarrow> (case bx_update F keys vals c of (kv, c) \<Rightarrow> (kv, Some c)));
          out = bx_sdpa F (1 / bx_sqrt F (real (ml_nope P + ml_rope P))) queries keys vals m
      in (map2 (\<lambda>r o'. ml_dense P (mla_gate F P r o')) x out, cache))"

text \<open>\<open>BailingMLP\<close>: the dense MLP of the first layers, and the shared experts of the others.\<close>

type_synonym swi = "(row \<Rightarrow> row) \<times> (row \<Rightarrow> row) \<times> (row \<Rightarrow> row)"

definition bailing_mlp :: "('kv, 'm) bail_lib \<Rightarrow> swi \<Rightarrow> row \<Rightarrow> row" where
  "bailing_mlp F = (\<lambda>(gate_proj, up_proj, down_proj) r. down_proj (map2 (*) (map (bx_silu F) (gate_proj r)) (up_proj r)))"

section \<open>The model\<close>

record 'kv lcache =
  ca_arrays :: kda_cache
  ca_kv :: 'kv

text \<open>\<open>'l\<close> is the state of the layer that holds a block's experts (\<open>SwitchGLU\<close>, or what the installation put there).\<close>

record 'l bailing =
  bm_layers :: nat
  bm_group :: nat
  bm_kda :: "nat \<Rightarrow> kda"
  bm_mla :: "nat \<Rightarrow> mla"
  bm_norm1 :: "nat \<Rightarrow> row \<Rightarrow> row"
  bm_norm2 :: "nat \<Rightarrow> row \<Rightarrow> row"
  bm_first_moe :: nat
  bm_dense :: "nat \<Rightarrow> swi"
  bm_R :: "real rkernels"
  bm_args :: "real gate_args"
  bm_bias :: "nat \<Rightarrow> row"
  bm_gate :: "nat \<Rightarrow> row \<Rightarrow> row"
  bm_shared :: "nat \<Rightarrow> swi"
  bm_experts :: "nat \<Rightarrow> real list list \<Rightarrow> (real, 'l) layer_call"
  bm_prerouter :: bool
  bm_start :: nat
  bm_feature :: string
  bm_intra :: bool
  bm_embed :: "nat \<Rightarrow> row"
  bm_clip :: real
  bm_final :: "row \<Rightarrow> row"
  bm_tied :: bool
  bm_as_linear :: "row \<Rightarrow> row"
  bm_lm_head :: "row \<Rightarrow> row"

definition is_mla_layer :: "nat \<Rightarrow> nat \<Rightarrow> nat \<Rightarrow> bool" where
  "is_mla_layer num g idx \<longleftrightarrow> (let full = num div g * g in (idx + 1) mod g = 0 \<or> full \<le> idx)"

text \<open>\<open>next(i for i in range(n) if is_mla_layer(i))\<close>; the last layer is always one.\<close>

definition first_mla :: "'l bailing \<Rightarrow> nat res" where
  "first_mla M = (case filter (is_mla_layer (bm_layers M) (bm_group M)) [0..<bm_layers M] of [] \<Rightarrow> Inl StopIteration | i # _ \<Rightarrow> Inr i)"

text \<open>A \<open>KVCache\<close> or four empty arrays; the record has the one that its layer uses.\<close>

definition make_cache :: "('kv, 'm) bail_lib \<Rightarrow> 'l bailing \<Rightarrow> 'kv lcache list" where
  "make_cache F M = map (\<lambda>li. \<lparr>ca_arrays = (None, None, None, None), ca_kv = bx_kv0 F\<rparr>) [0..<bm_layers M]"

definition bailing_attention ::
  "('kv, 'm) bail_lib \<Rightarrow> 'l bailing \<Rightarrow> nat \<Rightarrow> 'm \<Rightarrow> real list list \<Rightarrow> 'kv lcache option \<Rightarrow> real list list \<times> 'kv lcache option" where
  "bailing_attention F M li m x cache =
     (if is_mla_layer (bm_layers M) (bm_group M) li then
        (case mla_call F (bm_mla M li) m x (map_option ca_kv cache) of
           (out, c) \<Rightarrow> (out, map_option (\<lambda>cc. cc\<lparr>ca_kv := the c\<rparr>) cache))
      else
        (case kda_call F (bm_kda M li) x (map_option ca_arrays cache) of
           (out, c) \<Rightarrow> (out, map_option (\<lambda>cc. cc\<lparr>ca_arrays := the c\<rparr>) cache)))"

text \<open>
  A call that uses the layers of experts returns, raises or blocks. The MoE block of a layer applies the
  prerouter logits handed to it when the layer consumes predictions (\<open>use_prerouter\<close>); the captures it leaves
  for the stager (\<open>last_topk\<close>, \<open>m_in_cache\<close>) and the callback of the intra mode are in \<open>Ling_Engine\<close>.
\<close>

type_synonym 'a run = "'a res option"

definition run_bind :: "'a run \<Rightarrow> ('a \<Rightarrow> 'b run) \<Rightarrow> 'b run" where
  "run_bind r k = (case r of None \<Rightarrow> None | Some (Inl e) \<Rightarrow> Some (Inl e) | Some (Inr x) \<Rightarrow> k x)"

lemma run_bind_Inr [simp]: "run_bind (Some (Inr x)) k = k x"
  by (simp add: run_bind_def)

definition takes_predictions :: "'l bailing \<Rightarrow> nat \<Rightarrow> bool" where
  "takes_predictions M li \<longleftrightarrow> bm_prerouter M \<and> bm_start M \<le> li \<and> li < bm_layers M"

definition bailing_ffn ::
  "('kv, 'm) bail_lib \<Rightarrow> 'l bailing \<Rightarrow> nat \<Rightarrow> row option \<Rightarrow> real list list \<Rightarrow> 'l \<Rightarrow> (real list list \<times> 'l) run" where
  "bailing_ffn F M li prev m_in L =
     (if li < bm_first_moe M then Some (Inr (map (bailing_mlp F (bm_dense M li)) m_in, L))
      else map_option (\<lambda>(r, feat, L). map_sum id (\<lambda>ys. (ys, L)) r)
             (bailing_call (bm_R M) (bm_args M) (bm_bias M li)
               \<lparr>bf_use_prerouter = takes_predictions M li, bf_feature_topk = bm_feature M, bf_intra = bm_intra M\<rparr>
               (bm_gate M li) (bailing_mlp F (bm_shared M li)) (bm_experts M li m_in) prev m_in L))"

definition bailing_decoder ::
  "('kv, 'm) bail_lib \<Rightarrow> 'l bailing \<Rightarrow> nat \<Rightarrow> 'm \<Rightarrow> row option \<Rightarrow> real list list \<Rightarrow> 'kv lcache option \<Rightarrow> 'l \<Rightarrow>
     (real list list \<times> 'kv lcache option \<times> 'l) run" where
  "bailing_decoder F M li m prev x cache L =
     (let (a, cache) = bailing_attention F M li m (map (bm_norm1 M li) x) cache;
          h = add_rows x a;
          m_in = map (bm_norm2 M li) h
      in run_bind (bailing_ffn F M li prev m_in L) (\<lambda>(out, L). Some (Inr (add_rows h out, cache, L))))"

text \<open>The clip of \<open>LING_HIDDEN_CLIP\<close>; exact arithmetic has no NaN.\<close>

definition bailing_clip :: "'l bailing \<Rightarrow> row \<Rightarrow> row" where
  "bailing_clip M r = (if 0 < bm_clip M then map (\<lambda>v. max (- bm_clip M) (min (bm_clip M) v)) r else r)"

text \<open>\<open>prerouter_cache\<close>: the logits that the previous token's step left for each consumer, when decode passes them.\<close>

type_synonym predictions = "(int \<times> row) list option"

definition prev_logits :: "'l bailing \<Rightarrow> predictions \<Rightarrow> nat \<Rightarrow> row option" where
  "prev_logits M pg li = (if takes_predictions M li then (case pg of None \<Rightarrow> None | Some d \<Rightarrow> map_of d (int li)) else None)"

fun bailing_loop ::
  "('kv, 'm) bail_lib \<Rightarrow> 'l bailing \<Rightarrow> 'm \<Rightarrow> predictions \<Rightarrow> (nat \<times> 'kv lcache option \<times> 'l) list \<Rightarrow> real list list \<Rightarrow>
     (real list list \<times> ('kv lcache option \<times> 'l) list) run" where
  "bailing_loop F M m pg [] h = Some (Inr (h, []))"
| "bailing_loop F M m pg ((li, c, L) # ls) h =
     run_bind (bailing_decoder F M li m (prev_logits M pg li) h c L) (\<lambda>(h, c, L).
     run_bind (bailing_loop F M m pg ls (map (bailing_clip M) h)) (\<lambda>(h, cLs). Some (Inr (h, (c, L) # cLs))))"

definition bailing_model ::
  "('kv, 'm) bail_lib \<Rightarrow> 'l bailing \<Rightarrow> predictions \<Rightarrow> nat list \<Rightarrow> 'kv lcache list option \<Rightarrow> 'l list \<Rightarrow>
     (real list list \<times> 'kv lcache list option \<times> 'l list) run" where
  "bailing_model F M pg inputs cache Ls =
     run_bind (Some (first_mla M)) (\<lambda>first.
       let h = map (bm_embed M) inputs;
           caches = (case cache of None \<Rightarrow> replicate (bm_layers M) None | Some cs \<Rightarrow> map Some cs)
       in if first < length caches then
            run_bind (bailing_loop F M (bx_mask F (length h) (map_option ca_kv (caches ! first))) pg (zip [0..<bm_layers M] (zip caches Ls)) h)
              (\<lambda>(h, cLs).
                Some (Inr (map (\<lambda>r. (if bm_tied M then bm_as_linear M else bm_lm_head M) (bm_final M r)) h,
                  map_option (\<lambda>_. map (the \<circ> fst) cLs) cache, map snd cLs)))
          else Some (Inl IndexError))"

section \<open>The layers meet the contract\<close>

definition conv_state_ok :: "nat \<Rightarrow> real list list option \<Rightarrow> bool" where
  "conv_state_ok k st \<longleftrightarrow> (\<forall>s. st = Some s \<longrightarrow> length s = k - 1)"

definition conv_start :: "nat \<Rightarrow> nat \<Rightarrow> real list list option \<Rightarrow> real list list" where
  "conv_start k channels st = (case st of None \<Rightarrow> replicate (k - 1) (replicate channels 0) | Some s \<Rightarrow> s)"

lemma conv_start_length: "conv_state_ok k st \<Longrightarrow> length (conv_start k n st) = k - 1"
  by (auto simp: conv_start_def conv_state_ok_def split: option.splits)

lemma conv_start_Some [simp]: "conv_start k n (Some s) = s"
  by (simp add: conv_start_def)

lemma short_conv_rolled:
  assumes "conv_state_ok k st"
  shows "short_conv F k n conv x st = (map (map (bx_silu F)) (fst (rolled k conv (conv_start k n st) x)), snd (rolled k conv (conv_start k n st) x))"
  using conv_start_length [OF assms, of n]
  by (cases "k = 1") (simp_all add: short_conv_def conv_start_def [symmetric] rolled_def Let_def)

lemma short_conv_lengths:
  "windowed k conv \<Longrightarrow> 0 < k \<Longrightarrow> conv_state_ok k st \<Longrightarrow>
     length (fst (short_conv F k n conv x st)) = length x \<and> length (snd (short_conv F k n conv x st)) = k - 1"
  by (simp add: short_conv_rolled rolled_lengths conv_start_length)

lemma short_conv_split:
  assumes "windowed k conv" and "0 < k" and "conv_state_ok k st"
  shows "short_conv F k n conv (x @ y) st =
    (fst (short_conv F k n conv x st) @ fst (short_conv F k n conv y (Some (snd (short_conv F k n conv x st)))),
     snd (short_conv F k n conv y (Some (snd (short_conv F k n conv x st)))))"
proof -
  have "conv_state_ok k (Some (snd (rolled k conv (conv_start k n st) x)))"
    using rolled_lengths [OF assms(1,2) conv_start_length [OF assms(3)]] by (simp add: conv_state_ok_def)
  then show ?thesis
    by (simp add: short_conv_rolled [OF assms(3)] short_conv_rolled rolled_split [OF assms(1,2) conv_start_length [OF assms(3)]])
qed

definition kda_laws :: "('kv, 'm) bail_lib \<Rightarrow> kda \<Rightarrow> bool" where
  "kda_laws F P \<longleftrightarrow> 0 < kd_ksize P \<and> windowed (kd_ksize P) (kd_q_conv P) \<and> windowed (kd_ksize P) (kd_k_conv P) \<and>
     windowed (kd_ksize P) (kd_v_conv P) \<and> scans (kda_fn F P)"

definition kda_cache_ok :: "kda \<Rightarrow> kda_cache \<Rightarrow> bool" where
  "kda_cache_ok P = (\<lambda>(q, k, v, s). conv_state_ok (kd_ksize P) q \<and> conv_state_ok (kd_ksize P) k \<and> conv_state_ok (kd_ksize P) v)"

definition kda_step :: "('kv, 'm) bail_lib \<Rightarrow> kda \<Rightarrow> real list list \<Rightarrow> kda_cache \<Rightarrow> real list list \<times> kda_cache" where
  "kda_step F P x c = (case kda_call F P x (Some c) of (out, c) \<Rightarrow> (out, the c))"

lemma kda_update_split:
  assumes "scans (kda_fn F P)" and "length k = length q" "length v = length q" "length g = length q" "length b = length q"
    and "length k' = length q'" "length v' = length q'" "length g' = length q'" "length b' = length q'"
  shows "kda_update F P (q @ q') (k @ k') (v @ v') (g @ g') (b @ b') st =
    (fst (kda_update F P q k v g b st) @ fst (kda_update F P q' k' v' g' b' (Some (snd (kda_update F P q k v g b st)))),
     snd (kda_update F P q' k' v' g' b' (Some (snd (kda_update F P q k v g b st)))))"
  using assms by (simp add: kda_update_def Let_def scans_split)

lemma kda_update_length:
  "scans (kda_fn F P) \<Longrightarrow> length k = length q \<Longrightarrow> length v = length q \<Longrightarrow> length g = length q \<Longrightarrow> length b = length q \<Longrightarrow>
     length (fst (kda_update F P q k v g b st)) = length q"
  by (simp add: kda_update_def Let_def scans_length)

lemma kda_step_ok:
  assumes "kda_laws F P" and "kda_cache_ok P c"
  shows "kda_cache_ok P (snd (kda_step F P x c))" and "length (fst (kda_step F P x c)) = length x"
proof -
  obtain q k v s where c: "c = (q, k, v, s)" by (cases c)
  have l: "windowed (kd_ksize P) (kd_q_conv P)" "windowed (kd_ksize P) (kd_k_conv P)" "windowed (kd_ksize P) (kd_v_conv P)"
    "0 < kd_ksize P" "scans (kda_fn F P)" using assms(1) by (auto simp: kda_laws_def)
  have st: "conv_state_ok (kd_ksize P) q" "conv_state_ok (kd_ksize P) k" "conv_state_ok (kd_ksize P) v"
    using assms(2) by (auto simp: c kda_cache_ok_def)
  note sl = short_conv_lengths [OF l(1,4) st(1)] short_conv_lengths [OF l(2,4) st(2)] short_conv_lengths [OF l(3,4) st(3)]
  show "kda_cache_ok P (snd (kda_step F P x c))"
    by (simp add: sl kda_step_def kda_call_def c Let_def split_beta kda_cache_ok_def conv_state_ok_def)
  show "length (fst (kda_step F P x c)) = length x"
    by (simp add: sl kda_step_def kda_call_def c Let_def split_beta kda_update_length [OF l(5)])
qed

lemma kda_step_split:
  assumes "kda_laws F P" and "kda_cache_ok P c"
  shows "kda_step F P (x @ y) c =
    (fst (kda_step F P x c) @ fst (kda_step F P y (snd (kda_step F P x c))), snd (kda_step F P y (snd (kda_step F P x c))))"
proof -
  obtain q k v s where c: "c = (q, k, v, s)" by (cases c)
  have l: "windowed (kd_ksize P) (kd_q_conv P)" "windowed (kd_ksize P) (kd_k_conv P)" "windowed (kd_ksize P) (kd_v_conv P)"
    "0 < kd_ksize P" "scans (kda_fn F P)" using assms(1) by (auto simp: kda_laws_def)
  have st: "conv_state_ok (kd_ksize P) q" "conv_state_ok (kd_ksize P) k" "conv_state_ok (kd_ksize P) v"
    using assms(2) by (auto simp: c kda_cache_ok_def)
  note sl = short_conv_lengths [OF l(1,4) st(1)] short_conv_lengths [OF l(2,4) st(2)] short_conv_lengths [OF l(3,4) st(3)]
  have some: "conv_state_ok (kd_ksize P) (Some (snd (short_conv F (kd_ksize P) n conv xs st')))"
    if "windowed (kd_ksize P) conv" "conv_state_ok (kd_ksize P) st'" for n conv xs st'
    by (simp add: conv_state_ok_def short_conv_lengths [OF that(1) l(4) that(2)])
  note sl2 = short_conv_lengths [OF l(1,4) some [OF l(1) st(1)]] short_conv_lengths [OF l(2,4) some [OF l(2) st(2)]]
    short_conv_lengths [OF l(3,4) some [OF l(3) st(3)]]
  show ?thesis
    by (simp add: kda_step_def kda_call_def c Let_def split_beta short_conv_split [OF l(1,4) st(1)] short_conv_split [OF l(2,4) st(2)]
        short_conv_split [OF l(3,4) st(3)] kda_update_split [OF l(5)] kda_update_length [OF l(5)] sl sl2)
qed

interpretation kda: chunked "kda_step F P" "\<lambda>c. kda_laws F P \<and> kda_cache_ok P c" "(=)"
  by (rule chunked.intro) (simp_all add: kda_step_ok kda_step_split)

text \<open>MLA: the cache is seen through its content.\<close>

definition bail_laws :: "('kv, 'm) bail_lib \<Rightarrow> ('kv \<Rightarrow> toks \<times> toks) \<Rightarrow> bool" where
  "bail_laws F view \<longleftrightarrow> (\<forall>s. causal (bx_sdpa F s) (bx_mask F)) \<and> appends (bx_offset F) (bx_update F) view"

definition mla_step :: "('kv, 'm) bail_lib \<Rightarrow> mla \<Rightarrow> real list list \<Rightarrow> 'kv \<Rightarrow> real list list \<times> 'kv" where
  "mla_step F P x c = (case mla_call F P (bx_mask F (length x) None) x (Some c) of (out, c) \<Rightarrow> (out, the c))"

abbreviation mla_rows :: "('kv, 'm) bail_lib \<Rightarrow> mla \<Rightarrow> 'm \<Rightarrow> real list list \<Rightarrow> toks \<times> toks \<Rightarrow> real list list" where
  "mla_rows F P \<equiv> att_rows (\<lambda>r o'. ml_dense P (mla_gate F P r o')) (bx_sdpa F (1 / bx_sqrt F (real (ml_nope P + ml_rope P))))
     (mla_query F P) (fst \<circ> mla_key_value F P) (snd \<circ> mla_key_value F P)"

abbreviation mla_keys :: "('kv, 'm) bail_lib \<Rightarrow> mla \<Rightarrow> real list list \<Rightarrow> toks \<times> toks \<Rightarrow> toks \<times> toks" where
  "mla_keys F P \<equiv> att_keys (fst \<circ> mla_key_value F P) (snd \<circ> mla_key_value F P)"

lemma mla_call_cached:
  assumes "bail_laws F view"
  shows "fst (mla_call F P m x (Some c)) = mla_rows F P m x (view c)"
    and "\<exists>c'. snd (mla_call F P m x (Some c)) = Some c' \<and> view c' = mla_keys F P x (view c)"
  using assms by (simp_all add: bail_laws_def mla_call_def att_rows_def att_keys_def appends_def Let_def split_beta)

lemma bail_laws_view: "bail_laws F view \<Longrightarrow> length (snd (view c)) = length (fst (view c))"
  by (simp add: bail_laws_def appends_def)

lemma bail_laws_causal: "bail_laws F view \<Longrightarrow> causal (bx_sdpa F s) (bx_mask F)"
  by (simp add: bail_laws_def)

lemma mla_mask_irrelevant:
  assumes "bail_laws F view"
  shows "mla_call F P (bx_mask F (length x) d) x (Some c) = mla_call F P (bx_mask F (length x) None) x (Some c)"
proof -
  have "snd (mla_call F P (bx_mask F (length x) d) x (Some c)) = snd (mla_call F P (bx_mask F (length x) None) x (Some c))"
    by (simp add: mla_call_def Let_def split_beta)
  then show ?thesis
    using att_rows_mask [OF bail_laws_causal [OF assms] bail_laws_view [OF assms]] by (simp add: prod_eq_iff mla_call_cached(1) [OF assms])
qed

lemma mla_step_cached:
  assumes "bail_laws F view"
  shows "fst (mla_step F P x c) = mla_rows F P (bx_mask F (length x) None) x (view c)"
    and "view (snd (mla_step F P x c)) = mla_keys F P x (view c)"
  using mla_call_cached [OF assms, of P "bx_mask F (length x) None" x c] by (auto simp: mla_step_def split_beta)

interpretation mla: chunked "mla_step F P" "\<lambda>c. bail_laws F view" "\<lambda>c d. view c = view d"
proof (rule chunked.intro, goal_cases)
  case (3 c xs ys)
  then show ?case
    using att_rows_split [OF bail_laws_causal [OF 3] bail_laws_view [OF 3]] by (simp only: mla_step_cached [OF 3])
qed (simp_all add: mla_step_cached att_keys_append att_rows_length [OF bail_laws_causal bail_laws_view])

text \<open>A layer of either kind, and the decoder layer around it when the MLP answers each row by itself.\<close>

definition layer_laws :: "('kv, 'm) bail_lib \<Rightarrow> 'l bailing \<Rightarrow> ('kv \<Rightarrow> toks \<times> toks) \<Rightarrow> nat \<Rightarrow> 'kv lcache \<Rightarrow> bool" where
  "layer_laws F M view li c \<longleftrightarrow> bail_laws F view \<and> (is_mla_layer (bm_layers M) (bm_group M) li \<or>
     (kda_laws F (bm_kda M li) \<and> kda_cache_ok (bm_kda M li) (ca_arrays c)))"

definition layer_same :: "'l bailing \<Rightarrow> ('kv \<Rightarrow> toks \<times> toks) \<Rightarrow> nat \<Rightarrow> 'kv lcache \<Rightarrow> 'kv lcache \<Rightarrow> bool" where
  "layer_same M view li c d \<longleftrightarrow>
     (if is_mla_layer (bm_layers M) (bm_group M) li then view (ca_kv c) = view (ca_kv d) else ca_arrays c = ca_arrays d)"

definition att_step :: "('kv, 'm) bail_lib \<Rightarrow> 'l bailing \<Rightarrow> nat \<Rightarrow> real list list \<Rightarrow> 'kv lcache \<Rightarrow> real list list \<times> 'kv lcache" where
  "att_step F M li x c = (case bailing_attention F M li (bx_mask F (length x) None) x (Some c) of (out, c) \<Rightarrow> (out, the c))"

lemma att_step_mla:
  "is_mla_layer (bm_layers M) (bm_group M) li \<Longrightarrow>
     att_step F M li x c = (fst (mla_step F (bm_mla M li) x (ca_kv c)), c\<lparr>ca_kv := snd (mla_step F (bm_mla M li) x (ca_kv c))\<rparr>)"
  by (simp add: att_step_def bailing_attention_def mla_step_def split_beta)

lemma att_step_kda:
  "\<not> is_mla_layer (bm_layers M) (bm_group M) li \<Longrightarrow>
     att_step F M li x c = (fst (kda_step F (bm_kda M li) x (ca_arrays c)), c\<lparr>ca_arrays := snd (kda_step F (bm_kda M li) x (ca_arrays c))\<rparr>)"
  by (simp add: att_step_def bailing_attention_def kda_step_def split_beta)

interpretation att: chunked "att_step F M li" "layer_laws F M view li" "layer_same M view li"
proof (cases "is_mla_layer (bm_layers M) (bm_group M) li")
  case True
  then show "chunked (att_step F M li) (layer_laws F M view li) (layer_same M view li)"
    by (intro chunked.intro)
      (auto simp: layer_laws_def layer_same_def att_step_mla mla.rows_call mla.split_rows dest: mla.split_cache mla.same_rows mla.same_cache)
next
  case False
  then show "chunked (att_step F M li) (layer_laws F M view li) (layer_same M view li)"
    by (intro chunked.intro) (auto simp: layer_laws_def layer_same_def att_step_kda kda_step_ok kda_step_split)
qed

text \<open>
  The block of a layer when it has no prediction: a function \<open>g\<close> of each row, whatever state its experts are in,
  as long as the invariant \<open>P\<close> of that state holds, and it goes on holding.
\<close>

definition rowwise_ffn :: "('kv, 'm) bail_lib \<Rightarrow> 'l bailing \<Rightarrow> (nat \<Rightarrow> 'l \<Rightarrow> bool) \<Rightarrow> nat \<Rightarrow> (row \<Rightarrow> row) \<Rightarrow> bool" where
  "rowwise_ffn F M P li g \<longleftrightarrow> (\<forall>xs L. P li L \<longrightarrow> (\<exists>L'. bailing_ffn F M li None xs L = Some (Inr (map g xs, L')) \<and> P li L'))"

text \<open>What gives it: sizes that fit the router, and a layer of experts that keeps the contract.\<close>

definition block_laws :: "'l bailing \<Rightarrow> (nat \<Rightarrow> 'l \<Rightarrow> bool) \<Rightarrow> nat \<Rightarrow> bool" where
  "block_laws M P li \<longleftrightarrow>
     (let a = bm_args M; num = ga_num_experts a in
      rkernels_ok (bm_R M) \<and> groups_fit num (ga_n_group a) (ga_topk_group a) (ga_top_k a) \<and>
      (\<forall>x. length (bm_gate M li x) = num) \<and> length (bm_bias M li) = num \<and> (\<exists>out. answers (bm_experts M li) num (P li) out))"

lemma gate_total:
  assumes R: "rkernels_ok R" and fit: "groups_fit (ga_num_experts a) (ga_n_group a) (ga_topk_group a) (ga_top_k a)"
    and len: "length lg = ga_num_experts a" "length bias = ga_num_experts a"
  shows "\<exists>sel. bailing_gate R a bias lg = Inr sel \<and> (\<forall>e \<in> set (fst sel). e < ga_num_experts a)"
proof -
  have b: "(if ga_bias_enabled a then Some bias else None) = None \<or>
      (\<exists>v. (if ga_bias_enabled a then Some bias else None) = Some v \<and> length v = length lg)"
    using len by simp
  obtain idx where "\<And>scaling renorm. group_select_from_logits R lg (ga_top_k a) (ga_n_group a) (ga_topk_group a) scaling renorm
      (if ga_bias_enabled a then Some bias else None) = Inr (idx, chosen_weights renorm scaling (map (r_sigmoid R) lg) idx)"
    "\<forall>e \<in> set idx. e < length lg"
    using group_select_idx [OF R fit [folded len(1)] b] by metis
  then show ?thesis using len by (subst bailing_gate_is_group_select) auto
qed

lemma block_rowwise:
  assumes "li < bm_first_moe M \<or> block_laws M P li"
  shows "\<exists>g. rowwise_ffn F M P li g"
proof (cases "li < bm_first_moe M")
  case True
  then show ?thesis by (intro exI [of _ "bailing_mlp F (bm_dense M li)"]) (simp add: rowwise_ffn_def bailing_ffn_def)
next
  case False
  let ?a = "bm_args M"
  obtain out where R: "rkernels_ok (bm_R M)" "groups_fit (ga_num_experts ?a) (ga_n_group ?a) (ga_topk_group ?a) (ga_top_k ?a)"
    "\<And>x. length (bm_gate M li x) = ga_num_experts ?a" "length (bm_bias M li) = ga_num_experts ?a"
    and E: "answers (bm_experts M li) (ga_num_experts ?a) (P li) out"
    using assms False by (auto simp: block_laws_def Let_def)
  have "\<forall>x. \<exists>sel. bailing_gate (bm_R M) ?a (bm_bias M li) (bm_gate M li x) = Inr sel \<and> (\<forall>e \<in> set (fst sel). e < ga_num_experts ?a)"
    using gate_total [OF R(1,2,3,4)] by blast
  then obtain sel where sel: "\<And>x. bailing_gate (bm_R M) ?a (bm_bias M li) (bm_gate M li x) = Inr (sel x)"
    "\<And>x. \<forall>e \<in> set (fst (sel x)). e < ga_num_experts ?a" by metis
  have all: "res_map (\<lambda>x. bailing_gate (bm_R M) ?a (bm_bias M li) (bm_gate M li x)) xs = Inr (map sel xs)" for xs
    by (rule res_map_all_Inr) (simp add: sel(1))
  have "\<exists>L'. bailing_ffn F M li None xs L = Some (Inr (map (block_row (bailing_mlp F (bm_shared M li)) out sel) xs, L')) \<and> P li L'"
    if L: "P li L" for xs L
  proof -
    obtain L' where "moe_apply (bailing_mlp F (bm_shared M li)) (bm_experts M li xs) xs (map sel xs) L =
        Some (Inr (map (block_row (bailing_mlp F (bm_shared M li)) out sel) xs), L')" "P li L'"
      using moe_apply_answers [where sel = sel, OF E L sel(2)] by blast
    then show ?thesis using False by (simp add: bailing_ffn_def bailing_call_def bailing_route_def all)
  qed
  then show ?thesis by (auto simp: rowwise_ffn_def)
qed

text \<open>The decoder layer around such a block, and the clip of the loop.\<close>

definition dec_step ::
  "('kv, 'm) bail_lib \<Rightarrow> 'l bailing \<Rightarrow> (nat \<Rightarrow> row \<Rightarrow> row) \<Rightarrow> nat \<Rightarrow> real list list \<Rightarrow> 'kv lcache \<Rightarrow> real list list \<times> 'kv lcache" where
  "dec_step F M g li x c =
     (let (a, c) = att_step F M li (map (bm_norm1 M li) x) c
      in (map (\<lambda>h. bailing_clip M (map2 (+) h (g li (bm_norm2 M li h)))) (add_rows x a), c))"

lemma dec_step_chunked: "chunked (dec_step F M g li) (layer_laws F M view li) (layer_same M view li)"
proof -
  have "dec_step F M g li = (\<lambda>x c. (map (\<lambda>h. bailing_clip M (map2 (+) h (g li (bm_norm2 M li h)))) (add_rows x (fst (att_step F M li (map (bm_norm1 M li) x) c))),
      snd (att_step F M li (map (bm_norm1 M li) x) c)))"
    by (intro ext) (simp add: dec_step_def split_beta)
  then show ?thesis using chunked_after [OF chunked_residual [OF chunked_before [OF att.chunked_axioms]]] by simp
qed

lemma attention_mask_irrelevant:
  assumes "bail_laws F view" and "length x = n"
  shows "bailing_attention F M li (bx_mask F n d) x (Some c) = (fst (att_step F M li x c), Some (snd (att_step F M li x c)))"
proof -
  have "bailing_attention F M li (bx_mask F n d) x (Some c) = bailing_attention F M li (bx_mask F n None) x (Some c)"
    using mla_mask_irrelevant [OF assms(1), of _ x d] assms(2) by (auto simp: bailing_attention_def)
  moreover have "snd (bailing_attention F M li m x (Some c)) = Some (the (snd (bailing_attention F M li m x (Some c))))" for m
    by (simp add: bailing_attention_def split_beta)
  ultimately show ?thesis by (simp add: att_step_def assms(2) split_beta prod_eq_iff)
qed

lemma decoder_is_step:
  assumes "bail_laws F view" and "rowwise_ffn F M P li (g li)" and "P li L"
  shows "\<exists>h L'. bailing_decoder F M li (bx_mask F (length x) d) None x (Some c) L = Some (Inr (h, Some (snd (dec_step F M g li x c)), L')) \<and>
    map (bailing_clip M) h = fst (dec_step F M g li x c) \<and> P li L'"
proof -
  let ?a = "att_step F M li (map (bm_norm1 M li) x) c"
  let ?h = "add_rows x (fst ?a)"
  obtain L' where L': "bailing_ffn F M li None (map (bm_norm2 M li) ?h) L = Some (Inr (map (g li) (map (bm_norm2 M li) ?h), L'))" "P li L'"
    using assms(2,3) unfolding rowwise_ffn_def by blast
  show ?thesis
    using attention_mask_irrelevant [OF assms(1), of "map (bm_norm1 M li) x" "length x" M li d c] L'
    by (simp add: bailing_decoder_def dec_step_def split_beta add_rows_map [unfolded comp_def] comp_def)
qed

section \<open>Chunked prefill is exact\<close>

definition states_ok :: "(nat \<Rightarrow> 'l \<Rightarrow> bool) \<Rightarrow> nat list \<Rightarrow> 'l list \<Rightarrow> bool" where
  "states_ok P lis Ls \<longleftrightarrow> list_all2 P lis Ls"

lemma bailing_loop_through:
  assumes "bail_laws F view" and "\<And>li. prev_logits M pg li = None"
  shows "\<forall>li \<in> set lis. rowwise_ffn F M P li (g li) \<Longrightarrow> stack_ok (layer_laws F M view) lis cs \<Longrightarrow> states_ok P lis Ls \<Longrightarrow>
    \<exists>Ls'. bailing_loop F M (bx_mask F (length x) d) pg (zip lis (zip (map Some cs) Ls)) x =
      Some (Inr (fst (through (dec_step F M g) lis x cs), zip (map Some (snd (through (dec_step F M g) lis x cs))) Ls')) \<and>
      states_ok P lis Ls'"
proof (induction lis arbitrary: cs Ls x)
  case (Cons li lis)
  obtain c cs' where cs: "cs = c # cs'" "layer_laws F M view li c" "stack_ok (layer_laws F M view) lis cs'" using Cons.prems(2) by (cases cs) auto
  obtain L Ls1 where Ls: "Ls = L # Ls1" "P li L" "states_ok P lis Ls1" using Cons.prems(3) by (auto simp: states_ok_def list_all2_Cons1)
  have g: "rowwise_ffn F M P li (g li)" using Cons.prems(1) by simp
  obtain h L' where dec: "bailing_decoder F M li (bx_mask F (length x) d) None x (Some c) L = Some (Inr (h, Some (snd (dec_step F M g li x c)), L'))"
    "map (bailing_clip M) h = fst (dec_step F M g li x c)" "P li L'"
    using decoder_is_step [where P = P and g = g, OF assms(1) g Ls(2)] by blast
  have "length (fst (dec_step F M g li x c)) = length x" by (rule chunked.rows_call [OF dec_step_chunked cs(2)])
  then obtain Ls' where "bailing_loop F M (bx_mask F (length x) d) pg (zip lis (zip (map Some cs') Ls1)) (fst (dec_step F M g li x c)) =
      Some (Inr (fst (through (dec_step F M g) lis (fst (dec_step F M g li x c)) cs'),
        zip (map Some (snd (through (dec_step F M g) lis (fst (dec_step F M g li x c)) cs'))) Ls'))" "states_ok P lis Ls'"
    using Cons.IH [of cs' Ls1 "fst (dec_step F M g li x c)"] Cons.prems(1) cs(3) Ls(3) by auto
  then show ?case using dec
    by (intro exI [of _ "L' # Ls'"]) (simp add: cs(1) Ls(1) assms(2) states_ok_def)
qed (simp add: states_ok_def)

lemma first_mla_exists:
  assumes "0 < bm_layers M" and "0 < bm_group M"
  obtains i where "first_mla M = Inr i" and "i < bm_layers M"
proof -
  let ?n = "bm_layers M" and ?g = "bm_group M"
  have le: "?n div ?g * ?g \<le> ?n" by simp
  have "is_mla_layer ?n ?g (?n - 1)"
  proof (cases "?n mod ?g = 0")
    case True
    then show ?thesis using assms by (simp add: is_mla_layer_def Let_def)
  next
    case False
    then have "?n div ?g * ?g \<noteq> ?n" by (metis mod_mult_self2_is_0)
    with le have "?n div ?g * ?g \<le> ?n - 1" by linarith
    then show ?thesis by (simp add: is_mla_layer_def Let_def)
  qed
  then have "?n - 1 \<in> set (filter (is_mla_layer ?n ?g) [0..<?n])" using assms(1) by simp
  then obtain i rest where i: "filter (is_mla_layer ?n ?g) [0..<?n] = i # rest" by (cases "filter (is_mla_layer ?n ?g) [0..<?n]") auto
  then have "i \<in> set (filter (is_mla_layer ?n ?g) [0..<?n])" by (simp only: list.set_intros)
  then have "i < ?n" by simp
  then show ?thesis using i by (intro that [of i]) (simp_all add: first_mla_def)
qed

definition model_step ::
  "('kv, 'm) bail_lib \<Rightarrow> 'l bailing \<Rightarrow> (nat \<Rightarrow> row \<Rightarrow> row) \<Rightarrow> nat list \<Rightarrow> 'kv lcache list \<Rightarrow> real list list \<times> 'kv lcache list" where
  "model_step F M g inputs cs =
     (map (\<lambda>r. (if bm_tied M then bm_as_linear M else bm_lm_head M) (bm_final M r))
        (fst (through (dec_step F M g) [0..<bm_layers M] (map (bm_embed M) inputs) cs)),
      snd (through (dec_step F M g) [0..<bm_layers M] (map (bm_embed M) inputs) cs))"

lemma model_step_chunked:
  "chunked (model_step F M g) (stack_ok (layer_laws F M view) [0..<bm_layers M]) (stack_same (layer_same M view) [0..<bm_layers M])"
  unfolding model_step_def [abs_def]
  by (rule chunked_after [where call = "\<lambda>inputs. through (dec_step F M g) [0..<bm_layers M] (map (bm_embed M) inputs)"],
      rule chunked_before, rule chunked_through, rule dec_step_chunked)

lemma through_length: "length (snd (through dec lis x cs)) = length lis"
  by (induction lis arbitrary: x cs) simp_all

lemma unzip_caches:
  "length cs = length Ls \<Longrightarrow> map (the \<circ> fst) (zip (map Some cs) Ls) = cs"
  "length cs = length Ls \<Longrightarrow> map snd (zip (map Some cs) Ls) = Ls"
  by (induction cs Ls rule: list_induct2) simp_all

text \<open>The conditions on a model: laws of the libraries, and a block per layer that acts on each row.\<close>

definition rowwise_model :: "('kv, 'm) bail_lib \<Rightarrow> ('kv \<Rightarrow> toks \<times> toks) \<Rightarrow> 'l bailing \<Rightarrow> (nat \<Rightarrow> 'l \<Rightarrow> bool) \<Rightarrow> (nat \<Rightarrow> row \<Rightarrow> row) \<Rightarrow> bool" where
  "rowwise_model F view M P g \<longleftrightarrow> bail_laws F view \<and> (\<forall>li < bm_layers M. rowwise_ffn F M P li (g li)) \<and> 0 < bm_layers M \<and> 0 < bm_group M"

lemma bailing_model_step:
  assumes M: "rowwise_model F view M P g" and pg: "\<And>li. prev_logits M pg li = None"
    and cs: "stack_ok (layer_laws F M view) [0..<bm_layers M] cs" and Ls: "states_ok P [0..<bm_layers M] Ls"
  shows "\<exists>Ls'. bailing_model F M pg inputs (Some cs) Ls = Some (Inr (fst (model_step F M g inputs cs), Some (snd (model_step F M g inputs cs)), Ls')) \<and>
    states_ok P [0..<bm_layers M] Ls'"
proof -
  have m: "bail_laws F view" "\<forall>li \<in> set [0..<bm_layers M]. rowwise_ffn F M P li (g li)" "0 < bm_layers M" "0 < bm_group M"
    using M by (simp_all add: rowwise_model_def)
  obtain i where i: "first_mla M = Inr i" "i < bm_layers M" using first_mla_exists m(3,4) by blast
  have n: "length cs = bm_layers M" using cs by (simp add: stack_ok_iff)
  let ?t = "through (dec_step F M g) [0..<bm_layers M] (map (bm_embed M) inputs) cs"
  obtain Ls' where loop: "bailing_loop F M (bx_mask F (length inputs) (Some (ca_kv (cs ! i)))) pg (zip [0..<bm_layers M] (zip (map Some cs) Ls))
      (map (bm_embed M) inputs) = Some (Inr (fst ?t, zip (map Some (snd ?t)) Ls'))" "states_ok P [0..<bm_layers M] Ls'"
    using bailing_loop_through [OF m(1) pg m(2) cs Ls, of "map (bm_embed M) inputs"] by auto
  have "length (snd ?t) = length Ls'" using list_all2_lengthD [OF loop(2) [unfolded states_ok_def]] by (simp add: through_length)
  then have "map (the \<circ> fst) (zip (map Some (snd ?t)) Ls') = snd ?t" "map snd (zip (map Some (snd ?t)) Ls') = Ls'" by (rule unzip_caches)+
  then show ?thesis
    using loop i n by (intro exI [of _ Ls']) (simp add: bailing_model_def model_step_def Let_def comp_def)
qed

text \<open>The loop of the engine's prefill over the chunks of a prompt, on the model.\<close>

fun model_chunks ::
  "('kv, 'm) bail_lib \<Rightarrow> 'l bailing \<Rightarrow> predictions \<Rightarrow> nat list list \<Rightarrow> 'kv lcache list \<Rightarrow> 'l list \<Rightarrow>
     (real list list \<times> 'kv lcache list \<times> 'l list) run" where
  "model_chunks F M pg [] cs Ls = Some (Inr ([], cs, Ls))"
| "model_chunks F M pg (chunk # css) cs Ls =
     run_bind (bailing_model F M pg chunk (Some cs) Ls) (\<lambda>(logits, cs, Ls).
     run_bind (model_chunks F M pg css (the cs) Ls) (\<lambda>(later, cs, Ls). Some (Inr (logits @ later, cs, Ls))))"

lemma model_chunks_run:
  assumes "rowwise_model F view M P g" and "\<And>li. prev_logits M pg li = None"
  shows "stack_ok (layer_laws F M view) [0..<bm_layers M] cs \<Longrightarrow> states_ok P [0..<bm_layers M] Ls \<Longrightarrow>
    \<exists>Ls'. model_chunks F M pg css cs Ls = Some (Inr (fst (run_chunks (model_step F M g) css cs), snd (run_chunks (model_step F M g) css cs), Ls')) \<and>
      states_ok P [0..<bm_layers M] Ls'"
proof (induction css arbitrary: cs Ls)
  case (Cons chunk css)
  obtain Ls1 where one: "bailing_model F M pg chunk (Some cs) Ls =
      Some (Inr (fst (model_step F M g chunk cs), Some (snd (model_step F M g chunk cs)), Ls1))" "states_ok P [0..<bm_layers M] Ls1"
    using bailing_model_step [OF assms Cons.prems] by blast
  have "stack_ok (layer_laws F M view) [0..<bm_layers M] (snd (model_step F M g chunk cs))"
    by (rule chunked.ok_call [OF model_step_chunked Cons.prems(1)])
  then obtain Ls' where "model_chunks F M pg css (snd (model_step F M g chunk cs)) Ls1 =
      Some (Inr (fst (run_chunks (model_step F M g) css (snd (model_step F M g chunk cs))),
        snd (run_chunks (model_step F M g) css (snd (model_step F M g chunk cs))), Ls'))" "states_ok P [0..<bm_layers M] Ls'"
    using Cons.IH one(2) by blast
  then show ?case using one(1) by (simp add: split_beta Let_def)
qed simp

lemma no_prediction: "pg = None \<or> pg = Some [] \<or> \<not> bm_prerouter M \<Longrightarrow> prev_logits M pg li = None"
  by (auto simp: prev_logits_def takes_predictions_def)

text \<open>
  C6: without predictions, the logits of ling do not depend on how the sequence is cut. Let the call be given
  no prerouter logits (every prefill, and decode before the first prediction or with the prerouter off), and let
  every MoE layer's experts answer each routed slot from its token and expert alone under an invariant of
  their state, as a streaming layer does with nothing staged (\<open>forward_answers\<close>), with sizes that fit the router.
  From any caches of the right shape, the model run over the chunks of a prompt one after the other, down to
  single tokens, gives every position the logits of one pass over the whole sequence, leaves every
  attention cache with the same content, and keeps the invariant of the experts. Decode steps routed by
  the previous token's predictions are outside it: there a token's experts depend on how it was reached.
\<close>

theorem chunked_prefill_exact:
  assumes "bail_laws F view" and "0 < bm_layers M" and "0 < bm_group M" and "pg = None \<or> pg = Some [] \<or> \<not> bm_prerouter M"
    and "\<forall>li < bm_layers M. li < bm_first_moe M \<or> block_laws M P li"
    and "length cs = bm_layers M" and "\<forall>li < bm_layers M. layer_laws F M view li (cs ! li)"
    and "length Ls = bm_layers M" and "\<forall>li < bm_layers M. P li (Ls ! li)" and "css \<noteq> []"
  shows "\<exists>logits cs' Ls' ds' Ks'. model_chunks F M pg css cs Ls = Some (Inr (logits, cs', Ls')) \<and>
    bailing_model F M pg (concat css) (Some cs) Ls = Some (Inr (logits, Some ds', Ks')) \<and>
    (\<forall>li < bm_layers M. layer_same M view li (ds' ! li) (cs' ! li) \<and> P li (Ls' ! li) \<and> P li (Ks' ! li))"
proof -
  let ?lis = "[0..<bm_layers M]"
  have ok: "stack_ok (layer_laws F M view) ?lis cs" "states_ok P ?lis Ls"
    using assms(6-9) by (simp_all add: stack_ok_iff states_ok_def list_all2_conv_all_nth)
  have "\<forall>li. \<exists>g. li < bm_layers M \<longrightarrow> rowwise_ffn F M P li g" using block_rowwise assms(5) by blast
  then obtain g where "\<forall>li < bm_layers M. rowwise_ffn F M P li (g li)" by metis
  then have M: "rowwise_model F view M P g" using assms(1-3) by (simp add: rowwise_model_def)
  note pg = no_prediction [OF assms(4)]
  note run = chunked.run_chunks_exact [OF model_step_chunked [where g = g] ok(1) assms(10)]
  obtain Ls' where Ls': "model_chunks F M pg css cs Ls =
      Some (Inr (fst (run_chunks (model_step F M g) css cs), snd (run_chunks (model_step F M g) css cs), Ls'))" "states_ok P ?lis Ls'"
    using model_chunks_run [OF M pg ok] by blast
  obtain Ks' where Ks': "bailing_model F M pg (concat css) (Some cs) Ls =
      Some (Inr (fst (model_step F M g (concat css) cs), Some (snd (model_step F M g (concat css) cs)), Ks'))" "states_ok P ?lis Ks'"
    using bailing_model_step [OF M pg ok] by blast
  have "layer_same M view li (snd (model_step F M g (concat css) cs) ! li) (snd (run_chunks (model_step F M g) css cs) ! li)"
    if "li < bm_layers M" for li
    using stack_same_nth [OF conjunct2 [OF run] att.same_refl, of li] that by simp
  moreover have "P li (Ls' ! li)" "P li (Ks' ! li)" if "li < bm_layers M" for li
    using Ls'(2) Ks'(2) that by (auto simp: states_ok_def list_all2_conv_all_nth)
  ultimately show ?thesis using Ls'(1) Ks'(1) conjunct1 [OF run] by auto
qed

section \<open>The rotation sees relative positions\<close>

definition angle_laws :: "('kv, 'm) bail_lib \<Rightarrow> bool" where
  "angle_laws F \<longleftrightarrow> (\<forall>a b. bx_cos F (a + b) = bx_cos F a * bx_cos F b - bx_sin F a * bx_sin F b \<and>
     bx_sin F (a + b) = bx_sin F a * bx_cos F b + bx_cos F a * bx_sin F b) \<and>
     (\<forall>a. bx_cos F a * bx_cos F a + bx_sin F a * bx_sin F a = 1)"

lemma rope_row_parts:
  assumes "length x = 2 * h"
  shows "rope_row F theta pos x =
    map (\<lambda>i. x ! (2 * i) * bx_cos F (real pos * rope_freqs F theta (2 * h) ! i) + - x ! (2 * i + 1) * bx_sin F (real pos * rope_freqs F theta (2 * h) ! i)) [0..<h] @
    map (\<lambda>i. x ! (2 * i + 1) * bx_cos F (real pos * rope_freqs F theta (2 * h) ! i) + x ! (2 * i) * bx_sin F (real pos * rope_freqs F theta (2 * h) ! i)) [0..<h]"
proof -
  have len: "length (rope_freqs F theta (2 * h)) = h" by (simp add: rope_freqs_def)
  show ?thesis by (rule nth_equalityI) (auto simp: rope_row_def Let_def assms len nth_append)
qed

lemma dot_maps: "dot (map f is') (map g is') = sum_list (map (\<lambda>i. f i * g i) is')"
  by (induction is') (simp_all add: dot_def)

lemma dot_append: "length a = length c \<Longrightarrow> dot (a @ b) (c @ d) = dot a c + dot b d"
  by (simp add: dot_def)

lemma rotation_shift:
  assumes "angle_laws F"
  shows "(x * bx_cos F (a + e) + - y * bx_sin F (a + e)) * (u * bx_cos F (b + e) + - v * bx_sin F (b + e)) +
      (y * bx_cos F (a + e) + x * bx_sin F (a + e)) * (v * bx_cos F (b + e) + u * bx_sin F (b + e)) =
    (x * bx_cos F a + - y * bx_sin F a) * (u * bx_cos F b + - v * bx_sin F b) +
      (y * bx_cos F a + x * bx_sin F a) * (v * bx_cos F b + u * bx_sin F b)"
proof -
  have sum: "bx_cos F (s + t) = bx_cos F s * bx_cos F t - bx_sin F s * bx_sin F t"
    "bx_sin F (s + t) = bx_sin F s * bx_cos F t + bx_cos F s * bx_sin F t" for s t using assms by (auto simp: angle_laws_def)
  have one: "bx_cos F e * bx_cos F e + bx_sin F e * bx_sin F e = 1" using assms by (simp add: angle_laws_def)
  show ?thesis unfolding sum using one by algebra
qed

text \<open>
  C32: the rotary embedding of ling turns absolute positions into relative ones. Shifting the positions
  of a query and of a key by the same amount leaves their score unchanged, so keys that were rotated when
  they entered the cache stay valid as decoding moves on.
\<close>

theorem rope_scores_relative:
  assumes "angle_laws F" and "length q = 2 * h" and "length k = 2 * h"
  shows "dot (rope_row F theta (m + d) q) (rope_row F theta (n + d) k) = dot (rope_row F theta m q) (rope_row F theta n k)"
proof -
  have "bx_cos F (real (p + d) * f) = bx_cos F (real p * f + real d * f)" "bx_sin F (real (p + d) * f) = bx_sin F (real p * f + real d * f)"
    for p f by (simp_all add: distrib_right)
  note shift = this
  show ?thesis
    unfolding rope_row_parts [OF assms(2)] rope_row_parts [OF assms(3)]
    by (simp only: dot_append dot_maps length_map sum_list_addf [symmetric] shift rotation_shift [OF assms(1)])
qed

section \<open>A small model\<close>

text \<open>
  One head of one entry per KDA layer, a convolution that sums two rows, a recurrence that sums the values,
  and attention that sums the values it sees; the cache is the list of what was appended.
\<close>

definition demo_scan :: "(real list list, toks) delta" where
  "demo_scan q k v g b s = scan (\<lambda>(q, k, v, g, b) s. (map2 (map2 (+)) v (hd s), [map2 (map2 (+)) v (hd s)]))
     (zip q (zip k (zip v (zip g b)))) s"

definition demo_lib :: "(toks \<times> toks, unit) bail_lib" where
  "demo_lib = \<lparr>bx_silu = (\<lambda>v. v), bx_sigmoid = (\<lambda>v. v), bx_exp = (\<lambda>v. v + 1), bx_softplus = (\<lambda>v. v), bx_norm = sum_list, bx_sqrt = sqrt,
     bx_cos = cos, bx_sin = sin, bx_pow = (\<lambda>b e. b powr e), bx_ops = demo_scan, bx_kernel = None, bx_gpu = False, bx_metal = False,
     bx_sdpa = (\<lambda>s qs ks vs m. map (\<lambda>i. foldr (map2 (map2 (+))) (take (Suc (length ks - length qs + i)) vs) (qs ! i)) [0..<length qs]),
     bx_mask = (\<lambda>n c. ()), bx_offset = (\<lambda>c. min (length (fst c)) (length (snd c))),
     bx_update = (\<lambda>ks vs c. let c = (take (length (snd c)) (fst c) @ ks, take (length (fst c)) (snd c) @ vs) in (c, c)), bx_kv0 = ([], [])\<rparr>"

definition demo_conv :: "real list list \<Rightarrow> real list list" where
  "demo_conv xs = map (\<lambda>t. (\<lambda>w. map2 (+) (w ! 0) (w ! 1)) (take 2 (drop t xs))) [0..<Suc (length xs) - 2]"

definition demo_kda :: kda where
  "demo_kda = \<lparr>kd_heads = 1, kd_dim = 1, kd_ksize = 2, kd_safe = True, kd_lower = - 5, kd_no_lora = True, kd_q_proj = id, kd_k_proj = id,
     kd_v_proj = id, kd_q_conv = demo_conv, kd_k_conv = demo_conv, kd_v_conv = demo_conv, kd_f_proj = id, kd_f_a = id, kd_f_b = id,
     kd_g_proj = id, kd_g_a = id, kd_g_b = id, kd_b_proj = id, kd_A_log = [0], kd_dt_bias = [0], kd_o_norm = id, kd_o_proj = id\<rparr>"

definition demo_mla :: mla where
  "demo_mla = \<lparr>ml_heads = 1, ml_nope = 1, ml_rope = 0, ml_vdim = 1, ml_kv_rank = 1, ml_q_rank = None, ml_gate_kind = Some ''head_wise'',
     ml_theta = 2, ml_q_proj = id, ml_q_a = id, ml_q_norm = id, ml_q_b = id, ml_kv_a = id, ml_kv_norm = id, ml_kv_b = (\<lambda>r. r @ r),
     ml_g_proj = id, ml_dense = id\<rparr>"

text \<open>
  One dense layer and one MoE layer of six experts, whose experts stream: staging is on and nothing is staged,
  so single tokens take the staged call's exact fallback.
\<close>

definition demo_bailing :: "bmap slayer bailing" where
  "demo_bailing = \<lparr>bm_layers = 2, bm_group = 2, bm_kda = (\<lambda>_. demo_kda), bm_mla = (\<lambda>_. demo_mla), bm_norm1 = (\<lambda>_. id), bm_norm2 = (\<lambda>_. id),
     bm_first_moe = 1, bm_dense = (\<lambda>_. (id, id, rev)), bm_R = demo_rk, bm_args = demo_args, bm_bias = (\<lambda>_. replicate 6 0),
     bm_gate = (\<lambda>_ x. map (\<lambda>i. real i * sum_list x) [0..<6]), bm_shared = (\<lambda>_. (id, id, id)),
     bm_experts = (\<lambda>_ xs is. forward demo_vkernels True (\<lambda>e. Inr (demo_f (3, e))) ([], id) Late xs (Some is)),
     bm_prerouter = True, bm_start = 1, bm_feature = ''teacher'', bm_intra = False,
     bm_embed = (\<lambda>t. [real t]), bm_clip = 1000, bm_final = id, bm_tied = False, bm_as_linear = id, bm_lm_head = (\<lambda>r. r @ r)\<rparr>"

abbreviation demo_streams :: "nat \<Rightarrow> bmap slayer \<Rightarrow> bool" where
  "demo_streams li \<equiv> streams demo_f demo_vkernels (\<lambda>e. Inr (demo_f (3, e))) 3 6"

lemma demo_block_streams: "streams demo_f demo_vkernels (\<lambda>e. Inr (demo_f (3, e))) 3 6 demo_block"
proof -
  have "s_state demo_block = None" "s_next demo_block = None" by (simp_all add: demo_block_def slayer_new_def Let_def layer.defs layer_new_def)
  then show ?thesis using demo_block_ok by (simp add: streams_def stacks_exact_def demo_block_fields)
qed

lemma demo_block_laws: "block_laws demo_bailing demo_streams li"
proof -
  have "answers (bm_experts demo_bailing li) 6 (demo_streams li) (\<lambda>x e. expert_out demo_vkernels True (demo_f (3, e)) x)"
    using forward_answers [OF demo_vkernels_ok(1) demo_block_ok(4), where fused = True and bld = "\<lambda>e. Inr (demo_f (3, e))" and t = Late and f = demo_f and i = 3]
    by (simp add: demo_bailing_def)
  moreover have "groups_fit 6 3 2 2" by (simp add: groups_fit_def)
  ultimately show ?thesis using demo_rk_ok by (auto simp: block_laws_def Let_def demo_bailing_def demo_args_def)
qed

definition demo_view :: "toks \<times> toks \<Rightarrow> toks \<times> toks" where
  "demo_view c = (take (length (snd c)) (fst c), take (length (fst c)) (snd c))"

lemma demo_laws: "bail_laws demo_lib demo_view" "kda_laws demo_lib demo_kda"
proof -
  have "causal (bx_sdpa demo_lib s) (bx_mask demo_lib)" for s
    unfolding causal_def
    by (rule exI [of _ "\<lambda>q ks vs. foldr (map2 (map2 (+))) vs q"]) (simp add: demo_lib_def)
  moreover have "appends (bx_offset demo_lib) (bx_update demo_lib) demo_view"
    by (auto simp: appends_def demo_lib_def demo_view_def Let_def min_def)
  ultimately show "bail_laws demo_lib demo_view" by (simp add: bail_laws_def)
  have "windowed 2 demo_conv" unfolding windowed_def by (rule exI [of _ "\<lambda>w. map2 (+) (w ! 0) (w ! 1)"]) (simp add: demo_conv_def)
  moreover have "scans demo_scan" unfolding scans_def
    by (rule exI [of _ "\<lambda>(q, k, v, g, b) s. (map2 (map2 (+)) v (hd s), [map2 (map2 (+)) v (hd s)])"]) (simp add: demo_scan_def)
  ultimately show "kda_laws demo_lib demo_kda" by (simp add: kda_laws_def demo_kda_def kda_fn_def demo_lib_def)
qed

theorem chunked_prefill_exact_witness:
  "\<exists>logits cs' Ls' ds' Ks'.
    model_chunks demo_lib demo_bailing (Some []) [[1], [2, 3, 4, 5, 6]] (make_cache demo_lib demo_bailing) [demo_block, demo_block] = Some (Inr (logits, cs', Ls')) \<and>
    bailing_model demo_lib demo_bailing (Some []) [1, 2, 3, 4, 5, 6] (Some (make_cache demo_lib demo_bailing)) [demo_block, demo_block] =
      Some (Inr (logits, Some ds', Ks')) \<and>
    (\<forall>li < bm_layers demo_bailing. layer_same demo_bailing demo_view li (ds' ! li) (cs' ! li) \<and> demo_streams li (Ls' ! li) \<and> demo_streams li (Ks' ! li))"
proof -
  have n: "bm_layers demo_bailing = 2" "bm_group demo_bailing = 2" by (simp_all add: demo_bailing_def)
  have "layer_laws demo_lib demo_bailing demo_view li (make_cache demo_lib demo_bailing ! li)" if "li < bm_layers demo_bailing" for li
    using that demo_laws by (simp add: layer_laws_def make_cache_def demo_bailing_def kda_cache_ok_def conv_state_ok_def)
  moreover have "demo_streams li ([demo_block, demo_block] ! li)" if "li < bm_layers demo_bailing" for li
    using that demo_block_streams n by (cases "li = 0") (simp_all add: nth_Cons')
  moreover have "length (make_cache demo_lib demo_bailing) = bm_layers demo_bailing" by (simp add: make_cache_def)
  ultimately show ?thesis
    using chunked_prefill_exact [where P = demo_streams and pg = "Some []" and css = "[[1], [2, 3, 4, 5, 6]]" and Ls = "[demo_block, demo_block]"
          and M = demo_bailing and cs = "make_cache demo_lib demo_bailing", OF demo_laws(1)] demo_block_laws n by simp
qed

theorem rope_scores_relative_witness:
  "dot (rope_row demo_lib 10000 (2 + 7) [1, 2, 3, 4]) (rope_row demo_lib 10000 (5 + 7) [3, 1, 0, 2]) =
     dot (rope_row demo_lib 10000 2 [1, 2, 3, 4]) (rope_row demo_lib 10000 5 [3, 1, 0, 2])"
proof (rule rope_scores_relative [where h = 2])
  have "cos a * cos a + sin a * sin a = 1" for a :: real using sin_cos_squared_add [of a] by (simp add: power2_eq_square)
  then show "angle_laws demo_lib" by (simp add: angle_laws_def demo_lib_def cos_add sin_add)
qed simp_all

end
