(* ===== verification/Qwen_Layers.thy ===== *)
theory Qwen_Layers
  imports Bailing_Layers
begin

text \<open>
  The attention layers of qwen and the model around them: \<open>GatedDeltaNet\<close>, \<open>DecoderLayer\<close>, \<open>Qwen3_5TextModel\<close>
  and \<open>TextModel\<close> of \<open>backends/mlx/_impl/qwen3_5.py\<close>, with \<open>Qwen3NextAttention\<close> and \<open>Qwen3NextRMSNormGated\<close> of
  \<open>backends/mlx/_impl/qwen3_next.py\<close>. Conventions are those of \<open>Bailing_Layers\<close>: one batch row, matrices as
  functions of a row, exact arithmetic, and MLX's and \<open>mlx_lm\<close>'s functions in the record \<open>qwen_lib\<close>. The model
  is not sharded.
\<close>

record ('kv, 'm) qwen_lib =
  qx_silu :: "real \<Rightarrow> real"
  qx_sigmoid :: "real \<Rightarrow> real"
  qx_sqrt :: "real \<Rightarrow> real"
  qx_rms :: "row \<Rightarrow> row"
  qx_delta :: "row \<Rightarrow> row \<Rightarrow> toks \<Rightarrow> toks \<Rightarrow> toks \<Rightarrow> row list \<Rightarrow> row list \<Rightarrow> toks option \<Rightarrow> bool list option \<Rightarrow> toks \<times> toks"
  qx_sdpa :: "real \<Rightarrow> toks \<Rightarrow> toks \<Rightarrow> toks \<Rightarrow> 'm \<Rightarrow> toks"
  qx_fa_mask :: "nat \<Rightarrow> 'kv option \<Rightarrow> 'm"
  qx_ssm_mask :: "nat \<Rightarrow> (real list list option \<times> toks option) option \<Rightarrow> bool list option"
  qx_rope :: "nat \<Rightarrow> toks \<Rightarrow> toks"
  qx_offset :: "'kv \<Rightarrow> nat"
  qx_update :: "toks \<Rightarrow> toks \<Rightarrow> 'kv \<Rightarrow> (toks \<times> toks) \<times> 'kv"
  qx_kv0 :: 'kv

section \<open>The linear layers\<close>

record gdn =
  gn_v_heads :: nat
  gn_k_heads :: nat
  gn_k_dim :: nat
  gn_v_dim :: nat
  gn_ksize :: nat
  gn_conv :: "real list list \<Rightarrow> real list list"
  gn_qkv :: "row \<Rightarrow> row"
  gn_z :: "row \<Rightarrow> row"
  gn_b :: "row \<Rightarrow> row"
  gn_a :: "row \<Rightarrow> row"
  gn_A_log :: row
  gn_dt_bias :: row
  gn_norm :: "row \<Rightarrow> row"
  gn_out :: "row \<Rightarrow> row"

type_synonym gdn_cache = "real list list option \<times> toks option"

text \<open>\<open>RMSNormGated\<close>: the normalised output times \<open>silu\<close> of the gate.\<close>

definition norm_gated :: "('kv, 'm) qwen_lib \<Rightarrow> gdn \<Rightarrow> row \<Rightarrow> row \<Rightarrow> row" where
  "norm_gated F P out z = map2 (*) (map (qx_silu F) z) (gn_norm P out)"

text \<open>
  The convolution reads the cached rows in front of the new ones. Unlike \<open>ShortConv1d\<close> of ling the slice
  \<open>[:, -(k - 1):]\<close> has no case for kernel size 1, where it keeps every row.
\<close>

definition gdn_conv ::
  "('kv, 'm) qwen_lib \<Rightarrow> gdn \<Rightarrow> bool list option \<Rightarrow> real list list \<Rightarrow> real list list option \<Rightarrow> real list list \<times> real list list" where
  "gdn_conv F P m x cached =
     (let ks = gn_ksize P; conv_dim = gn_k_dim P * gn_k_heads P * 2 + gn_v_dim P * gn_v_heads P;
          qkv = map (gn_qkv P) x;
          conv_state = (case cached of Some s \<Rightarrow> s | None \<Rightarrow> replicate (ks - 1) (replicate conv_dim 0));
          qkv = (case m of None \<Rightarrow> qkv | Some bs \<Rightarrow> map2 (\<lambda>b r. if b then r else replicate (length r) 0) bs qkv);
          conv_input = conv_state @ qkv
      in (map (map (qx_silu F)) (gn_conv P conv_input),
          if ks = 1 then conv_input else drop (length conv_input - (ks - 1)) conv_input))"

definition gdn_call ::
  "('kv, 'm) qwen_lib \<Rightarrow> gdn \<Rightarrow> bool list option \<Rightarrow> real list list \<Rightarrow> gdn_cache option \<Rightarrow> real list list \<times> gdn_cache option" where
  "gdn_call F P m x cache =
     (let (conv_state, st) = (case cache of None \<Rightarrow> (None, None) | Some c \<Rightarrow> c);
          z = map (\<lambda>r. heads (gn_v_heads P) (gn_v_dim P) (gn_z P r)) x;
          (conv_out, new_conv) = gdn_conv F P m x conv_state;
          k_dim = gn_k_dim P * gn_k_heads P;
          inv_scale = 1 / qx_sqrt F (real (gn_k_dim P));
          q = map (\<lambda>r. map (\<lambda>h. map ((*) (inv_scale * inv_scale)) (qx_rms F h)) (heads (gn_k_heads P) (gn_k_dim P) (take k_dim r))) conv_out;
          k = map (\<lambda>r. map (\<lambda>h. map ((*) inv_scale) (qx_rms F h)) (heads (gn_k_heads P) (gn_k_dim P) (take k_dim (drop k_dim r)))) conv_out;
          v = map (\<lambda>r. heads (gn_v_heads P) (gn_v_dim P) (drop (2 * k_dim) r)) conv_out;
          (out, st) = qx_delta F (gn_A_log P) (gn_dt_bias P) q k v (map (gn_a P) x) (map (gn_b P) x) st m
      in (map2 (\<lambda>o' g. gn_out P (concat (map2 (norm_gated F P) o' g))) out z,
          map_option (\<lambda>_. (Some new_conv, Some st)) cache))"

section \<open>The softmax layers\<close>

record attn =
  an_heads :: nat
  an_kv_heads :: nat
  an_dim :: nat
  an_q :: "row \<Rightarrow> row"
  an_k :: "row \<Rightarrow> row"
  an_v :: "row \<Rightarrow> row"
  an_o :: "row \<Rightarrow> row"
  an_q_norm :: "row \<Rightarrow> row"
  an_k_norm :: "row \<Rightarrow> row"

text \<open>The query projection holds, for every head, the query and then the output gate.\<close>

definition attn_query :: "attn \<Rightarrow> row \<Rightarrow> real list list" where
  "attn_query P r = map (\<lambda>h. an_q_norm P (take (an_dim P) h)) (heads (an_heads P) (2 * an_dim P) (an_q P r))"

definition attn_gate :: "attn \<Rightarrow> row \<Rightarrow> row" where
  "attn_gate P r = concat (map (drop (an_dim P)) (heads (an_heads P) (2 * an_dim P) (an_q P r)))"

definition attn_call :: "('kv, 'm) qwen_lib \<Rightarrow> attn \<Rightarrow> 'm \<Rightarrow> real list list \<Rightarrow> 'kv option \<Rightarrow> real list list \<times> 'kv option" where
  "attn_call F P m x cache =
     (let queries = map (attn_query P) x;
          keys = map (\<lambda>r. map (an_k_norm P) (heads (an_kv_heads P) (an_dim P) (an_k P r))) x;
          vals = map (\<lambda>r. heads (an_kv_heads P) (an_dim P) (an_v P r)) x;
          (queries, (keys, vals), cache) =
            (case cache of
               None \<Rightarrow> (qx_rope F 0 queries, (qx_rope F 0 keys, vals), None)
             | Some c \<Rightarrow>
                 (case qx_update F (qx_rope F (qx_offset F c) keys) vals c of
                    (kv, c') \<Rightarrow> (qx_rope F (qx_offset F c) queries, kv, Some c')));
          out = qx_sdpa F (1 / qx_sqrt F (real (an_dim P))) queries keys vals m
      in (map2 (\<lambda>r o'. an_o P (map2 (\<lambda>v g. v * qx_sigmoid F g) (concat o') (attn_gate P r))) x out, cache))"

section \<open>The model\<close>

record 'kv qcache =
  qa_arrays :: gdn_cache
  qa_kv :: 'kv

text \<open>
  The MLP of a layer: the sparse block of \<open>Moe_Blocks\<close> with the patch of the prerouter over it (a block
  that was not enabled runs the original), or a dense one when the model has no experts.
\<close>

record 'l qwen_text =
  qt_layers :: nat
  qt_interval :: nat
  qt_gdn :: "nat \<Rightarrow> gdn"
  qt_attn :: "nat \<Rightarrow> attn"
  qt_norm1 :: "nat \<Rightarrow> row \<Rightarrow> row"
  qt_norm2 :: "nat \<Rightarrow> row \<Rightarrow> row"
  qt_sparse :: bool
  qt_dense :: "nat \<Rightarrow> swi"
  qt_R :: "real rkernels"
  qt_block :: "nat \<Rightarrow> real moe_block"
  qt_experts :: "nat \<Rightarrow> real list list \<Rightarrow> (real, 'l) layer_call"
  qt_replace :: "nat \<Rightarrow> bool"
  qt_embed :: "nat \<Rightarrow> row"
  qt_clip :: real
  qt_final :: "row \<Rightarrow> row"
  qt_tied :: bool
  qt_as_linear :: "row \<Rightarrow> row"
  qt_lm_head :: "row \<Rightarrow> row"

definition is_linear :: "'l qwen_text \<Rightarrow> nat \<Rightarrow> bool" where
  "is_linear M li \<longleftrightarrow> (li + 1) mod qt_interval M \<noteq> 0"

definition qwen_make_cache :: "('kv, 'm) qwen_lib \<Rightarrow> 'l qwen_text \<Rightarrow> 'kv qcache list" where
  "qwen_make_cache F M = map (\<lambda>li. \<lparr>qa_arrays = (None, None), qa_kv = qx_kv0 F\<rparr>) [0..<qt_layers M]"

definition qwen_attention ::
  "('kv, 'm) qwen_lib \<Rightarrow> 'l qwen_text \<Rightarrow> nat \<Rightarrow> bool list option \<Rightarrow> 'm \<Rightarrow> real list list \<Rightarrow> 'kv qcache option \<Rightarrow> real list list \<times> 'kv qcache option" where
  "qwen_attention F M li ssm fa x cache =
     (if is_linear M li then
        (case gdn_call F (qt_gdn M li) ssm x (map_option qa_arrays cache) of
           (out, c) \<Rightarrow> (out, map_option (\<lambda>cc. cc\<lparr>qa_arrays := the c\<rparr>) cache))
      else
        (case attn_call F (qt_attn M li) fa x (map_option qa_kv cache) of
           (out, c) \<Rightarrow> (out, map_option (\<lambda>cc. cc\<lparr>qa_kv := the c\<rparr>) cache)))"

definition qwen_mlp :: "('kv, 'm) qwen_lib \<Rightarrow> swi \<Rightarrow> row \<Rightarrow> row" where
  "qwen_mlp F = (\<lambda>(gate_proj, up_proj, down_proj) r. down_proj (map2 (*) (map (qx_silu F) (gate_proj r)) (up_proj r)))"

text \<open>\<open>w\<close> is what the blocks share with the stager: the prerouter's state and their captures.\<close>

definition qwen_ffn ::
  "('kv, 'm) qwen_lib \<Rightarrow> 'l qwen_text \<Rightarrow> nat \<Rightarrow> real list list \<Rightarrow> (real, 'b) qworld \<Rightarrow> 'l \<Rightarrow> (real list list \<times> (real, 'b) qworld \<times> 'l) run" where
  "qwen_ffn F M li xs w L =
     (if qt_sparse M then
        map_option (\<lambda>(r, w, L). map_sum id (\<lambda>ys. (ys, w, L)) r)
          (prerouter_call (qt_R M) (qt_block M li) (qt_experts M li xs) (qt_replace M li) xs w L)
      else Some (Inr (map (qwen_mlp F (qt_dense M li)) xs, w, L)))"

definition qwen_decoder ::
  "('kv, 'm) qwen_lib \<Rightarrow> 'l qwen_text \<Rightarrow> nat \<Rightarrow> bool list option \<Rightarrow> 'm \<Rightarrow> real list list \<Rightarrow> 'kv qcache option \<Rightarrow> (real, 'b) qworld \<Rightarrow> 'l \<Rightarrow>
     (real list list \<times> 'kv qcache option \<times> (real, 'b) qworld \<times> 'l) run" where
  "qwen_decoder F M li ssm fa x cache w L =
     (let (r, cache) = qwen_attention F M li ssm fa (map (qt_norm1 M li) x) cache;
          h = add_rows x r
      in run_bind (qwen_ffn F M li (map (qt_norm2 M li) h) w L) (\<lambda>(out, w, L). Some (Inr (add_rows h out, cache, w, L))))"

definition qwen_clip :: "'l qwen_text \<Rightarrow> row \<Rightarrow> row" where
  "qwen_clip M r = (if 0 < qt_clip M then map (\<lambda>v. max (- qt_clip M) (min (qt_clip M) v)) r else r)"

fun qwen_loop ::
  "('kv, 'm) qwen_lib \<Rightarrow> 'l qwen_text \<Rightarrow> bool list option \<Rightarrow> 'm \<Rightarrow> (nat \<times> 'kv qcache option \<times> 'l) list \<Rightarrow> real list list \<Rightarrow> (real, 'b) qworld \<Rightarrow>
     (real list list \<times> ('kv qcache option \<times> 'l) list \<times> (real, 'b) qworld) run" where
  "qwen_loop F M ssm fa [] h w = Some (Inr (h, [], w))"
| "qwen_loop F M ssm fa ((li, c, L) # ls) h w =
     run_bind (qwen_decoder F M li ssm fa h c w L) (\<lambda>(h, c, w, L).
     run_bind (qwen_loop F M ssm fa ls (map (qwen_clip M) h) w) (\<lambda>(h, cLs, w). Some (Inr (h, (c, L) # cLs, w))))"

text \<open>The masks are made once, from the caches at \<open>fa_idx = interval - 1\<close> and \<open>ssm_idx = 0\<close>.\<close>

definition qwen_text_model ::
  "('kv, 'm) qwen_lib \<Rightarrow> 'l qwen_text \<Rightarrow> nat list \<Rightarrow> 'kv qcache list option \<Rightarrow> (real, 'b) qworld \<Rightarrow> 'l list \<Rightarrow>
     (real list list \<times> 'kv qcache list option \<times> (real, 'b) qworld \<times> 'l list) run" where
  "qwen_text_model F M inputs cache w Ls =
     (let h = map (qt_embed M) inputs;
          caches = (case cache of None \<Rightarrow> replicate (qt_layers M) None | Some cs \<Rightarrow> map Some cs);
          fa_idx = qt_interval M - 1
      in if fa_idx < length caches \<and> 0 < length caches then
           run_bind (qwen_loop F M (qx_ssm_mask F (length h) (map_option qa_arrays (caches ! 0)))
                       (qx_fa_mask F (length h) (map_option qa_kv (caches ! fa_idx))) (zip [0..<qt_layers M] (zip caches Ls)) h w)
             (\<lambda>(h, cLs, w).
               Some (Inr (map (\<lambda>r. (if qt_tied M then qt_as_linear M else qt_lm_head M) (qt_final M r)) h,
                 map_option (\<lambda>_. map (the \<circ> fst) cLs) cache, w, map snd cLs)))
         else Some (Inl IndexError))"

section \<open>The layers meet the contract\<close>

text \<open>
  The laws of the libraries: the recurrence starts from a fixed state when it has none, the rotation is
  taken position by position, and an unpadded batch has no mask on the linear layers.
\<close>

definition delta_law :: "('kv, 'm) qwen_lib \<Rightarrow> bool" where
  "delta_law F \<longleftrightarrow> (\<forall>A dt. \<exists>dl init. scans dl \<and> (\<forall>q k v a b st. qx_delta F A dt q k v a b st None = dl q k v a b (case st of None \<Rightarrow> init | Some s \<Rightarrow> s)))"

definition positional :: "(nat \<Rightarrow> toks \<Rightarrow> toks) \<Rightarrow> bool" where
  "positional rope \<longleftrightarrow> (\<exists>f. \<forall>n xs. rope n xs = map (\<lambda>(p, x). f p x) (enumerate n xs))"

definition qwen_laws :: "('kv, 'm) qwen_lib \<Rightarrow> ('kv \<Rightarrow> toks \<times> toks) \<Rightarrow> bool" where
  "qwen_laws F view \<longleftrightarrow> delta_law F \<and> positional (qx_rope F) \<and> (\<forall>n c. qx_ssm_mask F n c = None) \<and>
     (\<forall>s. causal (qx_sdpa F s) (qx_fa_mask F)) \<and> appends (qx_offset F) (qx_update F) view"

definition gdn_laws :: "gdn \<Rightarrow> bool" where
  "gdn_laws P \<longleftrightarrow> 1 < gn_ksize P \<and> windowed (gn_ksize P) (gn_conv P)"

definition gdn_step :: "('kv, 'm) qwen_lib \<Rightarrow> gdn \<Rightarrow> real list list \<Rightarrow> gdn_cache \<Rightarrow> real list list \<times> gdn_cache" where
  "gdn_step F P x c = (case gdn_call F P None x (Some c) of (out, c) \<Rightarrow> (out, the c))"

definition gdn_cache_ok :: "gdn \<Rightarrow> gdn_cache \<Rightarrow> bool" where
  "gdn_cache_ok P c \<longleftrightarrow> conv_state_ok (gn_ksize P) (fst c)"

lemma gdn_conv_split:
  assumes "gdn_laws P" and "conv_state_ok (gn_ksize P) st"
  shows "gdn_conv F P None (x @ y) st =
    (fst (gdn_conv F P None x st) @ fst (gdn_conv F P None y (Some (snd (gdn_conv F P None x st)))),
     snd (gdn_conv F P None y (Some (snd (gdn_conv F P None x st)))))"
    and "length (fst (gdn_conv F P None x st)) = length x"
    and "conv_state_ok (gn_ksize P) (Some (snd (gdn_conv F P None x st)))"
proof -
  let ?k = "gn_ksize P"
  have w: "windowed ?k (gn_conv P)" "0 < ?k" "?k \<noteq> 1" using assms(1) by (auto simp: gdn_laws_def)
  let ?s = "conv_start ?k (gn_k_dim P * gn_k_heads P * 2 + gn_v_dim P * gn_v_heads P)"
  have roll: "gdn_conv F P None x' st' =
      (map (map (qx_silu F)) (fst (rolled ?k (gn_conv P) (?s st') (map (gn_qkv P) x'))), snd (rolled ?k (gn_conv P) (?s st') (map (gn_qkv P) x')))"
    for x' st' using w(3) by (simp add: gdn_conv_def rolled_def conv_start_def Let_def split: option.split)
  note l = conv_start_length [OF assms(2)]
  show "gdn_conv F P None (x @ y) st =
    (fst (gdn_conv F P None x st) @ fst (gdn_conv F P None y (Some (snd (gdn_conv F P None x st)))),
     snd (gdn_conv F P None y (Some (snd (gdn_conv F P None x st)))))"
    by (simp add: roll rolled_split [OF w(1,2) l])
  show "length (fst (gdn_conv F P None x st)) = length x" by (simp add: roll rolled_lengths [OF w(1,2) l])
  show "conv_state_ok ?k (Some (snd (gdn_conv F P None x st)))"
    using rolled_lengths [OF w(1,2) l] by (simp add: roll conv_state_ok_def)
qed

lemma gdn_step_ok:
  assumes "qwen_laws F view" and "gdn_laws P" and "gdn_cache_ok P c"
  shows "gdn_cache_ok P (snd (gdn_step F P x c))" and "length (fst (gdn_step F P x c)) = length x"
    and "gdn_step F P (x @ y) c =
      (fst (gdn_step F P x c) @ fst (gdn_step F P y (snd (gdn_step F P x c))), snd (gdn_step F P y (snd (gdn_step F P x c))))"
proof -
  obtain cs st where c: "c = (cs, st)" by (cases c)
  have cs: "conv_state_ok (gn_ksize P) cs" using assms(3) by (simp add: c gdn_cache_ok_def)
  obtain dl init where dl: "scans dl"
    "\<And>q k v a b st. qx_delta F (gn_A_log P) (gn_dt_bias P) q k v a b st None = dl q k v a b (case st of None \<Rightarrow> init | Some s \<Rightarrow> s)"
    using assms(1) unfolding qwen_laws_def delta_law_def by blast
  note conv = gdn_conv_split [OF assms(2) cs] gdn_conv_split(2) [OF assms(2) gdn_conv_split(3) [OF assms(2) cs]]
  show "gdn_cache_ok P (snd (gdn_step F P x c))"
    using conv(3) by (simp add: gdn_step_def gdn_call_def c Let_def split_beta gdn_cache_ok_def)
  show "length (fst (gdn_step F P x c)) = length x"
    by (simp add: gdn_step_def gdn_call_def c Let_def split_beta dl(2) scans_length [OF dl(1)] conv)
  show "gdn_step F P (x @ y) c =
      (fst (gdn_step F P x c) @ fst (gdn_step F P y (snd (gdn_step F P x c))), snd (gdn_step F P y (snd (gdn_step F P x c))))"
    by (simp add: gdn_step_def gdn_call_def c Let_def split_beta dl(2) scans_split [OF dl(1)] scans_length [OF dl(1)] conv)
qed

interpretation gdn: chunked "gdn_step F P" "\<lambda>c. qwen_laws F view \<and> gdn_laws P \<and> gdn_cache_ok P c" "(=)"
  by (rule chunked.intro) (auto simp: gdn_step_ok)

text \<open>The softmax layer.\<close>

definition attn_step :: "('kv, 'm) qwen_lib \<Rightarrow> attn \<Rightarrow> real list list \<Rightarrow> 'kv \<Rightarrow> real list list \<times> 'kv" where
  "attn_step F P x c = (case attn_call F P (qx_fa_mask F (length x) None) x (Some c) of (out, c) \<Rightarrow> (out, the c))"

lemma qwen_laws_view: "qwen_laws F view \<Longrightarrow> length (snd (view c)) = length (fst (view c))"
  by (simp add: qwen_laws_def appends_def)

lemma qwen_laws_causal: "qwen_laws F view \<Longrightarrow> causal (qx_sdpa F s) (qx_fa_mask F)"
  by (simp add: qwen_laws_def)

lemma enumerate_map_snd: "map (\<lambda>(p, x). f p x) (enumerate n (map g xs)) = map (\<lambda>(p, x). f p (g x)) (enumerate n xs)"
  by (rule nth_equalityI) (simp_all add: nth_enumerate_eq)

lemma map_enumerate_snd: "map g xs = map (\<lambda>p. g (snd p)) (enumerate n xs)"
  by (rule nth_equalityI) (simp_all add: nth_enumerate_eq)

definition rotated :: "(nat \<Rightarrow> real list list \<Rightarrow> real list list) \<Rightarrow> ('kv, 'm) qwen_lib \<Rightarrow> bool" where
  "rotated f F \<longleftrightarrow> (\<forall>n xs. qx_rope F n xs = map (\<lambda>(p, x). f p x) (enumerate n xs))"

abbreviation attn_rows ::
  "(nat \<Rightarrow> real list list \<Rightarrow> real list list) \<Rightarrow> ('kv, 'm) qwen_lib \<Rightarrow> attn \<Rightarrow> 'm \<Rightarrow> real list list \<Rightarrow> toks \<times> toks \<Rightarrow> real list list" where
  "attn_rows f F P \<equiv> att_rows (\<lambda>r o'. an_o P (map2 (\<lambda>v g. v * qx_sigmoid F g) (concat o') (attn_gate P r))) (qx_sdpa F (1 / qx_sqrt F (real (an_dim P))))
     (\<lambda>(p, r). f p (attn_query P r)) (\<lambda>(p, r). f p (map (an_k_norm P) (heads (an_kv_heads P) (an_dim P) (an_k P r))))
     (\<lambda>p. heads (an_kv_heads P) (an_dim P) (an_v P (snd p)))"

abbreviation attn_keys :: "(nat \<Rightarrow> real list list \<Rightarrow> real list list) \<Rightarrow> attn \<Rightarrow> real list list \<Rightarrow> toks \<times> toks \<Rightarrow> toks \<times> toks" where
  "attn_keys f P \<equiv> att_keys (\<lambda>(p, r). f p (map (an_k_norm P) (heads (an_kv_heads P) (an_dim P) (an_k P r))))
     (\<lambda>p. heads (an_kv_heads P) (an_dim P) (an_v P (snd p)))"

lemma attn_call_cached:
  assumes "qwen_laws F view" and "rotated f F"
  shows "fst (attn_call F P m x (Some c)) = attn_rows f F P m x (view c)"
    and "\<exists>c'. snd (attn_call F P m x (Some c)) = Some c' \<and> view c' = attn_keys f P x (view c)"
proof -
  have n: "qx_offset F c = length (fst (view c))"
    and upd: "length vs = length ks \<Longrightarrow> fst (qx_update F ks vs c) = (fst (view c) @ ks, snd (view c) @ vs) \<and>
      view (snd (qx_update F ks vs c)) = (fst (view c) @ ks, snd (view c) @ vs)" for ks vs
    using assms(1) by (auto simp: qwen_laws_def appends_def)
  have rope: "qx_rope F k (map g x) = map (\<lambda>(p, r). f p (g r)) (enumerate k x)" for k g
    using assms(2) by (simp add: rotated_def enumerate_map_snd)
  have vals: "map (\<lambda>r. heads (an_kv_heads P) (an_dim P) (an_v P r)) x =
      map (\<lambda>p. heads (an_kv_heads P) (an_dim P) (an_v P (snd p))) (enumerate (length (fst (view c))) x)" by (rule map_enumerate_snd)
  show "fst (attn_call F P m x (Some c)) = attn_rows f F P m x (view c)"
    by (simp add: attn_call_def Let_def split_beta upd rope n att_rows_def att_keys_def vals)
  show "\<exists>c'. snd (attn_call F P m x (Some c)) = Some c' \<and> view c' = attn_keys f P x (view c)"
    by (simp add: attn_call_def Let_def split_beta upd rope n att_keys_def vals)
qed

lemma attn_mask_irrelevant:
  assumes "qwen_laws F view"
  shows "attn_call F P (qx_fa_mask F (length x) d) x (Some c) = attn_call F P (qx_fa_mask F (length x) None) x (Some c)"
proof -
  obtain f where f: "rotated f F" using assms by (auto simp: qwen_laws_def positional_def rotated_def)
  have "snd (attn_call F P (qx_fa_mask F (length x) d) x (Some c)) = snd (attn_call F P (qx_fa_mask F (length x) None) x (Some c))"
    by (simp add: attn_call_def Let_def split_beta)
  then show ?thesis
    using att_rows_mask [OF qwen_laws_causal [OF assms] qwen_laws_view [OF assms]] by (simp add: prod_eq_iff attn_call_cached(1) [OF assms f])
qed

lemma attn_step_cached:
  assumes "qwen_laws F view" and "rotated f F"
  shows "fst (attn_step F P x c) = attn_rows f F P (qx_fa_mask F (length x) None) x (view c)"
    and "view (snd (attn_step F P x c)) = attn_keys f P x (view c)"
  using attn_call_cached [OF assms, of P "qx_fa_mask F (length x) None" x c] by (auto simp: attn_step_def split_beta)

interpretation attn: chunked "attn_step F P" "\<lambda>c. qwen_laws F view" "\<lambda>c d. view c = view d"
proof (cases "\<exists>f. rotated f F")
  case True
  then obtain f where f: "rotated f F" by blast
  show "chunked (attn_step F P) (\<lambda>c. qwen_laws F view) (\<lambda>c d. view c = view d)"
  proof (rule chunked.intro, goal_cases)
    case (3 c xs ys)
    then show ?case
      using att_rows_split [OF qwen_laws_causal [OF 3] qwen_laws_view [OF 3]] by (simp only: attn_step_cached [OF 3 f])
  qed (simp_all add: attn_step_cached [OF _ f] att_keys_append att_rows_length [OF qwen_laws_causal qwen_laws_view])
next
  case False
  then have "\<not> qwen_laws F view" by (auto simp: qwen_laws_def positional_def rotated_def)
  then show "chunked (attn_step F P) (\<lambda>c. qwen_laws F view) (\<lambda>c d. view c = view d)" by (intro chunked.intro) simp_all
qed

section \<open>Chunked prefill is exact\<close>

definition qlayer_laws :: "('kv, 'm) qwen_lib \<Rightarrow> 'l qwen_text \<Rightarrow> ('kv \<Rightarrow> toks \<times> toks) \<Rightarrow> nat \<Rightarrow> 'kv qcache \<Rightarrow> bool" where
  "qlayer_laws F M view li c \<longleftrightarrow> qwen_laws F view \<and> (is_linear M li \<longrightarrow> gdn_laws (qt_gdn M li) \<and> gdn_cache_ok (qt_gdn M li) (qa_arrays c))"

definition qlayer_same :: "'l qwen_text \<Rightarrow> ('kv \<Rightarrow> toks \<times> toks) \<Rightarrow> nat \<Rightarrow> 'kv qcache \<Rightarrow> 'kv qcache \<Rightarrow> bool" where
  "qlayer_same M view li c d \<longleftrightarrow> (if is_linear M li then qa_arrays c = qa_arrays d else view (qa_kv c) = view (qa_kv d))"

definition qatt_step :: "('kv, 'm) qwen_lib \<Rightarrow> 'l qwen_text \<Rightarrow> nat \<Rightarrow> real list list \<Rightarrow> 'kv qcache \<Rightarrow> real list list \<times> 'kv qcache" where
  "qatt_step F M li x c =
     (case qwen_attention F M li None (qx_fa_mask F (length x) None) x (Some c) of (out, c) \<Rightarrow> (out, the c))"

lemma qatt_step_cases:
  "is_linear M li \<Longrightarrow>
     qatt_step F M li x c = (fst (gdn_step F (qt_gdn M li) x (qa_arrays c)), c\<lparr>qa_arrays := snd (gdn_step F (qt_gdn M li) x (qa_arrays c))\<rparr>)"
  "\<not> is_linear M li \<Longrightarrow>
     qatt_step F M li x c = (fst (attn_step F (qt_attn M li) x (qa_kv c)), c\<lparr>qa_kv := snd (attn_step F (qt_attn M li) x (qa_kv c))\<rparr>)"
  by (simp_all add: qatt_step_def qwen_attention_def gdn_step_def attn_step_def split_beta)

interpretation qatt: chunked "qatt_step F M li" "qlayer_laws F M view li" "qlayer_same M view li"
proof (cases "is_linear M li")
  case True
  then show "chunked (qatt_step F M li) (qlayer_laws F M view li) (qlayer_same M view li)"
    by (intro chunked.intro) (auto simp: qlayer_laws_def qlayer_same_def qatt_step_cases gdn_step_ok)
next
  case False
  then show "chunked (qatt_step F M li) (qlayer_laws F M view li) (qlayer_same M view li)"
    by (intro chunked.intro) (auto simp: qlayer_laws_def qlayer_same_def qatt_step_cases attn.rows_call attn.split_rows
      dest: attn.split_cache attn.same_rows attn.same_cache)
qed

text \<open>
  No prediction for any consumer, and room for the captures: the state after a reset and through prefill,
  and while the prerouter has made none. Calls of the blocks keep it; only the stager writes predictions.
\<close>

definition quiet :: "'l qwen_text \<Rightarrow> (real, 'b) qworld \<Rightarrow> bool" where
  "quiet M w \<longleftrightarrow> (\<forall>li < qt_layers M. let b = qt_block M li; st = qw_state w in
     mb_enabled b \<longrightarrow> 0 \<le> mb_li b \<and> mb_li b < int (length (ps_oh st)) \<and> (ps_start st \<le> mb_li b \<longrightarrow> py_at (ps_pred_inds st) (mb_li b) = Inr None))"

definition rowwise_qffn :: "('kv, 'm) qwen_lib \<Rightarrow> 'l qwen_text \<Rightarrow> ((real, 'b) qworld \<Rightarrow> bool) \<Rightarrow> (nat \<Rightarrow> 'l \<Rightarrow> bool) \<Rightarrow> nat \<Rightarrow> (row \<Rightarrow> row) \<Rightarrow> bool" where
  "rowwise_qffn F M Q P li g \<longleftrightarrow>
     (\<forall>xs w L. Q w \<and> P li L \<longrightarrow> (\<exists>w' L'. qwen_ffn F M li xs w L = Some (Inr (map g xs, w', L')) \<and> Q w' \<and> P li L'))"

definition qblock_laws :: "'l qwen_text \<Rightarrow> (nat \<Rightarrow> 'l \<Rightarrow> bool) \<Rightarrow> nat \<Rightarrow> bool" where
  "qblock_laws M P li \<longleftrightarrow>
     (let b = qt_block M li in
      rkernels_ok (qt_R M) \<and> 0 < mb_top_k b \<and> mb_top_k b \<le> mb_num b \<and> (\<forall>x. length (mb_gate b x) = mb_num b) \<and>
      (\<exists>out. answers (qt_experts M li) (mb_num b) (P li) out))"

lemma select_total:
  assumes "rkernels_ok R" and "0 < k" "k \<le> length lg"
  shows "\<exists>sel. select_from_logits R lg k renorm = Inr sel \<and> (\<forall>e \<in> set (fst sel). e < length lg)"
proof -
  obtain inds ws where "select_from_logits R lg k True = Inr (inds, ws)" "set inds \<subseteq> {..<length lg}"
    using select_from_logits_best [OF assms] by blast
  then show ?thesis by (cases renorm) (auto simp: select_from_logits_def Let_def res_bind_def split: sum.splits)
qed

lemma qblock_rowwise:
  assumes li: "li < qt_layers M" and laws: "qt_sparse M \<longrightarrow> qblock_laws M P li"
  shows "\<exists>g. rowwise_qffn F M (quiet M) P li g"
proof (cases "qt_sparse M")
  case False
  then show ?thesis by (intro exI [of _ "qwen_mlp F (qt_dense M li)"]) (simp add: rowwise_qffn_def qwen_ffn_def)
next
  case True
  let ?b = "qt_block M li"
  obtain out where R: "rkernels_ok (qt_R M)" "0 < mb_top_k ?b" "mb_top_k ?b \<le> mb_num ?b" "\<And>x. length (mb_gate ?b x) = mb_num ?b"
    and E: "answers (qt_experts M li) (mb_num ?b) (P li) out"
    using laws True by (auto simp: qblock_laws_def Let_def)
  have "\<forall>x. \<exists>sel. select_from_logits (qt_R M) (mb_gate ?b x) (mb_top_k ?b) (mb_norm ?b) = Inr sel \<and> (\<forall>e \<in> set (fst sel). e < mb_num ?b)"
    using select_total [OF R(1,2)] R(3,4) by metis
  then obtain sel where sel: "\<And>x. select_from_logits (qt_R M) (mb_gate ?b x) (mb_top_k ?b) (mb_norm ?b) = Inr (sel x)"
    "\<And>x. \<forall>e \<in> set (fst (sel x)). e < mb_num ?b" by metis
  let ?row = "block_row (mb_shared ?b) out sel"
  have "\<exists>w' L'. qwen_ffn F M li xs w L = Some (Inr (map ?row xs, w', L')) \<and> quiet M w' \<and> P li L'" if w: "quiet M w" and L: "P li L" for xs w L
  proof -
    obtain L' where run: "moe_apply (mb_shared ?b) (qt_experts M li xs) xs (map sel xs) L = Some (Inr (map ?row xs), L')" "P li L'"
      using moe_apply_answers [where sel = sel, OF E L sel(2)] by blast
    have all: "res_map (\<lambda>x. select_from_logits (qt_R M) (mb_gate ?b x) (mb_top_k ?b) (mb_norm ?b)) xs = Inr (map sel xs)"
      by (rule res_map_all_Inr) (simp add: sel(1))
    have router: "router_call (qt_R M) ?b (qt_experts M li xs) xs L = Some (Inr (map ?row xs), L')"
      using run(1) by (simp add: router_call_def all)
    show ?thesis
    proof (cases "\<exists>x. xs = [x] \<and> mb_enabled ?b \<and> \<not> qt_replace M li")
      case False
      then have "prerouter_call (qt_R M) ?b (qt_experts M li xs) (qt_replace M li) xs w L = Some (Inr (map ?row xs), w, L')"
        using router by (auto simp: prerouter_call_def split: list.splits)
      then show ?thesis using True w run(2) by (simp add: qwen_ffn_def)
    next
      case True
      then obtain x where x: "xs = [x]" "mb_enabled ?b" "\<not> qt_replace M li" by blast
      let ?st = "qw_state w" and ?j = "mb_li ?b"
      have q: "0 \<le> ?j" "?j < int (length (ps_oh ?st))" "ps_start ?st \<le> ?j \<Longrightarrow> py_at (ps_pred_inds ?st) ?j = Inr None"
        using w li x(2) by (auto simp: quiet_def Let_def)
      have "prerouter_route (qt_R M) ?b x ?st = Inr (sel x)" using q(3) sel(1) [of x] by (simp add: prerouter_route_def Let_def)
      then obtain w' where w': "prerouter_call (qt_R M) ?b (qt_experts M li xs) (qt_replace M li) xs w L = Some (Inr (map ?row xs), w', L')"
        "ps_pred_inds (qw_state w') = ps_pred_inds ?st" "ps_start (qw_state w') = ps_start ?st" "length (ps_oh (qw_state w')) = length (ps_oh ?st)"
        using run(1) q(1,2) x by (simp add: prerouter_call_def Let_def)
      then have "quiet M w'" using w by (simp add: quiet_def Let_def)
      then show ?thesis using w'(1) run(2) \<open>qt_sparse M\<close> by (auto simp: qwen_ffn_def)
    qed
  qed
  then show ?thesis unfolding rowwise_qffn_def by (intro exI [of _ ?row]) blast
qed

definition qdec_step ::
  "('kv, 'm) qwen_lib \<Rightarrow> 'l qwen_text \<Rightarrow> (nat \<Rightarrow> row \<Rightarrow> row) \<Rightarrow> nat \<Rightarrow> real list list \<Rightarrow> 'kv qcache \<Rightarrow> real list list \<times> 'kv qcache" where
  "qdec_step F M g li x c =
     (let (a, c) = qatt_step F M li (map (qt_norm1 M li) x) c
      in (map (\<lambda>h. qwen_clip M (map2 (+) h (g li (qt_norm2 M li h)))) (add_rows x a), c))"

lemma qdec_step_chunked: "chunked (qdec_step F M g li) (qlayer_laws F M view li) (qlayer_same M view li)"
proof -
  have "qdec_step F M g li = (\<lambda>x c. (map (\<lambda>h. qwen_clip M (map2 (+) h (g li (qt_norm2 M li h)))) (add_rows x (fst (qatt_step F M li (map (qt_norm1 M li) x) c))),
      snd (qatt_step F M li (map (qt_norm1 M li) x) c)))"
    by (intro ext) (simp add: qdec_step_def split_beta)
  then show ?thesis using chunked_after [OF chunked_residual [OF chunked_before [OF qatt.chunked_axioms]]] by simp
qed

lemma qattention_mask_irrelevant:
  assumes "qwen_laws F view" and "length x = n"
  shows "qwen_attention F M li None (qx_fa_mask F n d) x (Some c) = (fst (qatt_step F M li x c), Some (snd (qatt_step F M li x c)))"
proof -
  have "qwen_attention F M li None (qx_fa_mask F n d) x (Some c) = qwen_attention F M li None (qx_fa_mask F n None) x (Some c)"
    using attn_mask_irrelevant [OF assms(1), of _ x d] assms(2) by (auto simp: qwen_attention_def)
  moreover have "snd (qwen_attention F M li s m x (Some c)) = Some (the (snd (qwen_attention F M li s m x (Some c))))" for s m
    by (simp add: qwen_attention_def split_beta)
  ultimately show ?thesis by (simp add: qatt_step_def assms(2) split_beta prod_eq_iff)
qed

lemma qdecoder_is_step:
  assumes "qwen_laws F view" and "rowwise_qffn F M Q P li (g li)" and "Q w" "P li L"
  shows "\<exists>h w' L'. qwen_decoder F M li None (qx_fa_mask F (length x) d) x (Some c) w L = Some (Inr (h, Some (snd (qdec_step F M g li x c)), w', L')) \<and>
    map (qwen_clip M) h = fst (qdec_step F M g li x c) \<and> Q w' \<and> P li L'"
proof -
  let ?a = "qatt_step F M li (map (qt_norm1 M li) x) c"
  let ?h = "add_rows x (fst ?a)"
  obtain w' L' where L': "qwen_ffn F M li (map (qt_norm2 M li) ?h) w L = Some (Inr (map (g li) (map (qt_norm2 M li) ?h), w', L'))" "Q w'" "P li L'"
    using assms(2-4) unfolding rowwise_qffn_def by blast
  show ?thesis
    using qattention_mask_irrelevant [OF assms(1), of "map (qt_norm1 M li) x" "length x" M li d c] L'
    by (simp add: qwen_decoder_def qdec_step_def split_beta add_rows_map [unfolded comp_def] comp_def)
qed

lemma qwen_loop_through:
  assumes "qwen_laws F view"
  shows "\<forall>li \<in> set lis. rowwise_qffn F M Q P li (g li) \<Longrightarrow> stack_ok (qlayer_laws F M view) lis cs \<Longrightarrow> states_ok P lis Ls \<Longrightarrow> Q w \<Longrightarrow>
    \<exists>w' Ls'. qwen_loop F M None (qx_fa_mask F (length x) d) (zip lis (zip (map Some cs) Ls)) x w =
      Some (Inr (fst (through (qdec_step F M g) lis x cs), zip (map Some (snd (through (qdec_step F M g) lis x cs))) Ls', w')) \<and>
      Q w' \<and> states_ok P lis Ls'"
proof (induction lis arbitrary: cs Ls w x)
  case (Cons li lis)
  obtain c cs' where cs: "cs = c # cs'" "qlayer_laws F M view li c" "stack_ok (qlayer_laws F M view) lis cs'" using Cons.prems(2) by (cases cs) auto
  obtain L Ls1 where Ls: "Ls = L # Ls1" "P li L" "states_ok P lis Ls1" using Cons.prems(3) by (auto simp: states_ok_def list_all2_Cons1)
  have g: "rowwise_qffn F M Q P li (g li)" using Cons.prems(1) by simp
  obtain h w1 L' where dec: "qwen_decoder F M li None (qx_fa_mask F (length x) d) x (Some c) w L = Some (Inr (h, Some (snd (qdec_step F M g li x c)), w1, L'))"
    "map (qwen_clip M) h = fst (qdec_step F M g li x c)" "Q w1" "P li L'"
    using qdecoder_is_step [where P = P and g = g, OF assms g Cons.prems(4) Ls(2)] by blast
  have "length (fst (qdec_step F M g li x c)) = length x" by (rule chunked.rows_call [OF qdec_step_chunked cs(2)])
  then obtain w' Ls' where "qwen_loop F M None (qx_fa_mask F (length x) d) (zip lis (zip (map Some cs') Ls1)) (fst (qdec_step F M g li x c)) w1 =
      Some (Inr (fst (through (qdec_step F M g) lis (fst (qdec_step F M g li x c)) cs'),
        zip (map Some (snd (through (qdec_step F M g) lis (fst (qdec_step F M g li x c)) cs'))) Ls', w'))" "Q w'" "states_ok P lis Ls'"
    using Cons.IH [of cs' Ls1 w1 "fst (qdec_step F M g li x c)"] Cons.prems(1) cs(3) Ls(3) dec(3) by auto
  then show ?case using dec by (intro exI [of _ w'] exI [of _ "L' # Ls'"]) (simp add: cs(1) Ls(1) states_ok_def)
qed (simp add: states_ok_def)

definition qmodel_step ::
  "('kv, 'm) qwen_lib \<Rightarrow> 'l qwen_text \<Rightarrow> (nat \<Rightarrow> row \<Rightarrow> row) \<Rightarrow> nat list \<Rightarrow> 'kv qcache list \<Rightarrow> real list list \<times> 'kv qcache list" where
  "qmodel_step F M g inputs cs =
     (map (\<lambda>r. (if qt_tied M then qt_as_linear M else qt_lm_head M) (qt_final M r))
        (fst (through (qdec_step F M g) [0..<qt_layers M] (map (qt_embed M) inputs) cs)),
      snd (through (qdec_step F M g) [0..<qt_layers M] (map (qt_embed M) inputs) cs))"

lemma qmodel_step_chunked:
  "chunked (qmodel_step F M g) (stack_ok (qlayer_laws F M view) [0..<qt_layers M]) (stack_same (qlayer_same M view) [0..<qt_layers M])"
  unfolding qmodel_step_def [abs_def]
  by (rule chunked_after [where call = "\<lambda>inputs. through (qdec_step F M g) [0..<qt_layers M] (map (qt_embed M) inputs)"],
      rule chunked_before, rule chunked_through, rule qdec_step_chunked)

definition rowwise_qmodel ::
  "('kv, 'm) qwen_lib \<Rightarrow> ('kv \<Rightarrow> toks \<times> toks) \<Rightarrow> 'l qwen_text \<Rightarrow> ((real, 'b) qworld \<Rightarrow> bool) \<Rightarrow> (nat \<Rightarrow> 'l \<Rightarrow> bool) \<Rightarrow> (nat \<Rightarrow> row \<Rightarrow> row) \<Rightarrow> bool" where
  "rowwise_qmodel F view M Q P g \<longleftrightarrow>
     qwen_laws F view \<and> (\<forall>li < qt_layers M. rowwise_qffn F M Q P li (g li)) \<and> 0 < qt_layers M \<and> qt_interval M \<le> qt_layers M"

lemma qwen_text_model_step:
  assumes M: "rowwise_qmodel F view M Q P g"
    and cs: "stack_ok (qlayer_laws F M view) [0..<qt_layers M] cs" and Ls: "states_ok P [0..<qt_layers M] Ls" and w: "Q w"
  shows "\<exists>w' Ls'. qwen_text_model F M inputs (Some cs) w Ls =
      Some (Inr (fst (qmodel_step F M g inputs cs), Some (snd (qmodel_step F M g inputs cs)), w', Ls')) \<and>
    Q w' \<and> states_ok P [0..<qt_layers M] Ls'"
proof -
  have m: "qwen_laws F view" "\<forall>li \<in> set [0..<qt_layers M]. rowwise_qffn F M Q P li (g li)" "0 < qt_layers M" "qt_interval M \<le> qt_layers M"
    using M by (simp_all add: rowwise_qmodel_def)
  have n: "length cs = qt_layers M" using cs by (simp add: stack_ok_iff)
  have ssm: "qx_ssm_mask F k c = None" for k c using m(1) by (simp add: qwen_laws_def)
  let ?t = "through (qdec_step F M g) [0..<qt_layers M] (map (qt_embed M) inputs) cs"
  let ?c = "Some (qa_kv (cs ! (qt_interval M - 1)))"
  obtain w' Ls' where loop: "qwen_loop F M None (qx_fa_mask F (length inputs) ?c) (zip [0..<qt_layers M] (zip (map Some cs) Ls))
      (map (qt_embed M) inputs) w = Some (Inr (fst ?t, zip (map Some (snd ?t)) Ls', w'))" "Q w'" "states_ok P [0..<qt_layers M] Ls'"
    using qwen_loop_through [OF m(1,2) cs Ls w, of "map (qt_embed M) inputs" ?c] by auto
  have "length (snd ?t) = length Ls'" using list_all2_lengthD [OF loop(3) [unfolded states_ok_def]] by (simp add: through_length)
  note un = unzip_caches [OF this]
  show ?thesis
    using loop m(3,4) n un by (intro exI [of _ w'] exI [of _ Ls']) (auto simp: qwen_text_model_def qmodel_step_def Let_def comp_def ssm)
qed

fun qmodel_chunks ::
  "('kv, 'm) qwen_lib \<Rightarrow> 'l qwen_text \<Rightarrow> nat list list \<Rightarrow> 'kv qcache list \<Rightarrow> (real, 'b) qworld \<Rightarrow> 'l list \<Rightarrow>
     (real list list \<times> 'kv qcache list \<times> (real, 'b) qworld \<times> 'l list) run" where
  "qmodel_chunks F M [] cs w Ls = Some (Inr ([], cs, w, Ls))"
| "qmodel_chunks F M (chunk # css) cs w Ls =
     run_bind (qwen_text_model F M chunk (Some cs) w Ls) (\<lambda>(logits, cs, w, Ls).
     run_bind (qmodel_chunks F M css (the cs) w Ls) (\<lambda>(later, cs, w, Ls). Some (Inr (logits @ later, cs, w, Ls))))"

lemma qmodel_chunks_run:
  assumes "rowwise_qmodel F view M Q P g"
  shows "stack_ok (qlayer_laws F M view) [0..<qt_layers M] cs \<Longrightarrow> states_ok P [0..<qt_layers M] Ls \<Longrightarrow> Q w \<Longrightarrow>
    \<exists>w' Ls'. qmodel_chunks F M css cs w Ls =
        Some (Inr (fst (run_chunks (qmodel_step F M g) css cs), snd (run_chunks (qmodel_step F M g) css cs), w', Ls')) \<and>
      Q w' \<and> states_ok P [0..<qt_layers M] Ls'"
proof (induction css arbitrary: cs Ls w)
  case (Cons chunk css)
  obtain w1 Ls1 where one: "qwen_text_model F M chunk (Some cs) w Ls =
      Some (Inr (fst (qmodel_step F M g chunk cs), Some (snd (qmodel_step F M g chunk cs)), w1, Ls1))" "Q w1" "states_ok P [0..<qt_layers M] Ls1"
    using qwen_text_model_step [OF assms Cons.prems] by blast
  have "stack_ok (qlayer_laws F M view) [0..<qt_layers M] (snd (qmodel_step F M g chunk cs))"
    by (rule chunked.ok_call [OF qmodel_step_chunked Cons.prems(1)])
  then obtain w' Ls' where "qmodel_chunks F M css (snd (qmodel_step F M g chunk cs)) w1 Ls1 =
      Some (Inr (fst (run_chunks (qmodel_step F M g) css (snd (qmodel_step F M g chunk cs))),
        snd (run_chunks (qmodel_step F M g) css (snd (qmodel_step F M g chunk cs))), w', Ls'))" "Q w'" "states_ok P [0..<qt_layers M] Ls'"
    using Cons.IH one(2,3) by blast
  then show ?case using one(1) by (simp add: split_beta Let_def)
qed simp

text \<open>
  C7: without predictions, the logits of qwen do not depend on how the sequence is cut. Let the prerouter's
  state hold no prediction for any layer (after a reset, through prefill, and until the stager has run), or the
  blocks be unpatched; let every sparse block's experts answer each routed slot from its token and
  expert alone under an invariant of their state, as a streaming layer does with nothing staged
  (\<open>forward_answers\<close>), with sizes that fit the router; and let the linear layers' convolution span more than
  one row. From any caches of the right shape, the patched model run over the chunks of a prompt one after the
  other, down to single tokens, gives every position the logits of one pass over the whole sequence, leaves
  every attention cache with the same content, makes no prediction, and keeps the invariant of the experts.
  Decode steps routed by the previous token's predictions are outside it.
\<close>

theorem qwen_chunked_prefill_exact:
  fixes w :: "(real, 'b) qworld"
  assumes "qwen_laws F view" and "0 < qt_layers M" and "qt_interval M \<le> qt_layers M"
    and "\<forall>li < qt_layers M. qt_sparse M \<longrightarrow> qblock_laws M P li" and "quiet M w"
    and "length cs = qt_layers M" and "\<forall>li < qt_layers M. qlayer_laws F M view li (cs ! li)"
    and "length Ls = qt_layers M" and "\<forall>li < qt_layers M. P li (Ls ! li)" and "css \<noteq> []"
  shows "\<exists>logits cs' w' Ls' ds' v' Ks'. qmodel_chunks F M css cs w Ls = Some (Inr (logits, cs', w', Ls')) \<and>
    qwen_text_model F M (concat css) (Some cs) w Ls = Some (Inr (logits, Some ds', v', Ks')) \<and> quiet M w' \<and> quiet M v' \<and>
    (\<forall>li < qt_layers M. qlayer_same M view li (ds' ! li) (cs' ! li) \<and> P li (Ls' ! li) \<and> P li (Ks' ! li))"
proof -
  let ?lis = "[0..<qt_layers M]"
  have ok: "stack_ok (qlayer_laws F M view) ?lis cs" "states_ok P ?lis Ls"
    using assms(6-9) by (simp_all add: stack_ok_iff states_ok_def list_all2_conv_all_nth)
  have "\<exists>g. rowwise_qffn F M (quiet M :: (real, 'b) qworld \<Rightarrow> bool) P li g" if "li < qt_layers M" for li
    using qblock_rowwise that assms(4) by blast
  then obtain g where "\<forall>li < qt_layers M. rowwise_qffn F M (quiet M :: (real, 'b) qworld \<Rightarrow> bool) P li (g li)" by metis
  then have M: "rowwise_qmodel F view M (quiet M :: (real, 'b) qworld \<Rightarrow> bool) P g" using assms(1-3) by (simp add: rowwise_qmodel_def)
  note run = chunked.run_chunks_exact [OF qmodel_step_chunked [where g = g] ok(1) assms(10)]
  obtain w' Ls' where Ls': "qmodel_chunks F M css cs w Ls =
      Some (Inr (fst (run_chunks (qmodel_step F M g) css cs), snd (run_chunks (qmodel_step F M g) css cs), w', Ls'))" "quiet M w'" "states_ok P ?lis Ls'"
    using qmodel_chunks_run [OF M ok assms(5)] by blast
  obtain v' Ks' where Ks': "qwen_text_model F M (concat css) (Some cs) w Ls =
      Some (Inr (fst (qmodel_step F M g (concat css) cs), Some (snd (qmodel_step F M g (concat css) cs)), v', Ks'))" "quiet M v'" "states_ok P ?lis Ks'"
    using qwen_text_model_step [OF M ok assms(5)] by blast
  have "qlayer_same M view li (snd (qmodel_step F M g (concat css) cs) ! li) (snd (run_chunks (qmodel_step F M g) css cs) ! li)"
    if "li < qt_layers M" for li
    using stack_same_nth [OF conjunct2 [OF run] qatt.same_refl, of li] that by simp
  moreover have "P li (Ls' ! li)" "P li (Ks' ! li)" if "li < qt_layers M" for li
    using Ls'(3) Ks'(3) that by (auto simp: states_ok_def list_all2_conv_all_nth)
  ultimately show ?thesis using Ls'(1,2) Ks'(1,2) conjunct1 [OF run] by auto
qed

section \<open>A small model\<close>

definition demo_qlib :: "(toks \<times> toks, unit) qwen_lib" where
  "demo_qlib = \<lparr>qx_silu = (\<lambda>v. v), qx_sigmoid = (\<lambda>v. v), qx_sqrt = sqrt, qx_rms = id,
     qx_delta = (\<lambda>A dt q k v a b st m. scan (\<lambda>(q, k, v, a, b) s. (map2 (map2 (+)) v (hd s), [map2 (map2 (+)) v (hd s)]))
       (zip q (zip k (zip v (zip a b)))) (case st of None \<Rightarrow> [[[0]]] | Some s \<Rightarrow> s)),
     qx_sdpa = bx_sdpa demo_lib, qx_fa_mask = (\<lambda>n c. ()), qx_ssm_mask = (\<lambda>n c. None),
     qx_rope = (\<lambda>n xs. map (\<lambda>(p, x). map (map (\<lambda>v. v + real p)) x) (enumerate n xs)),
     qx_offset = bx_offset demo_lib, qx_update = bx_update demo_lib, qx_kv0 = ([], [])\<rparr>"

definition demo_gdn :: gdn where
  "demo_gdn = \<lparr>gn_v_heads = 1, gn_k_heads = 1, gn_k_dim = 1, gn_v_dim = 1, gn_ksize = 2, gn_conv = demo_conv,
     gn_qkv = (\<lambda>r. r @ r @ r), gn_z = id, gn_b = id, gn_a = id, gn_A_log = [0], gn_dt_bias = [0], gn_norm = id, gn_out = id\<rparr>"

definition demo_attn :: attn where
  "demo_attn = \<lparr>an_heads = 1, an_kv_heads = 1, an_dim = 1, an_q = (\<lambda>r. r @ r), an_k = id, an_v = id, an_o = id, an_q_norm = id, an_k_norm = id\<rparr>"

text \<open>Two sparse layers of six experts that stream with nothing staged; both blocks are patched, no prediction was made.\<close>

definition demo_qwen :: "bmap slayer qwen_text" where
  "demo_qwen = \<lparr>qt_layers = 2, qt_interval = 2, qt_gdn = (\<lambda>_. demo_gdn), qt_attn = (\<lambda>_. demo_attn), qt_norm1 = (\<lambda>_. id), qt_norm2 = (\<lambda>_. id),
     qt_sparse = True, qt_dense = (\<lambda>_. (id, id, id)), qt_R = demo_rk,
     qt_block = (\<lambda>li. \<lparr>mb_gate = (\<lambda>x. map (\<lambda>i. real i * sum_list x) [0..<6]), mb_top_k = 2, mb_norm = True, mb_num = 6,
       mb_shared = id, mb_li = int li, mb_enabled = True\<rparr>),
     qt_experts = (\<lambda>_ xs is. forward demo_vkernels True (\<lambda>e. Inr (demo_f (3, e))) ([], id) Late xs (Some is)), qt_replace = (\<lambda>_. False),
     qt_embed = (\<lambda>t. [real t]), qt_clip = 1000, qt_final = id, qt_tied = True, qt_as_linear = (\<lambda>r. r @ r), qt_lm_head = id\<rparr>"

definition demo_quiet :: "(real, bmap) qworld" where
  "demo_quiet = \<lparr>qw_state = pstate_new 2 6 1 None, qw_m_in = (\<lambda>_. None), qw_oh = (\<lambda>_. None), qw_layers = []\<rparr>"

lemma demo_qblock_laws: "qblock_laws demo_qwen demo_streams li"
proof -
  have "answers (qt_experts demo_qwen li) 6 (demo_streams li) (\<lambda>x e. expert_out demo_vkernels True (demo_f (3, e)) x)"
    using forward_answers [OF demo_vkernels_ok(1) demo_block_ok(4), where fused = True and bld = "\<lambda>e. Inr (demo_f (3, e))" and t = Late and f = demo_f and i = 3]
    by (simp add: demo_qwen_def)
  then show ?thesis using demo_rk_ok by (auto simp: qblock_laws_def Let_def demo_qwen_def)
qed

lemma demo_quiet_ok: "quiet demo_qwen demo_quiet"
  by (auto simp: quiet_def demo_quiet_def demo_qwen_def pstate_new_def nones_def Let_def)

lemma demo_qlaws: "qwen_laws demo_qlib demo_view" "gdn_laws demo_gdn"
proof -
  have "\<exists>dl init. scans dl \<and> (\<forall>q k v a b st. qx_delta demo_qlib A dt q k v a b st None = dl q k v a b (case st of None \<Rightarrow> init | Some s \<Rightarrow> s))" for A dt
    by (rule exI [of _ "\<lambda>q k v a b s. scan (\<lambda>(q, k, v, a, b) s. (map2 (map2 (+)) v (hd s), [map2 (map2 (+)) v (hd s)])) (zip q (zip k (zip v (zip a b)))) s"],
        rule exI [of _ "[[[0]]]"]) (auto simp: demo_qlib_def scans_def)
  moreover have "positional (qx_rope demo_qlib)" unfolding positional_def demo_qlib_def by auto
  moreover have "causal (qx_sdpa demo_qlib s) (qx_fa_mask demo_qlib)" "appends (qx_offset demo_qlib) (qx_update demo_qlib) demo_view" for s
    using demo_laws(1) by (auto simp: bail_laws_def demo_qlib_def demo_lib_def causal_def)
  ultimately show "qwen_laws demo_qlib demo_view" by (simp add: qwen_laws_def delta_law_def) (simp add: demo_qlib_def)
  have "windowed 2 demo_conv" unfolding windowed_def by (rule exI [of _ "\<lambda>w. map2 (+) (w ! 0) (w ! 1)"]) (simp add: demo_conv_def)
  then show "gdn_laws demo_gdn" by (simp add: gdn_laws_def demo_gdn_def)
qed

theorem qwen_chunked_prefill_exact_witness:
  "\<exists>logits cs' w' Ls' ds' v' Ks'.
    qmodel_chunks demo_qlib demo_qwen [[1], [2, 3, 4, 5, 6]] (qwen_make_cache demo_qlib demo_qwen) demo_quiet [demo_block, demo_block] =
      Some (Inr (logits, cs', w', Ls')) \<and>
    qwen_text_model demo_qlib demo_qwen [1, 2, 3, 4, 5, 6] (Some (qwen_make_cache demo_qlib demo_qwen)) demo_quiet [demo_block, demo_block] =
      Some (Inr (logits, Some ds', v', Ks')) \<and> quiet demo_qwen w' \<and> quiet demo_qwen v' \<and>
    (\<forall>li < qt_layers demo_qwen. qlayer_same demo_qwen demo_view li (ds' ! li) (cs' ! li) \<and> demo_streams li (Ls' ! li) \<and> demo_streams li (Ks' ! li))"
proof -
  have n: "qt_layers demo_qwen = 2" "qt_interval demo_qwen = 2" by (simp_all add: demo_qwen_def)
  have "qlayer_laws demo_qlib demo_qwen demo_view li (qwen_make_cache demo_qlib demo_qwen ! li)" if "li < qt_layers demo_qwen" for li
    using that demo_qlaws by (simp add: qlayer_laws_def qwen_make_cache_def demo_qwen_def gdn_cache_ok_def conv_state_ok_def)
  moreover have "demo_streams li ([demo_block, demo_block] ! li)" if "li < qt_layers demo_qwen" for li
    using that demo_block_streams n by (cases "li = 0") (simp_all add: nth_Cons')
  moreover have "length (qwen_make_cache demo_qlib demo_qwen) = qt_layers demo_qwen" by (simp add: qwen_make_cache_def)
  ultimately show ?thesis
    using qwen_chunked_prefill_exact [where P = demo_streams and css = "[[1], [2, 3, 4, 5, 6]]" and Ls = "[demo_block, demo_block]"
          and M = demo_qwen and w = demo_quiet and cs = "qwen_make_cache demo_qlib demo_qwen", OF demo_qlaws(1)]
      demo_qblock_laws demo_quiet_ok n by simp
qed

end
