(* ===== verification/Stage_Failure.thy ===== *)
theory Stage_Failure
  imports Zero_Drops
begin

text \<open>
  What a failing build leaves of the incremental stack (\<open>_stage_incr\<close> of \<open>edge0/streaming/layer.py\<close>): the
  occupancy list is updated in place before and between the builds, the held bundles, the slot table and the
  resident rows only after all of them.
\<close>

lemma incr_assign_bundles:
  "incr_assign bld new a L = (Inr a', L') \<Longrightarrow> map_of (a_bundles a) e \<noteq> None \<or> (\<exists>s. (e, Some s) \<in> set new) \<Longrightarrow>
     map_of (a_bundles a') e \<noteq> None"
proof (induction bld new a L arbitrary: a' L' rule: incr_assign.induct)
  case (3 bld d slot rest a L)
  obtain b M where r: "resolve bld (\<not> s_writeback L) d L = (Inr b, M)" and d: "d < length (a_slots a)"
    using 3(2) by (auto split: prod.splits sum.splits if_splits simp: Let_def)
  let ?a = "\<lparr>a_bundles = AList.update d b (a_bundles a), a_slots = (a_slots a)[d := slot], a_writes = a_writes a @ [(slot, b)]\<rparr>"
  have run: "incr_assign bld rest ?a (M\<lparr>s_occ := (s_occ M)[slot := Some d]\<rparr>) = (Inr a', L')"
    using 3(2) d by (simp add: r Let_def)
  have "map_of (a_bundles ?a) e \<noteq> None \<or> (\<exists>s. (e, Some s) \<in> set rest)"
    using 3(3) by (auto simp: update_conv')
  then show ?case using 3(1) [OF r [symmetric] refl refl d run] by blast
qed auto

lemma incr_assign_occ:
  "incr_assign bld new a L = (r, L') \<Longrightarrow> s_occ L' ! i = Some e \<Longrightarrow> s_occ L ! i = Some e \<or> e \<in> fst ` set new"
proof (induction bld new a L arbitrary: r L' rule: incr_assign.induct)
  case (3 bld d slot rest a L)
  obtain q M where q: "resolve bld (\<not> s_writeback L) d L = (q, M)" by fastforce
  have occ: "s_occ M = s_occ L" using resolve_shape [of bld "\<not> s_writeback L" d L] q by auto
  show ?case
  proof (cases q)
    case (Inl err)
    then show ?thesis using 3(2,3) q occ by simp
  next
    case (Inr b)
    have new: "(s_occ M)[slot := Some d] ! i = Some e \<Longrightarrow> s_occ L ! i = Some e \<or> e = d"
      by (cases "i = slot"; cases "slot < length (s_occ M)") (auto simp: occ list_update_beyond)
    show ?thesis
    proof (cases "d < length (a_slots a)")
      case True
      have run: "incr_assign bld rest \<lparr>a_bundles = AList.update d b (a_bundles a), a_slots = (a_slots a)[d := slot],
          a_writes = a_writes a @ [(slot, b)]\<rparr> (M\<lparr>s_occ := (s_occ M)[slot := Some d]\<rparr>) = (r, L')"
        using 3(2) True by (simp add: q Inr Let_def)
      show ?thesis using 3(1) [OF q [symmetric] Inr refl True run 3(3)] new by auto
    next
      case False
      then show ?thesis using 3(2,3) new by (auto simp: q Inr Let_def)
    qed
  qed
qed auto

text \<open>The occupancy of a coherent stack is determined by what is held and by the table.\<close>

lemma slots_ok_occ:
  assumes "slots_ok n num z g occ held tbl rows" and "slots_ok n num z g occ' held tbl rows"
  shows "occ = occ'"
proof -
  have half: "o2 ! i = Some e" if o1: "slots_ok n num z g o1 held tbl rows" and o2: "slots_ok n num z g o2 held tbl rows"
    and i: "i < n" "o1 ! i = Some e" for o1 o2 i e
  proof -
    have e: "e \<in> dom (map_of held)" "tbl ! e = i" using o1 i unfolding slots_ok_def by blast+
    then obtain j where "j < n" "o2 ! j = Some e" "tbl ! e = j" using o2 unfolding slots_ok_def by blast
    then show ?thesis using e(2) by simp
  qed
  show ?thesis
  proof (rule nth_equalityI)
    show "length occ = length occ'" using assms by (simp add: slots_ok_def)
    show "occ ! i = occ' ! i" if "i < length occ" for i
    proof (cases "occ ! i")
      case (Some e)
      then show ?thesis using half [OF assms] that assms(1) by (simp add: slots_ok_def)
    next
      case None
      then show ?thesis using half [OF assms(2,1), of i] that assms(1) by (cases "occ' ! i") (simp_all add: slots_ok_def)
    qed
  qed
qed

lemma assign_slots_fst [simp]: "map fst (assign_slots es free) = es"
  by (induction es free rule: assign_slots.induct) auto

lemma assign_slots_all:
  assumes "length es \<le> length free" and "e \<in> set es"
  shows "\<exists>s. (e, Some s) \<in> set (assign_slots es free)"
proof -
  obtain i where "i < length es" "es ! i = e" using assms(2) by (auto simp: in_set_conv_nth)
  then have "(e, free ! i) \<in> set (zip es free)" using assms(1) by (auto simp: set_zip)
  then show ?thesis using assms(1) by (force simp: assign_slots_zip)
qed

text \<open>A staging fails in a build (or in an index); everything but the occupancy is as the allocation left it.\<close>

lemma stage_incr_fails:
  assumes ok: "incr_ok f L" and es: "\<forall>e \<in> set es. e < l_num L" and fail: "stage_incr bld es L = (Inl err, L')"
  shows "s_held L' = s_held L" "s_rows L' = s_rows (incr_alloc L)" "s_table L' = s_table (incr_alloc L)" "same_slots L L'"
    "s_next L' = s_next L" "s_state L' = s_state L"
    and "s_occ L' ! i = Some e \<Longrightarrow> keep_occ (staged_set (s_n L) es) (s_occ (incr_alloc L)) ! i = Some e \<or>
      e \<in> set (staged_set (s_n L) es) \<and> map_of (s_held L) e = None"
proof -
  let ?A = "incr_alloc L" and ?sel = "staged_set (s_n L) es"
  define occ where "occ = keep_occ ?sel (s_occ ?A)"
  define L2 where "L2 = ?A\<lparr>s_occ := occ\<rparr>"
  define changed where "changed = filter (\<lambda>e. map_of (s_held L) e = None) ?sel"
  define new where "new = assign_slots changed (free_slots occ)"
  define kept where "kept = map (\<lambda>e. (e, the (map_of (s_held L) e))) (filter (\<lambda>e. map_of (s_held L) e \<noteq> None) ?sel)"
  have A: "s_held ?A = s_held L" "l_num ?A = l_num L" "same_slots L ?A" "s_next ?A = s_next L" "s_state ?A = s_state L"
    using incr_alloc_same [of L] by (simp_all add: incr_alloc_def same_slots_def split: option.split)
  have fields: "s_held L2 = s_held L" "l_num L2 = l_num L" using A by (simp_all add: L2_def)
  obtain rows where slots: "slots_ok (s_n L) (l_num L) (s_zero L) (\<lambda>e. f (l_idx L, e)) (s_occ ?A) (s_held L) (s_table ?A) rows"
    using incr_alloc_ok [OF ok] by blast
  have enough: "length changed \<le> length (free_slots occ)"
    unfolding changed_def occ_def by (rule enough_slots [OF slots staged_set_props(1,2)])
  have run: "stage_incr bld es L = (case occ_slots 0 occ (replicate (l_num L) (s_n L)) of
      Inl err \<Rightarrow> (Inl err, L2)
    | Inr slot_of \<Rightarrow> (case incr_assign bld new \<lparr>a_bundles = kept, a_slots = slot_of, a_writes = []\<rparr> L2 of
        (Inl err, L3) \<Rightarrow> (Inl err, L3)
      | (Inr a, L3) \<Rightarrow> (res_bind (res_map (held_bundle (a_bundles a)) ?sel) (\<lambda>bs. Inr (bs, a_slots a, ?sel)),
          snd (stage_incr bld es L))))"
    by (simp only: stage_incr_def Let_def occ_def [symmetric] L2_def [symmetric] fields changed_def [symmetric] new_def [symmetric]
        kept_def [symmetric]) (simp split: sum.split prod.split)
  have held_all: "map_of (a_bundles a) e \<noteq> None"
    if a: "incr_assign bld new \<lparr>a_bundles = kept, a_slots = so, a_writes = []\<rparr> L2 = (Inr a, L3)" and e: "e \<in> set ?sel" for a so L3 e
  proof (rule incr_assign_bundles [OF a])
    have "map_of kept e \<noteq> None" if "map_of (s_held L) e \<noteq> None"
      using that e by (simp add: kept_def map_of_map_restrict restrict_map_def)
    moreover have "\<exists>s. (e, Some s) \<in> set new" if "map_of (s_held L) e = None"
      unfolding new_def by (rule assign_slots_all [OF enough]) (simp add: changed_def e that)
    ultimately show "map_of (a_bundles \<lparr>a_bundles = kept, a_slots = so, a_writes = []\<rparr>) e \<noteq> None \<or> (\<exists>s. (e, Some s) \<in> set new)" by auto
  qed
  have all: "\<exists>bs. res_map (held_bundle (a_bundles a)) ?sel = Inr bs"
    if a: "incr_assign bld new \<lparr>a_bundles = kept, a_slots = so, a_writes = []\<rparr> L2 = (Inr a, L3)" for a so L3
    by (rule exI, rule res_map_all_Inr [where g = "\<lambda>e. the (map_of (a_bundles a) e)"])
      (use held_all [OF a] in \<open>auto simp: held_bundle_def split: option.splits\<close>)
  have "\<exists>c st oc. L' = L2\<lparr>l_cache := c, s_sstats := st, s_occ := oc\<rparr> \<and>
      (\<forall>i e. oc ! i = Some e \<longrightarrow> occ ! i = Some e \<or> e \<in> set changed)"
  proof (cases "occ_slots 0 occ (replicate (l_num L) (s_n L))")
    case (Inl x)
    then have "L' = L2" using fail by (subst (asm) run) simp
    then show ?thesis by (intro exI [of _ "l_cache ?A"] exI [of _ "s_sstats ?A"] exI [of _ occ]) (simp add: L2_def)
  next
    case (Inr so)
    obtain r L3 where r: "incr_assign bld new \<lparr>a_bundles = kept, a_slots = so, a_writes = []\<rparr> L2 = (r, L3)" by fastforce
    have "\<exists>x. r = Inl x"
    proof (rule ccontr)
      assume "\<nexists>x. r = Inl x"
      then obtain a where a: "r = Inr a" by (cases r) auto
      then show False using all [of so a L3] r fail Inr by (subst (asm) run) auto
    qed
    then have L3: "L' = L3" using fail r Inr by (subst (asm) run) auto
    obtain c st oc where sh: "L3 = L2\<lparr>l_cache := c, s_sstats := st, s_occ := oc\<rparr>"
      using incr_assign_shape [of bld new "\<lparr>a_bundles = kept, a_slots = so, a_writes = []\<rparr>" L2] r by auto
    have "fst ` set new = set changed" by (metis assign_slots_fst new_def set_map)
    then have "oc ! i = Some e \<Longrightarrow> occ ! i = Some e \<or> e \<in> set changed" for i e
      using incr_assign_occ [OF r, of i e] by (simp add: sh L2_def)
    then show ?thesis using L3 sh by blast
  qed
  then obtain c st oc where L': "L' = L2\<lparr>l_cache := c, s_sstats := st, s_occ := oc\<rparr>"
    and oc: "oc ! i = Some e \<Longrightarrow> occ ! i = Some e \<or> e \<in> set changed" by blast
  show "s_held L' = s_held L" "s_rows L' = s_rows ?A" "s_table L' = s_table ?A" "same_slots L L'" "s_next L' = s_next L" "s_state L' = s_state L"
    using A by (simp_all add: L' L2_def same_slots_def)
  show "keep_occ ?sel (s_occ ?A) ! i = Some e \<or> e \<in> set ?sel \<and> map_of (s_held L) e = None" if "s_occ L' ! i = Some e"
    using oc that by (auto simp: L' occ_def changed_def)
qed


text \<open>The layer of the example in \<open>Staging\<close>: experts 0, 1 and 4 are staged, and replacing 1 by 5 fails to build 5.\<close>

definition staged_014 :: "nat slayer" where
  "staged_014 = snd (stage_incr (\<lambda>e. Inr (100 + e)) [0, 1, 4] demo_slayer)"

lemma staged_014_ok: "incr_ok (\<lambda>(i, e). 100 + e) staged_014"
proof -
  have "builds_all (\<lambda>(i, e). 100 + e) demo_slayer (\<lambda>e. Inr (100 + e))" by (simp add: builds_all_def)
  from stage_incr_correct [OF demo_slayer_ok(2,1) this, of "[0, 1, 4]"] show ?thesis
    unfolding staged_014_def by (auto simp: demo_slayer_fields)
qed


end
